(* ===== verification/Prelude.thy ===== *)
theory Prelude
  imports Complex_Main "HOL-Library.Word" "HOL-Library.Multiset"
begin

text \<open>
  Vocabulary and automation shared by the component theories: the C types of the job system
  (fixed-width words, \<open>time_t\<close>, addresses, bounded strings), the scan loops the sources
  repeat over their arrays, and the generic list and multiset facts the component proofs use.

  Conventions.  A record value stands for the structure a valid handle points to, so the
  tests of a handle against the null pointer have no counterpart.  Plain \<open>int\<close> counters of the
  sources are mathematical integers (their overflow would be undefined behaviour), every
  unsigned type is a word of its width, and each reading of the clock a function makes is a
  separate argument, in the order of the calls.
\<close>

section \<open>Types of the C sources\<close>

type_synonym u64 = "64 word"
type_synonym u32 = "32 word"
type_synonym u8 = "8 word"
type_synonym time_t = int
type_synonym ptr = nat

abbreviation (input) NULL :: ptr where "NULL \<equiv> 0"

definition to_time :: "u64 \<Rightarrow> time_t" where
  "to_time w = sint w"

definition time_plus :: "time_t \<Rightarrow> u64 \<Rightarrow> time_t" where
  "time_plus t d = to_time (word_of_int t + d)"

definition strncpy_buf :: "nat \<Rightarrow> string \<Rightarrow> string" where
  "strncpy_buf n s = take (n - 1) s"

definition find_idx :: "('a \<Rightarrow> bool) \<Rightarrow> 'a list \<Rightarrow> nat \<Rightarrow> nat option" where
  "find_idx P xs n = find (\<lambda>i. P (xs ! i)) [0..<n]"

definition opt_index :: "nat option \<Rightarrow> int" where
  "opt_index r = (case r of None \<Rightarrow> -1 | Some i \<Rightarrow> int i)"

definition count_upto :: "('a \<Rightarrow> bool) \<Rightarrow> 'a list \<Rightarrow> nat \<Rightarrow> nat" where
  "count_upto P xs n = length (filter P (take n xs))"

definition swap_at :: "'a list \<Rightarrow> nat \<Rightarrow> nat \<Rightarrow> 'a list" where
  "swap_at xs i j = xs[i := xs ! j, j := xs ! i]"

text \<open>\<open>%llu\<close> of a 64-bit value: its decimal digits.\<close>

fun dec_digits :: "nat \<Rightarrow> string" where
  "dec_digits n = (if n < 10 then [char_of (48 + n)] else dec_digits (n div 10) @ [char_of (48 + n mod 10)])"

declare dec_digits.simps [simp del]

definition fmt_llu :: "u64 \<Rightarrow> string" where
  "fmt_llu w = dec_digits (unat w)"

text \<open>Removing the first occurrence of a value by moving the last element into its place.\<close>

definition swap_remove :: "'a \<Rightarrow> 'a list \<Rightarrow> 'a list option" where
  "swap_remove x xs =
     (case find_idx ((=) x) xs (length xs) of
        None \<Rightarrow> None
      | Some i \<Rightarrow> Some (butlast (xs[i := last xs])))"

named_theorems job_defs "operations unfolded by the component proofs"

section \<open>Scans over arrays\<close>

lemma find_idx_Some_iff:
  "find_idx P xs n = Some i \<longleftrightarrow> i < n \<and> P (xs ! i) \<and> (\<forall>j < i. \<not> P (xs ! j))"
  unfolding find_idx_def find_Some_iff
  by auto

lemma find_idx_None_iff: "find_idx P xs n = None \<longleftrightarrow> (\<forall>i < n. \<not> P (xs ! i))"
  by (auto simp: find_idx_def find_None_iff)

lemma find_idx_SomeD [dest]:
  "find_idx P xs n = Some i \<Longrightarrow> i < n \<and> P (xs ! i)"
  by (simp add: find_idx_Some_iff)

lemma opt_index_nonneg [simp]: "0 \<le> opt_index r \<longleftrightarrow> r \<noteq> None"
  by (cases r) (auto simp: opt_index_def)

lemma opt_index_simps [simp]: "opt_index None = -1" "opt_index (Some i) = int i"
  by (simp_all add: opt_index_def)

section \<open>Arrays\<close>

lemma length_swap_at [simp]: "length (swap_at xs i j) = length xs"
  by (simp add: swap_at_def)

lemma nth_swap_at:
  "i < length xs \<Longrightarrow> j < length xs \<Longrightarrow>
   swap_at xs i j ! k = (if k = j then xs ! i else if k = i then xs ! j else xs ! k)"
  by (auto simp: swap_at_def nth_list_update)

lemma take_swap_at:
  "i < n \<Longrightarrow> j < n \<Longrightarrow> n \<le> length xs \<Longrightarrow> take n (swap_at xs i j) = swap_at (take n xs) i j"
  by (simp add: swap_at_def take_update_swap)

lemma mset_swap_at [simp]:
  "i < length xs \<Longrightarrow> j < length xs \<Longrightarrow> mset (swap_at xs i j) = mset xs"
  unfolding swap_at_def by (rule mset_swap)

lemma mset_take_swap_at:
  "i < n \<Longrightarrow> j < n \<Longrightarrow> n \<le> length xs \<Longrightarrow> mset (take n (swap_at xs i j)) = mset (take n xs)"
  by (simp add: take_swap_at)

lemma mset_take_Suc:
  "n < length xs \<Longrightarrow> mset (take (Suc n) xs) = add_mset (xs ! n) (mset (take n xs))"
  by (simp add: take_Suc_conv_app_nth)

lemma in_set_take_conv_nth:
  "n \<le> length xs \<Longrightarrow> x \<in> set (take n xs) \<longleftrightarrow> (\<exists>i < n. xs ! i = x)"
  by (auto simp: in_set_conv_nth)

lemma mset_take_update:
  assumes "i < n" "n \<le> length xs"
  shows "mset (take n (xs[i := x])) = add_mset x (mset (take n xs) - {#xs ! i#})"
  using assms by (simp add: take_update_swap mset_update)

lemma mset_drop_last_over:
  assumes "n < length xs" "i \<le> n"
  shows "mset (take n (xs[i := xs ! n])) = mset (take (Suc n) xs) - {#xs ! i#}"
proof (cases "i = n")
  case True
  then show ?thesis using assms by (simp add: mset_take_Suc)
next
  case False
  then have "xs ! i \<in># mset (take n xs)"
    using assms by (auto simp: in_set_take_conv_nth intro!: exI [of _ i])
  then show ?thesis
    using False assms by (simp add: mset_take_update mset_take_Suc)
qed

lemma image_mset_replace:
  assumes "x \<in># M" "f y = f x"
  shows "image_mset f (add_mset y (M - {#x#})) = image_mset f M"
proof -
  have "image_mset f M = image_mset f (add_mset x (M - {#x#}))" using assms(1) by simp
  then show ?thesis using assms(2) by simp
qed

lemma mset_butlast_update:
  assumes "i < length xs"
  shows "mset (butlast (xs[i := last xs])) = mset xs - {#xs ! i#}"
proof -
  have ne: "xs \<noteq> []" using assms by auto
  define n where "n = length xs - 1"
  have n: "n < length xs" "length xs = Suc n" "last xs = xs ! n"
    using ne by (auto simp: n_def last_conv_nth)
  have "butlast (xs[i := last xs]) = take n (xs[i := xs ! n])"
    using n by (simp add: butlast_conv_take)
  then show ?thesis using mset_drop_last_over [of n xs i] n assms by simp
qed

lemma swap_remove_None: "swap_remove x xs = None \<longleftrightarrow> x \<notin> set xs"
  by (auto simp: swap_remove_def find_idx_None_iff in_set_conv_nth split: option.splits)

lemma swap_remove_Some:
  assumes "swap_remove x xs = Some ys"
  shows "x \<in> set xs" "mset xs = add_mset x (mset ys)" "length xs = Suc (length ys)"
proof -
  obtain i where i: "i < length xs" "xs ! i = x" "ys = butlast (xs[i := last xs])"
    using assms by (auto simp: swap_remove_def split: option.splits)
  show x: "x \<in> set xs" using i by auto
  then show "mset xs = add_mset x (mset ys)" using i mset_butlast_update [OF i(1)] by simp
  then have "size (mset xs) = size (add_mset x (mset ys))" by simp
  then show "length xs = Suc (length ys)" by simp
qed

lemma swap_remove_distinct:
  assumes "swap_remove x xs = Some ys" "distinct xs"
  shows "distinct ys" "set ys = set xs - {x}"
proof -
  have m: "mset xs = mset (x # ys)" using swap_remove_Some(2) [OF assms(1)] by simp
  then have "distinct (x # ys)" using assms(2) mset_eq_imp_distinct_iff by blast
  then show "distinct ys" "set ys = set xs - {x}" using mset_eq_setD [OF m] by auto
qed

end
