(* ===== verification/Binary_Heap.thy ===== *)
theory Binary_Heap
  imports Prelude
begin

text \<open>
  Binary heaps in arrays: what the two sift loops that several sources contain have in common.  The locale
  \<open>binary_heap\<close> takes the loops of a source by their defining equations and shows that they restore the heap order and
  keep the elements; \<open>delayed_queue.c\<close> and \<open>message_queue.c\<close> provide instances.
\<close>

section \<open>Heap order\<close>

definition heap_ord :: "('a \<Rightarrow> 'k :: linorder) \<Rightarrow> 'a list \<Rightarrow> nat \<Rightarrow> bool" where
  "heap_ord key h n \<longleftrightarrow> (\<forall>i < n. 0 < i \<longrightarrow> key (h ! ((i - 1) div 2)) \<le> key (h ! i))"

text \<open>One slot may be out of order with its parent (its key may be too small), or with its children (its key may be too
  large); its children are still bounded by its parent.\<close>

definition heap_but_up :: "('a \<Rightarrow> 'k :: linorder) \<Rightarrow> 'a list \<Rightarrow> nat \<Rightarrow> nat \<Rightarrow> bool" where
  "heap_but_up key h n k \<longleftrightarrow>
     (\<forall>i < n. 0 < i \<longrightarrow> i \<noteq> k \<longrightarrow> key (h ! ((i - 1) div 2)) \<le> key (h ! i)) \<and>
     (\<forall>i < n. 0 < i \<longrightarrow> (i - 1) div 2 = k \<longrightarrow> 0 < k \<longrightarrow> key (h ! ((k - 1) div 2)) \<le> key (h ! i))"

definition heap_but_down :: "('a \<Rightarrow> 'k :: linorder) \<Rightarrow> 'a list \<Rightarrow> nat \<Rightarrow> nat \<Rightarrow> bool" where
  "heap_but_down key h n k \<longleftrightarrow>
     (\<forall>i < n. 0 < i \<longrightarrow> (i - 1) div 2 \<noteq> k \<longrightarrow> key (h ! ((i - 1) div 2)) \<le> key (h ! i)) \<and>
     (\<forall>i < n. 0 < i \<longrightarrow> (i - 1) div 2 = k \<longrightarrow> 0 < k \<longrightarrow> key (h ! ((k - 1) div 2)) \<le> key (h ! i))"

section \<open>The sift loops\<close>

locale binary_heap =
  fixes key :: "'a \<Rightarrow> 'k :: linorder"
    and sift_up :: "'a list \<Rightarrow> nat \<Rightarrow> 'a list"
    and smallest :: "'a list \<Rightarrow> nat \<Rightarrow> nat \<Rightarrow> nat"
    and sift_down :: "'a list \<Rightarrow> nat \<Rightarrow> nat \<Rightarrow> 'a list"
  assumes sift_up_unfold: "sift_up h i =
      (if i > 0 then
         let parent = (i - 1) div 2
         in if key (h ! i) \<ge> key (h ! parent) then h else sift_up (swap_at h i parent) parent
       else h)"
    and smallest_unfold: "smallest h i n =
      (let left = 2 * i + 1; right = 2 * i + 2;
           s = (if left < n \<and> key (h ! left) < key (h ! i) then left else i)
       in if right < n \<and> key (h ! right) < key (h ! s) then right else s)"
    and sift_down_unfold: "sift_down h i n =
      (let s = smallest h i n in if s = i then h else sift_down (swap_at h i s) s n)"
begin

lemma smallest_cases:
  "smallest h i n = i \<or> (smallest h i n \<in> {2 * i + 1, 2 * i + 2} \<and> smallest h i n < n)"
  by (auto simp: smallest_unfold Let_def)

lemma sift_up_induct [case_names step]:
  assumes "\<And>h i. (\<And>x. 0 < i \<Longrightarrow> x = (i - 1) div 2 \<Longrightarrow> \<not> key (h ! x) \<le> key (h ! i) \<Longrightarrow> P (swap_at h i x) x) \<Longrightarrow> P h i"
  shows "P h i"
proof (induction i arbitrary: h rule: less_induct)
  case (less i)
  show ?case by (rule assms) (rule less.IH, simp)
qed

lemma sift_down_induct [case_names step]:
  assumes "\<And>h i n. (\<And>x. x = smallest h i n \<Longrightarrow> x \<noteq> i \<Longrightarrow> P (swap_at h i x) x n) \<Longrightarrow> P h i n"
  shows "P h i n"
proof (induction "n - i" arbitrary: h i rule: less_induct)
  case less
  show ?case
  proof (rule assms)
    fix x assume "x = smallest h i n" "x \<noteq> i"
    then show "P (swap_at h i x) x n" using smallest_cases [of h i n] by (intro less) auto
  qed
qed

lemma length_sift_up [simp]: "length (sift_up h k) = length h"
  by (induction h k rule: sift_up_induct)
     (subst sift_up_unfold, simp add: Let_def)

lemma length_sift_down [simp]: "length (sift_down h k n) = length h"
  by (induction h k n rule: sift_down_induct)
     (subst sift_down_unfold, simp add: Let_def)

lemma mset_sift_up:
  "k < n \<Longrightarrow> n \<le> length h \<Longrightarrow> mset (take n (sift_up h k)) = mset (take n h)"
proof (induction h k rule: sift_up_induct)
  case (step h k)
  then show ?case
    by (subst sift_up_unfold) (auto simp: Let_def mset_take_swap_at)
qed

lemma mset_sift_down:
  "k < n \<Longrightarrow> n \<le> length h \<Longrightarrow> mset (take n (sift_down h k n)) = mset (take n h)"
proof (induction h k n rule: sift_down_induct)
  case (step h k n)
  show ?case
    using step smallest_cases [of h k n]
    by (subst sift_down_unfold) (auto simp: Let_def mset_take_swap_at)
qed

lemma sift_up_ordered:
  "heap_but_up key h n k \<Longrightarrow> k < n \<Longrightarrow> n \<le> length h \<Longrightarrow> heap_ord key (sift_up h k) n"
proof (induction h k rule: sift_up_induct)
  case (step h k)
  define p where "p = (k - 1) div 2"
  consider (root) "k = 0" | (stop) "0 < k" "key (h ! p) \<le> key (h ! k)"
    | (swap) "0 < k" "key (h ! k) < key (h ! p)" by (meson gr0I linorder_not_le)
  then show ?case
  proof cases
    case root
    then show ?thesis
      using step by (subst sift_up_unfold) (simp add: heap_but_up_def heap_ord_def)
  next
    case stop
    then show ?thesis
      using step by (subst sift_up_unfold) (auto simp: p_def heap_but_up_def heap_ord_def)
  next
    case swap
    then have pk: "p < k" by (simp add: p_def)
    then have nth: "\<And>i. key ((swap_at h k p) ! i) =
        (if i = p then key (h ! k) else if i = k then key (h ! p) else key (h ! i))"
      using step(3,4) by (auto simp: nth_swap_at)
    have "heap_but_up key (swap_at h k p) n p"
      unfolding heap_but_up_def
    proof (intro conjI allI impI)
      fix i assume i: "i < n" "0 < i" "i \<noteq> p"
      have a: "i \<noteq> k \<Longrightarrow> key (h ! ((i - 1) div 2)) \<le> key (h ! i)"
        and b: "(i - 1) div 2 = k \<Longrightarrow> key (h ! p) \<le> key (h ! i)"
        using step(2) i swap(1) by (simp_all add: heap_but_up_def p_def)
      have "i = k \<Longrightarrow> (i - 1) div 2 = p" by (simp add: p_def)
      then show "key ((swap_at h k p) ! ((i - 1) div 2)) \<le> key ((swap_at h k p) ! i)"
        using a b i(3) swap(2) pk by (cases "i = k"; cases "(i - 1) div 2 = p") (simp_all add: nth)
    next
      fix i assume i: "i < n" "0 < i" "(i - 1) div 2 = p" "0 < p"
      then have "key (h ! ((p - 1) div 2)) \<le> key (h ! p)" "i \<noteq> k \<Longrightarrow> key (h ! p) \<le> key (h ! i)"
        using step(2,3) pk by (auto simp: heap_but_up_def)
      moreover have "(p - 1) div 2 \<noteq> p" "(p - 1) div 2 \<noteq> k" "i \<noteq> p"
        using pk i by linarith+
      ultimately show "key ((swap_at h k p) ! ((p - 1) div 2)) \<le> key ((swap_at h k p) ! i)"
        by (auto simp: nth)
    qed
    then show ?thesis
      using step swap pk by (subst sift_up_unfold) (auto simp: Let_def p_def)
  qed
qed

lemma smallest_root:
  assumes "smallest h k n = k" "i < n" "0 < i" "(i - 1) div 2 = k"
  shows "key (h ! k) \<le> key (h ! i)"
proof -
  have "i = 2 * k + 1 \<or> i = 2 * k + 2" using assms(3,4) by linarith
  then show ?thesis using assms(1,2) by (auto simp: smallest_unfold Let_def split: if_splits)
qed

lemma smallest_child:
  assumes "smallest h k n = c" "c \<noteq> k"
  shows "(c - 1) div 2 = k" "0 < c" "c < n" "key (h ! c) < key (h ! k)"
    "\<And>i. i < n \<Longrightarrow> 0 < i \<Longrightarrow> (i - 1) div 2 = k \<Longrightarrow> key (h ! c) \<le> key (h ! i)"
proof -
  show "(c - 1) div 2 = k" "0 < c" "c < n"
    using smallest_cases [of h k n] assms by auto
  show "key (h ! c) < key (h ! k)"
    using assms by (auto simp: smallest_unfold Let_def split: if_splits)
  fix i assume "i < n" "0 < i" "(i - 1) div 2 = k"
  then have "i = 2 * k + 1 \<or> i = 2 * k + 2" by linarith
  then show "key (h ! c) \<le> key (h ! i)"
    using assms \<open>i < n\<close> by (auto simp: smallest_unfold Let_def split: if_splits)
qed

lemma heap_but_down_swap:
  assumes hd: "heap_but_down key h n k" and k: "k < n" and n: "n \<le> length h"
    and c: "smallest h k n = c" "c \<noteq> k"
  shows "heap_but_down key (swap_at h k c) n c"
proof -
  note cc = smallest_child [OF c]
  have nth: "\<And>i. key ((swap_at h k c) ! i) = (if i = c then key (h ! k) else if i = k then key (h ! c) else key (h ! i))"
    using k n cc(3) by (auto simp: nth_swap_at)
  show ?thesis
    unfolding heap_but_down_def
  proof (intro conjI allI impI)
    fix i assume i: "i < n" "0 < i" "(i - 1) div 2 \<noteq> c"
    show "key ((swap_at h k c) ! ((i - 1) div 2)) \<le> key ((swap_at h k c) ! i)"
    proof (cases "(i - 1) div 2 = k")
      case True
      then show ?thesis using cc(4) cc(5) [OF i(1,2)] i cc(1,2) unfolding nth by auto
    next
      case False
      then have "key (h ! ((i - 1) div 2)) \<le> key (h ! i)" using hd i unfolding heap_but_down_def by auto
      moreover have "i = k \<Longrightarrow> key (h ! ((k - 1) div 2)) \<le> key (h ! c)"
        using hd i cc(1,2,3) unfolding heap_but_down_def by auto
      ultimately show ?thesis using False i cc(1) unfolding nth by auto
    qed
  next
    fix i assume i: "i < n" "0 < i" "(i - 1) div 2 = c" "0 < c"
    then have "c \<noteq> k" "i \<noteq> c" "i \<noteq> k" using cc(1) c by linarith+
    moreover have "key (h ! c) \<le> key (h ! i)"
      using hd i \<open>c \<noteq> k\<close> unfolding heap_but_down_def by auto
    ultimately show "key ((swap_at h k c) ! ((c - 1) div 2)) \<le> key ((swap_at h k c) ! i)"
      using cc(1) unfolding nth by auto
  qed
qed

lemma sift_down_ordered:
  "heap_but_down key h n k \<Longrightarrow> k < n \<Longrightarrow> n \<le> length h \<Longrightarrow> heap_ord key (sift_down h k n) n"
proof (induction h k n rule: sift_down_induct)
  case (step h k n)
  show ?case
  proof (cases "smallest h k n = k")
    case True
    have "heap_ord key h n"
      using step(2) smallest_root [OF True] unfolding heap_but_down_def heap_ord_def by metis
    then show ?thesis using True by (subst sift_down_unfold) simp
  next
    case False
    let ?c = "smallest h k n"
    have "heap_ord key (sift_down (swap_at h k ?c) ?c n) n"
      using step(1) [OF refl False heap_but_down_swap [OF step(2-4) refl False]]
        smallest_child(3) [OF refl False] step(4) by simp
    then show ?thesis using False by (subst sift_down_unfold) (simp add: Let_def)
  qed
qed

lemma heap_ordered_imp_but_down: "heap_ord key h n \<Longrightarrow> k < n \<Longrightarrow> heap_but_down key h n k"
proof -
  assume h: "heap_ord key h n" and k: "k < n"
  have "key (h ! ((k - 1) div 2)) \<le> key (h ! i)" if i: "i < n" "0 < i" "(i - 1) div 2 = k" "0 < k" for i
    using h i k unfolding heap_ord_def by (metis order.trans)
  then show ?thesis using h unfolding heap_but_down_def heap_ord_def by auto
qed

lemma heap_min:
  "heap_ord key h n \<Longrightarrow> i < n \<Longrightarrow> key (h ! 0) \<le> key (h ! i)"
proof (induction i rule: less_induct)
  case (less i)
  show ?case
  proof (cases "i = 0")
    case False
    then have "(i - 1) div 2 < i" by linarith
    then have "key (h ! 0) \<le> key (h ! ((i - 1) div 2))" using less by simp
    also have "\<dots> \<le> key (h ! i)" using less.prems False by (simp add: heap_ord_def)
    finally show ?thesis .
  qed simp
qed

text \<open>Replacing the entry of one slot and sifting it both ways restores the order.\<close>

lemma heap_but_up_update:
  assumes "heap_ord key h n" "k < n" "n \<le> length h" "key ((h[k := e]) ! k) \<le> key (h ! k)"
  shows "heap_but_up key (h[k := e]) n k"
proof -
  have up: "key (h ! ((k - 1) div 2)) \<le> key (h ! i)" if "i < n" "0 < i" "(i - 1) div 2 = k" "0 < k" for i
    using assms(1,2) that unfolding heap_ord_def by (metis order.trans)
  show ?thesis
    unfolding heap_but_up_def
  proof (intro conjI allI impI)
    fix i assume i: "i < n" "0 < i" "i \<noteq> k"
    then have "key (h ! ((i - 1) div 2)) \<le> key (h ! i)" using assms(1) by (simp add: heap_ord_def)
    then show "key ((h[k := e]) ! ((i - 1) div 2)) \<le> key ((h[k := e]) ! i)"
      using assms(2-4) i by (cases "(i - 1) div 2 = k") auto
  next
    fix i assume i: "i < n" "0 < i" "(i - 1) div 2 = k" "0 < k"
    then have "i \<noteq> k" "(k - 1) div 2 \<noteq> k" by linarith+
    then show "key ((h[k := e]) ! ((k - 1) div 2)) \<le> key ((h[k := e]) ! i)"
      using up i assms(2,3) by simp
  qed
qed

lemma heap_but_down_update:
  assumes "heap_ord key h n" "k < n" "n \<le> length h"
    and "k = 0 \<or> key (h ! ((k - 1) div 2)) \<le> key e"
  shows "heap_but_down key (h[k := e]) n k"
proof -
  have up: "key (h ! ((k - 1) div 2)) \<le> key (h ! i)" if "i < n" "0 < i" "(i - 1) div 2 = k" "0 < k" for i
    using assms(1,2) that unfolding heap_ord_def by (metis order.trans)
  show ?thesis
    unfolding heap_but_down_def
  proof (intro conjI allI impI)
    fix i assume i: "i < n" "0 < i" "(i - 1) div 2 \<noteq> k"
    then have "key (h ! ((i - 1) div 2)) \<le> key (h ! i)" using assms(1) by (simp add: heap_ord_def)
    then show "key ((h[k := e]) ! ((i - 1) div 2)) \<le> key ((h[k := e]) ! i)"
      using assms(2-4) i by (cases "i = k") auto
  next
    fix i assume i: "i < n" "0 < i" "(i - 1) div 2 = k" "0 < k"
    then have "i \<noteq> k" "(k - 1) div 2 \<noteq> k" by linarith+
    then show "key ((h[k := e]) ! ((k - 1) div 2)) \<le> key ((h[k := e]) ! i)"
      using up i assms(2,3) by simp
  qed
qed

end

end
