(* ===== verification/Delayed_Queue.thy ===== *)
theory Delayed_Queue
  imports Binary_Heap
begin

text \<open>
  The delayed queue of \<open>src/mini-job-system/src/delayed_queue.c\<close>: a bounded binary min-heap of
  entries ordered by fire time, with optional deduplication by key and lazy cancellation.
  The record holds the whole array, so the slots beyond \<open>dqh_size\<close> keep their stale contents.
  Lemmas: the two sift loops restore the heap order and permute the live slots; every operation
  keeps the queue invariant; dequeuing yields the earliest live entry that is due.
\<close>

section \<open>Data\<close>

definition DQ_MAX_ENTRIES :: int where "DQ_MAX_ENTRIES = 1024"
definition DQ_KEY_LEN :: nat where "DQ_KEY_LEN = 64"

datatype dq_delay_level = DQ_LEVEL_1S | DQ_LEVEL_10S | DQ_LEVEL_1MIN | DQ_LEVEL_10MIN | DQ_LEVEL_1HR

fun dq_level_ms :: "dq_delay_level \<Rightarrow> u64" where
  "dq_level_ms DQ_LEVEL_1S = 1000"
| "dq_level_ms DQ_LEVEL_10S = 10000"
| "dq_level_ms DQ_LEVEL_1MIN = 60000"
| "dq_level_ms DQ_LEVEL_10MIN = 600000"
| "dq_level_ms DQ_LEVEL_1HR = 3600000"

record dq_entry =
  dqe_id :: u64
  dqe_key :: string
  dqe_callback :: ptr
  dqe_userdata :: ptr
  dqe_fire_time :: time_t
  dqe_delay_ms :: u64
  dqe_cancelled :: bool

record delayed_queue =
  dqh_heap :: "dq_entry list"
  dqh_size :: nat
  dqh_capacity :: nat
  dqh_dedup :: int

definition dq_zero_entry :: dq_entry where
  "dq_zero_entry = \<lparr>dqe_id = 0, dqe_key = [], dqe_callback = NULL, dqe_userdata = NULL,
     dqe_fire_time = 0, dqe_delay_ms = 0, dqe_cancelled = False\<rparr>"

section \<open>Operations\<close>

text \<open>\<open>ok1\<close> and \<open>ok2\<close> say whether the two \<open>calloc\<close> calls succeed.\<close>

definition delayed_queue_create :: "bool \<Rightarrow> bool \<Rightarrow> int \<Rightarrow> int \<Rightarrow> delayed_queue option" where
  "delayed_queue_create ok1 ok2 capacity dedup =
     (let capacity = (if capacity \<le> 0 then DQ_MAX_ENTRIES else capacity)
      in if \<not> ok1 then None
         else if \<not> ok2 then None
         else Some \<lparr>dqh_heap = replicate (nat capacity) dq_zero_entry, dqh_size = 0,
                    dqh_capacity = nat capacity, dqh_dedup = dedup\<rparr>)"

function dq_heap_sift_up :: "dq_entry list \<Rightarrow> nat \<Rightarrow> dq_entry list" where
  "dq_heap_sift_up heap idx =
     (if idx > 0 then
        let parent = (idx - 1) div 2 in
        if dqe_fire_time (heap ! idx) \<ge> dqe_fire_time (heap ! parent) then heap
        else dq_heap_sift_up (swap_at heap idx parent) parent
      else heap)"
  by pat_completeness auto
termination
  by (relation "measure (\<lambda>(heap, idx). idx)") auto

definition dq_smallest :: "dq_entry list \<Rightarrow> nat \<Rightarrow> nat \<Rightarrow> nat" where
  "dq_smallest heap idx hsize =
     (let left = 2 * idx + 1; right = 2 * idx + 2;
          smallest = (if left < hsize \<and> dqe_fire_time (heap ! left) < dqe_fire_time (heap ! idx)
                      then left else idx)
      in if right < hsize \<and> dqe_fire_time (heap ! right) < dqe_fire_time (heap ! smallest)
         then right else smallest)"

lemma dq_smallest_cases:
  "dq_smallest heap idx hsize = idx \<or>
   (dq_smallest heap idx hsize \<in> {2 * idx + 1, 2 * idx + 2} \<and> dq_smallest heap idx hsize < hsize)"
  by (auto simp: dq_smallest_def Let_def)

function dq_heap_sift_down :: "dq_entry list \<Rightarrow> nat \<Rightarrow> nat \<Rightarrow> dq_entry list" where
  "dq_heap_sift_down heap idx hsize =
     (let smallest = dq_smallest heap idx hsize in
      if smallest = idx then heap
      else dq_heap_sift_down (swap_at heap idx smallest) smallest hsize)"
  by pat_completeness auto
termination
proof (relation "measure (\<lambda>(heap, idx, hsize). hsize - idx)", goal_cases)
  case 1
  then show ?case by simp
next
  case (2 heap idx hsize x)
  then show ?case using dq_smallest_cases [of heap idx hsize] by auto
qed

declare dq_heap_sift_up.simps [simp del] dq_heap_sift_down.simps [simp del]

definition dq_find_by_key :: "delayed_queue \<Rightarrow> string option \<Rightarrow> nat option" where
  "dq_find_by_key dq key =
     (case key of
        None \<Rightarrow> None
      | Some k \<Rightarrow> if k = [] then None
                  else find_idx (\<lambda>e. dqe_key e = k) (dqh_heap dq) (dqh_size dq))"

definition dq_find_by_id :: "delayed_queue \<Rightarrow> u64 \<Rightarrow> nat option" where
  "dq_find_by_id dq eid = find_idx (\<lambda>e. dqe_id e = eid) (dqh_heap dq) (dqh_size dq)"

definition dq_dedup_hit :: "delayed_queue \<Rightarrow> string option \<Rightarrow> nat option" where
  "dq_dedup_hit dq key =
     (if dqh_dedup dq \<noteq> 0 \<and> key \<noteq> None \<and> key \<noteq> Some [] then dq_find_by_key dq key else None)"

text \<open>\<open>t1\<close>, \<open>t2\<close>, \<open>t3\<close> are the readings of the clock in the order the function makes them.\<close>

definition dq_new_fire_time :: "u64 \<Rightarrow> time_t \<Rightarrow> time_t \<Rightarrow> time_t \<Rightarrow> time_t" where
  "dq_new_fire_time delay_ms t1 t2 t3 =
     (let ft = time_plus t1 (delay_ms div 1000) in if ft \<le> t2 then t3 + 1 else ft)"

definition dq_enqueue ::
  "delayed_queue \<Rightarrow> u64 \<Rightarrow> string option \<Rightarrow> ptr \<Rightarrow> ptr \<Rightarrow> u64 \<Rightarrow> time_t \<Rightarrow> time_t \<Rightarrow> time_t
   \<Rightarrow> delayed_queue \<times> int" where
  "dq_enqueue dq eid key cb ud delay_ms t1 t2 t3 =
     (if cb = NULL then (dq, -1)
      else if dqh_size dq \<ge> dqh_capacity dq then (dq, -2)
      else case dq_dedup_hit dq key of
        Some idx \<Rightarrow>
          let e = (dqh_heap dq ! idx)\<lparr>dqe_id := eid, dqe_callback := cb, dqe_userdata := ud,
                    dqe_fire_time := time_plus t1 (delay_ms div 1000),
                    dqe_delay_ms := delay_ms, dqe_cancelled := False\<rparr>;
              h1 = dq_heap_sift_up ((dqh_heap dq)[idx := e]) idx;
              h2 = dq_heap_sift_down h1 idx (dqh_size dq)
          in (dq\<lparr>dqh_heap := h2\<rparr>, 0)
      | None \<Rightarrow>
          let e = \<lparr>dqe_id = eid,
                   dqe_key = (case key of Some k \<Rightarrow> strncpy_buf DQ_KEY_LEN k | None \<Rightarrow> []),
                   dqe_callback = cb, dqe_userdata = ud,
                   dqe_fire_time = dq_new_fire_time delay_ms t1 t2 t3,
                   dqe_delay_ms = delay_ms, dqe_cancelled = False\<rparr>
          in (dq\<lparr>dqh_heap := dq_heap_sift_up ((dqh_heap dq)[dqh_size dq := e]) (dqh_size dq),
                 dqh_size := dqh_size dq + 1\<rparr>, 0))"

definition dq_enqueue_level ::
  "delayed_queue \<Rightarrow> u64 \<Rightarrow> string option \<Rightarrow> ptr \<Rightarrow> ptr \<Rightarrow> dq_delay_level
   \<Rightarrow> time_t \<Rightarrow> time_t \<Rightarrow> time_t \<Rightarrow> delayed_queue \<times> int" where
  "dq_enqueue_level dq eid key cb ud level t1 t2 t3 =
     dq_enqueue dq eid key cb ud (dq_level_ms level) t1 t2 t3"

definition dq_mark_cancelled :: "delayed_queue \<Rightarrow> nat option \<Rightarrow> delayed_queue \<times> int" where
  "dq_mark_cancelled dq found =
     (case found of
        None \<Rightarrow> (dq, -1)
      | Some idx \<Rightarrow>
          (dq\<lparr>dqh_heap := (dqh_heap dq)[idx := (dqh_heap dq ! idx)\<lparr>dqe_cancelled := True\<rparr>]\<rparr>, 0))"

definition dq_cancel :: "delayed_queue \<Rightarrow> u64 \<Rightarrow> delayed_queue \<times> int" where
  "dq_cancel dq eid = dq_mark_cancelled dq (dq_find_by_id dq eid)"

definition dq_cancel_by_key :: "delayed_queue \<Rightarrow> string option \<Rightarrow> delayed_queue \<times> int" where
  "dq_cancel_by_key dq key = dq_mark_cancelled dq (dq_find_by_key dq key)"

definition dq_pop_root :: "delayed_queue \<Rightarrow> delayed_queue" where
  "dq_pop_root dq =
     (let n = dqh_size dq - 1;
          h = (dqh_heap dq)[0 := dqh_heap dq ! n]
      in dq\<lparr>dqh_heap := (if n > 0 then dq_heap_sift_down h 0 n else h), dqh_size := n\<rparr>)"

function dq_dequeue :: "delayed_queue \<Rightarrow> time_t \<Rightarrow> delayed_queue \<times> dq_entry option" where
  "dq_dequeue dq now =
     (if dqh_size dq = 0 then (dq, None)
      else if dqe_cancelled (dqh_heap dq ! 0) then dq_dequeue (dq_pop_root dq) now
      else if dqe_fire_time (dqh_heap dq ! 0) > now then (dq, None)
      else (dq_pop_root dq, Some (dqh_heap dq ! 0)))"
  by pat_completeness auto
termination
  by (relation "measure (\<lambda>(dq, now). dqh_size dq)") (auto simp: dq_pop_root_def Let_def)

declare dq_dequeue.simps [simp del]

definition dq_peek :: "delayed_queue \<Rightarrow> dq_entry option" where
  "dq_peek dq = (if dqh_size dq = 0 then None else Some (dqh_heap dq ! 0))"

definition dq_is_empty :: "delayed_queue \<Rightarrow> bool" where
  "dq_is_empty dq \<longleftrightarrow> dqh_size dq = 0"

definition dq_size :: "delayed_queue \<Rightarrow> nat" where
  "dq_size dq = dqh_size dq"

definition dq_next_delay_ms :: "delayed_queue \<Rightarrow> time_t \<Rightarrow> u64" where
  "dq_next_delay_ms dq now =
     (if dqh_size dq = 0 then 0
      else if dqe_fire_time (dqh_heap dq ! 0) \<le> now then 0
      else word_of_int (dqe_fire_time (dqh_heap dq ! 0) - now) * 1000)"

section \<open>Invariant and abstraction\<close>

abbreviation ft_at :: "dq_entry list \<Rightarrow> nat \<Rightarrow> time_t" where
  "ft_at h i \<equiv> dqe_fire_time (h ! i)"

abbreviation heap_ordered :: "dq_entry list \<Rightarrow> nat \<Rightarrow> bool" where
  "heap_ordered \<equiv> heap_ord dqe_fire_time"

definition dq_items :: "delayed_queue \<Rightarrow> dq_entry multiset" where
  "dq_items dq = mset (take (dqh_size dq) (dqh_heap dq))"

definition dq_inv :: "delayed_queue \<Rightarrow> bool" where
  "dq_inv dq \<longleftrightarrow> dqh_size dq \<le> dqh_capacity dq \<and> length (dqh_heap dq) = dqh_capacity dq
     \<and> heap_ordered (dqh_heap dq) (dqh_size dq)"

text \<open>Calls of the public interface, and running a sequence of them.\<close>

datatype dq_op =
    DqEnqueue u64 "string option" ptr ptr u64 time_t time_t time_t
  | DqEnqueueLevel u64 "string option" ptr ptr dq_delay_level time_t time_t time_t
  | DqCancel u64
  | DqCancelKey "string option"
  | DqDequeue time_t

fun dq_apply :: "dq_op \<Rightarrow> delayed_queue \<Rightarrow> delayed_queue" where
  "dq_apply (DqEnqueue eid key cb ud d t1 t2 t3) dq = fst (dq_enqueue dq eid key cb ud d t1 t2 t3)"
| "dq_apply (DqEnqueueLevel eid key cb ud l t1 t2 t3) dq =
     fst (dq_enqueue_level dq eid key cb ud l t1 t2 t3)"
| "dq_apply (DqCancel eid) dq = fst (dq_cancel dq eid)"
| "dq_apply (DqCancelKey key) dq = fst (dq_cancel_by_key dq key)"
| "dq_apply (DqDequeue now) dq = fst (dq_dequeue dq now)"

fun dq_op_key :: "dq_op \<Rightarrow> string option" where
  "dq_op_key (DqEnqueue eid key cb ud d t1 t2 t3) = key"
| "dq_op_key (DqEnqueueLevel eid key cb ud l t1 t2 t3) = key"
| "dq_op_key _ = None"

definition short_key :: "string option \<Rightarrow> bool" where
  "short_key key \<longleftrightarrow> (case key of None \<Rightarrow> True | Some k \<Rightarrow> length k < DQ_KEY_LEN)"

definition dq_keys_unique :: "delayed_queue \<Rightarrow> bool" where
  "dq_keys_unique dq \<longleftrightarrow> (\<forall>k. k \<noteq> [] \<longrightarrow> count (image_mset dqe_key (dq_items dq)) k \<le> 1)"

text \<open>A two-entry queue used by the examples.\<close>

definition dq_example :: delayed_queue where
  "dq_example = \<lparr>dqh_heap = [dq_zero_entry\<lparr>dqe_id := 1, dqe_fire_time := 5\<rparr>, dq_zero_entry\<lparr>dqe_id := 2, dqe_fire_time := 9\<rparr>],
     dqh_size = 2, dqh_capacity = 2, dqh_dedup = 1\<rparr>"

section \<open>The sift loops\<close>

interpretation dqh: binary_heap dqe_fire_time dq_heap_sift_up dq_smallest dq_heap_sift_down
  by unfold_locales (rule dq_heap_sift_up.simps dq_heap_sift_down.simps, simp add: dq_smallest_def, rule dq_heap_sift_down.simps)

section \<open>Every operation keeps the invariant\<close>

lemma dq_create_inv: "delayed_queue_create ok1 ok2 c d = Some dq \<Longrightarrow> dq_inv dq \<and> dq_items dq = {#}"
  by (auto simp: delayed_queue_create_def dq_inv_def dq_items_def heap_ord_def Let_def
      split: if_splits)

lemma dq_dedup_hitD:
  "dq_dedup_hit dq key = Some i \<Longrightarrow>
   i < dqh_size dq \<and> key = Some (dqe_key (dqh_heap dq ! i)) \<and> dqe_key (dqh_heap dq ! i) \<noteq> []"
  by (auto simp: dq_dedup_hit_def dq_find_by_key_def split: if_splits option.splits)

text \<open>The sift loops applied to a slot that received a new entry: order and contents.\<close>

lemma sift_both_ordered:
  assumes "heap_ordered h n" "k < n" "n \<le> length h"
  shows "heap_ordered (dq_heap_sift_down (dq_heap_sift_up (h[k := e]) k) k n) n"
proof (cases "k = 0 \<or> ft_at h ((k - 1) div 2) \<le> dqe_fire_time e")
  case True
  moreover have "(k - 1) div 2 < k" if "k \<noteq> 0" using that by linarith
  ultimately have "dq_heap_sift_up (h[k := e]) k = h[k := e]"
    using assms(2,3) by (subst dq_heap_sift_up.simps) (auto simp: Let_def)
  then show ?thesis
    using dqh.sift_down_ordered [OF dqh.heap_but_down_update [OF assms True]] assms by simp
next
  case False
  then have "ft_at h ((k - 1) div 2) \<le> ft_at h k" using assms by (simp add: heap_ord_def)
  then have "ft_at (h[k := e]) k \<le> ft_at h k" using False assms by simp
  then have "heap_ordered (dq_heap_sift_up (h[k := e]) k) n"
    using assms by (intro dqh.sift_up_ordered dqh.heap_but_up_update) auto
  then show ?thesis
    using assms by (intro dqh.sift_down_ordered dqh.heap_ordered_imp_but_down) auto
qed

lemma append_ordered:
  assumes "heap_ordered h n" "n < length h"
  shows "heap_ordered (dq_heap_sift_up (h[n := e]) n) (Suc n)"
proof (rule dqh.sift_up_ordered)
  have "(i - 1) div 2 \<noteq> n" if "i < Suc n" "0 < i" for i using that by linarith
  then show "heap_but_up dqe_fire_time (h[n := e]) (Suc n) n"
    using assms by (auto simp: heap_but_up_def heap_ord_def less_Suc_eq)
qed (use assms in auto)

lemma dq_enqueue_inv:
  assumes "dq_inv dq"
  shows "dq_inv (fst (dq_enqueue dq eid key cb ud delay t1 t2 t3))"
  using assms dq_dedup_hitD [of dq key] sift_both_ordered append_ordered
  by (auto simp: dq_enqueue_def dq_inv_def Let_def split: option.splits)

lemma dq_mark_cancelled_inv:
  assumes "dq_inv dq" "\<And>i. found = Some i \<Longrightarrow> i < dqh_size dq"
  shows "dq_inv (fst (dq_mark_cancelled dq found))"
proof (cases found)
  case (Some k)
  then have k: "k < dqh_size dq" using assms(2) by simp
  have "ft_at ((dqh_heap dq)[k := (dqh_heap dq ! k)\<lparr>dqe_cancelled := True\<rparr>]) i = ft_at (dqh_heap dq) i" for i
    by (cases "i = k"; cases "k < length (dqh_heap dq)") (simp_all add: list_update_beyond)
  then show ?thesis
    using assms(1) Some k by (simp add: dq_mark_cancelled_def dq_inv_def heap_ord_def)
qed (use assms in \<open>simp add: dq_mark_cancelled_def\<close>)

lemma dq_find_lt:
  "dq_find_by_id dq eid = Some i \<Longrightarrow> i < dqh_size dq"
  "dq_find_by_key dq key = Some i \<Longrightarrow> i < dqh_size dq"
  by (auto simp: dq_find_by_id_def dq_find_by_key_def split: option.splits if_splits)

lemma dq_cancel_inv: "dq_inv dq \<Longrightarrow> dq_inv (fst (dq_cancel dq eid))"
  by (simp add: dq_cancel_def dq_mark_cancelled_inv dq_find_lt)

lemma dq_cancel_by_key_inv: "dq_inv dq \<Longrightarrow> dq_inv (fst (dq_cancel_by_key dq key))"
  by (simp add: dq_cancel_by_key_def dq_mark_cancelled_inv dq_find_lt)

lemma dq_pop_root_spec:
  assumes "dq_inv dq" "0 < dqh_size dq"
  shows "dq_inv (dq_pop_root dq)"
    and "dq_items dq = add_mset (dqh_heap dq ! 0) (dq_items (dq_pop_root dq))"
    and "dqh_size (dq_pop_root dq) = dqh_size dq - 1"
proof -
  define n where "n = dqh_size dq - 1"
  let ?h = "dqh_heap dq" and ?h' = "(dqh_heap dq)[0 := dqh_heap dq ! n]"
  have sz: "dqh_size dq = Suc n" and len: "n < length ?h"
    using assms by (auto simp: n_def dq_inv_def)
  have ord: "heap_ordered ?h n" using assms(1) sz by (simp add: dq_inv_def heap_ord_def)
  have ms: "mset (take (Suc n) ?h) = add_mset (?h ! 0) (mset (take n ?h'))"
    using len by (simp add: mset_drop_last_over) (metis insert_DiffM in_set_take_conv_nth
        Suc_leI set_mset_mset zero_less_Suc)
  have pop: "dq_pop_root dq = dq\<lparr>dqh_heap := (if n > 0 then dq_heap_sift_down ?h' 0 n else ?h'), dqh_size := n\<rparr>"
    by (simp add: dq_pop_root_def Let_def n_def)
  have "heap_ordered (dq_heap_sift_down ?h' 0 n) n" if "n > 0"
    using dqh.sift_down_ordered [OF dqh.heap_but_down_update [OF ord that]] that len by simp
  then show "dq_inv (dq_pop_root dq)"
    using assms(1) sz by (simp add: pop dq_inv_def heap_ord_def)
  show "dq_items dq = add_mset (?h ! 0) (dq_items (dq_pop_root dq))"
    using ms len sz by (cases "n = 0") (simp_all add: pop dq_items_def dqh.mset_sift_down)
  show "dqh_size (dq_pop_root dq) = dqh_size dq - 1" by (simp add: pop sz)
qed

lemma dq_root_min:
  "dq_inv dq \<Longrightarrow> 0 < dqh_size dq \<Longrightarrow> x \<in># dq_items dq \<Longrightarrow>
   ft_at (dqh_heap dq) 0 \<le> dqe_fire_time x"
  using dqh.heap_min by (auto simp: dq_items_def dq_inv_def in_set_take_conv_nth)

text \<open>What one dequeue does: cancelled entries it met are gone; it returns the earliest entry.\<close>

lemma dq_dequeue_spec:
  assumes "dq_inv dq" "dq_dequeue dq now = (dq', r)"
  shows "dq_inv dq' \<and> (\<exists>D. dq_items dq = D + (case r of None \<Rightarrow> {#} | Some e \<Rightarrow> {#e#}) + dq_items dq'
           \<and> (\<forall>d \<in># D. dqe_cancelled d)) \<and>
         (case r of
            None \<Rightarrow> \<forall>x \<in># dq_items dq'. now < dqe_fire_time x
          | Some e \<Rightarrow> \<not> dqe_cancelled e \<and> dqe_fire_time e \<le> now
                      \<and> (\<forall>x \<in># dq_items dq'. dqe_fire_time e \<le> dqe_fire_time x))"
  using assms
proof (induction dq now rule: dq_dequeue.induct)
  case (1 dq now)
  let ?root = "dqh_heap dq ! 0"
  consider (empty) "dqh_size dq = 0" | (dead) "0 < dqh_size dq" "dqe_cancelled ?root"
    | (later) "0 < dqh_size dq" "\<not> dqe_cancelled ?root" "now < dqe_fire_time ?root"
    | (due) "0 < dqh_size dq" "\<not> dqe_cancelled ?root" "dqe_fire_time ?root \<le> now"
    by fastforce
  then show ?case
  proof cases
    case empty
    then show ?thesis using 1(2,3)
      by (subst (asm) dq_dequeue.simps) (auto simp: dq_items_def intro!: exI [of _ "{#}"])
  next
    case dead
    note pop = dq_pop_root_spec [OF 1(2) dead(1)]
    have eq: "dq_dequeue (dq_pop_root dq) now = (dq', r)"
      using 1(3) dead by (subst (asm) dq_dequeue.simps) simp
    from 1(1) [OF _ dead(2) pop(1) eq] dead(1) obtain D where
      "dq_items (dq_pop_root dq) = D + (case r of None \<Rightarrow> {#} | Some e \<Rightarrow> {#e#}) + dq_items dq'"
      "\<forall>d \<in># D. dqe_cancelled d" by auto
    then have "dq_items dq = add_mset ?root D + (case r of None \<Rightarrow> {#} | Some e \<Rightarrow> {#e#}) + dq_items dq'"
      "\<forall>d \<in># add_mset ?root D. dqe_cancelled d"
      using pop(2) dead(2) by auto
    then show ?thesis using 1(1) [OF _ dead(2) pop(1) eq] dead(1) by blast
  next
    case later
    then have "dq' = dq" "r = None"
      using 1(3) by (subst (asm) dq_dequeue.simps, simp)+
    then show ?thesis
      using later dq_root_min [OF 1(2) later(1)] 1(2) by (fastforce intro!: exI [of _ "{#}"])
  next
    case due
    then have "dq' = dq_pop_root dq" "r = Some ?root"
      using 1(3) by (subst (asm) dq_dequeue.simps, simp)+
    then show ?thesis
      using due dq_root_min [OF 1(2) due(1)] dq_pop_root_spec [OF 1(2) due(1)]
      by (auto intro!: exI [of _ "{#}"])
  qed
qed

section \<open>The queue as a timer queue\<close>

text \<open>
  What the coordinator relies on: a queue of timed items from which the earliest live item that
  is due is taken, dead items being dropped on the way.
\<close>

locale timer_queue =
  fixes invar :: "'q \<Rightarrow> bool"
    and items :: "'q \<Rightarrow> 'e multiset"
    and due :: "'e \<Rightarrow> time_t"
    and dead :: "'e \<Rightarrow> bool"
    and deq :: "'q \<Rightarrow> time_t \<Rightarrow> 'q \<times> 'e option"
  assumes deq_invar: "invar q \<Longrightarrow> deq q now = (q', r) \<Longrightarrow> invar q'"
    and deq_Some: "invar q \<Longrightarrow> deq q now = (q', Some e) \<Longrightarrow>
      (\<exists>D. items q = D + add_mset e (items q') \<and> (\<forall>d \<in># D. dead d))
      \<and> \<not> dead e \<and> due e \<le> now \<and> (\<forall>x \<in># items q'. due e \<le> due x)"
    and deq_None: "invar q \<Longrightarrow> deq q now = (q', None) \<Longrightarrow>
      (\<exists>D. items q = D + items q' \<and> (\<forall>d \<in># D. dead d)) \<and> (\<forall>x \<in># items q'. now < due x)"
begin

lemma deq_live:
  assumes "invar q" "deq q now = (q', Some e)"
  shows "filter_mset (\<lambda>x. \<not> dead x) (items q) =
         add_mset e (filter_mset (\<lambda>x. \<not> dead x) (items q'))"
proof -
  obtain D where "items q = D + add_mset e (items q')" "\<forall>d \<in># D. dead d" "\<not> dead e"
    using deq_Some [OF assms] by blast
  moreover then have "filter_mset (\<lambda>x. \<not> dead x) D = {#}" by simp
  ultimately show ?thesis by simp
qed

lemma deq_shrinks:
  assumes "invar q" "deq q now = (q', Some e)"
  shows "size (items q') < size (items q)"
  using deq_Some [OF assms] by auto

end

interpretation dq: timer_queue dq_inv dq_items dqe_fire_time dqe_cancelled dq_dequeue
proof (unfold_locales, goal_cases)
  case (1 q now q' r)
  then show ?case using dq_dequeue_spec by blast
next
  case (2 q now q' e)
  then show ?case using dq_dequeue_spec [OF 2] by fastforce
next
  case (3 q now q')
  then show ?case using dq_dequeue_spec [OF 3] by fastforce
qed

section \<open>Contents after each operation\<close>

lemma dq_items_update:
  assumes "dq_inv dq" "i < dqh_size dq" "mset (take (dqh_size dq) h) = mset (take (dqh_size dq) ((dqh_heap dq)[i := e]))"
  shows "dq_items (dq\<lparr>dqh_heap := h\<rparr>) = add_mset e (dq_items dq - {#dqh_heap dq ! i#})"
  using assms by (simp add: dq_items_def mset_take_update dq_inv_def)

lemma dq_items_nth: "dq_inv dq \<Longrightarrow> i < dqh_size dq \<Longrightarrow> dqh_heap dq ! i \<in># dq_items dq"
  by (auto simp: dq_items_def dq_inv_def in_set_take_conv_nth)

lemma dq_enqueue_hit:
  assumes "dq_inv dq" "cb \<noteq> NULL" "dqh_size dq < dqh_capacity dq" "dq_dedup_hit dq key = Some i"
  shows "\<exists>e. dqe_key e = dqe_key (dqh_heap dq ! i) \<and> dqe_id e = eid
           \<and> dqe_fire_time e = time_plus t1 (delay div 1000) \<and> \<not> dqe_cancelled e
           \<and> dq_items (fst (dq_enqueue dq eid key cb ud delay t1 t2 t3)) =
             add_mset e (dq_items dq - {#dqh_heap dq ! i#})"
proof -
  have i: "i < dqh_size dq" using dq_dedup_hitD [OF assms(4)] by simp
  define e where "e = (dqh_heap dq ! i)\<lparr>dqe_id := eid, dqe_callback := cb, dqe_userdata := ud,
    dqe_fire_time := time_plus t1 (delay div 1000), dqe_delay_ms := delay, dqe_cancelled := False\<rparr>"
  let ?h = "dq_heap_sift_down (dq_heap_sift_up ((dqh_heap dq)[i := e]) i) i (dqh_size dq)"
  have "fst (dq_enqueue dq eid key cb ud delay t1 t2 t3) = dq\<lparr>dqh_heap := ?h\<rparr>"
    using assms by (simp add: dq_enqueue_def Let_def e_def)
  moreover have "mset (take (dqh_size dq) ?h) = mset (take (dqh_size dq) ((dqh_heap dq)[i := e]))"
    using assms(1) i by (simp add: dqh.mset_sift_down dqh.mset_sift_up dq_inv_def)
  ultimately have "dq_items (fst (dq_enqueue dq eid key cb ud delay t1 t2 t3)) =
      add_mset e (dq_items dq - {#dqh_heap dq ! i#})"
    using dq_items_update [OF assms(1) i] by simp
  then show ?thesis by (intro exI [of _ e]) (simp add: e_def)
qed

lemma dq_enqueue_fresh:
  assumes "dq_inv dq" "cb \<noteq> NULL" "dqh_size dq < dqh_capacity dq" "dq_dedup_hit dq key = None"
  shows "dq_items (fst (dq_enqueue dq eid key cb ud delay t1 t2 t3)) =
    add_mset \<lparr>dqe_id = eid, dqe_key = (case key of Some k \<Rightarrow> strncpy_buf DQ_KEY_LEN k | None \<Rightarrow> []),
       dqe_callback = cb, dqe_userdata = ud, dqe_fire_time = dq_new_fire_time delay t1 t2 t3,
       dqe_delay_ms = delay, dqe_cancelled = False\<rparr> (dq_items dq)"
  using assms
  by (simp add: dq_enqueue_def Let_def dq_items_def dq_inv_def dqh.mset_sift_up mset_take_Suc)

lemma dq_enqueue_code:
  "snd (dq_enqueue dq eid key cb ud delay t1 t2 t3) =
     (if cb = NULL then -1 else if dqh_size dq \<ge> dqh_capacity dq then -2 else 0)"
  by (simp add: dq_enqueue_def Let_def split: option.split)

lemma dq_enqueue_error:
  "cb = NULL \<or> dqh_size dq \<ge> dqh_capacity dq \<Longrightarrow> fst (dq_enqueue dq eid key cb ud delay t1 t2 t3) = dq"
  by (auto simp: dq_enqueue_def)

lemma dq_dedup_frame [simp]:
  "dqh_dedup (fst (dq_enqueue dq eid key cb ud delay t1 t2 t3)) = dqh_dedup dq"
  "dqh_dedup (dq_pop_root dq) = dqh_dedup dq"
  "dqh_dedup (fst (dq_mark_cancelled dq found)) = dqh_dedup dq"
  by (simp_all add: dq_enqueue_def dq_pop_root_def dq_mark_cancelled_def Let_def split: option.split)

lemma dq_dedup_dequeue [simp]: "dqh_dedup (fst (dq_dequeue dq now)) = dqh_dedup dq"
  by (induction dq now rule: dq_dequeue.induct) (subst dq_dequeue.simps, simp)

lemma dq_dequeue_inv: "dq_inv dq \<Longrightarrow> dq_inv (fst (dq_dequeue dq now))"
  by (rule dq.deq_invar [OF _ prod.collapse [symmetric]])

lemma dq_apply_inv: "dq_inv dq \<Longrightarrow> dq_inv (dq_apply opn dq)"
  by (cases opn) (simp_all add: dq_enqueue_inv dq_enqueue_level_def dq_cancel_inv dq_cancel_by_key_inv
      dq_dequeue_inv)

lemma dq_apply_dedup [simp]: "dqh_dedup (dq_apply opn dq) = dqh_dedup dq"
  by (cases opn) (simp_all add: dq_enqueue_level_def dq_cancel_def dq_cancel_by_key_def)

section \<open>Deduplication\<close>

lemma dq_enqueue_keys:
  assumes "dq_inv dq" "dqh_dedup dq \<noteq> 0" "dq_keys_unique dq" "short_key key"
  shows "dq_keys_unique (fst (dq_enqueue dq eid key cb ud delay t1 t2 t3))"
proof (cases "cb = NULL \<or> dqh_size dq \<ge> dqh_capacity dq")
  case True
  then show ?thesis using assms(3) by (simp add: dq_enqueue_error)
next
  case False
  then have ok: "cb \<noteq> NULL" "dqh_size dq < dqh_capacity dq" by auto
  show ?thesis
  proof (cases "dq_dedup_hit dq key")
    case (Some i)
    have "dqh_heap dq ! i \<in># dq_items dq"
      using dq_items_nth [OF assms(1)] dq_dedup_hitD [OF Some] by simp
    moreover obtain e where "dqe_key e = dqe_key (dqh_heap dq ! i)"
      "dq_items (fst (dq_enqueue dq eid key cb ud delay t1 t2 t3)) =
         add_mset e (dq_items dq - {#dqh_heap dq ! i#})"
      using dq_enqueue_hit [OF assms(1) ok Some] by blast
    ultimately have "image_mset dqe_key (dq_items (fst (dq_enqueue dq eid key cb ud delay t1 t2 t3)))
        = image_mset dqe_key (dq_items dq)"
      by (simp add: image_mset_replace del: image_mset_add_mset)
    then show ?thesis using assms(3) by (simp add: dq_keys_unique_def)
  next
    case None
    have "count (image_mset dqe_key (dq_items dq)) k = 0" if "key = Some k" "k \<noteq> []" for k
    proof -
      have "\<forall>i < dqh_size dq. dqe_key (dqh_heap dq ! i) \<noteq> k"
        using None that assms(2)
        by (simp add: dq_dedup_hit_def dq_find_by_key_def find_idx_None_iff)
      then show ?thesis
        using assms(1) by (auto simp: dq_items_def dq_inv_def count_eq_zero_iff in_set_take_conv_nth)
    qed
    then show ?thesis
      using assms(3,4) dq_enqueue_fresh [OF assms(1) ok None]
      by (cases key) (auto simp: dq_keys_unique_def strncpy_buf_def short_key_def DQ_KEY_LEN_def)
  qed
qed

lemma dq_mark_cancelled_keys:
  assumes "dq_inv dq" "\<And>i. found = Some i \<Longrightarrow> i < dqh_size dq"
  shows "image_mset dqe_key (dq_items (fst (dq_mark_cancelled dq found))) = image_mset dqe_key (dq_items dq)"
proof (cases found)
  case (Some i)
  then have i: "i < dqh_size dq" using assms(2) by simp
  then have "dqh_heap dq ! i \<in># dq_items dq" by (rule dq_items_nth [OF assms(1)])
  then show ?thesis
    using Some assms(1) i
    by (simp add: dq_mark_cancelled_def dq_items_update image_mset_replace del: image_mset_add_mset)
qed (simp add: dq_mark_cancelled_def)

lemma dq_dequeue_keys:
  assumes "dq_inv dq" "dq_keys_unique dq"
  shows "dq_keys_unique (fst (dq_dequeue dq now))"
proof -
  obtain D where "dq_items dq = D + (case snd (dq_dequeue dq now) of None \<Rightarrow> {#} | Some e \<Rightarrow> {#e#})
      + dq_items (fst (dq_dequeue dq now))"
    using dq_dequeue_spec [OF assms(1) prod.collapse [symmetric]] by blast
  then have "image_mset dqe_key (dq_items (fst (dq_dequeue dq now))) \<subseteq># image_mset dqe_key (dq_items dq)"
    by simp
  then show ?thesis
    using assms(2) unfolding dq_keys_unique_def by (meson mset_subset_eq_count order.trans)
qed

lemma dq_apply_keys:
  assumes "dq_inv dq" "dqh_dedup dq \<noteq> 0" "dq_keys_unique dq" "short_key (dq_op_key opn)"
  shows "dq_keys_unique (dq_apply opn dq)"
proof (cases opn)
  case (DqCancel eid)
  then show ?thesis using assms
    by (simp add: dq_cancel_def dq_keys_unique_def dq_mark_cancelled_keys dq_find_lt)
next
  case (DqCancelKey key)
  then show ?thesis using assms
    by (simp add: dq_cancel_by_key_def dq_keys_unique_def dq_mark_cancelled_keys dq_find_lt)
qed (use assms in \<open>simp_all add: dq_enqueue_keys dq_enqueue_level_def dq_dequeue_keys\<close>)

lemma dq_run_keys:
  assumes "dq_inv dq" "dqh_dedup dq \<noteq> 0" "dq_keys_unique dq" "\<forall>opn \<in> set ops. short_key (dq_op_key opn)"
  shows "dq_keys_unique (fold dq_apply ops dq)"
  using assms by (induction ops arbitrary: dq) (simp_all add: dq_apply_inv dq_apply_keys)

section \<open>Properties\<close>

text \<open>C34. Whatever sequence of enqueue, cancel and dequeue calls runs on a fresh queue, the live
  part of the array stays a min-heap on fire times within the capacity.\<close>

theorem dq_run_heap:
  assumes "delayed_queue_create True True c d = Some dq"
  shows "dq_inv (fold dq_apply ops dq)"
proof -
  have "dq_inv dq" using dq_create_inv [OF assms] by simp
  then show ?thesis by (induction ops arbitrary: dq) (simp_all add: dq_apply_inv)
qed

theorem dq_run_heap_witness:
  "\<exists>dq. delayed_queue_create True True 2 1 = Some dq
      \<and> dq_inv (fold dq_apply [DqEnqueue 7 None 1 0 9000 100 100 100, DqDequeue 200] dq)"
proof -
  obtain dq where "delayed_queue_create True True 2 1 = Some dq"
    by (simp add: delayed_queue_create_def)
  then show ?thesis using dq_run_heap by blast
qed

text \<open>C4. A dequeue at time \<open>now\<close> returns the earliest live entry exactly when one is due: the
  result is not cancelled, its fire time has come and is least among what remains; every entry
  that left the queue besides the result was cancelled; when nothing is returned, everything
  still queued fires later.\<close>

theorem dq_dequeue_earliest:
  assumes "dq_inv dq" "dq_dequeue dq now = (dq', r)"
  shows "filter_mset (\<lambda>e. \<not> dqe_cancelled e) (dq_items dq) =
           (case r of None \<Rightarrow> {#} | Some e \<Rightarrow> {#e#}) + filter_mset (\<lambda>e. \<not> dqe_cancelled e) (dq_items dq')
       \<and> (case r of None \<Rightarrow> True | Some e \<Rightarrow>
            dqe_fire_time e \<le> now \<and> (\<forall>x \<in># dq_items dq'. dqe_fire_time e \<le> dqe_fire_time x))
       \<and> (r = None) = (\<forall>x \<in># dq_items dq. \<not> dqe_cancelled x \<longrightarrow> now < dqe_fire_time x)"
proof (intro conjI)
  obtain D where D: "dq_items dq = D + (case r of None \<Rightarrow> {#} | Some e \<Rightarrow> {#e#}) + dq_items dq'"
    and dead: "\<forall>d \<in># D. dqe_cancelled d"
    using dq_dequeue_spec [OF assms] by blast
  have res: "case r of None \<Rightarrow> \<forall>x \<in># dq_items dq'. now < dqe_fire_time x
      | Some e \<Rightarrow> \<not> dqe_cancelled e \<and> dqe_fire_time e \<le> now
                \<and> (\<forall>x \<in># dq_items dq'. dqe_fire_time e \<le> dqe_fire_time x)"
    using dq_dequeue_spec [OF assms] by blast
  have "filter_mset (\<lambda>e. \<not> dqe_cancelled e) D = {#}" using dead by simp
  then show "filter_mset (\<lambda>e. \<not> dqe_cancelled e) (dq_items dq) =
      (case r of None \<Rightarrow> {#} | Some e \<Rightarrow> {#e#}) + filter_mset (\<lambda>e. \<not> dqe_cancelled e) (dq_items dq')"
    using D res by (simp split: option.splits)
  show "case r of None \<Rightarrow> True | Some e \<Rightarrow>
      dqe_fire_time e \<le> now \<and> (\<forall>x \<in># dq_items dq'. dqe_fire_time e \<le> dqe_fire_time x)"
    using res by (simp split: option.splits)
  show "(r = None) = (\<forall>x \<in># dq_items dq. \<not> dqe_cancelled x \<longrightarrow> now < dqe_fire_time x)"
    using D dead res by (cases r) fastforce+
qed

lemma dq_example_inv: "dq_inv dq_example"
  by (simp add: dq_inv_def dq_example_def heap_ord_def less_Suc_eq numeral_2_eq_2)

theorem dq_dequeue_earliest_witness:
  "dq_inv dq_example \<and> (\<exists>dq' e. dq_dequeue dq_example 7 = (dq', Some e) \<and> dqe_id e = 1 \<and> dqe_fire_time e \<le> 7)"
proof -
  have "dq_dequeue dq_example 7 = (dq_pop_root dq_example, Some (dq_zero_entry\<lparr>dqe_id := 1, dqe_fire_time := 5\<rparr>))"
    by (subst dq_dequeue.simps) (simp add: dq_example_def dq_zero_entry_def)
  then show ?thesis using dq_dequeue_earliest [OF dq_example_inv] dq_example_inv by fastforce
qed

text \<open>With deduplication on and keys that fit the key buffer, no two queued entries ever
  share a non-empty key, whatever sequence of calls runs: re-enqueuing a key replaces its entry.\<close>

theorem dq_dedup_unique:
  assumes "delayed_queue_create True True c d = Some dq" "d \<noteq> 0"
    and "\<forall>opn \<in> set ops. short_key (dq_op_key opn)"
  shows "dq_keys_unique (fold dq_apply ops dq)"
proof -
  have "dq_inv dq" "dq_items dq = {#}" using dq_create_inv [OF assms(1)] by auto
  moreover have "dqh_dedup dq = d"
    using assms(1) by (auto simp: delayed_queue_create_def Let_def split: if_splits)
  ultimately show ?thesis
    using assms(2,3) by (intro dq_run_keys) (auto simp: dq_keys_unique_def)
qed

theorem dq_dedup_unique_witness:
  "\<exists>dq. delayed_queue_create True True 3 1 = Some dq
      \<and> dq_keys_unique (fold dq_apply [DqEnqueue 7 (Some ''k'') 1 0 9000 100 100 100,
           DqEnqueue 8 (Some ''k'') 1 0 1000 101 101 101] dq)"
proof -
  obtain dq where dq: "delayed_queue_create True True 3 1 = Some dq"
    by (simp add: delayed_queue_create_def)
  show ?thesis
    using dq_dedup_unique [OF dq, of "[DqEnqueue 7 (Some ''k'') 1 0 9000 100 100 100,
       DqEnqueue 8 (Some ''k'') 1 0 1000 101 101 101]"] dq
    by (auto simp: short_key_def DQ_KEY_LEN_def)
qed

text \<open>A key of 64 characters or more is stored truncated, so a later search for the full key
  misses its own entry and deduplication never applies to it.\<close>

lemma dq_long_key_not_found:
  assumes "\<forall>i < dqh_size dq. length (dqe_key (dqh_heap dq ! i)) < DQ_KEY_LEN" "length k \<ge> DQ_KEY_LEN"
  shows "dq_find_by_key dq (Some k) = None"
  using assms by (auto simp: dq_find_by_key_def find_idx_None_iff)

end
