(* ===== verification/Float64.thy ===== *)
theory Float64
  imports Prelude "HOL-Library.Log_Nat"
begin

text \<open>
  The C type \<open>double\<close> of the sources: finite values are rational numbers, and every arithmetic
  operation rounds its exact result to the nearest binary64 value, ties to even, with a 53-bit
  significand and gradual underflow at exponent \<open>-1074\<close>.  Values beyond the largest finite
  double are not folded into infinity, and a division by zero is an explicit \<open>None\<close>.
  Lemmas: rounding is monotone, odd, exact on whole numbers up to \<open>2\<^sup>5\<^sup>3\<close>, and never crosses a
  representable bound.
\<close>

section \<open>Rounding\<close>

type_synonym double = rat

definition round_half_even :: "rat \<Rightarrow> int" where
  "round_half_even r =
     (let f = \<lfloor>r\<rfloor>; d = r - of_int f
      in if d < 1 / 2 then f else if d > 1 / 2 then f + 1 else if even f then f else f + 1)"

definition rnd :: "int \<Rightarrow> rat \<Rightarrow> rat" where
  "rnd q x = of_int (round_half_even (x / 2 powi q)) * 2 powi q"

definition bin_exp :: "rat \<Rightarrow> int" where
  "bin_exp x =
     (let (a, b) = quotient_of \<bar>x\<bar>; e = bitlen a - bitlen b
      in if \<bar>x\<bar> \<ge> 2 powi e then e else e - 1)"

definition ulp_exp :: "rat \<Rightarrow> int" where
  "ulp_exp x = (if x = 0 then -1074 else max (bin_exp x - 52) (-1074))"

definition fl :: "rat \<Rightarrow> double" where
  "fl x = rnd (ulp_exp x) x"

definition fadd :: "double \<Rightarrow> double \<Rightarrow> double" where "fadd a b = fl (a + b)"
definition fsub :: "double \<Rightarrow> double \<Rightarrow> double" where "fsub a b = fl (a - b)"
definition fmul :: "double \<Rightarrow> double \<Rightarrow> double" where "fmul a b = fl (a * b)"

definition fdiv :: "double \<Rightarrow> double \<Rightarrow> double option" where
  "fdiv a b = (if b = 0 then None else Some (fl (a / b)))"

definition of_c_int :: "int \<Rightarrow> double" where "of_c_int n = fl (of_int n)"

text \<open>Conversion of a double to an integer type: truncation towards zero.\<close>

definition trunc :: "double \<Rightarrow> int" where
  "trunc x = (if x \<ge> 0 then \<lfloor>x\<rfloor> else \<lceil>x\<rceil>)"

definition difftime :: "time_t \<Rightarrow> time_t \<Rightarrow> double" where
  "difftime a b = of_c_int (a - b)"

section \<open>Rounding to a grid\<close>

lemma round_half_even_mono: "r \<le> s \<Longrightarrow> round_half_even r \<le> round_half_even s"
proof -
  assume rs: "r \<le> s"
  have lo: "\<lfloor>t\<rfloor> \<le> round_half_even t" "round_half_even t \<le> \<lfloor>t\<rfloor> + 1" for t
    by (simp_all add: round_half_even_def Let_def)
  show ?thesis
  proof (cases "\<lfloor>r\<rfloor> = \<lfloor>s\<rfloor>")
    case True
    then show ?thesis using rs by (simp add: round_half_even_def Let_def)
  next
    case False
    then have "\<lfloor>r\<rfloor> + 1 \<le> \<lfloor>s\<rfloor>" using floor_mono [OF rs] by linarith
    then show ?thesis using lo(2) [of r] lo(1) [of s] by linarith
  qed
qed

lemma round_half_even_of_int [simp]: "round_half_even (of_int n) = n"
  by (simp add: round_half_even_def)

lemma floor_minus_frac:
  fixes r :: rat
  assumes "r \<noteq> of_int \<lfloor>r\<rfloor>"
  shows "\<lfloor>- r\<rfloor> = - \<lfloor>r\<rfloor> - 1"
  using assms by linarith

lemma round_half_even_minus: "round_half_even (- r) = - round_half_even r"
proof (cases "r = of_int \<lfloor>r\<rfloor>")
  case True
  then show ?thesis by (metis of_int_minus round_half_even_of_int)
next
  case False
  then show ?thesis
    using floor_minus_frac [OF False] of_int_floor_le [of r]
    by (auto simp: round_half_even_def Let_def)
qed

lemma rnd_mono: "x \<le> y \<Longrightarrow> rnd q x \<le> rnd q y"
  by (simp add: rnd_def round_half_even_mono divide_right_mono)

lemma rnd_minus: "rnd q (- x) = - rnd q x"
  by (simp add: rnd_def round_half_even_minus)

lemma rnd_grid: "rnd q (of_int m * 2 powi q) = of_int m * 2 powi q"
  by (simp add: rnd_def)

lemma powi_grid:
  assumes "q \<le> e"
  shows "(2::rat) powi e = of_int (2 ^ nat (e - q)) * 2 powi q"
proof -
  have "(2::rat) powi e = 2 powi ((e - q) + q)" by simp
  also have "\<dots> = 2 powi (e - q) * 2 powi q" by (rule power_int_add) simp
  also have "(2::rat) powi (e - q) = of_int (2 ^ nat (e - q))" using assms by (simp add: power_int_def)
  finally show ?thesis .
qed

lemma rnd_grid_coarser:
  assumes "q \<le> e"
  shows "rnd q (of_int m * 2 powi e) = of_int m * 2 powi e"
proof -
  have "of_int m * (2::rat) powi e = of_int (m * 2 ^ nat (e - q)) * 2 powi q"
    using powi_grid [OF assms] by (simp only: of_int_mult mult.assoc)
  then show ?thesis by (simp only: rnd_grid)
qed

section \<open>Binary exponent\<close>

lemma bitlen_powi:
  assumes "0 < a"
  shows "2 powi (bitlen a - 1) \<le> (of_int a :: rat)" "of_int a < (2::rat) powi bitlen a"
proof -
  have "1 \<le> bitlen a" using assms by (simp add: bitlen_alt_def)
  then have "(2::rat) powi (bitlen a - 1) = of_int (2 ^ nat (bitlen a - 1))"
    "(2::rat) powi bitlen a = of_int (2 ^ nat (bitlen a))"
    by (simp_all add: power_int_def)
  then show "2 powi (bitlen a - 1) \<le> (of_int a :: rat)" "of_int a < (2::rat) powi bitlen a"
    using bitlen_bounds [OF assms] by (simp_all only: of_int_le_iff of_int_less_iff)
qed

lemma bin_exp_bounds:
  assumes "x \<noteq> 0"
  shows "2 powi (bin_exp x) \<le> \<bar>x\<bar>" "\<bar>x\<bar> < 2 powi (bin_exp x + 1)"
proof -
  obtain a b where q: "quotient_of \<bar>x\<bar> = (a, b)" by (cases "quotient_of \<bar>x\<bar>")
  then have b: "0 < b" and x: "\<bar>x\<bar> = of_int a / of_int b"
    by (auto simp: quotient_of_denom_pos quotient_of_div)
  have a: "0 < a" using assms x b by (metis abs_le_zero_iff divide_nonpos_pos not_le of_int_0_less_iff of_int_le_0_iff)
  define e where "e = bitlen a - bitlen b"
  note ba = bitlen_powi [OF a] and bb = bitlen_powi [OF b]
  have "2 powi (e - 1) \<le> \<bar>x\<bar>"
  proof -
    have "(2::rat) powi (e - 1) * of_int b \<le> 2 powi (e - 1) * 2 powi bitlen b" using bb by simp
    also have "\<dots> = 2 powi (bitlen a - 1)" by (simp add: e_def flip: power_int_add)
    finally show ?thesis using ba b by (simp add: x field_simps)
  qed
  moreover have "\<bar>x\<bar> < 2 powi (e + 1)"
  proof -
    have "of_int a < (2::rat) powi (e + 1) * 2 powi (bitlen b - 1)"
      using ba by (simp add: e_def flip: power_int_add)
    also have "\<dots> \<le> 2 powi (e + 1) * of_int b" using bb by simp
    finally show ?thesis using b by (simp add: x field_simps)
  qed
  ultimately show "2 powi (bin_exp x) \<le> \<bar>x\<bar>" "\<bar>x\<bar> < 2 powi (bin_exp x + 1)"
    by (auto simp: bin_exp_def q e_def [symmetric])
qed

lemma bin_exp_mono:
  assumes "x \<noteq> 0" "\<bar>x\<bar> \<le> \<bar>y\<bar>"
  shows "bin_exp x \<le> bin_exp y"
proof -
  have "y \<noteq> 0" using assms by auto
  have "(2::rat) powi (bin_exp x) < 2 powi (bin_exp y + 1)"
    using bin_exp_bounds(1) [OF assms(1)] bin_exp_bounds(2) [OF \<open>y \<noteq> 0\<close>] assms(2) by linarith
  then show ?thesis
    using power_int_increasing [of "bin_exp y + 1" "bin_exp x" "2::rat"] by fastforce
qed

lemma ulp_exp_mono: "\<bar>x\<bar> \<le> \<bar>y\<bar> \<Longrightarrow> ulp_exp x \<le> ulp_exp y"
  using bin_exp_mono [of x y] by (cases "x = 0") (auto simp: ulp_exp_def)

lemma ulp_exp_minus [simp]: "ulp_exp (- x) = ulp_exp x"
  by (simp add: ulp_exp_def bin_exp_def)

section \<open>Laws of rounding\<close>

lemma fl_minus: "fl (- x) = - fl x"
  by (simp add: fl_def rnd_minus)

lemma fl_0 [simp]: "fl 0 = 0"
  using rnd_grid [of _ 0] by (simp add: fl_def)

lemma fl_mono_nonneg:
  assumes "0 \<le> x" "x \<le> y"
  shows "fl x \<le> fl y"
proof (cases "ulp_exp x = ulp_exp y")
  case True
  then show ?thesis using rnd_mono [OF assms(2)] by (simp add: fl_def)
next
  case False
  have "ulp_exp x \<le> ulp_exp y" using assms by (intro ulp_exp_mono) simp
  with False have lt: "ulp_exp x < ulp_exp y" by simp
  have y: "y \<noteq> 0" using lt assms by auto
  define p where "p = bin_exp y"
  have uy: "ulp_exp y = p - 52" using lt y by (auto simp: ulp_exp_def p_def split: if_splits)
  have xp: "x \<le> 2 powi p"
  proof (cases "x = 0")
    case False
    have "bin_exp x < p" using lt False y by (auto simp: ulp_exp_def p_def split: if_splits)
    then have "(2::rat) powi (bin_exp x + 1) \<le> 2 powi p" by (intro power_int_increasing) auto
    then show ?thesis using bin_exp_bounds(2) [OF False] by linarith
  qed simp
  have yp: "2 powi p \<le> y" using bin_exp_bounds(1) [OF y] assms by (simp add: p_def)
  have "fl x \<le> rnd (ulp_exp x) (of_int 1 * 2 powi p)"
    using rnd_mono [OF xp] by (simp add: fl_def)
  also have "\<dots> = of_int 1 * 2 powi p" using lt uy by (intro rnd_grid_coarser) simp
  also have "\<dots> = rnd (ulp_exp y) (of_int 1 * 2 powi p)" using uy by (intro rnd_grid_coarser [symmetric]) simp
  also have "\<dots> \<le> fl y" using rnd_mono [OF yp] by (simp add: fl_def)
  finally show ?thesis .
qed

lemma fl_nonneg: "0 \<le> x \<Longrightarrow> 0 \<le> fl x"
  using fl_mono_nonneg [of 0 x] by simp

lemma fl_mono: "x \<le> y \<Longrightarrow> fl x \<le> fl y"
proof -
  assume xy: "x \<le> y"
  consider "0 \<le> x" | "x < 0" "0 \<le> y" | "y < 0" by linarith
  then show ?thesis
  proof cases
    case 2
    then show ?thesis using fl_nonneg [of y] fl_nonneg [of "- x"] by (simp add: fl_minus)
  next
    case 3
    then show ?thesis using fl_mono_nonneg [of "- y" "- x"] xy by (simp add: fl_minus)
  qed (use xy fl_mono_nonneg in blast)
qed

lemma fl_representable:
  assumes "\<bar>m\<bar> < 2 ^ 53" "-1074 \<le> e"
  shows "fl (of_int m * 2 powi e) = of_int m * 2 powi e"
proof (cases "m = 0")
  case False
  let ?x = "of_int m * (2::rat) powi e"
  have nz: "?x \<noteq> 0" using False by simp
  have "\<bar>of_int m\<bar> < (2::rat) powi 53"
    using assms(1) by (simp add: power_int_def)
  then have "\<bar>?x\<bar> < 2 powi 53 * 2 powi e" by (simp add: abs_mult)
  also have "\<dots> = 2 powi (53 + e)" by (rule power_int_add [symmetric]) simp
  finally have "(2::rat) powi bin_exp ?x < 2 powi (53 + e)"
    using bin_exp_bounds(1) [OF nz] by linarith
  then have "bin_exp ?x < 53 + e"
    using power_int_increasing [of "53 + e" "bin_exp ?x" "2::rat"] by fastforce
  then have "ulp_exp ?x \<le> e" using nz assms(2) by (simp add: ulp_exp_def)
  then show ?thesis unfolding fl_def by (rule rnd_grid_coarser)
qed simp

lemma fl_of_int:
  assumes "\<bar>n\<bar> \<le> 2 ^ 53"
  shows "fl (of_int n) = of_int n"
proof -
  consider "\<bar>n\<bar> < 2 ^ 53" | "n = 2 ^ 53" | "n = - (2 ^ 53)" using assms by linarith
  then show ?thesis
  proof cases
    case 1
    then show ?thesis using fl_representable [of n 0] by simp
  next
    case 2
    then show ?thesis using fl_representable [of 1 53] by (simp add: power_int_def)
  next
    case 3
    then show ?thesis using fl_representable [of "-1" 53] by (simp add: power_int_def)
  qed
qed

lemma fl_idem [simp]: "fl (fl x) = fl x"
proof (cases "x = 0")
  case False
  let ?q = "ulp_exp x" and ?m = "round_half_even (x / 2 powi ulp_exp x)"
  let ?B = "of_int (2 ^ 53) * (2::rat) powi ?q"
  have fx: "fl x = of_int ?m * 2 powi ?q" by (simp add: fl_def rnd_def)
  have "bin_exp x + 1 \<le> 53 + ?q" "-1074 \<le> ?q" using False by (simp_all add: ulp_exp_def)
  then have "\<bar>x\<bar> \<le> 2 powi (53 + ?q)"
    using bin_exp_bounds(2) [OF False] power_int_increasing [of "bin_exp x + 1" "53 + ?q" "2::rat"] by simp
  also have "\<dots> = 2 powi 53 * 2 powi ?q" by (rule power_int_add) simp
  finally have "\<bar>x\<bar> \<le> ?B" by (simp add: power_int_def)
  have pos: "0 < (2::rat) powi ?q" by simp
  from \<open>\<bar>x\<bar> \<le> ?B\<close> have "x \<le> ?B" "- ?B \<le> x" by linarith+
  then have "rnd ?q x \<le> ?B" "- ?B \<le> rnd ?q x"
    using rnd_mono [of x ?B ?q] rnd_mono [of "- ?B" x ?q] by (simp_all only: rnd_grid rnd_minus)
  then have "of_int ?m \<le> (of_int (2 ^ 53) :: rat)" "of_int (- (2 ^ 53)) \<le> (of_int ?m :: rat)"
    unfolding rnd_def of_int_minus mult_minus_left [symmetric] by (simp_all only: mult_le_cancel_right_pos pos)
  then have m: "?m \<le> 2 ^ 53" "- (2 ^ 53) \<le> ?m" by (simp_all only: of_int_le_iff)
  consider "\<bar>?m\<bar> < 2 ^ 53" | "?m = 2 ^ 53" | "?m = - (2 ^ 53)" using m by linarith
  then show ?thesis
  proof cases
    case 1
    then show ?thesis unfolding fx using \<open>-1074 \<le> ?q\<close> by (intro fl_representable)
  next
    case 2
    have "fl x = of_int 1 * 2 powi (53 + ?q)" unfolding fx 2 by (simp add: power_int_add)
    then show ?thesis using fl_representable [of 1 "53 + ?q"] \<open>-1074 \<le> ?q\<close> by simp
  next
    case 3
    have "fl x = of_int (-1) * 2 powi (53 + ?q)" unfolding fx 3 by (simp add: power_int_add)
    then show ?thesis using fl_representable [of "-1" "53 + ?q"] \<open>-1074 \<le> ?q\<close> by simp
  qed
qed simp

lemma fl_le_bound: "x \<le> b \<Longrightarrow> fl b = b \<Longrightarrow> fl x \<le> b"
  using fl_mono [of x b] by simp

lemma fl_ge_bound: "b \<le> x \<Longrightarrow> fl b = b \<Longrightarrow> b \<le> fl x"
  using fl_mono [of b x] by simp

lemma fl_of_int_le: "x \<le> of_int n \<Longrightarrow> \<bar>n\<bar> \<le> 2 ^ 53 \<Longrightarrow> fl x \<le> of_int n"
  by (rule fl_le_bound) (simp_all add: fl_of_int)

lemma fl_of_int_ge: "of_int n \<le> x \<Longrightarrow> \<bar>n\<bar> \<le> 2 ^ 53 \<Longrightarrow> of_int n \<le> fl x"
  by (rule fl_ge_bound) (simp_all add: fl_of_int)

lemma difftime_exact: "\<bar>a - b\<bar> \<le> 2 ^ 53 \<Longrightarrow> difftime a b = of_int (a - b)"
  by (simp add: difftime_def of_c_int_def fl_of_int del: of_int_diff)

lemma difftime_nonneg: "b \<le> a \<Longrightarrow> 0 \<le> difftime a b"
  by (simp add: difftime_def of_c_int_def fl_nonneg)

lemma difftime_nonpos: "a \<le> b \<Longrightarrow> difftime a b \<le> 0"
  using fl_mono [of "of_int (a - b)" 0] by (simp add: difftime_def of_c_int_def)

text \<open>Comparing an elapsed time with a threshold that fits 53 bits is exact, rounded or not.\<close>

lemma difftime_ge_int:
  assumes "\<bar>c\<bar> < 2 ^ 53"
  shows "of_int c \<le> difftime a b \<longleftrightarrow> c \<le> a - b"
proof
  assume "c \<le> a - b"
  then show "of_int c \<le> difftime a b"
    using assms unfolding difftime_def of_c_int_def by (intro fl_of_int_ge) (simp_all del: of_int_diff)
next
  assume le: "of_int c \<le> difftime a b"
  show "c \<le> a - b"
  proof (rule ccontr)
    assume "\<not> c \<le> a - b"
    then have "of_int (a - b) \<le> (of_int (c - 1) :: rat)" by (simp only: of_int_le_iff)
    then have "difftime a b \<le> of_int (c - 1)"
      using assms unfolding difftime_def of_c_int_def by (intro fl_of_int_le) auto
    then show False using le by simp
  qed
qed

lemma elapsed_ms_ge:
  assumes "\<bar>c\<bar> < 2 ^ 53"
  shows "of_c_int c \<le> fmul (difftime a b) 1000 \<longleftrightarrow> c \<le> (a - b) * 1000"
proof -
  have c: "of_c_int c = of_int c" using assms by (simp add: of_c_int_def fl_of_int)
  have le: "of_int c \<le> fl x" if "of_int c \<le> x" for x using that assms by (intro fl_of_int_ge) auto
  have lt: "fl x < of_int c" if "x \<le> of_int (c - 1)" for x
  proof -
    have "fl x \<le> of_int (c - 1)" using that assms by (intro fl_of_int_le) auto
    then show ?thesis by simp
  qed
  consider (mid) "\<bar>a - b\<bar> \<le> 2 ^ 53" | (big) "2 ^ 53 < a - b" | (small) "a - b < - (2 ^ 53)" by linarith
  then show ?thesis
  proof cases
    case mid
    then have eq: "difftime a b * 1000 = of_int ((a - b) * 1000)" by (simp add: difftime_exact)
    show ?thesis
    proof (cases "c \<le> (a - b) * 1000")
      case True
      then have "of_int c \<le> (of_int ((a - b) * 1000) :: rat)" by (simp only: of_int_le_iff)
      then show ?thesis using le True eq c by (simp only: fmul_def)
    next
      case False
      then have "(of_int ((a - b) * 1000) :: rat) \<le> of_int (c - 1)" by (simp only: of_int_le_iff)
      then show ?thesis using lt False eq c by (simp only: fmul_def not_le [symmetric])
    qed
  next
    case big
    then have "of_int (2 ^ 53) \<le> difftime a b"
      unfolding difftime_def of_c_int_def by (intro fl_of_int_ge) (simp_all only: of_int_le_iff, simp_all)
    moreover have "(of_int c :: rat) \<le> of_int (2 ^ 53)" using assms by (simp only: of_int_le_iff)
    ultimately have "of_int c \<le> difftime a b * 1000" by simp
    moreover have "c \<le> (a - b) * 1000" using big assms by simp
    ultimately show ?thesis using le c by (simp add: fmul_def)
  next
    case small
    then have "difftime a b \<le> of_int (- (2 ^ 53))"
      unfolding difftime_def of_c_int_def by (intro fl_of_int_le) (simp_all only: of_int_le_iff, simp_all)
    moreover have "(of_int (- (2 ^ 53)) :: rat) \<le> of_int (c - 1)" using assms by (simp only: of_int_le_iff)
    ultimately have "difftime a b * 1000 \<le> of_int (c - 1)" by simp
    moreover have "\<not> c \<le> (a - b) * 1000" using small assms by simp
    ultimately show ?thesis using lt c by (simp add: fmul_def not_le [symmetric])
  qed
qed

end
