(* ===== verification/Circuit_Breaker.thy ===== *)
theory Circuit_Breaker
  imports Float64
begin

text \<open>
  The three-state circuit breaker of \<open>src/mini-job-system/src/circuit_breaker.c\<close>.  A record holds
  every field of the C structure plus \<open>cb_calls\<close>, the trace of invocations of the state callback
  in order; callbacks are taken not to re-enter the breaker.  Lemmas: the state changes only
  along the documented transitions, a breaker that is open rejects until the cool-down has
  elapsed, half-open probes are bounded, the failure ring keeps the latest 256 failures.
\<close>

section \<open>Data\<close>

datatype cb_state = CB_STATE_CLOSED | CB_STATE_OPEN | CB_STATE_HALF_OPEN

datatype cb_failure_type = CB_FAIL_TIMEOUT | CB_FAIL_CONNECTION | CB_FAIL_HTTP_5XX | CB_FAIL_CUSTOM

record cb_config =
  failure_threshold :: int
  success_threshold :: int
  cb_timeout_ms :: int
  cooldown_ms :: int
  half_open_max_requests :: int
  sliding_window_size :: int

record cb_failure_window =
  fw_timestamps :: "time_t list"
  fw_count :: nat
  fw_head :: nat

type_synonym cb_call = "ptr \<times> cb_state \<times> cb_state \<times> ptr"

record circuit_breaker =
  cb_st :: cb_state
  cb_conf :: cb_config
  consecutive_failures :: int
  consecutive_successes :: int
  total_failures :: int
  total_successes :: int
  total_rejected :: int
  opened_at :: time_t
  last_failure_at :: time_t
  last_success_at :: time_t
  failure_window :: cb_failure_window
  half_open_requests :: int
  state_callback :: ptr
  state_callback_ud :: ptr
  cb_name :: string
  cb_calls :: "cb_call list"

section \<open>Operations\<close>

fun cb_state_name :: "cb_state \<Rightarrow> string" where
  "cb_state_name CB_STATE_CLOSED = ''CLOSED''"
| "cb_state_name CB_STATE_OPEN = ''OPEN''"
| "cb_state_name CB_STATE_HALF_OPEN = ''HALF_OPEN''"

definition cb_default_config :: cb_config where
  "cb_default_config = \<lparr>failure_threshold = 5, success_threshold = 3, cb_timeout_ms = 5000,
     cooldown_ms = 30000, half_open_max_requests = 1, sliding_window_size = 60\<rparr>"

definition fw_empty :: cb_failure_window where
  "fw_empty = \<lparr>fw_timestamps = replicate 256 0, fw_count = 0, fw_head = 0\<rparr>"

definition cb_create :: "bool \<Rightarrow> cb_config option \<Rightarrow> string option \<Rightarrow> circuit_breaker option" where
  "cb_create ok config name =
     (if \<not> ok then None
      else Some \<lparr>cb_st = CB_STATE_CLOSED,
        cb_conf = (case config of Some c \<Rightarrow> c | None \<Rightarrow> cb_default_config),
        consecutive_failures = 0, consecutive_successes = 0, total_failures = 0,
        total_successes = 0, total_rejected = 0, opened_at = 0, last_failure_at = 0,
        last_success_at = 0, failure_window = fw_empty, half_open_requests = 0,
        state_callback = NULL, state_callback_ud = NULL,
        cb_name = (case name of Some n \<Rightarrow> n | None \<Rightarrow> ''unnamed''), cb_calls = []\<rparr>)"

definition cb_set_state_callback :: "ptr \<Rightarrow> ptr \<Rightarrow> circuit_breaker \<Rightarrow> circuit_breaker" where
  "cb_set_state_callback fn ud cb = cb\<lparr>state_callback := fn, state_callback_ud := ud\<rparr>"

text \<open>\<open>t\<close> is the reading of the clock made when the breaker opens.\<close>

definition cb_change_state :: "time_t \<Rightarrow> cb_state \<Rightarrow> circuit_breaker \<Rightarrow> circuit_breaker" where
  "cb_change_state t new cb =
     (if cb_st cb = new then cb
      else
        let old = cb_st cb;
            cb1 = cb\<lparr>cb_st := new\<rparr>;
            cb2 = (if new = CB_STATE_OPEN then cb1\<lparr>opened_at := t\<rparr> else cb1);
            cb3 = (if new = CB_STATE_HALF_OPEN then cb2\<lparr>half_open_requests := 0\<rparr> else cb2)
        in if state_callback cb \<noteq> NULL
           then cb3\<lparr>cb_calls := cb_calls cb3 @ [(state_callback cb, old, new, state_callback_ud cb)]\<rparr>
           else cb3)"

definition cb_allow_request :: "time_t \<Rightarrow> circuit_breaker \<Rightarrow> circuit_breaker \<times> bool" where
  "cb_allow_request now cb =
     (case cb_st cb of
        CB_STATE_CLOSED \<Rightarrow> (cb, True)
      | CB_STATE_OPEN \<Rightarrow>
          if fmul (difftime now (opened_at cb)) 1000 \<ge> of_c_int (cooldown_ms (cb_conf cb))
          then ((cb_change_state now CB_STATE_HALF_OPEN cb)\<lparr>half_open_requests := 1\<rparr>, True)
          else (cb\<lparr>total_rejected := total_rejected cb + 1\<rparr>, False)
      | CB_STATE_HALF_OPEN \<Rightarrow>
          if half_open_requests cb < half_open_max_requests (cb_conf cb)
          then (cb\<lparr>half_open_requests := half_open_requests cb + 1\<rparr>, True)
          else (cb\<lparr>total_rejected := total_rejected cb + 1\<rparr>, False))"

definition cb_report_success :: "time_t \<Rightarrow> circuit_breaker \<Rightarrow> circuit_breaker" where
  "cb_report_success t cb =
     (let cb = cb\<lparr>total_successes := total_successes cb + 1, last_success_at := t\<rparr>
      in case cb_st cb of
        CB_STATE_CLOSED \<Rightarrow> cb\<lparr>consecutive_failures := 0\<rparr>
      | CB_STATE_HALF_OPEN \<Rightarrow>
          let cb1 = cb\<lparr>consecutive_successes := consecutive_successes cb + 1\<rparr>;
              cb2 = (if consecutive_successes cb1 \<ge> success_threshold (cb_conf cb1)
                     then cb_change_state t CB_STATE_CLOSED
                            (cb1\<lparr>consecutive_failures := 0, consecutive_successes := 0\<rparr>)
                     else cb1);
              r = half_open_requests cb2 - 1
          in cb2\<lparr>half_open_requests := (if r < 0 then 0 else r)\<rparr>
      | CB_STATE_OPEN \<Rightarrow> cb)"

definition cb_failure_window_record :: "time_t \<Rightarrow> cb_failure_window \<Rightarrow> cb_failure_window" where
  "cb_failure_window_record t fw =
     \<lparr>fw_timestamps = (fw_timestamps fw)[fw_head fw := t],
      fw_count = (if fw_count fw < 256 then fw_count fw + 1 else fw_count fw),
      fw_head = (fw_head fw + 1) mod 256\<rparr>"

definition cb_transition_to_open :: "time_t \<Rightarrow> circuit_breaker \<Rightarrow> circuit_breaker" where
  "cb_transition_to_open t cb =
     cb_change_state t CB_STATE_OPEN (cb\<lparr>consecutive_successes := 0, half_open_requests := 0\<rparr>)"

definition cb_transition_to_half_open :: "time_t \<Rightarrow> circuit_breaker \<Rightarrow> circuit_breaker" where
  "cb_transition_to_half_open t cb =
     cb_change_state t CB_STATE_HALF_OPEN (cb\<lparr>half_open_requests := 0\<rparr>)"

definition cb_transition_to_closed :: "time_t \<Rightarrow> circuit_breaker \<Rightarrow> circuit_breaker" where
  "cb_transition_to_closed t cb =
     cb_change_state t CB_STATE_CLOSED
       (cb\<lparr>consecutive_failures := 0, consecutive_successes := 0, half_open_requests := 0\<rparr>)"

text \<open>Three readings of the clock: the failure time, the ring entry, the opening time.\<close>

definition cb_report_failure ::
  "time_t \<Rightarrow> time_t \<Rightarrow> time_t \<Rightarrow> cb_failure_type \<Rightarrow> circuit_breaker \<Rightarrow> circuit_breaker" where
  "cb_report_failure t1 t2 t3 ty cb =
     (let cb = cb\<lparr>total_failures := total_failures cb + 1, last_failure_at := t1,
                  failure_window := cb_failure_window_record t2 (failure_window cb)\<rparr>
      in case cb_st cb of
        CB_STATE_CLOSED \<Rightarrow>
          let cb1 = cb\<lparr>consecutive_failures := consecutive_failures cb + 1\<rparr>
          in if consecutive_failures cb1 \<ge> failure_threshold (cb_conf cb1)
             then cb_transition_to_open t3 cb1 else cb1
      | CB_STATE_HALF_OPEN \<Rightarrow>
          cb_transition_to_open t3 (cb\<lparr>consecutive_failures := consecutive_failures cb + 1\<rparr>)
      | CB_STATE_OPEN \<Rightarrow> cb)"

text \<open>The queries take a handle that may be null.\<close>

definition cb_get_state :: "circuit_breaker option \<Rightarrow> cb_state" where
  "cb_get_state h = (case h of Some cb \<Rightarrow> cb_st cb | None \<Rightarrow> CB_STATE_OPEN)"

definition cb_is_open :: "circuit_breaker option \<Rightarrow> bool" where
  "cb_is_open h = (case h of Some cb \<Rightarrow> cb_st cb = CB_STATE_OPEN | None \<Rightarrow> False)"

definition cb_is_closed :: "circuit_breaker option \<Rightarrow> bool" where
  "cb_is_closed h = (case h of Some cb \<Rightarrow> cb_st cb = CB_STATE_CLOSED | None \<Rightarrow> False)"

definition cb_is_half_open :: "circuit_breaker option \<Rightarrow> bool" where
  "cb_is_half_open h = (case h of Some cb \<Rightarrow> cb_st cb = CB_STATE_HALF_OPEN | None \<Rightarrow> False)"

definition cb_get_consecutive_failures :: "circuit_breaker option \<Rightarrow> int" where
  "cb_get_consecutive_failures h = (case h of Some cb \<Rightarrow> consecutive_failures cb | None \<Rightarrow> 0)"

definition cb_get_total_failures :: "circuit_breaker option \<Rightarrow> int" where
  "cb_get_total_failures h = (case h of Some cb \<Rightarrow> total_failures cb | None \<Rightarrow> 0)"

definition cb_get_total_successes :: "circuit_breaker option \<Rightarrow> int" where
  "cb_get_total_successes h = (case h of Some cb \<Rightarrow> total_successes cb | None \<Rightarrow> 0)"

definition cb_get_total_rejected :: "circuit_breaker option \<Rightarrow> int" where
  "cb_get_total_rejected h = (case h of Some cb \<Rightarrow> total_rejected cb | None \<Rightarrow> 0)"

text \<open>The two quotients have a nonzero divisor, so \<open>fl (a / b)\<close> is the C division.\<close>

definition cb_get_failure_rate :: "circuit_breaker option \<Rightarrow> double" where
  "cb_get_failure_rate h =
     (case h of
        None \<Rightarrow> 1
      | Some cb \<Rightarrow>
          let total = total_failures cb + total_successes cb
          in if total = 0 then 0 else fl (of_c_int (total_failures cb) / of_c_int total))"

definition cb_time_until_retry :: "time_t \<Rightarrow> circuit_breaker option \<Rightarrow> double" where
  "cb_time_until_retry t h =
     (case h of
        None \<Rightarrow> 0
      | Some cb \<Rightarrow>
          if cb_st cb \<noteq> CB_STATE_OPEN then 0
          else
            let elapsed_ms = fmul (difftime t (opened_at cb)) 1000;
                remaining = fsub (of_c_int (cooldown_ms (cb_conf cb))) elapsed_ms
            in if remaining > 0 then fl (remaining / 1000) else 0)"

definition cb_reset :: "circuit_breaker \<Rightarrow> circuit_breaker" where
  "cb_reset cb = cb\<lparr>cb_st := CB_STATE_CLOSED, consecutive_failures := 0, consecutive_successes := 0,
     total_failures := 0, total_successes := 0, total_rejected := 0, half_open_requests := 0,
     failure_window := fw_empty\<rparr>"

text \<open>The counting loop walks back from the newest entry and stops at the first one before the
  cut-off.\<close>

fun fw_count_from :: "cb_failure_window \<Rightarrow> time_t \<Rightarrow> nat \<Rightarrow> nat \<Rightarrow> nat" where
  "fw_count_from fw cutoff i 0 = 0"
| "fw_count_from fw cutoff i (Suc left) =
     (let idx = (fw_head fw + 256 - 1 - i) mod 256
      in if fw_timestamps fw ! idx \<ge> cutoff then Suc (fw_count_from fw cutoff (Suc i) left) else 0)"

definition cb_failure_window_count :: "time_t \<Rightarrow> cb_failure_window \<Rightarrow> int \<Rightarrow> nat" where
  "cb_failure_window_count now fw window_sec =
     (if fw_count fw = 0 then 0 else fw_count_from fw (now - window_sec) 0 (fw_count fw))"

section \<open>Runs\<close>

datatype cb_op =
    CbAllow time_t
  | CbSuccess time_t
  | CbFailure time_t time_t time_t cb_failure_type

fun cb_apply :: "cb_op \<Rightarrow> circuit_breaker \<Rightarrow> circuit_breaker" where
  "cb_apply (CbAllow t) cb = fst (cb_allow_request t cb)"
| "cb_apply (CbSuccess t) cb = cb_report_success t cb"
| "cb_apply (CbFailure t1 t2 t3 ty) cb = cb_report_failure t1 t2 t3 ty cb"

text \<open>The transitions the module documents, with the condition that takes each of them.\<close>

inductive cb_transition :: "circuit_breaker \<Rightarrow> cb_op \<Rightarrow> cb_state \<Rightarrow> bool" where
  trip: "cb_st cb = CB_STATE_CLOSED \<Longrightarrow>
    consecutive_failures cb + 1 \<ge> failure_threshold (cb_conf cb) \<Longrightarrow>
    cb_transition cb (CbFailure t1 t2 t3 ty) CB_STATE_OPEN"
| probe: "cb_st cb = CB_STATE_OPEN \<Longrightarrow> (t - opened_at cb) * 1000 \<ge> cooldown_ms (cb_conf cb) \<Longrightarrow>
    cb_transition cb (CbAllow t) CB_STATE_HALF_OPEN"
| recover: "cb_st cb = CB_STATE_HALF_OPEN \<Longrightarrow>
    consecutive_successes cb + 1 \<ge> success_threshold (cb_conf cb) \<Longrightarrow>
    cb_transition cb (CbSuccess t) CB_STATE_CLOSED"
| relapse: "cb_st cb = CB_STATE_HALF_OPEN \<Longrightarrow>
    cb_transition cb (CbFailure t1 t2 t3 ty) CB_STATE_OPEN"

inductive_simps cb_transition_simps [simp]:
  "cb_transition cb (CbAllow t) s"
  "cb_transition cb (CbSuccess t) s"
  "cb_transition cb (CbFailure t1 t2 t3 ty) s"

definition cb_inv :: "circuit_breaker \<Rightarrow> bool" where
  "cb_inv cb \<longleftrightarrow>
     0 \<le> half_open_requests cb
     \<and> half_open_requests cb \<le> max 1 (half_open_max_requests (cb_conf cb))
     \<and> 0 \<le> consecutive_successes cb \<and> 0 \<le> consecutive_failures cb
     \<and> (cb_st cb = CB_STATE_CLOSED \<longrightarrow>
          consecutive_successes cb = 0 \<and> consecutive_failures cb < max 1 (failure_threshold (cb_conf cb)))
     \<and> (cb_st cb = CB_STATE_OPEN \<longrightarrow> consecutive_successes cb = 0)
     \<and> (cb_st cb = CB_STATE_HALF_OPEN \<longrightarrow>
          consecutive_successes cb < max 1 (success_threshold (cb_conf cb)))
     \<and> length (fw_timestamps (failure_window cb)) = 256 \<and> fw_head (failure_window cb) < 256
     \<and> fw_count (failure_window cb) \<le> 256"

text \<open>The ring read from the newest failure back.\<close>

definition fw_list :: "cb_failure_window \<Rightarrow> time_t list" where
  "fw_list fw = map (\<lambda>i. fw_timestamps fw ! ((fw_head fw + 256 - 1 - i) mod 256)) [0..<fw_count fw]"

definition fw_wf :: "cb_failure_window \<Rightarrow> bool" where
  "fw_wf fw \<longleftrightarrow> length (fw_timestamps fw) = 256 \<and> fw_head fw < 256 \<and> fw_count fw \<le> 256"

text \<open>A breaker that opened at time 100 with a cool-down of 30 seconds.\<close>

definition cb_sample :: circuit_breaker where
  "cb_sample = \<lparr>cb_st = CB_STATE_OPEN, cb_conf = cb_default_config, consecutive_failures = 5,
     consecutive_successes = 0, total_failures = 5, total_successes = 0, total_rejected = 0,
     opened_at = 100, last_failure_at = 100, last_success_at = 0, failure_window = fw_empty,
     half_open_requests = 0, state_callback = NULL, state_callback_ud = NULL, cb_name = ''api'',
     cb_calls = []\<rparr>"

lemmas cb_op_defs = cb_allow_request_def cb_report_success_def cb_report_failure_def
  cb_transition_to_open_def cb_transition_to_half_open_def cb_transition_to_closed_def
  cb_change_state_def Let_def

section \<open>Transitions\<close>

lemma cb_conf_frame [simp]: "cb_conf (cb_apply opn cb) = cb_conf cb"
  by (cases opn) (simp_all add: cb_op_defs split: cb_state.split)

lemma cb_cooldown_exact:
  "\<bar>cooldown_ms (cb_conf cb)\<bar> < 2 ^ 31 \<Longrightarrow>
   of_c_int (cooldown_ms (cb_conf cb)) \<le> fmul (difftime t (opened_at cb)) 1000 \<longleftrightarrow>
   cooldown_ms (cb_conf cb) \<le> (t - opened_at cb) * 1000"
  by (rule elapsed_ms_ge) simp

lemma cb_apply_state:
  assumes "\<bar>cooldown_ms (cb_conf cb)\<bar> < 2 ^ 31"
  shows "cb_st (cb_apply opn cb) = s \<and> s \<noteq> cb_st cb \<longleftrightarrow> cb_transition cb opn s"
  using cb_cooldown_exact [OF assms]
  by (cases opn; cases "cb_st cb"; cases s) (simp_all add: cb_op_defs algebra_simps)

section \<open>Invariant\<close>

lemma cb_create_inv: "cb_create ok config name = Some cb \<Longrightarrow> cb_inv cb \<and> cb_st cb = CB_STATE_CLOSED"
  by (auto simp: cb_create_def cb_inv_def fw_empty_def split: if_splits option.splits)

lemma cb_apply_inv: "cb_inv cb \<Longrightarrow> cb_inv (cb_apply opn cb)"
  by (cases opn; cases "cb_st cb")
     (auto simp: cb_inv_def cb_op_defs cb_failure_window_record_def)

section \<open>The failure ring\<close>

lemma mod_once: "n < 2 * m \<Longrightarrow> n mod m = (if n < m then n else n - m :: nat)"
  by (simp add: mod_if)

lemma fw_index_shift:
  assumes "h < 256" "i < 255"
  shows "((h + 1) mod 256 + 256 - 1 - Suc i) mod 256 = (h + 256 - 1 - i) mod (256::nat)"
    "(h + 256 - 1 - i) mod 256 \<noteq> (h::nat)"
    "((h + 1) mod 256 + 256 - 1 - 0) mod 256 = h"
proof -
  have "(h + 1) mod 256 = (if h < 255 then h + 1 else 0)" using assms(1) by (cases "h = 255") auto
  then show "((h + 1) mod 256 + 256 - 1 - Suc i) mod 256 = (h + 256 - 1 - i) mod (256::nat)"
    "(h + 256 - 1 - i) mod 256 \<noteq> (h::nat)"
    "((h + 1) mod 256 + 256 - 1 - 0) mod 256 = h"
    using assms mod_once [of "(h + 1) mod 256 + 256 - 1 - Suc i" 256] mod_once [of "h + 256 - 1 - i" 256]
      mod_once [of "(h + 1) mod 256 + 256 - 1 - 0" 256]
    by (auto split: if_splits)
qed

lemma length_fw_list [simp]: "length (fw_list fw) = fw_count fw"
  by (simp add: fw_list_def)

lemma nth_fw_list:
  "i < fw_count fw \<Longrightarrow> fw_list fw ! i = fw_timestamps fw ! ((fw_head fw + 256 - 1 - i) mod 256)"
  by (simp add: fw_list_def)

lemma fw_list_record:
  assumes "fw_wf fw"
  shows "fw_list (cb_failure_window_record t fw) = take 256 (t # fw_list fw)"
    and "fw_wf (cb_failure_window_record t fw)"
proof -
  let ?fw = "cb_failure_window_record t fw"
  show "fw_wf ?fw" using assms by (auto simp: fw_wf_def cb_failure_window_record_def)
  have cnt: "fw_count ?fw = min 256 (Suc (fw_count fw))"
    using assms by (auto simp: fw_wf_def cb_failure_window_record_def)
  have nth: "fw_list ?fw ! i = (t # fw_list fw) ! i" if "i < fw_count ?fw" for i
  proof (cases i)
    case 0
    then show ?thesis
      using assms fw_index_shift(3) [of "fw_head fw" 0] unfolding nth_fw_list [OF that]
      by (simp add: fw_wf_def cb_failure_window_record_def)
  next
    case (Suc j)
    then have "j < 255" "j < fw_count fw" using that cnt by auto
    then show ?thesis
      using Suc assms fw_index_shift [of "fw_head fw" j] unfolding nth_fw_list [OF that]
      by (simp add: nth_fw_list [of j fw] fw_wf_def cb_failure_window_record_def)
  qed
  show "fw_list ?fw = take 256 (t # fw_list fw)"
  proof (rule nth_equalityI)
    show "length (fw_list ?fw) = length (take 256 (t # fw_list fw))" using cnt by simp
    fix i assume "i < length (fw_list ?fw)"
    then show "fw_list ?fw ! i = take 256 (t # fw_list fw) ! i" using nth [of i] cnt by (cases i) simp_all
  qed
qed

lemma fw_count_from_eq:
  "i + left = fw_count fw \<Longrightarrow>
   fw_count_from fw cutoff i left = length (takeWhile (\<lambda>x. x \<ge> cutoff) (drop i (fw_list fw)))"
proof (induction left arbitrary: i)
  case 0
  then show ?case by (simp add: fw_list_def)
next
  case (Suc left)
  then have i: "i < length (fw_list fw)" by (simp add: fw_list_def)
  have nth: "fw_list fw ! i = fw_timestamps fw ! ((fw_head fw + 256 - 1 - i) mod 256)"
    using Suc.prems by (simp add: fw_list_def)
  have "drop i (fw_list fw) = fw_list fw ! i # drop (Suc i) (fw_list fw)"
    using i by (simp add: Cons_nth_drop_Suc)
  then show ?case using Suc nth by (simp add: Let_def)
qed

lemma takeWhile_sorted_desc:
  "sorted_wrt (\<ge>) xs \<Longrightarrow> takeWhile (\<lambda>x. x \<ge> c) xs = filter (\<lambda>x. x \<ge> c) (xs :: time_t list)"
proof (induction xs)
  case (Cons x xs)
  then have "\<not> c \<le> x \<Longrightarrow> filter (\<lambda>x. c \<le> x) xs = []" by (auto simp: filter_empty_conv)
  then show ?case using Cons by auto
qed simp

lemma fw_records_list:
  "fw_wf fw \<Longrightarrow> fw_list (fold cb_failure_window_record ts fw) = take 256 (rev ts @ fw_list fw)
     \<and> fw_wf (fold cb_failure_window_record ts fw)"
proof (induction ts arbitrary: fw)
  case Nil
  then show ?case by (simp add: fw_list_def fw_wf_def)
next
  case (Cons t ts)
  have "take 256 (rev ts @ take 256 (t # fw_list fw)) = take 256 (rev ts @ t # fw_list fw)"
    by (cases "length ts \<le> 256") (simp_all add: take_Cons' min_def)
  then show ?case using Cons.IH [OF fw_list_record(2) [OF Cons.prems]] fw_list_record(1) [OF Cons.prems]
    by simp
qed

section \<open>Properties\<close>

text \<open>C7. Requests and reported outcomes move the breaker along the documented transitions and no
  others: closed to open when the failure count reaches the threshold, open to half-open when the
  cool-down has elapsed, half-open to closed after enough successes, half-open to open on any
  failure; and each of these happens whenever its condition holds.\<close>

theorem cb_transitions_exact:
  assumes "\<bar>cooldown_ms (cb_conf cb)\<bar> < 2 ^ 31"
  shows "(cb_st (cb_apply opn cb) = s \<and> s \<noteq> cb_st cb) = cb_transition cb opn s"
  by (rule cb_apply_state [OF assms])

theorem cb_transitions_exact_witness:
  "\<bar>cooldown_ms (cb_conf cb_sample)\<bar> < 2 ^ 31 \<and> cb_transition cb_sample (CbAllow 130) CB_STATE_HALF_OPEN
   \<and> cb_st (cb_apply (CbAllow 130) cb_sample) = CB_STATE_HALF_OPEN"
proof -
  have c: "\<bar>cooldown_ms (cb_conf cb_sample)\<bar> < 2 ^ 31"
    by (simp add: cb_sample_def cb_default_config_def)
  have t: "cb_transition cb_sample (CbAllow 130) CB_STATE_HALF_OPEN"
    by (simp add: cb_sample_def cb_default_config_def)
  then show ?thesis using c cb_transitions_exact [OF c, of "CbAllow 130" CB_STATE_HALF_OPEN] by blast
qed

text \<open>In every run from creation the counters stay within their thresholds: a closed breaker
  has fewer consecutive failures than its threshold, a half-open one fewer successes than needed,
  and at most \<open>max 1 half_open_max_requests\<close> probes are ever in flight.\<close>

theorem cb_run_bounds:
  assumes "cb_create True config name = Some cb"
  shows "cb_inv (fold cb_apply ops cb)"
proof -
  have "cb_inv cb" using cb_create_inv [OF assms] by simp
  then show ?thesis by (induction ops arbitrary: cb) (simp_all add: cb_apply_inv)
qed

theorem cb_run_bounds_witness:
  "\<exists>cb. cb_create True None None = Some cb
     \<and> cb_inv (fold cb_apply [CbFailure 1 1 1 CB_FAIL_TIMEOUT, CbAllow 2, CbSuccess 3] cb)"
proof -
  obtain cb where "cb_create True None None = Some cb" by (simp add: cb_create_def)
  then show ?thesis using cb_run_bounds by blast
qed

text \<open>Fail fast: while the cool-down of an open breaker has not elapsed, any number of requests
  is rejected and nothing but the rejection counter changes.\<close>

theorem cb_open_rejects:
  assumes "cb_st cb = CB_STATE_OPEN" "\<bar>cooldown_ms (cb_conf cb)\<bar> < 2 ^ 31"
    and "\<forall>t \<in> set ts. (t - opened_at cb) * 1000 < cooldown_ms (cb_conf cb)"
  shows "fold (\<lambda>t cb. fst (cb_allow_request t cb)) ts cb =
           cb\<lparr>total_rejected := total_rejected cb + int (length ts)\<rparr>
         \<and> (\<forall>t \<in> set ts. \<not> snd (cb_allow_request t cb))"
  using assms
proof (induction ts arbitrary: cb)
  case (Cons t ts)
  let ?cb = "cb\<lparr>total_rejected := total_rejected cb + 1\<rparr>"
  have step: "cb_allow_request t' cb' = (cb'\<lparr>total_rejected := total_rejected cb' + 1\<rparr>, False)"
    if "t' \<in> set (t # ts)" "cb' \<in> {cb, ?cb}" for t' cb'
    using that Cons.prems cb_cooldown_exact [of cb t']
    by (auto simp: cb_allow_request_def)
  have "fold (\<lambda>t cb. fst (cb_allow_request t cb)) ts ?cb =
      ?cb\<lparr>total_rejected := total_rejected ?cb + int (length ts)\<rparr>"
    using Cons.IH [of ?cb] Cons.prems by simp
  then show ?case using step [of _ cb] by (simp add: algebra_simps)
qed simp

theorem cb_open_rejects_witness:
  "cb_st cb_sample = CB_STATE_OPEN \<and>
   total_rejected (fold (\<lambda>t cb. fst (cb_allow_request t cb)) [101, 115, 129] cb_sample) = 3"
  using cb_open_rejects [of cb_sample "[101, 115, 129]"]
  by (simp add: cb_sample_def cb_default_config_def)

text \<open>For failures reported in chronological order, the sliding-window count is the number of
  the latest 256 failures that are not older than the window: the ring loses only the oldest
  entries and the early exit of the scan misses none.\<close>

theorem cb_window_count_exact:
  assumes "sorted ts"
  shows "cb_failure_window_count now (fold cb_failure_window_record ts fw_empty) w =
         length (filter (\<lambda>t. now - w \<le> t) (take 256 (rev ts)))"
proof -
  let ?fw = "fold cb_failure_window_record ts fw_empty"
  have "fw_wf fw_empty" "fw_list fw_empty = []" by (simp_all add: fw_wf_def fw_empty_def fw_list_def)
  then have l: "fw_list ?fw = take 256 (rev ts)" using fw_records_list [of fw_empty ts] by simp
  have "sorted_wrt (\<ge>) (take 256 (rev ts))"
    using assms by (intro sorted_wrt_take) (simp add: sorted_wrt_rev)
  then have "takeWhile (\<lambda>x. now - w \<le> x) (fw_list ?fw) = filter (\<lambda>x. now - w \<le> x) (fw_list ?fw)"
    unfolding l by (rule takeWhile_sorted_desc)
  then show ?thesis
    using fw_count_from_eq [of 0 "fw_count ?fw" ?fw "now - w"]
    by (simp add: cb_failure_window_count_def l [symmetric]) (simp add: fw_list_def)
qed

theorem cb_window_count_exact_witness:
  "sorted [10, 20, 30 :: time_t] \<and>
   cb_failure_window_count 35 (fold cb_failure_window_record [10, 20, 30] fw_empty) 15 = 2"
  using cb_window_count_exact [of "[10, 20, 30]" 35 15] by simp

end
