(* ===== verification/Task_Retry.thy ===== *)
theory Task_Retry
  imports Float64
begin

text \<open>
  The retry table of \<open>src/mini-job-system/src/task_retry.c\<close>: exponential back-off with jitter,
  selective retry on error codes, and a bounded dead-letter list.  The entry table has a fixed
  number of slots while the capacity is chosen by the caller; a write outside the table is the
  value \<open>None\<close>.  The pseudo-random generator and the delay arithmetic are words, so that their
  wrap-around is the one of the code.  Lemmas: the doubling loop computes the clamped power, the
  jitter is within its bound, and the retry counter never passes its limit.
\<close>

section \<open>Data\<close>

definition TR_MAX_RETRIES_DEFAULT :: int where "TR_MAX_RETRIES_DEFAULT = 3"
definition TR_BASE_DELAY_MS :: u64 where "TR_BASE_DELAY_MS = 100"
definition TR_MAX_DELAY_MS :: u64 where "TR_MAX_DELAY_MS = 3600000"
definition TR_MAX_JITTER_MS :: int where "TR_MAX_JITTER_MS = 50"
definition TR_DEAD_LETTER_MAX :: nat where "TR_DEAD_LETTER_MAX = 256"

datatype tr_error_code = TR_ERR_NONE | TR_ERR_TIMEOUT | TR_ERR_HTTP_503 | TR_ERR_CONN_REFUSED
  | TR_ERR_TEMP_FAILURE | TR_ERR_UNKNOWN

record tr_entry =
  tre_job_id :: u64
  tre_task :: ptr
  tre_userdata :: ptr
  max_retries :: int
  retry_count :: int
  base_delay_ms :: u64
  current_delay_ms :: u64
  retry_on_codes :: "tr_error_code list"
  retry_on_count :: int
  next_retry_at :: time_t
  dead_letter_cb :: ptr
  dead_letter_ud :: ptr
  exhausted :: bool

record tr_dead_letter =
  trd_job_id :: u64
  trd_error :: tr_error_code
  exhausted_at :: time_t
  trd_cb :: ptr
  trd_ud :: ptr

record task_retry =
  tr_entries :: "tr_entry list"
  tr_count :: nat
  tr_capacity :: int
  dead_letters :: "tr_dead_letter list"
  tr_seed :: u32

definition tr_zero_entry :: tr_entry where
  "tr_zero_entry = \<lparr>tre_job_id = 0, tre_task = NULL, tre_userdata = NULL, max_retries = 0,
     retry_count = 0, base_delay_ms = 0, current_delay_ms = 0,
     retry_on_codes = replicate 8 TR_ERR_NONE, retry_on_count = 0, next_retry_at = 0,
     dead_letter_cb = NULL, dead_letter_ud = NULL, exhausted = False\<rparr>"

section \<open>Operations\<close>

text \<open>The first \<open>dead_count\<close> dead letters are the list \<open>dead_letters\<close>.\<close>

definition task_retry_create :: "bool \<Rightarrow> time_t \<Rightarrow> int \<Rightarrow> task_retry option" where
  "task_retry_create ok t capacity =
     (let capacity = (if capacity \<le> 0 then int TR_DEAD_LETTER_MAX else capacity)
      in if \<not> ok then None
         else Some \<lparr>tr_entries = replicate TR_DEAD_LETTER_MAX tr_zero_entry, tr_count = 0,
                    tr_capacity = capacity, dead_letters = [], tr_seed = word_of_int t\<rparr>)"

definition tr_find :: "task_retry \<Rightarrow> u64 \<Rightarrow> nat option" where
  "tr_find tr jid = find_idx (\<lambda>e. tre_job_id e = jid) (tr_entries tr) (tr_count tr)"

definition tr_fill :: "tr_entry \<Rightarrow> u64 \<Rightarrow> ptr \<Rightarrow> ptr \<Rightarrow> int \<Rightarrow> u64 \<Rightarrow> tr_entry" where
  "tr_fill e jid task ud mr base =
     (let b = (if base \<noteq> 0 then base else TR_BASE_DELAY_MS)
      in e\<lparr>tre_job_id := jid, tre_task := task, tre_userdata := ud,
           max_retries := (if mr \<ge> 0 then mr else TR_MAX_RETRIES_DEFAULT),
           base_delay_ms := b, current_delay_ms := b, retry_count := 0, exhausted := False,
           retry_on_count := 0\<rparr>)"

text \<open>\<open>None\<close> is the write past the end of \<open>entries[TR_DEAD_LETTER_MAX]\<close>.\<close>

definition tr_register ::
  "task_retry \<Rightarrow> u64 \<Rightarrow> ptr \<Rightarrow> ptr \<Rightarrow> int \<Rightarrow> u64 \<Rightarrow> (task_retry \<times> int) option" where
  "tr_register tr jid task ud mr base =
     (if task = NULL then Some (tr, -1)
      else if int (tr_count tr) \<ge> tr_capacity tr then Some (tr, -2)
      else case tr_find tr jid of
        Some idx \<Rightarrow>
          Some (tr\<lparr>tr_entries := (tr_entries tr)[idx := tr_fill (tr_entries tr ! idx) jid task ud mr base]\<rparr>, 0)
      | None \<Rightarrow>
          let idx = tr_count tr in
          if idx \<ge> length (tr_entries tr) then None
          else Some (tr\<lparr>tr_entries := (tr_entries tr)[idx := tr_fill tr_zero_entry jid task ud mr base],
                        tr_count := idx + 1\<rparr>, 0))"

text \<open>The codes array has 8 slots; the caller supplies at least \<open>count\<close> codes.  A negative count
  is stored as it is and copies nothing.\<close>

definition tr_set_retry_on :: "task_retry \<Rightarrow> u64 \<Rightarrow> tr_error_code list \<Rightarrow> int \<Rightarrow> task_retry \<times> int" where
  "tr_set_retry_on tr jid codes cnt =
     (case tr_find tr jid of
        None \<Rightarrow> (tr, -1)
      | Some idx \<Rightarrow>
          let n = (if cnt > 8 then 8 else cnt);
              e = tr_entries tr ! idx;
              e' = e\<lparr>retry_on_count := n,
                     retry_on_codes := take (nat n) codes @ drop (nat n) (retry_on_codes e)\<rparr>
          in (tr\<lparr>tr_entries := (tr_entries tr)[idx := e']\<rparr>, 0))"

definition tr_set_dead_letter :: "task_retry \<Rightarrow> u64 \<Rightarrow> ptr \<Rightarrow> ptr \<Rightarrow> task_retry \<times> int" where
  "tr_set_dead_letter tr jid cb ud =
     (case tr_find tr jid of
        None \<Rightarrow> (tr, -1)
      | Some idx \<Rightarrow>
          (tr\<lparr>tr_entries := (tr_entries tr)[idx :=
             (tr_entries tr ! idx)\<lparr>dead_letter_cb := cb, dead_letter_ud := ud\<rparr>]\<rparr>, 0))"

definition should_retry_on :: "tr_entry \<Rightarrow> tr_error_code \<Rightarrow> bool" where
  "should_retry_on e err =
     (if err = TR_ERR_NONE then False
      else if retry_on_count e = 0 then True
      else err \<in> set (take (nat (retry_on_count e)) (retry_on_codes e)))"

text \<open>The doubling loop, with the wrap-around of \<open>uint64_t\<close> and the early exit at the maximum.\<close>

fun tr_double :: "nat \<Rightarrow> u64 \<Rightarrow> u64" where
  "tr_double 0 delay = delay"
| "tr_double (Suc n) delay =
     (let d = delay * 2 in if d > TR_MAX_DELAY_MS then TR_MAX_DELAY_MS else tr_double n d)"

definition tr_next_seed :: "u32 \<Rightarrow> u32" where
  "tr_next_seed s = s * 1664525 + 1013904223"

text \<open>The jitter: a double in \<open>[-50, 50)\<close> converted to \<open>int\<close>.  Every operation is rounded.\<close>

definition tr_jitter :: "u32 \<Rightarrow> int" where
  "tr_jitter s =
     trunc (fsub (fmul (fmul (fl (of_c_int (uint s) / 4294967296)) (of_c_int TR_MAX_JITTER_MS)) 2)
                 (of_c_int TR_MAX_JITTER_MS))"

text \<open>\<open>seed = None\<close> is a null seed pointer; the second result is the seed after the call.\<close>

definition tr_calc_delay :: "int \<Rightarrow> u64 \<Rightarrow> bool \<Rightarrow> u32 option \<Rightarrow> u64 \<times> u32 option" where
  "tr_calc_delay rc base use_jitter seed =
     (let delay = tr_double (nat rc) base
      in case seed of
        Some s \<Rightarrow>
          if use_jitter then
            let s' = tr_next_seed s;
                d1 = word_of_int (sint delay + tr_jitter s') :: u64;
                d2 = (if d1 < 1 then 1 else d1);
                d3 = (if d2 > TR_MAX_DELAY_MS then TR_MAX_DELAY_MS else d2)
            in (d3, Some s')
          else (delay, Some s)
      | None \<Rightarrow> (delay, None))"

text \<open>Three readings of the clock on the retry path, one on the exhausted path (\<open>t1\<close>).\<close>

definition tr_report_result ::
  "task_retry \<Rightarrow> u64 \<Rightarrow> tr_error_code \<Rightarrow> time_t \<Rightarrow> time_t \<Rightarrow> time_t \<Rightarrow> task_retry \<times> int" where
  "tr_report_result tr jid err t1 t2 t3 =
     (case tr_find tr jid of
        None \<Rightarrow> (tr, -1)
      | Some idx \<Rightarrow>
          let e = tr_entries tr ! idx in
          if err = TR_ERR_NONE \<or> \<not> should_retry_on e err then
            (tr\<lparr>tr_entries := (tr_entries tr)[idx := e\<lparr>exhausted := True\<rparr>]\<rparr>, 0)
          else if retry_count e \<ge> max_retries e then
            let tr1 = tr\<lparr>tr_entries := (tr_entries tr)[idx := e\<lparr>exhausted := True\<rparr>]\<rparr> in
            (if length (dead_letters tr) < TR_DEAD_LETTER_MAX then
               tr1\<lparr>dead_letters := dead_letters tr @
                 [\<lparr>trd_job_id = jid, trd_error = err, exhausted_at = t1,
                   trd_cb = dead_letter_cb e, trd_ud = dead_letter_ud e\<rparr>]\<rparr>
             else tr1, 0)
          else
            let rc = retry_count e + 1;
                (d, s) = tr_calc_delay rc (base_delay_ms e) True (Some (tr_seed tr));
                nr = t1 + uint (d div 1000);
                nr = (if nr \<le> t2 then t3 + 1 else nr);
                e' = e\<lparr>retry_count := rc, current_delay_ms := d, next_retry_at := nr\<rparr>
            in (tr\<lparr>tr_entries := (tr_entries tr)[idx := e'], tr_seed := the s\<rparr>, 1))"

definition tr_can_retry :: "task_retry \<Rightarrow> u64 \<Rightarrow> time_t \<Rightarrow> bool" where
  "tr_can_retry tr jid now =
     (case tr_find tr jid of
        None \<Rightarrow> False
      | Some idx \<Rightarrow> if exhausted (tr_entries tr ! idx) then False
                    else next_retry_at (tr_entries tr ! idx) \<le> now)"

text \<open>The result carries the task call that is made, if any.\<close>

definition tr_trigger_retry :: "task_retry \<Rightarrow> u64 \<Rightarrow> time_t \<Rightarrow> (ptr \<times> ptr) option \<times> int" where
  "tr_trigger_retry tr jid now =
     (case tr_find tr jid of
        None \<Rightarrow> (None, 0)
      | Some idx \<Rightarrow>
          let e = tr_entries tr ! idx in
          if exhausted e then (None, 0)
          else if next_retry_at e > now then (None, 0)
          else (Some (tre_task e, tre_userdata e), 1))"

definition tr_get_retry_count :: "task_retry \<Rightarrow> u64 \<Rightarrow> int" where
  "tr_get_retry_count tr jid =
     (case tr_find tr jid of Some idx \<Rightarrow> retry_count (tr_entries tr ! idx) | None \<Rightarrow> -1)"

definition tr_is_exhausted :: "task_retry \<Rightarrow> u64 \<Rightarrow> bool" where
  "tr_is_exhausted tr jid =
     (case tr_find tr jid of Some idx \<Rightarrow> exhausted (tr_entries tr ! idx) | None \<Rightarrow> False)"

text \<open>The calls of the dead-letter callbacks in order, then an empty list.\<close>

definition tr_process_dead_letters ::
  "task_retry \<Rightarrow> task_retry \<times> (ptr \<times> u64 \<times> tr_error_code \<times> ptr) list" where
  "tr_process_dead_letters tr =
     (tr\<lparr>dead_letters := []\<rparr>,
      map (\<lambda>d. (trd_cb d, trd_job_id d, trd_error d, trd_ud d))
          (filter (\<lambda>d. trd_cb d \<noteq> NULL) (dead_letters tr)))"

text \<open>Registering a list of jobs one after the other, and reporting the same failure again and
  again (each report with its own clock readings).\<close>

fun tr_register_all :: "u64 list \<Rightarrow> task_retry \<Rightarrow> task_retry option" where
  "tr_register_all [] tr = Some tr"
| "tr_register_all (j # js) tr =
     (case tr_register tr j 1 0 3 100 of None \<Rightarrow> None | Some (tr', r) \<Rightarrow> tr_register_all js tr')"

fun tr_report_all :: "u64 \<Rightarrow> tr_error_code \<Rightarrow> (time_t \<times> time_t \<times> time_t) list \<Rightarrow> task_retry \<Rightarrow> task_retry \<times> int list" where
  "tr_report_all jid err [] tr = (tr, [])"
| "tr_report_all jid err ((t1, t2, t3) # ts) tr =
     (let (tr1, r) = tr_report_result tr jid err t1 t2 t3; (tr2, rs) = tr_report_all jid err ts tr1
      in (tr2, r # rs))"

definition tr_wf :: "task_retry \<Rightarrow> bool" where
  "tr_wf tr \<longleftrightarrow> length (tr_entries tr) = TR_DEAD_LETTER_MAX \<and> tr_count tr \<le> length (tr_entries tr)
     \<and> length (dead_letters tr) \<le> TR_DEAD_LETTER_MAX
     \<and> (\<forall>i < tr_count tr. 0 \<le> retry_count (tr_entries tr ! i)
          \<and> retry_count (tr_entries tr ! i) \<le> max_retries (tr_entries tr ! i))"

text \<open>Slot \<open>i\<close> holds the job, and \<open>err\<close> is one of the errors it retries on.\<close>

definition tr_job_ok :: "task_retry \<Rightarrow> u64 \<Rightarrow> nat \<Rightarrow> tr_error_code \<Rightarrow> bool" where
  "tr_job_ok tr jid i err \<longleftrightarrow> tr_find tr jid = Some i \<and> i < length (tr_entries tr)
     \<and> err \<noteq> TR_ERR_NONE \<and> should_retry_on (tr_entries tr ! i) err"

section \<open>Back-off\<close>

lemma unat_max_delay [simp]: "unat TR_MAX_DELAY_MS = 3600000"
  by (simp add: TR_MAX_DELAY_MS_def)

lemma tr_double_eq:
  "unat b \<le> 3600000 \<Longrightarrow> unat (tr_double n b) = min (unat b * 2 ^ n) 3600000"
proof (induction n arbitrary: b)
  case (Suc n)
  have "unat b * 2 < 2 ^ 64" using Suc.prems by simp
  then have b2: "unat (b * 2) = unat b * 2" by (simp add: unat_word_ariths)
  show ?case
  proof (cases "b * 2 > TR_MAX_DELAY_MS")
    case True
    then have "3600000 < unat b * 2" using b2 by (simp add: word_less_nat_alt)
    moreover have "unat b * 2 * 1 \<le> unat b * 2 * 2 ^ n" by (intro mult_le_mono) simp_all
    ultimately have "3600000 \<le> unat b * 2 ^ Suc n" by (simp only: power_Suc mult.assoc [symmetric])
    then show ?thesis using True by (simp add: Let_def min_def del: power_Suc)
  next
    case False
    then have "unat (b * 2) \<le> 3600000" using b2 by (simp add: word_less_nat_alt not_less)
    then show ?thesis using Suc.IH [of "b * 2"] False b2 by (simp add: Let_def algebra_simps)
  qed
qed simp

lemma powi_m32: "(2::rat) powi (-32) = 1 / 4294967296"
  by (simp add: power_int_minus inverse_eq_divide)

lemma tr_jitter_eq: "tr_jitter s = trunc (of_int (uint s * 100 - 214748364800) / 4294967296)"
proof -
  define u where "u = uint s"
  have u: "0 \<le> u" "u < 4294967296" using uint_bounded [of s] by (auto simp: u_def)
  have rep: "fl (of_int m / 4294967296) = of_int m / 4294967296" if "\<bar>m\<bar> < 2 ^ 53" for m
    using fl_representable [OF that, of "-32"] by (simp add: powi_m32)
  have e1: "of_c_int u = of_int u" "of_c_int TR_MAX_JITTER_MS = 50"
    using u fl_of_int [of u] fl_of_int [of 50] by (simp_all add: of_c_int_def TR_MAX_JITTER_MS_def)
  have e2: "fl (of_int u / 4294967296) = of_int u / 4294967296" using u by (intro rep) simp
  have e3: "fl (of_int u / 4294967296 * 50) = of_int (u * 50) / 4294967296"
    using rep [of "u * 50"] u by simp
  have e4: "fl (of_int (u * 50) / 4294967296 * 2) = of_int (u * 100) / 4294967296"
    using rep [of "u * 100"] u by simp
  have "of_int (u * 100) / 4294967296 - 50 = (of_int (u * 100 - 214748364800) / 4294967296 :: rat)"
    by (simp add: field_simps)
  moreover have "\<bar>u * 100 - 214748364800\<bar> < 2 ^ 53" using u by simp
  ultimately have e5: "fl (of_int (u * 100) / 4294967296 - 50) = of_int (u * 100 - 214748364800) / 4294967296"
    using rep by (simp only:)
  show ?thesis
    unfolding tr_jitter_def fmul_def fsub_def u_def [symmetric] e1 e2 e3 e4 e5 ..
qed

lemma trunc_bounds: "of_int a \<le> x \<Longrightarrow> x < of_int b \<Longrightarrow> a \<le> 0 \<Longrightarrow> 0 < b \<Longrightarrow> a \<le> trunc x \<and> trunc x < b"
  by (simp add: trunc_def floor_less_iff le_floor_iff le_ceiling_iff ceiling_less_iff)

lemma tr_jitter_bound: "-50 \<le> tr_jitter s \<and> tr_jitter s < 50"
proof -
  define u where "u = uint s"
  have u: "0 \<le> u" "u < 4294967296" using uint_bounded [of s] by (auto simp: u_def)
  have "(of_int (-214748364800) :: rat) \<le> of_int (u * 100 - 214748364800)"
    "(of_int (u * 100 - 214748364800) :: rat) < of_int 214748364800"
    using u by (simp_all only: of_int_le_iff of_int_less_iff)
  then show ?thesis
    unfolding tr_jitter_eq u_def [symmetric] by (intro trunc_bounds) (simp_all add: field_simps)
qed

lemma sint_small:
  assumes "unat (w :: u64) < 2 ^ 63"
  shows "sint w = int (unat w)"
proof -
  have "int (unat w) < int (2 ^ 63)" using assms by (simp only: of_nat_less_iff)
  then have "uint w < 2 ^ 63" by simp
  then have "signed_take_bit 63 (uint w) = uint w" by (intro signed_take_bit_int_eq_self) (simp_all add: order.trans [OF _ uint_ge_0])
  then show ?thesis by (simp add: sint_uint)
qed

lemma unat_word_of_int_nonneg: "0 \<le> x \<Longrightarrow> x < 2 ^ 64 \<Longrightarrow> unat (word_of_int x :: u64) = nat x"
  by (simp add: unat_eq_nat_uint uint_word_of_int take_bit_int_eq_self)

lemma tr_calc_delay_jitter:
  fixes rc :: int and base :: u64 and s :: u32
  assumes "unat base \<le> 3600000"
  defines "d \<equiv> min (unat base * 2 ^ nat rc) 3600000" and "j \<equiv> tr_jitter (tr_next_seed s)"
  shows "unat (fst (tr_calc_delay rc base True (Some s))) =
           (if int d + j < 0 then 3600000 else if int d + j = 0 then 1 else nat (min (int d + j) 3600000))"
proof -
  define w where "w = (word_of_int (sint (tr_double (nat rc) base) + j) :: u64)"
  have j: "-50 \<le> j" "j < 50" using tr_jitter_bound by (auto simp: j_def)
  have "unat (tr_double (nat rc) base) = d" using tr_double_eq [OF assms(1)] by (simp add: d_def)
  then have sd: "sint (tr_double (nat rc) base) = int d" by (subst sint_small) (auto simp: d_def)
  have d: "d \<le> 3600000" by (simp add: d_def)
  have res: "fst (tr_calc_delay rc base True (Some s)) =
      (let w = (if w < 1 then 1 else w) in if w > TR_MAX_DELAY_MS then TR_MAX_DELAY_MS else w)"
    by (simp add: tr_calc_delay_def Let_def w_def j_def)
  show ?thesis
  proof (cases "int d + j < 0")
    case True
    have "uint w = int d + j + 2 ^ 64"
    proof -
      have "uint w = take_bit 64 (int d + j)" unfolding w_def sd uint_word_of_int by (simp add: take_bit_eq_mod)
      also have "\<dots> = take_bit 64 (int d + j + 2 ^ 64)" by (simp add: take_bit_eq_mod)
      also have "\<dots> = int d + j + 2 ^ 64" using True j d by (intro take_bit_int_eq_self) auto
      finally show ?thesis .
    qed
    then have "unat w = nat (int d + j + 2 ^ 64)" by (simp add: unat_eq_nat_uint)
    then have "3600000 < unat w" using j by simp
    then have "w > TR_MAX_DELAY_MS" "\<not> w < 1" by (simp_all add: word_less_nat_alt)
    then show ?thesis using True res by simp
  next
    case False
    then have w: "unat w = nat (int d + j)"
      using j d unfolding w_def sd by (intro unat_word_of_int_nonneg) auto
    show ?thesis
    proof (cases "int d + j = 0")
      case True
      then have "w < 1" using w by (simp add: word_less_nat_alt)
      then show ?thesis using True res by (simp add: word_less_nat_alt)
    next
      case nz: False
      then have "\<not> w < 1" using w False by (simp add: word_less_nat_alt)
      moreover have "w > TR_MAX_DELAY_MS \<longleftrightarrow> int d + j > 3600000"
        using w False by (auto simp: word_less_nat_alt)
      ultimately show ?thesis using w res False nz by (auto simp: min_def)
    qed
  qed
qed

section \<open>The table\<close>

lemma tr_findD: "tr_find tr jid = Some i \<Longrightarrow> i < tr_count tr \<and> tre_job_id (tr_entries tr ! i) = jid"
  by (auto simp: tr_find_def)

lemma tr_find_None: "tr_find tr jid = None \<longleftrightarrow> (\<forall>i < tr_count tr. tre_job_id (tr_entries tr ! i) \<noteq> jid)"
  by (simp add: tr_find_def find_idx_None_iff)

text \<open>Updating an entry in place leaves every search as it was when the job id is kept.\<close>

lemma tr_find_update:
  assumes "i < tr_count tr" "i < length (tr_entries tr)" "tre_job_id e = tre_job_id (tr_entries tr ! i)"
  shows "tr_find (tr\<lparr>tr_entries := (tr_entries tr)[i := e]\<rparr>) jid = tr_find tr jid"
    "tr_find (tr\<lparr>tr_entries := (tr_entries tr)[i := e], dead_letters := dl\<rparr>) jid = tr_find tr jid"
    "tr_find (tr\<lparr>tr_entries := (tr_entries tr)[i := e], tr_seed := sd\<rparr>) jid = tr_find tr jid"
proof -
  have "tre_job_id ((tr_entries tr)[i := e] ! k) = tre_job_id (tr_entries tr ! k)" for k
    using assms by (cases "k = i") auto
  then show "tr_find (tr\<lparr>tr_entries := (tr_entries tr)[i := e]\<rparr>) jid = tr_find tr jid"
    "tr_find (tr\<lparr>tr_entries := (tr_entries tr)[i := e], dead_letters := dl\<rparr>) jid = tr_find tr jid"
    "tr_find (tr\<lparr>tr_entries := (tr_entries tr)[i := e], tr_seed := sd\<rparr>) jid = tr_find tr jid"
    by (simp_all add: tr_find_def find_idx_def)
qed

lemma tr_register_fresh:
  assumes "task \<noteq> NULL" "int (tr_count tr) < tr_capacity tr" "tr_find tr jid = None"
  shows "tr_register tr jid task ud mr base =
     (if length (tr_entries tr) \<le> tr_count tr then None
      else Some (tr\<lparr>tr_entries := (tr_entries tr)[tr_count tr := tr_fill tr_zero_entry jid task ud mr base],
                    tr_count := tr_count tr + 1\<rparr>, 0))"
  using assms by (simp add: tr_register_def Let_def)

lemma tr_find_append:
  assumes "tr_count tr < length (tr_entries tr)"
  shows "tr_find (tr\<lparr>tr_entries := (tr_entries tr)[tr_count tr := e], tr_count := Suc (tr_count tr)\<rparr>) jid = None
     \<longleftrightarrow> tr_find tr jid = None \<and> tre_job_id e \<noteq> jid"
  using assms by (auto simp: tr_find_None nth_list_update less_Suc_eq)

lemma tr_register_all_overrun:
  assumes "distinct js" "\<forall>j \<in> set js. tr_find tr j = None" "length (tr_entries tr) = 256"
    "tr_count tr \<le> 256" "int (tr_count tr) \<le> tr_capacity tr"
  shows "tr_register_all js tr = None \<longleftrightarrow> tr_count tr + length js > 256 \<and> tr_capacity tr > 256"
  using assms
proof (induction js arbitrary: tr)
  case (Cons j js)
  show ?case
  proof (cases "int (tr_count tr) \<ge> tr_capacity tr")
    case True
    then have "tr_register tr j 1 0 3 100 = Some (tr, -2)" by (simp add: tr_register_def)
    then show ?thesis using Cons True by auto
  next
    case False
    then have reg: "tr_register tr j 1 0 3 100 = (if length (tr_entries tr) \<le> tr_count tr then None
        else Some (tr\<lparr>tr_entries := (tr_entries tr)[tr_count tr := tr_fill tr_zero_entry j 1 0 3 100],
                      tr_count := tr_count tr + 1\<rparr>, 0))"
      using Cons.prems by (intro tr_register_fresh) auto
    show ?thesis
    proof (cases "tr_count tr = 256")
      case True
      then show ?thesis using reg False Cons.prems by simp
    next
      case lt: False
      let ?tr = "tr\<lparr>tr_entries := (tr_entries tr)[tr_count tr := tr_fill tr_zero_entry j 1 0 3 100],
                    tr_count := tr_count tr + 1\<rparr>"
      have "tre_job_id (tr_fill tr_zero_entry j 1 0 3 100) = j" by (simp add: tr_fill_def Let_def)
      then have "tr_register_all js ?tr = None \<longleftrightarrow> tr_count ?tr + length js > 256 \<and> tr_capacity ?tr > 256"
        using Cons.prems lt False by (intro Cons.IH) (auto simp: tr_find_append)
      then show ?thesis using reg lt Cons.prems by simp
    qed
  qed
qed auto

lemma tr_report_step:
  fixes t1 t2 t3 :: time_t
  assumes "tr_job_ok tr jid i err" "length (dead_letters tr) \<le> 256"
  defines "e \<equiv> tr_entries tr ! i" and "r \<equiv> tr_report_result tr jid err t1 t2 t3"
  defines "e' \<equiv> tr_entries (fst r) ! i"
  shows "tr_job_ok (fst r) jid i err" "max_retries e' = max_retries e"
    and "retry_count e < max_retries e \<Longrightarrow>
         snd r = 1 \<and> retry_count e' = retry_count e + 1 \<and> exhausted e' = exhausted e
         \<and> dead_letters (fst r) = dead_letters tr"
    and "\<not> retry_count e < max_retries e \<Longrightarrow>
         snd r = 0 \<and> retry_count e' = retry_count e \<and> exhausted e'
         \<and> length (dead_letters (fst r)) = min 256 (Suc (length (dead_letters tr)))"
proof -
  have i: "i < tr_count tr" "i < length (tr_entries tr)" using assms(1) tr_findD by (auto simp: tr_job_ok_def)
  note ok = assms(1) [unfolded tr_job_ok_def, folded e_def]
  have keep: "should_retry_on (e\<lparr>exhausted := b\<rparr>) err = should_retry_on e err"
    "should_retry_on (e\<lparr>retry_count := c, current_delay_ms := d, next_retry_at := n\<rparr>) err = should_retry_on e err"
    for b c d n by (simp_all add: should_retry_on_def)
  show "tr_job_ok (fst r) jid i err"
    using ok i by (auto simp: r_def tr_report_result_def Let_def tr_job_ok_def tr_find_update keep
        e_def [symmetric] split: prod.split)
  show "max_retries e' = max_retries e"
    using ok i by (auto simp: r_def e'_def tr_report_result_def Let_def e_def [symmetric] split: prod.split)
  show "retry_count e < max_retries e \<Longrightarrow>
         snd r = 1 \<and> retry_count e' = retry_count e + 1 \<and> exhausted e' = exhausted e
         \<and> dead_letters (fst r) = dead_letters tr"
    using ok i by (auto simp: r_def e'_def tr_report_result_def Let_def e_def [symmetric] split: prod.split)
  show "\<not> retry_count e < max_retries e \<Longrightarrow>
         snd r = 0 \<and> retry_count e' = retry_count e \<and> exhausted e'
         \<and> length (dead_letters (fst r)) = min 256 (Suc (length (dead_letters tr)))"
    using ok i assms(2) by (auto simp: r_def e'_def tr_report_result_def Let_def e_def [symmetric]
        TR_DEAD_LETTER_MAX_def split: prod.split)
qed

lemma tr_report_all_run:
  assumes "tr_job_ok tr jid i err" "length (dead_letters tr) \<le> 256"
    and "retry_count (tr_entries tr ! i) = int c" "max_retries (tr_entries tr ! i) = int n" "c \<le> n"
    and "exhausted (tr_entries tr ! i) \<longrightarrow> c = n"
    and "tr_report_all jid err ts tr = (tr', rs)"
  shows "rs = map (\<lambda>k. if c + k < n then 1 else 0) [0..<length ts]
     \<and> retry_count (tr_entries tr' ! i) = int (min n (c + length ts))
     \<and> (exhausted (tr_entries tr' ! i) \<longleftrightarrow> exhausted (tr_entries tr ! i) \<or> n < c + length ts)
     \<and> length (dead_letters tr') = min 256 (length (dead_letters tr) + (c + length ts - n))"
  using assms
proof (induction ts arbitrary: tr c rs)
  case (Cons t ts)
  obtain t1 t2 t3 where t: "t = (t1, t2, t3)" by (cases t)
  define r where "r = tr_report_result tr jid err t1 t2 t3"
  obtain rs2 where run: "tr_report_all jid err ts (fst r) = (tr', rs2)" "rs = snd r # rs2"
    using Cons.prems(7) by (auto simp: t r_def Let_def split: prod.splits)
  note step = tr_report_step [OF Cons.prems(1,2), of t1 t2 t3, folded r_def]
  have shift: "map (\<lambda>k. if c + k < n then 1 else (0::int)) [0..<length (t # ts)] =
      (if c < n then 1 else 0) # map (\<lambda>k. if Suc c + k < n then 1 else 0) [0..<length ts]"
    by (simp add: upt_conv_Cons map_Suc_upt [symmetric] del: upt_Suc)
  show ?case
  proof (cases "c < n")
    case True
    note s3 = step(3) [unfolded Cons.prems(3,4)]
    have "rs2 = map (\<lambda>k. if Suc c + k < n then 1 else 0) [0..<length ts]
     \<and> retry_count (tr_entries tr' ! i) = int (min n (Suc c + length ts))
     \<and> (exhausted (tr_entries tr' ! i) \<longleftrightarrow> exhausted (tr_entries (fst r) ! i) \<or> n < Suc c + length ts)
     \<and> length (dead_letters tr') = min 256 (length (dead_letters (fst r)) + (Suc c + length ts - n))"
      using step(1,2) s3 Cons.prems True run(1) by (intro Cons.IH) auto
    then show ?thesis using run(2) shift s3 True by auto
  next
    case False
    then have cn: "c = n" using Cons.prems(5) by simp
    note s4 = step(4) [unfolded Cons.prems(3,4)]
    have "rs2 = map (\<lambda>k. if n + k < n then 1 else 0) [0..<length ts]
     \<and> retry_count (tr_entries tr' ! i) = int (min n (n + length ts))
     \<and> (exhausted (tr_entries tr' ! i) \<longleftrightarrow> exhausted (tr_entries (fst r) ! i) \<or> n < n + length ts)
     \<and> length (dead_letters tr') = min 256 (length (dead_letters (fst r)) + (n + length ts - n))"
      using step(1,2) s4 Cons.prems cn run(1) by (intro Cons.IH) auto
    then show ?thesis using run(2) shift s4 cn by auto
  qed
qed auto

section \<open>Properties\<close>



text \<open>With a smaller delay the jitter can be negative beyond it: the sum wraps around in
  \<open>uint64_t\<close>, the test \<open>delay < 1\<close> does not see it, and the retry is put off by the one-hour
  maximum instead of one millisecond.\<close>

theorem tr_small_delay_wraps:
  assumes "unat base * 2 ^ nat rc < 50"
    and "int (unat base * 2 ^ nat rc) + tr_jitter (tr_next_seed s) < 0"
  shows "fst (tr_calc_delay rc base True (Some s)) = TR_MAX_DELAY_MS"
proof -
  have "unat base * 1 \<le> unat base * 2 ^ nat rc" by (intro mult_le_mono) simp_all
  then have b: "unat base \<le> 3600000" using assms(1) by linarith
  have "unat (fst (tr_calc_delay rc base True (Some s))) = unat TR_MAX_DELAY_MS"
    using tr_calc_delay_jitter [OF b, of rc s] assms by (simp add: min_def)
  then show ?thesis by (simp only: word_unat_eq_iff)
qed

theorem tr_small_delay_wraps_witness:
  "unat (10 :: u64) * 2 ^ nat 1 < 50 \<and> fst (tr_calc_delay 1 10 True (Some 0)) = TR_MAX_DELAY_MS"
proof -
  have "tr_jitter (tr_next_seed 0) = -26"
    by (simp add: tr_jitter_eq tr_next_seed_def trunc_def ceiling_eq_iff)
  then show ?thesis using tr_small_delay_wraps [of 10 1 0] by simp
qed

text \<open>A job with limit \<open>n\<close> whose task keeps failing with a retryable error is granted exactly
  \<open>n\<close> retries: the first \<open>n\<close> reports answer 1, every later one answers 0, marks the job exhausted
  and adds a dead letter, and the retry counter never passes \<open>n\<close>.\<close>

theorem tr_retries_bounded:
  assumes "tr_job_ok tr jid i err" "length (dead_letters tr) \<le> 256"
    and "retry_count (tr_entries tr ! i) = 0" "max_retries (tr_entries tr ! i) = int n"
    and "\<not> exhausted (tr_entries tr ! i)" "tr_report_all jid err ts tr = (tr', rs)"
  shows "rs = map (\<lambda>k. if k < n then 1 else 0) [0..<length ts]
     \<and> retry_count (tr_entries tr' ! i) = int (min n (length ts))
     \<and> (exhausted (tr_entries tr' ! i) \<longleftrightarrow> n < length ts)
     \<and> length (dead_letters tr') = min 256 (length (dead_letters tr) + (length ts - n))"
  using tr_report_all_run [OF assms(1,2), of 0 n ts tr' rs] assms(3-6) by simp

theorem tr_retries_bounded_witness:
  "\<exists>tr r tr' rs. task_retry_create True 0 4 = Some tr \<and> tr_register tr 7 1 0 2 100 = Some (r, 0)
     \<and> tr_report_all 7 TR_ERR_TIMEOUT [(0, 0, 0), (5, 5, 5), (9, 9, 9)] r = (tr', rs)
     \<and> rs = [1, 1, 0] \<and> exhausted (tr_entries tr' ! 0)"
proof -
  obtain tr where tr: "task_retry_create True 0 4 = Some tr" by (simp add: task_retry_create_def Let_def)
  then have fields: "tr_count tr = 0" "tr_capacity tr = 4" "length (tr_entries tr) = 256" "dead_letters tr = []"
    by (auto simp: task_retry_create_def Let_def TR_DEAD_LETTER_MAX_def)
  define e where "e = tr_fill tr_zero_entry 7 1 0 2 100"
  define r where "r = tr\<lparr>tr_entries := (tr_entries tr)[0 := e], tr_count := 1\<rparr>"
  have reg: "tr_register tr 7 1 0 2 100 = Some (r, 0)"
    using fields by (simp add: tr_register_def tr_find_def find_idx_def Let_def r_def e_def)
  have e0: "tr_entries r ! 0 = e" using fields by (simp add: r_def)
  have "tr_find r 7 = Some 0" using fields by (simp add: r_def tr_find_def find_idx_def e_def tr_fill_def Let_def)
  moreover have "should_retry_on e TR_ERR_TIMEOUT" "retry_count e = 0" "max_retries e = int 2" "\<not> exhausted e"
    by (simp_all add: e_def tr_fill_def should_retry_on_def Let_def)
  moreover have "length (tr_entries r) = 256" "dead_letters r = []" using fields by (simp_all add: r_def)
  ultimately have ok: "tr_job_ok r 7 0 TR_ERR_TIMEOUT" "length (dead_letters r) \<le> 256"
    "retry_count (tr_entries r ! 0) = 0" "max_retries (tr_entries r ! 0) = int 2" "\<not> exhausted (tr_entries r ! 0)"
    using e0 by (simp_all add: tr_job_ok_def)
  obtain tr' rs where run: "tr_report_all 7 TR_ERR_TIMEOUT [(0, 0, 0), (5, 5, 5), (9, 9, 9)] r = (tr', rs)"
    by fastforce
  show ?thesis using tr reg run tr_retries_bounded [OF ok run] by (auto simp: upt_rec)
qed

text \<open>Registering distinct jobs writes outside the table exactly when more than 256 of them are
  registered in a table created with a capacity above 256: the capacity test does not protect the
  fixed array.\<close>

theorem tr_register_overrun_iff:
  assumes "task_retry_create True t c = Some tr" "distinct js"
  shows "tr_register_all js tr = None \<longleftrightarrow> length js > 256 \<and> c > 256"
proof -
  have "tr_count tr = 0" "length (tr_entries tr) = 256" "tr_capacity tr = (if c \<le> 0 then 256 else c)"
    using assms(1) by (auto simp: task_retry_create_def Let_def TR_DEAD_LETTER_MAX_def split: if_splits)
  then show ?thesis
    using tr_register_all_overrun [of js tr] assms(2) by (auto simp: tr_find_None split: if_splits)
qed

theorem tr_register_overrun_iff_witness:
  "\<exists>tr. task_retry_create True 0 300 = Some tr \<and> tr_register_all (map word_of_nat [0..<257]) tr = None"
proof -
  obtain tr where tr: "task_retry_create True 0 300 = Some tr" by (simp add: task_retry_create_def Let_def)
  have "inj_on (word_of_nat :: nat \<Rightarrow> u64) {0..<257}"
    by (intro inj_onI) (simp add: word_of_nat_eq_iff take_bit_nat_eq_self)
  then have "distinct (map (word_of_nat :: nat \<Rightarrow> u64) [0..<257])" by (simp add: distinct_map del: upt_rec_numeral)
  then show ?thesis using tr tr_register_overrun_iff [OF tr] by (simp del: upt_rec_numeral)
qed

end
