(* ===== verification/Job_Dag.thy ===== *)
theory Job_Dag
  imports Prelude
begin

text \<open>
  The job dependency graph of \<open>src/mini-job-system/src/job_dag.c\<close>: nodes in an array, each with the
  index lists of its predecessors and successors.  An array with a count is the list of its live
  elements, so \<open>node_count\<close>, \<open>in_count\<close> and \<open>out_count\<close> are list lengths.  Work arrays indexed by
  node keep their fixed size of \<open>JDAG_MAX_NODES\<close>; an index beyond it, which the graph invariant
  excludes, is skipped.  This theory holds the data, every operation and the structural invariant;
  the searches are verified in \<open>Dag_Search\<close> and the orderings in \<open>Dag_Order\<close>.
\<close>

section \<open>Data\<close>

definition JDAG_MAX_NODES :: nat where "JDAG_MAX_NODES = 128"
definition JDAG_MAX_NAME :: nat where "JDAG_MAX_NAME = 64"

datatype jdag_node_state = JDAG_NODE_PENDING | JDAG_NODE_READY | JDAG_NODE_RUNNING
  | JDAG_NODE_COMPLETED | JDAG_NODE_FAILED | JDAG_NODE_SKIPPED

record jdag_node =
  jn_id :: u64
  jn_name :: string
  jn_state :: jdag_node_state
  indegree :: int
  outdegree :: int
  in_edges :: "nat list"
  out_edges :: "nat list"
  jn_priority :: int
  scheduled_at :: time_t
  jn_started_at :: time_t
  jn_completed_at :: time_t
  jn_userdata :: ptr

record jdag =
  nodes :: "jdag_node list"
  max_nodes :: nat
  edge_count :: int

abbreviation node_count :: "jdag \<Rightarrow> nat" where
  "node_count dag \<equiv> length (nodes dag)"

abbreviation outs :: "jdag \<Rightarrow> nat \<Rightarrow> nat list" where
  "outs dag u \<equiv> out_edges (nodes dag ! u)"

abbreviation ins :: "jdag \<Rightarrow> nat \<Rightarrow> nat list" where
  "ins dag u \<equiv> in_edges (nodes dag ! u)"

definition upd_node :: "nat \<Rightarrow> (jdag_node \<Rightarrow> jdag_node) \<Rightarrow> jdag \<Rightarrow> jdag" where
  "upd_node i f dag = dag\<lparr>nodes := (nodes dag)[i := f (nodes dag ! i)]\<rparr>"

section \<open>Nodes and edges\<close>

definition jdag_create :: "bool \<Rightarrow> int \<Rightarrow> jdag option" where
  "jdag_create ok mx =
     (if \<not> ok then None
      else Some \<lparr>nodes = [],
                 max_nodes = (if mx > 0 \<and> mx \<le> int JDAG_MAX_NODES then nat mx else JDAG_MAX_NODES),
                 edge_count = 0\<rparr>)"

definition jdag_add_node :: "jdag \<Rightarrow> u64 \<Rightarrow> string option \<Rightarrow> int \<Rightarrow> jdag \<times> int" where
  "jdag_add_node dag nid name priority =
     (if node_count dag \<ge> max_nodes dag then (dag, -2)
      else if nid \<in> set (map jn_id (nodes dag)) then (dag, -3)
      else
        let node = \<lparr>jn_id = nid,
                    jn_name = (case name of Some s \<Rightarrow> strncpy_buf JDAG_MAX_NAME s
                               | None \<Rightarrow> take (JDAG_MAX_NAME - 1) (''node_'' @ fmt_llu nid)),
                    jn_state = JDAG_NODE_PENDING, indegree = 0, outdegree = 0, in_edges = [],
                    out_edges = [], jn_priority = priority, scheduled_at = 0, jn_started_at = 0,
                    jn_completed_at = 0, jn_userdata = NULL\<rparr>;
            dag' = dag\<lparr>nodes := nodes dag @ [node]\<rparr>
        in (dag', int (node_count dag') - 1))"

definition find_node :: "jdag \<Rightarrow> u64 \<Rightarrow> nat option" where
  "find_node dag nid = find_idx (\<lambda>n. jn_id n = nid) (nodes dag) (node_count dag)"

definition jdag_find_node :: "jdag option \<Rightarrow> u64 \<Rightarrow> int" where
  "jdag_find_node h nid = (case h of None \<Rightarrow> -1 | Some dag \<Rightarrow> opt_index (find_node dag nid))"

text \<open>The breadth-first search for \<open>from_idx\<close>: the scan of one node's successors either finds the
  target (\<open>None\<close>) or returns the visited flags and the nodes it enqueued.\<close>

fun bfs_scan :: "nat \<Rightarrow> nat list \<Rightarrow> bool list \<Rightarrow> nat list \<Rightarrow> (bool list \<times> nat list) option" where
  "bfs_scan target [] visited q = Some (visited, q)"
| "bfs_scan target (v # vs) visited q =
     (if v = target then None
      else if v < length visited \<and> \<not> visited ! v
        then bfs_scan target vs (visited[v := True]) (q @ [v])
      else bfs_scan target vs visited q)"

lemma count_list_update:
  "i < length xs \<Longrightarrow>
   count_list (xs[i := x]) a + (if xs ! i = a then 1 else 0) = count_list xs a + (if x = a then 1 else 0)"
proof (induction xs arbitrary: i)
  case (Cons d ds)
  then show ?case
  proof (cases i)
    case (Suc k)
    then show ?thesis using Cons.IH [of k] Cons.prems by (simp split: if_splits)
  qed simp
qed simp

lemma bfs_scan_measure:
  "bfs_scan target vs visited q = Some (visited', q') \<Longrightarrow>
   length q' + count_list visited' False \<le> length q + count_list visited False
   \<and> length visited' = length visited"
proof (induction target vs visited q arbitrary: visited' q' rule: bfs_scan.induct)
  case (2 target v vs visited q)
  show ?case
  proof (cases "v \<noteq> target \<and> v < length visited \<and> \<not> visited ! v")
    case True
    then have "count_list visited False = Suc (count_list (visited[v := True]) False)"
      using count_list_update [of v visited True False] by simp
    then show ?thesis using "2.IH"(1) [of visited' q'] "2.prems" True by simp
  next
    case False
    then have "bfs_scan target vs visited q = Some (visited', q')"
      using "2.prems" by (auto split: if_splits)
    then show ?thesis using "2.IH"(2) "2.prems" False by (auto split: if_splits)
  qed
qed simp

function bfs_reaches :: "jdag \<Rightarrow> nat \<Rightarrow> nat list \<Rightarrow> bool list \<Rightarrow> bool" where
  "bfs_reaches dag target [] visited = False"
| "bfs_reaches dag target (u # q) visited =
     (case bfs_scan target (outs dag u) visited q of
        None \<Rightarrow> True
      | Some (visited', q') \<Rightarrow> bfs_reaches dag target q' visited')"
  by pat_completeness auto
termination
  by (relation "measure (\<lambda>(dag, target, q, visited). length q + count_list visited False)")
     (auto dest: bfs_scan_measure)

definition jdag_would_create_cycle :: "jdag \<Rightarrow> u64 \<Rightarrow> u64 \<Rightarrow> bool" where
  "jdag_would_create_cycle dag from_id to_id =
     (case (find_node dag from_id, find_node dag to_id) of
        (Some fi, Some ti) \<Rightarrow>
          if fi = ti then True
          else bfs_reaches dag fi [ti] ((replicate JDAG_MAX_NODES False)[ti := True])
      | _ \<Rightarrow> False)"

definition jdag_add_edge :: "jdag \<Rightarrow> u64 \<Rightarrow> u64 \<Rightarrow> jdag \<times> int" where
  "jdag_add_edge dag from_id to_id =
     (case (find_node dag from_id, find_node dag to_id) of
        (Some fi, Some ti) \<Rightarrow>
          if fi = ti then (dag, -3)
          else if ti \<in> set (outs dag fi) then (dag, -4)
          else if jdag_would_create_cycle dag from_id to_id then (dag, -5)
          else if length (outs dag fi) \<ge> JDAG_MAX_NODES then (dag, -6)
          else if length (ins dag ti) \<ge> JDAG_MAX_NODES then (dag, -6)
          else
            let d1 = upd_node fi (\<lambda>n. n\<lparr>out_edges := out_edges n @ [ti]\<rparr>) dag;
                d2 = upd_node ti (\<lambda>n. n\<lparr>in_edges := in_edges n @ [fi]\<rparr>) d1;
                d3 = upd_node fi (\<lambda>n. n\<lparr>outdegree := outdegree n + 1\<rparr>) d2;
                d4 = upd_node ti (\<lambda>n. n\<lparr>indegree := indegree n + 1\<rparr>) d3
            in (d4\<lparr>edge_count := edge_count d4 + 1\<rparr>, 0)
      | _ \<Rightarrow> (dag, -2))"

definition drop_out :: "nat \<Rightarrow> jdag_node \<Rightarrow> jdag_node" where
  "drop_out ti n = (case swap_remove ti (out_edges n) of
     None \<Rightarrow> n | Some es \<Rightarrow> n\<lparr>out_edges := es, outdegree := outdegree n - 1\<rparr>)"

definition drop_in :: "nat \<Rightarrow> jdag_node \<Rightarrow> jdag_node" where
  "drop_in fi n = (case swap_remove fi (in_edges n) of
     None \<Rightarrow> n | Some es \<Rightarrow> n\<lparr>in_edges := es, indegree := indegree n - 1\<rparr>)"

definition jdag_remove_edge :: "jdag \<Rightarrow> u64 \<Rightarrow> u64 \<Rightarrow> jdag \<times> int" where
  "jdag_remove_edge dag from_id to_id =
     (case (find_node dag from_id, find_node dag to_id) of
        (Some fi, Some ti) \<Rightarrow>
          let d1 = upd_node fi (drop_out ti) dag;
              d2 = upd_node ti (drop_in fi) d1
          in (d2\<lparr>edge_count := edge_count d2 - 1\<rparr>, 0)
      | _ \<Rightarrow> (dag, -2))"

definition remove_edges_of :: "nat \<Rightarrow> u64 \<Rightarrow> nat \<Rightarrow> jdag \<Rightarrow> jdag" where
  "remove_edges_of idx nid i dag =
     (if i = idx then dag
      else
        let d1 = fst (jdag_remove_edge dag (jn_id (nodes dag ! i)) nid)
        in fst (jdag_remove_edge d1 nid (jn_id (nodes d1 ! i))))"

definition relabel :: "nat \<Rightarrow> nat \<Rightarrow> nat \<Rightarrow> nat" where
  "relabel lst idx j = (if j = lst then idx else j)"

definition jdag_remove_node :: "jdag \<Rightarrow> u64 \<Rightarrow> jdag \<times> int" where
  "jdag_remove_node dag nid =
     (case find_node dag nid of
        None \<Rightarrow> (dag, -1)
      | Some idx \<Rightarrow>
          let d1 = fold (remove_edges_of idx nid) [0..<node_count dag] dag;
              l = node_count d1 - 1;
              ns = butlast ((nodes d1)[idx := nodes d1 ! l]);
              ns' = map (\<lambda>n. n\<lparr>in_edges := map (relabel l idx) (in_edges n),
                               out_edges := map (relabel l idx) (out_edges n)\<rparr>) ns
          in (d1\<lparr>nodes := ns'\<rparr>, 0))"

section \<open>Execution state\<close>

definition jdag_get_ready_nodes :: "jdag \<Rightarrow> int \<Rightarrow> u64 list" where
  "jdag_get_ready_nodes dag mx =
     take (nat mx) (map jn_id (filter (\<lambda>n. jn_state n = JDAG_NODE_PENDING \<and> indegree n = 0) (nodes dag)))"

definition dec_indegree :: "nat \<Rightarrow> jdag \<Rightarrow> jdag" where
  "dec_indegree s dag =
     (if indegree (nodes dag ! s) > 0 then upd_node s (\<lambda>n. n\<lparr>indegree := indegree n - 1\<rparr>) dag else dag)"

definition jdag_mark_completed :: "time_t \<Rightarrow> jdag \<Rightarrow> u64 \<Rightarrow> jdag \<times> int" where
  "jdag_mark_completed t dag nid =
     (case find_node dag nid of
        None \<Rightarrow> (dag, -1)
      | Some idx \<Rightarrow>
          let d1 = upd_node idx (\<lambda>n. n\<lparr>jn_state := JDAG_NODE_COMPLETED, jn_completed_at := t\<rparr>) dag
          in (fold dec_indegree (outs d1 idx) d1, 0))"

definition skip_node :: "nat \<Rightarrow> jdag \<Rightarrow> jdag" where
  "skip_node s dag =
     (if jn_state (nodes dag ! s) = JDAG_NODE_PENDING
      then upd_node s (\<lambda>n. n\<lparr>jn_state := JDAG_NODE_SKIPPED\<rparr>) dag else dag)"

definition jdag_mark_failed :: "jdag \<Rightarrow> u64 \<Rightarrow> jdag \<times> int" where
  "jdag_mark_failed dag nid =
     (case find_node dag nid of
        None \<Rightarrow> (dag, -1)
      | Some idx \<Rightarrow>
          let d1 = upd_node idx (\<lambda>n. n\<lparr>jn_state := JDAG_NODE_FAILED\<rparr>) dag
          in (fold skip_node (outs d1 idx) d1, 0))"

definition jdag_node_count :: "jdag option \<Rightarrow> nat" where
  "jdag_node_count h = (case h of None \<Rightarrow> 0 | Some dag \<Rightarrow> node_count dag)"

definition jdag_edge_count :: "jdag option \<Rightarrow> int" where
  "jdag_edge_count h = (case h of None \<Rightarrow> 0 | Some dag \<Rightarrow> edge_count dag)"

text \<open>A negative \<open>max\<close> becomes a huge byte count of \<open>memcpy\<close>: \<open>None\<close>.\<close>

definition jdag_get_all_nodes :: "jdag \<Rightarrow> int \<Rightarrow> jdag_node list option" where
  "jdag_get_all_nodes dag mx =
     (let n = (if int (node_count dag) < mx then int (node_count dag) else mx)
      in if n < 0 then None else Some (take (nat n) (nodes dag)))"

section \<open>Searches and orderings\<close>

text \<open>Kahn's algorithm: \<open>kahn_relax\<close> is the inner loop over the successors of one node.\<close>

fun kahn_relax :: "nat list \<Rightarrow> int list \<Rightarrow> nat list \<Rightarrow> int list \<times> nat list" where
  "kahn_relax [] indeg q = (indeg, q)"
| "kahn_relax (v # vs) indeg q =
     (if v < length indeg then
        let d = indeg ! v - 1
        in kahn_relax vs (indeg[v := d]) (if d = 0 then q @ [v] else q)
      else kahn_relax vs indeg q)"

definition pos_count :: "int list \<Rightarrow> nat" where
  "pos_count ds = length (filter (\<lambda>d. d > 0) ds)"

lemma pos_count_update:
  "v < length ds \<Longrightarrow> pos_count (ds[v := x]) + (if ds ! v > 0 then 1 else 0) = pos_count ds + (if x > 0 then 1 else 0)"
proof (induction ds arbitrary: v)
  case (Cons d ds)
  then show ?case by (cases v) (auto simp: pos_count_def)
qed (simp add: pos_count_def)

lemma kahn_relax_measure:
  "kahn_relax vs indeg q = (indeg', q') \<Longrightarrow>
   length q' + pos_count indeg' \<le> length q + pos_count indeg \<and> length indeg' = length indeg"
proof (induction vs indeg q arbitrary: indeg' q' rule: kahn_relax.induct)
  case (2 v vs indeg q)
  show ?case
  proof (cases "v < length indeg")
    case True
    let ?d = "indeg ! v - 1"
    have "length (if ?d = 0 then q @ [v] else q) + pos_count (indeg[v := ?d]) \<le> length q + pos_count indeg"
      using pos_count_update [OF True, of ?d] by (cases "indeg ! v = 1") (auto split: if_splits)
    moreover have "length q' + pos_count indeg'
        \<le> length (if ?d = 0 then q @ [v] else q) + pos_count (indeg[v := ?d])
      \<and> length indeg' = length (indeg[v := ?d])"
      using "2.IH"(1) [OF True refl, of indeg' q'] "2.prems" True by (simp add: Let_def)
    ultimately show ?thesis by simp
  next
    case False
    then show ?thesis using "2.IH"(2) "2.prems" by simp
  qed
qed simp

function kahn_loop :: "jdag \<Rightarrow> int list \<Rightarrow> nat list \<Rightarrow> nat list" where
  "kahn_loop dag indeg [] = []"
| "kahn_loop dag indeg (u # q) =
     (case kahn_relax (outs dag u) indeg q of (indeg', q') \<Rightarrow> u # kahn_loop dag indeg' q')"
  by pat_completeness auto
termination
proof (relation "measure (\<lambda>(dag, indeg, q). length q + pos_count indeg)", goal_cases)
  case (2 dag indeg u q indeg' q')
  then show ?case
    using kahn_relax_measure [of "outs dag u" indeg q indeg' q'] by (simp flip: 2)
qed simp

definition init_indegree :: "jdag \<Rightarrow> int list" where
  "init_indegree dag = map indegree (nodes dag)"

definition init_queue :: "jdag \<Rightarrow> nat list" where
  "init_queue dag = filter (\<lambda>i. init_indegree dag ! i = 0) [0..<node_count dag]"

definition jdag_topological_sort_kahn :: "jdag \<Rightarrow> int \<Rightarrow> int \<times> u64 list" where
  "jdag_topological_sort_kahn dag mx =
     (if mx < int (node_count dag) then (-1, [])
      else
        let order = kahn_loop dag (init_indegree dag) (init_queue dag);
            result = map (\<lambda>u. jn_id (nodes dag ! u)) order
        in if length order \<noteq> node_count dag then (-2, result) else (int (length order), result))"

text \<open>Depth-first search with the colours 0 (unvisited), 1 (on the path), 2 (done).  \<open>dfs_loop\<close> is
  the loop that visits the unvisited nodes of a list, \<open>dfs_visit\<close> the recursive visit; the result
  is filled from its end, so each finished node goes to the front.\<close>

function dfs_loop :: "jdag \<Rightarrow> nat list \<Rightarrow> nat list \<Rightarrow> u64 list \<Rightarrow> nat list \<times> u64 list" where
  "dfs_loop dag [] color result = (color, result)"
| "dfs_loop dag (v # vs) color result =
     (if v < length color \<and> color ! v = 0 then
        (case dfs_loop dag (outs dag v) (color[v := 1]) result of
           (c1, r1) \<Rightarrow> dfs_loop dag vs (c1[v := 2]) (jn_id (nodes dag ! v) # r1))
      else dfs_loop dag vs color result)"
  by pat_completeness auto

lemma count_white_update:
  "v < length c \<Longrightarrow> x \<noteq> 0 \<Longrightarrow>
   count_list (c[v := x]) 0 + (if c ! v = 0 then 1 else 0) = count_list c (0::nat)"
  using count_list_update [of v c x 0] by simp

lemma dfs_loop_white:
  "dfs_loop_dom (dag, vs, c, r) \<Longrightarrow>
   count_list (fst (dfs_loop dag vs c r)) 0 \<le> count_list c 0
   \<and> length (fst (dfs_loop dag vs c r)) = length c"
proof (induction rule: dfs_loop.pinduct)
  case (2 dag v vs c r)
  show ?case
  proof (cases "v < length c \<and> c ! v = 0")
    case True
    obtain c1 r1 where rec: "dfs_loop dag (outs dag v) (c[v := 1]) r = (c1, r1)" by fastforce
    then have c1: "count_list c1 0 \<le> count_list (c[v := 1]) 0" "length c1 = length c"
      using "2.IH"(1) [OF True] by auto
    have "count_list (c1[v := 2]) 0 \<le> count_list c1 0"
      using count_white_update [of v c1 2] c1(2) True by simp
    moreover have "count_list (c[v := 1]) 0 \<le> count_list c 0"
      using count_white_update [of v c 1] True by simp
    ultimately show ?thesis
      using "2.IH"(2) [OF True rec [symmetric]] c1 True rec "2.hyps" by (simp add: dfs_loop.psimps)
  next
    case False
    then show ?thesis using "2.IH"(3) "2.hyps" by (auto simp: dfs_loop.psimps)
  qed
qed (simp add: dfs_loop.psimps)

termination dfs_loop
proof (relation "measures [\<lambda>(dag, vs, c, r). count_list c 0, \<lambda>(dag, vs, c, r). length vs]", goal_cases)
  case (2 dag v vs c r)
  then show ?case using count_white_update [of v c 1] by simp
next
  case (3 dag v vs c r c1 r1)
  then have "count_list c1 0 \<le> count_list (c[v := 1]) 0" "length c1 = length c"
    using dfs_loop_white [OF 3(3)] by (metis fst_conv, metis fst_conv length_list_update)
  then show ?case
    using 3(1) count_white_update [of v c 1] count_white_update [of v c1 2] by auto
qed simp_all

definition dfs_visit :: "jdag \<Rightarrow> nat \<Rightarrow> nat list \<Rightarrow> u64 list \<Rightarrow> nat list \<times> u64 list" where
  "dfs_visit dag u color result =
     (case dfs_loop dag (outs dag u) (color[u := 1]) result of
        (c1, r1) \<Rightarrow> (c1[u := 2], jn_id (nodes dag ! u) # r1))"

definition jdag_topological_sort_dfs :: "jdag \<Rightarrow> int \<Rightarrow> int \<times> u64 list" where
  "jdag_topological_sort_dfs dag mx =
     (if mx < int (node_count dag) then (-1, [])
      else (int (node_count dag),
            snd (dfs_loop dag [0..<node_count dag] (replicate JDAG_MAX_NODES 0) [])))"

text \<open>Cycle detection: the same traversal, stopping at an edge into a node on the path.\<close>

function dfs_cycle_loop :: "jdag \<Rightarrow> nat list \<Rightarrow> nat list \<Rightarrow> nat list \<times> bool" where
  "dfs_cycle_loop dag [] color = (color, False)"
| "dfs_cycle_loop dag (v # vs) color =
     (if v < length color \<and> color ! v = 1 then (color, True)
      else if v < length color \<and> color ! v = 0 then
        (case dfs_cycle_loop dag (outs dag v) (color[v := 1]) of
           (c1, found) \<Rightarrow> if found then (c1, True) else dfs_cycle_loop dag vs (c1[v := 2]))
      else dfs_cycle_loop dag vs color)"
  by pat_completeness auto

lemma dfs_cycle_loop_white:
  "dfs_cycle_loop_dom (dag, vs, c) \<Longrightarrow>
   count_list (fst (dfs_cycle_loop dag vs c)) 0 \<le> count_list c 0
   \<and> length (fst (dfs_cycle_loop dag vs c)) = length c"
proof (induction rule: dfs_cycle_loop.pinduct)
  case (2 dag v vs c)
  consider (grey) "v < length c \<and> c ! v = 1" | (white) "\<not> (v < length c \<and> c ! v = 1)" "v < length c \<and> c ! v = 0"
    | (other) "\<not> (v < length c \<and> c ! v = 1)" "\<not> (v < length c \<and> c ! v = 0)" by blast
  then show ?case
  proof cases
    case grey
    then show ?thesis using "2.hyps" by (simp add: dfs_cycle_loop.psimps)
  next
    case white
    obtain c1 f where rec: "dfs_cycle_loop dag (outs dag v) (c[v := 1]) = (c1, f)" by fastforce
    then have c1: "count_list c1 0 \<le> count_list (c[v := 1]) 0" "length c1 = length c"
      using "2.IH"(1) [OF white] by auto
    have "count_list (c1[v := 2]) 0 \<le> count_list c1 0"
      using count_white_update [of v c1 2] c1(2) white by simp
    moreover have "count_list (c[v := 1]) 0 \<le> count_list c 0"
      using count_white_update [of v c 1] white by simp
    ultimately show ?thesis
      using "2.IH"(2) [OF white rec [symmetric]] c1 white rec "2.hyps"
      by (auto simp: dfs_cycle_loop.psimps)
  next
    case other
    then show ?thesis using "2.IH"(3) "2.hyps" by (auto simp: dfs_cycle_loop.psimps)
  qed
qed (simp add: dfs_cycle_loop.psimps)

termination dfs_cycle_loop
proof (relation "measures [\<lambda>(dag, vs, c). count_list c 0, \<lambda>(dag, vs, c). length vs]", goal_cases)
  case (2 dag v vs c)
  then show ?case using count_white_update [of v c 1] by simp
next
  case (3 dag v vs c c1 f)
  then have "count_list c1 0 \<le> count_list (c[v := 1]) 0" "length c1 = length c"
    using dfs_cycle_loop_white [OF 3(5)] by (metis fst_conv, metis fst_conv length_list_update)
  then show ?case
    using 3(2) count_white_update [of v c 1] count_white_update [of v c1 2] by auto
qed simp_all

definition dfs_cycle_detect :: "jdag \<Rightarrow> nat \<Rightarrow> nat list \<Rightarrow> nat list \<times> bool" where
  "dfs_cycle_detect dag u color =
     (case dfs_cycle_loop dag (outs dag u) (color[u := 1]) of
        (c1, found) \<Rightarrow> if found then (c1, True) else (c1[u := 2], False))"

fun has_cycle_from :: "jdag \<Rightarrow> nat list \<Rightarrow> nat list \<Rightarrow> bool" where
  "has_cycle_from dag [] color = False"
| "has_cycle_from dag (i # is) color =
     (if color ! i = 0 then
        (case dfs_cycle_detect dag i color of (c1, found) \<Rightarrow> if found then True else has_cycle_from dag is c1)
      else has_cycle_from dag is color)"

definition jdag_has_cycle :: "jdag \<Rightarrow> bool" where
  "jdag_has_cycle dag =
     (if node_count dag = 0 then False
      else has_cycle_from dag [0..<node_count dag] (replicate JDAG_MAX_NODES 0))"


text \<open>The longest-path relaxation that \<open>jdag_critical_path_length\<close> and \<open>jdag_get_levels\<close> share: they
  differ in the distance of the sources (1 and 0).\<close>

fun dist_relax :: "nat \<Rightarrow> nat list \<Rightarrow> nat list \<Rightarrow> int list \<Rightarrow> nat list \<Rightarrow> nat list \<times> int list \<times> nat list" where
  "dist_relax u [] ds indeg q = (ds, indeg, q)"
| "dist_relax u (v # vs) ds indeg q =
     (if v < length indeg then
        let ds' = (if ds ! u + 1 > ds ! v then ds[v := ds ! u + 1] else ds);
            d = indeg ! v - 1
        in dist_relax u vs ds' (indeg[v := d]) (if d = 0 then q @ [v] else q)
      else dist_relax u vs ds indeg q)"

lemma dist_relax_kahn: "snd (dist_relax u vs ds indeg q) = kahn_relax vs indeg q"
  by (induction u vs ds indeg q rule: dist_relax.induct) (simp_all add: Let_def)

function dist_loop :: "jdag \<Rightarrow> nat list \<Rightarrow> int list \<Rightarrow> nat list \<Rightarrow> nat \<Rightarrow> nat list \<times> nat" where
  "dist_loop dag ds indeg [] mx = (ds, mx)"
| "dist_loop dag ds indeg (u # q) mx =
     (case dist_relax u (outs dag u) ds indeg q of
        (ds', indeg', q') \<Rightarrow>
          dist_loop dag ds' indeg' q' (if ds ! u > mx then ds ! u else mx))"
  by pat_completeness auto
termination
proof (relation "measure (\<lambda>(dag, ds, indeg, q, mx). length q + pos_count indeg)", goal_cases)
  case (2 dag ds indeg u q mx ds' b indeg' q')
  then have "kahn_relax (outs dag u) indeg q = (indeg', q')"
    using dist_relax_kahn [of u "outs dag u" ds indeg q] by (metis snd_conv)
  then show ?case using kahn_relax_measure [of "outs dag u" indeg q indeg' q'] by simp
qed simp

definition init_dist :: "jdag \<Rightarrow> nat \<Rightarrow> nat list" where
  "init_dist dag d0 = map (\<lambda>n. if indegree n = 0 then d0 else 0) (nodes dag)"

definition jdag_critical_path_length :: "jdag option \<Rightarrow> nat" where
  "jdag_critical_path_length h =
     (case h of None \<Rightarrow> 0
      | Some dag \<Rightarrow>
          if node_count dag = 0 then 0
          else snd (dist_loop dag (init_dist dag 1) (init_indegree dag) (init_queue dag) 0))"

fun level_bounds :: "nat \<Rightarrow> nat list \<Rightarrow> nat list" where
  "level_bounds pos [] = []"
| "level_bounds pos (c # cs) = (pos + c) # level_bounds (pos + c) cs"

text \<open>Placing node \<open>i\<close> at the next free position of its level; a level above \<open>max_level\<close> would read
  an uninitialised position (\<open>None\<close>).\<close>

fun place_nodes :: "jdag \<Rightarrow> nat list \<Rightarrow> nat list \<Rightarrow> nat list \<Rightarrow> u64 list \<Rightarrow> u64 list option" where
  "place_nodes dag ds [] next_pos result = Some result"
| "place_nodes dag ds (i # is) next_pos result =
     (let lev = ds ! i
      in if lev \<ge> length next_pos then None
         else place_nodes dag ds is (next_pos[lev := next_pos ! lev + 1])
                (result[next_pos ! lev := jn_id (nodes dag ! i)]))"

definition jdag_get_levels :: "jdag \<Rightarrow> u64 list \<Rightarrow> (int \<times> u64 list \<times> nat list) option" where
  "jdag_get_levels dag result =
     (if length result < node_count dag then Some (-1, result, [])
      else
        case dist_loop dag (init_dist dag 0) (init_indegree dag) (init_queue dag) 0 of
          (ds, max_level) \<Rightarrow>
            let level_counts = map (count_list ds) [0..<max_level + 1];
                bounds = level_bounds 0 level_counts;
                next_pos = butlast (0 # bounds)
            in case place_nodes dag ds [0..<node_count dag] next_pos result of
                 None \<Rightarrow> None
               | Some r \<Rightarrow> Some (int max_level + 1, r, bounds))"

section \<open>Runs and the structural invariant\<close>

datatype dag_op = Add_node u64 "string option" int | Remove_node u64 | Add_edge u64 u64
  | Remove_edge u64 u64 | Mark_completed time_t u64 | Mark_failed u64

fun dag_apply :: "dag_op \<Rightarrow> jdag \<Rightarrow> jdag" where
  "dag_apply (Add_node nid name pr) dag = fst (jdag_add_node dag nid name pr)"
| "dag_apply (Remove_node nid) dag = fst (jdag_remove_node dag nid)"
| "dag_apply (Add_edge a b) dag = fst (jdag_add_edge dag a b)"
| "dag_apply (Remove_edge a b) dag = fst (jdag_remove_edge dag a b)"
| "dag_apply (Mark_completed t nid) dag = fst (jdag_mark_completed t dag nid)"
| "dag_apply (Mark_failed nid) dag = fst (jdag_mark_failed dag nid)"

abbreviation dag_run :: "dag_op list \<Rightarrow> jdag \<Rightarrow> jdag" where
  "dag_run ops dag \<equiv> fold dag_apply ops dag"

definition dag_edges :: "jdag \<Rightarrow> (nat \<times> nat) set" where
  "dag_edges dag = {(u, v). u < node_count dag \<and> v \<in> set (outs dag u)}"

definition node_ok :: "nat \<Rightarrow> jdag_node \<Rightarrow> bool" where
  "node_ok n nd \<longleftrightarrow> distinct (out_edges nd) \<and> distinct (in_edges nd)
     \<and> set (out_edges nd) \<subseteq> {..<n} \<and> set (in_edges nd) \<subseteq> {..<n}
     \<and> outdegree nd = int (length (out_edges nd))"

definition jdag_wf :: "jdag \<Rightarrow> bool" where
  "jdag_wf dag \<longleftrightarrow> node_count dag \<le> max_nodes dag \<and> max_nodes dag \<le> JDAG_MAX_NODES
     \<and> distinct (map jn_id (nodes dag))
     \<and> (\<forall>nd \<in> set (nodes dag). node_ok (node_count dag) nd)
     \<and> (\<forall>u < node_count dag. \<forall>v < node_count dag. v \<in> set (outs dag u) \<longleftrightarrow> u \<in> set (ins dag v))"

definition jdag_fresh :: "jdag \<Rightarrow> bool" where
  "jdag_fresh dag \<longleftrightarrow>
     (\<forall>nd \<in> set (nodes dag). jn_state nd = JDAG_NODE_PENDING \<and> indegree nd = int (length (in_edges nd)))"

definition jdag_inv :: "jdag \<Rightarrow> bool" where
  "jdag_inv dag \<longleftrightarrow> jdag_wf dag \<and> acyclic (dag_edges dag)"

end
