(* ===== verification/Dag_Invariant.thy ===== *)
theory Dag_Invariant
  imports Job_Dag
begin

text \<open>
  The graph of \<open>job_dag.c\<close> stays well formed and acyclic under every operation: the breadth-first
  test of \<open>jdag_would_create_cycle\<close> decides reachability, adding an edge it accepts closes no cycle,
  removing an edge or a node (with the renumbering of the moved last node) and marking nodes keep
  the two index lists of every edge in step.
\<close>

section \<open>Shape of the graph\<close>

lemma upd_node_simps [simp]:
  "nodes (upd_node i f dag) = (nodes dag)[i := f (nodes dag ! i)]"
  "max_nodes (upd_node i f dag) = max_nodes dag"
  "edge_count (upd_node i f dag) = edge_count dag"
  by (simp_all add: upd_node_def)

lemma wf_node_ok:
  "jdag_wf dag \<Longrightarrow> u < node_count dag \<Longrightarrow> node_ok (node_count dag) (nodes dag ! u)"
  by (simp add: jdag_wf_def)

lemma wf_outs_lt:
  "jdag_wf dag \<Longrightarrow> u < node_count dag \<Longrightarrow> v \<in> set (outs dag u) \<Longrightarrow> v < node_count dag"
  using wf_node_ok [of dag u] by (auto simp: node_ok_def)

lemma wf_ins_lt:
  "jdag_wf dag \<Longrightarrow> u < node_count dag \<Longrightarrow> v \<in> set (ins dag u) \<Longrightarrow> v < node_count dag"
  using wf_node_ok [of dag u] by (auto simp: node_ok_def)

lemma wf_out_in:
  "jdag_wf dag \<Longrightarrow> u < node_count dag \<Longrightarrow> v < node_count dag \<Longrightarrow>
   v \<in> set (outs dag u) \<longleftrightarrow> u \<in> set (ins dag v)"
  by (simp add: jdag_wf_def)

lemma wf_edges:
  "jdag_wf dag \<Longrightarrow> (u, v) \<in> dag_edges dag \<longleftrightarrow> u < node_count dag \<and> v < node_count dag \<and> v \<in> set (outs dag u)"
  using wf_outs_lt by (auto simp: dag_edges_def)

lemma wf_edges_ins:
  "jdag_wf dag \<Longrightarrow> (u, v) \<in> dag_edges dag \<longleftrightarrow> u < node_count dag \<and> v < node_count dag \<and> u \<in> set (ins dag v)"
  by (auto simp: wf_edges wf_out_in)

lemma wf_bound: "jdag_wf dag \<Longrightarrow> node_count dag \<le> JDAG_MAX_NODES"
  by (simp add: jdag_wf_def)

lemma find_node_SomeD:
  "find_node dag nid = Some i \<Longrightarrow> i < node_count dag \<and> jn_id (nodes dag ! i) = nid"
  by (auto simp: find_node_def)

lemma find_node_None: "find_node dag nid = None \<longleftrightarrow> nid \<notin> set (map jn_id (nodes dag))"
  by (fastforce simp: find_node_def find_idx_None_iff in_set_conv_nth)

lemma find_node_nth:
  assumes "jdag_wf dag" "i < node_count dag"
  shows "find_node dag (jn_id (nodes dag ! i)) = Some i"
proof -
  have "distinct (map jn_id (nodes dag))" using assms(1) by (simp add: jdag_wf_def)
  then have "\<forall>j < i. jn_id (nodes dag ! j) \<noteq> jn_id (nodes dag ! i)"
    using assms(2) nth_eq_iff_index_eq [of "map jn_id (nodes dag)"] by fastforce
  then show ?thesis using assms(2) by (simp add: find_node_def find_idx_Some_iff)
qed

text \<open>What the invariant reads of a graph: marking nodes changes none of it.\<close>

definition dag_shape :: "jdag \<Rightarrow> nat \<times> (u64 \<times> int \<times> nat list \<times> nat list) list" where
  "dag_shape dag = (max_nodes dag, map (\<lambda>n. (jn_id n, outdegree n, in_edges n, out_edges n)) (nodes dag))"

lemma dag_shape_eqD:
  assumes "dag_shape d = dag_shape d'"
  shows "node_count d = node_count d'" "max_nodes d = max_nodes d'"
    "map jn_id (nodes d) = map jn_id (nodes d')"
    "u < node_count d \<Longrightarrow> outs d u = outs d' u"
    "u < node_count d \<Longrightarrow> ins d u = ins d' u"
    "u < node_count d \<Longrightarrow> outdegree (nodes d ! u) = outdegree (nodes d' ! u)"
proof -
  have m: "map (\<lambda>n. (jn_id n, outdegree n, in_edges n, out_edges n)) (nodes d)
         = map (\<lambda>n. (jn_id n, outdegree n, in_edges n, out_edges n)) (nodes d')"
    using assms by (simp add: dag_shape_def)
  show len: "node_count d = node_count d'" using map_eq_imp_length_eq [OF m] .
  show "max_nodes d = max_nodes d'" using assms by (simp add: dag_shape_def)
  have nth: "(jn_id (nodes d ! u), outdegree (nodes d ! u), ins d u, outs d u)
      = (jn_id (nodes d' ! u), outdegree (nodes d' ! u), ins d' u, outs d' u)" if "u < node_count d" for u
    using arg_cong [OF m, of "\<lambda>xs. xs ! u"] that len by simp
  then show "map jn_id (nodes d) = map jn_id (nodes d')" using len by (simp add: list_eq_iff_nth_eq)
  show "u < node_count d \<Longrightarrow> outs d u = outs d' u" "u < node_count d \<Longrightarrow> ins d u = ins d' u"
    "u < node_count d \<Longrightarrow> outdegree (nodes d ! u) = outdegree (nodes d' ! u)"
    using nth by auto
qed

lemma jdag_wf_nth:
  "jdag_wf dag \<longleftrightarrow> node_count dag \<le> max_nodes dag \<and> max_nodes dag \<le> JDAG_MAX_NODES
     \<and> distinct (map jn_id (nodes dag))
     \<and> (\<forall>u < node_count dag. node_ok (node_count dag) (nodes dag ! u))
     \<and> (\<forall>u < node_count dag. \<forall>v < node_count dag. v \<in> set (outs dag u) \<longleftrightarrow> u \<in> set (ins dag v))"
  by (auto simp: jdag_wf_def all_set_conv_all_nth)

lemma dag_shape_inv:
  assumes "dag_shape d = dag_shape d'"
  shows "jdag_wf d \<longleftrightarrow> jdag_wf d'" "dag_edges d = dag_edges d'" "jdag_inv d \<longleftrightarrow> jdag_inv d'"
proof -
  note eq = dag_shape_eqD [OF assms]
  show wf: "jdag_wf d \<longleftrightarrow> jdag_wf d'"
    unfolding jdag_wf_nth node_ok_def using eq by simp
  show ed: "dag_edges d = dag_edges d'" unfolding dag_edges_def using eq by auto
  show "jdag_inv d \<longleftrightarrow> jdag_inv d'" unfolding jdag_inv_def using wf ed by simp
qed

lemma dag_shape_upd_node:
  assumes "\<And>n. jn_id (f n) = jn_id n \<and> outdegree (f n) = outdegree n \<and> in_edges (f n) = in_edges n \<and> out_edges (f n) = out_edges n"
  shows "dag_shape (upd_node i f dag) = dag_shape dag"
proof (cases "i < node_count dag")
  case True
  then show ?thesis
    using assms by (simp add: dag_shape_def map_update list_update_same_conv)
next
  case False
  then show ?thesis by (simp add: dag_shape_def list_update_beyond)
qed

lemma dag_shape_fold:
  "(\<And>x d. dag_shape (f x d) = dag_shape d) \<Longrightarrow> dag_shape (fold f xs d) = dag_shape d"
  by (induction xs arbitrary: d) simp_all

lemma mark_completed_shape: "dag_shape (fst (jdag_mark_completed t dag nid)) = dag_shape dag"
proof -
  have "dag_shape (dec_indegree s d) = dag_shape d" for s d
    by (auto simp: dec_indegree_def intro: dag_shape_upd_node)
  then show ?thesis
    by (auto simp: jdag_mark_completed_def Let_def dag_shape_fold intro: dag_shape_upd_node split: option.splits)
qed

lemma mark_failed_shape: "dag_shape (fst (jdag_mark_failed dag nid)) = dag_shape dag"
proof -
  have "dag_shape (skip_node s d) = dag_shape d" for s d
    by (auto simp: skip_node_def intro: dag_shape_upd_node)
  then show ?thesis
    by (auto simp: jdag_mark_failed_def Let_def dag_shape_fold intro: dag_shape_upd_node split: option.splits)
qed

section \<open>The breadth-first cycle test\<close>

lemma bfs_scan_None_iff: "bfs_scan t vs visited q = None \<longleftrightarrow> t \<in> set vs"
  by (induction t vs visited q rule: bfs_scan.induct) auto

lemma bfs_scan_Some:
  "bfs_scan t vs visited q = Some (visited', q') \<Longrightarrow> set vs \<subseteq> {..<length visited} \<Longrightarrow>
   length visited' = length visited
   \<and> (\<forall>i < length visited. visited' ! i \<longleftrightarrow> visited ! i \<or> i \<in> set vs)
   \<and> set q' = set q \<union> {v \<in> set vs. \<not> visited ! v}"
proof (induction t vs visited q arbitrary: visited' q' rule: bfs_scan.induct)
  case (2 t v vs visited q)
  have v: "v < length visited" "v \<noteq> t" using "2.prems" by (auto split: if_splits)
  show ?case
  proof (cases "visited ! v")
    case True
    then show ?thesis using "2.IH"(2) [of visited' q'] "2.prems" v by auto
  next
    case False
    then have "bfs_scan t vs (visited[v := True]) (q @ [v]) = Some (visited', q')"
      using "2.prems" v by simp
    from "2.IH"(1) [OF v(2) _ this] show ?thesis
      using "2.prems" v False by (auto simp: nth_list_update)
  qed
qed simp

lemma bfs_sound:
  "bfs_reaches dag t q visited \<Longrightarrow> jdag_wf dag \<Longrightarrow> set q \<subseteq> {..<node_count dag} \<Longrightarrow>
   node_count dag \<le> length visited \<Longrightarrow> \<exists>u \<in> set q. (u, t) \<in> (dag_edges dag)\<^sup>+"
proof (induction dag t q visited rule: bfs_reaches.induct)
  case (2 dag t u q visited)
  have u: "u < node_count dag" using "2.prems" by simp
  show ?case
  proof (cases "bfs_scan t (outs dag u) visited q")
    case None
    then have "(u, t) \<in> dag_edges dag" using u by (simp add: bfs_scan_None_iff dag_edges_def)
    then show ?thesis by auto
  next
    case (Some a)
    then obtain visited' q' where s: "bfs_scan t (outs dag u) visited q = Some (visited', q')" by force
    have sub: "set (outs dag u) \<subseteq> {..<node_count dag}" using wf_outs_lt "2.prems" u by auto
    have sc: "length visited' = length visited" "set q' \<subseteq> set q \<union> set (outs dag u)"
      using bfs_scan_Some [OF s subset_trans [OF sub]] "2.prems"(4) by (simp, blast)
    have "\<exists>w \<in> set q'. (w, t) \<in> (dag_edges dag)\<^sup>+"
      using "2.IH" [OF s refl] "2.prems" s sc sub by auto
    then obtain w where w: "w \<in> set q'" "(w, t) \<in> (dag_edges dag)\<^sup>+" by auto
    show ?thesis
    proof (cases "w \<in> set q")
      case False
      then have "(u, w) \<in> dag_edges dag" using w sc u by (auto simp: dag_edges_def)
      then show ?thesis using w by (meson list.set_intros(1) trancl_into_trancl2)
    qed (use w in auto)
  qed
qed simp

lemma bfs_complete:
  "\<not> bfs_reaches dag t q visited \<Longrightarrow> jdag_wf dag \<Longrightarrow> node_count dag \<le> length visited \<Longrightarrow>
   set q \<subseteq> {..<node_count dag} \<Longrightarrow>
   (\<And>u. u < node_count dag \<Longrightarrow> visited ! u \<Longrightarrow> u \<notin> set q \<Longrightarrow>
       \<forall>v \<in> set (outs dag u). v \<noteq> t \<and> visited ! v) \<Longrightarrow>
   (\<exists>V. {u. u < node_count dag \<and> visited ! u} \<subseteq> V \<and> (\<forall>u \<in> V. \<forall>v. (u, v) \<in> dag_edges dag \<longrightarrow> v \<in> V \<and> v \<noteq> t))"
proof (induction dag t q visited rule: bfs_reaches.induct)
  case (1 dag t visited)
  then show ?case
    by (intro exI [of _ "{u. u < node_count dag \<and> visited ! u}"]) (auto simp: wf_edges)
next
  case (2 dag t u q visited)
  have u: "u < node_count dag" using "2.prems" by simp
  obtain visited' q' where s: "bfs_scan t (outs dag u) visited q = Some (visited', q')"
    using "2.prems"(1) by (cases "bfs_scan t (outs dag u) visited q") auto
  have t: "t \<notin> set (outs dag u)" using s bfs_scan_None_iff [of t "outs dag u" visited q] by auto
  have sub: "set (outs dag u) \<subseteq> {..<node_count dag}" using wf_outs_lt "2.prems" u by auto
  have sc: "length visited' = length visited"
    "\<forall>i < length visited. visited' ! i \<longleftrightarrow> visited ! i \<or> i \<in> set (outs dag u)"
    "set q' = set q \<union> {v \<in> set (outs dag u). \<not> visited ! v}"
    using bfs_scan_Some [OF s subset_trans [OF sub]] "2.prems"(3) by simp_all
  have cl: "\<forall>v \<in> set (outs dag w). v \<noteq> t \<and> visited' ! v"
    if "w < node_count dag" "visited' ! w" "w \<notin> set q'" for w
  proof (cases "w = u")
    case True
    then show ?thesis using t sc sub "2.prems"(3) by fastforce
  next
    case False
    have wl: "w < length visited" using that "2.prems"(3) by simp
    then have "visited ! w" "w \<notin> set (u # q)" using that sc False by auto
    then have "\<forall>v \<in> set (outs dag w). v \<noteq> t \<and> visited ! v" using "2.prems"(5) that by blast
    moreover have "v < length visited" if "v \<in> set (outs dag w)" for v
      using wf_outs_lt [OF "2.prems"(2) \<open>w < node_count dag\<close> that] "2.prems"(3) by simp
    ultimately show ?thesis using sc by blast
  qed
  have nr: "\<not> bfs_reaches dag t q' visited'" using "2.prems"(1) s by simp
  have q': "set q' \<subseteq> {..<node_count dag}" using sc(3) sub "2.prems"(4) by auto
  have "\<exists>V. {u. u < node_count dag \<and> visited' ! u} \<subseteq> V
      \<and> (\<forall>u \<in> V. \<forall>v. (u, v) \<in> dag_edges dag \<longrightarrow> v \<in> V \<and> v \<noteq> t)"
    using "2.IH" [OF s refl nr "2.prems"(2) _ q' cl] "2.prems"(3) sc(1) by simp
  moreover have "{u. u < node_count dag \<and> visited ! u} \<subseteq> {u. u < node_count dag \<and> visited' ! u}"
    using sc(2) "2.prems"(3) by auto
  ultimately show ?case by (meson subset_trans)
qed

lemma closed_trancl:
  assumes "(u, w) \<in> R\<^sup>+" "u \<in> V" "\<And>u v. u \<in> V \<Longrightarrow> (u, v) \<in> R \<Longrightarrow> v \<in> V \<and> v \<noteq> t"
  shows "w \<in> V \<and> w \<noteq> t"
  using assms(1,2) by (induction rule: trancl_induct) (auto dest: assms(3))

lemma would_create_cycle_reach:
  assumes wf: "jdag_wf dag" and fi: "find_node dag a = Some fi" and ti: "find_node dag b = Some ti"
  shows "jdag_would_create_cycle dag a b \<longleftrightarrow> (ti, fi) \<in> (dag_edges dag)\<^sup>*"
proof (cases "fi = ti")
  case True
  then show ?thesis using fi ti by (simp add: jdag_would_create_cycle_def)
next
  case False
  let ?vis = "(replicate JDAG_MAX_NODES False)[ti := True]"
  have b: "fi < node_count dag" "ti < node_count dag" "node_count dag \<le> JDAG_MAX_NODES"
    using find_node_SomeD [OF fi] find_node_SomeD [OF ti] wf_bound [OF wf] by auto
  have vis: "u < node_count dag \<Longrightarrow> ?vis ! u \<longleftrightarrow> u = ti" for u
    using b by (auto simp: nth_list_update)
  have eq: "jdag_would_create_cycle dag a b \<longleftrightarrow> bfs_reaches dag fi [ti] ?vis"
    using fi ti False by (simp add: jdag_would_create_cycle_def)
  have "bfs_reaches dag fi [ti] ?vis \<longleftrightarrow> (ti, fi) \<in> (dag_edges dag)\<^sup>+"
  proof
    assume "bfs_reaches dag fi [ti] ?vis"
    from bfs_sound [OF this wf] show "(ti, fi) \<in> (dag_edges dag)\<^sup>+" using b by auto
  next
    assume r: "(ti, fi) \<in> (dag_edges dag)\<^sup>+"
    show "bfs_reaches dag fi [ti] ?vis"
    proof (rule ccontr)
      assume "\<not> bfs_reaches dag fi [ti] ?vis"
      from bfs_complete [OF this wf] obtain V where V: "{u. u < node_count dag \<and> ?vis ! u} \<subseteq> V"
        "\<forall>u \<in> V. \<forall>v. (u, v) \<in> dag_edges dag \<longrightarrow> v \<in> V \<and> v \<noteq> fi"
        using b vis by auto
      then show False using closed_trancl [OF r, of V fi] b vis by blast
    qed
  qed
  then show ?thesis using eq False by (simp add: rtrancl_eq_or_trancl)
qed

section \<open>Adding and removing edges\<close>

lemma create_inv: "jdag_create ok mx = Some dag \<Longrightarrow> jdag_inv dag \<and> jdag_fresh dag"
  by (auto simp: jdag_create_def jdag_inv_def jdag_wf_def jdag_fresh_def dag_edges_def acyclic_def
      JDAG_MAX_NODES_def split: if_splits)

lemma add_edge_cases:
  obtains (refused) r where "jdag_add_edge dag a b = (dag, r)" "r < 0"
  | (added) fi ti where "find_node dag a = Some fi" "find_node dag b = Some ti" "fi \<noteq> ti"
      "ti \<notin> set (outs dag fi)" "\<not> jdag_would_create_cycle dag a b" "snd (jdag_add_edge dag a b) = 0"
      "nodes (fst (jdag_add_edge dag a b)) = (nodes dag)
         [fi := (nodes dag ! fi)\<lparr>out_edges := outs dag fi @ [ti], outdegree := outdegree (nodes dag ! fi) + 1\<rparr>,
          ti := (nodes dag ! ti)\<lparr>in_edges := ins dag ti @ [fi], indegree := indegree (nodes dag ! ti) + 1\<rparr>]"
      "max_nodes (fst (jdag_add_edge dag a b)) = max_nodes dag"
proof (cases "snd (jdag_add_edge dag a b) = 0")
  case False
  then have "jdag_add_edge dag a b = (dag, snd (jdag_add_edge dag a b)) \<and> snd (jdag_add_edge dag a b) < 0"
    by (auto simp: jdag_add_edge_def Let_def split: option.splits if_splits)
  then show ?thesis using refused by blast
next
  case True
  then obtain fi ti where f: "find_node dag a = Some fi" "find_node dag b = Some ti" "fi \<noteq> ti"
      "ti \<notin> set (outs dag fi)" "\<not> jdag_would_create_cycle dag a b"
      "\<not> length (outs dag fi) \<ge> JDAG_MAX_NODES" "\<not> length (ins dag ti) \<ge> JDAG_MAX_NODES"
    by (auto simp: jdag_add_edge_def split: option.splits if_splits)
  have b: "fi < node_count dag" "ti < node_count dag" using f find_node_SomeD by auto
  have "nodes (fst (jdag_add_edge dag a b)) = (nodes dag)
      [fi := (nodes dag ! fi)\<lparr>out_edges := outs dag fi @ [ti], outdegree := outdegree (nodes dag ! fi) + 1\<rparr>,
       ti := (nodes dag ! ti)\<lparr>in_edges := ins dag ti @ [fi], indegree := indegree (nodes dag ! ti) + 1\<rparr>]"
    using f b by (simp add: jdag_add_edge_def Let_def list_update_swap [of ti fi])
  then show ?thesis using added [OF f(1-5) True] f by (simp add: jdag_add_edge_def Let_def)
qed

lemma distinct_card_le: "distinct xs \<Longrightarrow> set xs \<subseteq> {..<n} \<Longrightarrow> length xs \<le> n"
  by (metis card_lessThan card_mono distinct_card finite_lessThan)

lemma add_edge_inv:
  assumes inv: "jdag_inv dag"
  shows "jdag_inv (fst (jdag_add_edge dag a b)) \<and> (jdag_fresh dag \<longrightarrow> jdag_fresh (fst (jdag_add_edge dag a b)))"
proof (cases rule: add_edge_cases [of dag a b])
  case (refused r)
  then show ?thesis using inv by simp
next
  case (added fi ti)
  let ?d = "fst (jdag_add_edge dag a b)"
  have wf: "jdag_wf dag" and ac: "acyclic (dag_edges dag)" using inv by (auto simp: jdag_inv_def)
  have b: "fi < node_count dag" "ti < node_count dag" using added find_node_SomeD by auto
  have fin: "fi \<notin> set (ins dag ti)" using wf_out_in [OF wf b] added(4) by simp
  have nth: "nodes ?d ! u = (if u = ti then (nodes dag ! ti)\<lparr>in_edges := ins dag ti @ [fi], indegree := indegree (nodes dag ! ti) + 1\<rparr>
      else if u = fi then (nodes dag ! fi)\<lparr>out_edges := outs dag fi @ [ti], outdegree := outdegree (nodes dag ! fi) + 1\<rparr>
      else nodes dag ! u)" for u
    using added(3,7) b by (simp add: nth_list_update)
  have len: "node_count ?d = node_count dag" using added(7) by simp
  have outs: "outs ?d u = (if u = fi then outs dag fi @ [ti] else outs dag u)" for u
    using nth added(3) by simp
  have ins: "ins ?d u = (if u = ti then ins dag ti @ [fi] else ins dag u)" for u
    using nth added(3) by simp
  have ids: "map jn_id (nodes ?d) = map jn_id (nodes dag)"
    using len nth added(3) by (simp add: list_eq_iff_nth_eq)
  have ok: "node_ok (node_count ?d) (nodes ?d ! u)" if "u < node_count dag" for u
    using wf_node_ok [OF wf that] added(3,4) b fin unfolding nth len node_ok_def by auto
  have sym: "v \<in> set (outs ?d u) \<longleftrightarrow> u \<in> set (ins ?d v)" if "u < node_count dag" "v < node_count dag" for u v
    using wf_out_in [OF wf that] added(3) unfolding outs ins by auto
  have wf': "jdag_wf ?d"
    unfolding jdag_wf_nth ids using len ok sym wf added(8) by (simp add: jdag_wf_def)
  have "dag_edges ?d = insert (fi, ti) (dag_edges dag)"
    unfolding dag_edges_def len outs using b by (auto split: if_splits)
  then have "acyclic (dag_edges ?d)"
    using ac added(5) would_create_cycle_reach [OF wf added(1,2)] by (simp add: acyclic_insert)
  moreover have "jdag_fresh dag \<Longrightarrow> jdag_fresh ?d"
    unfolding jdag_fresh_def all_set_conv_all_nth len using nth added(3) b by simp
  ultimately show ?thesis using wf' by (simp add: jdag_inv_def)
qed

lemma drop_out_simps [simp]:
  "jn_id (drop_out t n) = jn_id n" "jn_state (drop_out t n) = jn_state n" "in_edges (drop_out t n) = in_edges n"
  "indegree (drop_out t n) = indegree n"
  by (auto simp: drop_out_def split: option.splits)

lemma drop_in_simps [simp]:
  "jn_id (drop_in f n) = jn_id n" "jn_state (drop_in f n) = jn_state n" "out_edges (drop_in f n) = out_edges n"
  "outdegree (drop_in f n) = outdegree n"
  by (auto simp: drop_in_def split: option.splits)

lemma drop_out_set:
  "distinct (out_edges n) \<Longrightarrow> distinct (out_edges (drop_out t n)) \<and> set (out_edges (drop_out t n)) = set (out_edges n) - {t}"
  using swap_remove_distinct [of t "out_edges n"]
  by (auto simp: drop_out_def swap_remove_None split: option.splits)

lemma drop_in_set:
  "distinct (in_edges n) \<Longrightarrow> distinct (in_edges (drop_in f n)) \<and> set (in_edges (drop_in f n)) = set (in_edges n) - {f}"
  using swap_remove_distinct [of f "in_edges n"]
  by (auto simp: drop_in_def swap_remove_None split: option.splits)

lemma drop_out_degree:
  "outdegree n = int (length (out_edges n)) \<Longrightarrow> outdegree (drop_out t n) = int (length (out_edges (drop_out t n)))"
  by (auto simp: drop_out_def dest: swap_remove_Some(3) split: option.splits)

lemma drop_in_degree:
  "indegree n = int (length (in_edges n)) \<Longrightarrow> indegree (drop_in f n) = int (length (in_edges (drop_in f n)))"
  by (auto simp: drop_in_def dest: swap_remove_Some(3) split: option.splits)

text \<open>What removing the edge from \<open>fi\<close> to \<open>ti\<close> leaves: used for one edge and for all edges of a node.\<close>

lemma remove_edge_facts:
  assumes wf: "jdag_wf dag" and f: "find_node dag a = Some fi" "find_node dag b = Some ti"
    and d: "d = fst (jdag_remove_edge dag a b)"
  shows "jdag_wf d" "map jn_id (nodes d) = map jn_id (nodes dag)"
    "dag_edges d = dag_edges dag - {(fi, ti)}" "jdag_fresh dag \<Longrightarrow> jdag_fresh d"
proof -
  have b: "fi < node_count dag" "ti < node_count dag" using f find_node_SomeD by auto
  have dn: "nodes d = (let ns = (nodes dag)[fi := drop_out ti (nodes dag ! fi)] in ns[ti := drop_in fi (ns ! ti)])"
    and mx: "max_nodes d = max_nodes dag"
    using d f by (simp_all add: jdag_remove_edge_def Let_def)
  then have nth: "nodes d ! u = (if u = ti then drop_in fi (if ti = fi then drop_out ti (nodes dag ! fi) else nodes dag ! ti)
      else if u = fi then drop_out ti (nodes dag ! fi) else nodes dag ! u)" for u
    using b by (simp add: nth_list_update)
  have len: "node_count d = node_count dag" using dn by (simp add: Let_def)
  have dist: "distinct (outs dag u)" "distinct (ins dag u)" if "u < node_count dag" for u
    using wf_node_ok [OF wf that] by (auto simp: node_ok_def)
  have outs: "set (outs d u) = (if u = fi then set (outs dag u) - {ti} else set (outs dag u))"
    and od: "distinct (outs d u)" if "u < node_count dag" for u
    using drop_out_set [of "nodes dag ! fi" ti] dist b that unfolding nth by auto
  have ins: "set (ins d u) = (if u = ti then set (ins dag u) - {fi} else set (ins dag u))"
    and id: "distinct (ins d u)" if "u < node_count dag" for u
    using drop_in_set [of "nodes dag ! ti" fi] drop_in_set [of "drop_out ti (nodes dag ! fi)" fi] dist b that
    unfolding nth by auto
  have deg: "outdegree (nodes d ! u) = int (length (outs d u))" if "u < node_count dag" for u
    using wf_node_ok [OF wf that] drop_out_degree unfolding nth by (auto simp: node_ok_def)
  show ids: "map jn_id (nodes d) = map jn_id (nodes dag)"
    using len nth by (simp add: list_eq_iff_nth_eq)
  have ok: "node_ok (node_count d) (nodes d ! u)" if "u < node_count dag" for u
    using wf_node_ok [OF wf that] outs [OF that] ins [OF that] od [OF that] id [OF that] deg [OF that]
    unfolding node_ok_def len by (auto split: if_splits)
  have sym: "v \<in> set (outs d u) \<longleftrightarrow> u \<in> set (ins d v)" if "u < node_count dag" "v < node_count dag" for u v
    using wf_out_in [OF wf that] outs [OF that(1)] ins [OF that(2)] by auto
  show "jdag_wf d" unfolding jdag_wf_nth ids using len ok sym wf mx by (simp add: jdag_wf_def)
  show "dag_edges d = dag_edges dag - {(fi, ti)}"
    unfolding dag_edges_def len using outs by (auto split: if_splits)
  show "jdag_fresh dag \<Longrightarrow> jdag_fresh d"
    unfolding jdag_fresh_def all_set_conv_all_nth len using nth b drop_in_degree by simp
qed

lemma remove_edge_inv:
  assumes inv: "jdag_inv dag"
  shows "jdag_inv (fst (jdag_remove_edge dag a b)) \<and> (jdag_fresh dag \<longrightarrow> jdag_fresh (fst (jdag_remove_edge dag a b)))"
proof (cases "find_node dag a = None \<or> find_node dag b = None")
  case True
  then have "fst (jdag_remove_edge dag a b) = dag" by (auto simp: jdag_remove_edge_def split: option.splits)
  then show ?thesis using inv by simp
next
  case False
  then obtain fi ti where f: "find_node dag a = Some fi" "find_node dag b = Some ti" by auto
  have wf: "jdag_wf dag" "acyclic (dag_edges dag)" using inv by (auto simp: jdag_inv_def)
  note facts = remove_edge_facts [OF wf(1) f refl]
  show ?thesis using facts wf(2) by (auto simp: jdag_inv_def intro: acyclic_subset)
qed

section \<open>Adding and removing nodes\<close>

lemma add_node_inv:
  assumes inv: "jdag_inv dag"
  shows "jdag_inv (fst (jdag_add_node dag nid name pr)) \<and> (jdag_fresh dag \<longrightarrow> jdag_fresh (fst (jdag_add_node dag nid name pr)))"
proof (cases "node_count dag < max_nodes dag \<and> nid \<notin> set (map jn_id (nodes dag))")
  case False
  then have "fst (jdag_add_node dag nid name pr) = dag" by (auto simp: jdag_add_node_def)
  then show ?thesis using inv by simp
next
  case True
  let ?d = "fst (jdag_add_node dag nid name pr)"
  have wf: "jdag_wf dag" and ac: "acyclic (dag_edges dag)" using inv by (auto simp: jdag_inv_def)
  from True obtain nd where d: "nodes ?d = nodes dag @ [nd]" "max_nodes ?d = max_nodes dag"
    and nd: "jn_id nd = nid" "in_edges nd = []" "out_edges nd = []" "indegree nd = 0" "outdegree nd = 0"
      "jn_state nd = JDAG_NODE_PENDING"
    by (simp add: jdag_add_node_def Let_def)
  have ok: "node_ok (node_count ?d) x" if "x \<in> set (nodes ?d)" for x
    using that wf nd unfolding d(1) jdag_wf_def node_ok_def by (auto simp: less_Suc_eq subset_iff)
  have lt: "v < node_count dag" if "u < node_count dag" "v \<in> set (outs dag u) \<or> v \<in> set (ins dag u)" for u v
    using that wf_outs_lt [OF wf] wf_ins_lt [OF wf] by blast
  have sym: "v \<in> set (outs ?d u) \<longleftrightarrow> u \<in> set (ins ?d v)" if "u < node_count ?d" "v < node_count ?d" for u v
    using that wf_out_in [OF wf, of u v] lt [of u v] lt [of v u] nd
    unfolding d(1) by (auto simp: nth_append less_Suc_eq)
  have "jdag_wf ?d"
    unfolding jdag_wf_def using ok sym wf nd True d by (auto simp: jdag_wf_def)
  moreover have "dag_edges ?d = dag_edges dag"
    unfolding dag_edges_def d(1) using nd by (auto simp: nth_append less_Suc_eq split: if_splits)
  moreover have "jdag_fresh dag \<Longrightarrow> jdag_fresh ?d" unfolding jdag_fresh_def d(1) using nd by auto
  ultimately show ?thesis using ac by (simp add: jdag_inv_def)
qed

lemma remove_edges_of_facts:
  assumes wf: "jdag_wf d" and idx: "idx < node_count d" "jn_id (nodes d ! idx) = nid"
    and i: "i < node_count d" "i \<noteq> idx" and d': "d' = remove_edges_of idx nid i d"
  shows "jdag_wf d'" "map jn_id (nodes d') = map jn_id (nodes d)"
    "dag_edges d' = dag_edges d - {(i, idx), (idx, i)}" "jdag_fresh d \<Longrightarrow> jdag_fresh d'"
proof -
  define d1 where "d1 = fst (jdag_remove_edge d (jn_id (nodes d ! i)) nid)"
  have f: "find_node d (jn_id (nodes d ! i)) = Some i" "find_node d nid = Some idx"
    using find_node_nth [OF wf i(1)] find_node_nth [OF wf idx(1)] idx(2) by auto
  note r1 = remove_edge_facts [OF wf f d1_def]
  have n1: "node_count d1 = node_count d" using map_eq_imp_length_eq [OF r1(2)] .
  have id1: "jn_id (nodes d1 ! k) = jn_id (nodes d ! k)" if "k < node_count d" for k
    using arg_cong [OF r1(2), of "\<lambda>xs. xs ! k"] that n1 by simp
  have d'2: "d' = fst (jdag_remove_edge d1 nid (jn_id (nodes d1 ! i)))"
    using d' i by (simp add: remove_edges_of_def d1_def Let_def)
  have f1: "find_node d1 nid = Some idx" "find_node d1 (jn_id (nodes d1 ! i)) = Some i"
    using find_node_nth [OF r1(1), of i] find_node_nth [OF r1(1), of idx] id1 idx i n1 by auto
  note r2 = remove_edge_facts [OF r1(1) f1 d'2]
  show "jdag_wf d'" "map jn_id (nodes d') = map jn_id (nodes d)" "dag_edges d' = dag_edges d - {(i, idx), (idx, i)}"
    "jdag_fresh d \<Longrightarrow> jdag_fresh d'"
    using r1 r2 by auto
qed

lemma remove_all_edges_facts:
  assumes "jdag_wf d" "idx < node_count d" "jn_id (nodes d ! idx) = nid" "set js \<subseteq> {..<node_count d}"
    "d' = fold (remove_edges_of idx nid) js d"
  shows "jdag_wf d' \<and> map jn_id (nodes d') = map jn_id (nodes d)
    \<and> dag_edges d' = {(u, v) \<in> dag_edges d. \<not> (u = idx \<and> v \<in> set js - {idx}) \<and> \<not> (v = idx \<and> u \<in> set js - {idx})}
    \<and> (jdag_fresh d \<longrightarrow> jdag_fresh d')"
  using assms
proof (induction js arbitrary: d)
  case (Cons i js)
  let ?d1 = "remove_edges_of idx nid i d"
  show ?case
  proof (cases "i = idx")
    case True
    then have "?d1 = d" by (simp add: remove_edges_of_def)
    then show ?thesis using Cons.IH [of d] Cons.prems True by auto
  next
    case False
    note r = remove_edges_of_facts [OF Cons.prems(1-3) _ False refl]
    have i: "i < node_count d" using Cons.prems by simp
    have n: "node_count ?d1 = node_count d" using map_eq_imp_length_eq [OF r(2) [OF i]] .
    have "jn_id (nodes ?d1 ! idx) = nid"
      using arg_cong [OF r(2) [OF i], of "\<lambda>xs. xs ! idx"] Cons.prems(2,3) n by simp
    then have "jdag_wf d' \<and> map jn_id (nodes d') = map jn_id (nodes ?d1)
      \<and> dag_edges d' = {(u, v) \<in> dag_edges ?d1. \<not> (u = idx \<and> v \<in> set js - {idx}) \<and> \<not> (v = idx \<and> u \<in> set js - {idx})}
      \<and> (jdag_fresh ?d1 \<longrightarrow> jdag_fresh d')"
      using Cons.IH [of ?d1] Cons.prems r(1) [OF i] n by simp
    then show ?thesis using r [OF i] False by auto
  qed
qed simp

text \<open>Compaction: node \<open>u\<close> of the new array was at \<open>moved u\<close>, and the renumbering of the index lists
  undoes \<open>moved\<close>.\<close>

definition moved :: "nat \<Rightarrow> nat \<Rightarrow> nat \<Rightarrow> nat" where
  "moved l idx u = (if u = idx then l else u)"

definition compact :: "nat \<Rightarrow> nat \<Rightarrow> jdag_node list \<Rightarrow> jdag_node list" where
  "compact l idx ns = map (\<lambda>n. n\<lparr>in_edges := map (relabel l idx) (in_edges n),
       out_edges := map (relabel l idx) (out_edges n)\<rparr>) (butlast (ns[idx := ns ! l]))"

lemma compact_nth:
  assumes "length ns = Suc l" "idx \<le> l" "u < l"
  shows "compact l idx ns ! u = (let n = ns ! moved l idx u
    in n\<lparr>in_edges := map (relabel l idx) (in_edges n), out_edges := map (relabel l idx) (out_edges n)\<rparr>)"
  using assms by (auto simp: compact_def nth_butlast nth_list_update moved_def Let_def)

lemma relabel_inj: "inj_on (relabel l idx) (- {idx})"
  by (auto simp: inj_on_def relabel_def)

lemma relabel_image:
  assumes "X \<subseteq> {..l} - {idx}" "v < l"
  shows "v \<in> relabel l idx ` X \<longleftrightarrow> moved l idx v \<in> X"
  using assms by (auto simp: relabel_def moved_def image_iff)

lemma compact_distinct_ids:
  assumes "length ns = Suc l" "idx \<le> l" "distinct (map jn_id ns)"
  shows "distinct (map jn_id (compact l idx ns))"
proof -
  let ?b = "butlast (ns[idx := ns ! l])"
  have "ns \<noteq> []" using assms by auto
  then have "ns ! l = last ns" using assms by (simp add: last_conv_nth)
  then have "mset ?b = mset ns - {#ns ! idx#}"
    using mset_butlast_update [of idx ns] assms by simp
  then have "mset (ns ! idx # ?b) = mset ns" using assms by simp
  then have "mset (map jn_id (ns ! idx # ?b)) = mset (map jn_id ns)" by (metis mset_map)
  then have "distinct (map jn_id (ns ! idx # ?b))" using assms(3) mset_eq_imp_distinct_iff by blast
  then show ?thesis by (simp add: compact_def comp_def)
qed

lemma compact_facts:
  assumes wf: "jdag_wf d" and l: "node_count d = Suc l" and idx: "idx \<le> l"
    and iso: "\<And>u v. (u, v) \<in> dag_edges d \<Longrightarrow> u \<noteq> idx \<and> v \<noteq> idx"
    and d': "d' = d\<lparr>nodes := compact l idx (nodes d)\<rparr>"
  shows "jdag_wf d'" "(u, v) \<in> dag_edges d' \<Longrightarrow> (moved l idx u, moved l idx v) \<in> dag_edges d"
    "jdag_fresh d \<Longrightarrow> jdag_fresh d'"
proof -
  have len: "node_count d' = l" using d' l by (simp add: compact_def)
  have mv: "moved l idx u < node_count d \<and> (idx < l \<longrightarrow> moved l idx u \<noteq> idx)" if "u < l" for u
    using that idx l by (auto simp: moved_def)
  note nth = compact_nth [OF l idx]
  have sub: "set (outs d u) \<subseteq> {..l} - {idx}" "set (ins d u) \<subseteq> {..l} - {idx}"
    if "u < node_count d" for u
  proof -
    show "set (outs d u) \<subseteq> {..l} - {idx}"
    proof
      fix v assume v: "v \<in> set (outs d u)"
      then have "(u, v) \<in> dag_edges d" using that by (simp add: dag_edges_def)
      then show "v \<in> {..l} - {idx}" using iso wf_outs_lt [OF wf that v] l by auto
    qed
    show "set (ins d u) \<subseteq> {..l} - {idx}"
    proof
      fix v assume v: "v \<in> set (ins d u)"
      have vl: "v < node_count d" using wf_ins_lt [OF wf that v] .
      then have "(v, u) \<in> dag_edges d" using that v wf_edges_ins [OF wf] by simp
      then show "v \<in> {..l} - {idx}" using iso vl l by auto
    qed
  qed
  have outs: "set (outs d' u) = relabel l idx ` set (outs d (moved l idx u))"
    and ins: "set (ins d' u) = relabel l idx ` set (ins d (moved l idx u))" if "u < l" for u
    using nth [OF that] d' by (simp_all add: Let_def)
  have rl: "relabel l idx ` X \<subseteq> {..<l}" if "X \<subseteq> {..l} - {idx}" for X
    using that idx by (auto simp: relabel_def)
  have dist: "distinct (map (relabel l idx) xs)" if "distinct xs" "set xs \<subseteq> {..l} - {idx}" for xs
    using that by (auto simp: distinct_map intro: inj_on_subset [OF relabel_inj])
  have ok: "node_ok (node_count d') (nodes d' ! u)" if "u < l" for u
    using wf_node_ok [OF wf conjunct1 [OF mv [OF that]]] sub [OF conjunct1 [OF mv [OF that]]] nth [OF that] d' len
    by (auto simp: node_ok_def Let_def dist dest: subsetD [OF rl])
  have sym: "v \<in> set (outs d' u) \<longleftrightarrow> u \<in> set (ins d' v)" if "u < l" "v < l" for u v
    using that mv [OF that(1)] mv [OF that(2)] outs [OF that(1)] ins [OF that(2)]
    by (simp add: relabel_image sub wf_out_in [OF wf])
  show "jdag_wf d'"
    unfolding jdag_wf_nth len
    using wf l ok sym compact_distinct_ids [OF l idx] d' len by (simp add: jdag_wf_def)
  show "(u, v) \<in> dag_edges d' \<Longrightarrow> (moved l idx u, moved l idx v) \<in> dag_edges d"
  proof -
    assume "(u, v) \<in> dag_edges d'"
    then have uv: "u < l" "v \<in> set (outs d' u)" using len by (auto simp: dag_edges_def)
    then have "v < l" using outs rl [OF sub(1) [OF conjunct1 [OF mv]]] by blast
    then show ?thesis using uv outs mv [of u] by (simp add: relabel_image sub dag_edges_def)
  qed
  show "jdag_fresh d \<Longrightarrow> jdag_fresh d'"
    unfolding jdag_fresh_def all_set_conv_all_nth len using nth d' mv by (simp add: Let_def)
qed

lemma acyclic_image:
  assumes "acyclic R" "\<And>u v. (u, v) \<in> S \<Longrightarrow> (f u, f v) \<in> R"
  shows "acyclic S"
proof -
  have "(u, v) \<in> S\<^sup>+ \<Longrightarrow> (f u, f v) \<in> R\<^sup>+" for u v
    by (induction rule: trancl_induct) (auto dest: assms(2) intro: trancl_into_trancl)
  then show ?thesis using assms(1) by (auto simp: acyclic_def)
qed

lemma remove_node_inv:
  assumes inv: "jdag_inv dag"
  shows "jdag_inv (fst (jdag_remove_node dag nid)) \<and> (jdag_fresh dag \<longrightarrow> jdag_fresh (fst (jdag_remove_node dag nid)))"
proof (cases "find_node dag nid")
  case None
  then show ?thesis using inv by (simp add: jdag_remove_node_def)
next
  case (Some idx)
  have wf: "jdag_wf dag" and ac: "acyclic (dag_edges dag)" using inv by (auto simp: jdag_inv_def)
  have idx: "idx < node_count dag" "jn_id (nodes dag ! idx) = nid" using find_node_SomeD [OF Some] by auto
  define d1 where "d1 = fold (remove_edges_of idx nid) [0..<node_count dag] dag"
  define l where "l = node_count d1 - 1"
  have sub: "set [0..<node_count dag] \<subseteq> {..<node_count dag}" by auto
  have r: "jdag_wf d1" "map jn_id (nodes d1) = map jn_id (nodes dag)"
    "dag_edges d1 = {(u, v) \<in> dag_edges dag. \<not> (u = idx \<and> v \<in> set [0..<node_count dag] - {idx})
        \<and> \<not> (v = idx \<and> u \<in> set [0..<node_count dag] - {idx})}"
    "jdag_fresh dag \<Longrightarrow> jdag_fresh d1"
    using remove_all_edges_facts [OF wf idx sub d1_def] by blast+
  have n1: "node_count d1 = node_count dag" using map_eq_imp_length_eq [OF r(2)] .
  then have l: "node_count d1 = Suc l" "idx \<le> l" using idx by (auto simp: l_def)
  have "(idx, idx) \<notin> dag_edges dag" using ac by (auto simp: acyclic_def)
  then have iso: "u \<noteq> idx \<and> v \<noteq> idx" if "(u, v) \<in> dag_edges d1" for u v
    using that r(3) wf_edges [OF wf] by auto
  have d': "fst (jdag_remove_node dag nid) = d1\<lparr>nodes := compact l idx (nodes d1)\<rparr>"
    unfolding l_def d1_def compact_def using Some by (simp add: jdag_remove_node_def Let_def)
  note c = compact_facts [OF r(1) l iso d']
  have "acyclic (dag_edges d1)" using ac r(3) by (auto intro: acyclic_subset)
  then have "acyclic (dag_edges (fst (jdag_remove_node dag nid)))" using c(2) by (rule acyclic_image)
  then show ?thesis using c(1,3) r(4) by (simp add: jdag_inv_def)
qed

section \<open>Runs\<close>

definition building :: "dag_op \<Rightarrow> bool" where
  "building oper = (case oper of Mark_completed _ _ \<Rightarrow> False | Mark_failed _ \<Rightarrow> False | _ \<Rightarrow> True)"

lemma dag_apply_inv: "jdag_inv dag \<Longrightarrow> jdag_inv (dag_apply oper dag)"
proof (cases oper)
  case (Mark_completed t nid)
  then show "jdag_inv dag \<Longrightarrow> ?thesis" using dag_shape_inv(3) [OF mark_completed_shape] by simp
next
  case (Mark_failed nid)
  then show "jdag_inv dag \<Longrightarrow> ?thesis" using dag_shape_inv(3) [OF mark_failed_shape] by simp
qed (simp_all add: add_node_inv remove_node_inv add_edge_inv remove_edge_inv)

lemma dag_apply_fresh: "jdag_inv dag \<Longrightarrow> jdag_fresh dag \<Longrightarrow> building oper \<Longrightarrow> jdag_fresh (dag_apply oper dag)"
  by (cases oper) (simp_all add: building_def add_node_inv remove_node_inv add_edge_inv remove_edge_inv)

lemma dag_run_inv: "jdag_inv dag \<Longrightarrow> jdag_inv (dag_run ops dag)"
  by (induction ops arbitrary: dag) (simp_all add: dag_apply_inv)

lemma dag_run_fresh:
  "jdag_inv dag \<Longrightarrow> jdag_fresh dag \<Longrightarrow> list_all building ops \<Longrightarrow> jdag_fresh (dag_run ops dag)"
  by (induction ops arbitrary: dag) (simp_all add: dag_apply_inv dag_apply_fresh)

text \<open>The graph 10 \<open>\<rightarrow>\<close> 20, 30 \<open>\<rightarrow>\<close> 40, on which the theorems are applied.\<close>

definition diamond_ops :: "dag_op list" where
  "diamond_ops = [Add_node 10 None 0, Add_node 20 None 0, Add_node 30 None 0, Add_node 40 None 0,
     Add_edge 10 20, Add_edge 10 30, Add_edge 20 40, Add_edge 30 40]"

definition diamond :: jdag where
  "diamond = dag_run diamond_ops \<lparr>nodes = [], max_nodes = 128, edge_count = 0\<rparr>"

lemma diamond_inv: "jdag_inv diamond" "jdag_fresh diamond"
proof -
  have c: "jdag_create True 0 = Some \<lparr>nodes = [], max_nodes = 128, edge_count = 0\<rparr>"
    by (simp add: jdag_create_def JDAG_MAX_NODES_def)
  have "list_all building diamond_ops" by (simp add: diamond_ops_def building_def)
  then show "jdag_inv diamond" "jdag_fresh diamond"
    unfolding diamond_def using create_inv [OF c] by (simp_all add: dag_run_inv dag_run_fresh)
qed

text \<open>C1. Whatever sequence of node and edge insertions, removals, completions and failures is applied
  to a new graph, the graph stays acyclic and its structure stays consistent: node ids are distinct,
  both index lists of every edge agree, and the counts respect the capacity.\<close>

theorem dag_run_acyclic:
  assumes "jdag_create ok mx = Some d0"
  shows "jdag_inv (dag_run ops d0)"
  using create_inv [OF assms] by (simp add: dag_run_inv)

theorem dag_run_acyclic_witness:
  "jdag_create True 0 = Some \<lparr>nodes = [], max_nodes = 128, edge_count = 0\<rparr> \<and> jdag_inv diamond"
  unfolding diamond_def
  using dag_run_acyclic [of True 0 "\<lparr>nodes = [], max_nodes = 128, edge_count = 0\<rparr>" diamond_ops]
  by (simp add: jdag_create_def JDAG_MAX_NODES_def)

text \<open>\<open>jdag_would_create_cycle\<close> answers exactly whether the source of the proposed edge is
  reachable from its target, and \<open>jdag_add_edge\<close> refuses with -5 a new edge between different
  existing nodes precisely in that case.\<close>

theorem add_edge_rejects_exactly_cycles:
  assumes "jdag_inv dag" "find_node dag a = Some fi" "find_node dag b = Some ti" "fi \<noteq> ti"
    "ti \<notin> set (outs dag fi)"
  shows "snd (jdag_add_edge dag a b) = (if (ti, fi) \<in> (dag_edges dag)\<^sup>* then -5 else 0)"
proof -
  have wf: "jdag_wf dag" using assms(1) by (simp add: jdag_inv_def)
  have b: "fi < node_count dag" "ti < node_count dag" using assms(2,3) find_node_SomeD by auto
  have "insert ti (set (outs dag fi)) \<subseteq> {..<node_count dag}" "distinct (ti # outs dag fi)"
    "insert fi (set (ins dag ti)) \<subseteq> {..<node_count dag}" "distinct (fi # ins dag ti)"
    using wf_node_ok [OF wf b(1)] wf_node_ok [OF wf b(2)] b assms(5) wf_out_in [OF wf b]
    by (auto simp: node_ok_def)
  then have "length (outs dag fi) < node_count dag" "length (ins dag ti) < node_count dag"
    using distinct_card_le [of "ti # outs dag fi" "node_count dag"]
      distinct_card_le [of "fi # ins dag ti" "node_count dag"] by auto
  then have "length (outs dag fi) < JDAG_MAX_NODES" "length (ins dag ti) < JDAG_MAX_NODES"
    using wf_bound [OF wf] by auto
  then show ?thesis
    using assms would_create_cycle_reach [OF wf assms(2,3)] by (simp add: jdag_add_edge_def Let_def)
qed

theorem add_edge_rejects_exactly_cycles_witness:
  "snd (jdag_add_edge diamond 40 10) = -5 \<and> (0, 3) \<in> (dag_edges diamond)\<^sup>*"
proof -
  have h: "find_node diamond 40 = Some 3" "find_node diamond 10 = Some 0" "0 \<notin> set (outs diamond 3)"
    by code_simp+
  have r: "snd (jdag_add_edge diamond 40 10) = -5" by code_simp
  then show ?thesis
    using add_edge_rejects_exactly_cycles [OF diamond_inv(1) h(1,2) _ h(3)] by (simp split: if_splits)
qed

end
