(* ===== verification/Dag_Order.thy ===== *)
theory Dag_Order
  imports Dag_Invariant
begin

text \<open>
  The orderings of \<open>job_dag.c\<close>: Kahn's algorithm and the depth-first sort both return a topological
  order of an acyclic graph, Kahn's algorithm and the back-edge search detect exactly the cyclic
  graphs, and executing the ready nodes one at a time completes the whole graph.
\<close>

section \<open>Topological orders\<close>

definition topo_order :: "jdag \<Rightarrow> nat list \<Rightarrow> bool" where
  "topo_order dag xs \<longleftrightarrow> distinct xs \<and> set xs = {..<node_count dag}
     \<and> (\<forall>i < length xs. \<forall>j < length xs. xs ! j \<in> set (outs dag (xs ! i)) \<longrightarrow> i < j)"

definition degrees_ok :: "jdag \<Rightarrow> bool" where
  "degrees_ok dag \<longleftrightarrow> (\<forall>nd \<in> set (nodes dag). indegree nd = int (length (in_edges nd)))"

abbreviation ids_of :: "jdag \<Rightarrow> nat list \<Rightarrow> u64 list" where
  "ids_of dag xs \<equiv> map (\<lambda>u. jn_id (nodes dag ! u)) xs"

fun succ_ordered :: "('a \<times> 'a) set \<Rightarrow> 'a set \<Rightarrow> 'a list \<Rightarrow> bool" where
  "succ_ordered E K [] = True"
| "succ_ordered E K (x # xs) = ((\<forall>w. (x, w) \<in> E \<longrightarrow> w \<in> set xs \<union> K) \<and> succ_ordered E K xs)"

fun pred_ordered :: "('a \<times> 'a) set \<Rightarrow> 'a set \<Rightarrow> 'a list \<Rightarrow> bool" where
  "pred_ordered E K [] = True"
| "pred_ordered E K (x # xs) = ((\<forall>w. (w, x) \<in> E \<longrightarrow> w \<in> K) \<and> pred_ordered E (insert x K) xs)"

lemma succ_ordered_append:
  "succ_ordered E K (xs @ ys) \<longleftrightarrow> succ_ordered E (K \<union> set ys) xs \<and> succ_ordered E K ys"
  by (induction xs) auto

lemma succ_ordered_mono: "succ_ordered E K xs \<Longrightarrow> K \<subseteq> K' \<Longrightarrow> succ_ordered E K' xs"
  by (induction xs) auto

lemma succ_ordered_nth:
  "succ_ordered E K xs \<Longrightarrow> distinct xs \<Longrightarrow> set xs \<inter> K = {} \<Longrightarrow>
   i < length xs \<Longrightarrow> j < length xs \<Longrightarrow> (xs ! i, xs ! j) \<in> E \<Longrightarrow> i < j"
proof (induction xs arbitrary: i j)
  case (Cons x xs)
  show ?case
  proof (cases i)
    case 0
    then have "xs ! (j - 1) \<in> set xs \<or> j = 0" using Cons.prems by auto
    then show ?thesis using Cons.prems 0 by (cases j) auto
  next
    case (Suc i')
    then have "(xs ! i', (x # xs) ! j) \<in> E" "xs ! i' \<in> set xs" using Cons.prems by auto
    show ?thesis
    proof (cases j)
      case 0
      have "succ_ordered E K xs" "xs ! i' \<in> set xs" "(xs ! i', x) \<in> E"
        using Cons.prems Suc 0 by auto
      moreover have "x \<in> set xs \<union> K" if "succ_ordered E K ys" "y \<in> set ys" "(y, x) \<in> E" "set ys \<subseteq> set xs" for ys y
        using that by (induction ys) auto
      ultimately have "x \<in> set xs \<union> K" by blast
      then show ?thesis using Cons.prems by auto
    next
      case (Suc j')
      then show ?thesis using Cons.IH [of i' j'] Cons.prems \<open>i = Suc i'\<close> by auto
    qed
  qed
qed simp

lemma pred_ordered_nth:
  "pred_ordered E K xs \<Longrightarrow> distinct xs \<Longrightarrow> set xs \<inter> K = {} \<Longrightarrow>
   i < length xs \<Longrightarrow> j < length xs \<Longrightarrow> (xs ! i, xs ! j) \<in> E \<Longrightarrow> i < j"
proof (induction xs arbitrary: K i j)
  case (Cons x xs)
  show ?case
  proof (cases j)
    case 0
    then have "(x # xs) ! i \<in> K" using Cons.prems by auto
    moreover have "(x # xs) ! i \<in> set (x # xs)" using Cons.prems(4) nth_mem by blast
    ultimately show ?thesis using Cons.prems(3) by blast
  next
    case (Suc j')
    then show ?thesis
      using Cons.IH [of "insert x K" "i - 1" j'] Cons.prems by (cases i) auto
  qed
qed simp

lemma index_orders:
  assumes "distinct xs" "set xs = {..<n}" "\<And>i j. i < length xs \<Longrightarrow> j < length xs \<Longrightarrow> (xs ! i, xs ! j) \<in> E \<Longrightarrow> i < j"
    "E \<subseteq> {..<n} \<times> {..<n}"
  shows "acyclic E"
proof -
  have "\<exists>pos. \<forall>i < length xs. pos (xs ! i) = i"
    using assms(1) by (intro exI [of _ "\<lambda>x. THE i. i < length xs \<and> xs ! i = x"])
      (auto intro!: the_equality simp: nth_eq_iff_index_eq)
  then obtain pos where pos: "\<And>i. i < length xs \<Longrightarrow> pos (xs ! i) = (i::nat)" by blast
  have step: "pos u < pos v" if "(u, v) \<in> E" for u v
  proof -
    have "u \<in> set xs" "v \<in> set xs" using that assms(2,4) by auto
    then obtain i j where "i < length xs" "xs ! i = u" "j < length xs" "xs ! j = v"
      by (auto simp: in_set_conv_nth)
    then show ?thesis using assms(3) [of i j] that pos by auto
  qed
  have "(u, v) \<in> E\<^sup>+ \<Longrightarrow> pos u < pos v" for u v
    by (induction rule: trancl_induct) (auto dest: step)
  then show ?thesis by (auto simp: acyclic_def)
qed

lemma edges_sub: "jdag_wf dag \<Longrightarrow> dag_edges dag \<subseteq> {..<node_count dag} \<times> {..<node_count dag}"
  by (auto simp: wf_edges)

lemma finite_edges: "jdag_wf dag \<Longrightarrow> finite (dag_edges dag)"
  by (rule finite_subset [OF edges_sub]) simp_all

lemma topo_order_edges:
  assumes "jdag_wf dag" "distinct xs" "set xs = {..<node_count dag}"
    "\<And>i j. i < length xs \<Longrightarrow> j < length xs \<Longrightarrow> (xs ! i, xs ! j) \<in> dag_edges dag \<Longrightarrow> i < j"
  shows "topo_order dag xs" "acyclic (dag_edges dag)"
proof -
  show "acyclic (dag_edges dag)" using index_orders [OF assms(2-4) edges_sub [OF assms(1)]] .
  have "(xs ! i, xs ! j) \<in> dag_edges dag" if "i < length xs" "xs ! j \<in> set (outs dag (xs ! i))" for i j
    using that assms(3) nth_mem [OF that(1)] by (simp add: dag_edges_def)
  then show "topo_order dag xs" using assms(2-4) by (auto simp: topo_order_def)
qed

section \<open>Kahn's algorithm\<close>

lemma kahn_relax_eq:
  "distinct vs \<Longrightarrow> set vs \<subseteq> {..<length indeg} \<Longrightarrow>
   snd (kahn_relax vs indeg q) = q @ filter (\<lambda>v. indeg ! v = 1) vs
   \<and> length (fst (kahn_relax vs indeg q)) = length indeg
   \<and> (\<forall>v < length indeg. fst (kahn_relax vs indeg q) ! v = indeg ! v - (if v \<in> set vs then 1 else 0))"
proof (induction vs indeg q rule: kahn_relax.induct)
  case (2 v vs indeg q)
  have v: "v < length indeg" "v \<notin> set vs" using "2.prems" by auto
  have f: "filter (\<lambda>w. indeg[v := indeg ! v - 1] ! w = 1) vs = filter (\<lambda>w. indeg ! w = 1) vs"
    using v by (intro filter_cong refl) (metis nth_list_update_neq)
  show ?case
    using "2.IH"(1) [OF v(1) refl] "2.prems" v f by (auto simp: Let_def nth_list_update)
qed simp

definition pending_preds :: "jdag \<Rightarrow> nat set \<Rightarrow> nat \<Rightarrow> nat set" where
  "pending_preds dag D v = {u. (u, v) \<in> dag_edges dag} - D"

definition kahn_inv :: "jdag \<Rightarrow> nat set \<Rightarrow> int list \<Rightarrow> nat list \<Rightarrow> bool" where
  "kahn_inv dag D indeg q \<longleftrightarrow> length indeg = node_count dag \<and> distinct q \<and> D \<subseteq> {..<node_count dag}
     \<and> (\<forall>v \<in> D. indeg ! v = 0)
     \<and> set q = {v. v < node_count dag \<and> v \<notin> D \<and> indeg ! v = 0}
     \<and> (\<forall>v < node_count dag. indeg ! v = int (card (pending_preds dag D v)))"

lemma finite_pending: "jdag_wf dag \<Longrightarrow> finite (pending_preds dag D v)"
  by (rule finite_subset [of _ "{..<node_count dag}"]) (auto simp: pending_preds_def wf_edges)

lemma pending_insert:
  assumes "jdag_wf dag" "u \<notin> D" "u < node_count dag"
  shows "int (card (pending_preds dag (insert u D) v))
    = int (card (pending_preds dag D v)) - (if v \<in> set (outs dag u) then 1 else 0)"
proof -
  have e: "pending_preds dag (insert u D) v = pending_preds dag D v - {u}" by (auto simp: pending_preds_def)
  have m: "u \<in> pending_preds dag D v \<longleftrightarrow> v \<in> set (outs dag u)"
    using assms by (auto simp: pending_preds_def dag_edges_def)
  have "card (pending_preds dag D v) > 0" if "u \<in> pending_preds dag D v"
    using that finite_pending [OF assms(1), of D v] card_gt_0_iff by blast
  then show ?thesis unfolding e using m finite_pending [OF assms(1), of D v] by (auto simp: card_Diff_singleton)
qed

lemma kahn_step_inv:
  assumes wf: "jdag_wf dag" and inv: "kahn_inv dag D indeg (u # q)"
    and r: "kahn_relax (outs dag u) indeg q = (indeg', q')"
  shows "kahn_inv dag (insert u D) indeg' q'"
proof -
  have u: "u < node_count dag" "u \<notin> D" "indeg ! u = 0" "u \<notin> set q"
    using inv by (auto simp: kahn_inv_def)
  have i: "length indeg = node_count dag" "distinct (u # q)" "D \<subseteq> {..<node_count dag}"
    "set (u # q) = {v. v < node_count dag \<and> v \<notin> D \<and> indeg ! v = 0}"
    "\<And>v. v < node_count dag \<Longrightarrow> indeg ! v = int (card (pending_preds dag D v))"
    "\<And>v. v \<in> D \<Longrightarrow> indeg ! v = 0"
    using inv by (auto simp: kahn_inv_def)
  have o: "distinct (outs dag u)" "set (outs dag u) \<subseteq> {..<node_count dag}"
    using wf_node_ok [OF wf u(1)] by (auto simp: node_ok_def)
  have k: "q' = q @ filter (\<lambda>v. indeg ! v = 1) (outs dag u)" "length indeg' = length indeg"
    "\<And>v. v < node_count dag \<Longrightarrow> indeg' ! v = indeg ! v - (if v \<in> set (outs dag u) then 1 else 0)"
    using kahn_relax_eq [of "outs dag u" indeg q] o i r by auto
  have c: "indeg' ! v = int (card (pending_preds dag (insert u D) v))" if "v < node_count dag" for v
    using k(3) [OF that] i(5) [OF that] pending_insert [OF wf u(2,1), of v] by simp
  have nn: "indeg ! v > 0" if "v \<in> set (outs dag u)" for v
  proof -
    have "v < node_count dag" using o that by auto
    then show ?thesis using k(3) [of v] c [of v] that by simp
  qed
  then have nd: "v \<notin> insert u D" if "v \<in> set (outs dag u)" for v
    using that u(3) i(6) by force
  have z: "indeg' ! v = 0" if "v \<in> insert u D" for v
  proof -
    have "v < node_count dag" "v \<notin> set (outs dag u)" using that u(1) i(3) nd by auto
    then show ?thesis using k(3) [of v] that u(3) i(6) by auto
  qed
  have set_q: "set q = {v. v < node_count dag \<and> v \<notin> insert u D \<and> indeg ! v = 0}"
    using i(4) u(4) by (auto simp: set_eq_iff)
  have dq: "distinct q'"
    using i(2) o(1) nn unfolding k(1) by (fastforce simp: set_q)
  have "set q' = {v. v < node_count dag \<and> v \<notin> insert u D \<and> indeg' ! v = 0}"
  proof (rule set_eqI)
    fix v
    show "v \<in> set q' \<longleftrightarrow> v \<in> {v. v < node_count dag \<and> v \<notin> insert u D \<and> indeg' ! v = 0}"
      unfolding k(1) set_append set_filter set_q
      using k(3) [of v] o(2) nn [of v] nd [of v] by (cases "v \<in> set (outs dag u)") auto
  qed
  then show ?thesis
    unfolding kahn_inv_def using k(2) i(1,3) u(1) z dq c by auto
qed

lemma kahn_loop_order:
  "kahn_inv dag D indeg q \<Longrightarrow> jdag_wf dag \<Longrightarrow>
   (let r = kahn_loop dag indeg q in
      distinct r \<and> set r \<subseteq> {..<node_count dag} - D \<and> pred_ordered (dag_edges dag) D r
      \<and> (\<forall>v. v < node_count dag \<and> v \<notin> D \<union> set r \<longrightarrow> pending_preds dag (D \<union> set r) v \<noteq> {}))"
proof (induction dag indeg q arbitrary: D rule: kahn_loop.induct)
  case (1 dag indeg)
  then show ?case by (fastforce simp: kahn_inv_def)
next
  case (2 dag indeg u q)
  obtain indeg' q' where r: "kahn_relax (outs dag u) indeg q = (indeg', q')" by fastforce
  have "u \<in> set (u # q)" by simp
  then have u: "u < node_count dag" "u \<notin> D" "card (pending_preds dag D u) = 0"
    using "2.prems"(1) unfolding kahn_inv_def by (blast, blast, metis (mono_tags, lifting) mem_Collect_eq of_nat_eq_0_iff)
  then have "pending_preds dag D u = {}" using finite_pending [OF "2.prems"(2)] by simp
  then have "(w, u) \<in> dag_edges dag \<Longrightarrow> w \<in> D" for w by (auto simp: pending_preds_def)
  then show ?case
    using "2.IH" [OF r [symmetric] kahn_step_inv [OF "2.prems"(2,1) r] "2.prems"(2)] r u
    by (auto simp: Let_def)
qed

lemma kahn_init:
  assumes "jdag_wf dag" "degrees_ok dag"
  shows "kahn_inv dag {} (init_indegree dag) (init_queue dag)"
proof -
  have "indegree (nodes dag ! v) = int (card (pending_preds dag {} v))" if v: "v < node_count dag" for v
  proof -
    have "pending_preds dag {} v = set (ins dag v)"
      using wf_edges_ins [OF assms(1)] wf_ins_lt [OF assms(1) v] v by (auto simp: pending_preds_def)
    moreover have "distinct (ins dag v)" using wf_node_ok [OF assms(1) v] by (simp add: node_ok_def)
    ultimately show ?thesis using assms(2) v by (simp add: degrees_ok_def distinct_card)
  qed
  then show ?thesis by (auto simp: kahn_inv_def init_indegree_def init_queue_def)
qed

lemma kahn_loop_correct:
  assumes wf: "jdag_wf dag" and deg: "degrees_ok dag"
    and r: "r = kahn_loop dag (init_indegree dag) (init_queue dag)"
  shows "length r = node_count dag \<longleftrightarrow> acyclic (dag_edges dag)" "acyclic (dag_edges dag) \<Longrightarrow> topo_order dag r"
proof -
  have o: "distinct r" "set r \<subseteq> {..<node_count dag}" "pred_ordered (dag_edges dag) {} r"
    "\<And>v. v < node_count dag \<Longrightarrow> v \<notin> set r \<Longrightarrow> pending_preds dag (set r) v \<noteq> {}"
    using kahn_loop_order [OF kahn_init [OF wf deg] wf] r by (auto simp: Let_def)
  have fwd: "i < length r \<Longrightarrow> j < length r \<Longrightarrow> (r ! i, r ! j) \<in> dag_edges dag \<Longrightarrow> i < j" for i j
    using pred_ordered_nth [OF o(3,1)] by simp
  have all: "length r = node_count dag \<longleftrightarrow> set r = {..<node_count dag}"
    using o(1,2) by (metis card_lessThan card_subset_eq distinct_card finite_lessThan)
  have full: "set r = {..<node_count dag}" if ac: "acyclic (dag_edges dag)"
  proof (rule ccontr)
    assume "set r \<noteq> {..<node_count dag}"
    then obtain v where "v \<in> {..<node_count dag} - set r" using o(2) by auto
    moreover have "wf (dag_edges dag)" using ac finite_edges [OF wf] by (simp add: finite_acyclic_wf)
    ultimately obtain z where z: "z \<in> {..<node_count dag} - set r"
      "\<And>y. (y, z) \<in> dag_edges dag \<Longrightarrow> y \<notin> {..<node_count dag} - set r"
      by (metis wfE_min)
    then obtain y where "(y, z) \<in> dag_edges dag" "y \<notin> set r" using o(4) [of z] by (auto simp: pending_preds_def)
    then show False using z(2) wf_edges [OF wf] by auto
  qed
  show "length r = node_count dag \<longleftrightarrow> acyclic (dag_edges dag)"
    using all full topo_order_edges(2) [OF wf o(1) _ fwd] by blast
  show "acyclic (dag_edges dag) \<Longrightarrow> topo_order dag r"
    using full topo_order_edges(1) [OF wf o(1) _ fwd] by blast
qed

section \<open>Depth-first search\<close>

definition greys :: "nat list \<Rightarrow> nat set" where
  "greys c = {u. u < length c \<and> c ! u = 1}"

definition dones :: "nat list \<Rightarrow> nat set" where
  "dones c = {u. u < length c \<and> c ! u \<noteq> 0 \<and> c ! u \<noteq> 1}"

definition dfs_post :: "jdag \<Rightarrow> nat list \<Rightarrow> nat list \<Rightarrow> nat list \<Rightarrow> nat list \<Rightarrow> bool" where
  "dfs_post dag vs c c' xs \<longleftrightarrow> (\<forall>r. dfs_loop dag vs c r = (c', ids_of dag xs @ r))
     \<and> distinct xs \<and> set xs \<subseteq> {..<node_count dag} \<and> set xs \<inter> (greys c \<union> dones c) = {}
     \<and> length c' = length c \<and> greys c' = greys c \<and> dones c' = dones c \<union> set xs
     \<and> set vs \<subseteq> dones c' \<and> succ_ordered (dag_edges dag) (dones c) xs"

lemma greys_update [simp]:
  "v < length c \<Longrightarrow> greys (c[v := Suc 0]) = insert v (greys c)"
  "v < length c \<Longrightarrow> greys (c[v := 2]) = greys c - {v}"
  by (auto simp: greys_def nth_list_update split: if_splits)

lemma dones_update [simp]:
  "v < length c \<Longrightarrow> dones (c[v := Suc 0]) = dones c - {v}"
  "v < length c \<Longrightarrow> dones (c[v := 2]) = insert v (dones c)"
  by (auto simp: dones_def nth_list_update split: if_splits)

lemma dfs_post_visit:
  assumes v: "v < node_count dag" "v < length c" "c ! v = 0"
    and inner: "dfs_post dag (outs dag v) (c[v := 1]) c1 xs1"
    and outer: "dfs_post dag vs (c1[v := 2]) c' xs2"
  shows "dfs_post dag (v # vs) c c' (xs2 @ v # xs1)"
proof -
  have vn: "v \<notin> greys c" "v \<notin> dones c" using v by (auto simp: greys_def dones_def)
  have i: "\<And>r. dfs_loop dag (outs dag v) (c[v := 1]) r = (c1, ids_of dag xs1 @ r)" "distinct xs1"
    "set xs1 \<subseteq> {..<node_count dag}" "set xs1 \<inter> (insert v (greys c) \<union> dones c) = {}" "length c1 = length c"
    "greys c1 = insert v (greys c)" "dones c1 = dones c \<union> set xs1" "set (outs dag v) \<subseteq> dones c1"
    "succ_ordered (dag_edges dag) (dones c) xs1"
    using inner v vn by (auto simp: dfs_post_def)
  have o: "\<And>r. dfs_loop dag vs (c1[v := 2]) r = (c', ids_of dag xs2 @ r)" "distinct xs2"
    "set xs2 \<subseteq> {..<node_count dag}" "set xs2 \<inter> (greys c \<union> insert v (dones c \<union> set xs1)) = {}" "length c' = length c"
    "greys c' = greys c" "dones c' = insert v (dones c \<union> set xs1) \<union> set xs2" "set vs \<subseteq> dones c'"
    "succ_ordered (dag_edges dag) (insert v (dones c \<union> set xs1)) xs2"
    using outer v vn i(5-7) by (auto simp: dfs_post_def)
  have run: "dfs_loop dag (v # vs) c r = (c', ids_of dag (xs2 @ v # xs1) @ r)" for r
    using v i(1) o(1) by simp
  have sv: "(v, w) \<in> dag_edges dag \<Longrightarrow> w \<in> set xs1 \<union> dones c" for w
    using i(7,8) by (auto simp: dag_edges_def)
  have "succ_ordered (dag_edges dag) (dones c) (xs2 @ v # xs1)"
    unfolding succ_ordered_append using o(9) i(9) sv by simp
  then show ?thesis
    unfolding dfs_post_def using run i o v vn by auto
qed

lemma dfs_cycle_loop_False:
  "dfs_cycle_loop dag vs c = (c', False) \<Longrightarrow> jdag_wf dag \<Longrightarrow> node_count dag \<le> length c \<Longrightarrow>
   set vs \<subseteq> {..<node_count dag} \<Longrightarrow> \<exists>xs. dfs_post dag vs c c' xs"
proof (induction dag vs c arbitrary: c' rule: dfs_cycle_loop.induct)
  case (1 dag c)
  then show ?case by (intro exI [of _ "[]"]) (auto simp: dfs_post_def)
next
  case (2 dag v vs c)
  have v: "v < node_count dag" "v < length c" using "2.prems" by auto
  have ng: "c ! v \<noteq> 1" using "2.prems"(1) v by auto
  show ?case
  proof (cases "c ! v = 0")
    case True
    obtain c1 f where r: "dfs_cycle_loop dag (outs dag v) (c[v := 1]) = (c1, f)" by fastforce
    then have f: "\<not> f" "dfs_cycle_loop dag vs (c1[v := 2]) = (c', False)"
      using "2.prems"(1) v True by (auto split: if_splits)
    have "set (outs dag v) \<subseteq> {..<node_count dag}" using wf_outs_lt "2.prems"(2) v by auto
    then obtain xs1 where x1: "dfs_post dag (outs dag v) (c[v := 1]) c1 xs1"
      using "2.IH"(1) [of c1] r f(1) v True "2.prems"(2,3) by auto
    then have "length c1 = length c" by (simp add: dfs_post_def)
    then obtain xs2 where "dfs_post dag vs (c1[v := 2]) c' xs2"
      using "2.IH"(2) [OF _ _ r [symmetric], of c'] f v True "2.prems"(2-4) by auto
    then show ?thesis using dfs_post_visit [OF v True x1] by blast
  next
    case False
    then have "dfs_cycle_loop dag vs c = (c', False)" using "2.prems"(1) ng by simp
    then obtain xs where "dfs_post dag vs c c' xs" using "2.IH"(3) [of c'] False ng "2.prems"(2-4) by auto
    then show ?thesis
      using False ng v by (intro exI [of _ xs]) (auto simp: dfs_post_def dones_def)
  qed
qed

lemma dfs_cycle_loop_True:
  "dfs_cycle_loop dag vs c = (c', True) \<Longrightarrow> jdag_wf dag \<Longrightarrow> node_count dag \<le> length c \<Longrightarrow>
   set vs \<subseteq> {..<node_count dag} \<Longrightarrow> (\<And>g v. g \<in> greys c \<Longrightarrow> v \<in> set vs \<Longrightarrow> (g, v) \<in> (dag_edges dag)\<^sup>+) \<Longrightarrow>
   \<not> acyclic (dag_edges dag)"
proof (induction dag vs c arbitrary: c' rule: dfs_cycle_loop.induct)
  case (2 dag v vs c)
  have v: "v < node_count dag" "v < length c" using "2.prems" by auto
  consider (grey) "c ! v = 1" | (white) "c ! v = 0" | (black) "c ! v \<noteq> 0" "c ! v \<noteq> 1" by blast
  then show ?case
  proof cases
    case grey
    then have "(v, v) \<in> (dag_edges dag)\<^sup>+" using "2.prems"(5) [of v v] v by (simp add: greys_def)
    then show ?thesis by (auto simp: acyclic_def)
  next
    case white
    have sub: "set (outs dag v) \<subseteq> {..<node_count dag}" using wf_outs_lt "2.prems"(2) v by auto
    have reach: "(g, w) \<in> (dag_edges dag)\<^sup>+" if "g \<in> greys (c[v := 1])" "w \<in> set (outs dag v)" for g w
    proof -
      have e: "(v, w) \<in> dag_edges dag" using that v by (simp add: dag_edges_def)
      have "g = v \<or> g \<in> greys c" using that v by simp
      then show ?thesis using "2.prems"(5) [of g v] e by (auto intro: trancl_into_trancl)
    qed
    obtain c1 f where r: "dfs_cycle_loop dag (outs dag v) (c[v := 1]) = (c1, f)" by fastforce
    show ?thesis
    proof (cases f)
      case True
      then show ?thesis using "2.IH"(1) [of c1] r white v sub reach "2.prems"(2,3) by simp
    next
      case False
      then obtain xs where "dfs_post dag (outs dag v) (c[v := 1]) c1 xs"
        using dfs_cycle_loop_False [of dag "outs dag v" "c[v := 1]" c1] r sub "2.prems"(2,3) by auto
      then have p: "length c1 = length c" "greys (c1[v := 2]) = greys c"
        using v white by (auto simp: dfs_post_def greys_def [of c])
      have "dfs_cycle_loop dag vs (c1[v := 2]) = (c', True)" using "2.prems"(1) r False white v by simp
      then show ?thesis
        using "2.IH"(2) [OF _ _ r [symmetric] False, of c'] white v p "2.prems"(2-5) by auto
    qed
  next
    case black
    then show ?thesis using "2.IH"(3) [of c'] "2.prems" by auto
  qed
qed simp

lemma has_cycle_from_loop:
  "jdag_wf dag \<Longrightarrow> node_count dag \<le> length c \<Longrightarrow> set vs \<subseteq> {..<node_count dag} \<Longrightarrow> greys c = {} \<Longrightarrow>
   has_cycle_from dag vs c = snd (dfs_cycle_loop dag vs c)"
proof (induction dag vs c rule: has_cycle_from.induct)
  case (2 dag v vs c)
  have v: "v < node_count dag" "v < length c" using "2.prems" by auto
  have ng: "c ! v \<noteq> 1" using "2.prems"(4) v by (auto simp: greys_def)
  show ?case
  proof (cases "c ! v = 0")
    case True
    have sub: "set (outs dag v) \<subseteq> {..<node_count dag}" using wf_outs_lt "2.prems"(1) v by auto
    obtain c1 f where r: "dfs_cycle_loop dag (outs dag v) (c[v := 1]) = (c1, f)" by fastforce
    show ?thesis
    proof (cases f)
      case False
      then obtain xs where "dfs_post dag (outs dag v) (c[v := 1]) c1 xs"
        using dfs_cycle_loop_False [of dag "outs dag v" "c[v := 1]" c1] r sub "2.prems"(1,2) by auto
      then have p: "length c1 = length c" "greys (c1[v := 2]) = {}"
        using v "2.prems"(4) by (auto simp: dfs_post_def)
      have "dfs_cycle_detect dag v c = (c1[v := 2], False)" using r False by (simp add: dfs_cycle_detect_def)
      then show ?thesis
        using "2.IH"(1) [of "c1[v := 2]" False] True p v r False "2.prems" by simp
    qed (use True v r in \<open>simp add: dfs_cycle_detect_def\<close>)
  next
    case False
    then show ?thesis using "2.IH"(2) ng "2.prems" by simp
  qed
qed simp

lemma white_start [simp]: "greys (replicate n 0) = {}" "dones (replicate n 0) = {}"
  by (auto simp: greys_def dones_def)

lemma all_nodes_sub: "set [0..<n] \<subseteq> {..<n}"
  by auto

lemma white_len: "jdag_wf dag \<Longrightarrow> node_count dag \<le> length (replicate JDAG_MAX_NODES (0::nat))"
  using wf_bound by simp

lemma dfs_all_post:
  assumes wf: "jdag_wf dag" and p: "dfs_post dag [0..<node_count dag] (replicate JDAG_MAX_NODES 0) c' xs"
  shows "topo_order dag xs" "acyclic (dag_edges dag)"
proof -
  have x: "distinct xs" "set xs \<subseteq> {..<node_count dag}" "set [0..<node_count dag] \<subseteq> set xs"
    "succ_ordered (dag_edges dag) {} xs"
    using p by (auto simp: dfs_post_def)
  then have set: "set xs = {..<node_count dag}" by auto
  have "i < length xs \<Longrightarrow> j < length xs \<Longrightarrow> (xs ! i, xs ! j) \<in> dag_edges dag \<Longrightarrow> i < j" for i j
    using succ_ordered_nth [OF x(4,1)] by simp
  then show "topo_order dag xs" "acyclic (dag_edges dag)" using topo_order_edges [OF wf x(1) set] by blast+
qed

lemma cycle_loop_all:
  assumes wf: "jdag_wf dag"
  shows "snd (dfs_cycle_loop dag [0..<node_count dag] (replicate JDAG_MAX_NODES 0)) \<longleftrightarrow> \<not> acyclic (dag_edges dag)"
proof -
  note sub = all_nodes_sub [of "node_count dag"] and len = white_len [OF wf]
  obtain c' f where r: "dfs_cycle_loop dag [0..<node_count dag] (replicate JDAG_MAX_NODES 0) = (c', f)" by fastforce
  show ?thesis
  proof (cases f)
    case True
    then have "dfs_cycle_loop dag [0..<node_count dag] (replicate JDAG_MAX_NODES 0) = (c', True)" using r by simp
    from dfs_cycle_loop_True [OF this wf len sub] show ?thesis using True r by simp
  next
    case False
    then have "dfs_cycle_loop dag [0..<node_count dag] (replicate JDAG_MAX_NODES 0) = (c', False)" using r by simp
    from dfs_cycle_loop_False [OF this wf len sub]
    obtain xs where "dfs_post dag [0..<node_count dag] (replicate JDAG_MAX_NODES 0) c' xs" by blast
    then show ?thesis using dfs_all_post(2) [OF wf] r False by simp
  qed
qed

section \<open>Properties of the orderings\<close>

lemma fresh_degrees: "jdag_fresh dag \<Longrightarrow> degrees_ok dag"
  by (simp add: jdag_fresh_def degrees_ok_def)

text \<open>C3. Kahn's algorithm decides acyclicity and sorts, before any job is completed: on a consistent graph whose
  stored in-degrees still count the incoming edges, with room for the result, it returns the number of nodes and the
  node ids in an order in which every edge goes forward if the graph is acyclic, and -2 if it has a cycle.  Once
  \<open>jdag_mark_completed\<close> has lowered the in-degrees the order can be wrong (\<open>orders_after_completion\<close>).\<close>

theorem kahn_sorts:
  assumes "jdag_wf dag" "degrees_ok dag" "int (node_count dag) \<le> mx"
  shows "if acyclic (dag_edges dag)
         then \<exists>xs. topo_order dag xs \<and> jdag_topological_sort_kahn dag mx = (int (node_count dag), ids_of dag xs)
         else fst (jdag_topological_sort_kahn dag mx) = -2"
proof -
  let ?r = "kahn_loop dag (init_indegree dag) (init_queue dag)"
  note k = kahn_loop_correct [OF assms(1,2) refl]
  show ?thesis
  proof (cases "acyclic (dag_edges dag)")
    case True
    then have "jdag_topological_sort_kahn dag mx = (int (node_count dag), ids_of dag ?r)"
      using k(1) assms(3) by (simp add: jdag_topological_sort_kahn_def Let_def)
    then show ?thesis using k(2) True by auto
  next
    case False
    then show ?thesis using k(1) assms(3) by (simp add: jdag_topological_sort_kahn_def Let_def)
  qed
qed

theorem kahn_sorts_witness:
  "jdag_wf diamond \<and> degrees_ok diamond \<and>
   (\<exists>xs. topo_order diamond xs \<and> jdag_topological_sort_kahn diamond 8 = (4, ids_of diamond xs))"
proof -
  have n: "node_count diamond = 4" by code_simp
  show ?thesis
    using kahn_sorts [of diamond 8] diamond_inv fresh_degrees [of diamond] n by (simp add: jdag_inv_def)
qed

text \<open>The depth-first sort of any graph built through the interface returns all node ids in an order
  in which every edge goes forward.\<close>

theorem dfs_sorts:
  assumes "jdag_inv dag" "int (node_count dag) \<le> mx"
  shows "\<exists>xs. topo_order dag xs \<and> jdag_topological_sort_dfs dag mx = (int (node_count dag), ids_of dag xs)"
proof -
  have wf: "jdag_wf dag" "acyclic (dag_edges dag)" using assms(1) by (auto simp: jdag_inv_def)
  have "\<not> snd (dfs_cycle_loop dag [0..<node_count dag] (replicate JDAG_MAX_NODES 0))"
    using cycle_loop_all [OF wf(1)] wf(2) by simp
  then obtain c' where "dfs_cycle_loop dag [0..<node_count dag] (replicate JDAG_MAX_NODES 0) = (c', False)"
    by (metis prod.collapse)
  then obtain xs where p: "dfs_post dag [0..<node_count dag] (replicate JDAG_MAX_NODES 0) c' xs"
    using dfs_cycle_loop_False [OF _ wf(1) white_len [OF wf(1)] all_nodes_sub] by blast
  then have "dfs_loop dag [0..<node_count dag] (replicate JDAG_MAX_NODES 0) [] = (c', ids_of dag xs)"
    by (simp add: dfs_post_def)
  then show ?thesis
    using dfs_all_post(1) [OF wf(1) p] assms(2) by (auto simp: jdag_topological_sort_dfs_def)
qed

theorem dfs_sorts_witness:
  "jdag_inv diamond \<and>
   (\<exists>xs. topo_order diamond xs \<and> jdag_topological_sort_dfs diamond 4 = (4, ids_of diamond xs))"
proof -
  have n: "node_count diamond = 4" by code_simp
  show ?thesis using dfs_sorts [of diamond 4] diamond_inv n by simp
qed

text \<open>The back-edge search reports a cycle exactly when the graph has one, for every consistent
  graph.\<close>

theorem has_cycle_exact:
  assumes "jdag_wf dag"
  shows "jdag_has_cycle dag \<longleftrightarrow> \<not> acyclic (dag_edges dag)"
proof (cases "node_count dag = 0")
  case True
  then show ?thesis by (simp add: jdag_has_cycle_def dag_edges_def acyclic_def)
next
  case False
  then show ?thesis
    using has_cycle_from_loop [OF assms white_len [OF assms] all_nodes_sub] cycle_loop_all [OF assms]
    by (simp add: jdag_has_cycle_def)
qed

definition two_cycle :: jdag where
  "two_cycle = (let nd = (\<lambda>i es. \<lparr>jn_id = i, jn_name = [], jn_state = JDAG_NODE_PENDING, indegree = 1,
       outdegree = 1, in_edges = es, out_edges = es, jn_priority = 0, scheduled_at = 0, jn_started_at = 0,
       jn_completed_at = 0, jn_userdata = NULL\<rparr>)
     in \<lparr>nodes = [nd 1 [1], nd 2 [0]], max_nodes = 128, edge_count = 2\<rparr>)"

theorem has_cycle_exact_witness:
  "jdag_wf two_cycle \<and> jdag_has_cycle two_cycle \<and> \<not> acyclic (dag_edges two_cycle)"
proof -
  have "jdag_wf two_cycle" "jdag_has_cycle two_cycle" by code_simp+
  then show ?thesis using has_cycle_exact [of two_cycle] by simp
qed

section \<open>Longest paths\<close>

fun dag_path :: "jdag \<Rightarrow> nat list \<Rightarrow> bool" where
  "dag_path dag [] = False"
| "dag_path dag [v] = (v < node_count dag)"
| "dag_path dag (u # v # p) = ((u, v) \<in> dag_edges dag \<and> dag_path dag (v # p))"

lemma dag_path_snoc:
  "dag_path dag p \<Longrightarrow> (last p, v) \<in> dag_edges dag \<Longrightarrow> v < node_count dag \<Longrightarrow> dag_path dag (p @ [v])"
  by (induction dag p rule: dag_path.induct) auto

lemma dag_path_snocD:
  "dag_path dag (p @ [v]) \<Longrightarrow> p \<noteq> [] \<Longrightarrow> dag_path dag p \<and> (last p, v) \<in> dag_edges dag"
  by (induction dag p rule: dag_path.induct) (auto simp: dag_edges_def)

lemma dag_path_last: "jdag_wf dag \<Longrightarrow> dag_path dag p \<Longrightarrow> last p < node_count dag"
  by (induction dag p rule: dag_path.induct) auto

definition dist_inv :: "jdag \<Rightarrow> nat \<Rightarrow> nat set \<Rightarrow> nat list \<Rightarrow> nat \<Rightarrow> bool" where
  "dist_inv dag d0 D ds mx \<longleftrightarrow> length ds = node_count dag
     \<and> (\<forall>v < node_count dag. d0 \<le> ds ! v \<longrightarrow> (\<exists>p. dag_path dag p \<and> last p = v \<and> length p + d0 = ds ! v + 1))
     \<and> (\<forall>u \<in> D. \<forall>v \<in> set (outs dag u). ds ! u + 1 \<le> ds ! v)
     \<and> (\<forall>v < node_count dag. pending_preds dag {} v = {} \<longrightarrow> d0 \<le> ds ! v)
     \<and> (\<forall>u \<in> D. ds ! u \<le> mx) \<and> (mx = 0 \<or> (\<exists>u \<in> D. mx = ds ! u))"

lemma dist_relax_eq:
  "set vs \<subseteq> {..<length indeg} \<Longrightarrow> length ds = length indeg \<Longrightarrow> u \<notin> set vs \<Longrightarrow>
   (\<forall>v < length indeg. fst (dist_relax u vs ds indeg q) ! v = (if v \<in> set vs then max (ds ! v) (ds ! u + 1) else ds ! v))
   \<and> length (fst (dist_relax u vs ds indeg q)) = length ds"
proof (induction u vs ds indeg q rule: dist_relax.induct)
  case (2 u v vs ds indeg q)
  have v: "v < length indeg" "u \<noteq> v" using "2.prems" by auto
  show ?case
    using "2.IH"(1) [OF v(1) refl refl] "2.prems" v
    by (auto simp: Let_def nth_list_update max_def split: if_splits)
qed simp

lemma kahn_done_preds:
  assumes "jdag_wf dag" "kahn_inv dag D indeg q" "v \<in> D \<union> set q"
  shows "pending_preds dag D v = {}"
proof -
  have "v < node_count dag" "indeg ! v = 0" using assms(2,3) by (auto simp: kahn_inv_def)
  then have "card (pending_preds dag D v) = 0" using assms(2) by (auto simp: kahn_inv_def)
  then show ?thesis using finite_pending [OF assms(1)] by simp
qed

lemma dist_step_inv:
  assumes wf: "jdag_wf dag" and kinv: "kahn_inv dag D indeg (u # q)" and inv: "dist_inv dag d0 D ds mx"
    and r: "dist_relax u (outs dag u) ds indeg q = (ds', indeg', q')" and d0: "d0 \<le> 1"
  shows "dist_inv dag d0 (insert u D) ds' (max mx (ds ! u))"
proof -
  have u: "u < node_count dag" "u \<notin> D" using kinv by (auto simp: kahn_inv_def)
  have o: "set (outs dag u) \<subseteq> {..<node_count dag}" using wf_outs_lt [OF wf u(1)] by auto
  have pu: "pending_preds dag D u = {}" using kahn_done_preds [OF wf kinv] by simp
  have fresh: "v \<notin> insert u D" if "v \<in> set (outs dag u)" for v
  proof
    assume "v \<in> insert u D"
    then have "pending_preds dag D v = {}" using kahn_done_preds [OF wf kinv, of v] by auto
    moreover have "u \<in> pending_preds dag D v" using u that by (simp add: pending_preds_def dag_edges_def)
    ultimately show False by simp
  qed
  have len: "length indeg = node_count dag" using kinv by (simp add: kahn_inv_def)
  note i = inv [unfolded dist_inv_def]
  have uu: "u \<notin> set (outs dag u)" using fresh by blast
  have ds': "length ds' = node_count dag"
    "\<And>v. v < node_count dag \<Longrightarrow> ds' ! v = (if v \<in> set (outs dag u) then max (ds ! v) (ds ! u + 1) else ds ! v)"
    using dist_relax_eq [of "outs dag u" indeg ds u q] r o len conjunct1 [OF i] uu by auto
  have du: "d0 \<le> ds ! u"
  proof (cases "pending_preds dag {} u = {}")
    case False
    then obtain w where "w \<in> D" "u \<in> set (outs dag w)" using pu by (auto simp: pending_preds_def dag_edges_def)
    then show ?thesis using i d0 by force
  qed (use i u in auto)
  obtain p where p: "dag_path dag p" "last p = u" "length p + d0 = ds ! u + 1" using i u du by blast
  have same: "ds' ! w = ds ! w" if "w \<in> insert u D" for w
  proof -
    have "w < node_count dag" using that u kinv by (auto simp: kahn_inv_def)
    then show ?thesis using ds'(2) [of w] fresh that by auto
  qed
  have paths: "\<exists>p. dag_path dag p \<and> last p = v \<and> length p + d0 = ds' ! v + 1" if v: "v < node_count dag" "d0 \<le> ds' ! v" for v
  proof (cases "ds' ! v = ds ! v")
    case False
    then have "v \<in> set (outs dag u)" "ds' ! v = ds ! u + 1" using ds'(2) [OF v(1)] by (auto split: if_splits)
    then show ?thesis
      using dag_path_snoc [OF p(1), of v] p v u by (intro exI [of _ "p @ [v]"]) (auto simp: dag_edges_def)
  qed (use i v in auto)
  have edge: "ds' ! w + 1 \<le> ds' ! v" if "w \<in> insert u D" "v \<in> set (outs dag w)" for w v
  proof -
    have "w < node_count dag" using that u kinv by (auto simp: kahn_inv_def)
    then have "v < node_count dag" using wf_outs_lt [OF wf] that by blast
    then have v: "ds ! v \<le> ds' ! v" "v \<in> set (outs dag u) \<Longrightarrow> ds ! u + 1 \<le> ds' ! v" using ds'(2) [of v] by auto
    have "w \<in> D \<Longrightarrow> ds ! w + 1 \<le> ds ! v" using i that by blast
    then show ?thesis using that v same [OF that(1)] by auto
  qed
  have "\<forall>w \<in> insert u D. ds' ! w \<le> max mx (ds ! u)" using i same by (auto simp: max_def intro: le_trans)
  moreover have "max mx (ds ! u) = 0 \<or> (\<exists>w \<in> insert u D. max mx (ds ! u) = ds' ! w)"
    using i same by (auto simp: max_def)
  moreover have "d0 \<le> ds' ! v" if "v < node_count dag" "pending_preds dag {} v = {}" for v
    using i that ds'(2) [OF that(1)] by auto
  ultimately show ?thesis unfolding dist_inv_def using ds'(1) paths edge by blast
qed

lemma dist_loop_post:
  "kahn_inv dag D indeg q \<Longrightarrow> dist_inv dag d0 D ds mx \<Longrightarrow> jdag_wf dag \<Longrightarrow> d0 \<le> 1 \<Longrightarrow>
   dist_inv dag d0 (D \<union> set (kahn_loop dag indeg q)) (fst (dist_loop dag ds indeg q mx)) (snd (dist_loop dag ds indeg q mx))"
proof (induction dag ds indeg q mx arbitrary: D rule: dist_loop.induct)
  case (2 dag ds indeg u q mx)
  obtain ds' indeg' q' where r: "dist_relax u (outs dag u) ds indeg q = (ds', indeg', q')" by (metis prod_cases3)
  then have k: "kahn_relax (outs dag u) indeg q = (indeg', q')"
    using dist_relax_kahn [of u "outs dag u" ds indeg q] by simp
  have m: "(if ds ! u > mx then ds ! u else mx) = max mx (ds ! u)" by simp
  have "dist_inv dag d0 (insert u D \<union> set (kahn_loop dag indeg' q'))
      (fst (dist_loop dag ds' indeg' q' (max mx (ds ! u)))) (snd (dist_loop dag ds' indeg' q' (max mx (ds ! u))))"
    using "2.IH" [OF r [symmetric] refl kahn_step_inv [OF "2.prems"(3,1) k]]
      dist_step_inv [OF "2.prems"(3,1,2) r "2.prems"(4)] "2.prems"(3,4) m by simp
  then show ?case using r k m by (simp add: insert_commute)
qed simp

lemma dist_init:
  assumes "jdag_wf dag" "degrees_ok dag" "d0 \<le> 1"
  shows "dist_inv dag d0 {} (init_dist dag d0) 0"
proof -
  have z: "indegree (nodes dag ! v) = 0 \<longleftrightarrow> pending_preds dag {} v = {}" if "v < node_count dag" for v
    using kahn_init [OF assms(1,2)] that finite_pending [OF assms(1), of "{}" v]
    by (auto simp: kahn_inv_def init_indegree_def)
  have "\<exists>p. dag_path dag p \<and> last p = v \<and> length p + d0 = init_dist dag d0 ! v + 1"
    if "v < node_count dag" "d0 \<le> init_dist dag d0 ! v" for v
    using that assms(3) by (intro exI [of _ "[v]"]) (auto simp: init_dist_def split: if_splits)
  then show ?thesis using z by (auto simp: dist_inv_def init_dist_def)
qed

lemma dist_inv_upper:
  assumes "dist_inv dag d0 {..<node_count dag} ds mx" "jdag_wf dag" "d0 \<le> 1"
  shows "dag_path dag p \<Longrightarrow> length p + d0 \<le> ds ! last p + 1"
proof (induction p rule: rev_induct)
  case (snoc v p)
  have v: "v < node_count dag" using dag_path_last [OF assms(2) snoc.prems] by simp
  show ?case
  proof (cases "p = []")
    case True
    have "d0 \<le> ds ! v"
    proof (cases "pending_preds dag {} v = {}")
      case False
      then obtain w where "w < node_count dag" "v \<in> set (outs dag w)" by (auto simp: pending_preds_def dag_edges_def)
      then show ?thesis using assms(1,3) by (force simp: dist_inv_def)
    qed (use assms(1) v in \<open>simp add: dist_inv_def\<close>)
    then show ?thesis using True by simp
  next
    case False
    then have "dag_path dag p" "(last p, v) \<in> dag_edges dag" using dag_path_snocD [OF snoc.prems] by auto
    then have "length p + d0 \<le> ds ! last p + 1" "ds ! last p + 1 \<le> ds ! v"
      using snoc.IH assms(1) by (auto simp: dist_inv_def dag_edges_def)
    then show ?thesis by simp
  qed
qed simp

lemma dist_loop_longest:
  assumes wf: "jdag_inv dag" "degrees_ok dag" and d0: "d0 \<le> 1" and ne: "node_count dag > 0"
    and r: "dist_loop dag (init_dist dag d0) (init_indegree dag) (init_queue dag) 0 = (ds, mx)"
  shows "dist_inv dag d0 {..<node_count dag} ds mx" "\<exists>p. dag_path dag p \<and> length p + d0 = mx + 1"
    "\<forall>p. dag_path dag p \<longrightarrow> length p + d0 \<le> mx + 1"
proof -
  have w: "jdag_wf dag" "acyclic (dag_edges dag)" using wf(1) by (auto simp: jdag_inv_def)
  have "set (kahn_loop dag (init_indegree dag) (init_queue dag)) = {..<node_count dag}"
    using kahn_loop_correct(2) [OF w(1) wf(2) refl w(2)] by (simp add: topo_order_def)
  then show inv: "dist_inv dag d0 {..<node_count dag} ds mx"
    using dist_loop_post [OF kahn_init [OF w(1) wf(2)] dist_init [OF w(1) wf(2) d0] w(1) d0] r by simp
  have up: "dag_path dag p \<Longrightarrow> length p + d0 \<le> ds ! last p + 1" for p using dist_inv_upper [OF inv w(1) d0] .
  show "\<forall>p. dag_path dag p \<longrightarrow> length p + d0 \<le> mx + 1"
  proof safe
    fix p assume p: "dag_path dag p"
    then have "ds ! last p \<le> mx" using inv dag_path_last [OF w(1) p] by (simp add: dist_inv_def)
    then show "length p + d0 \<le> mx + 1" using up [OF p] by simp
  qed
  have "d0 \<le> ds ! u" if "u < node_count dag" for u using up [of "[u]"] that by simp
  moreover have "\<exists>u < node_count dag. mx = ds ! u"
  proof (cases "mx = 0")
    case True
    then show ?thesis using inv ne by (auto simp: dist_inv_def)
  qed (use inv in \<open>auto simp: dist_inv_def\<close>)
  ultimately obtain u where u: "u < node_count dag" "mx = ds ! u" "d0 \<le> ds ! u" by auto
  then have "\<exists>p. dag_path dag p \<and> last p = u \<and> length p + d0 = ds ! u + 1"
    using inv by (simp add: dist_inv_def)
  then show "\<exists>p. dag_path dag p \<and> length p + d0 = mx + 1" using u(2) by auto
qed

text \<open>C36. On an acyclic graph with a node, none of whose jobs has been started or completed, \<open>jdag_critical_path_length\<close> is the
  number of nodes on a longest path: some path has that many nodes and no path has more.  After a completion the
  length can be too small (\<open>orders_after_completion\<close>).\<close>

theorem critical_path_longest:
  assumes "jdag_inv dag" "jdag_fresh dag" "nodes dag \<noteq> []"
  shows "(\<exists>p. dag_path dag p \<and> length p = jdag_critical_path_length (Some dag))
    \<and> (\<forall>p. dag_path dag p \<longrightarrow> length p \<le> jdag_critical_path_length (Some dag))"
proof -
  obtain ds mx where r: "dist_loop dag (init_dist dag 1) (init_indegree dag) (init_queue dag) 0 = (ds, mx)"
    by fastforce
  then have "jdag_critical_path_length (Some dag) = mx"
    using assms(3) by (simp add: jdag_critical_path_length_def)
  then show ?thesis
    using dist_loop_longest(2,3) [OF assms(1) fresh_degrees [OF assms(2)] _ _ r] assms(3) by simp
qed

theorem critical_path_longest_witness:
  "jdag_inv diamond \<and> jdag_fresh diamond \<and> jdag_critical_path_length (Some diamond) = 3
   \<and> (\<exists>p. dag_path diamond p \<and> length p = 3)"
proof -
  have "nodes diamond \<noteq> []" "jdag_critical_path_length (Some diamond) = 3" by code_simp+
  then show ?thesis using critical_path_longest [OF diamond_inv] diamond_inv by simp
qed

lemma place_nodes_Some:
  assumes "\<forall>i \<in> set is. ds ! i < length next_pos"
  shows "\<exists>r'. place_nodes dag ds is next_pos r = Some r'"
  using assms by (induction dag ds "is" next_pos r rule: place_nodes.induct) (auto simp: Let_def)

lemma length_level_bounds [simp]: "length (level_bounds pos cs) = length cs"
  by (induction pos cs rule: level_bounds.induct) auto

text \<open>\<open>jdag_get_levels\<close> never reads an uninitialised position and, given room for the result, its
  number of levels is the critical path length.\<close>

theorem levels_count_critical_path:
  assumes "jdag_inv dag" "jdag_fresh dag" "nodes dag \<noteq> []" "node_count dag \<le> length result"
  shows "\<exists>r bounds. jdag_get_levels dag result = Some (int (jdag_critical_path_length (Some dag)), r, bounds)
    \<and> length bounds = jdag_critical_path_length (Some dag)"
proof -
  note deg = fresh_degrees [OF assms(2)]
  obtain ds mx where r: "dist_loop dag (init_dist dag 0) (init_indegree dag) (init_queue dag) 0 = (ds, mx)"
    by fastforce
  obtain ds1 mx1 where r1: "dist_loop dag (init_dist dag 1) (init_indegree dag) (init_queue dag) 0 = (ds1, mx1)"
    by fastforce
  have l0: "dist_inv dag 0 {..<node_count dag} ds mx" "\<exists>p. dag_path dag p \<and> length p = mx + 1"
    "\<forall>p. dag_path dag p \<longrightarrow> length p \<le> mx + 1"
    using dist_loop_longest [OF assms(1) deg _ _ r] assms(3) by simp_all
  have l1: "\<exists>p. dag_path dag p \<and> length p = mx1" "\<forall>p. dag_path dag p \<longrightarrow> length p \<le> mx1"
    using dist_loop_longest(2,3) [OF assms(1) deg _ _ r1] assms(3) by simp_all
  have eq: "mx1 = mx + 1" using l0(2,3) l1 by (metis le_antisym)
  have crit: "jdag_critical_path_length (Some dag) = mx + 1"
    using r1 eq assms(3) by (simp add: jdag_critical_path_length_def)
  let ?b = "level_bounds 0 (map (count_list ds) [0..<mx + 1])"
  have "length (butlast (0 # ?b)) = mx + 1" by (simp only: length_butlast length_level_bounds list.size) simp
  then have "\<forall>i \<in> set [0..<node_count dag]. ds ! i < length (butlast (0 # ?b))"
    using l0(1) by (simp add: dist_inv_def less_Suc_eq_le del: butlast.simps upt_Suc)
  then obtain r' where "place_nodes dag ds [0..<node_count dag] (butlast (0 # ?b)) result = Some r'"
    using place_nodes_Some by blast
  then have "jdag_get_levels dag result = Some (int mx + 1, r', ?b)"
    using assms(4) r by (simp only: jdag_get_levels_def Let_def prod.case option.case) simp
  then show ?thesis using crit by auto
qed

theorem levels_count_critical_path_witness:
  "\<exists>r bounds. jdag_get_levels diamond [0, 0, 0, 0] = Some (3, r, bounds) \<and> length bounds = 3"
proof -
  have "nodes diamond \<noteq> []" "jdag_critical_path_length (Some diamond) = 3" "node_count diamond = 4" by code_simp+
  then show ?thesis using levels_count_critical_path [OF diamond_inv, of "[0, 0, 0, 0]"] by simp
qed

section \<open>After a completion\<close>

text \<open>The in-degrees that both algorithms start from are the stored ones, and \<open>jdag_mark_completed\<close> lowers them.  In the chain from 1
  over 2 to 3, once job 1 is completed, 2 is sorted before 1, and the critical path of three nodes gets the length 2.\<close>

definition started_chain :: jdag where
  "started_chain =
     (let add = (\<lambda>n d. fst (jdag_add_node d n None 0)); edge = (\<lambda>a b d. fst (jdag_add_edge d a b))
      in fst (jdag_mark_completed 7 (edge 2 3 (edge 1 2 (add 3 (add 1 (add 2 (the (jdag_create True 8))))))) 1))"

lemma orders_after_completion:
  "jdag_topological_sort_kahn started_chain 8 = (3, [2, 1, 3]) \<and> jdag_critical_path_length (Some started_chain) = 2"
  by code_simp

end
