(* ===== verification/Dag_Exec.thy ===== *)
theory Dag_Exec
  imports Dag_Order
begin

text \<open>
  Executing a graph of \<open>job_dag.c\<close>: repeatedly completing a node that \<open>jdag_get_ready_nodes\<close> reports.
  The in-degree then counts the predecessors not yet completed, a node is ready exactly when all of
  them are, and the execution can only stop when every node is completed.
\<close>

section \<open>Executions\<close>

inductive dag_exec :: "jdag \<Rightarrow> u64 list \<Rightarrow> jdag \<Rightarrow> bool" for d0 where
  exec_start: "dag_exec d0 [] d0"
| exec_complete: "dag_exec d0 ids d \<Longrightarrow> nid \<in> set (jdag_get_ready_nodes d mx) \<Longrightarrow>
    dag_exec d0 (ids @ [nid]) (fst (jdag_mark_completed t d nid))"

definition ready_nodes :: "jdag \<Rightarrow> u64 list" where
  "ready_nodes d = jdag_get_ready_nodes d (int (node_count d))"

section \<open>Completing a node\<close>

lemma fold_dec_indegree:
  "distinct vs \<Longrightarrow> set vs \<subseteq> {..<node_count d} \<Longrightarrow>
   node_count (fold dec_indegree vs d) = node_count d
   \<and> (\<forall>u < node_count d. jn_state (nodes (fold dec_indegree vs d) ! u) = jn_state (nodes d ! u)
       \<and> indegree (nodes (fold dec_indegree vs d) ! u) =
         indegree (nodes d ! u) - (if u \<in> set vs \<and> indegree (nodes d ! u) > 0 then 1 else 0))"
proof (induction vs arbitrary: d)
  case (Cons v vs)
  have v: "v < node_count d" "v \<notin> set vs" using Cons.prems by auto
  have d1: "node_count (dec_indegree v d) = node_count d"
    "u < node_count d \<Longrightarrow> jn_state (nodes (dec_indegree v d) ! u) = jn_state (nodes d ! u)"
    "u < node_count d \<Longrightarrow> indegree (nodes (dec_indegree v d) ! u) =
       indegree (nodes d ! u) - (if u = v \<and> indegree (nodes d ! u) > 0 then 1 else 0)" for u
    using v by (auto simp: dec_indegree_def nth_list_update)
  show ?case using Cons.IH [of "dec_indegree v d"] Cons.prems v d1 by auto
qed simp

lemma mark_completed_facts:
  assumes wf: "jdag_wf d" and idx: "idx < node_count d" "jn_id (nodes d ! idx) = nid"
    and d': "d' = fst (jdag_mark_completed t d nid)" and u: "u < node_count d" and ns: "idx \<notin> set (outs d idx)"
  shows "jn_state (nodes d' ! u) = (if u = idx then JDAG_NODE_COMPLETED else jn_state (nodes d ! u))"
    "indegree (nodes d' ! u) = indegree (nodes d ! u) - (if u \<in> set (outs d idx) \<and> indegree (nodes d ! u) > 0 then 1 else 0)"
proof -
  let ?d1 = "upd_node idx (\<lambda>n. n\<lparr>jn_state := JDAG_NODE_COMPLETED, jn_completed_at := t\<rparr>) d"
  have f: "find_node d nid = Some idx" using find_node_nth [OF wf idx(1)] idx(2) by simp
  have o: "outs ?d1 idx = outs d idx" using idx by simp
  have e: "d' = fold dec_indegree (outs d idx) ?d1"
    using f d' o by (simp add: jdag_mark_completed_def Let_def)
  have ok: "distinct (outs d idx)" "set (outs d idx) \<subseteq> {..<node_count d}"
    using wf_node_ok [OF wf idx(1)] by (auto simp: node_ok_def)
  have n1: "jn_state (nodes ?d1 ! u) = (if u = idx then JDAG_NODE_COMPLETED else jn_state (nodes d ! u))"
    "indegree (nodes ?d1 ! u) = indegree (nodes d ! u)"
    using u idx by (auto simp: nth_list_update)
  show "jn_state (nodes d' ! u) = (if u = idx then JDAG_NODE_COMPLETED else jn_state (nodes d ! u))"
    "indegree (nodes d' ! u) = indegree (nodes d ! u) - (if u \<in> set (outs d idx) \<and> indegree (nodes d ! u) > 0 then 1 else 0)"
    unfolding e using fold_dec_indegree [of "outs d idx" ?d1] ok u n1 by (auto split: if_splits)
qed

section \<open>Invariant of executions\<close>

definition exec_inv :: "jdag \<Rightarrow> nat list \<Rightarrow> jdag \<Rightarrow> bool" where
  "exec_inv d0 xs d \<longleftrightarrow> dag_shape d = dag_shape d0 \<and> distinct xs \<and> set xs \<subseteq> {..<node_count d0}
     \<and> pred_ordered (dag_edges d0) {} xs
     \<and> (\<forall>u < node_count d0. jn_state (nodes d ! u) = (if u \<in> set xs then JDAG_NODE_COMPLETED else JDAG_NODE_PENDING)
          \<and> indegree (nodes d ! u) = int (card (pending_preds d0 (set xs) u)))"

lemma pred_ordered_snoc:
  "pred_ordered E K (xs @ [x]) \<longleftrightarrow> pred_ordered E K xs \<and> (\<forall>w. (w, x) \<in> E \<longrightarrow> w \<in> K \<union> set xs)"
  by (induction xs arbitrary: K) auto

lemma shape_ids: "dag_shape d = dag_shape d0 \<Longrightarrow> u < node_count d0 \<Longrightarrow> jn_id (nodes d ! u) = jn_id (nodes d0 ! u)"
  using dag_shape_eqD(1,3) [of d d0] by (metis nth_map)

lemma ready_iff:
  assumes wf: "jdag_wf d0" and inv: "exec_inv d0 xs d"
  shows "nid \<in> set (ready_nodes d) \<longleftrightarrow>
    (\<exists>u < node_count d0. nid = jn_id (nodes d0 ! u) \<and> u \<notin> set xs \<and> pending_preds d0 (set xs) u = {})"
proof -
  have sh: "dag_shape d = dag_shape d0" using inv by (simp add: exec_inv_def)
  have n: "node_count d = node_count d0" using dag_shape_eqD(1) [OF sh] .
  have "set (ready_nodes d) = (\<lambda>u. jn_id (nodes d ! u)) ` {u. u < node_count d \<and>
      jn_state (nodes d ! u) = JDAG_NODE_PENDING \<and> indegree (nodes d ! u) = 0}"
  proof -
    have "length (filter P (nodes d)) \<le> node_count d" for P by simp
    then show ?thesis by (fastforce simp: ready_nodes_def jdag_get_ready_nodes_def in_set_conv_nth)
  qed
  then have "nid \<in> set (ready_nodes d) \<longleftrightarrow> (\<exists>u < node_count d0. nid = jn_id (nodes d0 ! u)
      \<and> jn_state (nodes d ! u) = JDAG_NODE_PENDING \<and> indegree (nodes d ! u) = 0)"
    using shape_ids [OF sh] n by auto
  also have "\<dots> \<longleftrightarrow> (\<exists>u < node_count d0. nid = jn_id (nodes d0 ! u) \<and> u \<notin> set xs \<and> pending_preds d0 (set xs) u = {})"
    using inv finite_pending [OF wf] by (auto simp: exec_inv_def)
  finally show ?thesis .
qed

lemma ready_sub: "set (jdag_get_ready_nodes d mx) \<subseteq> set (ready_nodes d)"
proof -
  have "length (map jn_id (filter P (nodes d))) \<le> node_count d" for P by simp
  then show ?thesis by (auto simp: ready_nodes_def jdag_get_ready_nodes_def dest: in_set_takeD)
qed

lemma exec_step_inv:
  assumes wf: "jdag_inv d0" and inv: "exec_inv d0 xs d"
    and u: "u < node_count d0" "u \<notin> set xs" "pending_preds d0 (set xs) u = {}"
  shows "exec_inv d0 (xs @ [u]) (fst (jdag_mark_completed t d (jn_id (nodes d0 ! u))))"
proof -
  let ?d' = "fst (jdag_mark_completed t d (jn_id (nodes d0 ! u)))"
  have w0: "jdag_wf d0" "acyclic (dag_edges d0)" using wf by (auto simp: jdag_inv_def)
  have i: "dag_shape d = dag_shape d0" "distinct xs" "set xs \<subseteq> {..<node_count d0}" "pred_ordered (dag_edges d0) {} xs"
    "\<And>v. v < node_count d0 \<Longrightarrow> jn_state (nodes d ! v) = (if v \<in> set xs then JDAG_NODE_COMPLETED else JDAG_NODE_PENDING)"
    "\<And>v. v < node_count d0 \<Longrightarrow> indegree (nodes d ! v) = int (card (pending_preds d0 (set xs) v))"
    using inv by (auto simp: exec_inv_def)
  have n: "node_count d = node_count d0" using dag_shape_eqD(1) [OF i(1)] .
  have o: "outs d u = outs d0 u" using dag_shape_eqD(4) [OF i(1)] u n by simp
  have self: "u \<notin> set (outs d u)" using w0(2) u(1) o by (auto simp: acyclic_def dag_edges_def)
  have wfd: "jdag_wf d" using dag_shape_inv(1) [OF i(1)] w0(1) by simp
  note m = mark_completed_facts [OF wfd _ shape_ids [OF i(1) u(1)] refl _ self, where t = t]
  have st: "jn_state (nodes ?d' ! v) = (if v \<in> set (xs @ [u]) then JDAG_NODE_COMPLETED else JDAG_NODE_PENDING)"
    if "v < node_count d0" for v
    using m(1) [of v] that u(1) n i(5) [OF that] by auto
  have deg: "indegree (nodes ?d' ! v) = int (card (pending_preds d0 (set (xs @ [u])) v))" if "v < node_count d0" for v
  proof -
    have "int (card (pending_preds d0 (set (xs @ [u])) v)) = int (card (pending_preds d0 (set xs) v)) - (if v \<in> set (outs d0 u) then 1 else 0)"
      using pending_insert [OF w0(1) u(2,1), of v] by simp
    moreover have "card (pending_preds d0 (set xs) v) > 0" if "v \<in> set (outs d0 u)"
    proof -
      have "u \<in> pending_preds d0 (set xs) v" using that u by (simp add: pending_preds_def dag_edges_def)
      then show ?thesis using finite_pending [OF w0(1), of "set xs" v] card_gt_0_iff by blast
    qed
    ultimately show ?thesis using m(2) [of v] that u(1) n i(6) [OF that] o by auto
  qed
  have "\<forall>w. (w, u) \<in> dag_edges d0 \<longrightarrow> w \<in> set xs" using u(3) by (auto simp: pending_preds_def)
  moreover have "dag_shape ?d' = dag_shape d0" using mark_completed_shape i(1) by metis
  ultimately show ?thesis
    unfolding exec_inv_def using st deg i(2-4) u(1,2) by (simp add: pred_ordered_snoc)
qed

lemma exec_reaches_inv:
  assumes "dag_exec d0 ids d" "jdag_inv d0" "jdag_fresh d0"
  shows "\<exists>xs. ids = ids_of d0 xs \<and> exec_inv d0 xs d"
  using assms(1)
proof induction
  case exec_start
  have w: "jdag_wf d0" using assms(2) by (simp add: jdag_inv_def)
  have "indegree (nodes d0 ! u) = int (card (pending_preds d0 {} u))" if "u < node_count d0" for u
    using kahn_init [OF w fresh_degrees [OF assms(3)]] that by (simp add: kahn_inv_def init_indegree_def)
  then have "exec_inv d0 [] d0" using assms(3) by (simp add: exec_inv_def jdag_fresh_def)
  then show ?case by (intro exI [of _ "[]"]) simp
next
  case (exec_complete ids d nid mx t)
  have w: "jdag_wf d0" using assms(2) by (simp add: jdag_inv_def)
  obtain xs where xs: "ids = ids_of d0 xs" "exec_inv d0 xs d" using exec_complete.IH by blast
  have "nid \<in> set (ready_nodes d)" using exec_complete.hyps(2) ready_sub by blast
  then obtain u where u: "u < node_count d0" "nid = jn_id (nodes d0 ! u)" "u \<notin> set xs" "pending_preds d0 (set xs) u = {}"
    using ready_iff [OF w xs(2)] by auto
  then show ?case
    using exec_step_inv [OF assms(2) xs(2) u(1,3,4)] xs(1) by (intro exI [of _ "xs @ [u]"]) simp
qed

section \<open>Properties\<close>

text \<open>C9. An execution of a graph built through the interface that completes only nodes reported ready
  can always go on until it has completed every node: when no node is ready any more, the completed
  ids are all the nodes of the graph, in a topological order.\<close>

theorem exec_completes:
  assumes "jdag_inv d0" "jdag_fresh d0" "dag_exec d0 ids d"
  shows "ready_nodes d = [] \<longleftrightarrow> (\<exists>xs. topo_order d0 xs \<and> ids = ids_of d0 xs)"
proof -
  have w: "jdag_wf d0" "acyclic (dag_edges d0)" using assms(1) by (auto simp: jdag_inv_def)
  obtain xs where xs: "ids = ids_of d0 xs" "exec_inv d0 xs d" using exec_reaches_inv [OF assms(3,1,2)] by blast
  have e: "distinct xs" "set xs \<subseteq> {..<node_count d0}" "pred_ordered (dag_edges d0) {} xs"
    using xs(2) by (auto simp: exec_inv_def)
  have ready: "ready_nodes d = [] \<longleftrightarrow> (\<forall>u < node_count d0. u \<notin> set xs \<longrightarrow> pending_preds d0 (set xs) u \<noteq> {})"
    using ready_iff [OF w(1) xs(2)] by (metis set_empty2 equals0I empty_iff)
  have all: "topo_order d0 xs" if "set xs = {..<node_count d0}"
    using topo_order_edges(1) [OF w(1) e(1) that] pred_ordered_nth [OF e(3,1)] by simp
  show ?thesis
  proof
    assume r: "ready_nodes d = []"
    have "wf (dag_edges d0)" using w finite_edges by (simp add: finite_acyclic_wf)
    moreover have "\<exists>y. (y, z) \<in> dag_edges d0 \<and> y \<in> {..<node_count d0} - set xs" if "z \<in> {..<node_count d0} - set xs" for z
      using that r ready wf_edges [OF w(1)] by (fastforce simp: pending_preds_def)
    ultimately have "{..<node_count d0} - set xs = {}" by (metis wfE_min equals0I)
    then show "\<exists>xs. topo_order d0 xs \<and> ids = ids_of d0 xs" using all xs(1) e(2) by blast
  next
    assume "\<exists>xs. topo_order d0 xs \<and> ids = ids_of d0 xs"
    then obtain ys where "topo_order d0 ys" "length ids = length ys" by auto
    then have "length xs = node_count d0" using xs(1) by (metis card_lessThan distinct_card length_map topo_order_def)
    then have "set xs = {..<node_count d0}" using e by (metis card_lessThan card_subset_eq distinct_card finite_lessThan)
    then show "ready_nodes d = []" using ready by simp
  qed
qed

theorem exec_completes_witness:
  "\<exists>d. dag_exec diamond [10] d \<and> ready_nodes d \<noteq> [] \<and> \<not> (\<exists>xs. topo_order diamond xs \<and> [10] = ids_of diamond xs)"
proof -
  let ?d = "fst (jdag_mark_completed 7 diamond 10)"
  have "10 \<in> set (jdag_get_ready_nodes diamond 4)" "ready_nodes ?d \<noteq> []" by code_simp+
  then have e: "dag_exec diamond [10] ?d" using exec_complete [OF exec_start] by force
  then show ?thesis using exec_completes [OF diamond_inv e] \<open>ready_nodes ?d \<noteq> []\<close> by blast
qed

text \<open>Along such an execution a node is reported ready exactly when it has not been completed and all
  its predecessors have.\<close>

theorem exec_ready_exact:
  assumes "jdag_inv d0" "jdag_fresh d0" "dag_exec d0 ids d" "u < node_count d0"
  shows "jn_id (nodes d0 ! u) \<in> set (ready_nodes d) \<longleftrightarrow>
    jn_state (nodes d ! u) \<noteq> JDAG_NODE_COMPLETED
    \<and> list_all (\<lambda>p. jn_state (nodes d ! p) = JDAG_NODE_COMPLETED) (ins d0 u)"
proof -
  have w: "jdag_wf d0" using assms(1) by (simp add: jdag_inv_def)
  obtain xs where xs: "exec_inv d0 xs d" using exec_reaches_inv [OF assms(3,1,2)] by blast
  have inj: "v = u" if "v < node_count d0" "jn_id (nodes d0 ! u) = jn_id (nodes d0 ! v)" for v
    using find_node_nth [OF w assms(4)] find_node_nth [OF w that(1)] unfolding that(2) by simp
  have st: "jn_state (nodes d ! v) = JDAG_NODE_COMPLETED \<longleftrightarrow> v \<in> set xs" if "v < node_count d0" for v
    using xs that by (simp add: exec_inv_def)
  have "pending_preds d0 (set xs) u = set (ins d0 u) - set xs"
    using wf_edges_ins [OF w] wf_ins_lt [OF w assms(4)] assms(4) by (auto simp: pending_preds_def)
  then have "pending_preds d0 (set xs) u = {} \<longleftrightarrow> list_all (\<lambda>p. jn_state (nodes d ! p) = JDAG_NODE_COMPLETED) (ins d0 u)"
    using st wf_ins_lt [OF w assms(4)] by (auto simp: list_all_iff)
  then show ?thesis using ready_iff [OF w xs, of "jn_id (nodes d0 ! u)"] inj assms(4) st [OF assms(4)] by blast
qed

theorem exec_ready_exact_witness:
  "\<exists>d. dag_exec diamond [10] d \<and> 20 \<in> set (ready_nodes d)
     \<and> list_all (\<lambda>p. jn_state (nodes d ! p) = JDAG_NODE_COMPLETED) (ins diamond 1)"
proof -
  let ?d = "fst (jdag_mark_completed 7 diamond 10)"
  have c: "10 \<in> set (jdag_get_ready_nodes diamond 4)" "node_count diamond = 4" "jn_id (nodes diamond ! 1) = 20"
    "20 \<in> set (ready_nodes ?d)" by code_simp+
  then have e: "dag_exec diamond [10] ?d" using exec_complete [OF exec_start] by force
  then show ?thesis using exec_ready_exact [OF diamond_inv e, of 1] c by auto
qed

end
