(* ===== verification/Fifo.thy ===== *)
theory Fifo
  imports Prelude
begin

text \<open>
  Bounded first-in first-out queues: the contract that \<open>worker_pool.c\<close> relies on, and the ring buffer
  (array, head, element count) that \<open>worker_pool.c\<close> and \<open>priority_scheduler.c\<close> implement it with.
\<close>

section \<open>Ring buffers\<close>

definition ring_items :: "'a list \<Rightarrow> nat \<Rightarrow> nat \<Rightarrow> 'a list" where
  "ring_items arr h n = map (\<lambda>i. arr ! ((h + i) mod length arr)) [0..<n]"

lemma length_ring_items [simp]: "length (ring_items arr h n) = n"
  by (simp add: ring_items_def)

lemma ring_index_inj:
  assumes "i < c" "j < c" "(h + i) mod c = (h + j) mod (c::nat)"
  shows "i = j"
proof -
  have "(int h + int i) mod int c = (int h + int j) mod int c"
    using assms(3) by (metis of_nat_add of_nat_mod)
  then have "(int h + int i - int h) mod int c = (int h + int j - int h) mod int c"
    by (rule mod_diff_cong) simp
  then show ?thesis using assms(1,2) by simp
qed

lemma ring_push:
  assumes "n < length arr"
  shows "ring_items (arr[(h + n) mod length arr := x]) h (Suc n) = ring_items arr h n @ [x]"
proof -
  have "(h + n) mod length arr < length arr" using assms by (intro mod_less_divisor) linarith
  moreover have "arr[(h + n) mod length arr := x] ! ((h + i) mod length arr) = arr ! ((h + i) mod length arr)" if "i < n" for i
  proof -
    have "(h + n) mod length arr \<noteq> (h + i) mod length arr"
      using ring_index_inj [of i "length arr" n h] that assms by auto
    then show ?thesis by (rule nth_list_update_neq)
  qed
  ultimately show ?thesis by (simp add: ring_items_def)
qed

lemma ring_pop:
  "ring_items arr h (Suc n) = arr ! (h mod length arr) # ring_items arr ((h + 1) mod length arr) n"
proof -
  have "[0..<Suc n] = 0 # map Suc [0..<n]" by (simp add: upt_conv_Cons map_Suc_upt del: upt_Suc)
  then show ?thesis by (simp add: ring_items_def comp_def mod_simps del: upt_Suc)
qed

section \<open>The interface\<close>

datatype 'a fifo_op = Push 'a | Pop

text \<open>A run keeps the queue with the elements accepted and the elements taken so far.\<close>

fun fifo_apply :: "('q \<Rightarrow> 'a \<Rightarrow> 'q \<times> int) \<Rightarrow> ('q \<Rightarrow> ('a \<times> 'q) option) \<Rightarrow> 'a fifo_op
    \<Rightarrow> 'q \<times> 'a list \<times> 'a list \<Rightarrow> 'q \<times> 'a list \<times> 'a list" where
  "fifo_apply push pop (Push x) (q, acc, tk) = (case push q x of (q', r) \<Rightarrow> (q', if r = 0 then acc @ [x] else acc, tk))"
| "fifo_apply push pop Pop (q, acc, tk) = (case pop q of None \<Rightarrow> (q, acc, tk) | Some (x, q') \<Rightarrow> (q', acc, tk @ [x]))"

locale fifo =
  fixes inv :: "'q \<Rightarrow> bool" and items :: "'q \<Rightarrow> 'a list" and cap :: "'q \<Rightarrow> nat"
    and push :: "'q \<Rightarrow> 'a \<Rightarrow> 'q \<times> int" and pop :: "'q \<Rightarrow> ('a \<times> 'q) option"
  assumes bound: "inv q \<Longrightarrow> length (items q) \<le> cap q"
    and push_ok: "inv q \<Longrightarrow> length (items q) < cap q \<Longrightarrow>
      snd (push q x) = 0 \<and> inv (fst (push q x)) \<and> items (fst (push q x)) = items q @ [x] \<and> cap (fst (push q x)) = cap q"
    and push_full: "inv q \<Longrightarrow> length (items q) = cap q \<Longrightarrow> push q x = (q, -1)"
    and pop_nil: "inv q \<Longrightarrow> items q = [] \<Longrightarrow> pop q = None"
    and pop_cons: "inv q \<Longrightarrow> items q = x # xs \<Longrightarrow>
      \<exists>q'. pop q = Some (x, q') \<and> inv q' \<and> items q' = xs \<and> cap q' = cap q"
begin

lemma push_cases:
  assumes "inv q" "push q x = (q', r)"
  shows "inv q' \<and> cap q' = cap q \<and> (if r = 0 then items q' = items q @ [x] else q' = q)"
proof (cases "length (items q) < cap q")
  case True
  then show ?thesis using push_ok [OF assms(1) True, of x] assms(2) by simp
next
  case False
  then show ?thesis using push_full [OF assms(1), of x] bound [OF assms(1)] assms by simp
qed

lemma pop_cases:
  assumes "inv q" "pop q = Some (x, q')"
  shows "inv q' \<and> cap q' = cap q \<and> items q = x # items q'"
proof (cases "items q")
  case Nil
  then show ?thesis using pop_nil [OF assms(1)] assms(2) by simp
next
  case (Cons y ys)
  then show ?thesis using pop_cons [OF assms(1) Cons] assms(2) by auto
qed

lemma pop_None_iff: "inv q \<Longrightarrow> pop q = None \<longleftrightarrow> items q = []"
  using pop_nil pop_cons by (cases "items q") fastforce+

lemma apply_log:
  assumes "inv q" "acc = tk @ items q" "fifo_apply push pop oper (q, acc, tk) = (q', acc', tk')"
  shows "inv q' \<and> acc' = tk' @ items q'"
proof (cases oper)
  case (Push x)
  then show ?thesis
    using assms push_cases [OF assms(1), of x] by (auto split: prod.splits if_splits)
next
  case Pop
  then show ?thesis
    using assms pop_cases [OF assms(1)] by (auto split: option.splits prod.splits)
qed

lemma run_log:
  assumes "inv q" "acc = tk @ items q" "fold (fifo_apply push pop) ops (q, acc, tk) = (q', acc', tk')"
  shows "inv q' \<and> acc' = tk' @ items q'"
  using assms
proof (induction ops arbitrary: q acc tk)
  case (Cons oper ops)
  obtain q1 a1 t1 where s: "fifo_apply push pop oper (q, acc, tk) = (q1, a1, t1)" by (metis prod_cases3)
  then show ?case using Cons.IH [of q1 a1 t1] apply_log [OF Cons.prems(1,2) s] Cons.prems(3) by simp
qed simp

end

end
