(* ===== verification/Worker_Pool.thy ===== *)
theory Worker_Pool
  imports Fifo
begin

text \<open>
  The worker pool of \<open>src/mini-job-system/src/worker_pool.c\<close> (POSIX branch).  The task queue is the ring
  buffer of the code; the body of \<open>worker_thread\<close> is a program-counter machine whose steps are the
  critical sections of the queue lock and the unlocked statements between them, so that the
  interleavings of the worker threads and of the client threads are explicit.  The scan for a
  worker slot and the write that claims it are separate steps.  \<open>find_concurrency_index\<close>, which workers and
  the callers of \<open>wp_set_concurrency_limit\<close> run without the lock, is a machine of its own, one step for each comparison
  of its scan and each statement of the registration, the write of a name taken as one step.

  \<open>fifo\<close> is the interface of a bounded queue; the ring buffer is interpreted as one.  The pool
  properties are proved for every reachable state of the step relation.
\<close>

section \<open>Data\<close>

definition WP_MAX_WORKERS :: nat where "WP_MAX_WORKERS = 64"
definition WP_MAX_JOB_TYPES :: nat where "WP_MAX_JOB_TYPES = 32"
definition WP_DEFAULT_QUEUE_SIZE :: int where "WP_DEFAULT_QUEUE_SIZE = 256"

record wp_task =
  wt_job_id :: u64
  wt_task :: ptr
  wt_userdata :: ptr
  wt_ack :: ptr
  wt_ack_ud :: ptr
  wt_job_type :: "string option"

record wp_task_queue =
  q_tasks :: "wp_task list"
  q_head :: nat
  q_tail :: nat
  q_size :: nat
  q_capacity :: nat

record wp_concurrency_limit =
  max_concurrent :: int
  cc_current :: int

datatype wp_worker_state = WP_WORKER_ALIVE | WP_WORKER_IDLE | WP_WORKER_BUSY | WP_WORKER_EXIT

record wp_worker =
  ww_id :: nat
  ww_state :: wp_worker_state
  last_heartbeat :: time_t
  current_task :: wp_task

record wp_config =
  cfg_max_workers :: int
  cfg_queue_size :: int
  cfg_graceful_ms :: int

record worker_pool =
  workers :: "wp_worker list"
  worker_count :: nat
  wp_max_workers :: nat
  wp_queue :: wp_task_queue
  wp_running :: bool
  heartbeat_cb :: ptr
  heartbeat_interval :: int
  concurrency :: "wp_concurrency_limit list"
  job_type_names :: "string list"
  job_type_count :: nat
  graceful_timeout_ms :: int
  shutting_down :: bool

definition zero_task :: wp_task where
  "zero_task = \<lparr>wt_job_id = 0, wt_task = NULL, wt_userdata = NULL, wt_ack = NULL, wt_ack_ud = NULL, wt_job_type = None\<rparr>"

section \<open>The task queue\<close>

definition q_init :: "bool \<Rightarrow> nat \<Rightarrow> wp_task_queue option" where
  "q_init ok capacity =
     (if \<not> ok then None
      else Some \<lparr>q_tasks = replicate capacity zero_task, q_head = 0, q_tail = 0, q_size = 0, q_capacity = capacity\<rparr>)"

definition q_push :: "wp_task_queue \<Rightarrow> wp_task \<Rightarrow> wp_task_queue \<times> int" where
  "q_push q t =
     (if q_size q \<ge> q_capacity q then (q, -1)
      else (q\<lparr>q_tasks := (q_tasks q)[q_tail q := t],
              q_tail := (q_tail q + 1) mod q_capacity q,
              q_size := q_size q + 1\<rparr>, 0))"

text \<open>\<open>q_pop\<close> after its wait: a queue still empty when the wait times out gives \<open>None\<close>.\<close>

definition q_pop :: "wp_task_queue \<Rightarrow> (wp_task \<times> wp_task_queue) option" where
  "q_pop q =
     (if q_size q = 0 then None
      else Some (q_tasks q ! q_head q,
                 q\<lparr>q_head := (q_head q + 1) mod q_capacity q, q_size := q_size q - 1\<rparr>))"

section \<open>The pool\<close>

definition worker_pool_create :: "bool \<Rightarrow> bool \<Rightarrow> wp_config option \<Rightarrow> worker_pool option" where
  "worker_pool_create ok_pool ok_tasks config =
     (if \<not> ok_pool then None
      else
        let mw0 = (case config of Some c \<Rightarrow> if cfg_max_workers c > 0 then nat (cfg_max_workers c) else 4 | None \<Rightarrow> 4);
            mw = (if mw0 > WP_MAX_WORKERS then WP_MAX_WORKERS else mw0);
            qs = (case config of Some c \<Rightarrow> if cfg_queue_size c > 0 then cfg_queue_size c else WP_DEFAULT_QUEUE_SIZE
                  | None \<Rightarrow> WP_DEFAULT_QUEUE_SIZE)
        in case q_init ok_tasks (nat qs) of
             None \<Rightarrow> None
           | Some q \<Rightarrow> Some
               \<lparr>workers = map (\<lambda>i. \<lparr>ww_id = i, ww_state = WP_WORKER_ALIVE, last_heartbeat = 0, current_task = zero_task\<rparr>) [0..<mw],
                worker_count = mw, wp_max_workers = mw, wp_queue = q, wp_running = True, heartbeat_cb = NULL,
                heartbeat_interval = 0, concurrency = replicate WP_MAX_JOB_TYPES \<lparr>max_concurrent = 0, cc_current = 0\<rparr>,
                job_type_names = replicate WP_MAX_JOB_TYPES [], job_type_count = 0,
                graceful_timeout_ms = (case config of Some c \<Rightarrow> if cfg_graceful_ms c > 0 then cfg_graceful_ms c else 10000
                                       | None \<Rightarrow> 10000),
                shutting_down = False\<rparr>)"

definition mk_task :: "u64 \<Rightarrow> ptr \<Rightarrow> ptr \<Rightarrow> ptr \<Rightarrow> ptr \<Rightarrow> string option \<Rightarrow> wp_task" where
  "mk_task job_id task ud ack ack_ud job_type =
     \<lparr>wt_job_id = job_id, wt_task = task, wt_userdata = ud, wt_ack = ack, wt_ack_ud = ack_ud, wt_job_type = job_type\<rparr>"

definition wp_submit :: "worker_pool \<Rightarrow> u64 \<Rightarrow> ptr \<Rightarrow> ptr \<Rightarrow> ptr \<Rightarrow> ptr \<Rightarrow> string option \<Rightarrow> worker_pool \<times> int" where
  "wp_submit p job_id task ud ack ack_ud job_type =
     (if task = NULL then (p, -1)
      else case q_push (wp_queue p) (mk_task job_id task ud ack ack_ud job_type) of
             (q, r) \<Rightarrow> (p\<lparr>wp_queue := q\<rparr>, r))"

fun wp_submit_batch :: "worker_pool \<Rightarrow> wp_task list \<Rightarrow> worker_pool \<times> int" where
  "wp_submit_batch p [] = (p, 0)"
| "wp_submit_batch p (t # ts) =
     (case q_push (wp_queue p) t of
        (q, r) \<Rightarrow> case wp_submit_batch (p\<lparr>wp_queue := q\<rparr>) ts of
          (p', ok) \<Rightarrow> (p', if r = 0 then ok + 1 else ok))"

definition wp_shutdown :: "worker_pool \<Rightarrow> worker_pool" where
  "wp_shutdown p = p\<lparr>wp_running := False, shutting_down := True\<rparr>"

definition wp_busy_workers :: "worker_pool option \<Rightarrow> nat" where
  "wp_busy_workers h = (case h of None \<Rightarrow> 0
     | Some p \<Rightarrow> count_upto (\<lambda>w. ww_state w = WP_WORKER_BUSY) (workers p) (worker_count p))"

definition wp_pending_tasks :: "worker_pool option \<Rightarrow> nat" where
  "wp_pending_tasks h = (case h of None \<Rightarrow> 0 | Some p \<Rightarrow> q_size (wp_queue p))"

definition wp_is_running :: "worker_pool option \<Rightarrow> bool" where
  "wp_is_running h = (case h of None \<Rightarrow> False | Some p \<Rightarrow> wp_running p)"

definition wp_set_heartbeat_callback :: "worker_pool \<Rightarrow> ptr \<Rightarrow> int \<Rightarrow> worker_pool" where
  "wp_set_heartbeat_callback p hb interval = p\<lparr>heartbeat_cb := hb, heartbeat_interval := interval\<rparr>"

text \<open>The polling loop of \<open>wp_shutdown_graceful\<close>: \<open>busy k\<close> is what the \<open>k\<close>-th poll sees, the result the
  number of sleeps.  The pool fields it writes are those before and after the loop.\<close>

function graceful_polls :: "(nat \<Rightarrow> nat) \<Rightarrow> nat \<Rightarrow> int \<Rightarrow> int \<Rightarrow> nat" where
  "graceful_polls busy k waited timeout =
     (if busy k > 0 \<and> waited < timeout then graceful_polls busy (k + 1) (waited + 100) timeout else k)"
  by pat_completeness auto
termination by (relation "measure (\<lambda>(busy, k, waited, timeout). nat (timeout - waited))") auto

declare graceful_polls.simps [simp del]

definition wp_shutdown_begin :: "worker_pool \<Rightarrow> worker_pool" where
  "wp_shutdown_begin p = p\<lparr>shutting_down := True\<rparr>"

definition wp_shutdown_end :: "worker_pool \<Rightarrow> worker_pool" where
  "wp_shutdown_end p = p\<lparr>wp_running := False\<rparr>"

definition wp_shutdown_graceful :: "(nat \<Rightarrow> nat) \<Rightarrow> int \<Rightarrow> worker_pool \<Rightarrow> worker_pool \<times> nat" where
  "wp_shutdown_graceful busy timeout p =
     (wp_shutdown_end (wp_shutdown_begin p), graceful_polls busy 0 0 timeout)"

section \<open>Job types\<close>

text \<open>\<open>find_concurrency_index\<close>, step by step: the scan of the names, the test for room, the reading and the writing of the count, the
  name, the limit, the number of running tasks.  \<open>Overrun\<close> is an access behind the arrays, which two callers that both saw
  room for the last type get to.\<close>

datatype wp_find =
    Scan_types nat                 \<comment> \<open>the next name to compare\<close>
  | Room                           \<comment> \<open>no name matched\<close>
  | Take                           \<comment> \<open>there is room, about to read the count\<close>
  | Count nat                      \<comment> \<open>index read, about to write the count\<close>
  | Name nat
  | Set_max nat
  | Set_cur nat
  | Found "nat option"
  | Overrun

fun find_step :: "string \<Rightarrow> wp_find \<Rightarrow> worker_pool \<Rightarrow> worker_pool \<times> wp_find" where
  "find_step jt (Scan_types i) p =
     (p, if i < job_type_count p
         then (if i \<ge> WP_MAX_JOB_TYPES then Overrun else if job_type_names p ! i = jt then Found (Some i) else Scan_types (i + 1))
         else Room)"
| "find_step jt Room p = (p, if job_type_count p < WP_MAX_JOB_TYPES then Take else Found None)"
| "find_step jt Take p = (p, Count (job_type_count p))"
| "find_step jt (Count i) p = (p\<lparr>job_type_count := i + 1\<rparr>, if i < WP_MAX_JOB_TYPES then Name i else Overrun)"
| "find_step jt (Name i) p = (p\<lparr>job_type_names := (job_type_names p)[i := strncpy_buf 32 jt]\<rparr>, Set_max i)"
| "find_step jt (Set_max i) p = (p\<lparr>concurrency := (concurrency p)[i := (concurrency p ! i)\<lparr>max_concurrent := 0\<rparr>]\<rparr>, Set_cur i)"
| "find_step jt (Set_cur i) p = (p\<lparr>concurrency := (concurrency p)[i := (concurrency p ! i)\<lparr>cc_current := 0\<rparr>]\<rparr>, Found (Some i))"
| "find_step jt (Found r) p = (p, Found r)"
| "find_step jt Overrun p = (p, Overrun)"

text \<open>A call of \<open>wp_set_concurrency_limit\<close>: under way, or returned.\<close>

datatype wp_call = Setting string int wp_find | Returned int

definition wp_set_concurrency_limit :: "string option \<Rightarrow> int \<Rightarrow> wp_call" where
  "wp_set_concurrency_limit job_type mx = (case job_type of None \<Rightarrow> Returned (-1) | Some jt \<Rightarrow> Setting jt mx (Scan_types 0))"

definition set_limit_step :: "wp_call \<Rightarrow> worker_pool \<Rightarrow> worker_pool \<times> wp_call" where
  "set_limit_step c p =
     (case c of
        Returned r \<Rightarrow> (p, c)
      | Setting jt mx f \<Rightarrow>
          (case f of
             Found None \<Rightarrow> (p, Returned (-1))
           | Found (Some i) \<Rightarrow> (p\<lparr>concurrency := (concurrency p)[i := (concurrency p ! i)\<lparr>max_concurrent := mx\<rparr>]\<rparr>, Returned 0)
           | _ \<Rightarrow> (case find_step jt f p of (p', f') \<Rightarrow> (p', Setting jt mx f'))))"

section \<open>Worker threads\<close>

datatype wp_pc =
    Scan nat                       \<comment> \<open>loop over the slots for one that is \<open>ALIVE\<close>\<close>
  | Claim nat                      \<comment> \<open>slot seen \<open>ALIVE\<close>, about to be marked \<open>IDLE\<close>\<close>
  | Top                            \<comment> \<open>the test of the main loop\<close>
  | Wait                           \<comment> \<open>inside \<open>q_pop\<close>\<close>
  | Find wp_task wp_find           \<comment> \<open>inside \<open>find_concurrency_index\<close>\<close>
  | Acquire wp_task nat            \<comment> \<open>waiting for a concurrency slot of the type\<close>
  | Start wp_task "nat option"     \<comment> \<open>the worker is marked \<open>BUSY\<close>\<close>
  | Run wp_task "nat option"       \<comment> \<open>\<open>task.task(task.userdata)\<close>\<close>
  | Ack wp_task "nat option"       \<comment> \<open>\<open>task.ack\<close>\<close>
  | Release nat                    \<comment> \<open>giving the concurrency slot back\<close>
  | Gone                           \<comment> \<open>returned\<close>
  | Fault                          \<comment> \<open>a write to \<open>workers[-1]\<close>\<close>

record wp_thread =
  pc :: wp_pc
  worker_id :: "nat option"

text \<open>The system: the pool, its threads, the calls that set limits, and what has happened: the tasks accepted by the queue, those
  taken out of it, and the calls of the task functions.\<close>

record wp_system =
  pool :: worker_pool
  threads :: "wp_thread list"
  callers :: "wp_call list"
  accepted :: "wp_task list"
  taken :: "wp_task list"
  executed :: "wp_task list"

definition set_pc :: "nat \<Rightarrow> wp_pc \<Rightarrow> wp_system \<Rightarrow> wp_system" where
  "set_pc i c s = s\<lparr>threads := (threads s)[i := (threads s ! i)\<lparr>pc := c\<rparr>]\<rparr>"

definition upd_worker :: "nat \<Rightarrow> (wp_worker \<Rightarrow> wp_worker) \<Rightarrow> wp_system \<Rightarrow> wp_system" where
  "upd_worker w f s = s\<lparr>pool := (pool s)\<lparr>workers := (workers (pool s))[w := f (workers (pool s) ! w)]\<rparr>\<rparr>"

definition upd_current :: "nat \<Rightarrow> int \<Rightarrow> wp_system \<Rightarrow> wp_system" where
  "upd_current ci d s = s\<lparr>pool := (pool s)\<lparr>concurrency :=
     (concurrency (pool s))[ci := (concurrency (pool s) ! ci)\<lparr>cc_current := cc_current (concurrency (pool s) ! ci) + d\<rparr>]\<rparr>\<rparr>"

text \<open>One step of thread \<open>i\<close>, at clock reading \<open>t\<close>: the body of \<open>worker_thread\<close>.  An empty queue in
  \<open>Wait\<close> is the timed-out wait, after which the loop test is run again; a full limit in \<open>Acquire\<close> is
  one turn of the waiting loop.\<close>

fun thread_step :: "time_t \<Rightarrow> nat \<Rightarrow> wp_system \<Rightarrow> wp_system" where
  "thread_step t i s =
     (case pc (threads s ! i) of
        Scan k \<Rightarrow>
          if k < wp_max_workers (pool s)
          then (if ww_state (workers (pool s) ! k) = WP_WORKER_ALIVE then set_pc i (Claim k) s
                else set_pc i (Scan (k + 1)) s)
          else set_pc i Top s
      | Claim k \<Rightarrow>
          upd_worker k (\<lambda>w. w\<lparr>ww_state := WP_WORKER_IDLE\<rparr>)
            (s\<lparr>threads := (threads s)[i := \<lparr>pc = Top, worker_id = Some k\<rparr>]\<rparr>)
      | Top \<Rightarrow>
          (case worker_id (threads s ! i) of
             None \<Rightarrow> set_pc i Fault s
           | Some w \<Rightarrow>
               if wp_running (pool s) \<and> \<not> shutting_down (pool s)
               then set_pc i Wait (upd_worker w (\<lambda>w. w\<lparr>ww_state := WP_WORKER_IDLE, last_heartbeat := t\<rparr>) s)
               else set_pc i Gone (upd_worker w (\<lambda>w. w\<lparr>ww_state := WP_WORKER_EXIT\<rparr>) s))
      | Wait \<Rightarrow>
          (case q_pop (wp_queue (pool s)) of
             None \<Rightarrow> set_pc i Top s
           | Some (task, q) \<Rightarrow>
               set_pc i (case wt_job_type task of None \<Rightarrow> Start task None | Some _ \<Rightarrow> Find task (Scan_types 0))
                 (s\<lparr>pool := (pool s)\<lparr>wp_queue := q\<rparr>, taken := taken s @ [task]\<rparr>))
      | Find task f \<Rightarrow>
          (case f of
             Found None \<Rightarrow> set_pc i (Start task None) s
           | Found (Some ci) \<Rightarrow> set_pc i (Acquire task ci) s
           | _ \<Rightarrow> (case find_step (the (wt_job_type task)) f (pool s) of (p, f') \<Rightarrow> set_pc i (Find task f') (s\<lparr>pool := p\<rparr>)))
      | Acquire task ci \<Rightarrow>
          if max_concurrent (concurrency (pool s) ! ci) = 0
             \<or> cc_current (concurrency (pool s) ! ci) < max_concurrent (concurrency (pool s) ! ci)
          then set_pc i (Start task (Some ci)) (upd_current ci 1 s)
          else s
      | Start task ci \<Rightarrow>
          (case worker_id (threads s ! i) of
             None \<Rightarrow> set_pc i Fault s
           | Some w \<Rightarrow> set_pc i (Run task ci)
               (upd_worker w (\<lambda>w. w\<lparr>ww_state := WP_WORKER_BUSY, current_task := task, last_heartbeat := t\<rparr>) s))
      | Run task ci \<Rightarrow> set_pc i (Ack task ci) (s\<lparr>executed := executed s @ [task]\<rparr>)
      | Ack task ci \<Rightarrow> set_pc i (case ci of None \<Rightarrow> Top | Some c \<Rightarrow> Release c) s
      | Release c \<Rightarrow> set_pc i Top (upd_current c (-1) s)
      | Gone \<Rightarrow> s
      | Fault \<Rightarrow> s)"

declare thread_step.simps [simp del]

definition submit_step :: "wp_task \<Rightarrow> wp_system \<Rightarrow> wp_system" where
  "submit_step t s =
     (case q_push (wp_queue (pool s)) t of
        (q, r) \<Rightarrow> s\<lparr>pool := (pool s)\<lparr>wp_queue := q\<rparr>, accepted := (if r = 0 then accepted s @ [t] else accepted s)\<rparr>)"

definition call_step :: "nat \<Rightarrow> wp_system \<Rightarrow> wp_system" where
  "call_step k s = (case set_limit_step (callers s ! k) (pool s) of (p, c) \<Rightarrow> s\<lparr>pool := p, callers := (callers s)[k := c]\<rparr>)"

text \<open>The steps of the whole system: a worker thread, a client that submits, begins to set a limit, goes on with setting it, or
  shuts the pool down.\<close>

datatype wp_label = L_thread nat time_t | L_submit wp_task | L_limit "string option" int | L_call nat | L_shutdown | L_begin | L_end

fun sys_step :: "wp_label \<Rightarrow> wp_system \<Rightarrow> wp_system" where
  "sys_step (L_thread i t) s = (if i < length (threads s) then thread_step t i s else s)"
| "sys_step (L_submit t) s = submit_step t s"
| "sys_step (L_limit jt mx) s = s\<lparr>callers := callers s @ [wp_set_concurrency_limit jt mx]\<rparr>"
| "sys_step (L_call k) s = (if k < length (callers s) then call_step k s else s)"
| "sys_step L_shutdown s = s\<lparr>pool := wp_shutdown (pool s)\<rparr>"
| "sys_step L_begin s = s\<lparr>pool := wp_shutdown_begin (pool s)\<rparr>"
| "sys_step L_end s = s\<lparr>pool := wp_shutdown_end (pool s)\<rparr>"

definition boot :: "worker_pool \<Rightarrow> wp_system" where
  "boot p = \<lparr>pool = p, threads = replicate (wp_max_workers p) \<lparr>pc = Scan 0, worker_id = None\<rparr>,
             callers = [], accepted = [], taken = [], executed = []\<rparr>"

inductive wp_reach :: "worker_pool \<Rightarrow> wp_label list \<Rightarrow> wp_system \<Rightarrow> bool" for p where
  reach_boot: "wp_reach p [] (boot p)"
| reach_step: "wp_reach p ls s \<Longrightarrow> wp_reach p (ls @ [l]) (sys_step l s)"

inductive_cases wp_reach_snocE: "wp_reach p (ls @ [l]) s"

section \<open>The ring buffer is a bounded queue\<close>

definition q_items :: "wp_task_queue \<Rightarrow> wp_task list" where
  "q_items q = ring_items (q_tasks q) (q_head q) (q_size q)"

definition q_inv :: "wp_task_queue \<Rightarrow> bool" where
  "q_inv q \<longleftrightarrow> 0 < q_capacity q \<and> length (q_tasks q) = q_capacity q \<and> q_size q \<le> q_capacity q
     \<and> q_head q < q_capacity q \<and> q_tail q = (q_head q + q_size q) mod q_capacity q"

lemma length_q_items [simp]: "length (q_items q) = q_size q"
  by (simp add: q_items_def)

interpretation wpq: fifo q_inv q_items q_capacity q_push q_pop
proof
  fix q x xs
  assume inv: "q_inv q"
  show "length (q_items q) \<le> q_capacity q" using inv by (simp add: q_inv_def)
  show "snd (q_push q x) = 0 \<and> q_inv (fst (q_push q x)) \<and> q_items (fst (q_push q x)) = q_items q @ [x]
      \<and> q_capacity (fst (q_push q x)) = q_capacity q" if "length (q_items q) < q_capacity q"
    using inv that ring_push [of "q_size q" "q_tasks q" "q_head q" x]
    by (simp add: q_push_def q_inv_def q_items_def mod_simps)
  show "q_push q x = (q, -1)" if "length (q_items q) = q_capacity q"
    using that by (simp add: q_push_def)
  show "q_pop q = None" if "q_items q = []"
    using that by (simp add: q_pop_def flip: length_0_conv)
  show "\<exists>q'. q_pop q = Some (x, q') \<and> q_inv q' \<and> q_items q' = xs \<and> q_capacity q' = q_capacity q"
    if "q_items q = x # xs"
  proof -
    have "q_size q = Suc (length xs)" using arg_cong [OF that, of length] by simp
    then show ?thesis
      using inv that ring_pop [of "q_tasks q" "q_head q" "length xs"]
      by (auto simp: q_pop_def q_inv_def q_items_def mod_simps)
  qed
qed

lemma q_init_inv: "q_init ok c = Some q \<Longrightarrow> 0 < c \<Longrightarrow> q_inv q \<and> q_items q = [] \<and> q_capacity q = c"
  by (auto simp: q_init_def q_inv_def q_items_def ring_items_def split: if_splits)

section \<open>Invariant of the pool\<close>

text \<open>The task a thread has taken but not yet run.\<close>

fun in_hand :: "wp_pc \<Rightarrow> wp_task option" where
  "in_hand (Find t _) = Some t"
| "in_hand (Acquire t _) = Some t"
| "in_hand (Start t _) = Some t"
| "in_hand (Run t _) = Some t"
| "in_hand _ = None"

definition in_hands :: "wp_thread list \<Rightarrow> wp_task multiset" where
  "in_hands ths = mset (List.map_filter (\<lambda>th. in_hand (pc th)) ths)"

definition tasks_inv :: "wp_system \<Rightarrow> bool" where
  "tasks_inv s \<longleftrightarrow> q_inv (wp_queue (pool s)) \<and> accepted s = taken s @ q_items (wp_queue (pool s))
     \<and> mset (taken s) = mset (executed s) + in_hands (threads s)"

text \<open>Slots: a thread still scanning has seen only taken slots, every other thread has a slot, and the
  slots no longer \<open>ALIVE\<close> are exactly those claimed.\<close>

definition slot_ok :: "worker_pool \<Rightarrow> wp_thread \<Rightarrow> bool" where
  "slot_ok p th = (case pc th of
       Scan k \<Rightarrow> worker_id th = None \<and> k \<le> wp_max_workers p \<and> (\<forall>j < k. ww_state (workers p ! j) \<noteq> WP_WORKER_ALIVE)
     | Claim k \<Rightarrow> worker_id th = None \<and> k < wp_max_workers p
     | Fault \<Rightarrow> False
     | _ \<Rightarrow> (case worker_id th of None \<Rightarrow> False | Some w \<Rightarrow> w < wp_max_workers p))"

definition claimed :: "wp_thread list \<Rightarrow> nat set" where
  "claimed ths = {w. Some w \<in> worker_id ` set ths}"

definition slots_inv :: "wp_system \<Rightarrow> bool" where
  "slots_inv s \<longleftrightarrow> length (workers (pool s)) = wp_max_workers (pool s) \<and> length (threads s) = wp_max_workers (pool s)
     \<and> (\<forall>th \<in> set (threads s). slot_ok (pool s) th)
     \<and> {j. j < wp_max_workers (pool s) \<and> ww_state (workers (pool s) ! j) \<noteq> WP_WORKER_ALIVE} = claimed (threads s)"

definition opt_mset :: "'a option \<Rightarrow> 'a multiset" where
  "opt_mset x = (case x of None \<Rightarrow> {#} | Some y \<Rightarrow> {#y#})"

lemma sum_list_update_mset:
  "i < length xs \<Longrightarrow> sum_list (map f (xs[i := x])) + f (xs ! i) = sum_list (map f xs) + (f x :: 'b multiset)"
proof (induction xs arbitrary: i)
  case (Cons y ys)
  then show ?case
  proof (cases i)
    case (Suc k)
    then show ?thesis using Cons.IH [of k] Cons.prems by (simp add: ac_simps)
  qed (simp add: ac_simps)
qed simp

lemma map_filter_update:
  "i < length xs \<Longrightarrow> mset (List.map_filter g (xs[i := x])) + opt_mset (g (xs ! i)) = mset (List.map_filter g xs) + opt_mset (g x)"
proof -
  assume i: "i < length xs"
  have sum: "mset (List.map_filter g ys) = sum_list (map (\<lambda>y. opt_mset (g y)) ys)" for ys
    by (induction ys) (auto simp: opt_mset_def map_filter_simps split: option.splits)
  show ?thesis unfolding sum by (rule sum_list_update_mset [OF i])
qed

lemma in_hands_update:
  "i < length ths \<Longrightarrow>
   in_hands (ths[i := th]) + opt_mset (in_hand (pc (ths ! i))) = in_hands ths + opt_mset (in_hand (pc th))"
  unfolding in_hands_def by (rule map_filter_update)

section \<open>Every step preserves the invariants\<close>

lemma set_pc_simps [simp]:
  "pool (set_pc i c s) = pool s" "callers (set_pc i c s) = callers s" "accepted (set_pc i c s) = accepted s" "taken (set_pc i c s) = taken s"
  "executed (set_pc i c s) = executed s" "threads (set_pc i c s) = (threads s)[i := (threads s ! i)\<lparr>pc := c\<rparr>]"
  by (simp_all add: set_pc_def)

lemma upd_worker_simps [simp]:
  "threads (upd_worker w f s) = threads s" "accepted (upd_worker w f s) = accepted s" "taken (upd_worker w f s) = taken s"
  "executed (upd_worker w f s) = executed s" "wp_queue (pool (upd_worker w f s)) = wp_queue (pool s)"
  "callers (upd_worker w f s) = callers s" "concurrency (pool (upd_worker w f s)) = concurrency (pool s)"
  "job_type_names (pool (upd_worker w f s)) = job_type_names (pool s)" "job_type_count (pool (upd_worker w f s)) = job_type_count (pool s)"
  "wp_max_workers (pool (upd_worker w f s)) = wp_max_workers (pool s)"
  "workers (pool (upd_worker w f s)) = (workers (pool s))[w := f (workers (pool s) ! w)]"
  by (simp_all add: upd_worker_def)

lemma upd_current_simps [simp]:
  "threads (upd_current c d s) = threads s" "accepted (upd_current c d s) = accepted s" "taken (upd_current c d s) = taken s"
  "executed (upd_current c d s) = executed s" "wp_queue (pool (upd_current c d s)) = wp_queue (pool s)"
  "workers (pool (upd_current c d s)) = workers (pool s)"
  "callers (upd_current c d s) = callers s" "job_type_count (pool (upd_current c d s)) = job_type_count (pool s)"
  "job_type_names (pool (upd_current c d s)) = job_type_names (pool s)"
  "wp_max_workers (pool (upd_current c d s)) = wp_max_workers (pool s)"
  "concurrency (pool (upd_current c d s)) = (concurrency (pool s))
     [c := (concurrency (pool s) ! c)\<lparr>cc_current := cc_current (concurrency (pool s) ! c) + d\<rparr>]"
  by (simp_all add: upd_current_def)

text \<open>A thread whose counter moves without touching queue, logs or counters of the pool.\<close>

lemma tasks_inv_quiet:
  assumes "tasks_inv s" "i < length (threads s)" "threads s' = (threads s)[i := th]"
    "in_hand (pc th) = in_hand (pc (threads s ! i))"
    "wp_queue (pool s') = wp_queue (pool s)" "accepted s' = accepted s" "taken s' = taken s" "executed s' = executed s"
  shows "tasks_inv s'"
proof -
  have "in_hands (threads s') = in_hands (threads s)"
    using in_hands_update [OF assms(2), of th] assms(3,4) by simp
  then show ?thesis using assms(1,5-8) by (simp add: tasks_inv_def)
qed

text \<open>The search for a type touches nothing but the types.\<close>

lemma find_step_keeps:
  "find_step jt f p = (p', f') \<Longrightarrow> workers p' = workers p \<and> wp_max_workers p' = wp_max_workers p \<and> wp_queue p' = wp_queue p"
  by (cases "(jt, f, p)" rule: find_step.cases) (auto split: if_splits)

lemma set_limit_step_keeps:
  "set_limit_step c p = (p', c') \<Longrightarrow> workers p' = workers p \<and> wp_max_workers p' = wp_max_workers p \<and> wp_queue p' = wp_queue p"
  by (auto simp: set_limit_step_def dest: find_step_keeps split: wp_call.splits wp_find.splits option.splits prod.splits)

text \<open>A step of a thread in the search.\<close>

lemma thread_step_find:
  assumes "pc (threads s ! i) = Find task f"
  obtains p c where "thread_step t i s = set_pc i c (s\<lparr>pool := p\<rparr>)" "workers p = workers (pool s)" "wp_max_workers p = wp_max_workers (pool s)"
    "wp_queue p = wp_queue (pool s)" "(\<exists>f'. c = Find task f' \<and> find_step (the (wt_job_type task)) f (pool s) = (p, f'))
      \<or> p = pool s \<and> f = Found None \<and> c = Start task None \<or> (\<exists>ci. p = pool s \<and> f = Found (Some ci) \<and> c = Acquire task ci)"
proof (cases "\<exists>r. f = Found r")
  case True
  then obtain r where "f = Found r" by blast
  then show thesis using that [of _ "pool s"] assms by (cases r) (auto simp: thread_step.simps)
next
  case False
  obtain p f' where p: "find_step (the (wt_job_type task)) f (pool s) = (p, f')" by fastforce
  moreover have "thread_step t i s = set_pc i (Find task f') (s\<lparr>pool := p\<rparr>)"
    using assms False p by (cases f) (auto simp: thread_step.simps)
  ultimately show thesis using that [of "Find task f'" p] find_step_keeps [OF p] by blast
qed

lemma scan_finds_slot:
  assumes inv: "slots_inv s" and i: "i < length (threads s)" and k: "pc (threads s ! i) = Scan k"
  shows "k < wp_max_workers (pool s)"
proof (rule ccontr)
  let ?n = "wp_max_workers (pool s)"
  assume "\<not> k < ?n"
  have ok: "slot_ok (pool s) (threads s ! i)" using inv i by (simp add: slots_inv_def)
  then have none: "worker_id (threads s ! i) = None" and "k = ?n" "\<forall>j < k. ww_state (workers (pool s) ! j) \<noteq> WP_WORKER_ALIVE"
    using k \<open>\<not> k < ?n\<close> by (auto simp: slot_ok_def)
  then have "claimed (threads s) = {..<?n}" using inv by (auto simp: slots_inv_def)
  moreover have "claimed (threads s) \<subseteq> (\<lambda>j. the (worker_id (threads s ! j))) ` ({..<?n} - {i})"
  proof
    fix w assume "w \<in> claimed (threads s)"
    then obtain j where "j < length (threads s)" "worker_id (threads s ! j) = Some w"
      by (auto simp: claimed_def in_set_conv_nth image_iff)
    then show "w \<in> (\<lambda>j. the (worker_id (threads s ! j))) ` ({..<?n} - {i})"
      using none inv by (intro image_eqI [of _ _ j]) (auto simp: slots_inv_def)
  qed
  ultimately have "?n \<le> card ({..<?n} - {i})" by (metis card_lessThan finite_Diff finite_lessThan surj_card_le)
  moreover have "i < ?n" using inv i by (simp add: slots_inv_def)
  ultimately show False by simp
qed

lemma slot_ok_mono:
  assumes "slot_ok p th" "wp_max_workers p' = wp_max_workers p"
    "\<And>j. j < wp_max_workers p \<Longrightarrow> ww_state (workers p ! j) \<noteq> WP_WORKER_ALIVE \<Longrightarrow> ww_state (workers p' ! j) \<noteq> WP_WORKER_ALIVE"
  shows "slot_ok p' th"
proof (cases "pc th")
  case (Scan k)
  then have "k \<le> wp_max_workers p" "\<forall>j < k. ww_state (workers p ! j) \<noteq> WP_WORKER_ALIVE" "worker_id th = None"
    using assms(1) by (auto simp: slot_ok_def)
  then show ?thesis using Scan assms(2,3) by (auto simp: slot_ok_def)
qed (use assms in \<open>auto simp: slot_ok_def split: option.splits\<close>)

lemma claimed_nth: "w \<in> claimed ths \<longleftrightarrow> (\<exists>j < length ths. worker_id (ths ! j) = Some w)"
  unfolding claimed_def image_iff mem_Collect_eq by (metis in_set_conv_nth)

lemma claimed_update:
  "i < length ths \<Longrightarrow> worker_id th = worker_id (ths ! i) \<Longrightarrow> claimed (ths[i := th]) = claimed ths"
  by (metis claimed_def list.set_map list_update_id map_update)

lemma slots_inv_quiet:
  assumes inv: "slots_inv s" and i: "i < length (threads s)" and th: "threads s' = (threads s)[i := th]"
    "worker_id th = worker_id (threads s ! i)" "slot_ok (pool s) th"
    and p: "wp_max_workers (pool s') = wp_max_workers (pool s)"
      "workers (pool s') = workers (pool s)
       \<or> (\<exists>w f. worker_id th = Some w \<and> workers (pool s') = (workers (pool s))[w := f] \<and> ww_state f \<noteq> WP_WORKER_ALIVE)"
  shows "slots_inv s'"
proof -
  let ?n = "wp_max_workers (pool s)"
  have len: "length (workers (pool s)) = ?n" "length (threads s) = ?n" using inv by (auto simp: slots_inv_def)
  have st: "ww_state (workers (pool s') ! j) \<noteq> WP_WORKER_ALIVE \<longleftrightarrow> ww_state (workers (pool s) ! j) \<noteq> WP_WORKER_ALIVE"
    if "j < ?n" for j
  proof -
    have "ww_state (workers (pool s) ! w) \<noteq> WP_WORKER_ALIVE" if "worker_id th = Some w" for w
    proof -
      have "w \<in> claimed (threads s)" using that th(2) i by (metis claimed_def image_eqI mem_Collect_eq nth_mem)
      then show ?thesis using inv by (auto simp: slots_inv_def)
    qed
    then show ?thesis using p(2) that len by (metis nth_list_update_eq nth_list_update_neq)
  qed
  have ok: "slot_ok (pool s') x" if "slot_ok (pool s) x" for x
    using slot_ok_mono [OF that p(1)] st by blast
  have "slot_ok (pool s') x" if "x \<in> set (threads s')" for x
    using that th ok inv set_update_subset_insert by (fastforce simp: slots_inv_def)
  moreover have "{j. j < ?n \<and> ww_state (workers (pool s') ! j) \<noteq> WP_WORKER_ALIVE} = claimed (threads s')"
    using inv st claimed_update [OF i th(2)] th(1) by (auto simp: slots_inv_def)
  moreover have "length (workers (pool s')) = ?n" using p(2) len by auto
  ultimately show ?thesis using p(1) len th(1) by (simp add: slots_inv_def)
qed

lemma slots_inv_worker:
  assumes "slots_inv s" "i < length (threads s)" "worker_id (threads s ! i) = Some w"
    "slot_ok (pool s) ((threads s ! i)\<lparr>pc := c\<rparr>)" "ww_state (f (workers (pool s) ! w)) \<noteq> WP_WORKER_ALIVE"
  shows "slots_inv (set_pc i c (upd_worker w f s))"
  using assms(3-5) by (intro slots_inv_quiet [OF assms(1,2) _ _ assms(4)]) auto

lemma slots_inv_claim:
  assumes inv: "slots_inv s" and i: "i < length (threads s)" and c: "pc (threads s ! i) = Claim k"
  shows "slots_inv (thread_step t i s)"
proof -
  let ?n = "wp_max_workers (pool s)" and ?s = "thread_step t i s"
  have ok: "slot_ok (pool s) (threads s ! i)" using inv i by (simp add: slots_inv_def)
  then have k: "k < ?n" "worker_id (threads s ! i) = None" using c by (auto simp: slot_ok_def)
  have len: "length (workers (pool s)) = ?n" "length (threads s) = ?n" using inv by (auto simp: slots_inv_def)
  have s': "threads ?s = (threads s)[i := \<lparr>pc = Top, worker_id = Some k\<rparr>]" "wp_max_workers (pool ?s) = ?n"
    "workers (pool ?s) = (workers (pool s))[k := (workers (pool s) ! k)\<lparr>ww_state := WP_WORKER_IDLE\<rparr>]"
    unfolding thread_step.simps using c by simp_all
  have st: "ww_state (workers (pool ?s) ! j) \<noteq> WP_WORKER_ALIVE \<longleftrightarrow> j = k \<or> ww_state (workers (pool s) ! j) \<noteq> WP_WORKER_ALIVE"
    if "j < ?n" for j using that len by (cases "j = k") (auto simp: s')
  have "slot_ok (pool ?s) x" if "x \<in> set (threads ?s)" for x
  proof -
    have "x = \<lparr>pc = Top, worker_id = Some k\<rparr> \<or> slot_ok (pool s) x"
      using that inv set_update_subset_insert s'(1) by (fastforce simp: slots_inv_def)
    then show ?thesis using slot_ok_mono [OF _ s'(2)] st s'(2) k(1) by (auto simp: slot_ok_def [of _ "\<lparr>pc = Top, worker_id = Some k\<rparr>"])
  qed
  moreover have "claimed (threads ?s) = insert k (claimed (threads s))"
  proof -
    have "w \<in> claimed (threads ?s) \<longleftrightarrow> w = k \<or> w \<in> claimed (threads s)" for w
    proof -
      have "w \<in> claimed (threads ?s) \<longleftrightarrow> (\<exists>j < ?n. if j = i then w = k else worker_id (threads s ! j) = Some w)"
        unfolding claimed_nth s'(1) using len by (auto simp: nth_list_update)
      then show ?thesis unfolding claimed_nth using i len k(2) by (metis option.distinct(1))
    qed
    then show ?thesis by auto
  qed
  moreover have "{j. j < ?n \<and> ww_state (workers (pool ?s) ! j) \<noteq> WP_WORKER_ALIVE}
      = insert k {j. j < ?n \<and> ww_state (workers (pool s) ! j) \<noteq> WP_WORKER_ALIVE}"
    using st k(1) by auto
  ultimately show ?thesis using inv s' len by (simp add: slots_inv_def)
qed

lemma start_has_slot:
  assumes "slots_inv s" "i < length (threads s)" "pc (threads s ! i) = Start task ci \<or> pc (threads s ! i) = Top"
  shows "\<exists>w < wp_max_workers (pool s). worker_id (threads s ! i) = Some w"
proof -
  have "slot_ok (pool s) (threads s ! i)" using assms(1,2) by (simp add: slots_inv_def)
  then show ?thesis using assms(3) by (auto simp: slot_ok_def split: option.splits)
qed

lemma thread_step_slots:
  assumes inv: "slots_inv s" and i: "i < length (threads s)"
  shows "slots_inv (thread_step t i s)"
proof -
  have ok: "slot_ok (pool s) (threads s ! i)" using inv i by (simp add: slots_inv_def)
  have moved: "slot_ok (pool s) ((threads s ! i)\<lparr>pc := c\<rparr>)"
    if "worker_id (threads s ! i) = Some w" "w < wp_max_workers (pool s)" "c \<noteq> Fault" "\<And>k. c \<noteq> Scan k" "\<And>k. c \<noteq> Claim k" for c w
    using that by (cases c) (auto simp: slot_ok_def)
  show ?thesis
  proof (cases "pc (threads s ! i)")
    case (Scan k)
    then have "k < wp_max_workers (pool s)" using scan_finds_slot [OF inv i] by simp
    then show ?thesis
      unfolding thread_step.simps using Scan ok
      by (auto intro!: slots_inv_quiet [OF inv i] simp: slot_ok_def less_Suc_eq)
  next
    case (Claim k)
    then show ?thesis using slots_inv_claim [OF inv i] by blast
  next
    case (Find task f)
    then obtain w where w: "worker_id (threads s ! i) = Some w" "w < wp_max_workers (pool s)"
      using ok by (auto simp: slot_ok_def split: option.splits)
    from Find show ?thesis
    proof (rule thread_step_find [of s i task f t])
      fix p c
      assume f: "thread_step t i s = set_pc i c (s\<lparr>pool := p\<rparr>)" "workers p = workers (pool s)" "wp_max_workers p = wp_max_workers (pool s)"
        and "(\<exists>f'. c = Find task f' \<and> find_step (the (wt_job_type task)) f (pool s) = (p, f'))
          \<or> p = pool s \<and> f = Found None \<and> c = Start task None \<or> (\<exists>ci. p = pool s \<and> f = Found (Some ci) \<and> c = Acquire task ci)"
      then have "c \<noteq> Fault" "\<And>k. c \<noteq> Scan k" "\<And>k. c \<noteq> Claim k" by auto
      then show ?thesis unfolding f(1) using f(2,3) moved [OF w]
        by (intro slots_inv_quiet [OF inv i, where th = "(threads s ! i)\<lparr>pc := c\<rparr>"]) auto
    qed
  next
    case Top
    then obtain w where "worker_id (threads s ! i) = Some w" "w < wp_max_workers (pool s)"
      using start_has_slot [OF inv i] by auto
    then show ?thesis
      unfolding thread_step.simps using Top by (auto intro!: slots_inv_worker [OF inv i] moved)
  next
    case (Start task ci)
    then obtain w where "worker_id (threads s ! i) = Some w" "w < wp_max_workers (pool s)"
      using start_has_slot [OF inv i] by auto
    then show ?thesis
      unfolding thread_step.simps using Start by (auto intro!: slots_inv_worker [OF inv i] moved)
  qed (use inv i ok in \<open>auto simp: thread_step.simps slot_ok_def split: option.splits prod.splits intro!: slots_inv_quiet [OF inv i] moved\<close>)
qed

lemma thread_step_tasks:
  assumes inv: "tasks_inv s" and sl: "slots_inv s" and i: "i < length (threads s)"
  shows "tasks_inv (thread_step t i s)"
proof (cases "pc (threads s ! i)")
  case Wait
  show ?thesis
  proof (cases "q_pop (wp_queue (pool s))")
    case None
    then show ?thesis unfolding thread_step.simps using Wait by (auto intro!: tasks_inv_quiet [OF inv i])
  next
    case (Some r)
    then obtain task q where r: "q_pop (wp_queue (pool s)) = Some (task, q)" by force
    have q: "q_inv q" "q_items (wp_queue (pool s)) = task # q_items q"
      using wpq.pop_cases [OF _ r] inv by (auto simp: tasks_inv_def)
    let ?c = "case wt_job_type task of None \<Rightarrow> Start task None | Some _ \<Rightarrow> Find task (Scan_types 0)"
    have "in_hands ((threads s)[i := (threads s ! i)\<lparr>pc := ?c\<rparr>]) = in_hands (threads s) + {#task#}"
      using in_hands_update [OF i, of "(threads s ! i)\<lparr>pc := ?c\<rparr>"] Wait by (simp add: opt_mset_def split: option.splits)
    then show ?thesis
      unfolding thread_step.simps using Wait r q inv by (simp add: tasks_inv_def)
  qed
next
  case (Run task ci)
  have "add_mset task (in_hands ((threads s)[i := (threads s ! i)\<lparr>pc := Ack task ci\<rparr>])) = in_hands (threads s)"
    using in_hands_update [OF i, of "(threads s ! i)\<lparr>pc := Ack task ci\<rparr>"] Run by (simp add: opt_mset_def)
  then show ?thesis unfolding thread_step.simps using Run inv by (simp add: tasks_inv_def)
next
  case (Find task f)
  then show ?thesis
  proof (rule thread_step_find [of s i task f t])
    fix p c
    assume f: "thread_step t i s = set_pc i c (s\<lparr>pool := p\<rparr>)" "wp_queue p = wp_queue (pool s)"
      and "(\<exists>f'. c = Find task f' \<and> find_step (the (wt_job_type task)) f (pool s) = (p, f'))
        \<or> p = pool s \<and> f = Found None \<and> c = Start task None \<or> (\<exists>ci. p = pool s \<and> f = Found (Some ci) \<and> c = Acquire task ci)"
    then have "in_hand c = Some task" by auto
    then show ?thesis unfolding f(1) using f(2) Find by (intro tasks_inv_quiet [OF inv i]) auto
  qed
next
  case (Acquire task ci)
  then show ?thesis
    unfolding thread_step.simps using inv by (auto intro!: tasks_inv_quiet [OF inv i])
next
  case (Ack task ci)
  then show ?thesis
    unfolding thread_step.simps using inv i by (auto split: option.splits intro!: tasks_inv_quiet [OF inv i])
next
  case (Start task ci)
  then obtain w where "worker_id (threads s ! i) = Some w" using start_has_slot [OF sl i] by auto
  then show ?thesis
    unfolding thread_step.simps using Start by (auto intro!: tasks_inv_quiet [OF inv i])
qed (use inv i in \<open>auto simp: thread_step.simps split: option.splits prod.splits intro!: tasks_inv_quiet [OF inv i]\<close>)

definition sys_inv :: "wp_system \<Rightarrow> bool" where
  "sys_inv s \<longleftrightarrow> slots_inv s \<and> tasks_inv s"

lemma slots_inv_cong:
  assumes "slots_inv s" "threads s' = threads s" "workers (pool s') = workers (pool s)"
    "wp_max_workers (pool s') = wp_max_workers (pool s)"
  shows "slots_inv s'"
proof -
  have "slot_ok (pool s') th" if "slot_ok (pool s) th" for th
    using slot_ok_mono [OF that assms(4)] assms(3) by simp
  then show ?thesis using assms by (simp add: slots_inv_def)
qed

lemma sys_step_inv:
  assumes inv: "sys_inv s"
  shows "sys_inv (sys_step l s)"
proof (cases l)
  case (L_thread i t)
  then show ?thesis
    using inv thread_step_slots thread_step_tasks by (auto simp: sys_inv_def)
next
  case (L_submit task)
  obtain q r where q: "q_push (wp_queue (pool s)) task = (q, r)" by fastforce
  have "q_inv (wp_queue (pool s))" using inv by (simp add: sys_inv_def tasks_inv_def)
  from wpq.push_cases [OF this q] have "tasks_inv (submit_step task s)"
    using inv q by (auto simp: sys_inv_def tasks_inv_def submit_step_def)
  moreover have "slots_inv (submit_step task s)"
    by (rule slots_inv_cong [of s]) (use inv q in \<open>auto simp: sys_inv_def submit_step_def\<close>)
  ultimately show ?thesis using L_submit by (simp add: sys_inv_def)
next
  case (L_call k)
  obtain p c where c: "set_limit_step (callers s ! k) (pool s) = (p, c)" by fastforce
  note f = set_limit_step_keeps [OF c]
  have "slots_inv (call_step k s)"
    by (rule slots_inv_cong [of s]) (use inv f c in \<open>auto simp: sys_inv_def call_step_def\<close>)
  then show ?thesis using inv f c L_call by (auto simp: sys_inv_def tasks_inv_def call_step_def)
qed (use inv in \<open>auto simp: sys_inv_def tasks_inv_def
      wp_shutdown_def wp_shutdown_begin_def wp_shutdown_end_def intro!: slots_inv_cong [of s]\<close>)

lemma created_pool:
  assumes "worker_pool_create ok1 ok2 cfg = Some p"
  shows "sys_inv (boot p)"
proof -
  obtain c where c: "q_init True c = Some (wp_queue p)" "0 < c"
    and w: "workers p = map (\<lambda>i. \<lparr>ww_id = i, ww_state = WP_WORKER_ALIVE, last_heartbeat = 0, current_task = zero_task\<rparr>) [0..<wp_max_workers p]"
    using assms by (auto simp: worker_pool_create_def Let_def WP_DEFAULT_QUEUE_SIZE_def q_init_def
        split: option.splits if_splits)
  have "slots_inv (boot p)" using w by (auto simp: slots_inv_def boot_def slot_ok_def claimed_def)
  moreover have "tasks_inv (boot p)"
    using q_init_inv [OF c(1,2)] by (auto simp: tasks_inv_def boot_def in_hands_def map_filter_def)
  ultimately show ?thesis by (simp add: sys_inv_def)
qed

lemma wp_reach_inv: "wp_reach p ls s \<Longrightarrow> sys_inv (boot p) \<Longrightarrow> sys_inv s"
  by (induction rule: wp_reach.induct) (auto intro: sys_step_inv)

section \<open>Properties\<close>

definition two_workers :: worker_pool where
  "two_workers = the (worker_pool_create True True (Some \<lparr>cfg_max_workers = 2, cfg_queue_size = 4, cfg_graceful_ms = 0\<rparr>))"

definition job_of :: "u64 \<Rightarrow> string \<Rightarrow> wp_task" where
  "job_of n jt = mk_task n 1 0 0 0 (Some jt)"

text \<open>Both workers have seen slot 0 free; one worker runs an email task.\<close>

definition slot_race :: "wp_label list" where
  "slot_race = [L_thread 0 0, L_thread 1 0, L_thread 0 0, L_thread 1 0]"

definition email_run :: "wp_label list" where
  "email_run = L_limit (Some ''email'') 1 # replicate 8 (L_call 0) @ [L_submit (job_of 7 ''email''), L_submit (job_of 8 ''email'')]
     @ replicate 9 (L_thread 0 0)"

lemma two_workers_created:
  "worker_pool_create True True (Some \<lparr>cfg_max_workers = 2, cfg_queue_size = 4, cfg_graceful_ms = 0\<rparr>) = Some two_workers"
  by (simp add: two_workers_def worker_pool_create_def Let_def WP_MAX_WORKERS_def q_init_def)

lemma wp_reach_fold: "wp_reach p ls (fold sys_step ls (boot p))"
proof (induction ls rule: rev_induct)
  case Nil
  show ?case by (simp add: reach_boot)
next
  case (snoc l ls)
  then show ?case using reach_step by force
qed

text \<open>C2. No task is lost, duplicated or reordered by the pool, under every interleaving of submitters
  and workers: the accepted tasks are those taken, in the same order, followed by those queued; and
  every taken task has been executed once or is in the hands of exactly one worker about to run it.\<close>

theorem wp_tasks_exactly_once:
  assumes "worker_pool_create ok1 ok2 cfg = Some p" "wp_reach p ls s"
  shows "accepted s = taken s @ q_items (wp_queue (pool s)) \<and> mset (taken s) = mset (executed s) + in_hands (threads s)"
  using wp_reach_inv [OF assms(2) created_pool [OF assms(1)]] by (simp add: sys_inv_def tasks_inv_def)

theorem wp_tasks_exactly_once_witness:
  "let s = fold sys_step email_run (boot two_workers)
   in executed s = [job_of 7 ''email''] \<and> accepted s = taken s @ q_items (wp_queue (pool s))
      \<and> mset (taken s) = mset (executed s) + in_hands (threads s)"
proof -
  have "executed (fold sys_step email_run (boot two_workers)) = [job_of 7 ''email'']" by code_simp
  then show ?thesis
    using wp_tasks_exactly_once [OF two_workers_created wp_reach_fold [of two_workers email_run]] by (simp add: Let_def)
qed

text \<open>A worker never runs without a slot: no interleaving makes the scan for a slot fail, so
  \<open>workers[-1]\<close> is never written.\<close>

theorem wp_never_faults:
  assumes "worker_pool_create ok1 ok2 cfg = Some p" "wp_reach p ls s" "i < length (threads s)"
  shows "pc (threads s ! i) \<noteq> Fault"
proof -
  have "slot_ok (pool s) (threads s ! i)"
    using wp_reach_inv [OF assms(2) created_pool [OF assms(1)]] assms(3) by (simp add: sys_inv_def slots_inv_def)
  then show ?thesis by (auto simp: slot_ok_def)
qed

theorem wp_never_faults_witness:
  "pc (threads (fold sys_step slot_race (boot two_workers)) ! 1) \<noteq> Fault"
proof -
  have "1 < length (threads (fold sys_step slot_race (boot two_workers)))" by code_simp
  then show ?thesis
    using wp_never_faults [OF two_workers_created wp_reach_fold [of two_workers slot_race], of 1] by simp
qed

text \<open>The scan for a slot and its claim are not atomic: two workers can end up with the same slot, so
  that their states overwrite each other and one slot is never used.\<close>

theorem wp_slot_race:
  "\<exists>s. wp_reach two_workers slot_race s \<and> worker_id (threads s ! 0) = Some 0 \<and> worker_id (threads s ! 1) = Some 0
     \<and> ww_state (workers (pool s) ! 1) = WP_WORKER_ALIVE"
proof -
  let ?s = "fold sys_step slot_race (boot two_workers)"
  have "worker_id (threads ?s ! 0) = Some 0" "worker_id (threads ?s ! 1) = Some 0"
    "ww_state (workers (pool ?s) ! 1) = WP_WORKER_ALIVE" by code_simp+
  then show ?thesis using wp_reach_fold [of two_workers slot_race] by blast
qed

text \<open>After shutdown the remaining tasks are abandoned: once every worker has returned, no later
  action of any client makes the pool execute or take another task, although \<open>wp_submit\<close> goes on
  accepting tasks.\<close>

theorem wp_stopped_executes_nothing:
  assumes "\<forall>i < length (threads s). pc (threads s ! i) = Gone"
  shows "executed (fold sys_step ls s) = executed s \<and> taken (fold sys_step ls s) = taken s"
  using assms
proof (induction ls arbitrary: s)
  case (Cons l ls)
  have gone: "thread_step t i s = s" if "i < length (threads s)" for t i
    using Cons.prems that by (simp add: thread_step.simps)
  have "threads (sys_step l s) = threads s" "executed (sys_step l s) = executed s" "taken (sys_step l s) = taken s"
    using gone by (cases l; auto simp: submit_step_def call_step_def split: prod.splits)+
  then show ?case using Cons.IH [of "sys_step l s"] Cons.prems by simp
qed simp

definition stopped_run :: "wp_label list" where
  "stopped_run = [L_submit (job_of 1 ''a''), L_thread 0 0, L_thread 0 0, L_thread 1 0, L_thread 1 0, L_thread 1 0,
     L_shutdown, L_thread 0 0, L_thread 1 0]"

theorem wp_stopped_executes_nothing_witness:
  "let s = fold sys_step stopped_run (boot two_workers); s' = fold sys_step [L_submit (job_of 2 ''b''), L_thread 0 5] s
   in executed s' = executed s \<and> executed s' = [] \<and> length (accepted s') = 2"
proof -
  let ?s = "fold sys_step stopped_run (boot two_workers)" and ?ls = "[L_submit (job_of 2 ''b''), L_thread 0 5]"
  have "\<forall>i < length (threads ?s). pc (threads ?s ! i) = Gone" by code_simp
  moreover have "executed (fold sys_step ?ls ?s) = []" "length (accepted (fold sys_step ?ls ?s)) = 2" by code_simp+
  ultimately show ?thesis using wp_stopped_executes_nothing [of ?s ?ls] by (simp only: Let_def)
qed

end
