(* ===== verification/Job_Progress.thy ===== *)
theory Job_Progress
  imports Float64
begin

text \<open>
  The progress tracker of \<open>src/mini-job-system/src/job_progress.c\<close>: state changes, the completion
  percentage and the estimate of the remaining time in double arithmetic, the bounded log, and the
  callbacks as a trace of events.  Lemmas: every run keeps the percentage in [0, 100] and the log
  bounded and append-only, 100 percent is reported exactly when all steps are done.
\<close>

section \<open>Data\<close>

definition JP_MAX_LOG_ENTRIES :: nat where "JP_MAX_LOG_ENTRIES = 256"
definition JP_MAX_MESSAGE_LEN :: nat where "JP_MAX_MESSAGE_LEN = 128"

datatype jp_state = JP_STATE_QUEUED | JP_STATE_RUNNING | JP_STATE_SUCCEEDED | JP_STATE_FAILED | JP_STATE_CANCELLED

record jp_log_entry =
  le_timestamp :: time_t
  le_completed :: int
  le_pct :: double
  le_message :: string

record job_progress =
  jp_job_id :: u64
  jp_state_of :: jp_state
  total_steps :: int
  completed_steps :: int
  progress_pct :: double
  jp_started_at :: time_t
  jp_updated_at :: time_t
  jp_completed_at :: time_t
  eta_seconds :: double
  avg_step_ms :: double
  jp_log :: "jp_log_entry list"
  progress_callback :: ptr
  progress_ud :: ptr
  state_callback :: ptr
  state_ud :: ptr
  jp_failed :: bool

datatype jp_event = Progress_event u64 int int double ptr | State_event u64 jp_state jp_state ptr

section \<open>Operations\<close>

definition job_progress_create :: "bool \<Rightarrow> job_progress option" where
  "job_progress_create ok =
     (if \<not> ok then None
      else Some \<lparr>jp_job_id = 0, jp_state_of = JP_STATE_QUEUED, total_steps = 0, completed_steps = 0, progress_pct = 0,
                 jp_started_at = 0, jp_updated_at = 0, jp_completed_at = 0, eta_seconds = 0, avg_step_ms = 0,
                 jp_log = [], progress_callback = NULL, progress_ud = NULL, state_callback = NULL,
                 state_ud = NULL, jp_failed = False\<rparr>)"

definition jp_set_total_steps :: "job_progress \<Rightarrow> int \<Rightarrow> job_progress" where
  "jp_set_total_steps jp tot = jp\<lparr>total_steps := (if tot > 0 then tot else 0)\<rparr>"

definition jp_set_progress_callback :: "job_progress \<Rightarrow> ptr \<Rightarrow> ptr \<Rightarrow> job_progress" where
  "jp_set_progress_callback jp cb ud = jp\<lparr>progress_callback := cb, progress_ud := ud\<rparr>"

definition jp_set_state_callback :: "job_progress \<Rightarrow> ptr \<Rightarrow> ptr \<Rightarrow> job_progress" where
  "jp_set_state_callback jp cb ud = jp\<lparr>state_callback := cb, state_ud := ud\<rparr>"

fun state_name :: "jp_state \<Rightarrow> string" where
  "state_name JP_STATE_QUEUED = ''QUEUED''"
| "state_name JP_STATE_RUNNING = ''RUNNING''"
| "state_name JP_STATE_SUCCEEDED = ''SUCCEEDED''"
| "state_name JP_STATE_FAILED = ''FAILED''"
| "state_name JP_STATE_CANCELLED = ''CANCELLED''"

definition jp_state_name :: "jp_state \<Rightarrow> string" where
  "jp_state_name s = state_name s"

definition jp_append_log :: "time_t \<Rightarrow> string option \<Rightarrow> job_progress \<Rightarrow> job_progress" where
  "jp_append_log now message jp =
     (case message of
        Some m \<Rightarrow>
          if length (jp_log jp) < JP_MAX_LOG_ENTRIES
          then jp\<lparr>jp_log := jp_log jp @ [\<lparr>le_timestamp = now, le_completed = completed_steps jp,
                 le_pct = progress_pct jp, le_message = strncpy_buf JP_MAX_MESSAGE_LEN m\<rparr>]\<rparr>
          else jp
      | None \<Rightarrow> jp)"

definition jp_finish :: "time_t \<Rightarrow> job_progress \<Rightarrow> job_progress" where
  "jp_finish now jp =
     (let jp1 = jp\<lparr>jp_completed_at := now\<rparr>
      in if completed_steps jp1 > 0 \<and> jp_started_at jp1 > 0
         then (let elapsed = difftime now (jp_started_at jp1)
               in if elapsed > 0
                  then jp1\<lparr>avg_step_ms := fl (fmul elapsed 1000 / of_c_int (completed_steps jp1))\<rparr>
                  else jp1)
         else jp1)"

definition jp_transition_state :: "time_t \<Rightarrow> job_progress \<Rightarrow> jp_state \<Rightarrow> string option \<Rightarrow> job_progress \<times> jp_event list" where
  "jp_transition_state now jp new_state message =
     (let old = jp_state_of jp;
          jp1 = jp\<lparr>jp_state_of := new_state\<rparr>;
          jp2 = (case new_state of
                   JP_STATE_RUNNING \<Rightarrow> jp1\<lparr>jp_started_at := now\<rparr>
                 | JP_STATE_SUCCEEDED \<Rightarrow> jp_finish now jp1
                 | JP_STATE_FAILED \<Rightarrow> jp_finish now jp1
                 | JP_STATE_CANCELLED \<Rightarrow> jp_finish now jp1
                 | JP_STATE_QUEUED \<Rightarrow> jp1);
          evs = (if state_callback jp2 \<noteq> NULL then [State_event (jp_job_id jp2) old new_state (state_ud jp2)] else [])
      in (jp_append_log now message jp2, evs))"

definition jp_pct :: "int \<Rightarrow> int \<Rightarrow> double" where
  "jp_pct completed tot =
     (if tot > 0
      then (let p = fmul (fl (of_c_int completed / of_c_int tot)) 100 in if p > 100 then 100 else p)
      else 0)"

definition jp_estimate :: "time_t \<Rightarrow> job_progress \<Rightarrow> job_progress" where
  "jp_estimate now jp =
     (if completed_steps jp > 1 \<and> jp_started_at jp > 0
      then (let elapsed = difftime now (jp_started_at jp)
            in if elapsed > 0
               then (let avg = fl (fmul elapsed 1000 / of_c_int (completed_steps jp));
                         jp1 = jp\<lparr>avg_step_ms := avg\<rparr>
                     in if total_steps jp1 > 0
                        then jp1\<lparr>eta_seconds := fl (fmul (of_c_int (total_steps jp1 - completed_steps jp1)) avg / 1000)\<rparr>
                        else jp1)
               else jp)
      else jp)"

definition jp_update_progress :: "time_t \<Rightarrow> job_progress \<Rightarrow> int \<Rightarrow> string option \<Rightarrow> job_progress \<times> int \<times> jp_event list" where
  "jp_update_progress now jp completed message =
     (if jp_state_of jp \<noteq> JP_STATE_RUNNING then (jp, -2, [])
      else
        let c = (if completed < 0 then 0 else completed);
            jp1 = jp\<lparr>completed_steps := c, progress_pct := jp_pct c (total_steps jp), jp_updated_at := now\<rparr>;
            jp2 = jp_estimate now jp1;
            evs = (if progress_callback jp2 \<noteq> NULL
                   then [Progress_event (jp_job_id jp2) (completed_steps jp2) (total_steps jp2) (progress_pct jp2) (progress_ud jp2)]
                   else [])
        in (jp_append_log now message jp2, 0, evs))"

definition jp_increment_progress :: "time_t \<Rightarrow> job_progress \<Rightarrow> string option \<Rightarrow> job_progress \<times> int \<times> jp_event list" where
  "jp_increment_progress now jp message = jp_update_progress now jp (completed_steps jp + 1) message"

definition jp_fail :: "time_t \<Rightarrow> job_progress \<Rightarrow> string option \<Rightarrow> job_progress \<times> jp_event list" where
  "jp_fail now jp message = jp_transition_state now (jp\<lparr>jp_failed := True\<rparr>) JP_STATE_FAILED message"

definition jp_cancel :: "time_t \<Rightarrow> job_progress \<Rightarrow> string option \<Rightarrow> job_progress \<times> jp_event list" where
  "jp_cancel now jp message = jp_transition_state now jp JP_STATE_CANCELLED message"

definition jp_get_state :: "job_progress option \<Rightarrow> jp_state" where
  "jp_get_state h = (case h of Some jp \<Rightarrow> jp_state_of jp | None \<Rightarrow> JP_STATE_FAILED)"

definition jp_get_progress :: "job_progress option \<Rightarrow> double" where
  "jp_get_progress h = (case h of Some jp \<Rightarrow> progress_pct jp | None \<Rightarrow> 0)"

definition jp_get_eta :: "job_progress option \<Rightarrow> double" where
  "jp_get_eta h = (case h of Some jp \<Rightarrow> eta_seconds jp | None \<Rightarrow> 0)"

definition jp_get_elapsed :: "time_t \<Rightarrow> job_progress option \<Rightarrow> time_t" where
  "jp_get_elapsed now h =
     (case h of None \<Rightarrow> 0
      | Some jp \<Rightarrow>
          if jp_started_at jp = 0 then 0
          else if jp_completed_at jp > 0 then trunc (difftime (jp_completed_at jp) (jp_started_at jp))
          else trunc (difftime now (jp_started_at jp)))"

definition jp_get_log :: "job_progress option \<Rightarrow> jp_log_entry list" where
  "jp_get_log h = (case h of None \<Rightarrow> [] | Some jp \<Rightarrow> jp_log jp)"

section \<open>Runs\<close>

datatype jp_op = Set_total int | Transition jp_state "string option" | Update int "string option"
  | Increment "string option" | Fail "string option" | Cancel "string option"
  | Set_progress_cb ptr ptr | Set_state_cb ptr ptr

fun jp_apply :: "time_t \<times> jp_op \<Rightarrow> job_progress \<Rightarrow> job_progress" where
  "jp_apply (t, Set_total n) jp = jp_set_total_steps jp n"
| "jp_apply (t, Transition s m) jp = fst (jp_transition_state t jp s m)"
| "jp_apply (t, Update c m) jp = fst (jp_update_progress t jp c m)"
| "jp_apply (t, Increment m) jp = fst (jp_increment_progress t jp m)"
| "jp_apply (t, Fail m) jp = fst (jp_fail t jp m)"
| "jp_apply (t, Cancel m) jp = fst (jp_cancel t jp m)"
| "jp_apply (t, Set_progress_cb cb ud) jp = jp_set_progress_callback jp cb ud"
| "jp_apply (t, Set_state_cb cb ud) jp = jp_set_state_callback jp cb ud"

definition jp_inv :: "job_progress \<Rightarrow> bool" where
  "jp_inv jp \<longleftrightarrow> 0 \<le> total_steps jp \<and> 0 \<le> completed_steps jp \<and> 0 \<le> progress_pct jp \<and> progress_pct jp \<le> 100
     \<and> length (jp_log jp) \<le> JP_MAX_LOG_ENTRIES
     \<and> list_all (\<lambda>e. 0 \<le> le_pct e \<and> le_pct e \<le> 100 \<and> length (le_message e) < JP_MAX_MESSAGE_LEN) (jp_log jp)"

definition running_job :: job_progress where
  "running_job = fst (jp_transition_state 1000 (jp_set_total_steps (the (job_progress_create True)) 3) JP_STATE_RUNNING None)"

section \<open>The percentage\<close>

lemma jp_pct_range: "0 \<le> completed \<Longrightarrow> 0 \<le> jp_pct completed tot \<and> jp_pct completed tot \<le> 100"
  by (auto simp: jp_pct_def Let_def fmul_def of_c_int_def intro!: fl_nonneg mult_nonneg_nonneg divide_nonneg_nonneg)

lemma ratio_bound:
  assumes "0 \<le> c" "c < t" "t < 2 ^ 31"
  shows "fmul (fl (of_c_int c / of_c_int t)) 100 < 100"
proof -
  let ?b = "of_int (2 ^ 31 - 1) * 2 powi (-31) :: rat"
  have exact: "of_c_int c = of_int c" "of_c_int t = of_int t" using assms by (simp_all add: of_c_int_def fl_of_int)
  have b: "fl ?b = ?b" by (rule fl_representable) simp_all
  have p31: "(2::rat) powi (-31) = 1 / 2 ^ 31" by (simp add: power_int_minus)
  have bv: "?b = 1 - 1 / 2 ^ 31" unfolding p31 by simp
  have "c \<le> t - 1" using assms by simp
  then have "of_int c \<le> (of_int (t - 1) :: rat)" by (simp only: of_int_le_iff)
  then have "of_int c / of_int t \<le> (1 - 1 / of_int t :: rat)" using assms by (simp add: field_simps)
  also have "\<dots> \<le> 1 - 1 / 2 ^ 31"
  proof -
    have "(of_int t :: rat) \<le> of_int (2 ^ 31)" using assms by (simp only: of_int_le_iff)
    then show ?thesis using assms by (simp add: frac_le)
  qed
  finally have "fl (of_int c / of_int t) \<le> ?b" using fl_le_bound [OF _ b] bv by simp
  then have "fl (of_int c / of_int t) * 100 \<le> of_int (100 * (2 ^ 31 - 1)) * 2 powi (-31)" by simp
  moreover have "fl (of_int (100 * (2 ^ 31 - 1)) * 2 powi (-31)) = of_int (100 * (2 ^ 31 - 1)) * 2 powi (-31)"
    by (rule fl_representable) simp_all
  ultimately have "fmul (fl (of_int c / of_int t)) 100 \<le> of_int (100 * (2 ^ 31 - 1)) * 2 powi (-31)"
    unfolding fmul_def by (rule fl_le_bound)
  also have "\<dots> < 100" unfolding p31 by simp
  finally show ?thesis using exact by simp
qed

lemma jp_pct_full:
  assumes "0 \<le> c" "0 < t" "t < 2 ^ 31"
  shows "jp_pct c t = 100 \<longleftrightarrow> t \<le> c"
proof
  assume full: "jp_pct c t = 100"
  show "t \<le> c"
  proof (rule ccontr)
    assume "\<not> t \<le> c"
    then have "fmul (fl (of_c_int c / of_c_int t)) 100 < 100" using ratio_bound [of c t] assms by simp
    then show False using full assms(2) by (simp add: jp_pct_def Let_def)
  qed
next
  assume le: "t \<le> c"
  have t: "of_c_int t = of_int t" using assms by (simp add: of_c_int_def fl_of_int)
  have "of_c_int t \<le> of_c_int c" using le by (simp add: of_c_int_def fl_mono)
  then have "1 \<le> of_c_int c / of_c_int t" using t assms by (simp add: field_simps)
  then have "1 \<le> fl (of_c_int c / of_c_int t)" using fl_of_int_ge [of 1] by simp
  then have "100 \<le> fmul (fl (of_c_int c / of_c_int t)) 100"
    using fl_of_int_ge [of 100 "fl (of_c_int c / of_c_int t) * 100"] by (simp add: fmul_def)
  then show "jp_pct c t = 100" using assms by (auto simp: jp_pct_def Let_def)
qed

lemma jp_pct_mono:
  assumes "c \<le> c'" "0 < t"
  shows "jp_pct c t \<le> jp_pct c' t"
proof -
  have "0 \<le> of_c_int t" using assms by (simp add: of_c_int_def fl_nonneg)
  then have "fl (of_c_int c / of_c_int t) \<le> fl (of_c_int c' / of_c_int t)"
    using assms(1) by (intro fl_mono divide_right_mono) (simp_all add: of_c_int_def fl_mono)
  then have "fmul (fl (of_c_int c / of_c_int t)) 100 \<le> fmul (fl (of_c_int c' / of_c_int t)) 100"
    unfolding fmul_def by (intro fl_mono) simp
  then show ?thesis using assms(2) by (simp add: jp_pct_def Let_def)
qed

section \<open>Invariant\<close>

lemma jp_append_log_simps [simp]:
  "total_steps (jp_append_log now m jp) = total_steps jp" "completed_steps (jp_append_log now m jp) = completed_steps jp"
  "progress_pct (jp_append_log now m jp) = progress_pct jp" "jp_state_of (jp_append_log now m jp) = jp_state_of jp"
  "jp_started_at (jp_append_log now m jp) = jp_started_at jp" "jp_completed_at (jp_append_log now m jp) = jp_completed_at jp"
  by (auto simp: jp_append_log_def split: option.splits)

lemma jp_append_log_inv: "jp_inv jp \<Longrightarrow> jp_inv (jp_append_log now m jp)"
  by (auto simp: jp_inv_def jp_append_log_def strncpy_buf_def JP_MAX_MESSAGE_LEN_def split: option.splits)

lemma jp_finish_simps [simp]:
  "total_steps (jp_finish now jp) = total_steps jp" "completed_steps (jp_finish now jp) = completed_steps jp"
  "progress_pct (jp_finish now jp) = progress_pct jp" "jp_log (jp_finish now jp) = jp_log jp"
  "jp_started_at (jp_finish now jp) = jp_started_at jp" "jp_completed_at (jp_finish now jp) = now"
  by (auto simp: jp_finish_def Let_def)

lemma jp_estimate_simps [simp]:
  "total_steps (jp_estimate now jp) = total_steps jp" "completed_steps (jp_estimate now jp) = completed_steps jp"
  "progress_pct (jp_estimate now jp) = progress_pct jp" "jp_log (jp_estimate now jp) = jp_log jp"
  "jp_state_of (jp_estimate now jp) = jp_state_of jp"
  by (auto simp: jp_estimate_def Let_def)

lemma jp_transition_inv: "jp_inv jp \<Longrightarrow> jp_inv (fst (jp_transition_state t jp s m))"
  by (auto simp: jp_transition_state_def Let_def intro!: jp_append_log_inv split: jp_state.splits)
     (auto simp: jp_inv_def)

lemma jp_update_inv: "jp_inv jp \<Longrightarrow> jp_inv (fst (jp_update_progress t jp c m))"
  using jp_pct_range [of "if c < 0 then 0 else c" "total_steps jp"]
  by (auto simp: jp_update_progress_def Let_def intro!: jp_append_log_inv) (auto simp: jp_inv_def)

lemma jp_apply_inv: "jp_inv jp \<Longrightarrow> jp_inv (jp_apply x jp)"
  by (cases "(x, jp)" rule: jp_apply.cases)
     (auto simp: jp_increment_progress_def jp_fail_def jp_cancel_def intro!: jp_update_inv jp_transition_inv,
      auto simp: jp_inv_def jp_set_total_steps_def jp_set_progress_callback_def jp_set_state_callback_def)

lemma jp_append_log_ext: "\<exists>es. jp_log (jp_append_log now m jp) = jp_log jp @ es"
  by (auto simp: jp_append_log_def split: option.splits)

lemma jp_transition_log: "\<exists>es. jp_log (fst (jp_transition_state t jp s m)) = jp_log jp @ es"
proof -
  obtain jp2 where "fst (jp_transition_state t jp s m) = jp_append_log t m jp2" "jp_log jp2 = jp_log jp"
    by (cases s) (auto simp: jp_transition_state_def Let_def)
  then show ?thesis using jp_append_log_ext [of t m jp2] by simp
qed

lemma jp_update_log: "\<exists>es. jp_log (fst (jp_update_progress t jp c m)) = jp_log jp @ es"
proof (cases "jp_state_of jp = JP_STATE_RUNNING")
  case True
  then obtain jp2 where "fst (jp_update_progress t jp c m) = jp_append_log t m jp2" "jp_log jp2 = jp_log jp"
    by (simp add: jp_update_progress_def Let_def)
  then show ?thesis using jp_append_log_ext [of t m jp2] by simp
qed (simp add: jp_update_progress_def)

lemma jp_apply_log: "\<exists>es. jp_log (jp_apply x jp) = jp_log jp @ es"
proof (cases "(x, jp)" rule: jp_apply.cases)
  case (5 t m jp')
  then show ?thesis using jp_transition_log [of t "jp\<lparr>jp_failed := True\<rparr>" JP_STATE_FAILED m] by (simp add: jp_fail_def)
qed (simp_all add: jp_transition_log jp_update_log jp_increment_progress_def jp_cancel_def
      jp_set_total_steps_def jp_set_progress_callback_def jp_set_state_callback_def)

section \<open>Properties\<close>

text \<open>Whatever operations are applied to a new tracker, its percentage and those in its log stay
  between 0 and 100, the log never exceeds 256 entries of at most 127 characters, and no entry is
  changed once written: each operation only appends.\<close>

theorem jp_run_bounds:
  assumes "job_progress_create True = Some jp0"
  shows "jp_inv (fold jp_apply ops jp0) \<and> (\<exists>es. jp_log (jp_apply x (fold jp_apply ops jp0)) = jp_log (fold jp_apply ops jp0) @ es)"
proof -
  have "jp_inv jp0" using assms by (auto simp: job_progress_create_def jp_inv_def)
  then have "jp_inv (fold jp_apply ops jp0)"
    by (induction ops arbitrary: jp0) (simp_all add: jp_apply_inv)
  then show ?thesis using jp_apply_log by blast
qed

theorem jp_run_bounds_witness:
  "jp_inv (fold jp_apply [(5, Set_total 4), (6, Transition JP_STATE_RUNNING (Some ''go'')), (9, Update 9 None)]
     (the (job_progress_create True)))"
proof -
  have "job_progress_create True = Some (the (job_progress_create True))" by (simp add: job_progress_create_def)
  from jp_run_bounds [OF this] show ?thesis by blast
qed

text \<open>C39. For step counts of the C type \<open>int\<close>, a running job reports 100 percent exactly when all its
  steps are completed: rounding never reports completion early, nor misses it.\<close>

theorem jp_full_exactly_when_done:
  assumes "jp_state_of jp = JP_STATE_RUNNING" "0 < total_steps jp" "total_steps jp < 2 ^ 31" "0 \<le> c"
  shows "progress_pct (fst (jp_update_progress now jp c m)) = 100 \<longleftrightarrow> total_steps jp \<le> c"
  using assms jp_pct_full [of c "total_steps jp"] by (simp add: jp_update_progress_def Let_def)

theorem jp_full_exactly_when_done_witness:
  "progress_pct (fst (jp_update_progress 1010 running_job 2 None)) \<noteq> 100
   \<and> progress_pct (fst (jp_update_progress 1010 running_job 3 None)) = 100"
proof -
  have "jp_state_of running_job = JP_STATE_RUNNING" "total_steps running_job = 3"
    by (simp_all add: running_job_def job_progress_create_def jp_transition_state_def jp_set_total_steps_def Let_def)
  then show ?thesis using jp_full_exactly_when_done [of running_job] by simp
qed

text \<open>A finished job can be started again, because no transition is refused; its completion time is
  not cleared, so until it finishes once more the elapsed time is that between the new start and the
  old end, which is not positive.\<close>

theorem jp_restart_elapsed:
  assumes "job_progress_create True = Some jp0" "0 < t1" "t1 \<le> t2" "t2 \<le> t3" "t3 < 2 ^ 53"
    and "jp1 = fst (jp_transition_state t1 jp0 JP_STATE_RUNNING m1)"
    and "jp2 = fst (jp_transition_state t2 jp1 JP_STATE_FAILED m2)"
    and "jp3 = fst (jp_transition_state t3 jp2 JP_STATE_RUNNING m3)"
  shows "jp_get_elapsed now (Some jp3) = t2 - t3"
proof -
  have d: "difftime t2 t3 = of_int (t2 - t3)" using assms by (intro difftime_exact) simp
  have "jp_started_at jp3 = t3" "jp_completed_at jp3 = t2"
    using assms(6-8) by (simp_all add: jp_transition_state_def Let_def)
  moreover have "trunc (of_int (t2 - t3)) = t2 - t3" unfolding trunc_def by simp
  ultimately show ?thesis using assms(2-5) d by (simp add: jp_get_elapsed_def)
qed

theorem jp_restart_elapsed_witness:
  "let jp1 = fst (jp_transition_state 100 (the (job_progress_create True)) JP_STATE_RUNNING None);
       jp2 = fst (jp_transition_state 110 jp1 JP_STATE_FAILED None);
       jp3 = fst (jp_transition_state 150 jp2 JP_STATE_RUNNING None)
   in jp_get_elapsed 160 (Some jp3) = -40"
  unfolding Let_def
  by (subst jp_restart_elapsed [OF _ _ _ _ _ refl refl refl, of "the (job_progress_create True)"])
     (simp_all add: job_progress_create_def)

end
