(* ===== verification/Rate_Limiter.thy ===== *)
theory Rate_Limiter
  imports Float64 Fifo
begin

text \<open>
  The rate limiters of \<open>src/mini-job-system/src/rate_limiter.c\<close>: token bucket, leaky bucket, sliding
  window log and fixed window counter, in double arithmetic, behind one dispatcher.  The tagged union
  is a datatype whose constructor is the tag.  \<open>rl_consume\<close> reads the clock up to three times: the
  refill of the dispatcher, the refill of the limiter, the time stamp of a log entry.

  Lemmas: the level of every limiter stays within its capacity; for whole-number parameters the token
  bucket refines an integer bucket and obeys the bound \<open>C \<le> r T + b\<close> of the comment in the source;
  the sliding window admits at most its budget in any window; its log overruns its 256 entries when
  the budget allows more.
\<close>

section \<open>Data\<close>

record rl_token_bucket =
  tb_rate :: double
  tb_burst :: double
  tb_tokens :: double
  tb_last_refill :: time_t

record rl_leaky_bucket =
  lb_rate :: double
  lb_capacity :: double
  lb_water :: double
  lb_last_leak :: time_t

record rl_window_entry =
  we_timestamp :: time_t
  we_cost :: double

record rl_sliding_window =
  sw_window_sec :: double
  sw_max_cost :: double
  sw_current_cost :: double
  sw_entries :: "rl_window_entry list"
  sw_count :: nat
  sw_head :: nat

record rl_fixed_window =
  fw_window_sec :: double
  fw_max_count :: double
  fw_count :: double
  fw_window_start :: time_t

datatype rate_limiter = RL_TYPE_TOKEN_BUCKET rl_token_bucket | RL_TYPE_LEAKY_BUCKET rl_leaky_bucket
  | RL_TYPE_SLIDING_WINDOW rl_sliding_window | RL_TYPE_FIXED_WINDOW rl_fixed_window

section \<open>Token bucket\<close>

definition rl_token_refill :: "time_t \<Rightarrow> rl_token_bucket \<Rightarrow> rl_token_bucket" where
  "rl_token_refill now tb =
     (if now \<le> tb_last_refill tb then tb
      else
        let elapsed = difftime now (tb_last_refill tb);
            tokens = fadd (tb_tokens tb) (fmul (tb_rate tb) elapsed)
        in tb\<lparr>tb_tokens := (if tokens > tb_burst tb then tb_burst tb else tokens), tb_last_refill := now\<rparr>)"

definition rl_token_bucket_init :: "time_t \<Rightarrow> double \<Rightarrow> double \<Rightarrow> rate_limiter" where
  "rl_token_bucket_init now rate burst =
     (let b = (if burst > rate then burst else rate)
      in RL_TYPE_TOKEN_BUCKET \<lparr>tb_rate = (if rate > 0 then rate else 1), tb_burst = b, tb_tokens = b, tb_last_refill = now\<rparr>)"

definition token_consume :: "time_t \<Rightarrow> rl_token_bucket \<Rightarrow> double \<Rightarrow> bool \<Rightarrow> rl_token_bucket \<times> bool" where
  "token_consume now tb0 cost consume =
     (let tb = rl_token_refill now tb0
      in if tb_tokens tb \<ge> cost
         then (if consume then tb\<lparr>tb_tokens := fsub (tb_tokens tb) cost\<rparr> else tb, True)
         else (tb, False))"

definition token_time_until_next :: "rl_token_bucket \<Rightarrow> double \<Rightarrow> double" where
  "token_time_until_next tb cost =
     (let deficit = fsub cost (tb_tokens tb) in if deficit \<le> 0 then 0 else fl (deficit / tb_rate tb))"

definition token_usage_ratio :: "rl_token_bucket \<Rightarrow> double option" where
  "token_usage_ratio tb = map_option (\<lambda>q. fsub 1 q) (fdiv (tb_tokens tb) (tb_burst tb))"

definition token_remaining :: "rl_token_bucket \<Rightarrow> double" where
  "token_remaining tb = tb_tokens tb"

section \<open>Leaky bucket\<close>

definition rl_leaky_drain :: "time_t \<Rightarrow> rl_leaky_bucket \<Rightarrow> rl_leaky_bucket" where
  "rl_leaky_drain now lb =
     (if now \<le> lb_last_leak lb then lb
      else
        let elapsed = difftime now (lb_last_leak lb);
            water = fsub (lb_water lb) (fmul (lb_rate lb) elapsed)
        in lb\<lparr>lb_water := (if water < 0 then 0 else water), lb_last_leak := now\<rparr>)"

definition rl_leaky_bucket_init :: "time_t \<Rightarrow> double \<Rightarrow> double \<Rightarrow> rate_limiter" where
  "rl_leaky_bucket_init now rate capacity =
     RL_TYPE_LEAKY_BUCKET \<lparr>lb_rate = (if rate > 0 then rate else 1), lb_capacity = (if capacity > 0 then capacity else rate),
       lb_water = 0, lb_last_leak = now\<rparr>"

definition leaky_consume :: "time_t \<Rightarrow> rl_leaky_bucket \<Rightarrow> double \<Rightarrow> bool \<Rightarrow> rl_leaky_bucket \<times> bool" where
  "leaky_consume now lb0 cost consume =
     (let lb = rl_leaky_drain now lb0
      in if fadd (lb_water lb) cost \<le> lb_capacity lb
         then (if consume then lb\<lparr>lb_water := fadd (lb_water lb) cost\<rparr> else lb, True)
         else (lb, False))"

definition leaky_time_until_next :: "rl_leaky_bucket \<Rightarrow> double \<Rightarrow> double" where
  "leaky_time_until_next lb cost =
     (let available = fsub (lb_capacity lb) (lb_water lb)
      in if cost \<le> available then 0 else fl (fsub cost available / lb_rate lb))"

definition leaky_usage_ratio :: "rl_leaky_bucket \<Rightarrow> double option" where
  "leaky_usage_ratio lb = fdiv (lb_water lb) (lb_capacity lb)"

definition leaky_remaining :: "rl_leaky_bucket \<Rightarrow> double" where
  "leaky_remaining lb = fsub (lb_capacity lb) (lb_water lb)"

section \<open>Sliding window\<close>

fun prune_loop :: "time_t \<Rightarrow> nat \<Rightarrow> rl_sliding_window \<Rightarrow> rl_sliding_window" where
  "prune_loop cutoff 0 sw = sw\<lparr>sw_count := 0\<rparr>"
| "prune_loop cutoff (Suc n) sw =
     (let e = sw_entries sw ! sw_head sw
      in if we_timestamp e \<ge> cutoff then sw\<lparr>sw_count := Suc n\<rparr>
         else prune_loop cutoff n
                (sw\<lparr>sw_current_cost := fsub (sw_current_cost sw) (we_cost e), sw_head := (sw_head sw + 1) mod 256\<rparr>))"

definition rl_sliding_prune :: "time_t \<Rightarrow> rl_sliding_window \<Rightarrow> rl_sliding_window" where
  "rl_sliding_prune now sw =
     (let c = now - trunc (sw_window_sec sw);
          cutoff = (if c < 0 then 0 else c);
          sw1 = prune_loop cutoff (sw_count sw) sw
      in if sw_current_cost sw1 < 0 then sw1\<lparr>sw_current_cost := 0\<rparr> else sw1)"

definition rl_sliding_window_init :: "double \<Rightarrow> double \<Rightarrow> rate_limiter" where
  "rl_sliding_window_init window_sec max_cost =
     RL_TYPE_SLIDING_WINDOW \<lparr>sw_window_sec = (if window_sec > 0 then window_sec else 1),
       sw_max_cost = (if max_cost > 0 then max_cost else 1), sw_current_cost = 0,
       sw_entries = replicate 256 \<lparr>we_timestamp = 0, we_cost = 0\<rparr>, sw_count = 0, sw_head = 0\<rparr>"

definition sliding_consume :: "time_t \<Rightarrow> time_t \<Rightarrow> rl_sliding_window \<Rightarrow> double \<Rightarrow> bool \<Rightarrow> rl_sliding_window \<times> bool" where
  "sliding_consume now stamp sw0 cost consume =
     (let sw = rl_sliding_prune now sw0
      in if fadd (sw_current_cost sw) cost \<le> sw_max_cost sw
         then (if consume
               then (let tail = (sw_head sw + sw_count sw) mod 256
                     in sw\<lparr>sw_entries := (sw_entries sw)[tail := \<lparr>we_timestamp = stamp, we_cost = cost\<rparr>],
                           sw_current_cost := fadd (sw_current_cost sw) cost, sw_count := sw_count sw + 1\<rparr>)
               else sw, True)
         else (sw, False))"

definition sliding_time_until_next :: "time_t \<Rightarrow> rl_sliding_window \<Rightarrow> double \<Rightarrow> double" where
  "sliding_time_until_next now sw cost =
     (if fadd (sw_current_cost sw) cost \<le> sw_max_cost sw then 0
      else if sw_count sw = 0 then 0
      else let d = difftime (we_timestamp (sw_entries sw ! sw_head sw) + trunc (sw_window_sec sw)) now
           in if d < 0 then 0 else d)"

definition sliding_usage_ratio :: "rl_sliding_window \<Rightarrow> double option" where
  "sliding_usage_ratio sw = fdiv (sw_current_cost sw) (sw_max_cost sw)"

definition sliding_remaining :: "rl_sliding_window \<Rightarrow> double" where
  "sliding_remaining sw = fsub (sw_max_cost sw) (sw_current_cost sw)"

section \<open>Fixed window\<close>

definition rl_fixed_window_init :: "time_t \<Rightarrow> double \<Rightarrow> double \<Rightarrow> rate_limiter" where
  "rl_fixed_window_init now window_sec max_count =
     RL_TYPE_FIXED_WINDOW \<lparr>fw_window_sec = (if window_sec > 0 then window_sec else 1),
       fw_max_count = (if max_count > 0 then max_count else 1), fw_count = 0, fw_window_start = now\<rparr>"

definition fixed_consume :: "time_t \<Rightarrow> rl_fixed_window \<Rightarrow> double \<Rightarrow> bool \<Rightarrow> rl_fixed_window \<times> bool" where
  "fixed_consume now fw0 cost consume =
     (let fw = (if difftime now (fw_window_start fw0) \<ge> fw_window_sec fw0
                then fw0\<lparr>fw_window_start := now, fw_count := 0\<rparr> else fw0)
      in if fadd (fw_count fw) cost \<le> fw_max_count fw
         then (if consume then fw\<lparr>fw_count := fadd (fw_count fw) cost\<rparr> else fw, True)
         else (fw, False))"

definition fixed_time_until_next :: "time_t \<Rightarrow> rl_fixed_window \<Rightarrow> double" where
  "fixed_time_until_next now fw =
     (if fw_count fw < fw_max_count fw then 0 else fsub (fw_window_sec fw) (difftime now (fw_window_start fw)))"

definition fixed_usage_ratio :: "rl_fixed_window \<Rightarrow> double option" where
  "fixed_usage_ratio fw = fdiv (fw_count fw) (fw_max_count fw)"

definition fixed_remaining :: "rl_fixed_window \<Rightarrow> double" where
  "fixed_remaining fw = fsub (fw_max_count fw) (fw_count fw)"

section \<open>Dispatcher\<close>

definition rl_consume :: "time_t \<Rightarrow> time_t \<Rightarrow> time_t \<Rightarrow> rate_limiter \<Rightarrow> double \<Rightarrow> rate_limiter \<times> bool" where
  "rl_consume t1 t2 t3 rl cost =
     (if cost \<le> 0 then (rl, True)
      else case rl of
        RL_TYPE_TOKEN_BUCKET tb \<Rightarrow> apfst RL_TYPE_TOKEN_BUCKET (token_consume t2 (rl_token_refill t1 tb) cost True)
      | RL_TYPE_LEAKY_BUCKET lb \<Rightarrow> apfst RL_TYPE_LEAKY_BUCKET (leaky_consume t2 (rl_leaky_drain t1 lb) cost True)
      | RL_TYPE_SLIDING_WINDOW sw \<Rightarrow> apfst RL_TYPE_SLIDING_WINDOW (sliding_consume t2 t3 (rl_sliding_prune t1 sw) cost True)
      | RL_TYPE_FIXED_WINDOW fw \<Rightarrow> apfst RL_TYPE_FIXED_WINDOW (fixed_consume t1 fw cost True))"

definition rl_consume_nowait :: "time_t \<Rightarrow> rate_limiter \<Rightarrow> double \<Rightarrow> rate_limiter \<times> bool" where
  "rl_consume_nowait t rl cost =
     (if cost \<le> 0 then (rl, True)
      else case rl of
        RL_TYPE_TOKEN_BUCKET tb \<Rightarrow> apfst RL_TYPE_TOKEN_BUCKET (token_consume t tb cost False)
      | RL_TYPE_LEAKY_BUCKET lb \<Rightarrow> apfst RL_TYPE_LEAKY_BUCKET (leaky_consume t lb cost False)
      | RL_TYPE_SLIDING_WINDOW sw \<Rightarrow> apfst RL_TYPE_SLIDING_WINDOW (sliding_consume t t sw cost False)
      | RL_TYPE_FIXED_WINDOW fw \<Rightarrow> apfst RL_TYPE_FIXED_WINDOW (fixed_consume t fw cost False))"

text \<open>\<open>rl_would_allow\<close> casts away \<open>const\<close>: the query refills, prunes or rolls the window over.\<close>

definition rl_would_allow :: "time_t \<Rightarrow> rate_limiter \<Rightarrow> double \<Rightarrow> rate_limiter \<times> bool" where
  "rl_would_allow t rl cost = rl_consume_nowait t rl cost"

definition rl_time_until_next :: "time_t \<Rightarrow> rate_limiter option \<Rightarrow> double \<Rightarrow> double" where
  "rl_time_until_next now h cost =
     (case h of None \<Rightarrow> -1
      | Some (RL_TYPE_TOKEN_BUCKET tb) \<Rightarrow> token_time_until_next tb cost
      | Some (RL_TYPE_LEAKY_BUCKET lb) \<Rightarrow> leaky_time_until_next lb cost
      | Some (RL_TYPE_SLIDING_WINDOW sw) \<Rightarrow> sliding_time_until_next now sw cost
      | Some (RL_TYPE_FIXED_WINDOW fw) \<Rightarrow> fixed_time_until_next now fw)"

definition rl_reset :: "time_t \<Rightarrow> rate_limiter \<Rightarrow> rate_limiter" where
  "rl_reset now rl =
     (case rl of
        RL_TYPE_TOKEN_BUCKET tb \<Rightarrow> RL_TYPE_TOKEN_BUCKET (tb\<lparr>tb_tokens := tb_burst tb, tb_last_refill := now\<rparr>)
      | RL_TYPE_LEAKY_BUCKET lb \<Rightarrow> RL_TYPE_LEAKY_BUCKET (lb\<lparr>lb_water := 0, lb_last_leak := now\<rparr>)
      | RL_TYPE_SLIDING_WINDOW sw \<Rightarrow> RL_TYPE_SLIDING_WINDOW (sw\<lparr>sw_current_cost := 0, sw_count := 0, sw_head := 0\<rparr>)
      | RL_TYPE_FIXED_WINDOW fw \<Rightarrow> RL_TYPE_FIXED_WINDOW (fw\<lparr>fw_count := 0, fw_window_start := now\<rparr>))"

definition rl_usage_ratio :: "rate_limiter option \<Rightarrow> double option" where
  "rl_usage_ratio h =
     (case h of None \<Rightarrow> Some 0
      | Some (RL_TYPE_TOKEN_BUCKET tb) \<Rightarrow> token_usage_ratio tb
      | Some (RL_TYPE_LEAKY_BUCKET lb) \<Rightarrow> leaky_usage_ratio lb
      | Some (RL_TYPE_SLIDING_WINDOW sw) \<Rightarrow> sliding_usage_ratio sw
      | Some (RL_TYPE_FIXED_WINDOW fw) \<Rightarrow> fixed_usage_ratio fw)"

definition rl_remaining :: "rate_limiter option \<Rightarrow> double" where
  "rl_remaining h =
     (case h of None \<Rightarrow> 0
      | Some (RL_TYPE_TOKEN_BUCKET tb) \<Rightarrow> token_remaining tb
      | Some (RL_TYPE_LEAKY_BUCKET lb) \<Rightarrow> leaky_remaining lb
      | Some (RL_TYPE_SLIDING_WINDOW sw) \<Rightarrow> sliding_remaining sw
      | Some (RL_TYPE_FIXED_WINDOW fw) \<Rightarrow> fixed_remaining fw)"

section \<open>Runs\<close>

datatype rl_op = Consume time_t time_t time_t double | Ask time_t double | Reset time_t

fun rl_apply :: "rl_op \<Rightarrow> rate_limiter \<Rightarrow> rate_limiter" where
  "rl_apply (Consume t1 t2 t3 c) rl = fst (rl_consume t1 t2 t3 rl c)"
| "rl_apply (Ask t c) rl = fst (rl_would_allow t rl c)"
| "rl_apply (Reset t) rl = rl_reset t rl"

definition level_ok :: "double \<Rightarrow> double \<Rightarrow> bool" where
  "level_ok x cap \<longleftrightarrow> 0 \<le> x \<and> x \<le> cap \<and> fl x = x \<and> fl cap = cap"

fun rl_ok :: "rate_limiter \<Rightarrow> bool" where
  "rl_ok (RL_TYPE_TOKEN_BUCKET tb) = (0 < tb_rate tb \<and> level_ok (tb_tokens tb) (tb_burst tb))"
| "rl_ok (RL_TYPE_LEAKY_BUCKET lb) = (0 < lb_rate lb \<and> level_ok (lb_water lb) (lb_capacity lb))"
| "rl_ok (RL_TYPE_SLIDING_WINDOW sw) = (level_ok (sw_current_cost sw) (sw_max_cost sw)
     \<and> list_all (\<lambda>e. 0 \<le> we_cost e) (sw_entries sw) \<and> length (sw_entries sw) = 256 \<and> sw_head sw < 256)"
| "rl_ok (RL_TYPE_FIXED_WINDOW fw) = level_ok (fw_count fw) (fw_max_count fw)"

text \<open>Consuming in a token bucket, keeping the total of the costs admitted.\<close>

fun token_run :: "(time_t \<times> time_t \<times> int) list \<Rightarrow> rate_limiter \<times> int \<Rightarrow> rate_limiter \<times> int" where
  "token_run [] s = s"
| "token_run ((t1, t2, c) # xs) (rl, total_cost) =
     (case rl_consume t1 t2 t2 rl (of_int c) of
        (rl', ok) \<Rightarrow> token_run xs (rl', if ok then total_cost + c else total_cost))"

text \<open>Consuming in a sliding window, keeping the log of the admitted costs with their time stamps.\<close>

fun window_run :: "(time_t \<times> time_t \<times> time_t \<times> int) list \<Rightarrow> rl_sliding_window \<times> (time_t \<times> int) list
    \<Rightarrow> rl_sliding_window \<times> (time_t \<times> int) list" where
  "window_run [] s = s"
| "window_run ((t1, t2, t3, c) # xs) (sw, lg) =
     (case sliding_consume t2 t3 (rl_sliding_prune t1 sw) (of_int c) True of
        (sw', ok) \<Rightarrow> window_run xs (sw', if ok then lg @ [(t3, c)] else lg))"

section \<open>Levels stay within capacity\<close>

lemma level_sub: "level_ok x cap \<Longrightarrow> 0 \<le> c \<Longrightarrow> c \<le> x \<Longrightarrow> level_ok (fsub x c) cap"
  using fl_le_bound [of "x - c" x] by (simp add: level_ok_def fsub_def fl_nonneg)

lemma level_add: "level_ok x cap \<Longrightarrow> 0 \<le> c \<Longrightarrow> fadd x c \<le> cap \<Longrightarrow> level_ok (fadd x c) cap"
  by (simp add: level_ok_def fadd_def fl_nonneg)

lemma level_zero: "level_ok x cap \<Longrightarrow> level_ok 0 cap"
  by (auto simp: level_ok_def)

lemma level_full: "level_ok x cap \<Longrightarrow> level_ok cap cap"
  by (auto simp: level_ok_def)

lemma token_refill_ok:
  assumes "rl_ok (RL_TYPE_TOKEN_BUCKET tb)"
  shows "rl_ok (RL_TYPE_TOKEN_BUCKET (rl_token_refill now tb))"
proof (cases "now \<le> tb_last_refill tb")
  case False
  let ?x = "fmul (tb_rate tb) (difftime now (tb_last_refill tb))"
  have "0 \<le> difftime now (tb_last_refill tb)" using False by (simp add: difftime_nonneg)
  then have "0 \<le> ?x" using assms by (simp add: fmul_def fl_nonneg)
  then have "0 \<le> fadd (tb_tokens tb) ?x" using assms by (simp add: fadd_def fl_nonneg level_ok_def)
  then show ?thesis
    using assms False by (auto simp: rl_token_refill_def Let_def level_ok_def fadd_def)
qed (use assms in \<open>simp add: rl_token_refill_def\<close>)

lemma leaky_drain_ok:
  assumes "rl_ok (RL_TYPE_LEAKY_BUCKET lb)"
  shows "rl_ok (RL_TYPE_LEAKY_BUCKET (rl_leaky_drain now lb))"
proof (cases "now \<le> lb_last_leak lb")
  case False
  let ?x = "fmul (lb_rate lb) (difftime now (lb_last_leak lb))"
  have "0 \<le> difftime now (lb_last_leak lb)" using False by (simp add: difftime_nonneg)
  then have x: "0 \<le> ?x" using assms by (simp add: fmul_def fl_nonneg)
  have "fl (lb_water lb - ?x) \<le> lb_water lb"
    using x assms by (intro fl_le_bound) (auto simp: level_ok_def)
  then show ?thesis
    using assms False by (auto simp: rl_leaky_drain_def Let_def level_ok_def fsub_def)
qed (use assms in \<open>simp add: rl_leaky_drain_def\<close>)

lemma prune_loop_ok:
  "list_all (\<lambda>e. 0 \<le> we_cost e) (sw_entries sw) \<Longrightarrow> length (sw_entries sw) = 256 \<Longrightarrow> sw_head sw < 256 \<Longrightarrow>
   fl (sw_current_cost sw) = sw_current_cost sw \<Longrightarrow> sw_current_cost sw \<le> cap \<Longrightarrow>
   (let sw' = prune_loop cutoff n sw in sw_entries sw' = sw_entries sw \<and> sw_head sw' < 256 \<and> sw_max_cost sw' = sw_max_cost sw
     \<and> fl (sw_current_cost sw') = sw_current_cost sw' \<and> sw_current_cost sw' \<le> cap)"
proof (induction cutoff n sw rule: prune_loop.induct)
  case (2 cutoff n sw)
  let ?e = "sw_entries sw ! sw_head sw"
  have "0 \<le> we_cost ?e" using "2.prems"(1-3) by (simp add: list_all_length)
  then have "fsub (sw_current_cost sw) (we_cost ?e) \<le> sw_current_cost sw"
    using "2.prems"(4) unfolding fsub_def by (intro fl_le_bound) auto
  then show ?case using 2 by (auto simp: Let_def fsub_def)
qed (auto simp: Let_def)

lemma sliding_prune_ok:
  assumes "rl_ok (RL_TYPE_SLIDING_WINDOW sw)"
  shows "rl_ok (RL_TYPE_SLIDING_WINDOW (rl_sliding_prune now sw))"
proof -
  let ?c = "if now - trunc (sw_window_sec sw) < 0 then 0 else now - trunc (sw_window_sec sw)"
  note p = prune_loop_ok [of sw "sw_max_cost sw" ?c "sw_count sw"]
  show ?thesis using assms p by (auto simp: rl_sliding_prune_def Let_def level_ok_def)
qed

lemma rl_apply_ok: "rl_ok rl \<Longrightarrow> rl_ok (rl_apply oper rl)"
proof (induction oper rl rule: rl_apply.induct)
  case (1 t1 t2 t3 c rl)
  show ?case
  proof (cases rl)
    case (RL_TYPE_TOKEN_BUCKET tb)
    then have "rl_ok (RL_TYPE_TOKEN_BUCKET (rl_token_refill t2 (rl_token_refill t1 tb)))"
      using 1 token_refill_ok by blast
    then show ?thesis using 1 RL_TYPE_TOKEN_BUCKET by (auto simp: rl_consume_def token_consume_def Let_def level_sub)
  next
    case (RL_TYPE_LEAKY_BUCKET lb)
    then have "rl_ok (RL_TYPE_LEAKY_BUCKET (rl_leaky_drain t2 (rl_leaky_drain t1 lb)))"
      using 1 leaky_drain_ok by blast
    then show ?thesis using 1 RL_TYPE_LEAKY_BUCKET by (auto simp: rl_consume_def leaky_consume_def Let_def level_add)
  next
    case (RL_TYPE_SLIDING_WINDOW sw)
    then have "rl_ok (RL_TYPE_SLIDING_WINDOW (rl_sliding_prune t2 (rl_sliding_prune t1 sw)))"
      using 1 sliding_prune_ok by blast
    then show ?thesis
      using 1 RL_TYPE_SLIDING_WINDOW
      by (auto simp: rl_consume_def sliding_consume_def Let_def level_add list_all_iff dest: set_update_subset_insert [THEN subsetD])
  next
    case (RL_TYPE_FIXED_WINDOW fw)
    then show ?thesis
      using 1 by (auto simp: rl_consume_def fixed_consume_def Let_def intro: level_add level_zero)
  qed
next
  case (2 t c rl)
  show ?case
  proof (cases rl)
    case (RL_TYPE_TOKEN_BUCKET tb)
    then show ?thesis using 2 token_refill_ok by (auto simp: rl_would_allow_def rl_consume_nowait_def token_consume_def Let_def)
  next
    case (RL_TYPE_LEAKY_BUCKET lb)
    then show ?thesis using 2 leaky_drain_ok by (auto simp: rl_would_allow_def rl_consume_nowait_def leaky_consume_def Let_def)
  next
    case (RL_TYPE_SLIDING_WINDOW sw)
    then show ?thesis using 2 sliding_prune_ok by (auto simp: rl_would_allow_def rl_consume_nowait_def sliding_consume_def Let_def)
  next
    case (RL_TYPE_FIXED_WINDOW fw)
    then show ?thesis
      using 2 by (auto simp: rl_would_allow_def rl_consume_nowait_def fixed_consume_def Let_def intro: level_zero)
  qed
next
  case (3 t rl)
  then show ?case by (cases rl) (auto simp: rl_reset_def intro: level_full level_zero)
qed

section \<open>The token bucket on whole numbers\<close>

definition whole_bucket :: "int \<Rightarrow> int \<Rightarrow> int \<Rightarrow> time_t \<Rightarrow> rl_token_bucket" where
  "whole_bucket r b k l = \<lparr>tb_rate = of_int r, tb_burst = of_int b, tb_tokens = of_int k, tb_last_refill = l\<rparr>"

definition spec_refill :: "int \<Rightarrow> int \<Rightarrow> time_t \<Rightarrow> int \<times> time_t \<Rightarrow> int \<times> time_t" where
  "spec_refill r b now s = (case s of (k, l) \<Rightarrow> if now \<le> l then (k, l) else (min b (k + r * (now - l)), now))"

text \<open>The double bucket implements the integer bucket as long as the products fit 53 bits.\<close>

lemma refill_refines:
  assumes "0 < r" "0 \<le> k" "k \<le> b" "b + r * D \<le> 2 ^ 53" "now \<le> l + D" "spec_refill r b now (k, l) = (k', l')"
  shows "rl_token_refill now (whole_bucket r b k l) = whole_bucket r b k' l'"
proof (cases "now \<le> l")
  case True
  then show ?thesis using assms by (simp add: rl_token_refill_def spec_refill_def whole_bucket_def)
next
  case False
  let ?e = "now - l"
  have e: "0 < ?e" "?e \<le> D" using False assms(5) by auto
  have re: "r * ?e \<le> r * D" "0 \<le> r * ?e" "?e \<le> r * ?e" using e assms(1) by (auto simp: mult_left_mono mult_le_cancel_right1)
  then have bd: "r * ?e \<le> 2 ^ 53" "k + r * ?e \<le> 2 ^ 53" "?e \<le> 2 ^ 53" using assms(2-4) by linarith+
  have d: "difftime now l = of_int ?e" using e bd by (intro difftime_exact) simp
  have m: "fmul (of_int r) (of_int ?e) = of_int (r * ?e)"
    unfolding fmul_def using fl_of_int [of "r * ?e"] re bd by simp
  have a: "fadd (of_int k) (of_int (r * ?e)) = of_int (k + r * ?e)"
    unfolding fadd_def using fl_of_int [of "k + r * ?e"] re bd assms(2) by simp
  have "(of_int (k + r * ?e) > (of_int b :: rat)) = (k + r * ?e > b)" by (simp only: of_int_less_iff)
  then show ?thesis
    using False assms(6) d m a
    by (auto simp: rl_token_refill_def whole_bucket_def spec_refill_def Let_def min_def simp del: of_int_mult of_int_add of_int_diff)
qed

definition turner :: "int \<Rightarrow> int \<Rightarrow> time_t \<Rightarrow> int \<Rightarrow> time_t \<Rightarrow> int \<Rightarrow> bool" where
  "turner r b s k l total_cost \<longleftrightarrow> 0 \<le> k \<and> k \<le> b \<and> (if l < s then total_cost \<le> 0 else total_cost + k \<le> b + r * (l - s))"

lemma turner_refill:
  assumes "turner r b s k l tot" "0 < r" "s \<le> now" "spec_refill r b now (k, l) = (k', l')"
  shows "turner r b s k' l' tot \<and> s \<le> l' \<and> l \<le> l' \<and> l' = max l now"
proof (cases "now \<le> l")
  case True
  then show ?thesis using assms by (auto simp: spec_refill_def turner_def)
next
  case False
  have kl: "k' = min b (k + r * (now - l))" "l' = now" using assms(4) False by (auto simp: spec_refill_def)
  have "0 \<le> r * (now - l)" using False assms(2) by simp
  then have "0 \<le> k'" "k' \<le> b" "k' \<le> k + r * (now - l)" using kl assms(1) by (auto simp: turner_def)
  moreover have "tot + k' \<le> b + r * (now - s)"
  proof (cases "l < s")
    case True
    then have "tot \<le> 0" "0 \<le> r * (now - s)" using assms by (auto simp: turner_def)
    then show ?thesis using \<open>k' \<le> b\<close> by linarith
  next
    case False
    then have "tot + k \<le> b + r * (l - s)" using assms(1) by (simp add: turner_def)
    moreover have "r * (l - s) + r * (now - l) = r * (now - s)" by (simp add: algebra_simps)
    ultimately show ?thesis using \<open>k' \<le> k + r * (now - l)\<close> by linarith
  qed
  ultimately show ?thesis using kl assms(3) False by (auto simp: turner_def)
qed

lemma token_step:
  assumes t: "turner r b s k l tot" and r: "0 < r" and D: "b + r * D \<le> 2 ^ 53"
    and t1: "s \<le> t1" "t1 \<le> l0 + D" "s \<le> t2" "t2 \<le> l0 + D" and l: "l0 \<le> l" "l \<le> l0 + D" "0 \<le> D"
    and c: "rl_consume t1 t2 t2 (RL_TYPE_TOKEN_BUCKET (whole_bucket r b k l)) (of_int c) = (rl', ok)"
  shows "\<exists>k' l'. rl' = RL_TYPE_TOKEN_BUCKET (whole_bucket r b k' l') \<and> turner r b s k' l' (if ok then tot + c else tot)
    \<and> l0 \<le> l' \<and> l' \<le> l0 + D"
proof (cases "c \<le> 0")
  case True
  then have "turner r b s k l (tot + c)" using t by (auto simp: turner_def)
  then show ?thesis using c True l by (auto simp: rl_consume_def)
next
  case False
  obtain k1 l1 where s1: "spec_refill r b t1 (k, l) = (k1, l1)" by fastforce
  obtain k2 l2 where s2: "spec_refill r b t2 (k1, l1) = (k2, l2)" by fastforce
  note T1 = turner_refill [OF t r t1(1) s1]
  note T2 = turner_refill [OF conjunct1 [OF T1] r t1(3) s2]
  have R1: "rl_token_refill t1 (whole_bucket r b k l) = whole_bucket r b k1 l1"
    using t r D t1 l by (intro refill_refines [OF _ _ _ D _ s1]) (auto simp: turner_def)
  have R2: "rl_token_refill t2 (whole_bucket r b k1 l1) = whole_bucket r b k2 l2"
    using T1 r D t1 l by (intro refill_refines [OF _ _ _ D _ s2]) (auto simp: turner_def)
  have l2: "l0 \<le> l2" "l2 \<le> l0 + D" "s \<le> l2" using T1 T2 t1 l by auto
  have "tb_tokens (whole_bucket r b k2 l2) \<ge> of_int c \<longleftrightarrow> c \<le> k2" by (simp add: whole_bucket_def)
  moreover have "fsub (of_int k2) (of_int c) = of_int (k2 - c)" if "c \<le> k2"
  proof -
    have "0 \<le> r * D" using r l(3) by simp
    then have "\<bar>k2 - c\<bar> \<le> 2 ^ 53" using that False T2 D by (simp add: turner_def)
    then show ?thesis unfolding fsub_def using fl_of_int [of "k2 - c"] by simp
  qed
  ultimately have "rl' = RL_TYPE_TOKEN_BUCKET (whole_bucket r b (if c \<le> k2 then k2 - c else k2) l2) \<and> ok = (c \<le> k2)"
    using c False R1 R2 by (auto simp: rl_consume_def token_consume_def Let_def whole_bucket_def)
  moreover have "turner r b s (if c \<le> k2 then k2 - c else k2) l2 (if c \<le> k2 then tot + c else tot)"
    using T2 l2 False by (auto simp: turner_def)
  ultimately show ?thesis using l2(1,2) by (cases "c \<le> k2") (simp, blast)+
qed

lemma token_run_turner:
  assumes "0 < r" "b + r * D \<le> 2 ^ 53" "0 \<le> D"
  shows "list_all (\<lambda>(t1, t2, c). s \<le> t1 \<and> t1 \<le> l0 + D \<and> s \<le> t2 \<and> t2 \<le> l0 + D) xs \<Longrightarrow>
    turner r b s k l tot \<Longrightarrow> l0 \<le> l \<Longrightarrow> l \<le> l0 + D \<Longrightarrow>
    \<exists>k' l'. turner r b s k' l' (snd (token_run xs (RL_TYPE_TOKEN_BUCKET (whole_bucket r b k l), tot))) \<and> l' \<le> l0 + D"
proof (induction xs arbitrary: k l tot)
  case (Cons x xs)
  obtain t1 t2 c where x: "x = (t1, t2, c)" by (metis prod_cases3)
  obtain rl' ok where c: "rl_consume t1 t2 t2 (RL_TYPE_TOKEN_BUCKET (whole_bucket r b k l)) (of_int c) = (rl', ok)"
    by fastforce
  obtain k' l' where k': "rl' = RL_TYPE_TOKEN_BUCKET (whole_bucket r b k' l')" "turner r b s k' l' (if ok then tot + c else tot)"
    "l0 \<le> l'" "l' \<le> l0 + D"
    using token_step [OF Cons.prems(2) assms(1,2) _ _ _ _ Cons.prems(3,4) assms(3) c] Cons.prems(1) x by auto
  have "list_all (\<lambda>(t1, t2, c). s \<le> t1 \<and> t1 \<le> l0 + D \<and> s \<le> t2 \<and> t2 \<le> l0 + D) xs" using Cons.prems(1) by simp
  from Cons.IH [OF this k'(2-4)] show ?case using x c k'(1) by simp
qed auto

section \<open>The sliding window on whole numbers\<close>

definition sw_items :: "rl_sliding_window \<Rightarrow> rl_window_entry list" where
  "sw_items sw = ring_items (sw_entries sw) (sw_head sw) (sw_count sw)"

definition entry_of :: "time_t \<times> int \<Rightarrow> rl_window_entry" where
  "entry_of x = \<lparr>we_timestamp = fst x, we_cost = of_int (snd x)\<rparr>"

definition cost_sum :: "(time_t \<times> int) list \<Rightarrow> int" where
  "cost_sum xs = sum_list (map snd xs)"

lemma entry_of_simps [simp]: "we_timestamp (entry_of x) = fst x" "we_cost (entry_of x) = of_int (snd x)"
  by (simp_all add: entry_of_def)

lemma cost_sum_simps [simp]:
  "cost_sum [] = 0" "cost_sum (x # xs) = snd x + cost_sum xs" "cost_sum (xs @ ys) = cost_sum xs + cost_sum ys"
  by (simp_all add: cost_sum_def)

lemma cost_sum_ge_length: "list_all (\<lambda>x. 1 \<le> snd x) xs \<Longrightarrow> int (length xs) \<le> cost_sum xs"
  by (induction xs) auto

text \<open>The window holds the admitted requests \<open>xs\<close>.\<close>

definition window_holds :: "int \<Rightarrow> int \<Rightarrow> rl_sliding_window \<Rightarrow> (time_t \<times> int) list \<Rightarrow> bool" where
  "window_holds W M sw xs \<longleftrightarrow> length (sw_entries sw) = 256 \<and> sw_head sw < 256 \<and> sw_window_sec sw = of_int W
     \<and> sw_max_cost sw = of_int M \<and> sw_items sw = map entry_of xs \<and> sw_current_cost sw = of_int (cost_sum xs)
     \<and> cost_sum xs \<le> M \<and> list_all (\<lambda>x. 1 \<le> snd x) xs"

lemma prune_loop_holds:
  "length (sw_entries sw) = 256 \<Longrightarrow> sw_head sw < 256 \<Longrightarrow> ring_items (sw_entries sw) (sw_head sw) n = map entry_of xs \<Longrightarrow>
   sw_current_cost sw = of_int (cost_sum xs) \<Longrightarrow> list_all (\<lambda>x. 1 \<le> snd x) xs \<Longrightarrow> cost_sum xs \<le> 2 ^ 53 \<Longrightarrow>
   (let sw' = prune_loop cutoff n sw; ys = dropWhile (\<lambda>x. fst x < cutoff) xs in
     sw_entries sw' = sw_entries sw \<and> sw_head sw' < 256 \<and> sw_window_sec sw' = sw_window_sec sw \<and> sw_max_cost sw' = sw_max_cost sw
     \<and> sw_items sw' = map entry_of ys \<and> sw_current_cost sw' = of_int (cost_sum ys))"
proof (induction cutoff n sw arbitrary: xs rule: prune_loop.induct)
  case (1 cutoff sw)
  then have "xs = []" by (simp add: ring_items_def)
  then show ?case using 1 by (simp add: Let_def sw_items_def ring_items_def)
next
  case (2 cutoff n sw)
  let ?e = "sw_entries sw ! sw_head sw"
  have r: "ring_items (sw_entries sw) (sw_head sw) (Suc n) = ?e # ring_items (sw_entries sw) ((sw_head sw + 1) mod 256) n"
    using ring_pop [of "sw_entries sw" "sw_head sw" n] "2.prems"(1,2) by simp
  then obtain x ys where x: "xs = x # ys" "entry_of x = ?e"
    "ring_items (sw_entries sw) ((sw_head sw + 1) mod 256) n = map entry_of ys"
    using "2.prems"(3) by (cases xs) auto
  have e: "we_timestamp ?e = fst x" "we_cost ?e = of_int (snd x)" using x(2) [symmetric] by simp_all
  show ?case
  proof (cases "cutoff \<le> fst x")
    case True
    then show ?thesis using "2.prems" x e by (simp add: Let_def sw_items_def)
  next
    case False
    have nn: "0 \<le> cost_sum ys" using cost_sum_ge_length [of ys] "2.prems"(5) x(1) by simp
    have "\<bar>cost_sum ys\<bar> \<le> 2 ^ 53" using nn "2.prems"(5,6) x(1) by simp
    then have "fsub (sw_current_cost sw) (we_cost ?e) = of_int (cost_sum ys)"
      using "2.prems"(4) e x(1) fl_of_int [of "cost_sum ys"] by (simp add: fsub_def)
    then show ?thesis
      using "2.IH" [OF refl, of ys] False e x "2.prems" nn by (simp add: Let_def)
  qed
qed

lemma sliding_prune_holds:
  assumes h: "window_holds W M sw xs" and M: "M \<le> 2 ^ 53" and c: "c = (if now - W < 0 then 0 else now - W)"
  shows "window_holds W M (rl_sliding_prune now sw) (dropWhile (\<lambda>x. fst x < c) xs)"
proof -
  let ?ys = "dropWhile (\<lambda>x. fst x < c) xs" and ?sw = "prune_loop c (sw_count sw) sw"
  have i: "length (sw_entries sw) = 256" "sw_head sw < 256" "ring_items (sw_entries sw) (sw_head sw) (sw_count sw) = map entry_of xs"
    "sw_current_cost sw = of_int (cost_sum xs)" "list_all (\<lambda>x. 1 \<le> snd x) xs" "cost_sum xs \<le> 2 ^ 53"
    using h M by (auto simp: window_holds_def sw_items_def)
  note p = prune_loop_holds [OF i, of c, unfolded Let_def]
  have w: "trunc (sw_window_sec sw) = W" using h by (simp add: trunc_def window_holds_def)
  have ys: "list_all (\<lambda>x. 1 \<le> snd x) ?ys" "list_all (\<lambda>x. 1 \<le> snd x) (takeWhile (\<lambda>x. fst x < c) xs)"
    using i(5) by (auto simp: list_all_iff dest: set_dropWhileD set_takeWhileD)
  have "cost_sum xs = cost_sum (takeWhile (\<lambda>x. fst x < c) xs) + cost_sum ?ys"
    by (metis cost_sum_simps(3) takeWhile_dropWhile_id)
  then have le: "cost_sum ?ys \<le> cost_sum xs" "0 \<le> cost_sum ?ys"
    using cost_sum_ge_length [OF ys(2)] cost_sum_ge_length [OF ys(1)] by linarith+
  have "rl_sliding_prune now sw = ?sw"
    using p le(2) unfolding rl_sliding_prune_def w c [symmetric] Let_def by simp
  then show ?thesis using h p ys(1) le i(1) by (simp add: window_holds_def)
qed

lemma sliding_consume_holds:
  assumes h: "window_holds W M sw xs" and M: "M \<le> 256" and c: "1 \<le> c"
    and ys: "ys = dropWhile (\<lambda>x. fst x < (if t - W < 0 then 0 else t - W)) xs"
    and r: "sliding_consume t stamp sw (of_int c) True = (sw', ok)"
  shows "window_holds W M sw' (if ok then ys @ [(stamp, c)] else ys)"
proof -
  let ?p = "rl_sliding_prune t sw"
  have p: "window_holds W M ?p ys" using sliding_prune_holds [OF h _ refl] M ys by simp
  then have i: "sw_current_cost ?p = of_int (cost_sum ys)" "sw_max_cost ?p = of_int M" "cost_sum ys \<le> M"
    "length (sw_items ?p) = length ys" "int (length ys) \<le> cost_sum ys" "length (sw_entries ?p) = 256"
    using cost_sum_ge_length by (auto simp: window_holds_def)
  have le: "fadd (of_int (cost_sum ys)) (of_int c) \<le> of_int M \<longleftrightarrow> cost_sum ys + c \<le> M"
  proof
    assume "cost_sum ys + c \<le> M"
    then show "fadd (of_int (cost_sum ys)) (of_int c) \<le> of_int M"
      using fl_of_int_le [of "of_int (cost_sum ys) + of_int c" M] M i(5) c unfolding fadd_def
      by (simp flip: of_int_add)
  next
    assume a: "fadd (of_int (cost_sum ys)) (of_int c) \<le> of_int M"
    show "cost_sum ys + c \<le> M"
    proof (rule ccontr)
      assume "\<not> cost_sum ys + c \<le> M"
      then have "of_int (M + 1) \<le> (of_int (cost_sum ys + c) :: rat)" by (simp only: of_int_le_iff)
      then have "of_int (M + 1) \<le> fadd (of_int (cost_sum ys)) (of_int c)"
        unfolding fadd_def using M i(3,5) by (intro fl_of_int_ge) simp_all
      then show False using a by simp
    qed
  qed
  have ex: "fadd (of_int (cost_sum ys)) (of_int c) = of_int (cost_sum ys + c)" if "cost_sum ys + c \<le> M"
    unfolding fadd_def using fl_of_int [of "cost_sum ys + c"] that M i(5) c by simp
  show ?thesis
  proof (cases "cost_sum ys + c \<le> M")
    case True
    then have n: "sw_count ?p < 256" using i(3-5) M c by (simp add: sw_items_def)
    have "sw_items sw' = sw_items ?p @ [entry_of (stamp, c)]"
      using r le True i(1,2,6) n ring_push [of "sw_count ?p" "sw_entries ?p" "sw_head ?p"]
      by (auto simp: sliding_consume_def Let_def sw_items_def entry_of_def)
    then show ?thesis
      using r le True i p c ex by (auto simp: sliding_consume_def Let_def window_holds_def)
  next
    case False
    then show ?thesis using r le i p by (auto simp: sliding_consume_def Let_def)
  qed
qed

definition window_inv :: "int \<Rightarrow> int \<Rightarrow> time_t \<Rightarrow> rl_sliding_window \<times> (time_t \<times> int) list \<Rightarrow> bool" where
  "window_inv W M now s = (case s of (sw, lg) \<Rightarrow>
     \<exists>dead live. lg = dead @ live \<and> window_holds W M sw live
       \<and> list_all (\<lambda>x. fst x < now - W) dead \<and> list_all (\<lambda>x. 0 \<le> fst x) lg)"

lemma window_inv_prune:
  assumes "window_inv W M now (sw, lg)" "t \<le> now" "M \<le> 2 ^ 53"
  shows "window_inv W M now (rl_sliding_prune t sw, lg)"
proof -
  obtain dead live where d: "lg = dead @ live" "window_holds W M sw live" "list_all (\<lambda>x. fst x < now - W) dead"
    "list_all (\<lambda>x. 0 \<le> fst x) lg" using assms(1) by (auto simp: window_inv_def)
  let ?c = "if t - W < 0 then 0 else t - W"
  have "fst x < now - W" if "x \<in> set (takeWhile (\<lambda>x. fst x < ?c) live)" for x
  proof -
    have "fst x < ?c" "0 \<le> fst x" using that d(1,4) by (auto simp: list_all_iff dest: set_takeWhileD)
    then show ?thesis using assms(2) by (auto split: if_splits)
  qed
  then have "list_all (\<lambda>x. fst x < now - W) (dead @ takeWhile (\<lambda>x. fst x < ?c) live)"
    using d(3) by (auto simp: list_all_iff)
  moreover have "lg = (dead @ takeWhile (\<lambda>x. fst x < ?c) live) @ dropWhile (\<lambda>x. fst x < ?c) live" using d(1) by simp
  ultimately show ?thesis
    unfolding window_inv_def using sliding_prune_holds [OF d(2) assms(3) refl, of t] d(4) by blast
qed

lemma window_inv_consume:
  assumes inv: "window_inv W M now (sw, lg)" and b: "t2 \<le> now" "0 \<le> t3" "M \<le> 256" "1 \<le> c"
    and r: "sliding_consume t2 t3 sw (of_int c) True = (sw', ok)"
  shows "window_inv W M now (sw', if ok then lg @ [(t3, c)] else lg)"
proof -
  obtain dead live where d: "lg = dead @ live" "window_holds W M (rl_sliding_prune t2 sw) live"
    "list_all (\<lambda>x. fst x < now - W) dead" "list_all (\<lambda>x. 0 \<le> fst x) lg"
    using window_inv_prune [OF inv b(1)] b(3) by (auto simp: window_inv_def)
  obtain dead0 live0 where d0: "lg = dead0 @ live0" "window_holds W M sw live0"
    "list_all (\<lambda>x. fst x < now - W) dead0"
    using inv by (auto simp: window_inv_def)
  let ?c = "if t2 - W < 0 then 0 else t2 - W"
  let ?ys = "dropWhile (\<lambda>x. fst x < ?c) live0"
  have w: "window_holds W M sw' (if ok then ?ys @ [(t3, c)] else ?ys)"
    using sliding_consume_holds [OF d0(2) b(3,4) refl r] .
  have "fst x < now - W" if "x \<in> set (takeWhile (\<lambda>x. fst x < ?c) live0)" for x
  proof -
    have "fst x < ?c" "0 \<le> fst x" using that d0(1) d(4) by (auto simp: list_all_iff dest: set_takeWhileD)
    then show ?thesis using b(1) by (auto split: if_splits)
  qed
  then have "list_all (\<lambda>x. fst x < now - W) (dead0 @ takeWhile (\<lambda>x. fst x < ?c) live0)"
    using d0(3) by (auto simp: list_all_iff)
  moreover have "(if ok then lg @ [(t3, c)] else lg)
      = (dead0 @ takeWhile (\<lambda>x. fst x < ?c) live0) @ (if ok then ?ys @ [(t3, c)] else ?ys)" using d0(1) by simp
  moreover have "list_all (\<lambda>x. 0 \<le> fst x) (if ok then lg @ [(t3, c)] else lg)" using d(4) b(2) by simp
  ultimately show ?thesis unfolding window_inv_def using w by blast
qed

lemma window_run_inv:
  "list_all (\<lambda>(t1, t2, t3, c). t1 \<le> now \<and> t2 \<le> now \<and> 0 \<le> t3 \<and> 1 \<le> c) xs \<Longrightarrow> M \<le> 256 \<Longrightarrow>
   window_inv W M now s \<Longrightarrow> window_inv W M now (window_run xs s)"
proof (induction xs s rule: window_run.induct)
  case (2 t1 t2 t3 c xs sw lg)
  obtain sw' ok where r: "sliding_consume t2 t3 (rl_sliding_prune t1 sw) (of_int c) True = (sw', ok)" by fastforce
  have "window_inv W M now (rl_sliding_prune t1 sw, lg)" using window_inv_prune 2 by simp
  then have "window_inv W M now (sw', if ok then lg @ [(t3, c)] else lg)"
    using window_inv_consume [OF _ _ _ _ _ r] 2 by simp
  then show ?case using "2.IH" [OF r [symmetric]] "2.prems" r by simp
qed simp

section \<open>Properties\<close>

definition new_window :: "int \<Rightarrow> int \<Rightarrow> rl_sliding_window" where
  "new_window W M = \<lparr>sw_window_sec = of_int W, sw_max_cost = of_int M, sw_current_cost = 0,
     sw_entries = replicate 256 \<lparr>we_timestamp = 0, we_cost = 0\<rparr>, sw_count = 0, sw_head = 0\<rparr>"

lemma new_window_init: "0 < W \<Longrightarrow> 0 < M \<Longrightarrow> rl_sliding_window_init (of_int W) (of_int M) = RL_TYPE_SLIDING_WINDOW (new_window W M)"
  by (simp add: rl_sliding_window_init_def new_window_def)

text \<open>C33. Turner's bound, stated in the source: with whole-number rate \<open>r\<close>, burst \<open>b\<close> and costs, the
  total admitted by the token bucket over any interval of \<open>T\<close> seconds is at most \<open>r T + b\<close>, from any
  state of the bucket, whatever the order of the clock readings in the interval, as long as the
  numbers fit the 53 bits of a double.\<close>

theorem token_bucket_bound:
  assumes "0 < r" "0 \<le> k" "k \<le> b" "l \<le> s" "0 \<le> T" "b + r * (s + T - l) \<le> 2 ^ 53"
    "list_all (\<lambda>(t1, t2, c). s \<le> t1 \<and> t1 \<le> s + T \<and> s \<le> t2 \<and> t2 \<le> s + T) xs"
  shows "snd (token_run xs (RL_TYPE_TOKEN_BUCKET (whole_bucket r b k l), 0)) \<le> r * T + b"
proof -
  have "turner r b s k l 0" using assms(1-4) by (auto simp: turner_def)
  then obtain k' l' where t: "turner r b s k' l' (snd (token_run xs (RL_TYPE_TOKEN_BUCKET (whole_bucket r b k l), 0)))" "l' \<le> s + T"
    using token_run_turner [OF assms(1,6), of s l xs k l 0] assms(4,5,7) by auto
  have "0 \<le> r * T" using assms(1,5) by simp
  moreover have "r * (l' - s) \<le> r * T" using t(2) assms(1) by (intro mult_left_mono) auto
  ultimately show ?thesis using t(1) assms(2,3) by (auto simp: turner_def split: if_splits)
qed

theorem token_bucket_bound_witness:
  "snd (token_run [(100, 100, 8), (101, 101, 9), (103, 103, 9)] (RL_TYPE_TOKEN_BUCKET (whole_bucket 2 10 10 90), 0)) \<le> 2 * 5 + 10"
  by (rule token_bucket_bound [where s = 100]) simp_all

text \<open>The sliding window enforces its budget: for whole-number costs of at least 1 and a budget
  \<open>M\<close> of at most 256, after any sequence of requests the admitted costs stamped within the last
  \<open>W\<close> seconds add up to at most \<open>M\<close>, even if the clock is set back between requests.\<close>

theorem sliding_window_budget:
  assumes "0 \<le> M" "M \<le> 256"
    "list_all (\<lambda>(t1, t2, t3, c). t1 \<le> now \<and> t2 \<le> now \<and> 0 \<le> t3 \<and> 1 \<le> c) xs"
    "window_run xs (new_window W M, []) = (sw, lg)"
  shows "cost_sum (filter (\<lambda>x. now - W \<le> fst x) lg) \<le> M"
proof -
  have "window_inv W M now (new_window W M, [])"
    using assms(1) by (simp add: window_inv_def new_window_def window_holds_def sw_items_def ring_items_def)
  then have "window_inv W M now (sw, lg)" using window_run_inv [OF assms(3,2), of W "(new_window W M, [])"] assms(4) by simp
  then obtain dead live where d: "lg = dead @ live" "window_holds W M sw live" "list_all (\<lambda>x. fst x < now - W) dead"
    by (auto simp: window_inv_def)
  have pos: "cost_sum (filter P ys) \<le> cost_sum ys" if "list_all (\<lambda>x. 1 \<le> snd x) ys" for P ys
    using that by (induction ys) auto
  have "filter (\<lambda>x. now - W \<le> fst x) dead = []" using d(3) by (auto simp: filter_empty_conv list_all_iff)
  moreover have "list_all (\<lambda>x. 1 \<le> snd x) live" "cost_sum live \<le> M" using d(2) by (auto simp: window_holds_def)
  ultimately show ?thesis using d(1) order_trans [OF pos] by simp
qed

theorem sliding_window_budget_witness:
  "cost_sum (filter (\<lambda>x. 103 - 10 \<le> fst x)
     (snd (window_run [(100, 100, 100, 2), (101, 101, 101, 2), (103, 103, 103, 1)] (new_window 10 3, [])))) \<le> 3"
proof -
  let ?r = "window_run [(100, 100, 100, 2), (101, 101, 101, 2), (103, 103, 103, 1)] (new_window 10 3, [])"
  show ?thesis
    using sliding_window_budget [of 3 103 "[(100, 100, 100, 2), (101, 101, 101, 2), (103, 103, 103, 1)]" 10 "fst ?r" "snd ?r"]
    by (simp del: window_run.simps)
qed

text \<open>Every limiter keeps its level between 0 and its capacity, for arbitrary double costs and clock
  readings, and under queries and resets, when its parameters are positive doubles.\<close>

theorem rl_levels_bounded:
  assumes "0 < rate" "rate \<le> burst" "fl rate = rate" "fl burst = burst"
    "rl0 = rl_token_bucket_init t rate burst \<or> rl0 = rl_leaky_bucket_init t rate burst
     \<or> rl0 = rl_sliding_window_init rate burst \<or> rl0 = rl_fixed_window_init t rate burst"
  shows "rl_ok (fold rl_apply ops rl0)"
proof -
  have "rl_ok rl0"
    using assms by (auto simp: rl_token_bucket_init_def rl_leaky_bucket_init_def rl_sliding_window_init_def
        rl_fixed_window_init_def Let_def level_ok_def list_all_iff)
  then show ?thesis by (induction ops arbitrary: rl0) (simp_all add: rl_apply_ok)
qed

theorem rl_levels_bounded_witness:
  "rl_ok (fold rl_apply [Consume 5 5 5 (1/2), Ask 6 3, Consume 9 9 9 7] (rl_leaky_bucket_init 5 1 8))"
  by (rule rl_levels_bounded [where rate = 1 and burst = 8 and t = 5]) (simp_all add: fl_of_int [of 1, simplified] fl_of_int [of 8, simplified])

lemma burst_step:
  assumes "length (sw_entries sw) = 256" "sw_head sw = 0" "sw_count sw = n" "sw_current_cost sw = of_nat n"
    "0 < n \<longrightarrow> we_timestamp (sw_entries sw ! 0) = t" "sw_window_sec sw = of_int W" "0 \<le> W" "0 \<le> t"
    "sw_max_cost sw = of_int M" "int n < M" "M \<le> 2 ^ 53"
    "sliding_consume t t (rl_sliding_prune t sw) (of_int 1) True = (sw', ok)"
  shows "ok \<and> length (sw_entries sw') = 256 \<and> sw_head sw' = 0 \<and> sw_count sw' = Suc n \<and> sw_current_cost sw' = of_nat (Suc n)
    \<and> we_timestamp (sw_entries sw' ! 0) = t \<and> sw_window_sec sw' = of_int W \<and> sw_max_cost sw' = of_int M"
proof -
  have w: "trunc (of_int W) = W" by (simp add: trunc_def)
  have p: "rl_sliding_prune t sw = sw" using assms(2-8) w by (cases n) (auto simp: rl_sliding_prune_def Let_def)
  have a: "fadd (of_nat n) 1 = of_nat (Suc n)"
    unfolding fadd_def using fl_of_int [of "int n + 1"] assms(10,11) by simp
  have "(of_nat (Suc n) :: rat) \<le> of_int M" using assms(10) by (metis of_int_le_iff of_int_of_nat_eq of_nat_Suc zless_imp_add1_zle add.commute)
  then show ?thesis
    using assms p a by (cases "n mod 256 = 0") (auto simp: sliding_consume_def Let_def)
qed

lemma burst_run:
  "length (sw_entries sw) = 256 \<Longrightarrow> sw_head sw = 0 \<Longrightarrow> sw_count sw = n \<Longrightarrow> sw_current_cost sw = of_nat n \<Longrightarrow>
   0 < n \<longrightarrow> we_timestamp (sw_entries sw ! 0) = t \<Longrightarrow> sw_window_sec sw = of_int W \<Longrightarrow> 0 \<le> W \<Longrightarrow> 0 \<le> t \<Longrightarrow>
   sw_max_cost sw = of_int M \<Longrightarrow> int (n + m) \<le> M \<Longrightarrow> M \<le> 2 ^ 53 \<Longrightarrow>
   sw_count (fst (window_run (replicate m (t, t, t, 1)) (sw, lg))) = n + m"
proof (induction m arbitrary: sw n lg)
  case (Suc m)
  obtain sw' ok where c: "sliding_consume t t (rl_sliding_prune t sw) (of_int 1) True = (sw', ok)" by fastforce
  note b = burst_step [OF Suc.prems(1-9) _ Suc.prems(11) c]
  have "sw_count (fst (window_run (replicate m (t, t, t, 1)) (sw', lg @ [(t, 1)]))) = Suc n + m"
    using Suc.IH [of sw' "Suc n"] b Suc.prems by simp
  then show ?case using c b Suc.prems by simp
qed simp

text \<open>The log of the sliding window has 256 entries but no bound on their number: a budget above
  256 lets a burst of requests of cost 1 drive the count beyond the array, where each further entry
  overwrites one that is still counted.\<close>

theorem sliding_window_overruns:
  assumes "0 < W" "0 \<le> t" "M \<le> 2 ^ 53" "int n \<le> M"
  shows "sw_count (fst (window_run (replicate n (t, t, t, 1)) (new_window W M, []))) = n
    \<and> length (sw_entries (new_window W M)) = 256"
  using burst_run [of "new_window W M" 0 t W M n "[]"] assms by (simp add: new_window_def)

theorem sliding_window_overruns_witness:
  "sw_count (fst (window_run (replicate 300 (1000, 1000, 1000, 1)) (new_window 60 1000, []))) = 300"
  using sliding_window_overruns [of 60 1000 1000 300] by simp

end
