(* ===== verification/Priority_Scheduler.thy ===== *)
theory Priority_Scheduler
  imports Float64 Fifo "HOL-Library.Product_Lexorder"
begin

text \<open>
  The priority scheduler of \<open>src/mini-job-system/src/priority_scheduler.c\<close>: a table of jobs, one ring of
  job indices per level, scheduling by level or by lottery, aging and priority inheritance.  The
  arrays \<open>queues\<close>, \<open>queue_head\<close>, \<open>queue_tail\<close> and \<open>queue_count\<close> indexed by level are one list of rings.

  The abstract view of a scheduler is its list of pending jobs in scheduling order; the operations
  refine insertion into and removal from that list as long as no level holds more than 64 entries.
\<close>

section \<open>Data\<close>

definition PS_MAX_PRIORITY_LEVELS :: nat where "PS_MAX_PRIORITY_LEVELS = 8"
definition PS_MAX_JOBS_PER_LEVEL :: nat where "PS_MAX_JOBS_PER_LEVEL = 64"
definition PS_MAX_JOBS :: nat where "PS_MAX_JOBS = 256"

datatype ps_sched_algo = PS_SCHED_MLFQ | PS_SCHED_FIXED | PS_SCHED_LOTTERY

record ps_priority_level =
  pl_priority :: int
  pl_quantum_ms :: int
  pl_allocation :: int

record ps_job_entry =
  pj_id :: u64
  pj_job :: ptr
  pj_userdata :: ptr
  pj_priority :: int
  pj_original :: int
  pj_boost :: int
  pj_tickets :: int
  pj_enqueued_at :: time_t
  pj_active :: bool

record ps_config =
  pc_algorithm :: ps_sched_algo
  pc_levels :: "ps_priority_level list"
  pc_level_count :: int
  pc_aging_interval :: int
  pc_max_boosts :: int

record ps_ring =
  lq_slots :: "nat list"
  lq_head :: nat
  lq_tail :: nat
  lq_count :: nat

record ps_scheduler =
  ps_jobs :: "ps_job_entry list"
  ps_queues :: "ps_ring list"
  ps_algorithm :: ps_sched_algo
  ps_levels :: "ps_priority_level list"
  ps_level_count :: nat
  ps_aging_interval :: int
  ps_max_boosts :: int
  ps_last_aging :: time_t
  total_submitted :: int
  total_completed :: int
  total_wait_time :: double
  completed_for_avg :: int

section \<open>Operations\<close>

definition job_find :: "ps_scheduler \<Rightarrow> u64 \<Rightarrow> nat option" where
  "job_find s jid = find_idx (\<lambda>j. pj_id j = jid \<and> pj_active j) (ps_jobs s) (length (ps_jobs s))"

definition clamp_level :: "ps_scheduler \<Rightarrow> int \<Rightarrow> int" where
  "clamp_level s priority =
     (let p = (if priority < 0 then 0 else priority)
      in if p \<ge> int (ps_level_count s) then int (ps_level_count s) - 1 else p)"

definition ring_put :: "nat \<Rightarrow> ps_ring \<Rightarrow> ps_ring" where
  "ring_put idx r = r\<lparr>lq_slots := (lq_slots r)[lq_tail r := idx],
     lq_tail := (lq_tail r + 1) mod PS_MAX_JOBS_PER_LEVEL, lq_count := lq_count r + 1\<rparr>"

definition enqueue_at_level :: "ps_scheduler \<Rightarrow> nat \<Rightarrow> int \<Rightarrow> ps_scheduler" where
  "enqueue_at_level s job_idx priority =
     (let lev = nat (clamp_level s priority)
      in s\<lparr>ps_queues := (ps_queues s)[lev := ring_put job_idx (ps_queues s ! lev)]\<rparr>)"

definition ring_get :: "ps_ring \<Rightarrow> (nat \<times> ps_ring) option" where
  "ring_get r =
     (if lq_count r = 0 then None
      else Some (lq_slots r ! lq_head r,
                 r\<lparr>lq_head := (lq_head r + 1) mod PS_MAX_JOBS_PER_LEVEL, lq_count := lq_count r - 1\<rparr>))"

definition dequeue_from_level :: "ps_scheduler \<Rightarrow> nat \<Rightarrow> ps_scheduler \<times> nat option" where
  "dequeue_from_level s lev =
     (if lev \<ge> ps_level_count s then (s, None)
      else case ring_get (ps_queues s ! lev) of
             None \<Rightarrow> (s, None)
           | Some (idx, r) \<Rightarrow> (s\<lparr>ps_queues := (ps_queues s)[lev := r]\<rparr>, Some idx))"

definition empty_ring :: ps_ring where
  "empty_ring = \<lparr>lq_slots = replicate PS_MAX_JOBS_PER_LEVEL 0, lq_head = 0, lq_tail = 0, lq_count = 0\<rparr>"

definition ps_create :: "bool \<Rightarrow> time_t \<Rightarrow> ps_config option \<Rightarrow> ps_scheduler option" where
  "ps_create ok now config =
     (if \<not> ok then None
      else
        let mk = (\<lambda>algo levels lc ai mb.
              \<lparr>ps_jobs = [], ps_queues = replicate PS_MAX_PRIORITY_LEVELS empty_ring, ps_algorithm = algo,
               ps_levels = levels, ps_level_count = lc, ps_aging_interval = ai, ps_max_boosts = mb, ps_last_aging = now,
               total_submitted = 0, total_completed = 0, total_wait_time = 0, completed_for_avg = 0\<rparr>)
        in case config of
             Some c \<Rightarrow>
               let lc0 = (if pc_level_count c > 0 then nat (pc_level_count c) else PS_MAX_PRIORITY_LEVELS);
                   lc = (if lc0 > PS_MAX_PRIORITY_LEVELS then PS_MAX_PRIORITY_LEVELS else lc0)
               in Some (mk (pc_algorithm c) (take lc (pc_levels c)) lc
                     (if pc_aging_interval c > 0 then pc_aging_interval c else 30)
                     (if pc_max_boosts c > 0 then pc_max_boosts c else 3))
           | None \<Rightarrow>
               Some (mk PS_SCHED_MLFQ
                 [\<lparr>pl_priority = 0, pl_quantum_ms = 10, pl_allocation = 0\<rparr>,
                  \<lparr>pl_priority = 1, pl_quantum_ms = 50, pl_allocation = 0\<rparr>,
                  \<lparr>pl_priority = 2, pl_quantum_ms = 100, pl_allocation = 0\<rparr>] 3 30 3))"

definition ps_submit :: "time_t \<Rightarrow> ps_scheduler \<Rightarrow> u64 \<Rightarrow> ptr \<Rightarrow> ptr \<Rightarrow> int \<Rightarrow> int \<Rightarrow> ps_scheduler \<times> int" where
  "ps_submit now s jid job ud priority tickets =
     (if job = NULL then (s, -1)
      else if length (ps_jobs s) \<ge> PS_MAX_JOBS then (s, -2)
      else
        let p = clamp_level s priority;
            entry = \<lparr>pj_id = jid, pj_job = job, pj_userdata = ud, pj_priority = p, pj_original = p, pj_boost = 0,
                     pj_tickets = (if tickets > 0 then tickets else 1), pj_enqueued_at = now, pj_active = True\<rparr>;
            idx = length (ps_jobs s);
            s1 = enqueue_at_level (s\<lparr>ps_jobs := ps_jobs s @ [entry]\<rparr>) idx p
        in (s1\<lparr>total_submitted := total_submitted s1 + 1\<rparr>, 0))"

definition upd_job :: "nat \<Rightarrow> (ps_job_entry \<Rightarrow> ps_job_entry) \<Rightarrow> ps_scheduler \<Rightarrow> ps_scheduler" where
  "upd_job i f s = s\<lparr>ps_jobs := (ps_jobs s)[i := f (ps_jobs s ! i)]\<rparr>"

definition record_wait :: "time_t \<Rightarrow> nat \<Rightarrow> ps_scheduler \<Rightarrow> ps_scheduler" where
  "record_wait now idx s =
     (let waited = difftime now (pj_enqueued_at (ps_jobs s ! idx))
      in if waited > 0
         then s\<lparr>total_wait_time := fadd (total_wait_time s) waited, completed_for_avg := completed_for_avg s + 1\<rparr>
         else s)"

definition ps_cancel :: "time_t \<Rightarrow> ps_scheduler \<Rightarrow> u64 \<Rightarrow> ps_scheduler \<times> int" where
  "ps_cancel now s jid =
     (case job_find s jid of
        None \<Rightarrow> (s, -1)
      | Some idx \<Rightarrow>
          let s1 = upd_job idx (\<lambda>j. j\<lparr>pj_active := False\<rparr>) s
          in (record_wait now idx (s1\<lparr>total_completed := total_completed s1 + 1\<rparr>), 0))"

definition ps_boost_priority :: "ps_scheduler \<Rightarrow> u64 \<Rightarrow> int \<Rightarrow> ps_scheduler \<times> int" where
  "ps_boost_priority s jid new_priority =
     (case job_find s jid of
        None \<Rightarrow> (s, -1)
      | Some idx \<Rightarrow>
          if new_priority < 0 \<or> new_priority \<ge> int (ps_level_count s) then (s, -2)
          else (upd_job idx (\<lambda>j. j\<lparr>pj_priority := new_priority, pj_boost := pj_boost j + 1\<rparr>) s, 0))"

definition ps_restore_priority :: "ps_scheduler \<Rightarrow> u64 \<Rightarrow> ps_scheduler \<times> int" where
  "ps_restore_priority s jid =
     (case job_find s jid of
        None \<Rightarrow> (s, -1)
      | Some idx \<Rightarrow> (upd_job idx (\<lambda>j. j\<lparr>pj_priority := pj_original j\<rparr>) s, 0))"

text \<open>The inner loop of \<open>schedule_mlfq\<close> at one level, with the number of entries left in the ring, and
  its outer loop over the levels.\<close>

fun mlfq_level :: "time_t \<Rightarrow> nat \<Rightarrow> nat \<Rightarrow> ps_scheduler \<Rightarrow> ps_scheduler \<times> ps_job_entry option" where
  "mlfq_level now lev 0 s = (s, None)"
| "mlfq_level now lev (Suc n) s =
     (case dequeue_from_level s lev of
        (s1, None) \<Rightarrow> (s1, None)
      | (s1, Some idx) \<Rightarrow>
          if pj_active (ps_jobs s1 ! idx)
          then (let out = ps_jobs s1 ! idx;
                    s2 = upd_job idx (\<lambda>j. j\<lparr>pj_active := False\<rparr>) (record_wait now idx s1)
                in (s2\<lparr>total_completed := total_completed s2 + 1\<rparr>, Some out))
          else mlfq_level now lev n s1)"

fun mlfq_from :: "time_t \<Rightarrow> nat list \<Rightarrow> ps_scheduler \<Rightarrow> ps_scheduler \<times> ps_job_entry option" where
  "mlfq_from now [] s = (s, None)"
| "mlfq_from now (lev # levs) s =
     (case mlfq_level now lev (lq_count (ps_queues s ! lev)) s of
        (s1, Some j) \<Rightarrow> (s1, Some j)
      | (s1, None) \<Rightarrow> mlfq_from now levs s1)"

definition schedule_mlfq :: "time_t \<Rightarrow> ps_scheduler \<Rightarrow> ps_scheduler \<times> ps_job_entry option" where
  "schedule_mlfq now s = mlfq_from now [0..<ps_level_count s] s"

definition count_active :: "ps_scheduler \<Rightarrow> nat" where
  "count_active s = length (filter pj_active (ps_jobs s))"

definition schedule_fixed :: "time_t \<Rightarrow> ps_scheduler \<Rightarrow> ps_scheduler \<times> ps_job_entry option" where
  "schedule_fixed now s = schedule_mlfq now s"

definition ages :: "time_t \<Rightarrow> ps_scheduler \<Rightarrow> ps_job_entry \<Rightarrow> bool" where
  "ages now s j \<longleftrightarrow> pj_active j \<and> difftime now (pj_enqueued_at j) \<ge> of_c_int (ps_aging_interval s)
     \<and> pj_boost j < ps_max_boosts s \<and> pj_priority j > 0"

definition ps_age_jobs :: "ps_scheduler \<Rightarrow> time_t \<Rightarrow> ps_scheduler \<times> int" where
  "ps_age_jobs s now =
     (s\<lparr>ps_jobs := map (\<lambda>j. if ages now s j
           then j\<lparr>pj_priority := pj_priority j - 1, pj_boost := pj_boost j + 1, pj_enqueued_at := now\<rparr> else j) (ps_jobs s)\<rparr>,
      int (length (filter (ages now s) (ps_jobs s))))"

definition total_tickets :: "ps_scheduler \<Rightarrow> int" where
  "total_tickets s = sum_list (map pj_tickets (filter pj_active (ps_jobs s)))"

definition ps_next_seed :: "u32 \<Rightarrow> u32" where
  "ps_next_seed seed = seed * 1664525 + 1013904223"

definition lottery_winner :: "u32 \<Rightarrow> int \<Rightarrow> int" where
  "lottery_winner seed tickets = trunc (fmul (fl (of_c_int (uint seed) / 4294967296)) (of_c_int tickets))"

fun lottery_scan :: "int \<Rightarrow> int \<Rightarrow> (nat \<times> ps_job_entry) list \<Rightarrow> nat option" where
  "lottery_scan winner acc [] = None"
| "lottery_scan winner acc ((i, j) # js) =
     (if \<not> pj_active j then lottery_scan winner acc js
      else if winner < acc + pj_tickets j then Some i
      else lottery_scan winner (acc + pj_tickets j) js)"

definition ps_lottery_select :: "ps_scheduler \<Rightarrow> u32 \<Rightarrow> nat option \<times> u32" where
  "ps_lottery_select s seed =
     (if total_tickets s = 0 then (None, seed)
      else
        let seed' = ps_next_seed seed;
            winner = lottery_winner seed' (total_tickets s)
        in (case lottery_scan winner 0 (enumerate 0 (ps_jobs s)) of
              Some i \<Rightarrow> Some i
            | None \<Rightarrow> find (\<lambda>i. pj_active (ps_jobs s ! i)) (rev [0..<length (ps_jobs s)]),
            seed'))"

definition ps_auto_age :: "time_t \<Rightarrow> ps_scheduler \<Rightarrow> ps_scheduler" where
  "ps_auto_age now s =
     (if difftime now (ps_last_aging s) \<ge> of_c_int (ps_aging_interval s)
      then (fst (ps_age_jobs s now))\<lparr>ps_last_aging := now\<rparr> else s)"

text \<open>\<open>now\<close> is the reading of the scheduler, \<open>t\<close> the one for the waiting time of the chosen job.\<close>

definition ps_schedule_next :: "time_t \<Rightarrow> time_t \<Rightarrow> ps_scheduler \<Rightarrow> ps_scheduler \<times> ps_job_entry option" where
  "ps_schedule_next now t s0 =
     (let s = ps_auto_age now s0
      in case ps_algorithm s of
           PS_SCHED_MLFQ \<Rightarrow> schedule_mlfq t s
         | PS_SCHED_FIXED \<Rightarrow> schedule_fixed t s
         | PS_SCHED_LOTTERY \<Rightarrow>
             (case fst (ps_lottery_select s (word_of_int now)) of
                Some idx \<Rightarrow>
                  let s1 = upd_job idx (\<lambda>j. j\<lparr>pj_active := False\<rparr>) s
                  in (s1\<lparr>total_completed := total_completed s1 + 1\<rparr>, Some (ps_jobs s ! idx))
              | None \<Rightarrow> (s, None)))"

definition ps_schedule_next_timed :: "time_t \<Rightarrow> time_t \<Rightarrow> ps_scheduler \<Rightarrow> int \<Rightarrow> ps_scheduler \<times> ps_job_entry option" where
  "ps_schedule_next_timed now t s timeout_ms = ps_schedule_next now t s"

definition ps_priority_inherit :: "ps_scheduler \<Rightarrow> u64 \<Rightarrow> u64 \<Rightarrow> ps_scheduler \<times> int" where
  "ps_priority_inherit s holder waiter =
     (case (job_find s holder, job_find s waiter) of
        (Some hi, Some wi) \<Rightarrow>
          let waiter_pri = pj_priority (ps_jobs s ! wi); holder_pri = pj_priority (ps_jobs s ! hi)
          in if holder_pri > waiter_pri then (upd_job hi (\<lambda>j. j\<lparr>pj_priority := waiter_pri\<rparr>) s, 1) else (s, 0)
      | _ \<Rightarrow> (s, -1))"

definition ps_queue_size :: "ps_scheduler option \<Rightarrow> nat" where
  "ps_queue_size h = (case h of None \<Rightarrow> 0 | Some s \<Rightarrow> count_active s)"

definition ps_queue_size_at :: "ps_scheduler option \<Rightarrow> int \<Rightarrow> nat" where
  "ps_queue_size_at h priority =
     (case h of None \<Rightarrow> 0
      | Some s \<Rightarrow>
          if priority < 0 \<or> priority \<ge> int (ps_level_count s) then 0
          else length (filter (\<lambda>j. pj_active j \<and> pj_priority j = priority) (ps_jobs s)))"

definition ps_is_empty :: "ps_scheduler option \<Rightarrow> bool" where
  "ps_is_empty h = (ps_queue_size h = 0)"

definition ps_total_submitted :: "ps_scheduler option \<Rightarrow> int" where
  "ps_total_submitted h = (case h of None \<Rightarrow> 0 | Some s \<Rightarrow> total_submitted s)"

definition ps_total_completed :: "ps_scheduler option \<Rightarrow> int" where
  "ps_total_completed h = (case h of None \<Rightarrow> 0 | Some s \<Rightarrow> total_completed s)"

definition ps_avg_wait_time :: "ps_scheduler option \<Rightarrow> double" where
  "ps_avg_wait_time h =
     (case h of None \<Rightarrow> 0
      | Some s \<Rightarrow> if completed_for_avg s = 0 then 0 else fl (total_wait_time s / of_c_int (completed_for_avg s)))"

section \<open>Runs and invariant\<close>

datatype ps_op = Submit time_t u64 ptr ptr int int | Cancel time_t u64 | Boost u64 int | Restore u64
  | Inherit u64 u64 | Age time_t | Next time_t time_t

fun ps_apply :: "ps_op \<Rightarrow> ps_scheduler \<Rightarrow> ps_scheduler" where
  "ps_apply (Submit now jid job ud pr tk) s = fst (ps_submit now s jid job ud pr tk)"
| "ps_apply (Cancel now jid) s = fst (ps_cancel now s jid)"
| "ps_apply (Boost jid p) s = fst (ps_boost_priority s jid p)"
| "ps_apply (Restore jid) s = fst (ps_restore_priority s jid)"
| "ps_apply (Inherit h w) s = fst (ps_priority_inherit s h w)"
| "ps_apply (Age now) s = fst (ps_age_jobs s now)"
| "ps_apply (Next now t) s = fst (ps_schedule_next now t s)"

text \<open>A step with room: a submission finds fewer than 64 entries in the ring of its level.\<close>

definition roomy :: "ps_op \<Rightarrow> ps_scheduler \<Rightarrow> bool" where
  "roomy oper s = (case oper of
     Submit _ _ _ _ pr _ \<Rightarrow> lq_count (ps_queues s ! nat (clamp_level s pr)) < PS_MAX_JOBS_PER_LEVEL | _ \<Rightarrow> True)"

inductive ps_reach :: "ps_scheduler \<Rightarrow> ps_scheduler \<Rightarrow> bool" for s0 where
  ps_start: "ps_reach s0 s0"
| ps_step: "ps_reach s0 s \<Longrightarrow> roomy oper s \<Longrightarrow> ps_reach s0 (ps_apply oper s)"

definition active_at :: "ps_scheduler \<Rightarrow> nat \<Rightarrow> bool" where
  "active_at s i \<longleftrightarrow> i < length (ps_jobs s) \<and> pj_active (ps_jobs s ! i)"

definition lq_items :: "ps_ring \<Rightarrow> nat list" where
  "lq_items r = ring_items (lq_slots r) (lq_head r) (lq_count r)"

abbreviation items_at :: "ps_scheduler \<Rightarrow> nat \<Rightarrow> nat list" where
  "items_at s lev \<equiv> lq_items (ps_queues s ! lev)"

definition ring_ok :: "ps_ring \<Rightarrow> bool" where
  "ring_ok r \<longleftrightarrow> length (lq_slots r) = 64 \<and> lq_head r < 64 \<and> lq_count r \<le> 64 \<and> lq_tail r = (lq_head r + lq_count r) mod 64"

definition ps_pending :: "ps_scheduler \<Rightarrow> nat list" where
  "ps_pending s = concat (map (\<lambda>lev. filter (active_at s) (items_at s lev)) [0..<ps_level_count s])"

definition ps_ok :: "ps_scheduler \<Rightarrow> bool" where
  "ps_ok s \<longleftrightarrow> length (ps_queues s) = 8 \<and> 0 < ps_level_count s \<and> ps_level_count s \<le> 8
     \<and> (\<forall>lev < 8. ring_ok (ps_queues s ! lev))
     \<and> (\<forall>lev < ps_level_count s. sorted_wrt (<) (items_at s lev)
          \<and> (\<forall>i \<in> set (items_at s lev). i < length (ps_jobs s) \<and> pj_original (ps_jobs s ! i) = int lev))
     \<and> (\<forall>i. active_at s i \<longrightarrow> (\<exists>lev < ps_level_count s. i \<in> set (items_at s lev)))"

section \<open>Rings\<close>

lemma length_lq_items [simp]: "length (lq_items r) = lq_count r"
  by (simp add: lq_items_def)

lemma ring_put_items:
  assumes "ring_ok r" "lq_count r < 64"
  shows "ring_ok (ring_put i r)" "lq_items (ring_put i r) = lq_items r @ [i]"
  using assms ring_push [of "lq_count r" "lq_slots r" "lq_head r" i]
  by (auto simp: ring_ok_def ring_put_def lq_items_def PS_MAX_JOBS_PER_LEVEL_def mod_simps)

lemma ring_get_items:
  assumes "ring_ok r" "lq_items r = i # js"
  shows "\<exists>r'. ring_get r = Some (i, r') \<and> ring_ok r' \<and> lq_items r' = js"
proof -
  have n: "lq_count r = Suc (length js)" using arg_cong [OF assms(2), of length] by simp
  show ?thesis
    using assms n ring_pop [of "lq_slots r" "lq_head r" "length js"]
    by (auto simp: ring_get_def ring_ok_def lq_items_def PS_MAX_JOBS_PER_LEVEL_def mod_simps)
qed

lemma ring_get_nil: "lq_items r = [] \<Longrightarrow> ring_get r = None"
  by (simp add: ring_get_def flip: length_0_conv)

section \<open>Changes that keep the queues\<close>

text \<open>Two schedulers with the same queues whose jobs differ neither in activity nor in their original
  priority.\<close>

definition same_queues :: "ps_scheduler \<Rightarrow> ps_scheduler \<Rightarrow> bool" where
  "same_queues s s' \<longleftrightarrow> ps_queues s' = ps_queues s \<and> ps_level_count s' = ps_level_count s
     \<and> length (ps_jobs s') = length (ps_jobs s)
     \<and> (\<forall>i < length (ps_jobs s). pj_original (ps_jobs s' ! i) = pj_original (ps_jobs s ! i)
          \<and> pj_id (ps_jobs s' ! i) = pj_id (ps_jobs s ! i)
          \<and> pj_active (ps_jobs s' ! i) = pj_active (ps_jobs s ! i))"

lemma same_queues_facts:
  assumes "same_queues s s'"
  shows "active_at s' = active_at s" "ps_ok s' = ps_ok s" "ps_pending s' = ps_pending s"
proof -
  show a: "active_at s' = active_at s" using assms by (auto simp: same_queues_def active_at_def fun_eq_iff)
  show "ps_pending s' = ps_pending s" using a assms by (simp add: ps_pending_def same_queues_def)
  have "(\<forall>i \<in> set xs. i < length (ps_jobs s') \<and> pj_original (ps_jobs s' ! i) = l)
      = (\<forall>i \<in> set xs. i < length (ps_jobs s) \<and> pj_original (ps_jobs s ! i) = l)" for xs l
    using assms by (auto simp: same_queues_def)
  then show "ps_ok s' = ps_ok s" using a assms by (simp add: ps_ok_def same_queues_def)
qed

lemma same_queues_upd_job:
  assumes "\<And>j. pj_original (f j) = pj_original j \<and> pj_id (f j) = pj_id j \<and> pj_active (f j) = pj_active j"
  shows "same_queues s (upd_job i f s)"
proof -
  have "pj_original ((ps_jobs s)[i := f (ps_jobs s ! i)] ! k) = pj_original (ps_jobs s ! k)
      \<and> pj_id ((ps_jobs s)[i := f (ps_jobs s ! i)] ! k) = pj_id (ps_jobs s ! k)
      \<and> pj_active ((ps_jobs s)[i := f (ps_jobs s ! i)] ! k) = pj_active (ps_jobs s ! k)" if "k < length (ps_jobs s)" for k
    using assms that by (cases "k = i") auto
  then show ?thesis by (simp add: same_queues_def upd_job_def)
qed

lemma same_queues_refl: "same_queues s s"
  by (simp add: same_queues_def)

lemma same_queues_priority_ops:
  "same_queues s (fst (ps_boost_priority s jid p))" "same_queues s (fst (ps_restore_priority s jid))"
  "same_queues s (fst (ps_priority_inherit s h w))" "same_queues s (fst (ps_age_jobs s now))" "same_queues s (ps_auto_age now s)"
proof -
  show "same_queues s (fst (ps_boost_priority s jid p))" "same_queues s (fst (ps_restore_priority s jid))"
    "same_queues s (fst (ps_priority_inherit s h w))"
    by (auto simp: ps_boost_priority_def ps_restore_priority_def ps_priority_inherit_def Let_def same_queues_refl
        intro: same_queues_upd_job split: option.splits)
  show a: "same_queues s (fst (ps_age_jobs s now))" by (simp add: ps_age_jobs_def same_queues_def)
  then show "same_queues s (ps_auto_age now s)" by (simp add: ps_auto_age_def same_queues_def)
qed

section \<open>Scheduling by level\<close>

text \<open>What a scheduling step does to the queues: it drops entries of jobs that are not active
  afterwards, and deactivates jobs.\<close>

definition drops :: "ps_scheduler \<Rightarrow> ps_scheduler \<Rightarrow> bool" where
  "drops s s' \<longleftrightarrow> ps_level_count s' = ps_level_count s \<and> length (ps_queues s') = length (ps_queues s)
     \<and> length (ps_jobs s') = length (ps_jobs s)
     \<and> (\<forall>i < length (ps_jobs s). pj_original (ps_jobs s' ! i) = pj_original (ps_jobs s ! i))
     \<and> (\<forall>i. active_at s' i \<longrightarrow> active_at s i)
     \<and> (\<forall>lev < length (ps_queues s). (ring_ok (ps_queues s ! lev) \<longrightarrow> ring_ok (ps_queues s' ! lev))
          \<and> (\<exists>k. items_at s' lev = drop k (items_at s lev) \<and> (\<forall>i \<in> set (take k (items_at s lev)). \<not> active_at s' i)))"

lemma drops_refl: "drops s s"
  by (auto simp: drops_def intro: exI [of _ 0])

lemma drops_level:
  "drops s s' \<Longrightarrow> lev < length (ps_queues s) \<Longrightarrow>
   \<exists>k. items_at s' lev = drop k (items_at s lev) \<and> (\<forall>i \<in> set (take k (items_at s lev)). \<not> active_at s' i)"
  unfolding drops_def by blast

lemma drops_lengths:
  "drops s s' \<Longrightarrow> length (ps_queues s') = length (ps_queues s) \<and> ps_level_count s' = ps_level_count s
     \<and> length (ps_jobs s') = length (ps_jobs s)"
  by (simp add: drops_def)

lemma drops_trans:
  assumes "drops s s1" "drops s1 s2"
  shows "drops s s2"
proof -
  have "(\<exists>k. items_at s2 lev = drop k (items_at s lev) \<and> (\<forall>i \<in> set (take k (items_at s lev)). \<not> active_at s2 i))"
    if l: "lev < length (ps_queues s)" for lev
  proof -
    obtain k where k: "items_at s1 lev = drop k (items_at s lev)" "\<forall>i \<in> set (take k (items_at s lev)). \<not> active_at s1 i"
      using drops_level [OF assms(1) l] by blast
    obtain m where m: "items_at s2 lev = drop m (items_at s1 lev)" "\<forall>i \<in> set (take m (items_at s1 lev)). \<not> active_at s2 i"
      using drops_level [OF assms(2), of lev] l drops_lengths [OF assms(1)] by auto
    have "take (k + m) (items_at s lev) = take k (items_at s lev) @ take m (items_at s1 lev)"
      using k(1) by (simp add: take_add)
    then have "\<forall>i \<in> set (take (k + m) (items_at s lev)). \<not> active_at s2 i"
      using k(2) m(2) assms(2) by (auto simp: drops_def)
    moreover have "items_at s2 lev = drop (k + m) (items_at s lev)" using k(1) m(1) by (simp add: add.commute)
    ultimately show ?thesis by blast
  qed
  then show ?thesis using assms by (auto simp: drops_def)
qed

lemma drops_ok:
  assumes "ps_ok s" "drops s s'"
  shows "ps_ok s'"
proof -
  have len: "length (ps_queues s) = 8" "ps_level_count s' = ps_level_count s" "ps_level_count s \<le> 8"
    "length (ps_jobs s') = length (ps_jobs s)" using assms by (auto simp: ps_ok_def drops_def)
  have d: "\<exists>k. items_at s' lev = drop k (items_at s lev) \<and> (\<forall>i \<in> set (take k (items_at s lev)). \<not> active_at s' i)"
    if "lev < 8" for lev using assms(2) that len(1) by (simp add: drops_def)
  have lev: "sorted_wrt (<) (items_at s' lev) \<and> (\<forall>i \<in> set (items_at s' lev). i < length (ps_jobs s') \<and> pj_original (ps_jobs s' ! i) = int lev)"
    if "lev < ps_level_count s" for lev
  proof -
    have "lev < 8" using that len(3) by simp
    then obtain k where k: "items_at s' lev = drop k (items_at s lev)" using d by blast
    have "sorted_wrt (<) (items_at s lev)"
      "\<forall>i \<in> set (items_at s lev). i < length (ps_jobs s) \<and> pj_original (ps_jobs s ! i) = int lev"
      using assms(1) that by (auto simp: ps_ok_def)
    then show ?thesis using k assms(2) by (auto simp: drops_def sorted_wrt_drop dest: in_set_dropD)
  qed
  have act: "\<exists>lev < ps_level_count s. i \<in> set (items_at s' lev)" if "active_at s' i" for i
  proof -
    have "active_at s i" using that assms(2) by (simp add: drops_def)
    then obtain lev where lev: "lev < ps_level_count s" "i \<in> set (items_at s lev)" using assms(1) by (auto simp: ps_ok_def)
    then obtain k where k: "items_at s' lev = drop k (items_at s lev)" "\<forall>i \<in> set (take k (items_at s lev)). \<not> active_at s' i"
      using d [of lev] len(3) by auto
    then have "i \<in> set (drop k (items_at s lev))" using lev(2) that by (metis Un_iff append_take_drop_id set_append)
    then show ?thesis using k(1) lev(1) by auto
  qed
  have rings: "ring_ok (ps_queues s' ! l)" if "l < 8" for l
    using assms that len(1) by (simp add: ps_ok_def drops_def)
  have "length (ps_queues s') = 8" "0 < ps_level_count s" using assms len(1) by (simp_all add: ps_ok_def drops_def)
  then show ?thesis
    unfolding ps_ok_def len(2) using len(3) lev act rings by blast
qed

lemma take_job_drops:
  assumes r: "dequeue_from_level s lev = (s1, Some i)" and lev: "lev < length (ps_queues s)"
    and ok: "ring_ok (ps_queues s ! lev)" and it: "items_at s lev = i # js" and q: "ps_queues s' = ps_queues s1"
    and c: "ps_level_count s' = ps_level_count s" "ps_jobs s' = (ps_jobs s)[i := f (ps_jobs s ! i)]"
      "\<And>j. pj_original (f j) = pj_original j" "\<And>j. pj_active (f j) \<Longrightarrow> pj_active j"
    and dead: "\<not> active_at s' i"
  shows "drops s s'" "items_at s' lev = js" "k \<noteq> lev \<Longrightarrow> items_at s' k = items_at s k"
proof -
  obtain r' where g: "ring_get (ps_queues s ! lev) = Some (i, r')" "ring_ok r'" "lq_items r' = js"
    using ring_get_items [OF ok it] by blast
  have s1: "ps_queues s1 = (ps_queues s)[lev := r']" using r g by (auto simp: dequeue_from_level_def split: if_splits)
  then show lv: "items_at s' lev = js" and oth: "k \<noteq> lev \<Longrightarrow> items_at s' k = items_at s k" for k
    using lev g(3) q by simp_all
  have "\<exists>m. items_at s' k = drop m (items_at s k) \<and> (\<forall>x \<in> set (take m (items_at s k)). \<not> active_at s' x)" for k
  proof (cases "k = lev")
    case True
    then show ?thesis using lv it dead by (intro exI [of _ 1]) simp
  next
    case False
    then show ?thesis using oth [OF False] by (intro exI [of _ 0]) simp
  qed
  moreover have "ring_ok (ps_queues s ! k) \<Longrightarrow> ring_ok (ps_queues s' ! k)" if "k < length (ps_queues s)" for k
    using that s1 q g(2) by (cases "k = lev") auto
  moreover have "pj_original (ps_jobs s' ! x) = pj_original (ps_jobs s ! x) \<and> (pj_active (ps_jobs s' ! x) \<longrightarrow> pj_active (ps_jobs s ! x))"
    if "x < length (ps_jobs s)" for x
    using c that by (cases "x = i") auto
  ultimately show "drops s s'" using c s1 q by (auto simp: drops_def active_at_def)
qed

lemma mlfq_level_spec:
  "mlfq_level now lev n s = (s', r) \<Longrightarrow> n = lq_count (ps_queues s ! lev) \<Longrightarrow> lev < length (ps_queues s) \<Longrightarrow>
   lev < ps_level_count s \<Longrightarrow> ring_ok (ps_queues s ! lev) \<Longrightarrow> \<forall>i \<in> set (items_at s lev). i < length (ps_jobs s) \<Longrightarrow>
   drops s s' \<and> (\<forall>k. k \<noteq> lev \<longrightarrow> items_at s' k = items_at s k) \<and>
   (case filter (active_at s) (items_at s lev) of
      [] \<Rightarrow> r = None \<and> ps_jobs s' = ps_jobs s
    | i # js \<Rightarrow> r = Some (ps_jobs s ! i) \<and> ps_jobs s' = (ps_jobs s)[i := (ps_jobs s ! i)\<lparr>pj_active := False\<rparr>])"
proof (induction now lev n s arbitrary: s' r rule: mlfq_level.induct)
  case (1 now lev s)
  then have "items_at s lev = []" by (simp flip: length_0_conv)
  then show ?case using 1 by (simp add: drops_refl)
next
  case (2 now lev n s)
  then obtain i js where it: "items_at s lev = i # js" by (metis Suc_length_conv length_lq_items)
  obtain r' where g: "ring_get (ps_queues s ! lev) = Some (i, r')" "ring_ok r'" "lq_items r' = js"
    using ring_get_items [OF "2.prems"(5) it] by blast
  define s1 where "s1 = s\<lparr>ps_queues := (ps_queues s)[lev := r']\<rparr>"
  have dq: "dequeue_from_level s lev = (s1, Some i)"
    using g(1) "2.prems"(4) by (simp add: dequeue_from_level_def s1_def)
  have i: "i < length (ps_jobs s)" using "2.prems"(6) it by simp
  show ?case
  proof (cases "pj_active (ps_jobs s ! i)")
    case True
    have s': "ps_queues s' = ps_queues s1" "ps_level_count s' = ps_level_count s"
      "ps_jobs s' = (ps_jobs s)[i := (ps_jobs s ! i)\<lparr>pj_active := False\<rparr>]" "r = Some (ps_jobs s ! i)"
      using "2.prems"(1) dq True by (auto simp: s1_def Let_def upd_job_def record_wait_def)
    have "\<not> active_at s' i" using i by (simp add: active_at_def s'(3))
    note d = take_job_drops [where f = "\<lambda>j. j\<lparr>pj_active := False\<rparr>", OF dq "2.prems"(3,5) it s'(1-3) _ _ this, simplified]
    have "filter (active_at s) (items_at s lev) = i # filter (active_at s) js"
      using it True i by (simp add: active_at_def)
    then show ?thesis using d s' by auto
  next
    case False
    have rec: "mlfq_level now lev n s1 = (s', r)" using "2.prems"(1) dq False by (simp add: s1_def)
    have na: "\<not> active_at s1 i" using False by (simp add: active_at_def s1_def)
    have d: "drops s s1" "items_at s1 lev = js" "\<And>k. k \<noteq> lev \<Longrightarrow> items_at s1 k = items_at s k"
      using take_job_drops [OF dq "2.prems"(3,5) it refl _ _ _ _ na, of "\<lambda>j. j"] by (auto simp: s1_def)
    have "n = lq_count (ps_queues s1 ! lev)" using arg_cong [OF it, of length] arg_cong [OF d(2), of length] "2.prems"(2) by simp
    then have ih: "drops s1 s' \<and> (\<forall>k. k \<noteq> lev \<longrightarrow> items_at s' k = items_at s1 k) \<and>
      (case filter (active_at s1) (items_at s1 lev) of
        [] \<Rightarrow> r = None \<and> ps_jobs s' = ps_jobs s1
      | i # js \<Rightarrow> r = Some (ps_jobs s1 ! i) \<and> ps_jobs s' = (ps_jobs s1)[i := (ps_jobs s1 ! i)\<lparr>pj_active := False\<rparr>])"
      using "2.IH" [OF dq [symmetric] refl _ rec] False d "2.prems"(3,4,6) it g(2) by (auto simp: s1_def)
    have "active_at s1 = active_at s" by (simp add: active_at_def s1_def fun_eq_iff)
    then have "filter (active_at s) (items_at s lev) = filter (active_at s1) (items_at s1 lev)"
      using it d(2) na by simp
    moreover have "ps_jobs s1 = ps_jobs s" by (simp add: s1_def)
    ultimately show ?thesis using ih drops_trans [OF d(1)] d(3) by (simp split: list.splits)
  qed
qed

lemma mlfq_from_spec:
  "mlfq_from now levs s = (s', r) \<Longrightarrow> ps_ok s \<Longrightarrow> distinct levs \<Longrightarrow> set levs \<subseteq> {..<ps_level_count s} \<Longrightarrow>
   drops s s' \<and>
   (case concat (map (\<lambda>lev. filter (active_at s) (items_at s lev)) levs) of
      [] \<Rightarrow> r = None \<and> ps_jobs s' = ps_jobs s
    | i # js \<Rightarrow> r = Some (ps_jobs s ! i) \<and> ps_jobs s' = (ps_jobs s)[i := (ps_jobs s ! i)\<lparr>pj_active := False\<rparr>])"
proof (induction now levs s arbitrary: s' r rule: mlfq_from.induct)
  case (1 now s)
  then show ?case by (simp add: drops_refl)
next
  case (2 now lev levs s)
  obtain s1 r1 where m: "mlfq_level now lev (lq_count (ps_queues s ! lev)) s = (s1, r1)" by fastforce
  have lev: "lev < ps_level_count s" "lev < length (ps_queues s)" "ring_ok (ps_queues s ! lev)"
    "\<forall>i \<in> set (items_at s lev). i < length (ps_jobs s)"
    using "2.prems"(2,4) by (auto simp: ps_ok_def)
  note sp = mlfq_level_spec [OF m refl lev(2,1,3,4)]
  show ?case
  proof (cases "filter (active_at s) (items_at s lev)")
    case Nil
    then have s1: "r1 = None" "ps_jobs s1 = ps_jobs s" "drops s s1" "\<And>k. k \<noteq> lev \<Longrightarrow> items_at s1 k = items_at s k"
      using sp by auto
    have a: "active_at s1 = active_at s" using s1(2) by (simp add: active_at_def fun_eq_iff)
    have mp: "map (\<lambda>l. filter (active_at s) (items_at s1 l)) levs = map (\<lambda>l. filter (active_at s) (items_at s l)) levs"
      using "2.prems"(3) by (intro map_cong refl) (metis distinct.simps(2) s1(4))
    have "mlfq_from now levs s1 = (s', r)" using "2.prems"(1) m s1(1) by simp
    then have "drops s1 s' \<and>
     (case concat (map (\<lambda>lev. filter (active_at s) (items_at s lev)) levs) of
        [] \<Rightarrow> r = None \<and> ps_jobs s' = ps_jobs s
      | i # js \<Rightarrow> r = Some (ps_jobs s ! i) \<and> ps_jobs s' = (ps_jobs s)[i := (ps_jobs s ! i)\<lparr>pj_active := False\<rparr>])"
      using "2.IH" [OF m [symmetric] s1(1)] drops_ok [OF "2.prems"(2) s1(3)] "2.prems"(3,4) drops_lengths [OF s1(3)]
      unfolding a s1(2) mp by simp
    then show ?thesis using Nil drops_trans [OF s1(3)] by simp
  next
    case (Cons i js)
    then show ?thesis using sp "2.prems"(1) m by auto
  qed
qed

lemmas schedule_mlfq_spec =
  mlfq_from_spec [of t "[0..<ps_level_count s]" s, folded schedule_mlfq_def ps_pending_def, simplified] for t s

section \<open>The pending jobs in scheduling order\<close>

definition runs_before :: "ps_scheduler \<Rightarrow> nat \<Rightarrow> nat \<Rightarrow> bool" where
  "runs_before s i k \<longleftrightarrow> pj_original (ps_jobs s ! i) < pj_original (ps_jobs s ! k)
     \<or> pj_original (ps_jobs s ! i) = pj_original (ps_jobs s ! k) \<and> i < k"

lemma ps_okD:
  assumes "ps_ok s"
  shows "lev < ps_level_count s \<Longrightarrow> sorted_wrt (<) (items_at s lev)"
    "lev < ps_level_count s \<Longrightarrow> i \<in> set (items_at s lev) \<Longrightarrow> i < length (ps_jobs s) \<and> pj_original (ps_jobs s ! i) = int lev"
    "active_at s i \<Longrightarrow> \<exists>lev < ps_level_count s. i \<in> set (items_at s lev)"
    "lev < 8 \<Longrightarrow> ring_ok (ps_queues s ! lev)" "ps_level_count s \<le> 8" "0 < ps_level_count s" "length (ps_queues s) = 8"
  using assms unfolding ps_ok_def by blast+

lemma set_ps_pending: "ps_ok s \<Longrightarrow> set (ps_pending s) = {i. active_at s i}"
  by (auto simp: ps_pending_def Bex_def active_at_def [abs_def] dest: ps_okD(3) [unfolded active_at_def])

lemma sorted_ps_pending:
  assumes "ps_ok s"
  shows "sorted_wrt (runs_before s) (ps_pending s)"
proof -
  have "n \<le> ps_level_count s \<Longrightarrow>
    sorted_wrt (runs_before s) (concat (map (\<lambda>lev. filter (active_at s) (items_at s lev)) [0..<n]))" for n
  proof (induction n)
    case (Suc n)
    then have n: "n < ps_level_count s" by simp
    have "sorted_wrt (\<lambda>i k. i < k) (filter (active_at s) (items_at s n))"
      using ps_okD(1) [OF assms n] by (rule sorted_wrt_filter)
    then have "sorted_wrt (runs_before s) (filter (active_at s) (items_at s n))"
      by (rule sorted_wrt_mono_rel [rotated]) (use ps_okD(2) [OF assms n] in \<open>auto simp: runs_before_def\<close>)
    moreover have "runs_before s i k" if "l < n" "i \<in> set (items_at s l)" "k \<in> set (items_at s n)" for l i k
      using that ps_okD(2) [OF assms, of l i] ps_okD(2) [OF assms n, of k] n by (simp add: runs_before_def)
    ultimately show ?case using Suc by (auto simp: sorted_wrt_append)
  qed simp
  then show ?thesis by (simp add: ps_pending_def)
qed

section \<open>The invariant in every reachable state\<close>

lemma empty_ring_ok: "ring_ok empty_ring" "lq_items empty_ring = []"
  by (simp_all add: ring_ok_def empty_ring_def lq_items_def ring_items_def PS_MAX_JOBS_PER_LEVEL_def)

lemma ps_empty_ok:
  assumes "ps_queues s = replicate 8 empty_ring" "0 < ps_level_count s" "ps_level_count s \<le> 8" "ps_jobs s = []"
  shows "ps_ok s"
  using assms by (simp add: ps_ok_def empty_ring_ok active_at_def)

lemma ps_create_ok:
  assumes "ps_create True now c = Some s"
  shows "ps_ok s" "ps_jobs s = []"
proof -
  have "ps_queues s = replicate 8 empty_ring \<and> 0 < ps_level_count s \<and> ps_level_count s \<le> 8 \<and> ps_jobs s = []"
    using assms by (cases c) (auto simp: ps_create_def Let_def PS_MAX_PRIORITY_LEVELS_def)
  then show "ps_ok s" "ps_jobs s = []" by (simp_all add: ps_empty_ok)
qed

lemma clamp_level_bounds: "0 < ps_level_count s \<Longrightarrow> 0 \<le> clamp_level s p \<and> clamp_level s p < int (ps_level_count s)"
  by (simp add: clamp_level_def Let_def)

lemma clamp_level_idem: "0 < ps_level_count s \<Longrightarrow> clamp_level s (clamp_level s p) = clamp_level s p"
  by (simp add: clamp_level_def Let_def)

lemma ps_submit_state:
  fixes pr :: int
  assumes "ps_ok s" "job \<noteq> NULL" "length (ps_jobs s) < PS_MAX_JOBS"
  defines "lev \<equiv> nat (clamp_level s pr)"
  obtains e where "pj_original e = int lev" "pj_active e" "pj_id e = jid"
    "ps_jobs (fst (ps_submit now s jid job ud pr tk)) = ps_jobs s @ [e]"
    "ps_queues (fst (ps_submit now s jid job ud pr tk)) = (ps_queues s)[lev := ring_put (length (ps_jobs s)) (ps_queues s ! lev)]"
    "ps_level_count (fst (ps_submit now s jid job ud pr tk)) = ps_level_count s"
proof -
  let ?e = "\<lparr>pj_id = jid, pj_job = job, pj_userdata = ud, pj_priority = clamp_level s pr, pj_original = clamp_level s pr,
    pj_boost = 0, pj_tickets = (if tk > 0 then tk else 1), pj_enqueued_at = now, pj_active = True\<rparr>"
  have "clamp_level (ps_jobs_update f s) p = clamp_level s p" for f p by (simp add: clamp_level_def)
  then have st: "ps_jobs (fst (ps_submit now s jid job ud pr tk)) = ps_jobs s @ [?e]"
    "ps_queues (fst (ps_submit now s jid job ud pr tk)) = (ps_queues s)[lev := ring_put (length (ps_jobs s)) (ps_queues s ! lev)]"
    "ps_level_count (fst (ps_submit now s jid job ud pr tk)) = ps_level_count s"
    using assms clamp_level_idem [of s pr] ps_okD(6) [OF assms(1)]
    by (simp_all add: ps_submit_def Let_def enqueue_at_level_def)
  show ?thesis
    by (rule that [OF _ _ _ st]) (use clamp_level_bounds [of s pr] ps_okD(6) [OF assms(1)] in \<open>simp_all add: lev_def\<close>)
qed

lemma ps_submit_ok:
  assumes ok: "ps_ok s" and room: "lq_count (ps_queues s ! nat (clamp_level s pr)) < PS_MAX_JOBS_PER_LEVEL"
  shows "ps_ok (fst (ps_submit now s jid job ud pr tk))"
proof (cases "job \<noteq> NULL \<and> length (ps_jobs s) < PS_MAX_JOBS")
  case False
  then show ?thesis using ok by (auto simp: ps_submit_def)
next
  case True
  define lev where "lev = nat (clamp_level s pr)"
  obtain e where e: "pj_original e = int lev" "pj_active e"
    "ps_jobs (fst (ps_submit now s jid job ud pr tk)) = ps_jobs s @ [e]"
    "ps_queues (fst (ps_submit now s jid job ud pr tk)) = (ps_queues s)[lev := ring_put (length (ps_jobs s)) (ps_queues s ! lev)]"
    "ps_level_count (fst (ps_submit now s jid job ud pr tk)) = ps_level_count s"
    using ps_submit_state [OF ok, of job] True unfolding lev_def by blast
  let ?s = "fst (ps_submit now s jid job ud pr tk)"
  have lev: "lev < ps_level_count s" "lev < 8"
    using clamp_level_bounds [of s pr] ps_okD(5,6) [OF ok] by (auto simp: lev_def)
  have items: "items_at ?s l = (if l = lev then items_at s lev @ [length (ps_jobs s)] else items_at s l)"
    and rings: "l < 8 \<Longrightarrow> ring_ok (ps_queues ?s ! l)" for l
    using ring_put_items [of "ps_queues s ! lev" "length (ps_jobs s)"] room lev ps_okD(4,7) [OF ok]
    by (auto simp: e(4) lev_def PS_MAX_JOBS_PER_LEVEL_def nth_list_update)
  have act: "active_at ?s i \<longleftrightarrow> active_at s i \<or> i = length (ps_jobs s)" for i
    using e(2) by (auto simp: active_at_def e(3) nth_append)
  have lv: "sorted_wrt (<) (items_at ?s l) \<and>
      (\<forall>i \<in> set (items_at ?s l). i < length (ps_jobs ?s) \<and> pj_original (ps_jobs ?s ! i) = int l)"
    if "l < ps_level_count s" for l
    using ps_okD(1,2) [OF ok that] e(1) by (auto simp: items e(3) sorted_wrt_append nth_append less_Suc_eq)
  have "\<exists>l < ps_level_count s. i \<in> set (items_at ?s l)" if "active_at ?s i" for i
  proof (cases "i = length (ps_jobs s)")
    case True
    then show ?thesis using lev(1) by (auto simp: items)
  next
    case False
    then show ?thesis using that ps_okD(3) [OF ok, of i] by (auto simp: act items)
  qed
  then show ?thesis unfolding ps_ok_def e(5) using lv rings ps_okD(5,6,7) [OF ok] by (simp add: e(4))
qed

text \<open>Deactivating a job without touching the rings.\<close>

lemma deactivate_drops:
  assumes "ps_queues s' = ps_queues s" "ps_level_count s' = ps_level_count s"
    "ps_jobs s' = (ps_jobs s)[i := (ps_jobs s ! i)\<lparr>pj_active := False\<rparr>]"
  shows "drops s s'"
proof -
  have "pj_original (ps_jobs s' ! k) = pj_original (ps_jobs s ! k) \<and> (pj_active (ps_jobs s' ! k) \<longrightarrow> pj_active (ps_jobs s ! k))"
    if "k < length (ps_jobs s)" for k using that assms(3) by (cases "k = i") auto
  then show ?thesis using assms(1,2) assms(3) by (auto simp: drops_def active_at_def intro: exI [of _ 0])
qed

lemma ps_cancel_drops: "drops s (fst (ps_cancel now s jid))"
proof (cases "job_find s jid")
  case None
  then show ?thesis by (simp add: ps_cancel_def drops_refl)
next
  case (Some i)
  then show ?thesis
    by (intro deactivate_drops [of _ _ i]) (auto simp: ps_cancel_def Let_def upd_job_def record_wait_def)
qed

lemma ps_schedule_next_drops:
  assumes "ps_ok s"
  shows "drops (ps_auto_age now s) (fst (ps_schedule_next now t s))"
proof -
  let ?a = "ps_auto_age now s"
  have ok: "ps_ok ?a" using assms same_queues_facts(2) same_queues_priority_ops(5) by blast
  have m: "drops ?a (fst (schedule_mlfq t ?a))"
    using schedule_mlfq_spec [OF prod.collapse [symmetric] ok] by (simp add: lessThan_atLeast0)
  have "drops ?a (fst (let s1 = upd_job i (\<lambda>j. j\<lparr>pj_active := False\<rparr>) ?a
      in (s1\<lparr>total_completed := total_completed s1 + 1\<rparr>, Some (ps_jobs ?a ! i))))" for i
    by (rule deactivate_drops [of _ _ i]) (simp_all add: Let_def upd_job_def)
  then show ?thesis using m
    by (auto simp: ps_schedule_next_def schedule_fixed_def Let_def drops_refl split: ps_sched_algo.splits option.splits)
qed

lemma ps_apply_ok:
  assumes "ps_ok s" "roomy oper s"
  shows "ps_ok (ps_apply oper s)"
proof (cases oper)
  case (Submit now jid job ud pr tk)
  then show ?thesis using assms ps_submit_ok by (simp add: roomy_def)
next
  case (Cancel now jid)
  then show ?thesis using drops_ok [OF assms(1) ps_cancel_drops] by simp
next
  case (Next now t)
  have "ps_ok (ps_auto_age now s)" using assms(1) same_queues_facts(2) same_queues_priority_ops(5) by blast
  then show ?thesis using Next drops_ok ps_schedule_next_drops [OF assms(1)] by auto
qed (use assms(1) in \<open>simp_all add: same_queues_facts(2) [OF same_queues_priority_ops(1)]
  same_queues_facts(2) [OF same_queues_priority_ops(2)] same_queues_facts(2) [OF same_queues_priority_ops(3)]
  same_queues_facts(2) [OF same_queues_priority_ops(4)]\<close>)

lemma ps_reach_ok: "ps_reach s0 s \<Longrightarrow> ps_ok s0 \<Longrightarrow> ps_ok s"
  by (induction rule: ps_reach.induct) (auto intro: ps_apply_ok)

section \<open>The order of execution\<close>

text \<open>The specification: the active jobs by submitted priority, those of equal priority in the order of
  submission.\<close>

definition ps_order :: "ps_scheduler \<Rightarrow> nat list" where
  "ps_order s = sort_key (\<lambda>i. (pj_original (ps_jobs s ! i), i)) (filter (\<lambda>i. pj_active (ps_jobs s ! i)) [0..<length (ps_jobs s)])"

lemma ps_pending_order:
  assumes "ps_ok s"
  shows "ps_pending s = ps_order s"
proof -
  let ?k = "\<lambda>i. (pj_original (ps_jobs s ! i), i)" and ?as = "filter (\<lambda>i. pj_active (ps_jobs s ! i)) [0..<length (ps_jobs s)]"
  have srt: "sorted_wrt (runs_before s) (ps_pending s)" by (rule sorted_ps_pending [OF assms])
  then have "sorted (map ?k (ps_pending s))"
    unfolding sorted_map by (rule sorted_wrt_mono_rel [rotated]) (auto simp: runs_before_def less_eq_prod_def)
  moreover have "distinct (ps_pending s)"
    using srt by (fastforce simp: runs_before_def distinct_conv_nth sorted_wrt_iff_nth_less elim: nat_neq_iff [THEN iffD1, elim_format])
  moreover have "set ?as = set (ps_pending s)" by (auto simp: set_ps_pending [OF assms] active_at_def)
  ultimately have "mset ?as = mset (ps_pending s)" by (metis distinct_filter distinct_upt set_eq_iff_mset_eq_distinct)
  then show ?thesis
    unfolding ps_order_def
    by (rule sort_key_inj_key_eq [symmetric]) (simp_all add: inj_on_def \<open>sorted (map ?k (ps_pending s))\<close>)
qed

lemma ps_auto_age_algorithm [simp]: "ps_algorithm (ps_auto_age now s) = ps_algorithm s"
  by (simp add: ps_auto_age_def ps_age_jobs_def)

lemma ps_schedule_next_head:
  assumes "ps_ok s" "ps_algorithm s \<noteq> PS_SCHED_LOTTERY"
  shows "snd (ps_schedule_next now t s) =
    (case ps_pending s of [] \<Rightarrow> None | i # _ \<Rightarrow> Some (ps_jobs (ps_auto_age now s) ! i))"
proof -
  let ?a = "ps_auto_age now s"
  have a: "ps_ok ?a" "ps_pending ?a = ps_pending s"
    using assms(1) same_queues_facts [OF same_queues_priority_ops(5)] by auto
  have "ps_schedule_next now t s = schedule_mlfq t ?a"
    using assms(2) by (cases "ps_algorithm s") (simp_all add: ps_schedule_next_def schedule_fixed_def)
  then show ?thesis
    using schedule_mlfq_spec [OF prod.collapse [symmetric] a(1), of t] a(2)
    by (simp add: lessThan_atLeast0 split: list.splits)
qed

lemma same_queues_auto_age:
  assumes "same_queues s s'"
  shows "same_queues (ps_auto_age now s) (ps_auto_age now s')"
  using assms same_queues_priority_ops(5) [of s now] same_queues_priority_ops(5) [of s' now]
  unfolding same_queues_def by auto

fun changes_priority :: "ps_op \<Rightarrow> bool" where
  "changes_priority (Boost _ _) = True" | "changes_priority (Restore _) = True"
| "changes_priority (Inherit _ _) = True" | "changes_priority (Age _) = True" | "changes_priority _ = False"

lemma changes_priority_same_queues: "changes_priority oper \<Longrightarrow> same_queues s (ps_apply oper s)"
  by (cases oper) (simp_all add: same_queues_priority_ops)

lemma changes_priority_algorithm: "changes_priority oper \<Longrightarrow> ps_algorithm (ps_apply oper s) = ps_algorithm s"
  by (cases oper) (auto simp: ps_boost_priority_def ps_restore_priority_def ps_priority_inherit_def ps_age_jobs_def
      upd_job_def Let_def split: option.splits)

lemma ps_pending_index: "ps_ok s \<Longrightarrow> ps_pending s = i # is \<Longrightarrow> i < length (ps_jobs s)"
  using set_ps_pending [of s] by (auto simp: active_at_def)

text \<open>The job table only grows.\<close>

lemma drops_length: "drops s s' \<Longrightarrow> length (ps_jobs s') = length (ps_jobs s)"
  by (simp add: drops_def)

lemma same_queues_length: "same_queues s s' \<Longrightarrow> length (ps_jobs s') = length (ps_jobs s)"
  by (simp add: same_queues_def)

lemma mlfq_level_jobs: "length (ps_jobs (fst (mlfq_level now lev n s))) = length (ps_jobs s)"
  by (induction now lev n s rule: mlfq_level.induct)
    (auto simp: Let_def upd_job_def record_wait_def dequeue_from_level_def split: prod.splits option.splits if_splits)

lemma mlfq_from_jobs: "length (ps_jobs (fst (mlfq_from now levs s))) = length (ps_jobs s)"
proof (induction now levs s rule: mlfq_from.induct)
  case (2 now lev levs s)
  then show ?case using mlfq_level_jobs [of now lev "lq_count (ps_queues s ! lev)" s]
    by (auto split: prod.splits option.splits)
qed simp

lemma ps_schedule_next_jobs: "length (ps_jobs (fst (ps_schedule_next now t s))) = length (ps_jobs s)"
  using same_queues_length [OF same_queues_priority_ops(5), of now s]
  by (auto simp: ps_schedule_next_def schedule_fixed_def schedule_mlfq_def mlfq_from_jobs Let_def upd_job_def
      split: ps_sched_algo.splits option.splits)

lemma ps_apply_grows: "length (ps_jobs s) \<le> length (ps_jobs (ps_apply oper s))"
proof (cases "changes_priority oper")
  case True
  then show ?thesis using same_queues_length [OF changes_priority_same_queues] by simp
next
  case False
  then show ?thesis
    using drops_length [OF ps_cancel_drops]
    by (cases oper) (auto simp: ps_schedule_next_jobs ps_submit_def enqueue_at_level_def Let_def)
qed

lemma ps_run_grows: "length (ps_jobs s) \<le> length (ps_jobs (foldl (\<lambda>s oper. ps_apply oper s) s ops))"
  by (induction ops arbitrary: s) (auto intro: order_trans [OF ps_apply_grows])

section \<open>The lottery\<close>

definition active_tickets :: "(nat \<times> ps_job_entry) list \<Rightarrow> int" where
  "active_tickets js = sum_list (map (pj_tickets \<circ> snd) (filter (pj_active \<circ> snd) js))"

lemma active_tickets_simps [simp]:
  "active_tickets [] = 0"
  "active_tickets (x # js) = (if pj_active (snd x) then pj_tickets (snd x) else 0) + active_tickets js"
  by (simp_all add: active_tickets_def)

lemma active_tickets_nonneg: "\<forall>x \<in> set js. 0 < pj_tickets (snd x) \<Longrightarrow> 0 \<le> active_tickets js"
  by (induction js) auto

lemma lottery_scan_index: "lottery_scan w acc js = Some i \<Longrightarrow> i \<in> fst ` set js"
  by (induction w acc js rule: lottery_scan.induct) (auto split: if_splits)

text \<open>The winning numbers of a job form an interval as long as its number of tickets.\<close>

lemma lottery_scan_interval:
  "distinct (map fst js) \<Longrightarrow> \<forall>x \<in> set js. 0 < pj_tickets (snd x) \<Longrightarrow> (i, j) \<in> set js \<Longrightarrow> pj_active j \<Longrightarrow>
   \<exists>b \<ge> acc. b + pj_tickets j \<le> acc + active_tickets js \<and>
     (\<forall>w \<ge> acc. lottery_scan w acc js = Some i \<longleftrightarrow> b \<le> w \<and> w < b + pj_tickets j)"
proof (induction js arbitrary: acc)
  case (Cons x js)
  obtain k e where x: "x = (k, e)" by fastforce
  show ?case
  proof (cases "k = i")
    case True
    then have "e = j" using Cons.prems(1,3) x by (auto simp: image_iff)
    moreover have "lottery_scan w b js \<noteq> Some i" for w b
      using lottery_scan_index [of w b js i] Cons.prems(1) x True by auto
    ultimately show ?thesis
      using True x Cons.prems(4) active_tickets_nonneg [of js] Cons.prems(2) by (intro exI [of _ acc]) auto
  next
    case False
    then have m: "(i, j) \<in> set js" using Cons.prems(3) x by auto
    let ?acc = "if pj_active e then acc + pj_tickets e else acc"
    have pos: "0 < pj_tickets e" using Cons.prems(2) x by simp
    obtain b where b: "?acc \<le> b" "b + pj_tickets j \<le> ?acc + active_tickets js"
      "\<forall>w \<ge> ?acc. lottery_scan w ?acc js = Some i \<longleftrightarrow> b \<le> w \<and> w < b + pj_tickets j"
      using Cons.IH [of ?acc] Cons.prems m by auto
    then show ?thesis using x False pos by (intro exI [of _ b]) auto
  qed
qed simp

lemma total_tickets_enumerate: "active_tickets (enumerate n js) = sum_list (map pj_tickets (filter pj_active js))"
  by (induction js arbitrary: n) auto

section \<open>Properties\<close>

text \<open>C6. In every scheduler reached from creation by operations that never put more than the 64 jobs a level has room for into one
  level, every algorithm but the lottery runs the active job that was submitted with the smallest priority number, the
  earliest submitted one among equals, and reports an empty schedule exactly when no job is active.  What counts is the
  priority at submission: contrary to the documentation, boosting, aging and inheritance do not change the order, and a
  65th job in a level breaks it (\<open>ps_level_overrun\<close>).\<close>

theorem ps_schedule_next_order:
  assumes "ps_create True t0 c = Some s0" "ps_reach s0 s" "ps_algorithm s \<noteq> PS_SCHED_LOTTERY"
  shows "snd (ps_schedule_next now t s) =
    (case ps_order s of [] \<Rightarrow> None | i # _ \<Rightarrow> Some (ps_jobs (ps_auto_age now s) ! i))"
proof -
  have "ps_ok s" using ps_reach_ok assms(1,2) ps_create_ok(1) by blast
  then show ?thesis using ps_schedule_next_head assms(3) ps_pending_order by simp
qed

definition ps_two :: ps_scheduler where
  "ps_two = ps_apply (Submit 0 2 9 0 0 1) (ps_apply (Submit 0 1 9 0 1 1) (the (ps_create True 0 None)))"

theorem ps_schedule_next_order_witness:
  "map_option pj_id (snd (ps_schedule_next 5 5 ps_two)) = Some 2"
proof -
  have c: "ps_create True 0 None = Some (the (ps_create True 0 None))" by (simp add: ps_create_def Let_def)
  have r: "ps_reach (the (ps_create True 0 None)) ps_two"
    unfolding ps_two_def by (intro ps_step ps_start) (code_simp+)
  have "ps_algorithm ps_two \<noteq> PS_SCHED_LOTTERY" by code_simp
  from ps_schedule_next_order [OF c r this, of 5 5] have "snd (ps_schedule_next 5 5 ps_two) =
    (case ps_order ps_two of [] \<Rightarrow> None | i # _ \<Rightarrow> Some (ps_jobs (ps_auto_age 5 ps_two) ! i))" .
  moreover have "ps_order ps_two = [1, 0]" by code_simp
  moreover have "pj_id (ps_jobs (ps_auto_age 5 ps_two) ! 1) = 2" by code_simp
  ultimately show ?thesis by simp
qed

text \<open>Boosting, restoring, inheriting and aging priorities have no influence on the schedule: the
  level and fixed algorithms run the same job next as they would without the change.\<close>

theorem ps_priority_changes_ignored:
  assumes "ps_create True t0 c = Some s0" "ps_reach s0 s" "ps_algorithm s \<noteq> PS_SCHED_LOTTERY" "changes_priority oper"
  shows "map_option pj_id (snd (ps_schedule_next now t (ps_apply oper s))) = map_option pj_id (snd (ps_schedule_next now t s))"
proof -
  have ok: "ps_ok s" using ps_reach_ok assms(1,2) ps_create_ok(1) by blast
  let ?s = "ps_apply oper s"
  have sq: "same_queues s ?s" by (rule changes_priority_same_queues [OF assms(4)])
  have p: "ps_ok ?s" "ps_pending ?s = ps_pending s" using same_queues_facts [OF sq] ok by simp_all
  have "pj_id (ps_jobs (ps_auto_age now ?s) ! i) = pj_id (ps_jobs (ps_auto_age now s) ! i)" if "i < length (ps_jobs s)" for i
    using same_queues_auto_age [OF sq, of now] same_queues_priority_ops(5) [of s now] that by (simp add: same_queues_def)
  then show ?thesis
    using ps_schedule_next_head [OF ok assms(3)] ps_schedule_next_head [OF p(1)] p(2) assms(3)
      changes_priority_algorithm [OF assms(4)] ps_pending_index [OF ok]
    by (simp split: list.splits)
qed

theorem ps_priority_changes_ignored_witness:
  "map_option pj_id (snd (ps_schedule_next 5 5 (ps_apply (Boost 1 0) ps_two))) = Some 2"
proof -
  have c: "ps_create True 0 None = Some (the (ps_create True 0 None))" by (simp add: ps_create_def Let_def)
  have r: "ps_reach (the (ps_create True 0 None)) ps_two"
    unfolding ps_two_def by (intro ps_step ps_start) (code_simp+)
  have "ps_algorithm ps_two \<noteq> PS_SCHED_LOTTERY" by code_simp
  from ps_priority_changes_ignored [OF c r this, of "Boost 1 0" 5 5]
  have "map_option pj_id (snd (ps_schedule_next 5 5 (ps_apply (Boost 1 0) ps_two))) =
    map_option pj_id (snd (ps_schedule_next 5 5 ps_two))" by (simp only: changes_priority.simps simp_thms)
  also have "\<dots> = Some 2" by code_simp
  finally show ?thesis .
qed

text \<open>The lottery is proportional: among the numbers a draw can yield, those that make an active job the
  winner are exactly as many as the job has tickets.\<close>

theorem lottery_proportional:
  assumes "\<forall>j \<in> set (ps_jobs s). 0 < pj_tickets j" "i < length (ps_jobs s)" "pj_active (ps_jobs s ! i)"
  shows "card {w. 0 \<le> w \<and> w < total_tickets s \<and> lottery_scan w 0 (enumerate 0 (ps_jobs s)) = Some i}
    = nat (pj_tickets (ps_jobs s ! i))"
proof -
  let ?js = "enumerate 0 (ps_jobs s)" and ?t = "pj_tickets (ps_jobs s ! i)"
  have "\<forall>x \<in> set ?js. 0 < pj_tickets (snd x)" using assms(1) by (auto simp: in_set_enumerate_eq)
  moreover have "(i, ps_jobs s ! i) \<in> set ?js" using assms(2) by (simp add: in_set_enumerate_eq)
  ultimately obtain b where b: "0 \<le> b" "b + ?t \<le> active_tickets ?js"
    "\<forall>w \<ge> 0. lottery_scan w 0 ?js = Some i \<longleftrightarrow> b \<le> w \<and> w < b + ?t"
    using lottery_scan_interval [of ?js i "ps_jobs s ! i" 0] assms(3) by auto
  have "{w. 0 \<le> w \<and> w < total_tickets s \<and> lottery_scan w 0 ?js = Some i} = {b..<b + ?t}"
    using b by (auto simp: total_tickets_def total_tickets_enumerate)
  then show ?thesis by simp
qed

theorem lottery_proportional_witness:
  "card {w. 0 \<le> w \<and> w < total_tickets ps_two \<and> lottery_scan w 0 (enumerate 0 (ps_jobs ps_two)) = Some 1} = 1"
proof -
  have "\<forall>j \<in> set (ps_jobs ps_two). 0 < pj_tickets j" "1 < length (ps_jobs ps_two)" "pj_active (ps_jobs ps_two ! 1)"
    by code_simp+
  from lottery_proportional [OF this] have "card {w. 0 \<le> w \<and> w < total_tickets ps_two \<and> lottery_scan w 0 (enumerate 0 (ps_jobs ps_two)) = Some 1}
    = nat (pj_tickets (ps_jobs ps_two ! 1))" .
  moreover have "nat (pj_tickets (ps_jobs ps_two ! 1)) = 1" by code_simp
  ultimately show ?thesis by simp
qed

text \<open>The job table is never reclaimed: once 256 jobs have been submitted, every further submission is
  refused with -2, whatever has been scheduled or cancelled since.\<close>

theorem ps_job_table_never_reclaimed:
  assumes "length (ps_jobs s) \<ge> PS_MAX_JOBS" "job \<noteq> NULL"
  shows "snd (ps_submit now (foldl (\<lambda>s oper. ps_apply oper s) s ops) jid job ud pr tk) = -2"
  using assms ps_run_grows [of s ops] by (simp add: ps_submit_def)

theorem ps_job_table_never_reclaimed_witness:
  "snd (ps_submit 0 (foldl (\<lambda>s oper. ps_apply oper s)
     (ps_two\<lparr>ps_jobs := replicate 256 (ps_jobs ps_two ! 0)\<rparr>) [Cancel 0 1, Next 5 5]) 7 9 0 0 1) = -2"
  using ps_job_table_never_reclaimed [of "ps_two\<lparr>ps_jobs := replicate 256 (ps_jobs ps_two ! 0)\<rparr>" 9 0 "[Cancel 0 1, Next 5 5]" 7 0 0 1]
  by (simp add: PS_MAX_JOBS_def)

definition ps_overfull :: ps_scheduler where
  "ps_overfull = foldl (\<lambda>s i. ps_apply (Submit 0 (of_nat i) 9 0 0 1) s) (the (ps_create True 0 None)) [0..<65]"

text \<open>A level whose ring is full overwrites its oldest entry: after 65 jobs have been submitted with
  priority 0 to a new scheduler, the first one is active but in none of the queues.\<close>

theorem ps_level_overrun:
  "active_at ps_overfull 0 \<and> 0 \<notin> set (concat (map lq_items (ps_queues ps_overfull)))"
  by code_simp

end
