(* ===== verification/Calendar.thy ===== *)
theory Calendar
  imports Prelude
begin

text \<open>
  The calendar functions of the C library that \<open>cron_scheduler.c\<close> calls.  The interface \<open>calendar\<close> states
  what the scheduler relies on: \<open>localtime_r\<close> yields fields in range, \<open>mktime\<close> inverts it, rewrites its
  argument to the fields of the time it returns, and counts seconds, minutes, hours and days beyond their
  range linearly, and seconds advance with the time modulo 60.  It holds in a time zone without transitions; the theory ends with its interpretation by
  the Gregorian calendar of UTC.
\<close>

record tm =
  tm_sec :: int
  tm_min :: int
  tm_hour :: int
  tm_mday :: int
  tm_mon :: int
  tm_year :: int
  tm_wday :: int
  tm_yday :: int
  tm_isdst :: int

locale calendar =
  fixes localtime_r :: "time_t \<Rightarrow> tm" and mktime :: "tm \<Rightarrow> tm \<times> time_t"
  assumes mktime_localtime: "mktime (localtime_r t) = (localtime_r t, t)"
    and mktime_fields: "fst (mktime v) = localtime_r (snd (mktime v))"
    and tm_range: "0 \<le> tm_sec (localtime_r t)" "tm_sec (localtime_r t) < 60" "0 \<le> tm_min (localtime_r t)"
      "tm_min (localtime_r t) < 60" "0 \<le> tm_hour (localtime_r t)" "tm_hour (localtime_r t) < 24"
      "1 \<le> tm_mday (localtime_r t)" "tm_mday (localtime_r t) \<le> 31" "0 \<le> tm_mon (localtime_r t)" "tm_mon (localtime_r t) < 12"
    and tm_sec_shift: "tm_sec (localtime_r (t + d)) = (tm_sec (localtime_r t) + d) mod 60"
    and mktime_linear: "snd (mktime (v\<lparr>tm_sec := s, tm_min := m, tm_hour := h, tm_mday := d\<rparr>)) =
      snd (mktime v) + (s - tm_sec v) + 60 * (m - tm_min v) + 3600 * (h - tm_hour v) + 86400 * (d - tm_mday v)"
    and mktime_month: "tm_mday (localtime_r t) = 31 \<Longrightarrow> v = localtime_r t \<Longrightarrow>
      snd (mktime (v\<lparr>tm_mday := 1, tm_mon := tm_mon v + 1\<rparr>)) = snd (mktime (v\<lparr>tm_mday := 32\<rparr>))"
    and mktime_year: "snd (mktime (v\<lparr>tm_mon := 12\<rparr>)) = snd (mktime (v\<lparr>tm_mon := 0, tm_year := tm_year v + 1\<rparr>))"

section \<open>The Gregorian calendar\<close>

text \<open>Days before the first of January of a year, counted from the year 0.\<close>

definition year_days :: "int \<Rightarrow> int" where
  "year_days y = 365 * y + (y + 3) div 4 - (y + 99) div 100 + (y + 399) div 400"

definition leap :: "int \<Rightarrow> bool" where
  "leap y \<longleftrightarrow> y mod 4 = 0 \<and> y mod 100 \<noteq> 0 \<or> y mod 400 = 0"

definition month_days :: "bool \<Rightarrow> int \<Rightarrow> int" where
  "month_days lp m = (if m \<le> 0 then 0 else if m = 1 then 31 else if m \<ge> 12 then 365 + (if lp then 1 else 0)
     else [59, 90, 120, 151, 181, 212, 243, 273, 304, 334] ! nat (m - 2) + (if lp then 1 else 0))"

definition epoch_days :: int where "epoch_days = 719528"

definition year_of :: "int \<Rightarrow> int" where
  "year_of n = (let y = (400 * n) div 146097
     in if year_days (y + 1) \<le> n then y + 1 else if n < year_days y then y - 1 else y)"

function month_from :: "bool \<Rightarrow> int \<Rightarrow> int \<Rightarrow> int" where
  "month_from lp yd m = (if m \<ge> 11 \<or> yd < month_days lp (m + 1) then m else month_from lp yd (m + 1))"
  by pat_completeness auto
termination by (relation "measure (\<lambda>(_, _, m). nat (11 - m))") auto

declare month_from.simps [simp del]

definition utc_localtime :: "time_t \<Rightarrow> tm" where
  "utc_localtime t =
     (let n = t div 86400 + epoch_days; r = t mod 86400; y = year_of n; yd = n - year_days y; m = month_from (leap y) yd 0
      in \<lparr>tm_sec = r mod 60, tm_min = r div 60 mod 60, tm_hour = r div 3600, tm_mday = yd - month_days (leap y) m + 1,
          tm_mon = m, tm_year = y - 1900, tm_wday = (t div 86400 + 4) mod 7, tm_yday = yd, tm_isdst = 0\<rparr>)"

definition utc_seconds :: "tm \<Rightarrow> time_t" where
  "utc_seconds v =
     (let y = tm_year v + 1900 + tm_mon v div 12; m = tm_mon v mod 12;
          n = year_days y + month_days (leap y) m + tm_mday v - 1 - epoch_days
      in 86400 * n + 3600 * tm_hour v + 60 * tm_min v + tm_sec v)"

definition utc_mktime :: "tm \<Rightarrow> tm \<times> time_t" where
  "utc_mktime v = (utc_localtime (utc_seconds v), utc_seconds v)"

lemma div_bounds:
  fixes x c :: int
  assumes "0 < c"
  shows "c * (x div c) \<le> x" "x < c * (x div c) + c"
  using mult_div_mod_eq [of c x] pos_mod_bound [OF assms, of x] pos_mod_sign [OF assms, of x] by linarith+

lemma div_round_up_Suc:
  fixes y c k :: int
  assumes c: "c = k + 1" and k: "0 \<le> k"
  shows "(y + 1 + k) div c = (y + k) div c + (if c dvd y then 1 else 0)"
proof -
  let ?q = "y div c" and ?r = "y mod c"
  have c0: "0 < c" using assms by simp
  have y: "y = c * ?q + ?r" "0 \<le> ?r" "?r < c" using c0 by (simp_all add: mult_div_mod_eq)
  have r: "?r \<noteq> 0 \<Longrightarrow> 1 \<le> ?r" "?r < 1 + c" using y(2,3) by linarith+
  have "(y + k) div c = (if ?r = 0 then ?q else ?q + 1)"
    by (rule int_div_pos_eq [where r = "if ?r = 0 then k else ?r - 1"]) (use y r assms in \<open>auto simp: algebra_simps\<close>)
  moreover have "(y + 1 + k) div c = ?q + 1" using assms by (simp add: add.assoc add.commute [of 1])
  ultimately show ?thesis by (simp add: dvd_eq_mod_eq_0)
qed

lemma leap_dvd: "leap y \<longleftrightarrow> 4 dvd y \<and> \<not> 100 dvd y \<or> 400 dvd y"
  by (simp add: leap_def dvd_eq_mod_eq_0)

lemma year_days_Suc: "year_days (y + 1) = year_days y + (if leap y then 366 else 365)"
proof -
  have lin: "365 * (y + 1) + a' - b' + c' = 365 * y + a - b + c + (if p \<and> \<not> q \<or> r then 366 else 365)"
    if "a' = a + (if p then 1 else 0)" "b' = b + (if q then 1 else 0)" "c' = c + (if r then 1 else 0)" "r \<Longrightarrow> q" "q \<Longrightarrow> p"
    for a b c a' b' c' :: int and p q r using that by (cases p; cases q; cases r) simp_all
  have "400 dvd y \<Longrightarrow> 100 dvd y" by (rule dvd_trans [of 100 400 y]) simp_all
  moreover have "100 dvd y \<Longrightarrow> 4 dvd y" by (rule dvd_trans [of 4 100 y]) simp_all
  moreover have "(y + 1 + 3) div 4 = (y + 3) div 4 + (if 4 dvd y then 1 else 0)" by (rule div_round_up_Suc) simp_all
  moreover have "(y + 1 + 99) div 100 = (y + 99) div 100 + (if 100 dvd y then 1 else 0)" by (rule div_round_up_Suc) simp_all
  moreover have "(y + 1 + 399) div 400 = (y + 399) div 400 + (if 400 dvd y then 1 else 0)" by (rule div_round_up_Suc) simp_all
  ultimately show ?thesis
    unfolding year_days_def leap_dvd by (intro lin) assumption+
qed

lemma year_days_bounds: "146097 * y - 1200 \<le> 400 * year_days y" "400 * year_days y \<le> 146097 * y + 1200"
proof -
  have lin: "146097 * y - 1200 \<le> 400 * (365 * y + a - b + c) \<and> 400 * (365 * y + a - b + c) \<le> 146097 * y + 1200"
    if "4 * a \<le> y + 3" "y + 3 < 4 * a + 4" "100 * b \<le> y + 99" "y + 99 < 100 * b + 100" "400 * c \<le> y + 399" "y + 399 < 400 * c + 400"
    for a b c using that by (intro conjI) (simp_all add: algebra_simps)
  show "146097 * y - 1200 \<le> 400 * year_days y" "400 * year_days y \<le> 146097 * y + 1200"
    unfolding year_days_def
    using lin [OF div_bounds [OF zero_less_numeral] div_bounds [OF zero_less_numeral] div_bounds [OF zero_less_numeral]] by blast+
qed

lemma year_of_bounds: "year_days (year_of n) \<le> n" "n < year_days (year_of n + 1)"
proof -
  define y where "y = (400 * n) div 146097"
  have y: "146097 * y \<le> 400 * n" "400 * n < 146097 * y + 146097" unfolding y_def using div_bounds [of 146097 "400 * n"] by simp_all
  have b: "year_days (y - 1) \<le> n" using year_days_bounds(2) [of "y - 1"] y(1) by simp
  have c: "n < year_days (y + 1 + 1)" using year_days_bounds(1) [of "y + 2"] y(2) by (simp add: algebra_simps)
  show "year_days (year_of n) \<le> n" "n < year_days (year_of n + 1)"
    using b c by (auto simp: year_of_def Let_def y_def [symmetric])
qed

lemma year_of_day:
  assumes "0 \<le> d" "d < (if leap y then 366 else 365)"
  shows "year_of (year_days y + d) = y"
proof -
  have mono: "year_days a + 365 * (b - a) \<le> year_days b" if "a \<le> b" for a b
  proof -
    have "year_days a + 365 * int k \<le> year_days (a + int k)" for k
    proof (induction k)
      case (Suc k)
      then show ?case using year_days_Suc [of "a + int k"] by (simp add: algebra_simps split: if_splits)
    qed simp
    from this [of "nat (b - a)"] that show ?thesis by simp
  qed
  let ?z = "year_of (year_days y + d)"
  have z: "year_days ?z \<le> year_days y + d" "year_days y + d < year_days (?z + 1)" by (rule year_of_bounds)+
  have "\<not> y + 1 \<le> ?z" using mono [of "y + 1" ?z] z(1) assms(2) year_days_Suc [of y] by auto
  moreover have "\<not> ?z + 1 \<le> y" using mono [of "?z + 1" y] z(2) assms(1) by auto
  ultimately show ?thesis by simp
qed

lemma month_days_gap:
  assumes "0 \<le> m" "m \<le> 11"
  shows "month_days lp (m + 1) - month_days lp m \<le> 31"
proof -
  have "m \<in> set [0..11]" using assms by simp
  also have "set [0..11] = {0, 1, 2, 3, 4, 5, 6, 7, 8, 9, 10, 11 :: int}" by code_simp
  finally show ?thesis by (auto simp: month_days_def)
qed

lemma month_days_year: "month_days lp 0 = 0" "month_days lp 12 = (if lp then 366 else 365)"
  by (simp_all add: month_days_def)

lemma month_from_spec:
  "0 \<le> m \<Longrightarrow> m \<le> 11 \<Longrightarrow> month_days lp m \<le> yd \<Longrightarrow> yd < month_days lp 12 \<Longrightarrow>
   0 \<le> month_from lp yd m \<and> month_from lp yd m \<le> 11 \<and>
   month_days lp (month_from lp yd m) \<le> yd \<and> yd < month_days lp (month_from lp yd m + 1)"
proof (induction lp yd m rule: month_from.induct)
  case (1 lp yd m)
  then show ?case
  proof (cases "m \<ge> 11 \<or> yd < month_days lp (m + 1)")
    case True
    then have "yd < month_days lp (m + 1)" using "1.prems" by (cases "m = 11") auto
    then show ?thesis using True "1.prems" by (subst (1 2 3 4) month_from.simps) simp
  next
    case False
    then show ?thesis using 1 by (subst (1 2 3 4) month_from.simps) simp
  qed
qed

definition day_number :: "time_t \<Rightarrow> int" where "day_number t = t div 86400 + epoch_days"
definition utc_year :: "time_t \<Rightarrow> int" where "utc_year t = year_of (day_number t)"
definition utc_yday :: "time_t \<Rightarrow> int" where "utc_yday t = day_number t - year_days (utc_year t)"

lemma utc_yday_bounds: "0 \<le> utc_yday t" "utc_yday t < month_days (leap (utc_year t)) 12"
  using year_of_bounds [of "day_number t"] year_days_Suc [of "utc_year t"]
  by (simp_all add: utc_yday_def utc_year_def month_days_year split: if_splits)

lemmas utc_month = month_from_spec [OF order_refl, of _ "utc_yday t", unfolded month_days_year(1),
    OF _ utc_yday_bounds(1) utc_yday_bounds(2), simplified] for t

lemma utc_localtime_fields:
  "tm_sec (utc_localtime t) = t mod 86400 mod 60" "tm_min (utc_localtime t) = t mod 86400 div 60 mod 60"
  "tm_hour (utc_localtime t) = t mod 86400 div 3600" "tm_year (utc_localtime t) = utc_year t - 1900"
  "tm_mon (utc_localtime t) = month_from (leap (utc_year t)) (utc_yday t) 0"
  "tm_mday (utc_localtime t) = utc_yday t - month_days (leap (utc_year t)) (tm_mon (utc_localtime t)) + 1"
  by (simp_all add: utc_localtime_def Let_def utc_year_def utc_yday_def day_number_def)

lemma clock_fields:
  fixes r :: int
  shows "3600 * (r div 3600) + 60 * (r div 60 mod 60) + r mod 60 = r"
proof -
  have "r div 60 div 60 = r div 3600" by (simp flip: zdiv_zmult2_eq)
  then have "60 * (r div 3600) + r div 60 mod 60 = r div 60" using mult_div_mod_eq [of 60 "r div 60"] by simp
  then show ?thesis using mult_div_mod_eq [of 60 r] by linarith
qed

lemma utc_mon_range: "0 \<le> tm_mon (utc_localtime t)" "tm_mon (utc_localtime t) < 12"
  using utc_month [of t] by (auto simp: utc_localtime_fields(5))

lemma utc_seconds_localtime: "utc_seconds (utc_localtime t) = t"
proof -
  have "tm_mon (utc_localtime t) div 12 = 0" "tm_mon (utc_localtime t) mod 12 = tm_mon (utc_localtime t)"
    using utc_mon_range by simp_all
  then have "utc_seconds (utc_localtime t) = 86400 * (year_days (utc_year t) + utc_yday t - epoch_days)
      + (3600 * (t mod 86400 div 3600) + 60 * (t mod 86400 div 60 mod 60) + t mod 86400 mod 60)"
    unfolding utc_seconds_def Let_def by (simp add: utc_localtime_fields(1-4,6) del: mod_mod_trivial)
  also have "\<dots> = 86400 * (t div 86400) + t mod 86400"
    unfolding clock_fields by (simp add: utc_yday_def day_number_def)
  finally show ?thesis by simp
qed

interpretation utc: calendar utc_localtime utc_mktime
proof
  fix t v s m h d
  show "utc_mktime (utc_localtime t) = (utc_localtime t, t)" by (simp add: utc_mktime_def utc_seconds_localtime)
  show "fst (utc_mktime v) = utc_localtime (snd (utc_mktime v))" by (simp add: utc_mktime_def)
  have "t mod 86400 mod 60 = t mod 60" for t :: int by (rule mod_mod_cancel) simp
  then show "tm_sec (utc_localtime (t + d)) = (tm_sec (utc_localtime t) + d) mod 60"
    by (simp add: utc_localtime_fields(1) mod_simps)
  show "0 \<le> tm_sec (utc_localtime t)" "tm_sec (utc_localtime t) < 60" "0 \<le> tm_min (utc_localtime t)" "tm_min (utc_localtime t) < 60"
    "0 \<le> tm_hour (utc_localtime t)" "0 \<le> tm_mon (utc_localtime t)" "tm_mon (utc_localtime t) < 12"
    using utc_mon_range by (simp_all add: utc_localtime_fields(1-3) pos_imp_zdiv_nonneg_iff)
  have "t mod 86400 < 86400" by simp
  then show "tm_hour (utc_localtime t) < 24" by (simp add: utc_localtime_fields(3) div_less_iff_less_mult)
  have mt: "month_days (leap (utc_year t)) (tm_mon (utc_localtime t)) \<le> utc_yday t"
    "utc_yday t < month_days (leap (utc_year t)) (tm_mon (utc_localtime t) + 1)"
    "month_days (leap (utc_year t)) (tm_mon (utc_localtime t) + 1) - month_days (leap (utc_year t)) (tm_mon (utc_localtime t)) \<le> 31"
    using utc_month [of t] month_days_gap [of "tm_mon (utc_localtime t)"] by (auto simp: utc_localtime_fields(5))
  then show "1 \<le> tm_mday (utc_localtime t)" "tm_mday (utc_localtime t) \<le> 31" by (auto simp: utc_localtime_fields(6))
  show "snd (utc_mktime (v\<lparr>tm_sec := s, tm_min := m, tm_hour := h, tm_mday := d\<rparr>)) =
      snd (utc_mktime v) + (s - tm_sec v) + 60 * (m - tm_min v) + 3600 * (h - tm_hour v) + 86400 * (d - tm_mday v)"
    by (simp add: utc_mktime_def utc_seconds_def Let_def algebra_simps)
  show "snd (utc_mktime (v\<lparr>tm_mon := 12\<rparr>)) = snd (utc_mktime (v\<lparr>tm_mon := 0, tm_year := tm_year v + 1\<rparr>))"
    by (simp add: utc_mktime_def utc_seconds_def Let_def)
  assume "tm_mday (utc_localtime t) = 31" and v: "v = utc_localtime t"
  then have g: "month_days (leap (utc_year t)) (tm_mon v + 1) = month_days (leap (utc_year t)) (tm_mon v) + 31"
    using mt by (simp add: utc_localtime_fields(6))
  have y: "tm_year v + 1900 = utc_year t" by (simp add: v utc_localtime_fields(4))
  show "snd (utc_mktime (v\<lparr>tm_mday := 1, tm_mon := tm_mon v + 1\<rparr>)) = snd (utc_mktime (v\<lparr>tm_mday := 32\<rparr>))"
  proof (cases "tm_mon v = 11")
    case True
    then show ?thesis using g y year_days_Suc [of "utc_year t"]
      by (simp add: utc_mktime_def utc_seconds_def Let_def month_days_year ac_simps)
  next
    case False
    then have "tm_mon v div 12 = 0" "tm_mon v mod 12 = tm_mon v" "(tm_mon v + 1) div 12 = 0" "(tm_mon v + 1) mod 12 = tm_mon v + 1"
      using utc_mon_range [of t] v by simp_all
    then show ?thesis using g y by (simp add: utc_mktime_def utc_seconds_def Let_def)
  qed
qed

end
