(* ===== verification/C_Text.thy ===== *)
theory C_Text
  imports Prelude
begin

text \<open>
  Text functions of the C library that several sources use: character classes, \<open>atoi\<close>, \<open>strtok_r\<close>, and the
  facts that connect them with the decimal digits \<open>printf\<close> writes.
\<close>

section \<open>Functions\<close>

text \<open>\<open>atoi\<close>, and the tokens \<open>strtok_r\<close> returns in turn.\<close>

definition is_space :: "char \<Rightarrow> bool" where
  "is_space c \<longleftrightarrow> (9 \<le> (of_char c :: nat) \<and> (of_char c :: nat) \<le> 13) \<or> (of_char c :: nat) = 32"

definition is_digit :: "char \<Rightarrow> bool" where
  "is_digit c \<longleftrightarrow> 48 \<le> (of_char c :: nat) \<and> (of_char c :: nat) \<le> 57"

definition dec_value :: "string \<Rightarrow> int" where
  "dec_value s = foldl (\<lambda>n c. 10 * n + (of_char c - 48)) 0 (takeWhile is_digit s)"

definition atoi :: "string \<Rightarrow> int" where
  "atoi s =
     (case dropWhile is_space s of
        [] \<Rightarrow> 0
      | c # cs \<Rightarrow> if c = CHR ''-'' then - dec_value cs else if c = CHR ''+'' then dec_value cs else dec_value (c # cs))"

lemma strtok_shrinks:
  assumes "dropWhile del s = c # cs"
  shows "length (drop 1 (dropWhile P (c # cs))) < length s"
proof -
  have "length (c # cs) \<le> length s" using length_dropWhile_le [of del s] assms by simp
  moreover have "length (dropWhile P (c # cs)) \<le> length (c # cs)" by (rule length_dropWhile_le)
  ultimately show ?thesis by simp
qed

function strtok :: "(char \<Rightarrow> bool) \<Rightarrow> string \<Rightarrow> string list" where
  "strtok del s =
     (case dropWhile del s of
        [] \<Rightarrow> []
      | c # cs \<Rightarrow> takeWhile (Not \<circ> del) (c # cs) # strtok del (drop 1 (dropWhile (Not \<circ> del) (c # cs))))"
  by pat_completeness auto
termination
  by (relation "measure (\<lambda>(_, s). length s)") (simp_all only: wf_measure in_measure prod.case strtok_shrinks)

declare strtok.simps [simp del]

definition hex_char :: "nat \<Rightarrow> char" where
  "hex_char n = (if n < 10 then char_of (48 + n) else char_of (87 + n))"

text \<open>\<open>%0wx\<close>: hexadecimal digits, padded with zeros to the width.\<close>

fun hex_digits :: "nat \<Rightarrow> string" where
  "hex_digits n = (if n < 16 then [hex_char n] else hex_digits (n div 16) @ [hex_char (n mod 16)])"

declare hex_digits.simps [simp del]

definition fmt_0x :: "nat \<Rightarrow> nat \<Rightarrow> string" where
  "fmt_0x w n = replicate (w - length (hex_digits n)) (CHR ''0'') @ hex_digits n"

section \<open>Reading what is printed\<close>

lemma of_char_digit: "d < 10 \<Longrightarrow> (of_char (char_of (48 + d :: nat) :: char) :: nat) = 48 + d"
  by (simp add: of_char_of)

lemma of_char_int: "(of_char c :: int) = int (of_char c)"
  by (simp add: of_char_def of_bool_def horner_sum_simps)

lemma dec_digits_ne [simp]: "dec_digits n \<noteq> []"
  by (subst dec_digits.simps) simp

lemma dec_digits_digit: "c \<in> set (dec_digits n) \<Longrightarrow> is_digit c"
proof (induction n rule: dec_digits.induct)
  case (1 n)
  then show ?case
    by (subst (asm) (2) dec_digits.simps) (auto simp: is_digit_def of_char_digit split: if_splits)
qed

lemma dec_value_snoc:
  assumes "\<forall>c \<in> set s. is_digit c" "is_digit c"
  shows "dec_value (s @ [c]) = 10 * dec_value s + (of_char c - 48)"
  using assms by (simp add: dec_value_def takeWhile_eq_all_conv [THEN iffD2])

lemma dec_value_digits: "dec_value (dec_digits n) = int n"
proof (induction n rule: dec_digits.induct)
  case (1 n)
  have d: "is_digit (char_of (48 + k :: nat))" "(of_char (char_of (48 + k :: nat) :: char) :: int) = 48 + int k" if "k < 10" for k
    using that by (simp_all add: is_digit_def of_char_digit of_char_int)
  show ?case
  proof (cases "n < 10")
    case True
    then show ?thesis using d [of n] by (subst dec_digits.simps) (simp add: dec_value_def)
  next
    case False
    then have "dec_value (dec_digits n) = 10 * int (n div 10) + (of_char (char_of (48 + n mod 10 :: nat) :: char) - 48)"
      using 1 d(1) [of "n mod 10"] dec_digits_digit [of _ "n div 10"]
      by (subst dec_digits.simps) (simp add: dec_value_snoc del: of_char_of)
    then show ?thesis using d(2) [of "n mod 10"] by simp presburger
  qed
qed

lemma digit_not_special: "is_digit c \<Longrightarrow> \<not> is_space c \<and> c \<noteq> CHR ''-'' \<and> c \<noteq> CHR ''+'' \<and> c \<noteq> CHR ''/'' \<and> c \<noteq> CHR '','' \<and> c \<noteq> CHR ''*''"
  by (auto simp: is_digit_def is_space_def)

lemma atoi_digits: "atoi (dec_digits n) = int n"
proof (cases "dec_digits n")
  case (Cons c cs)
  then have "is_digit c" using dec_digits_digit [of c n] by simp
  then show ?thesis using dec_value_digits [of n] digit_not_special [of c] Cons by (simp add: atoi_def)
qed simp

lemma strtok_word:
  assumes "w \<noteq> []" "\<forall>c \<in> set w. \<not> del c"
  shows "strtok del w = [w]" "del d \<Longrightarrow> strtok del (w @ d # r) = w # strtok del r"
proof -
  obtain c cs where w: "w = c # cs" using assms(1) by (cases w) auto
  have "strtok del [] = []" by (simp add: strtok.simps)
  then show "strtok del w = [w]" using assms(2) w
    by (subst strtok.simps) (simp add: takeWhile_eq_all_conv [THEN iffD2] dropWhile_eq_Nil_conv [THEN iffD2])
  assume "del d"
  then show "strtok del (w @ d # r) = w # strtok del r" using assms(2) w
    by (subst strtok.simps) (simp add: takeWhile_append2 dropWhile_append2)
qed

end
