(* ===== verification/Cron_Scheduler.thy ===== *)
theory Cron_Scheduler
  imports Calendar C_Text
begin

text \<open>
  The cron scheduler of \<open>src/mini-job-system/src/cron_scheduler.c\<close>: the parser of cron expressions, the
  search for the next firing time, and the job table with its tick.  The calendar functions of the C
  library are the parameters \<open>localtime_r\<close> and \<open>mktime\<close>; the results hold for every calendar that meets the
  interface of theory \<open>Calendar\<close> and are stated for UTC.

  A string argument is an option, \<open>None\<close> being the null pointer.  The callbacks of a tick are returned as
  a list of calls.  The loop of the tick that catches up with missed firings need not end for an arbitrary
  calendar, so it is a partial function; that it ends is proved.
\<close>

section \<open>Data\<close>

definition CRON_MAX_JOBS :: nat where "CRON_MAX_JOBS = 64"
definition CRON_FIELD_COUNT :: nat where "CRON_FIELD_COUNT = 6"

datatype cron_entry_type = CRON_ENTRY_ANY | CRON_ENTRY_SPECIFIC | CRON_ENTRY_RANGE | CRON_ENTRY_STEP

record cron_field_def =
  cf_type :: cron_entry_type
  cf_values :: "int list"

record cron_expression =
  ce_fields :: "cron_field_def list"
  ce_catch_up :: int

record cron_job =
  cj_id :: u64
  cj_expr :: cron_expression
  cj_callback :: ptr
  cj_userdata :: ptr
  cj_catch_up :: bool
  cj_last_fire :: time_t
  cj_next_fire :: time_t
  cj_active :: bool

record cron_scheduler =
  cs_jobs :: "cron_job list"
  cs_max_jobs :: nat

definition cron_scheduler_create :: "bool \<Rightarrow> int option \<Rightarrow> cron_scheduler option" where
  "cron_scheduler_create ok config_max_jobs =
     (if \<not> ok then None
      else
        let mj = (case config_max_jobs of Some m \<Rightarrow> if m > 0 then nat m else CRON_MAX_JOBS | None \<Rightarrow> CRON_MAX_JOBS)
        in Some \<lparr>cs_jobs = [], cs_max_jobs = (if mj > CRON_MAX_JOBS then CRON_MAX_JOBS else mj)\<rparr>)"

section \<open>Parsing\<close>

text \<open>The loops that append a range of values while the array has room.\<close>

function push_range :: "int \<Rightarrow> int \<Rightarrow> int \<Rightarrow> int list \<Rightarrow> int list" where
  "push_range n hi step vals =
     (if n \<le> hi \<and> length vals < 64 then push_range (n + step) hi step (vals @ [n]) else vals)"
  by pat_completeness auto
termination by (relation "measure (\<lambda>(_, _, _, vals). 64 - length vals)") auto

declare push_range.simps [simp del]

text \<open>Of a token with a slash: the part before the slash, the bounds (a dash may stand on either side of
  the slash), and the step.\<close>

definition before :: "char \<Rightarrow> string \<Rightarrow> string" where
  "before c s = takeWhile (\<lambda>x. x \<noteq> c) s"

definition after :: "char \<Rightarrow> string \<Rightarrow> string" where
  "after c s = drop 1 (dropWhile (\<lambda>x. x \<noteq> c) s)"

definition step_bounds :: "int \<Rightarrow> int \<Rightarrow> string \<Rightarrow> int \<times> int" where
  "step_bounds min_val max_val token =
     (let start = before CHR ''/'' token
      in if start = ''*'' then (min_val, max_val)
         else if CHR ''-'' \<in> set start then (atoi (before CHR ''-'' start), atoi (after CHR ''-'' start))
         else if CHR ''-'' \<in> set token then (atoi start, atoi (after CHR ''-'' token))
         else (atoi start, max_val))"

definition parse_token :: "int \<Rightarrow> int \<Rightarrow> cron_field_def \<Rightarrow> string \<Rightarrow> cron_field_def" where
  "parse_token min_val max_val field token =
     (if CHR ''/'' \<in> set token then
        let st = atoi (after CHR ''/'' token);
            step = (if st \<le> 0 then 1 else st);
            (lo, hi) = step_bounds min_val max_val token
        in \<lparr>cf_type = CRON_ENTRY_STEP, cf_values = push_range lo hi step (cf_values field)\<rparr>
      else if CHR ''-'' \<in> set token then
        \<lparr>cf_type = CRON_ENTRY_RANGE,
         cf_values = push_range (atoi (before CHR ''-'' token)) (atoi (after CHR ''-'' token)) 1 (cf_values field)\<rparr>
      else if token = ''*'' then \<lparr>cf_type = CRON_ENTRY_ANY, cf_values = []\<rparr>
      else
        \<lparr>cf_type = CRON_ENTRY_SPECIFIC,
         cf_values = (if cf_type field \<noteq> CRON_ENTRY_SPECIFIC then [] else cf_values field) @ [atoi token]\<rparr>)"

fun parse_tokens :: "int \<Rightarrow> int \<Rightarrow> cron_field_def \<Rightarrow> string list \<Rightarrow> cron_field_def" where
  "parse_tokens min_val max_val field [] = field"
| "parse_tokens min_val max_val field (token # tokens) =
     (if length (cf_values field) < 64
      then parse_tokens min_val max_val (parse_token min_val max_val field token) tokens
      else field)"

definition parse_list :: "cron_field_def \<Rightarrow> string \<Rightarrow> int \<Rightarrow> int \<Rightarrow> cron_field_def \<times> int" where
  "parse_list field str min_val max_val =
     (parse_tokens min_val max_val field (strtok (\<lambda>c. c = CHR '','') (strncpy_buf 256 str)), 0)"

definition any_field :: cron_field_def where
  "any_field = \<lparr>cf_type = CRON_ENTRY_ANY, cf_values = []\<rparr>"

definition cron_parse_field :: "string option \<Rightarrow> int \<Rightarrow> int \<Rightarrow> cron_field_def \<times> int" where
  "cron_parse_field str min_val max_val =
     (case str of
        None \<Rightarrow> (any_field, 0)
      | Some s \<Rightarrow> if s = [] \<or> s = ''*'' then (any_field, 0) else parse_list any_field s min_val max_val)"

definition cron_min_vals :: "int list" where "cron_min_vals = [0, 0, 0, 1, 1, 0]"
definition cron_max_vals :: "int list" where "cron_max_vals = [59, 59, 23, 31, 12, 6]"

text \<open>The loop over the fields stops at the first one that is refused.\<close>

fun parse_fields :: "(string \<times> int \<times> int) list \<Rightarrow> cron_field_def list \<Rightarrow> cron_field_def list \<times> int" where
  "parse_fields [] done_fields = (done_fields, 0)"
| "parse_fields ((str, lo, hi) # rest) done_fields =
     (case cron_parse_field (Some str) lo hi of
        (f, r) \<Rightarrow> if r < 0 then (done_fields @ f # replicate (length rest) any_field, r) else parse_fields rest (done_fields @ [f]))"

definition cron_parse_expression :: "string \<Rightarrow> cron_expression \<times> int" where
  "cron_parse_expression spec =
     (let tokens = take CRON_FIELD_COUNT (strtok (\<lambda>c. c = CHR '' '' \<or> c = CHR 0x09) (strncpy_buf 256 spec))
      in if length tokens < 5 then (\<lparr>ce_fields = replicate CRON_FIELD_COUNT any_field, ce_catch_up = 0\<rparr>, -1)
         else
           let toks = (if length tokens = 5 then ''0'' # tokens else tokens);
               (fs, r) = parse_fields (zip toks (zip cron_min_vals cron_max_vals)) []
           in (\<lparr>ce_fields = fs, ce_catch_up = 0\<rparr>, r))"

section \<open>Matching and the next firing time\<close>

definition cron_field_matches :: "cron_field_def \<Rightarrow> int \<Rightarrow> bool" where
  "cron_field_matches field v \<longleftrightarrow> cf_type field = CRON_ENTRY_ANY \<or> v \<in> set (cf_values field)"

definition cron_matches :: "cron_expression \<Rightarrow> tm \<Rightarrow> bool" where
  "cron_matches e v =
     list_all2 cron_field_matches (ce_fields e) [tm_sec v, tm_min v, tm_hour v, tm_mday v, tm_mon v + 1, tm_wday v]"

definition cron_field_next :: "cron_field_def \<Rightarrow> int \<Rightarrow> int" where
  "cron_field_next field v =
     (if cf_type field = CRON_ENTRY_ANY then v + 1
      else case find (\<lambda>x. x > v) (cf_values field) of Some x \<Rightarrow> x | None \<Rightarrow> -1)"

definition cron_field_first :: "cron_field_def \<Rightarrow> int \<Rightarrow> int" where
  "cron_field_first field min_val =
     (if cf_type field = CRON_ENTRY_ANY then min_val
      else case cf_values field of x # _ \<Rightarrow> x | [] \<Rightarrow> min_val)"

definition carry_sec :: "tm \<Rightarrow> tm" where
  "carry_sec v = (if tm_sec v \<ge> 60 then v\<lparr>tm_sec := 0, tm_min := tm_min v + 1\<rparr> else v)"
definition carry_min :: "tm \<Rightarrow> tm" where
  "carry_min v = (if tm_min v \<ge> 60 then v\<lparr>tm_min := 0, tm_hour := tm_hour v + 1\<rparr> else v)"
definition carry_hour :: "tm \<Rightarrow> tm" where
  "carry_hour v = (if tm_hour v \<ge> 24 then v\<lparr>tm_hour := 0, tm_mday := tm_mday v + 1\<rparr> else v)"
definition carry_mday :: "tm \<Rightarrow> tm" where
  "carry_mday v = (if tm_mday v > 31 then v\<lparr>tm_mday := 1, tm_mon := tm_mon v + 1\<rparr> else v)"
definition carry_mon :: "tm \<Rightarrow> tm" where
  "carry_mon v = (if tm_mon v > 11 then v\<lparr>tm_mon := 0, tm_year := tm_year v + 1\<rparr> else v)"

definition carry_fields :: "tm \<Rightarrow> tm" where
  "carry_fields v = carry_mon (carry_mday (carry_hour (carry_min (carry_sec v))))"

definition advance_second :: "cron_field_def \<Rightarrow> tm \<Rightarrow> tm" where
  "advance_second field v =
     (let sec = cron_field_next field (tm_sec v)
      in carry_fields (if sec < 0 then v\<lparr>tm_sec := cron_field_first field 0, tm_min := tm_min v + 1\<rparr>
                       else v\<lparr>tm_sec := sec\<rparr>))"

definition CRON_ITERATIONS :: int where "CRON_ITERATIONS = 525600 * 5"

function next_loop :: "(tm \<Rightarrow> tm \<times> time_t) \<Rightarrow> cron_expression \<Rightarrow> int \<Rightarrow> tm \<Rightarrow> time_t" where
  "next_loop mktime e iter v =
     (if iter < CRON_ITERATIONS then
        if cron_matches e v then snd (mktime v)
        else
          case mktime (advance_second (ce_fields e ! 0) v) of
            (v', candidate) \<Rightarrow> if candidate = -1 then -1 else next_loop mktime e (iter + 1) v'
      else -1)"
  by pat_completeness auto
termination by (relation "measure (\<lambda>(_, _, iter, _). nat (CRON_ITERATIONS - iter))") (auto simp: CRON_ITERATIONS_def)

declare next_loop.simps [simp del]

definition cron_next_fire_time :: "(time_t \<Rightarrow> tm) \<Rightarrow> (tm \<Rightarrow> tm \<times> time_t) \<Rightarrow> cron_expression \<Rightarrow> time_t \<Rightarrow> time_t" where
  "cron_next_fire_time localtime_r mktime e from = next_loop mktime e 0 (localtime_r (from + 1))"

section \<open>The job table\<close>

definition cron_unregister_job :: "cron_scheduler \<Rightarrow> u64 \<Rightarrow> cron_scheduler \<times> int" where
  "cron_unregister_job s jid =
     (case find_idx (\<lambda>j. cj_id j = jid) (cs_jobs s) (length (cs_jobs s)) of
        None \<Rightarrow> (s, -1)
      | Some i \<Rightarrow> (s\<lparr>cs_jobs := butlast ((cs_jobs s)[i := last (cs_jobs s)])\<rparr>, 0))"

definition cron_register_job :: "(time_t \<Rightarrow> tm) \<Rightarrow> (tm \<Rightarrow> tm \<times> time_t) \<Rightarrow> time_t \<Rightarrow> cron_scheduler \<Rightarrow> u64 \<Rightarrow> string option \<Rightarrow> ptr
    \<Rightarrow> ptr \<Rightarrow> bool \<Rightarrow> cron_scheduler \<times> int" where
  "cron_register_job localtime_r mktime now s jid cron_spec cb ud catch_up =
     (case cron_spec of
        None \<Rightarrow> (s, -1)
      | Some spec \<Rightarrow>
          if cb = NULL then (s, -1)
          else if length (cs_jobs s) \<ge> cs_max_jobs s then (s, -2)
          else if find_idx (\<lambda>j. cj_id j = jid) (cs_jobs s) (length (cs_jobs s)) \<noteq> None then cron_unregister_job s jid
          else
            case cron_parse_expression spec of
              (e, r) \<Rightarrow>
                if r < 0 then (s, -3)
                else (s\<lparr>cs_jobs := cs_jobs s @
                  [\<lparr>cj_id = jid, cj_expr = e, cj_callback = cb, cj_userdata = ud, cj_catch_up = catch_up, cj_last_fire = 0,
                    cj_next_fire = cron_next_fire_time localtime_r mktime e now, cj_active = True\<rparr>]\<rparr>, 0))"

definition cron_activate_job :: "(time_t \<Rightarrow> tm) \<Rightarrow> (tm \<Rightarrow> tm \<times> time_t) \<Rightarrow> time_t \<Rightarrow> cron_scheduler \<Rightarrow> u64 \<Rightarrow> bool
    \<Rightarrow> cron_scheduler \<times> int" where
  "cron_activate_job localtime_r mktime now s jid active =
     (case find_idx (\<lambda>j. cj_id j = jid) (cs_jobs s) (length (cs_jobs s)) of
        None \<Rightarrow> (s, -1)
      | Some i \<Rightarrow>
          let j = (cs_jobs s ! i)\<lparr>cj_active := active\<rparr>;
              j' = (if active then j\<lparr>cj_next_fire := cron_next_fire_time localtime_r mktime (cj_expr j) now\<rparr> else j)
          in (s\<lparr>cs_jobs := (cs_jobs s)[i := j']\<rparr>, 0))"

partial_function (option) count_missed :: "(time_t \<Rightarrow> time_t) \<Rightarrow> time_t \<Rightarrow> time_t \<Rightarrow> nat \<Rightarrow> nat option" where
  "count_missed nxt now t missed =
     (if t \<le> now \<and> t \<noteq> -1
      then (if nxt t = -1 then Some (missed + 1) else count_missed nxt now (nxt t) (missed + 1))
      else Some missed)"

declare count_missed.simps [code]

type_synonym cron_call = "ptr \<times> ptr"

definition tick_job :: "(time_t \<Rightarrow> tm) \<Rightarrow> (tm \<Rightarrow> tm \<times> time_t) \<Rightarrow> time_t \<Rightarrow> cron_job \<Rightarrow> (cron_job \<times> cron_call list) option" where
  "tick_job localtime_r mktime now j =
     (if \<not> cj_active j \<or> now < cj_next_fire j then Some (j, [])
      else
        let nxt = cron_next_fire_time localtime_r mktime (cj_expr j)
        in case (if cj_catch_up j then count_missed nxt now (nxt (cj_next_fire j)) 0 else Some 0) of
             None \<Rightarrow> None
           | Some missed \<Rightarrow>
               let nf = nxt now
               in Some (j\<lparr>cj_last_fire := now, cj_next_fire := nf, cj_active := (nf \<noteq> -1)\<rparr>,
                        replicate missed (cj_callback j, cj_userdata j) @ [(cj_callback j, cj_userdata j)]))"

fun tick_jobs :: "(time_t \<Rightarrow> tm) \<Rightarrow> (tm \<Rightarrow> tm \<times> time_t) \<Rightarrow> time_t \<Rightarrow> cron_job list \<Rightarrow> (cron_job list \<times> nat \<times> cron_call list) option" where
  "tick_jobs localtime_r mktime now [] = Some ([], 0, [])"
| "tick_jobs localtime_r mktime now (j # js) =
     (case tick_job localtime_r mktime now j of
        None \<Rightarrow> None
      | Some (j', calls) \<Rightarrow>
          (case tick_jobs localtime_r mktime now js of
             None \<Rightarrow> None
           | Some (js', fired, calls') \<Rightarrow> Some (j' # js', (if calls = [] then 0 else 1) + fired, calls @ calls')))"

definition cron_tick :: "(time_t \<Rightarrow> tm) \<Rightarrow> (tm \<Rightarrow> tm \<times> time_t) \<Rightarrow> cron_scheduler \<Rightarrow> time_t \<Rightarrow> (cron_scheduler \<times> nat \<times> cron_call list) option" where
  "cron_tick localtime_r mktime s now =
     map_option (\<lambda>(js, fired, calls). (s\<lparr>cs_jobs := js\<rparr>, fired, calls)) (tick_jobs localtime_r mktime now (cs_jobs s))"

definition cron_run_pending :: "(time_t \<Rightarrow> tm) \<Rightarrow> (tm \<Rightarrow> tm \<times> time_t) \<Rightarrow> time_t \<Rightarrow> cron_scheduler \<Rightarrow> (cron_scheduler \<times> cron_call list) option" where
  "cron_run_pending localtime_r mktime now s = map_option (\<lambda>(s', fired, calls). (s', calls)) (cron_tick localtime_r mktime s now)"

section \<open>The search for the next firing time\<close>

text \<open>The seconds field the search relies on: any second, or an ascending list of seconds in range.\<close>

definition seconds_ok :: "cron_field_def \<Rightarrow> bool" where
  "seconds_ok f \<longleftrightarrow> cf_type f = CRON_ENTRY_ANY \<or>
     (cf_values f \<noteq> [] \<and> sorted (cf_values f) \<and> (\<forall>x \<in> set (cf_values f). 0 \<le> x \<and> x < 60))"

text \<open>Times at which an expression fires, and what a tick should call for a job: once, and once more for every
  firing it missed when it catches up.\<close>

definition fire_times :: "(time_t \<Rightarrow> tm) \<Rightarrow> cron_expression \<Rightarrow> time_t \<Rightarrow> time_t \<Rightarrow> time_t set" where
  "fire_times localtime_r e a b = {u. a < u \<and> u \<le> b \<and> cron_matches e (localtime_r u)}"

definition due :: "time_t \<Rightarrow> cron_job \<Rightarrow> bool" where
  "due now j \<longleftrightarrow> cj_active j \<and> cj_next_fire j \<le> now"

definition due_calls :: "(time_t \<Rightarrow> tm) \<Rightarrow> time_t \<Rightarrow> cron_job \<Rightarrow> cron_call list" where
  "due_calls localtime_r now j = (if due now j
     then replicate (1 + (if cj_catch_up j then card (fire_times localtime_r (cj_expr j) (cj_next_fire j) now) else 0)) (cj_callback j, cj_userdata j)
     else [])"

definition job_ok :: "time_t \<Rightarrow> cron_job \<Rightarrow> bool" where
  "job_ok now j \<longleftrightarrow> seconds_ok (ce_fields (cj_expr j) ! 0) \<and> -1 \<le> cj_next_fire j \<and> now - cj_next_fire j \<le> CRON_ITERATIONS"

lemma finite_fire_times [simp]: "finite (fire_times lt e a b)"
  by (rule finite_subset [of _ "{a<..b}"]) (auto simp: fire_times_def)

lemma count_missed_stop: "\<not> (t \<le> now \<and> t \<noteq> -1) \<Longrightarrow> count_missed nxt now t n = Some n"
  by (subst count_missed.simps) (rule if_not_P)

lemma count_missed_step: "t \<le> now \<Longrightarrow> t \<noteq> -1 \<Longrightarrow> count_missed nxt now t n = count_missed nxt now (nxt t) (n + 1)"
  by (subst count_missed.simps) (simp add: count_missed_stop)

lemma find_sorted_greater:
  "sorted xs \<Longrightarrow> find (\<lambda>x. x > v) xs = Some (x :: int) \<Longrightarrow> x \<in> set xs \<and> v < x \<and> (\<forall>y \<in> set xs. v < y \<longrightarrow> x \<le> y)"
  by (induction xs) (auto split: if_splits)

lemma cron_matches_second: "cron_matches e v \<Longrightarrow> cron_field_matches (ce_fields e ! 0) (tm_sec v)"
  by (auto simp: cron_matches_def list_all2_Cons2)

lemma mod_60_wrap: "60 \<le> x \<Longrightarrow> x < 120 \<Longrightarrow> x mod 60 = x - (60 :: int)"
proof -
  assume "60 \<le> x" "x < 120"
  then have "(x - 60) mod 60 = x - 60" by (intro mod_pos_pos_trivial) auto
  then show "x mod 60 = x - 60" using minus_mod_self2 [of x 60] by argo
qed

context calendar
begin

lemma mktime_set:
  "snd (mktime ((localtime_r t)\<lparr>tm_sec := s, tm_min := m, tm_hour := h, tm_mday := d\<rparr>)) =
   t + (s - tm_sec (localtime_r t)) + 60 * (m - tm_min (localtime_r t)) + 3600 * (h - tm_hour (localtime_r t))
     + 86400 * (d - tm_mday (localtime_r t))"
  by (simp add: mktime_linear mktime_localtime)

lemma mktime_next_month:
  assumes "tm_mday (localtime_r t) = 31"
  defines "v \<equiv> localtime_r t"
  shows "snd (mktime (v\<lparr>tm_sec := s, tm_min := m, tm_hour := h, tm_mday := 1, tm_mon := tm_mon v + 1\<rparr>)) =
   t + (s - tm_sec v) + 60 * (m - tm_min v) + 3600 * (h - tm_hour v) + 86400"
proof -
  let ?w = "v\<lparr>tm_mday := 1, tm_mon := tm_mon v + 1\<rparr>"
  have "snd (mktime (v\<lparr>tm_mday := 32\<rparr>)) = t + 86400"
    using mktime_set [where t = t and s = "tm_sec v" and m = "tm_min v" and h = "tm_hour v" and d = 32] assms(1) by (simp add: v_def)
  then have "snd (mktime ?w) = t + 86400" using mktime_month [OF assms(1), of v] by (simp add: v_def)
  then show ?thesis using mktime_linear [where v = ?w and s = s and m = m and h = h and d = 1] by (cases v) simp
qed

lemma carry_fields_time:
  fixes t :: time_t
  assumes "0 \<le> s" "s \<le> 60" "c = 0 \<or> c = 1 \<and> s < 60"
  defines "v \<equiv> localtime_r t"
  shows "snd (mktime (carry_fields (v\<lparr>tm_sec := s, tm_min := tm_min v + c\<rparr>))) = t + (s - tm_sec v) + 60 * c"
proof -
  have year: "snd (mktime (carry_mon w)) = snd (mktime w)" if "tm_mon w \<le> 12" for w
  proof (cases "tm_mon w > 11")
    case True
    then have "w\<lparr>tm_mon := 12\<rparr> = w" using that by simp
    then show ?thesis using True mktime_year [of w] by (simp add: carry_mon_def)
  qed (simp add: carry_mon_def)
  have r: "0 \<le> tm_min v" "tm_min v < 60" "0 \<le> tm_hour v" "tm_hour v < 24" "tm_mday v \<le> 31" "tm_mon v < 12"
    using tm_range [of t] by (simp_all add: v_def)
  define w where "w = v\<lparr>tm_sec := s, tm_min := tm_min v + c\<rparr>"
  obtain s1 m1 where 1: "carry_sec w = v\<lparr>tm_sec := s1, tm_min := m1\<rparr>" "s1 + 60 * m1 = s + 60 * (tm_min v + c)" "m1 \<le> 60"
  proof (cases "s \<ge> 60")
    case True
    then show thesis using assms(2,3) r(2) that [of "tm_min v + 1" 0] by (simp add: carry_sec_def w_def)
  next
    case False
    then show thesis using assms(3) r(2) that [of "tm_min v + c" s] by (auto simp: carry_sec_def w_def)
  qed
  obtain m2 h2 where 2: "carry_min (carry_sec w) = v\<lparr>tm_sec := s1, tm_min := m2, tm_hour := h2\<rparr>"
    "60 * m2 + 3600 * h2 = 60 * m1 + 3600 * tm_hour v" "h2 \<le> 24"
  proof (cases "m1 \<ge> 60")
    case True
    then show thesis using 1 r(4) that [of "tm_hour v + 1" 0] by (simp add: carry_min_def)
  next
    case False
    then show thesis using 1 r(4) that [of "tm_hour v" m1] by (simp add: carry_min_def)
  qed
  obtain h3 d3 where 3: "carry_hour (carry_min (carry_sec w)) = v\<lparr>tm_sec := s1, tm_min := m2, tm_hour := h3, tm_mday := d3\<rparr>"
    "3600 * h3 + 86400 * d3 = 3600 * h2 + 86400 * tm_mday v" "d3 \<le> tm_mday v + 1"
  proof (cases "h2 \<ge> 24")
    case True
    then show thesis using 2 that [of "tm_mday v + 1" 0] by (simp add: carry_hour_def)
  next
    case False
    then show thesis using 2 that [of "tm_mday v" h2] by (simp add: carry_hour_def)
  qed
  have "snd (mktime (carry_mday (carry_hour (carry_min (carry_sec w))))) = t + (s - tm_sec v) + 60 * c"
  proof (cases "d3 > 31")
    case True
    then have "tm_mday v = 31" "d3 = 32" using r(5) 3(3) by auto
    then show ?thesis using True 1(2) 2(2) 3(2) mktime_next_month [where t = t and s = s1 and m = m2 and h = h3]
      by (simp add: 3(1) carry_mday_def v_def)
  next
    case False
    then show ?thesis using 1(2) 2(2) 3(2) mktime_set [where t = t and s = s1 and m = m2 and h = h3 and d = d3]
      by (simp add: 3(1) carry_mday_def v_def)
  qed
  moreover have "tm_mon (carry_mday (carry_hour (carry_min (carry_sec w)))) \<le> 12" using r(6) by (simp add: 3(1) carry_mday_def)
  ultimately show ?thesis using year by (simp add: carry_fields_def w_def)
qed

text \<open>The three ways the second advances: by one, to a later second of the list, or to the first one of the
  next minute.\<close>

lemma sec_of_time: "tm_sec (localtime_r u) = (tm_sec (localtime_r t) + (u - t)) mod 60"
  using tm_sec_shift [of t "u - t"] by simp

lemma advance_any:
  assumes "cf_type f = CRON_ENTRY_ANY"
  shows "snd (mktime (advance_second f (localtime_r t))) = t + 1"
proof -
  have sec: "0 \<le> tm_sec (localtime_r t)" "tm_sec (localtime_r t) < 60" by (rule tm_range)+
  have "advance_second f (localtime_r t) = carry_fields ((localtime_r t)\<lparr>tm_sec := tm_sec (localtime_r t) + 1\<rparr>)"
    using assms sec(1) by (simp add: advance_second_def cron_field_next_def Let_def)
  then show ?thesis using carry_fields_time [of "tm_sec (localtime_r t) + 1" 0 t] sec by simp
qed

lemma advance_later:
  assumes "cf_type f \<noteq> CRON_ENTRY_ANY" "find (\<lambda>x. x > tm_sec (localtime_r t)) (cf_values f) = Some s" "sorted (cf_values f)" "s < 60"
  defines "t' \<equiv> t + (s - tm_sec (localtime_r t))"
  shows "snd (mktime (advance_second f (localtime_r t))) = t'" "t < t'"
    "t < u \<Longrightarrow> u < t' \<Longrightarrow> \<not> cron_field_matches f (tm_sec (localtime_r u))"
proof -
  have sec: "0 \<le> tm_sec (localtime_r t)" by (rule tm_range)
  note fs = find_sorted_greater [OF assms(3,2)]
  then have s: "tm_sec (localtime_r t) < s" by blast
  then have "advance_second f (localtime_r t) = carry_fields ((localtime_r t)\<lparr>tm_sec := s\<rparr>)"
    using assms(1,2) sec by (simp add: advance_second_def cron_field_next_def Let_def)
  then show "snd (mktime (advance_second f (localtime_r t))) = t'"
    using carry_fields_time [of s 0 t] sec s assms(4) by (simp add: t'_def)
  show "t < t'" using s by (simp add: t'_def)
  assume u: "t < u" "u < t'"
  have "tm_sec (localtime_r u) = tm_sec (localtime_r t) + (u - t)"
    unfolding sec_of_time [of u t] using u sec assms(4) by (intro mod_pos_pos_trivial) (simp_all add: t'_def)
  then have "tm_sec (localtime_r t) < tm_sec (localtime_r u)" "tm_sec (localtime_r u) < s" using u by (simp_all add: t'_def)
  then show "\<not> cron_field_matches f (tm_sec (localtime_r u))"
    using fs assms(1) unfolding cron_field_matches_def by (meson not_less)
qed

lemma advance_wraps:
  assumes "cf_type f \<noteq> CRON_ENTRY_ANY" "\<forall>x \<in> set (cf_values f). x \<le> tm_sec (localtime_r t)" "cf_values f = s # xs"
    "\<forall>x \<in> set (cf_values f). s \<le> x" "0 \<le> s" "s < 60"
  defines "t' \<equiv> t + (s - tm_sec (localtime_r t)) + 60"
  shows "snd (mktime (advance_second f (localtime_r t))) = t'" "t < t'"
    "t < u \<Longrightarrow> u < t' \<Longrightarrow> \<not> cron_field_matches f (tm_sec (localtime_r u))"
proof -
  have sec: "0 \<le> tm_sec (localtime_r t)" "tm_sec (localtime_r t) < 60" by (rule tm_range)+
  have "find (\<lambda>x. x > tm_sec (localtime_r t)) (cf_values f) = None" using assms(2) by (auto simp: find_None_iff not_less)
  then have "advance_second f (localtime_r t) = carry_fields ((localtime_r t)\<lparr>tm_sec := s, tm_min := tm_min (localtime_r t) + 1\<rparr>)"
    using assms(1,3) by (simp add: advance_second_def cron_field_next_def cron_field_first_def Let_def)
  then show "snd (mktime (advance_second f (localtime_r t))) = t'"
    using carry_fields_time [of s 1 t] assms(5,6) by (simp add: t'_def)
  show "t < t'" using sec assms(5) by (simp add: t'_def)
  assume u: "t < u" "u < t'"
  have "tm_sec (localtime_r u) < s \<or> tm_sec (localtime_r t) < tm_sec (localtime_r u)"
  proof (cases "tm_sec (localtime_r t) + (u - t) < 60")
    case True
    then have "tm_sec (localtime_r u) = tm_sec (localtime_r t) + (u - t)"
      unfolding sec_of_time [of u t] using u sec by (intro mod_pos_pos_trivial) simp_all
    then show ?thesis using u(1) by simp
  next
    case False
    then have "tm_sec (localtime_r u) = tm_sec (localtime_r t) + (u - t) - 60"
      unfolding sec_of_time [of u t] using u(2) assms(6) by (intro mod_60_wrap) (simp_all add: t'_def)
    then show ?thesis using u(2) by (simp add: t'_def)
  qed
  then show "\<not> cron_field_matches f (tm_sec (localtime_r u))"
    using assms(1,2,4) unfolding cron_field_matches_def by (meson not_less)
qed

lemma advance_second_time:
  assumes ok: "seconds_ok f"
  shows "\<exists>t'. mktime (advance_second f (localtime_r t)) = (localtime_r t', t') \<and> t < t' \<and>
    (\<forall>u. t < u \<longrightarrow> u < t' \<longrightarrow> \<not> cron_field_matches f (tm_sec (localtime_r u)))"
proof -
  have pair: "mktime w = (localtime_r (snd (mktime w)), snd (mktime w))" for w by (metis mktime_fields prod.collapse)
  consider (any) "cf_type f = CRON_ENTRY_ANY"
    | (later) s where "cf_type f \<noteq> CRON_ENTRY_ANY" "find (\<lambda>x. x > tm_sec (localtime_r t)) (cf_values f) = Some s"
    | (wraps) "cf_type f \<noteq> CRON_ENTRY_ANY" "find (\<lambda>x. x > tm_sec (localtime_r t)) (cf_values f) = None"
    by fastforce
  then show ?thesis
  proof cases
    case any
    then show ?thesis using advance_any pair by (intro exI [of _ "t + 1"]) (metis less_add_one zless_add1_eq not_less_iff_gr_or_eq)
  next
    case later
    then have "sorted (cf_values f)" "s < 60" using ok find_sorted_greater [of "cf_values f"] by (auto simp: seconds_ok_def)
    with later show ?thesis using advance_later [of f t s] pair by metis
  next
    case wraps
    then obtain s xs where s: "cf_values f = s # xs" using ok by (cases "cf_values f") (auto simp: seconds_ok_def)
    then have "\<forall>x \<in> set (cf_values f). s \<le> x" "0 \<le> s" "s < 60" using ok wraps(1) by (auto simp: seconds_ok_def)
    moreover have "\<forall>x \<in> set (cf_values f). x \<le> tm_sec (localtime_r t)" using wraps(2) by (auto simp: find_None_iff not_less)
    ultimately show ?thesis using advance_wraps [OF wraps(1) _ s] pair by metis
  qed
qed

text \<open>The loop, started at a time that is not negative.\<close>

lemma next_loop_spec:
  assumes "seconds_ok (ce_fields e ! 0)"
  shows "0 \<le> t \<Longrightarrow> next_loop mktime e iter (localtime_r t) = r \<Longrightarrow>
    (r = -1 \<and> (\<forall>u. t \<le> u \<and> u < t + (CRON_ITERATIONS - iter) \<longrightarrow> \<not> cron_matches e (localtime_r u))) \<or>
    (t \<le> r \<and> cron_matches e (localtime_r r) \<and> (\<forall>u. t \<le> u \<and> u < r \<longrightarrow> \<not> cron_matches e (localtime_r u)))"
proof (induction "nat (CRON_ITERATIONS - iter)" arbitrary: iter t rule: less_induct)
  case less
  note unf = next_loop.simps [of mktime e iter "localtime_r t"]
  show ?case
  proof (cases "iter < CRON_ITERATIONS \<and> \<not> cron_matches e (localtime_r t)")
    case False
    then show ?thesis using less.prems unf by (auto simp: mktime_localtime split: if_splits)
  next
    case True
    obtain t' where t': "mktime (advance_second (ce_fields e ! 0) (localtime_r t)) = (localtime_r t', t')" "t < t'"
      "\<forall>u. t < u \<longrightarrow> u < t' \<longrightarrow> \<not> cron_field_matches (ce_fields e ! 0) (tm_sec (localtime_r u))"
      using advance_second_time [OF assms] by blast
    have none: "\<not> cron_matches e (localtime_r u)" if "t \<le> u" "u < t'" for u
      using that True t'(3) cron_matches_second by (metis order_le_less)
    have r: "next_loop mktime e (iter + 1) (localtime_r t') = r" using True less.prems t'(1,2) unf by simp
    have "nat (CRON_ITERATIONS - (iter + 1)) < nat (CRON_ITERATIONS - iter)" using True by simp
    from less.hyps [OF this _ r] less.prems(1) t'(2)
    consider "r = -1" "\<forall>u. t' \<le> u \<and> u < t' + (CRON_ITERATIONS - (iter + 1)) \<longrightarrow> \<not> cron_matches e (localtime_r u)"
      | "t' \<le> r" "cron_matches e (localtime_r r)" "\<forall>u. t' \<le> u \<and> u < r \<longrightarrow> \<not> cron_matches e (localtime_r u)" by force
    then show ?thesis
    proof cases
      case 1
      then have "\<not> cron_matches e (localtime_r u)" if "t \<le> u" "u < t + (CRON_ITERATIONS - iter)" for u
        using that none t'(2) by (cases "u < t'") auto
      then show ?thesis using 1(1) by blast
    next
      case 2
      then show ?thesis using none t'(2) by (metis linorder_not_less order.strict_iff_not order_less_le_trans)
    qed
  qed
qed

lemma cron_next_spec:
  assumes "seconds_ok (ce_fields e ! 0)" "-1 \<le> from" "cron_next_fire_time localtime_r mktime e from = r"
  shows "(r = -1 \<and> (\<forall>u. from < u \<and> u \<le> from + CRON_ITERATIONS \<longrightarrow> \<not> cron_matches e (localtime_r u))) \<or>
    (from < r \<and> cron_matches e (localtime_r r) \<and> (\<forall>u. from < u \<and> u < r \<longrightarrow> \<not> cron_matches e (localtime_r u)))"
proof -
  have e: "(from + 1 \<le> u) = (from < u)" "(u < from + 1 + (CRON_ITERATIONS - 0)) = (u \<le> from + CRON_ITERATIONS)" for u by auto
  show ?thesis
    using next_loop_spec [OF assms(1), of "from + 1" 0 r] assms(2,3) unfolding e cron_next_fire_time_def by simp
qed

lemma fire_times_next:
  assumes "seconds_ok (ce_fields e ! 0)" "-1 \<le> a" "b - a \<le> CRON_ITERATIONS"
  defines "r \<equiv> cron_next_fire_time localtime_r mktime e a"
  shows "r = -1 \<or> b < r \<Longrightarrow> fire_times localtime_r e a b = {}"
    "r \<noteq> -1 \<Longrightarrow> a < r" "r \<noteq> -1 \<Longrightarrow> r \<le> b \<Longrightarrow> fire_times localtime_r e a b = insert r (fire_times localtime_r e r b) \<and> r \<notin> fire_times localtime_r e r b"
proof -
  note sp = cron_next_spec [OF assms(1,2) r_def [THEN meta_eq_to_obj_eq, symmetric]]
  show "r = -1 \<or> b < r \<Longrightarrow> fire_times localtime_r e a b = {}" using sp assms(2,3) by (force simp: fire_times_def)
  show ar: "r \<noteq> -1 \<Longrightarrow> a < r" using sp by blast
  assume r: "r \<noteq> -1" "r \<le> b"
  then have m: "cron_matches e (localtime_r r)" "\<forall>u. a < u \<and> u < r \<longrightarrow> \<not> cron_matches e (localtime_r u)" using sp by auto
  have "u \<in> fire_times localtime_r e a b \<longleftrightarrow> u \<in> insert r (fire_times localtime_r e r b)" for u
    using m r(2) ar [OF r(1)] unfolding fire_times_def by (cases u r rule: linorder_cases) auto
  then show "fire_times localtime_r e a b = insert r (fire_times localtime_r e r b) \<and> r \<notin> fire_times localtime_r e r b" by (auto simp: fire_times_def)
qed

lemma count_missed_fires:
  assumes "seconds_ok (ce_fields e ! 0)"
  shows "-1 \<le> a \<Longrightarrow> now - a \<le> CRON_ITERATIONS \<Longrightarrow>
    count_missed (cron_next_fire_time localtime_r mktime e) now (cron_next_fire_time localtime_r mktime e a) n
      = Some (n + card (fire_times localtime_r e a now))"
proof (induction "nat (now - a)" arbitrary: a n rule: less_induct)
  case less
  let ?nxt = "cron_next_fire_time localtime_r mktime e"
  note ft = fire_times_next [OF assms less.prems]
  show ?case
  proof (cases "?nxt a = -1 \<or> now < ?nxt a")
    case True
    then show ?thesis using ft(1) by (simp add: count_missed_stop not_le disj_commute)
  next
    case False
    then have r: "a < ?nxt a" "?nxt a \<le> now" "?nxt a \<noteq> -1" using ft(2) by auto
    have "count_missed ?nxt now (?nxt (?nxt a)) (n + 1) = Some (n + 1 + card (fire_times localtime_r e (?nxt a) now))"
      using less.prems r by (intro less.hyps) auto
    moreover have "card (fire_times localtime_r e a now) = Suc (card (fire_times localtime_r e (?nxt a) now))" using ft(3) r(2,3) by simp
    ultimately show ?thesis using count_missed_step [OF r(2,3)] by simp
  qed
qed

lemma tick_job_calls:
  assumes "job_ok now j"
  shows "map_option snd (tick_job localtime_r mktime now j) = Some (due_calls localtime_r now j)"
  using assms count_missed_fires [of "cj_expr j" "cj_next_fire j" now 0]
  by (auto simp: tick_job_def due_calls_def due_def job_ok_def Let_def replicate_append_same)

lemma tick_jobs_calls:
  assumes "\<forall>j \<in> set js. job_ok now j"
  shows "map_option snd (tick_jobs localtime_r mktime now js) =
    Some (length (filter (due now) js), concat (map (due_calls localtime_r now) js))"
  using assms
proof (induction js)
  case (Cons j js)
  obtain j' where "tick_job localtime_r mktime now j = Some (j', due_calls localtime_r now j)"
    using tick_job_calls [of now j] Cons.prems by auto
  moreover have "due_calls localtime_r now j = [] \<longleftrightarrow> \<not> due now j" by (simp add: due_calls_def)
  ultimately show ?case using Cons by (auto split: option.splits)
qed simp

end

section \<open>Parsing what is printed\<close>

fun join_values :: "nat list \<Rightarrow> string" where
  "join_values [] = []"
| "join_values [n] = dec_digits n"
| "join_values (n # ns) = dec_digits n @ CHR '','' # join_values ns"

lemma strtok_join: "strtok (\<lambda>c. c = CHR '','') (join_values ns) = map dec_digits ns"
proof (induction ns rule: join_values.induct)
  case (2 n)
  then show ?case using digit_not_special dec_digits_digit by (simp add: strtok_word(1))
next
  case (3 n m ns)
  have "\<forall>c \<in> set (dec_digits n). c \<noteq> CHR '',''" using digit_not_special dec_digits_digit by blast
  then show ?case using 3 strtok_word(2) [of "dec_digits n" "\<lambda>c. c = CHR '',''" "CHR '',''"] by simp
qed (simp add: strtok.simps)

lemma parse_token_digits:
  "parse_token lo hi f (dec_digits n) = \<lparr>cf_type = CRON_ENTRY_SPECIFIC,
     cf_values = (if cf_type f \<noteq> CRON_ENTRY_SPECIFIC then [] else cf_values f) @ [int n]\<rparr>"
proof -
  have "CHR ''/'' \<notin> set (dec_digits n)" "CHR ''-'' \<notin> set (dec_digits n)" "dec_digits n \<noteq> ''*''"
    using dec_digits_digit [of _ n] digit_not_special by (blast, blast, fastforce)
  then show ?thesis by (simp add: parse_token_def atoi_digits)
qed

lemma parse_tokens_digits:
  "cf_type f = CRON_ENTRY_SPECIFIC \<Longrightarrow> length (cf_values f) + length ns \<le> 64 \<Longrightarrow>
   parse_tokens lo hi f (map dec_digits ns) = f\<lparr>cf_values := cf_values f @ map int ns\<rparr>"
proof (induction ns arbitrary: f)
  case (Cons n ns)
  then show ?case using Cons.IH [of "parse_token lo hi f (dec_digits n)"] by (simp add: parse_token_digits)
qed simp

section \<open>Properties\<close>

text \<open>C5. Where local time is UTC, from a time of at least -1, and for an expression whose list of seconds is nonempty, ascending and
  between 0 and 59, or any second, the search returns the least time after the given one at which the expression fires, and -1
  only if it does not fire within the 2628000 seconds that follow.  The order matters: a list that is not ascending skips firings
  (\<open>cron_unsorted_skips\<close>).\<close>

theorem cron_next_fire_time_least:
  assumes "seconds_ok (ce_fields e ! 0)" "-1 \<le> from" "cron_next_fire_time utc_localtime utc_mktime e from = r"
  shows "(r = -1 \<and> fire_times utc_localtime e from (from + 2628000) = {}) \<or>
    (from < r \<and> cron_matches e (utc_localtime r) \<and> fire_times utc_localtime e from (r - 1) = {})"
  using utc.cron_next_spec [OF assms] by (auto simp: fire_times_def CRON_ITERATIONS_def)

theorem cron_next_fire_time_least_witness:
  "fire_times utc_localtime (fst (cron_parse_expression ''59 23 * * *'')) 86000 86339 = {}"
proof -
  have s: "seconds_ok (ce_fields (fst (cron_parse_expression ''59 23 * * *'')) ! 0)" by code_simp
  have r: "cron_next_fire_time utc_localtime utc_mktime (fst (cron_parse_expression ''59 23 * * *'')) 86000 = 86340" by code_simp
  show ?thesis using cron_next_fire_time_least [OF s _ r] by simp
qed

text \<open>C35. Where local time is UTC, and every job has an ascending list of seconds in range or any second, was scheduled at -1 or
  later, and is at most 2628000 seconds behind, a tick ends, counts the due jobs, and calls each due job once, and a job that
  catches up once more for every firing it missed since its scheduled time.\<close>

theorem cron_tick_calls:
  assumes "\<forall>j \<in> set (cs_jobs s). job_ok now j"
  shows "map_option snd (cron_tick utc_localtime utc_mktime s now) =
    Some (length (filter (due now) (cs_jobs s)), concat (map (due_calls utc_localtime now) (cs_jobs s)))"
  using utc.tick_jobs_calls [OF assms] by (auto simp: cron_tick_def)

definition hourly_job :: cron_job where
  "hourly_job = \<lparr>cj_id = 1, cj_expr = fst (cron_parse_expression ''0 * * * *''), cj_callback = 7, cj_userdata = 8, cj_catch_up = True,
     cj_last_fire = 0, cj_next_fire = 3600, cj_active = True\<rparr>"

theorem cron_tick_calls_witness:
  "map_option snd (cron_tick utc_localtime utc_mktime \<lparr>cs_jobs = [hourly_job], cs_max_jobs = 64\<rparr> 7300) = Some (1, [(7, 8), (7, 8)])
   \<and> due_calls utc_localtime 7300 hourly_job = [(7, 8), (7, 8)]"
proof -
  let ?s = "\<lparr>cs_jobs = [hourly_job], cs_max_jobs = 64\<rparr>"
  have "\<forall>j \<in> set (cs_jobs ?s). job_ok 7300 j" by code_simp
  from cron_tick_calls [OF this] have "map_option snd (cron_tick utc_localtime utc_mktime ?s 7300) =
    Some (length (filter (due 7300) (cs_jobs ?s)), concat (map (due_calls utc_localtime 7300) (cs_jobs ?s)))" .
  moreover have "map_option snd (cron_tick utc_localtime utc_mktime ?s 7300) = Some (1, [(7, 8), (7, 8)])" by code_simp
  ultimately show ?thesis by simp
qed

text \<open>C37. Parsing inverts printing: a comma-separated list of at most 64 numbers is read back as exactly
  these values, in their order.\<close>

theorem cron_parse_field_roundtrip:
  assumes "ns \<noteq> []" "length ns \<le> 64" "length (join_values ns) \<le> 255"
  shows "cron_parse_field (Some (join_values ns)) lo hi = (\<lparr>cf_type = CRON_ENTRY_SPECIFIC, cf_values = map int ns\<rparr>, 0)"
proof -
  obtain m ms where ns: "ns = m # ms" using assms(1) by (cases ns) auto
  have "join_values ns \<noteq> []" by (cases ms) (simp_all add: ns)
  moreover have "join_values ns \<noteq> ''*''"
  proof
    assume "join_values ns = ''*''"
    then have "CHR ''*'' \<in> set (dec_digits m)" by (cases ms) (auto simp: ns append_eq_Cons_conv)
    then show False using dec_digits_digit digit_not_special by blast
  qed
  ultimately have "cron_parse_field (Some (join_values ns)) lo hi = (parse_tokens lo hi any_field (map dec_digits ns), 0)"
    using assms(3) by (simp add: cron_parse_field_def parse_list_def strncpy_buf_def strtok_join)
  moreover have "parse_tokens lo hi any_field (map dec_digits ns) = \<lparr>cf_type = CRON_ENTRY_SPECIFIC, cf_values = map int ns\<rparr>"
    using assms(2) ns by (simp add: parse_token_digits parse_tokens_digits any_field_def)
  ultimately show ?thesis by simp
qed

theorem cron_parse_field_roundtrip_witness:
  "cron_parse_field (Some (join_values [5, 20, 35])) 0 59 = (\<lparr>cf_type = CRON_ENTRY_SPECIFIC, cf_values = [5, 20, 35]\<rparr>, 0)"
  using cron_parse_field_roundtrip [of "[5, 20, 35]" 0 59] by (simp add: dec_digits.simps)

text \<open>A job that can never fire is run anyway: it is registered with the next firing time -1, and the
  first tick calls it.\<close>

theorem cron_impossible_job_fires:
  assumes "cs_jobs s = []" "0 < cs_max_jobs s" "cb \<noteq> NULL" "-1 \<le> now" "-1 \<le> now'"
    "cron_parse_expression spec = (e, 0)" "seconds_ok (ce_fields e ! 0)" "\<forall>t. \<not> cron_matches e (utc_localtime t)"
  shows "map_option (snd \<circ> snd) (cron_tick utc_localtime utc_mktime
      (fst (cron_register_job utc_localtime utc_mktime now s jid (Some spec) cb ud False)) now') = Some [(cb, ud)]"
proof -
  have n: "cron_next_fire_time utc_localtime utc_mktime e now = -1"
    using utc.cron_next_spec [OF assms(7,4) refl] assms(8) by blast
  show ?thesis
    using assms(1-3,5,6) n by (simp add: cron_register_job_def cron_tick_def tick_job_def Let_def find_idx_def)
qed

lemma february_days: "tm_mon (utc_localtime t) = 1 \<Longrightarrow> tm_mday (utc_localtime t) \<le> 29"
  using utc_month [of t] by (auto simp: utc_localtime_fields(6) utc_localtime_fields(5) [symmetric] month_days_def split: if_splits)

theorem cron_impossible_job_fires_witness:
  "map_option (snd \<circ> snd) (cron_tick utc_localtime utc_mktime
      (fst (cron_register_job utc_localtime utc_mktime 0 \<lparr>cs_jobs = [], cs_max_jobs = 64\<rparr> 1 (Some ''0 0 30 2 *'') 7 8 False)) 60) = Some [(7, 8)]"
proof (rule cron_impossible_job_fires)
  show "cron_parse_expression ''0 0 30 2 *'' = (fst (cron_parse_expression ''0 0 30 2 *''), 0)" by code_simp
  show "seconds_ok (ce_fields (fst (cron_parse_expression ''0 0 30 2 *'')) ! 0)" by code_simp
  have f: "ce_fields (fst (cron_parse_expression ''0 0 30 2 *'')) ! 3 = \<lparr>cf_type = CRON_ENTRY_SPECIFIC, cf_values = [30]\<rparr>"
    "ce_fields (fst (cron_parse_expression ''0 0 30 2 *'')) ! 4 = \<lparr>cf_type = CRON_ENTRY_SPECIFIC, cf_values = [2]\<rparr>" by code_simp+
  show "\<forall>t. \<not> cron_matches (fst (cron_parse_expression ''0 0 30 2 *'')) (utc_localtime t)"
  proof (rule allI, rule notI)
    fix t
    assume m: "cron_matches (fst (cron_parse_expression ''0 0 30 2 *'')) (utc_localtime t)"
    have "cron_field_matches \<lparr>cf_type = CRON_ENTRY_SPECIFIC, cf_values = [30]\<rparr> (tm_mday (utc_localtime t))"
      "cron_field_matches \<lparr>cf_type = CRON_ENTRY_SPECIFIC, cf_values = [2]\<rparr> (tm_mon (utc_localtime t) + 1)"
      using list_all2_nthD2 [OF m [unfolded cron_matches_def], of 3] list_all2_nthD2 [OF m [unfolded cron_matches_def], of 4] f by simp_all
    then show False using february_days [of t] by (simp add: cron_field_matches_def)
  qed
qed simp_all

text \<open>A list that mixes a range with a single value loses the range, and seconds that are not ascending
  are skipped.\<close>

lemma cron_mixed_list: "cf_values (fst (cron_parse_field (Some ''1-5,10'') 0 59)) = [10]"
  by code_simp

lemma cron_unsorted_skips:
  "cron_next_fire_time utc_localtime utc_mktime (fst (cron_parse_expression ''30,10 * * * * *'')) 0 = 30
   \<and> cron_matches (fst (cron_parse_expression ''30,10 * * * * *'')) (utc_localtime 10)"
  by code_simp

text \<open>Registering an identifier a second time removes the job.\<close>

lemma cron_register_twice:
  assumes "spec = Some x" "cb \<noteq> NULL" "length (cs_jobs s) < cs_max_jobs s" "\<exists>j \<in> set (cs_jobs s). cj_id j = jid"
  shows "cron_register_job lt mk now s jid spec cb ud c = cron_unregister_job s jid"
  using assms by (auto simp: cron_register_job_def find_idx_None_iff in_set_conv_nth)

end
