(* ===== verification/Job_Coordinator.thy ===== *)
theory Job_Coordinator
  imports Delayed_Queue Circuit_Breaker Task_Retry Dag_Exec Worker_Pool Job_Progress Rate_Limiter Priority_Scheduler Cron_Scheduler
begin

text \<open>
  The coordinator of \<open>src/mini-job-system/src/job_coordinator.c\<close>: the facade that composes the other parts.

  The wrapper contexts it allocates are an explicit store from addresses to wrappers: the result of
  each \<open>malloc\<close> is an argument (the null pointer when it fails), \<open>free\<close> removes the address, and running
  a wrapper whose address has been freed is an error.  The job functions are user code: \<open>run fn ctx\<close> is the
  result of calling the function at address \<open>fn\<close>; calls of completion and dead-letter callbacks
  are returned as events.  The callbacks are assumed not to call back into the coordinator.
\<close>

section \<open>Data\<close>

definition JC_MAX_BREAKERS :: nat where "JC_MAX_BREAKERS = 16"
definition JC_MAX_RATE_LIMIT :: nat where "JC_MAX_RATE_LIMIT = 16"

datatype jc_state = JC_STATE_IDLE | JC_STATE_RUNNING | JC_STATE_DRAINING | JC_STATE_STOPPED

datatype jc_result = JC_RESULT_SUCCESS | JC_RESULT_FAILED | JC_RESULT_RETRY | JC_RESULT_REJECTED | JC_RESULT_SKIPPED | JC_RESULT_TIMEOUT

record jc_job_ctx =
  jx_job_id :: u64
  jx_job_name :: "string option"
  jx_job_type :: "string option"
  jx_priority :: int
  jx_userdata :: ptr

record jc_config =
  jcc_max_workers :: int
  jcc_queue_size :: int
  jcc_graceful_timeout_ms :: int
  jcc_health_check_interval_ms :: int
  jcc_enable_circuit_breaker :: int
  jcc_enable_rate_limiter :: int
  jcc_enable_dag_scheduler :: int

record jc_stats =
  st_submitted :: u64
  st_completed :: u64
  st_failed :: u64
  st_retried :: u64
  st_rejected :: u64
  st_skipped :: u64
  st_uptime_seconds :: double
  st_active_jobs :: int
  st_queued_jobs :: int
  st_completion_rate :: double
  st_failure_rate :: double
  st_avg_latency_ms :: double

record jc_wrapper_ctx =
  jw_ctx :: jc_job_ctx
  jw_job_fn :: ptr
  jw_on_complete :: ptr
  jw_complete_ud :: ptr
  jw_submitted_at :: time_t

record job_coordinator =
  jc_pool :: worker_pool
  jc_cron :: cron_scheduler
  jc_dq :: delayed_queue
  jc_retry :: task_retry
  jc_ps :: ps_scheduler
  jc_breakers :: "circuit_breaker list"
  jc_breaker_names :: "string list"
  jc_rate_limiters :: "rate_limiter list"
  jc_limit_names :: "string list"
  jc_st :: jc_state
  jc_started_at :: time_t
  jc_enable_breaker :: int
  jc_enable_limiter :: int
  jc_enable_dag :: int
  jc_stat :: jc_stats
  jc_total_latency_ms :: double
  jc_latency_samples :: int
  jc_store :: "ptr \<Rightarrow> jc_wrapper_ctx option"

datatype jc_event =
    Completion ptr jc_job_ctx jc_result ptr
  | Dead_letter ptr u64 tr_error_code ptr

datatype jc_error = Use_after_free | Null_call | No_return

section \<open>Creation\<close>

definition zero_stats :: jc_stats where
  "zero_stats = \<lparr>st_submitted = 0, st_completed = 0, st_failed = 0, st_retried = 0, st_rejected = 0, st_skipped = 0, st_uptime_seconds = 0,
     st_active_jobs = 0, st_queued_jobs = 0, st_completion_rate = 0, st_failure_rate = 0, st_avg_latency_ms = 0\<rparr>"

definition apply_defaults :: "jc_config \<Rightarrow> jc_config" where
  "apply_defaults cfg =
     \<lparr>jcc_max_workers = (if jcc_max_workers cfg \<le> 0 then 4 else jcc_max_workers cfg),
      jcc_queue_size = (if jcc_queue_size cfg \<le> 0 then 256 else jcc_queue_size cfg),
      jcc_graceful_timeout_ms = (if jcc_graceful_timeout_ms cfg \<le> 0 then 10000 else jcc_graceful_timeout_ms cfg),
      jcc_health_check_interval_ms = (if jcc_health_check_interval_ms cfg \<le> 0 then 5000 else jcc_health_check_interval_ms cfg),
      jcc_enable_circuit_breaker = jcc_enable_circuit_breaker cfg, jcc_enable_rate_limiter = jcc_enable_rate_limiter cfg,
      jcc_enable_dag_scheduler = jcc_enable_dag_scheduler cfg\<rparr>"

text \<open>The outcome of each allocation, in the order they are made.\<close>

record jc_allocs =
  ok_self :: bool
  ok_pool :: bool
  ok_tasks :: bool
  ok_cron :: bool
  ok_dq :: bool
  ok_heap :: bool
  ok_retry :: bool
  ok_ps :: bool

definition jc_create :: "jc_allocs \<Rightarrow> time_t \<Rightarrow> time_t \<Rightarrow> time_t \<Rightarrow> jc_config option \<Rightarrow> job_coordinator option" where
  "jc_create a t_retry t_ps t_start config =
     (if \<not> ok_self a then None
      else
        let cfg = apply_defaults (case config of Some c \<Rightarrow> c
              | None \<Rightarrow> \<lparr>jcc_max_workers = 0, jcc_queue_size = 0, jcc_graceful_timeout_ms = 0, jcc_health_check_interval_ms = 0,
                         jcc_enable_circuit_breaker = 0, jcc_enable_rate_limiter = 0, jcc_enable_dag_scheduler = 0\<rparr>);
            wcfg = \<lparr>cfg_max_workers = jcc_max_workers cfg, cfg_queue_size = jcc_queue_size cfg, cfg_graceful_ms = jcc_graceful_timeout_ms cfg\<rparr>
        in case worker_pool_create (ok_pool a) (ok_tasks a) (Some wcfg) of
             None \<Rightarrow> None
           | Some pl \<Rightarrow> (case cron_scheduler_create (ok_cron a) (Some 32) of
             None \<Rightarrow> None
           | Some cr \<Rightarrow> (case delayed_queue_create (ok_dq a) (ok_heap a) 64 1 of
             None \<Rightarrow> None
           | Some dq \<Rightarrow> (case task_retry_create (ok_retry a) t_retry 64 of
             None \<Rightarrow> None
           | Some tr \<Rightarrow> (case ps_create (ok_ps a) t_ps None of
             None \<Rightarrow> None
           | Some ps \<Rightarrow> Some
               \<lparr>jc_pool = pl, jc_cron = cr, jc_dq = dq, jc_retry = tr, jc_ps = ps, jc_breakers = [], jc_breaker_names = [],
                jc_rate_limiters = [], jc_limit_names = [], jc_st = JC_STATE_IDLE, jc_started_at = t_start,
                jc_enable_breaker = (case config of Some c \<Rightarrow> jcc_enable_circuit_breaker c | None \<Rightarrow> 1),
                jc_enable_limiter = (case config of Some c \<Rightarrow> jcc_enable_rate_limiter c | None \<Rightarrow> 1),
                jc_enable_dag = (case config of Some c \<Rightarrow> jcc_enable_dag_scheduler c | None \<Rightarrow> 1),
                jc_stat = zero_stats, jc_total_latency_ms = 0, jc_latency_samples = 0, jc_store = (\<lambda>_. None)\<rparr>)))))"

section \<open>Execution of a wrapped job\<close>

text \<open>The address of \<open>jc_execute_wrapper\<close>, which is not the null pointer.\<close>

definition WRAPPER :: ptr where "WRAPPER = 1"

fun count_result :: "jc_result \<Rightarrow> jc_stats \<Rightarrow> jc_stats" where
  "count_result JC_RESULT_SUCCESS st = st\<lparr>st_completed := st_completed st + 1\<rparr>"
| "count_result JC_RESULT_FAILED st = st\<lparr>st_failed := st_failed st + 1\<rparr>"
| "count_result JC_RESULT_RETRY st = st\<lparr>st_retried := st_retried st + 1\<rparr>"
| "count_result JC_RESULT_REJECTED st = st\<lparr>st_rejected := st_rejected st + 1\<rparr>"
| "count_result JC_RESULT_SKIPPED st = st\<lparr>st_skipped := st_skipped st + 1\<rparr>"
| "count_result JC_RESULT_TIMEOUT st = st"

definition jc_execute_wrapper :: "(ptr \<Rightarrow> jc_job_ctx \<Rightarrow> jc_result) \<Rightarrow> time_t \<times> time_t \<Rightarrow> ptr \<Rightarrow> job_coordinator
    \<Rightarrow> jc_error + (job_coordinator \<times> jc_event list)" where
  "jc_execute_wrapper run clk w jc =
     (case jc_store jc w of
        None \<Rightarrow> Inl Use_after_free
      | Some x \<Rightarrow>
          if jw_job_fn x = NULL then Inl Null_call
          else
            let result = run (jw_job_fn x) (jw_ctx x);
                latency = fmul (difftime (snd clk) (fst clk)) 1000
            in Inr (jc\<lparr>jc_total_latency_ms := fadd (jc_total_latency_ms jc) latency,
                       jc_latency_samples := jc_latency_samples jc + 1,
                       jc_stat := count_result result (jc_stat jc),
                       jc_store := (jc_store jc)(w := None)\<rparr>,
                    if jw_on_complete x \<noteq> NULL then [Completion (jw_on_complete x) (jw_ctx x) result (jw_complete_ud x)] else []))"

text \<open>The wrappers run one after the other, the \<open>k\<close>-th run of the sequence with the \<open>k\<close>-th pair of readings.\<close>

fun run_wrappers :: "(ptr \<Rightarrow> jc_job_ctx \<Rightarrow> jc_result) \<Rightarrow> (nat \<Rightarrow> time_t \<times> time_t) \<Rightarrow> nat \<Rightarrow> ptr list \<Rightarrow> job_coordinator
    \<Rightarrow> jc_error + (job_coordinator \<times> jc_event list)" where
  "run_wrappers run clk k [] jc = Inr (jc, [])"
| "run_wrappers run clk k (w # ws) jc =
     (case jc_execute_wrapper run (clk k) w jc of
        Inl e \<Rightarrow> Inl e
      | Inr (jc1, ev) \<Rightarrow> (case run_wrappers run clk (k + 1) ws jc1 of Inl e \<Rightarrow> Inl e | Inr (jc2, ev') \<Rightarrow> Inr (jc2, ev @ ev')))"

section \<open>Submission\<close>

definition mk_wrapper :: "jc_job_ctx \<Rightarrow> ptr \<Rightarrow> ptr \<Rightarrow> ptr \<Rightarrow> time_t \<Rightarrow> jc_wrapper_ctx" where
  "mk_wrapper ctx job_fn on_complete complete_ud t =
     \<lparr>jw_ctx = ctx, jw_job_fn = job_fn, jw_on_complete = on_complete, jw_complete_ud = complete_ud, jw_submitted_at = t\<rparr>"

definition jc_submit_job :: "time_t \<Rightarrow> ptr \<Rightarrow> job_coordinator \<Rightarrow> jc_job_ctx \<Rightarrow> ptr \<Rightarrow> ptr \<Rightarrow> ptr \<Rightarrow> job_coordinator \<times> int" where
  "jc_submit_job t w jc ctx job_fn on_complete complete_ud =
     (if job_fn = NULL then (jc, -1)
      else if jc_st jc \<noteq> JC_STATE_RUNNING then (jc, -2)
      else if w = NULL then (jc, -3)
      else case wp_submit (jc_pool jc) (jx_job_id ctx) WRAPPER w NULL NULL (jx_job_type ctx) of
             (pl, ret) \<Rightarrow>
               if ret < 0 then (jc\<lparr>jc_pool := pl\<rparr>, ret)
               else (jc\<lparr>jc_pool := pl, jc_store := (jc_store jc)(w \<mapsto> mk_wrapper ctx job_fn on_complete complete_ud t),
                        jc_stat := (jc_stat jc)\<lparr>st_submitted := st_submitted (jc_stat jc) + 1,
                                                st_active_jobs := st_active_jobs (jc_stat jc) + 1\<rparr>\<rparr>, 0))"

definition jc_reject :: "job_coordinator \<Rightarrow> jc_job_ctx \<Rightarrow> ptr \<Rightarrow> ptr \<Rightarrow> job_coordinator \<times> int \<times> jc_event list" where
  "jc_reject jc ctx on_complete complete_ud =
     (jc\<lparr>jc_stat := (jc_stat jc)\<lparr>st_rejected := st_rejected (jc_stat jc) + 1\<rparr>\<rparr>, -2,
      if on_complete \<noteq> NULL then [Completion on_complete ctx JC_RESULT_REJECTED complete_ud] else [])"

definition jc_submit_with_breaker :: "time_t \<Rightarrow> time_t \<Rightarrow> ptr \<Rightarrow> job_coordinator \<Rightarrow> jc_job_ctx \<Rightarrow> ptr \<Rightarrow> ptr \<Rightarrow> ptr \<Rightarrow> string
    \<Rightarrow> job_coordinator \<times> int \<times> jc_event list" where
  "jc_submit_with_breaker now t w jc ctx job_fn on_complete complete_ud breaker_name =
     (if job_fn = NULL then (jc, -1, [])
      else
        let go = (\<lambda>jc. case jc_submit_job t w jc ctx job_fn on_complete complete_ud of (jc', r) \<Rightarrow> (jc', r, []))
        in case find_idx (\<lambda>n. n = breaker_name) (jc_breaker_names jc) (length (jc_breaker_names jc)) of
             None \<Rightarrow> go jc
           | Some i \<Rightarrow>
               (case cb_allow_request now (jc_breakers jc ! i) of
                  (cb, allowed) \<Rightarrow>
                    let jc1 = jc\<lparr>jc_breakers := (jc_breakers jc)[i := cb]\<rparr>
                    in if \<not> allowed then jc_reject jc1 ctx on_complete complete_ud else go jc1))"

definition jc_submit_rate_limited :: "time_t \<times> time_t \<times> time_t \<Rightarrow> time_t \<Rightarrow> ptr \<Rightarrow> job_coordinator \<Rightarrow> jc_job_ctx \<Rightarrow> ptr \<Rightarrow> ptr \<Rightarrow> ptr
    \<Rightarrow> string \<Rightarrow> double \<Rightarrow> job_coordinator \<times> int \<times> jc_event list" where
  "jc_submit_rate_limited clk t w jc ctx job_fn on_complete complete_ud limit_name cost =
     (if job_fn = NULL then (jc, -1, [])
      else
        let go = (\<lambda>jc. case jc_submit_job t w jc ctx job_fn on_complete complete_ud of (jc', r) \<Rightarrow> (jc', r, []))
        in case find_idx (\<lambda>n. n = limit_name) (jc_limit_names jc) (length (jc_limit_names jc)) of
             None \<Rightarrow> go jc
           | Some i \<Rightarrow>
               (case clk of (t1, t2, t3) \<Rightarrow>
                case rl_consume t1 t2 t3 (jc_rate_limiters jc ! i) cost of
                  (rl, allowed) \<Rightarrow>
                    let jc1 = jc\<lparr>jc_rate_limiters := (jc_rate_limiters jc)[i := rl]\<rparr>
                    in if \<not> allowed then jc_reject jc1 ctx on_complete complete_ud else go jc1))"

definition dag_ctx :: "u64 \<Rightarrow> jc_job_ctx" where
  "dag_ctx nid = \<lparr>jx_job_id = nid, jx_job_name = Some ''dag-job'', jx_job_type = Some ''dag'', jx_priority = 0, jx_userdata = NULL\<rparr>"

text \<open>The loop over the ready nodes; the \<open>k\<close>-th submission has its own clock reading and allocation.\<close>

fun submit_ready :: "(nat \<Rightarrow> time_t \<times> ptr) \<Rightarrow> nat \<Rightarrow> jdag \<Rightarrow> ptr list \<Rightarrow> int \<Rightarrow> u64 list \<Rightarrow> job_coordinator \<Rightarrow> job_coordinator \<times> nat" where
  "submit_ready env k dag job_fns job_fn_count [] jc = (jc, 0)"
| "submit_ready env k dag job_fns job_fn_count (nid # ids) jc =
     (let idx = jdag_find_node (Some dag) nid;
          fn = (if idx \<ge> 0 \<and> idx < job_fn_count then job_fns ! nat idx else NULL);
          (jc1, r) = (if fn \<noteq> NULL then jc_submit_job (fst (env k)) (snd (env k)) jc (dag_ctx nid) fn NULL NULL else (jc, -1));
          (jc2, n) = submit_ready env (k + 1) dag job_fns job_fn_count ids jc1
      in (jc2, (if r = 0 then 1 else 0) + n))"

definition jc_submit_dag :: "(nat \<Rightarrow> time_t \<times> ptr) \<Rightarrow> job_coordinator \<Rightarrow> jdag \<Rightarrow> ptr list \<Rightarrow> int \<Rightarrow> job_coordinator \<times> nat" where
  "jc_submit_dag env jc dag job_fns job_fn_count = submit_ready env 0 dag job_fns job_fn_count (jdag_get_ready_nodes dag 64) jc"

section \<open>Scheduling\<close>

definition jc_schedule_cron :: "(time_t \<Rightarrow> tm) \<Rightarrow> (tm \<Rightarrow> tm \<times> time_t) \<Rightarrow> time_t \<Rightarrow> time_t \<Rightarrow> ptr \<Rightarrow> job_coordinator \<Rightarrow> jc_job_ctx \<Rightarrow> ptr
    \<Rightarrow> string option \<Rightarrow> bool \<Rightarrow> job_coordinator \<times> int" where
  "jc_schedule_cron localtime_r mktime t now w jc ctx job_fn cron_spec catch_up =
     (if cron_spec = None then (jc, -1)
      else if w = NULL then (jc, -2)
      else case cron_register_job localtime_r mktime now (jc_cron jc) (jx_job_id ctx) cron_spec WRAPPER w catch_up of
             (cr, r) \<Rightarrow> (jc\<lparr>jc_store := (jc_store jc)(w \<mapsto> mk_wrapper ctx job_fn NULL NULL t), jc_cron := cr\<rparr>, r))"

definition delay_key :: "u64 \<Rightarrow> string" where
  "delay_key jid = take 63 (''jc_delay_'' @ fmt_llu jid)"

definition jc_schedule_delayed :: "time_t \<Rightarrow> time_t \<times> time_t \<times> time_t \<Rightarrow> ptr \<Rightarrow> job_coordinator \<Rightarrow> jc_job_ctx \<Rightarrow> ptr \<Rightarrow> u64
    \<Rightarrow> job_coordinator \<times> int" where
  "jc_schedule_delayed t clk w jc ctx job_fn delay_ms =
     (if w = NULL then (jc, -2)
      else case clk of (t1, t2, t3) \<Rightarrow>
           case dq_enqueue (jc_dq jc) (jx_job_id ctx) (Some (delay_key (jx_job_id ctx))) WRAPPER w delay_ms t1 t2 t3 of
             (dq, r) \<Rightarrow> (jc\<lparr>jc_store := (jc_store jc)(w \<mapsto> mk_wrapper ctx job_fn NULL NULL t), jc_dq := dq\<rparr>, r))"

definition jc_submit_priority :: "time_t \<Rightarrow> time_t \<Rightarrow> ptr \<Rightarrow> job_coordinator \<Rightarrow> jc_job_ctx \<Rightarrow> ptr \<Rightarrow> int \<Rightarrow> job_coordinator \<times> int" where
  "jc_submit_priority t now w jc ctx job_fn priority =
     (if w = NULL then (jc, -2)
      else case ps_submit now (jc_ps jc) (jx_job_id ctx) WRAPPER w priority 1 of
             (ps, r) \<Rightarrow> (jc\<lparr>jc_store := (jc_store jc)(w \<mapsto> mk_wrapper ctx job_fn NULL NULL t), jc_ps := ps\<rparr>, r))"

section \<open>Tick\<close>

lemma dq_dequeue_size: "dq_dequeue dq now = (dq', Some e) \<Longrightarrow> dqh_size dq' < dqh_size dq"
proof (induction dq now rule: dq_dequeue.induct)
  case (1 dq now)
  then show ?case
    by (subst (asm) (2) dq_dequeue.simps) (auto simp: dq_pop_root_def Let_def split: if_splits)
qed

function dq_drain :: "delayed_queue \<Rightarrow> time_t \<Rightarrow> delayed_queue \<times> dq_entry list" where
  "dq_drain dq now =
     (case dq_dequeue dq now of
        (dq1, r) \<Rightarrow> if r = None then (dq1, []) else (case dq_drain dq1 now of (dq2, es) \<Rightarrow> (dq2, the r # es)))"
  by pat_completeness auto
termination
  by (relation "measure (\<lambda>(dq, now). dqh_size dq)") (auto intro: dq_dequeue_size [OF sym])

declare dq_drain.simps [simp del]

text \<open>What a tick observes: the clock, the calendar, the results of the jobs, and the readings made
  around each job and by the priority scheduler.\<close>

record jc_env =
  env_now :: time_t
  env_localtime :: "time_t \<Rightarrow> tm"
  env_mktime :: "tm \<Rightarrow> tm \<times> time_t"
  env_run :: "ptr \<Rightarrow> jc_job_ctx \<Rightarrow> jc_result"
  env_clk :: "nat \<Rightarrow> time_t \<times> time_t"
  env_ps_now :: time_t
  env_ps_wait :: time_t

definition tick_stats :: "time_t \<Rightarrow> job_coordinator \<Rightarrow> job_coordinator" where
  "tick_stats now jc = jc\<lparr>jc_stat := (jc_stat jc)
     \<lparr>st_queued_jobs := int (wp_pending_tasks (Some (jc_pool jc)) + dq_size (jc_dq jc)),
      st_active_jobs := int (wp_busy_workers (Some (jc_pool jc))), st_uptime_seconds := difftime now (jc_started_at jc)\<rparr>\<rparr>"

text \<open>The four parts of the tick work on the coordinator, the number of jobs run so far (which numbers the clock
  readings), the number processed, and the events; the first error ends the tick.\<close>

type_synonym jc_progress = "job_coordinator \<times> nat \<times> int \<times> jc_event list"

definition and_then :: "jc_error + 'a \<Rightarrow> ('a \<Rightarrow> jc_error + 'b) \<Rightarrow> jc_error + 'b" where
  "and_then x f = (case x of Inl e \<Rightarrow> Inl e | Inr a \<Rightarrow> f a)"

definition tick_cron :: "jc_env \<Rightarrow> job_coordinator \<Rightarrow> jc_error + jc_progress" where
  "tick_cron env jc =
     (case cron_tick (env_localtime env) (env_mktime env) (jc_cron jc) (env_now env) of
        None \<Rightarrow> Inl No_return
      | Some (cr, fired, calls) \<Rightarrow>
          and_then (run_wrappers (env_run env) (env_clk env) 0 (map snd calls) (jc\<lparr>jc_cron := cr\<rparr>))
            (\<lambda>(jc1, ev). Inr (jc1, length calls, int fired, ev)))"

fun tick_delayed :: "jc_env \<Rightarrow> jc_progress \<Rightarrow> jc_error + jc_progress" where
  "tick_delayed env (jc, k, n, ev) =
     (case dq_drain (jc_dq jc) (env_now env) of
        (dq, es) \<Rightarrow>
          let ws = map dqe_userdata (filter (\<lambda>e. dqe_callback e \<noteq> NULL) es)
          in and_then (run_wrappers (env_run env) (env_clk env) k ws (jc\<lparr>jc_dq := dq\<rparr>))
               (\<lambda>(jc1, ev1). Inr (jc1, k + length ws, n + int (length es), ev @ ev1)))"

fun tick_retries :: "jc_progress \<Rightarrow> jc_progress" where
  "tick_retries (jc, k, n, ev) =
     (case tr_process_dead_letters (jc_retry jc) of
        (tr, dl) \<Rightarrow> (jc\<lparr>jc_retry := tr\<rparr>, k, n, ev @ map (\<lambda>(cb, jid, err, ud). Dead_letter cb jid err ud) dl))"

fun tick_priority :: "jc_env \<Rightarrow> jc_progress \<Rightarrow> jc_error + jc_progress" where
  "tick_priority env (jc, k, n, ev) =
     (case ps_schedule_next (env_ps_now env) (env_ps_wait env) (jc_ps jc) of
        (ps, None) \<Rightarrow> Inr (jc\<lparr>jc_ps := ps\<rparr>, k, n, ev)
      | (ps, Some j) \<Rightarrow>
          and_then (run_wrappers (env_run env) (env_clk env) k (if pj_job j \<noteq> NULL then [pj_userdata j] else []) (jc\<lparr>jc_ps := ps\<rparr>))
            (\<lambda>(jc1, ev1). Inr (jc1, k + 1, n + 1, ev @ ev1)))"

definition jc_tick :: "jc_env \<Rightarrow> job_coordinator \<Rightarrow> jc_error + (job_coordinator \<times> int \<times> jc_event list)" where
  "jc_tick env jc =
     (if jc_st jc \<noteq> JC_STATE_RUNNING then Inr (jc, -1, [])
      else and_then (tick_cron env jc) (\<lambda>p. and_then (tick_delayed env p) (\<lambda>p.
           and_then (tick_priority env (tick_retries p)) (\<lambda>(jc, k, n, ev). Inr (tick_stats (env_now env) jc, n, ev)))))"

section \<open>Lifecycle\<close>

definition jc_start :: "time_t \<Rightarrow> job_coordinator \<Rightarrow> job_coordinator" where
  "jc_start t jc = jc\<lparr>jc_st := JC_STATE_RUNNING, jc_started_at := t\<rparr>"

definition jc_stop :: "(nat \<Rightarrow> nat) \<Rightarrow> job_coordinator \<Rightarrow> bool \<Rightarrow> job_coordinator" where
  "jc_stop busy jc graceful = jc\<lparr>jc_st := JC_STATE_STOPPED,
     jc_pool := (if graceful then fst (wp_shutdown_graceful busy 5000 (jc_pool jc)) else wp_shutdown (jc_pool jc))\<rparr>"

text \<open>\<open>pending k\<close> is the number of queued tasks at the \<open>k\<close>-th test of the loop, which the worker threads
  change.\<close>

function drain_loop :: "(nat \<Rightarrow> jc_env) \<Rightarrow> (nat \<Rightarrow> nat) \<Rightarrow> nat \<Rightarrow> int \<Rightarrow> int \<Rightarrow> job_coordinator
    \<Rightarrow> jc_error + (job_coordinator \<times> jc_event list)" where
  "drain_loop envs pending k waited timeout jc =
     (if pending k > 0 \<and> waited < timeout
      then (case jc_tick (envs k) jc of
              Inl e \<Rightarrow> Inl e
            | Inr (jc1, r, ev) \<Rightarrow>
                (case drain_loop envs pending (k + 1) (waited + 100) timeout jc1 of Inl e \<Rightarrow> Inl e | Inr (jc2, ev') \<Rightarrow> Inr (jc2, ev @ ev')))
      else Inr (jc, []))"
  by pat_completeness auto
termination by (relation "measure (\<lambda>(_, _, _, waited, timeout, _). nat (timeout - waited))") auto

declare drain_loop.simps [simp del]

definition jc_drain :: "(nat \<Rightarrow> jc_env) \<Rightarrow> (nat \<Rightarrow> nat) \<Rightarrow> job_coordinator \<Rightarrow> int \<Rightarrow> jc_error + (job_coordinator \<times> jc_event list)" where
  "jc_drain envs pending jc timeout_ms =
     (case drain_loop envs pending 0 0 timeout_ms (jc\<lparr>jc_st := JC_STATE_DRAINING\<rparr>) of
        Inl e \<Rightarrow> Inl e
      | Inr (jc1, ev) \<Rightarrow> Inr (jc1\<lparr>jc_st := JC_STATE_STOPPED\<rparr>, ev))"

definition jc_get_state :: "job_coordinator option \<Rightarrow> jc_state" where
  "jc_get_state h = (case h of Some jc \<Rightarrow> jc_st jc | None \<Rightarrow> JC_STATE_STOPPED)"

section \<open>Breakers, limiters, statistics\<close>

definition jc_breaker_config :: cb_config where
  "jc_breaker_config = \<lparr>failure_threshold = 5, success_threshold = 2, cb_timeout_ms = 0, cooldown_ms = 30000,
     half_open_max_requests = 1, sliding_window_size = 0\<rparr>"

definition jc_register_breaker :: "bool \<Rightarrow> job_coordinator \<Rightarrow> string option \<Rightarrow> job_coordinator \<times> int" where
  "jc_register_breaker ok jc name =
     (case name of
        None \<Rightarrow> (jc, -1)
      | Some n \<Rightarrow>
          if length (jc_breakers jc) \<ge> JC_MAX_BREAKERS then (jc, -1)
          else case cb_create ok (Some jc_breaker_config) name of
                 None \<Rightarrow> (jc, -2)
               | Some cb \<Rightarrow> (jc\<lparr>jc_breakers := jc_breakers jc @ [cb], jc_breaker_names := jc_breaker_names jc @ [strncpy_buf 32 n]\<rparr>, 0))"

definition jc_get_breaker :: "job_coordinator option \<Rightarrow> string option \<Rightarrow> circuit_breaker option" where
  "jc_get_breaker h name =
     (case (h, name) of
        (Some jc, Some n) \<Rightarrow>
          map_option (\<lambda>i. jc_breakers jc ! i) (find_idx (\<lambda>x. x = n) (jc_breaker_names jc) (length (jc_breaker_names jc)))
      | _ \<Rightarrow> None)"

text \<open>The type of limiter: \<open>None\<close> stands for a value outside the enumeration.\<close>

datatype rl_kind = K_TOKEN_BUCKET | K_LEAKY_BUCKET | K_SLIDING_WINDOW | K_FIXED_WINDOW

fun rl_init :: "time_t \<Rightarrow> rl_kind \<Rightarrow> double \<Rightarrow> double \<Rightarrow> rate_limiter" where
  "rl_init now K_TOKEN_BUCKET rate burst = rl_token_bucket_init now rate burst"
| "rl_init now K_LEAKY_BUCKET rate burst = rl_leaky_bucket_init now rate burst"
| "rl_init now K_SLIDING_WINDOW rate burst = rl_sliding_window_init rate burst"
| "rl_init now K_FIXED_WINDOW rate burst = rl_fixed_window_init now rate burst"

definition jc_register_rate_limit :: "time_t \<Rightarrow> job_coordinator \<Rightarrow> string option \<Rightarrow> rl_kind option \<Rightarrow> double \<Rightarrow> double \<Rightarrow> job_coordinator \<times> int" where
  "jc_register_rate_limit now jc name type rate burst =
     (case name of
        None \<Rightarrow> (jc, -1)
      | Some n \<Rightarrow>
          if length (jc_rate_limiters jc) \<ge> JC_MAX_RATE_LIMIT then (jc, -1)
          else case type of
                 None \<Rightarrow> (jc, -2)
               | Some k \<Rightarrow> (jc\<lparr>jc_rate_limiters := jc_rate_limiters jc @ [rl_init now k rate burst],
                               jc_limit_names := jc_limit_names jc @ [strncpy_buf 32 n]\<rparr>, 0))"

definition jc_get_rate_limit :: "job_coordinator option \<Rightarrow> string option \<Rightarrow> rate_limiter option" where
  "jc_get_rate_limit h name =
     (case (h, name) of
        (Some jc, Some n) \<Rightarrow>
          map_option (\<lambda>i. jc_rate_limiters jc ! i) (find_idx (\<lambda>x. x = n) (jc_limit_names jc) (length (jc_limit_names jc)))
      | _ \<Rightarrow> None)"

definition of_c_u64 :: "u64 \<Rightarrow> double" where "of_c_u64 w = of_c_int (uint w)"

definition jc_get_stats :: "time_t \<Rightarrow> job_coordinator option \<Rightarrow> jc_stats option" where
  "jc_get_stats now h =
     (case h of
        None \<Rightarrow> None
      | Some jc \<Rightarrow>
          let o1 = (jc_stat jc)\<lparr>st_uptime_seconds := difftime now (jc_started_at jc)\<rparr>;
              o2 = (if st_uptime_seconds o1 > 0
                    then o1\<lparr>st_completion_rate := fl (of_c_u64 (st_completed o1) / st_uptime_seconds o1)\<rparr> else o1);
              o3 = (if st_completed o2 + st_failed o2 > 0
                    then o2\<lparr>st_failure_rate := fl (of_c_u64 (st_failed o2) / of_c_u64 (st_completed o2 + st_failed o2))\<rparr> else o2)
          in Some (if jc_latency_samples jc > 0
                   then o3\<lparr>st_avg_latency_ms := fl (jc_total_latency_ms jc / of_c_int (jc_latency_samples jc))\<rparr> else o3))"

definition jc_reset_stats :: "job_coordinator \<Rightarrow> job_coordinator" where
  "jc_reset_stats jc = jc\<lparr>jc_stat := zero_stats, jc_total_latency_ms := 0, jc_latency_samples := 0\<rparr>"

definition jc_health_check :: "job_coordinator option \<Rightarrow> bool" where
  "jc_health_check h =
     (case h of
        None \<Rightarrow> False
      | Some jc \<Rightarrow> (jc_st jc = JC_STATE_RUNNING \<or> jc_st jc = JC_STATE_DRAINING) \<and> wp_is_running (Some (jc_pool jc)))"

section \<open>Draining a timer queue\<close>

text \<open>The loop of the tick over any timer queue: it takes out the live items that are due, in the order of
  their times.\<close>

locale timer_drain = timer_queue invar items due dead deq
  for invar :: "'q \<Rightarrow> bool" and items :: "'q \<Rightarrow> 'e multiset" and due :: "'e \<Rightarrow> time_t" and dead :: "'e \<Rightarrow> bool"
    and deq :: "'q \<Rightarrow> time_t \<Rightarrow> 'q \<times> 'e option" +
  fixes drain :: "'q \<Rightarrow> time_t \<Rightarrow> 'q \<times> 'e list"
  assumes drain_None: "deq q now = (q', None) \<Longrightarrow> drain q now = (q', [])"
    and drain_Some: "deq q now = (q1, Some e) \<Longrightarrow> drain q1 now = (q', es) \<Longrightarrow> drain q now = (q', e # es)"
begin

lemma drain_spec:
  "invar q \<Longrightarrow> drain q now = (q', es) \<Longrightarrow>
   invar q' \<and> (\<exists>D. items q = D + mset es + items q' \<and> (\<forall>d \<in># D. dead d)) \<and> sorted (map due es) \<and>
   (\<forall>e \<in> set es. \<not> dead e \<and> due e \<le> now) \<and> (\<forall>x \<in># items q'. now < due x)"
proof (induction "size (items q)" arbitrary: q es rule: less_induct)
  case less
  obtain q1 r where d: "deq q now = (q1, r)" by fastforce
  show ?case
  proof (cases r)
    case None
    then show ?thesis
      using less.prems d drain_None deq_invar [OF less.prems(1) d] deq_None [of q now q1] by auto
  next
    case (Some e)
    obtain es1 where es: "drain q1 now = (q', es1)" "es = e # es1"
      using less.prems(2) drain_Some [of q now q1 e] d Some by (cases "drain q1 now") auto
    obtain D where D: "items q = D + add_mset e (items q1)" "\<forall>x \<in># D. dead x" "\<not> dead e" "due e \<le> now" "\<forall>x \<in># items q1. due e \<le> due x"
      using deq_Some [OF less.prems(1)] d Some by blast
    have ih: "invar q' \<and> (\<exists>D. items q1 = D + mset es1 + items q' \<and> (\<forall>d \<in># D. dead d)) \<and> sorted (map due es1) \<and>
       (\<forall>e \<in> set es1. \<not> dead e \<and> due e \<le> now) \<and> (\<forall>x \<in># items q'. now < due x)"
      using less.hyps [OF _ deq_invar [OF less.prems(1) d] es(1)] deq_shrinks [OF less.prems(1)] d Some by blast
    then obtain D1 where D1: "items q1 = D1 + mset es1 + items q'" "\<forall>d \<in># D1. dead d" by blast
    have "items q = (D + D1) + mset es + items q'" "\<forall>d \<in># D + D1. dead d" using D D1 es(2) by auto
    moreover have "\<forall>x \<in> set es1. due e \<le> due x" using D(5) D1(1) by auto
    ultimately show ?thesis using ih D(3,4) es(2) by auto
  qed
qed

lemma drain_exact:
  assumes "invar q" "drain q now = (q', es)"
  shows "sorted (map due es) \<and> mset es = filter_mset (\<lambda>e. \<not> dead e \<and> due e \<le> now) (items q)"
proof -
  obtain D where D: "items q = D + mset es + items q'" "\<forall>d \<in># D. dead d" "\<forall>e \<in> set es. \<not> dead e \<and> due e \<le> now"
    "\<forall>x \<in># items q'. now < due x" "sorted (map due es)"
    using drain_spec [OF assms] by blast
  have "filter_mset (\<lambda>e. \<not> dead e \<and> due e \<le> now) D = {#}" "filter_mset (\<lambda>e. \<not> dead e \<and> due e \<le> now) (items q') = {#}"
    "filter_mset (\<lambda>e. \<not> dead e \<and> due e \<le> now) (mset es) = mset es"
    using D(2-4) by (auto simp: filter_mset_eq_conv not_le)
  then show ?thesis using D(1,5) by simp
qed

end

interpretation jcd: timer_drain dq_inv dq_items dqe_fire_time dqe_cancelled dq_dequeue dq_drain
proof (unfold_locales, goal_cases)
  case (1 q now q')
  then show ?case by (subst dq_drain.simps) simp
next
  case (2 q now q1 e q' es)
  then show ?case by (subst dq_drain.simps) simp
qed

section \<open>The store of wrappers\<close>

lemma jc_execute_wrapper_Inr:
  assumes "jc_execute_wrapper run clk w jc = Inr (jc', ev)"
  shows "jc_store jc w \<noteq> None" "jc_store jc' = (jc_store jc)(w := None)" "jc_breakers jc' = jc_breakers jc"
    "jc_breaker_names jc' = jc_breaker_names jc"
  using assms by (auto simp: jc_execute_wrapper_def Let_def split: option.splits if_splits)

lemma run_wrappers_Cons_Inr:
  assumes "run_wrappers run clk k (w # ws) jc = Inr (jc', ev)"
  obtains jc1 ev1 ev2 where "jc_execute_wrapper run (clk k) w jc = Inr (jc1, ev1)" "run_wrappers run clk (k + 1) ws jc1 = Inr (jc', ev2)"
  using assms by (auto split: sum.splits)

lemma run_wrappers_Inr:
  "run_wrappers run clk k ws jc = Inr (jc', ev) \<Longrightarrow>
   (\<forall>w. jc_store jc' w = (if w \<in> set ws then None else jc_store jc w)) \<and> (\<forall>w \<in> set ws. jc_store jc w \<noteq> None) \<and>
   jc_breakers jc' = jc_breakers jc \<and> jc_breaker_names jc' = jc_breaker_names jc"
proof (induction ws arbitrary: k jc ev)
  case (Cons w ws)
  obtain jc1 ev1 ev2 where x: "jc_execute_wrapper run (clk k) w jc = Inr (jc1, ev1)" "run_wrappers run clk (k + 1) ws jc1 = Inr (jc', ev2)"
    using run_wrappers_Cons_Inr [OF Cons.prems] by blast
  note e = jc_execute_wrapper_Inr [OF x(1)] and ih = Cons.IH [OF x(2)]
  have "jc_store jc v \<noteq> None" if "v \<in> set ws" for v
  proof
    assume "jc_store jc v = None"
    then have "jc_store jc1 v = None" using e(2) by simp
    then show False using ih that by blast
  qed
  moreover have "jc_store jc' v = (if v \<in> set (w # ws) then None else jc_store jc v)" for v
    using ih e(2) by simp
  ultimately show ?case using e(1,3,4) ih by simp
qed simp

text \<open>What every part of a tick keeps.\<close>

definition keeps :: "job_coordinator \<Rightarrow> job_coordinator \<Rightarrow> bool" where
  "keeps jc jc' \<longleftrightarrow> jc_breakers jc' = jc_breakers jc \<and> jc_breaker_names jc' = jc_breaker_names jc \<and>
     (\<forall>w. jc_store jc w = None \<longrightarrow> jc_store jc' w = None)"

lemma keeps_run: "run_wrappers run clk k ws jc = Inr (jc', ev) \<Longrightarrow> keeps jc jc'"
  using run_wrappers_Inr by (simp add: keeps_def)

lemma keeps_simps [simp]:
  "keeps (jc\<lparr>jc_cron := cr\<rparr>) jc' = keeps jc jc'" "keeps (jc\<lparr>jc_dq := dq\<rparr>) jc' = keeps jc jc'"
  "keeps (jc\<lparr>jc_ps := ps\<rparr>) jc' = keeps jc jc'" "keeps jc jc"
  "keeps jc (jc'\<lparr>jc_ps := ps\<rparr>) = keeps jc jc'" "keeps jc (jc'\<lparr>jc_retry := tr\<rparr>) = keeps jc jc'"
  "keeps jc (tick_stats now jc') = keeps jc jc'"
  by (simp_all add: keeps_def tick_stats_def)

lemma keeps_trans: "keeps a b \<Longrightarrow> keeps b c \<Longrightarrow> keeps a c"
  by (simp add: keeps_def)

lemma and_then_Inr: "and_then x f = Inr b \<longleftrightarrow> (\<exists>a. x = Inr a \<and> f a = Inr b)"
  by (cases x) (simp_all add: and_then_def)

lemma keeps_parts:
  "tick_cron env jc = Inr p \<Longrightarrow> keeps jc (fst p)" "tick_delayed env p = Inr p' \<Longrightarrow> keeps (fst p) (fst p')"
  "keeps (fst p) (fst (tick_retries p))" "tick_priority env p = Inr p' \<Longrightarrow> keeps (fst p) (fst p')"
proof -
  show "tick_cron env jc = Inr p \<Longrightarrow> keeps jc (fst p)"
    by (auto simp: tick_cron_def and_then_Inr split: option.splits dest!: keeps_run)
  show "tick_delayed env p = Inr p' \<Longrightarrow> keeps (fst p) (fst p')"
    by (cases p) (auto simp: and_then_Inr Let_def split: prod.splits dest!: keeps_run)
  show "keeps (fst p) (fst (tick_retries p))" by (cases p) (auto split: prod.splits)
  show "tick_priority env p = Inr p' \<Longrightarrow> keeps (fst p) (fst p')"
    by (cases p) (auto simp: and_then_Inr split: prod.splits option.splits dest!: keeps_run)
qed

lemma jc_tick_running:
  assumes "jc_tick env jc = Inr (jc', r, ev)" "jc_st jc = JC_STATE_RUNNING"
  obtains p where "tick_cron env jc = Inr p" "keeps (fst p) jc'"
proof -
  obtain p p1 p2 where x: "tick_cron env jc = Inr p" "tick_delayed env p = Inr p1" "tick_priority env (tick_retries p1) = Inr p2"
    "jc' = tick_stats (env_now env) (fst p2)"
    using assms by (auto simp: jc_tick_def and_then_Inr)
  have "keeps (fst p) (fst p2)" using keeps_parts(2) [OF x(2)] keeps_parts(3) [of p1] keeps_parts(4) [OF x(3)] keeps_trans by blast
  then show thesis using that x(1,4) by simp
qed

lemma jc_tick_keeps:
  assumes "jc_tick env jc = Inr (jc', r, ev)"
  shows "keeps jc jc'"
proof (cases "jc_st jc = JC_STATE_RUNNING")
  case False
  then show ?thesis using assms by (simp add: jc_tick_def)
next
  case True
  then show ?thesis using jc_tick_running [OF assms] keeps_parts(1) keeps_trans by metis
qed

lemma jc_tick_cron_calls:
  assumes "jc_tick env jc = Inr (jc', r, ev)" "jc_st jc = JC_STATE_RUNNING"
    "cron_tick (env_localtime env) (env_mktime env) (jc_cron jc) (env_now env) = Some (cr, fired, calls)" "(cb, w) \<in> set calls"
  shows "jc_store jc w \<noteq> None \<and> jc_store jc' w = None"
proof -
  obtain p where p: "tick_cron env jc = Inr p" "keeps (fst p) jc'" using jc_tick_running [OF assms(1,2)] by blast
  then obtain ev1 where r: "run_wrappers (env_run env) (env_clk env) 0 (map snd calls) (jc\<lparr>jc_cron := cr\<rparr>) = Inr (fst p, ev1)"
    using assms(3) by (auto simp: tick_cron_def and_then_Inr)
  have w: "w \<in> set (map snd calls)" using assms(4) by force
  have "jc_store (jc\<lparr>jc_cron := cr\<rparr>) w \<noteq> None" "jc_store (fst p) w = None" using run_wrappers_Inr [OF r] w by (blast, simp)
  then have "jc_store jc w \<noteq> None" "jc_store (fst p) w = None" by simp_all
  then show ?thesis using p(2) by (simp add: keeps_def)
qed

section \<open>Draining\<close>

lemma drain_loop_idle: "jc_st jc = JC_STATE_DRAINING \<Longrightarrow> drain_loop envs pending k waited timeout jc = Inr (jc, [])"
proof (induction envs pending k waited timeout jc rule: drain_loop.induct)
  case (1 envs pending k waited timeout jc)
  then show ?case by (subst drain_loop.simps) (simp add: jc_tick_def)
qed

section \<open>Runs of the coordinator\<close>

datatype jc_op =
    Op_submit time_t ptr jc_job_ctx ptr ptr ptr
  | Op_breaker time_t time_t ptr jc_job_ctx ptr ptr ptr string
  | Op_limited "time_t \<times> time_t \<times> time_t" time_t ptr jc_job_ctx ptr ptr ptr string double
  | Op_dag "nat \<Rightarrow> time_t \<times> ptr" jdag "ptr list" int
  | Op_cron "time_t \<Rightarrow> tm" "tm \<Rightarrow> tm \<times> time_t" time_t time_t ptr jc_job_ctx ptr "string option" bool
  | Op_delayed time_t "time_t \<times> time_t \<times> time_t" ptr jc_job_ctx ptr u64
  | Op_priority time_t time_t ptr jc_job_ctx ptr int
  | Op_tick jc_env
  | Op_start time_t
  | Op_stop "nat \<Rightarrow> nat" bool
  | Op_drain "nat \<Rightarrow> jc_env" "nat \<Rightarrow> nat" int
  | Op_register_breaker bool "string option"
  | Op_register_limit time_t "string option" "rl_kind option" double double
  | Op_reset

fun jc_apply :: "jc_op \<Rightarrow> job_coordinator \<Rightarrow> jc_error + job_coordinator" where
  "jc_apply (Op_submit t w ctx fn oc ud) jc = Inr (fst (jc_submit_job t w jc ctx fn oc ud))"
| "jc_apply (Op_breaker now t w ctx fn oc ud name) jc = Inr (fst (jc_submit_with_breaker now t w jc ctx fn oc ud name))"
| "jc_apply (Op_limited clk t w ctx fn oc ud name cost) jc = Inr (fst (jc_submit_rate_limited clk t w jc ctx fn oc ud name cost))"
| "jc_apply (Op_dag env dag fns n) jc = Inr (fst (jc_submit_dag env jc dag fns n))"
| "jc_apply (Op_cron lt mk t now w ctx fn spec cu) jc = Inr (fst (jc_schedule_cron lt mk t now w jc ctx fn spec cu))"
| "jc_apply (Op_delayed t clk w ctx fn d) jc = Inr (fst (jc_schedule_delayed t clk w jc ctx fn d))"
| "jc_apply (Op_priority t now w ctx fn p) jc = Inr (fst (jc_submit_priority t now w jc ctx fn p))"
| "jc_apply (Op_tick env) jc = map_sum id fst (jc_tick env jc)"
| "jc_apply (Op_start t) jc = Inr (jc_start t jc)"
| "jc_apply (Op_stop busy g) jc = Inr (jc_stop busy jc g)"
| "jc_apply (Op_drain envs pending timeout) jc = map_sum id fst (jc_drain envs pending jc timeout)"
| "jc_apply (Op_register_breaker ok name) jc = Inr (fst (jc_register_breaker ok jc name))"
| "jc_apply (Op_register_limit now name k rate burst) jc = Inr (fst (jc_register_rate_limit now jc name k rate burst))"
| "jc_apply Op_reset jc = Inr (jc_reset_stats jc)"

inductive jc_reach :: "job_coordinator \<Rightarrow> job_coordinator \<Rightarrow> bool" for jc0 where
  jc_first: "jc_reach jc0 jc0"
| jc_step: "jc_reach jc0 jc \<Longrightarrow> jc_apply oper jc = Inr jc' \<Longrightarrow> jc_reach jc0 jc'"

definition breakers_closed :: "job_coordinator \<Rightarrow> bool" where
  "breakers_closed jc \<longleftrightarrow> length (jc_breaker_names jc) = length (jc_breakers jc) \<and> (\<forall>cb \<in> set (jc_breakers jc). cb_st cb = CB_STATE_CLOSED)"

definition same_breakers :: "job_coordinator \<Rightarrow> job_coordinator \<Rightarrow> bool" where
  "same_breakers jc jc' \<longleftrightarrow> jc_breakers jc' = jc_breakers jc \<and> jc_breaker_names jc' = jc_breaker_names jc"

lemma same_breakers_closed: "same_breakers jc jc' \<Longrightarrow> breakers_closed jc' = breakers_closed jc"
  by (simp add: same_breakers_def breakers_closed_def)

lemma same_breakers_submit: "same_breakers jc (fst (jc_submit_job t w jc ctx fn oc ud))"
  by (auto simp: same_breakers_def jc_submit_job_def split: prod.splits)

lemma same_breakers_submit_pair: "jc_submit_job t w jc ctx fn oc ud = (jc', r) \<Longrightarrow> same_breakers jc jc'"
  using same_breakers_submit [of jc t w ctx fn oc ud] by simp

lemma same_breakers_refl: "same_breakers a a"
  by (simp add: same_breakers_def)

lemma same_breakers_trans: "same_breakers a b \<Longrightarrow> same_breakers b c \<Longrightarrow> same_breakers a c"
  by (simp add: same_breakers_def)

lemma same_breakers_limited: "same_breakers jc (fst (jc_submit_rate_limited clk t w jc ctx fn oc ud name cost))"
proof (cases "fn = NULL")
  case True
  then show ?thesis by (simp add: jc_submit_rate_limited_def same_breakers_refl)
next
  case False
  have go: "fst (case jc_submit_job t w jc1 ctx fn oc ud of (jc', r) \<Rightarrow> (jc', r, [])) = fst (jc_submit_job t w jc1 ctx fn oc ud)" for jc1
    by (simp add: case_prod_unfold)
  obtain t1 t2 t3 where clk: "clk = (t1, t2, t3)" by (cases clk) auto
  show ?thesis
  proof (cases "find_idx (\<lambda>n. n = name) (jc_limit_names jc) (length (jc_limit_names jc))")
    case None
    then show ?thesis using False same_breakers_submit by (simp add: jc_submit_rate_limited_def go)
  next
    case (Some i)
    obtain rl ok where r: "rl_consume t1 t2 t3 (jc_rate_limiters jc ! i) cost = (rl, ok)" by fastforce
    let ?jc = "jc\<lparr>jc_rate_limiters := (jc_rate_limiters jc)[i := rl]\<rparr>"
    have "same_breakers jc ?jc" by (simp add: same_breakers_def)
    moreover have "same_breakers ?jc (fst (jc_reject ?jc ctx oc ud))" by (simp add: same_breakers_def jc_reject_def)
    ultimately have "same_breakers jc (fst (jc_reject ?jc ctx oc ud))" "same_breakers jc (fst (jc_submit_job t w ?jc ctx fn oc ud))"
      using same_breakers_trans same_breakers_submit by blast+
    then show ?thesis using False Some r clk by (simp add: jc_submit_rate_limited_def Let_def go)
  qed
qed

lemma same_breakers_dag: "same_breakers jc (fst (submit_ready env k dag fns n ids jc))"
proof (induction ids arbitrary: k jc)
  case (Cons nid ids)
  let ?idx = "jdag_find_node (Some dag) nid"
  let ?fn = "if ?idx \<ge> 0 \<and> ?idx < n then fns ! nat ?idx else NULL"
  obtain jc1 r where p: "(if ?fn \<noteq> NULL then jc_submit_job (fst (env k)) (snd (env k)) jc (dag_ctx nid) ?fn NULL NULL else (jc, -1)) = (jc1, r)"
    by fastforce
  have s: "same_breakers jc jc1"
  proof (cases "?fn \<noteq> NULL")
    case True
    then show ?thesis using p same_breakers_submit_pair by simp
  next
    case False
    then have "jc1 = jc" using p by simp
    then show ?thesis by (simp add: same_breakers_refl)
  qed
  obtain jc2 m where q: "submit_ready env (k + 1) dag fns n ids jc1 = (jc2, m)" by fastforce
  have "fst (submit_ready env k dag fns n (nid # ids) jc) = jc2"
    unfolding submit_ready.simps Let_def p prod.case q by simp
  then show ?case using Cons.IH [of jc1 "k + 1"] q same_breakers_trans [OF s] by simp
qed (simp add: same_breakers_refl)

lemma closed_breaker_transparent:
  assumes "breakers_closed jc"
  shows "jc_submit_with_breaker now t w jc ctx fn oc ud name = (fst (jc_submit_job t w jc ctx fn oc ud), snd (jc_submit_job t w jc ctx fn oc ud), [])"
proof (cases "fn = NULL")
  case True
  then show ?thesis by (simp add: jc_submit_with_breaker_def jc_submit_job_def)
next
  case False
  show ?thesis
  proof (cases "find_idx (\<lambda>n. n = name) (jc_breaker_names jc) (length (jc_breaker_names jc))")
    case None
    then show ?thesis using False by (simp add: jc_submit_with_breaker_def split: prod.splits)
  next
    case (Some i)
    then have "i < length (jc_breakers jc)" using assms by (auto simp: breakers_closed_def)
    then have "cb_allow_request now (jc_breakers jc ! i) = (jc_breakers jc ! i, True)"
      using assms by (simp add: breakers_closed_def cb_allow_request_def)
    then show ?thesis using False Some by (simp add: jc_submit_with_breaker_def split: prod.splits)
  qed
qed

lemma jc_apply_closed:
  assumes "breakers_closed jc" "jc_apply oper jc = Inr jc'"
  shows "breakers_closed jc'"
proof -
  have "same_breakers jc jc' \<or> (\<exists>ok name. oper = Op_register_breaker ok name)"
  proof (cases oper)
    case (Op_breaker now t w ctx fn oc ud name)
    then show ?thesis using assms closed_breaker_transparent same_breakers_submit by auto
  next
    case (Op_drain envs pending timeout)
    then show ?thesis using assms(2) by (auto simp: jc_drain_def drain_loop_idle same_breakers_def)
  next
    case (Op_tick env)
    then show ?thesis using assms(2) jc_tick_keeps by (cases "jc_tick env jc") (auto simp: same_breakers_def keeps_def)
  qed (use assms(2) same_breakers_submit same_breakers_limited same_breakers_dag in
      \<open>auto simp: same_breakers_def jc_submit_dag_def jc_schedule_cron_def jc_schedule_delayed_def jc_submit_priority_def jc_start_def
         jc_stop_def jc_register_rate_limit_def jc_reset_stats_def split: prod.splits option.splits if_splits\<close>)
  moreover have ?thesis if "oper = Op_register_breaker ok name" for ok name
    using that assms by (auto simp: jc_register_breaker_def cb_create_def breakers_closed_def split: option.splits if_splits)
  ultimately show ?thesis using assms(1) same_breakers_closed by blast
qed

lemma jc_reach_closed: "jc_reach jc0 jc \<Longrightarrow> breakers_closed jc0 \<Longrightarrow> breakers_closed jc"
  by (induction rule: jc_reach.induct) (auto intro: jc_apply_closed)

lemma jc_create_closed: "jc_create a t1 t2 t3 c = Some jc \<Longrightarrow> breakers_closed jc"
  by (auto simp: jc_create_def Let_def breakers_closed_def split: option.splits if_splits)

section \<open>Freed wrappers\<close>

text \<open>The operations that store a wrapper at an address.\<close>

fun allocates :: "jc_op \<Rightarrow> ptr \<Rightarrow> bool" where
  "allocates (Op_submit t w' ctx fn oc ud) w \<longleftrightarrow> w' = w"
| "allocates (Op_breaker now t w' ctx fn oc ud name) w \<longleftrightarrow> w' = w"
| "allocates (Op_limited clk t w' ctx fn oc ud name cost) w \<longleftrightarrow> w' = w"
| "allocates (Op_dag env dag fns n) w \<longleftrightarrow> (\<exists>k. snd (env k) = w)"
| "allocates (Op_cron lt mk t now w' ctx fn spec cu) w \<longleftrightarrow> w' = w"
| "allocates (Op_delayed t clk w' ctx fn d) w \<longleftrightarrow> w' = w"
| "allocates (Op_priority t now w' ctx fn p) w \<longleftrightarrow> w' = w"
| "allocates _ w \<longleftrightarrow> False"

text \<open>A sequence of operations after which \<open>jc'\<close> is left, none of which stores a wrapper at \<open>w\<close>.\<close>

inductive jc_without :: "ptr \<Rightarrow> job_coordinator \<Rightarrow> job_coordinator \<Rightarrow> bool" for w jc0 where
  without_first: "jc_without w jc0 jc0"
| without_step: "jc_without w jc0 jc \<Longrightarrow> \<not> allocates oper w \<Longrightarrow> jc_apply oper jc = Inr jc' \<Longrightarrow> jc_without w jc0 jc'"

definition no_wrapper :: "ptr \<Rightarrow> job_coordinator \<Rightarrow> bool" where
  "no_wrapper w jc \<longleftrightarrow> jc_store jc w = None"

lemma no_wrapper_submit: "no_wrapper w jc \<Longrightarrow> w' \<noteq> w \<Longrightarrow> no_wrapper w (fst (jc_submit_job t w' jc ctx fn oc ud))"
  by (auto simp: no_wrapper_def jc_submit_job_def split: prod.splits)

lemma no_wrapper_submit_pair: "jc_submit_job t w' jc ctx fn oc ud = (jc', r) \<Longrightarrow> no_wrapper w jc \<Longrightarrow> w' \<noteq> w \<Longrightarrow> no_wrapper w jc'"
  using no_wrapper_submit by (metis fst_conv)

lemma no_wrapper_dag:
  "no_wrapper w jc \<Longrightarrow> \<forall>k. snd (env k) \<noteq> w \<Longrightarrow> no_wrapper w (fst (submit_ready env k dag fns n ids jc))"
proof (induction ids arbitrary: k jc)
  case (Cons nid ids)
  let ?idx = "jdag_find_node (Some dag) nid"
  let ?fn = "if ?idx \<ge> 0 \<and> ?idx < n then fns ! nat ?idx else NULL"
  obtain jc1 r where p: "(if ?fn \<noteq> NULL then jc_submit_job (fst (env k)) (snd (env k)) jc (dag_ctx nid) ?fn NULL NULL else (jc, -1)) = (jc1, r)"
    by fastforce
  have "no_wrapper w jc1"
  proof (cases "?fn \<noteq> NULL")
    case True
    then have "jc_submit_job (fst (env k)) (snd (env k)) jc (dag_ctx nid) ?fn NULL NULL = (jc1, r)" using p by simp
    from no_wrapper_submit_pair [OF this Cons.prems(1)] show ?thesis using Cons.prems(2) by simp
  next
    case False
    then show ?thesis using p Cons.prems(1) by simp
  qed
  moreover obtain jc2 m where q: "submit_ready env (k + 1) dag fns n ids jc1 = (jc2, m)" by fastforce
  moreover have "fst (submit_ready env k dag fns n (nid # ids) jc) = jc2"
    unfolding submit_ready.simps Let_def p prod.case q by simp
  ultimately show ?case using Cons.IH [of jc1 "k + 1"] Cons.prems(2) by simp
qed simp

lemma no_wrapper_guarded:
  assumes "no_wrapper w jc" "w' \<noteq> w"
  shows "no_wrapper w (fst (jc_submit_with_breaker now t w' jc ctx fn oc ud name))"
    "no_wrapper w (fst (jc_submit_rate_limited clk t w' jc ctx fn oc ud name cost))"
proof -
  have go: "no_wrapper w x" if "jc_submit_job t w' jc1 ctx fn oc ud = (x, r)" "no_wrapper w jc1" for jc1 x r
    using no_wrapper_submit_pair [OF that assms(2)] .
  have rej: "no_wrapper w (fst (jc_reject jc1 ctx oc ud))" if "no_wrapper w jc1" for jc1
    using that by (simp add: no_wrapper_def jc_reject_def)
  have upd: "no_wrapper w (jc\<lparr>jc_breakers := x\<rparr>)" "no_wrapper w (jc\<lparr>jc_rate_limiters := y\<rparr>)" for x y
    using assms(1) by (simp_all add: no_wrapper_def)
  show "no_wrapper w (fst (jc_submit_with_breaker now t w' jc ctx fn oc ud name))"
    using assms(1) rej upd by (auto simp: jc_submit_with_breaker_def Let_def split: option.split prod.split intro: go)
  show "no_wrapper w (fst (jc_submit_rate_limited clk t w' jc ctx fn oc ud name cost))"
    using assms(1) rej upd by (auto simp: jc_submit_rate_limited_def Let_def split: option.split prod.split intro: go)
qed

lemma jc_apply_no_wrapper:
  assumes "no_wrapper w jc" "\<not> allocates oper w" "jc_apply oper jc = Inr jc'"
  shows "no_wrapper w jc'"
proof (cases oper)
  case (Op_drain envs pending timeout)
  then show ?thesis using assms by (auto simp: jc_drain_def drain_loop_idle no_wrapper_def)
next
  case (Op_tick env)
  then show ?thesis using assms jc_tick_keeps by (cases "jc_tick env jc") (auto simp: no_wrapper_def keeps_def)
qed (use assms no_wrapper_submit no_wrapper_guarded no_wrapper_dag in
    \<open>auto simp: jc_submit_dag_def\<close>,
   auto simp: no_wrapper_def jc_schedule_cron_def jc_schedule_delayed_def jc_submit_priority_def jc_start_def
     jc_stop_def jc_register_breaker_def jc_register_rate_limit_def jc_reset_stats_def split: prod.splits option.splits if_splits)

lemma jc_without_no_wrapper: "jc_without w jc jc' \<Longrightarrow> no_wrapper w jc \<Longrightarrow> no_wrapper w jc'"
  by (induction rule: jc_without.induct) (auto intro: jc_apply_no_wrapper)

lemma run_wrappers_freed:
  "jc_store jc w = None \<Longrightarrow> w \<in> set ws \<Longrightarrow> \<forall>v \<in> set ws. \<forall>x. jc_store jc v = Some x \<longrightarrow> jw_job_fn x \<noteq> NULL \<Longrightarrow>
   run_wrappers run clk k ws jc = Inl Use_after_free"
proof (induction ws arbitrary: k jc)
  case (Cons v ws)
  show ?case
  proof (cases "jc_store jc v")
    case None
    then show ?thesis by (simp add: jc_execute_wrapper_def)
  next
    case (Some x)
    then have "jw_job_fn x \<noteq> NULL" "v \<noteq> w" using Cons.prems by auto
    then obtain jc1 ev where e: "jc_execute_wrapper run (clk k) v jc = Inr (jc1, ev)"
      using Some by (simp add: jc_execute_wrapper_def Let_def)
    have "run_wrappers run clk (k + 1) ws jc1 = Inl Use_after_free"
      using jc_execute_wrapper_Inr(2) [OF e] Cons.prems \<open>v \<noteq> w\<close> by (intro Cons.IH) (auto split: if_splits)
    then show ?thesis using e by simp
  qed
qed simp

text \<open>The wrappers that the cron jobs of a tick run.\<close>

definition cron_wrappers :: "jc_env \<Rightarrow> job_coordinator \<Rightarrow> ptr list" where
  "cron_wrappers env jc =
     (case cron_tick (env_localtime env) (env_mktime env) (jc_cron jc) (env_now env) of None \<Rightarrow> [] | Some (cr, fired, calls) \<Rightarrow> map snd calls)"

section \<open>Properties\<close>

text \<open>The loop of a tick over the delayed queue takes out exactly the live entries that are due, in the
  order of their firing times.\<close>

theorem dq_drain_exact:
  assumes "dq_inv dq" "dq_drain dq now = (dq', es)"
  shows "sorted (map dqe_fire_time es) \<and> mset es = filter_mset (\<lambda>e. \<not> dqe_cancelled e \<and> dqe_fire_time e \<le> now) (dq_items dq)"
  using assms by (rule jcd.drain_exact)

theorem dq_drain_exact_witness:
  "filter_mset (\<lambda>e. \<not> dqe_cancelled e \<and> dqe_fire_time e \<le> 7) (dq_items dq_example) = {#dq_zero_entry\<lparr>dqe_id := 1, dqe_fire_time := 5\<rparr>#}"
proof -
  have "snd (dq_drain dq_example 7) = [dq_zero_entry\<lparr>dqe_id := 1, dqe_fire_time := 5\<rparr>]" by code_simp
  then show ?thesis using dq_drain_exact [OF dq_example_inv, of 7] by (metis mset.simps prod.collapse)
qed

text \<open>Draining does no work: the ticks of its loop are refused because the coordinator is not running,
  and apart from the state nothing changes.\<close>

theorem jc_drain_runs_nothing:
  "jc_drain envs pending jc timeout_ms = Inr (jc\<lparr>jc_st := JC_STATE_STOPPED\<rparr>, [])"
  by (simp add: jc_drain_def drain_loop_idle)

text \<open>The breakers of a coordinator are inert: the coordinator never reports an outcome to them, so in every
  reachable state a submission through a breaker is the plain submission.\<close>

theorem jc_breakers_inert:
  assumes "jc_create a t1 t2 t3 c = Some jc0" "jc_reach jc0 jc"
  shows "jc_submit_with_breaker now t w jc ctx fn oc ud name =
    (fst (jc_submit_job t w jc ctx fn oc ud), snd (jc_submit_job t w jc ctx fn oc ud), [])"
  using closed_breaker_transparent jc_reach_closed jc_create_closed assms by blast

definition jc_demo0 :: job_coordinator where
  "jc_demo0 = the (jc_create \<lparr>ok_self = True, ok_pool = True, ok_tasks = True, ok_cron = True, ok_dq = True, ok_heap = True,
     ok_retry = True, ok_ps = True\<rparr> 0 0 0 None)"

definition jc_demo :: job_coordinator where
  "jc_demo = jc_start 0 (fst (jc_register_breaker True jc_demo0 (Some ''db'')))"

definition demo_ctx :: jc_job_ctx where
  "demo_ctx = \<lparr>jx_job_id = 5, jx_job_name = None, jx_job_type = None, jx_priority = 0, jx_userdata = NULL\<rparr>"

lemma jc_demo0_created:
  "jc_create \<lparr>ok_self = True, ok_pool = True, ok_tasks = True, ok_cron = True, ok_dq = True, ok_heap = True,
     ok_retry = True, ok_ps = True\<rparr> 0 0 0 None = Some jc_demo0"
  by (simp add: jc_demo0_def jc_create_def Let_def worker_pool_create_def q_init_def cron_scheduler_create_def
      delayed_queue_create_def task_retry_create_def ps_create_def)

lemma jc_demo_reached: "jc_reach jc_demo0 jc_demo"
proof -
  have "jc_apply (Op_register_breaker True (Some ''db'')) jc_demo0 = Inr (fst (jc_register_breaker True jc_demo0 (Some ''db'')))"
    "jc_apply (Op_start 0) (fst (jc_register_breaker True jc_demo0 (Some ''db''))) = Inr jc_demo" by (simp_all add: jc_demo_def)
  then show ?thesis using jc_first jc_step by metis
qed

theorem jc_breakers_inert_witness:
  "fst (snd (jc_submit_with_breaker 1 1 100 jc_demo demo_ctx 9 0 0 ''db'')) = 0"
proof -
  have "snd (jc_submit_job 1 100 jc_demo demo_ctx 9 0 0) = 0" by code_simp
  then show ?thesis using jc_breakers_inert [OF jc_demo0_created jc_demo_reached, of 1 1 100 demo_ctx 9 0 0 "''db''"] by simp
qed

text \<open>C40. A cron job can run only once: when a wrapper that a tick has run is due again in a later tick, whatever operations came
  between the two, none of which got the same address from the allocator, the later tick uses the freed memory.  The
  wrappers that the later tick runs are assumed to have a function.\<close>

theorem jc_cron_job_runs_once:
  assumes "jc_tick env1 jc = Inr (jc1, r, ev)" "jc_st jc = JC_STATE_RUNNING" "w \<in> set (cron_wrappers env1 jc)"
    and "jc_without w jc1 jc2" "jc_st jc2 = JC_STATE_RUNNING" "w \<in> set (cron_wrappers env2 jc2)"
    and "\<forall>v \<in> set (cron_wrappers env2 jc2). \<forall>x. jc_store jc2 v = Some x \<longrightarrow> jw_job_fn x \<noteq> NULL"
  shows "jc_tick env2 jc2 = Inl Use_after_free"
proof -
  obtain cr fired calls cb where "cron_tick (env_localtime env1) (env_mktime env1) (jc_cron jc) (env_now env1) = Some (cr, fired, calls)"
      "(cb, w) \<in> set calls"
    using assms(3) by (cases "cron_tick (env_localtime env1) (env_mktime env1) (jc_cron jc) (env_now env1)") (auto simp: cron_wrappers_def)
  then have "no_wrapper w jc1" using jc_tick_cron_calls [OF assms(1,2)] by (simp add: no_wrapper_def)
  then have "jc_store jc2 w = None" using jc_without_no_wrapper [OF assms(4)] by (simp add: no_wrapper_def)
  have "tick_cron env2 jc2 = Inl Use_after_free"
  proof (cases "cron_tick (env_localtime env2) (env_mktime env2) (jc_cron jc2) (env_now env2)")
    case (Some c)
    then obtain cr fired calls where c: "cron_tick (env_localtime env2) (env_mktime env2) (jc_cron jc2) (env_now env2) = Some (cr, fired, calls)"
      by (cases c) auto
    then have ws: "cron_wrappers env2 jc2 = map snd calls" by (simp add: cron_wrappers_def)
    have "run_wrappers (env_run env2) (env_clk env2) 0 (map snd calls) (jc2\<lparr>jc_cron := cr\<rparr>) = Inl Use_after_free"
      by (rule run_wrappers_freed [of _ w]) (use \<open>jc_store jc2 w = None\<close> assms(6,7) ws in auto)
    then show ?thesis using c by (simp add: tick_cron_def and_then_def)
  qed (use assms(6) in \<open>simp add: cron_wrappers_def\<close>)
  then show ?thesis using assms(5) by (simp add: jc_tick_def and_then_def)
qed

definition demo_env :: "time_t \<Rightarrow> jc_env" where
  "demo_env t = \<lparr>env_now = t, env_localtime = utc_localtime, env_mktime = utc_mktime, env_run = (\<lambda>_ _. JC_RESULT_SUCCESS),
     env_clk = (\<lambda>_. (t, t + 1)), env_ps_now = t, env_ps_wait = t\<rparr>"

definition jc_demo_cron :: job_coordinator where
  "jc_demo_cron = fst (jc_schedule_cron utc_localtime utc_mktime 0 0 100 jc_demo demo_ctx 9 (Some ''* * * * *'') False)"

definition jc_demo_fired :: job_coordinator where
  "jc_demo_fired = fst (projr (jc_tick (demo_env 60) jc_demo_cron))"

definition jc_demo_later :: job_coordinator where
  "jc_demo_later = fst (projr (jc_tick (demo_env 70) jc_demo_fired))"

theorem jc_cron_job_runs_once_witness: "jc_tick (demo_env 120) jc_demo_later = Inl Use_after_free"
proof -
  have "isl (jc_tick (demo_env 60) jc_demo_cron) = False" by code_simp
  then obtain r ev where t: "jc_tick (demo_env 60) jc_demo_cron = Inr (jc_demo_fired, r, ev)"
    by (cases "jc_tick (demo_env 60) jc_demo_cron") (auto simp: jc_demo_fired_def)
  have "isl (jc_tick (demo_env 70) jc_demo_fired) = False" by code_simp
  then have "jc_apply (Op_tick (demo_env 70)) jc_demo_fired = Inr jc_demo_later"
    by (cases "jc_tick (demo_env 70) jc_demo_fired") (auto simp: jc_demo_later_def)
  then have wo: "jc_without 100 jc_demo_fired jc_demo_later" by (rule without_step [OF without_first, rotated]) simp
  have st: "jc_st jc_demo_cron = JC_STATE_RUNNING" "jc_st jc_demo_later = JC_STATE_RUNNING" by code_simp+
  have c: "100 \<in> set (cron_wrappers (demo_env 60) jc_demo_cron)" "100 \<in> set (cron_wrappers (demo_env 120) jc_demo_later)" by code_simp+
  have "\<forall>v \<in> set (cron_wrappers (demo_env 120) jc_demo_later). jc_store jc_demo_later v = None" by code_simp
  then have f: "\<forall>v \<in> set (cron_wrappers (demo_env 120) jc_demo_later). \<forall>x. jc_store jc_demo_later v = Some x \<longrightarrow> jw_job_fn x \<noteq> NULL"
    by simp
  show ?thesis by (rule jc_cron_job_runs_once [OF t st(1) c(1) wo st(2) c(2) f])
qed

end
