(* ===== verification/Worker_Limits.thy ===== *)
theory Worker_Limits
  imports Worker_Pool
begin

text \<open>
  The concurrency limits of the worker pool.  The counter of a type counts the workers that hold one of its slots as soon as
  the type is registered and no caller of \<open>find_concurrency_index\<close> is writing to its entry or to an earlier one; this is kept by every
  step.  It is reached if the calls do not overlap, and can be missed if they do.
\<close>

section \<open>Slots and searches\<close>

text \<open>The slot a thread holds, and the type whose slot it waits for.\<close>

fun holds :: "wp_pc \<Rightarrow> nat option" where
  "holds (Start _ ci) = ci"
| "holds (Run _ ci) = ci"
| "holds (Ack _ ci) = ci"
| "holds (Release ci) = Some ci"
| "holds _ = None"

fun wants :: "wp_pc \<Rightarrow> nat option" where
  "wants (Acquire _ ci) = Some ci"
| "wants _ = None"

definition uses :: "nat \<Rightarrow> wp_thread \<Rightarrow> bool" where
  "uses ci th \<longleftrightarrow> holds (pc th) = Some ci \<or> wants (pc th) = Some ci"

definition holders :: "nat \<Rightarrow> wp_thread list \<Rightarrow> nat" where
  "holders ci ths = length (filter (\<lambda>th. holds (pc th) = Some ci) ths)"

text \<open>The searches under way, by threads and by callers; the entry that a search is about to write.\<close>

fun finding :: "wp_pc \<Rightarrow> wp_find option" where
  "finding (Find _ f) = Some f"
| "finding _ = None"

fun call_finding :: "wp_call \<Rightarrow> wp_find option" where
  "call_finding (Setting _ _ f) = Some f"
| "call_finding (Returned _) = None"

definition finders :: "wp_system \<Rightarrow> wp_find multiset" where
  "finders s = mset (List.map_filter (\<lambda>th. finding (pc th)) (threads s)) + mset (List.map_filter call_finding (callers s))"

fun target :: "wp_find \<Rightarrow> nat option" where
  "target (Count i) = Some i"
| "target (Name i) = Some i"
| "target (Set_max i) = Some i"
| "target (Set_cur i) = Some i"
| "target _ = None"

definition current :: "nat \<Rightarrow> wp_system \<Rightarrow> int" where
  "current ci s = cc_current (concurrency (pool s) ! ci)"

definition limit :: "nat \<Rightarrow> wp_system \<Rightarrow> int" where
  "limit ci s = max_concurrent (concurrency (pool s) ! ci)"

lemma filter_update_length:
  "i < length xs \<Longrightarrow>
   length (filter P (xs[i := x])) + (if P (xs ! i) then 1 else 0) = length (filter P xs) + (if P x then 1 else 0)"
proof (induction xs arbitrary: i)
  case (Cons y ys)
  then show ?case
  proof (cases i)
    case (Suc k)
    then show ?thesis using Cons.IH [of k] Cons.prems by (auto split: if_splits)
  qed simp
qed simp

lemma holders_update:
  "i < length ths \<Longrightarrow>
   int (holders ci (ths[i := th])) = int (holders ci ths) + (if holds (pc th) = Some ci then 1 else 0)
     - (if holds (pc (ths ! i)) = Some ci then 1 else 0)"
  using filter_update_length [of i ths "\<lambda>th. holds (pc th) = Some ci" th] by (simp add: holders_def split: if_splits)

lemma finders_thread:
  "i < length (threads s) \<Longrightarrow> threads s' = (threads s)[i := th] \<Longrightarrow> callers s' = callers s \<Longrightarrow>
   finders s' + opt_mset (finding (pc (threads s ! i))) = finders s + opt_mset (finding (pc th))"
  using map_filter_update [of i "threads s" "\<lambda>th. finding (pc th)" th] by (simp add: finders_def)

lemma finders_caller:
  "k < length (callers s) \<Longrightarrow> callers s' = (callers s)[k := c] \<Longrightarrow> threads s' = threads s \<Longrightarrow>
   finders s' + opt_mset (call_finding (callers s ! k)) = finders s + opt_mset (call_finding c)"
  using map_filter_update [of k "callers s" call_finding c] by (simp add: finders_def ac_simps)

section \<open>The arrays\<close>

fun find_ok :: "wp_find \<Rightarrow> bool" where
  "find_ok (Found (Some i)) \<longleftrightarrow> i < WP_MAX_JOB_TYPES"
| "find_ok (Name i) \<longleftrightarrow> i < WP_MAX_JOB_TYPES"
| "find_ok (Set_max i) \<longleftrightarrow> i < WP_MAX_JOB_TYPES"
| "find_ok (Set_cur i) \<longleftrightarrow> i < WP_MAX_JOB_TYPES"
| "find_ok _ \<longleftrightarrow> True"

text \<open>One step of a search, as the other types and the counters see it.\<close>

lemma find_step_ok:
  "find_step jt f p = (p', f') \<Longrightarrow> find_ok f \<Longrightarrow> find_ok f' \<and> length (concurrency p') = length (concurrency p)"
  by (cases "(jt, f, p)" rule: find_step.cases) (auto split: if_splits)

lemma find_step_other:
  assumes "find_step jt f p = (p', f')" "ci < job_type_count p" "\<And>j. target f = Some j \<Longrightarrow> ci < j"
  shows "ci < job_type_count p' \<and> (\<forall>j. target f' = Some j \<longrightarrow> ci < j) \<and> concurrency p' ! ci = concurrency p ! ci"
  using assms by (cases "(jt, f, p)" rule: find_step.cases) (auto split: if_splits)

definition types_inv :: "wp_system \<Rightarrow> bool" where
  "types_inv s \<longleftrightarrow> length (concurrency (pool s)) = WP_MAX_JOB_TYPES \<and> (\<forall>f \<in># finders s. find_ok f)
     \<and> (\<forall>th \<in> set (threads s). \<forall>ci. uses ci th \<longrightarrow> ci < WP_MAX_JOB_TYPES)"

text \<open>A type whose entry nobody writes and whose counter is right.\<close>

definition settled :: "nat \<Rightarrow> wp_system \<Rightarrow> bool" where
  "settled ci s \<longleftrightarrow> ci < job_type_count (pool s) \<and> (\<forall>f \<in># finders s. \<forall>j. target f = Some j \<longrightarrow> ci < j)
     \<and> current ci s = int (holders ci (threads s))"

text \<open>The steps of a thread, sorted by what they do to the types: nothing, taking a slot, giving it back, a step of the search.\<close>

inductive slot_change :: "wp_system \<Rightarrow> nat \<Rightarrow> wp_pc \<Rightarrow> wp_system \<Rightarrow> bool" for s i c' s' where
  quiet: "\<lbrakk>concurrency (pool s') = concurrency (pool s); job_type_count (pool s') = job_type_count (pool s);
     holds c' = holds (pc (threads s ! i)); \<And>ci. wants c' = Some ci \<Longrightarrow> uses ci (threads s ! i) \<or> finding (pc (threads s ! i)) = Some (Found (Some ci));
     (finding c' = None \<and> (\<forall>f. finding (pc (threads s ! i)) = Some f \<longrightarrow> target f = None)) \<or> (finding (pc (threads s ! i)) = None \<and> finding c' = Some (Scan_types 0)) \<or> (s' = s \<and> c' = pc (threads s ! i))\<rbrakk> \<Longrightarrow> slot_change s i c' s'"
| acquire: "\<lbrakk>concurrency (pool s') = concurrency (pool (upd_current ci 1 s)); job_type_count (pool s') = job_type_count (pool s);
     wants (pc (threads s ! i)) = Some ci; holds (pc (threads s ! i)) = None; finding (pc (threads s ! i)) = None; holds c' = Some ci; wants c' = None; finding c' = None;
     limit ci s = 0 \<or> current ci s < limit ci s\<rbrakk> \<Longrightarrow> slot_change s i c' s'"
| release: "\<lbrakk>concurrency (pool s') = concurrency (pool (upd_current ci (-1) s)); job_type_count (pool s') = job_type_count (pool s);
     holds (pc (threads s ! i)) = Some ci; finding (pc (threads s ! i)) = None; holds c' = None; wants c' = None; finding c' = None\<rbrakk> \<Longrightarrow> slot_change s i c' s'"
| search: "\<lbrakk>find_step jt f (pool s) = (pool s', f'); finding (pc (threads s ! i)) = Some f; finding c' = Some f'; holds c' = None; wants c' = None;
     holds (pc (threads s ! i)) = None\<rbrakk> \<Longrightarrow> slot_change s i c' s'"

lemma thread_step_change:
  assumes sl: "slots_inv s" and i: "i < length (threads s)"
  shows "\<exists>th. threads (thread_step t i s) = (threads s)[i := th] \<and> callers (thread_step t i s) = callers s
    \<and> slot_change s i (pc th) (thread_step t i s)"
proof (cases "pc (threads s ! i)")
  case (Find task f)
  then show ?thesis
  proof (rule thread_step_find [of s i task f t])
    fix p c
    assume f: "thread_step t i s = set_pc i c (s\<lparr>pool := p\<rparr>)"
      and c: "(\<exists>f'. c = Find task f' \<and> find_step (the (wt_job_type task)) f (pool s) = (p, f'))
        \<or> p = pool s \<and> f = Found None \<and> c = Start task None \<or> (\<exists>ci. p = pool s \<and> f = Found (Some ci) \<and> c = Acquire task ci)"
    from c have "slot_change s i c (thread_step t i s)"
    proof (elim disjE exE conjE)
      fix f'
      assume "c = Find task f'" "find_step (the (wt_job_type task)) f (pool s) = (p, f')"
      then show ?thesis using Find unfolding f by (intro search) auto
    qed (use Find in \<open>auto simp: f intro!: quiet\<close>)
    then show ?thesis by (intro exI [of _ "(threads s ! i)\<lparr>pc := c\<rparr>"]) (simp add: f)
  qed
next
  case (Acquire task ci)
  show ?thesis
  proof (cases "limit ci s = 0 \<or> current ci s < limit ci s")
    case True
    then show ?thesis using Acquire
      by (intro exI [of _ "(threads s ! i)\<lparr>pc := Start task (Some ci)\<rparr>"])
        (auto simp: thread_step.simps limit_def current_def intro!: acquire [where ci = ci])
  next
    case False
    then have "thread_step t i s = s" using Acquire by (auto simp: thread_step.simps limit_def current_def)
    then show ?thesis using Acquire
      by (intro exI [of _ "threads s ! i"]) (auto simp: uses_def intro!: quiet)
  qed
next
  case (Release ci)
  then show ?thesis
    by (intro exI [of _ "(threads s ! i)\<lparr>pc := Top\<rparr>"]) (auto simp: thread_step.simps intro!: release [where ci = ci])
next
  case (Start task ci)
  then obtain w where "worker_id (threads s ! i) = Some w" using start_has_slot [OF sl i] by auto
  then show ?thesis using Start
    by (intro exI [of _ "(threads s ! i)\<lparr>pc := Run task ci\<rparr>"]) (auto simp: thread_step.simps intro!: quiet)
qed (auto simp: thread_step.simps uses_def split: option.splits prod.splits intro!: exI quiet)

lemma finder_thread: "i < length (threads s) \<Longrightarrow> finding (pc (threads s ! i)) = Some f \<Longrightarrow> f \<in># finders s"
  by (force simp: finders_def List.map_filter_def)

lemma finder_caller: "k < length (callers s) \<Longrightarrow> call_finding (callers s ! k) = Some f \<Longrightarrow> f \<in># finders s"
  by (force simp: finders_def List.map_filter_def)

lemma new_finder_thread:
  assumes "i < length (threads s)" "threads s' = (threads s)[i := th]" "callers s' = callers s" "f \<in># finders s'"
  shows "f \<in># finders s \<or> finding (pc th) = Some f"
proof -
  have "f \<in># finders s + opt_mset (finding (pc th))" using assms(4) finders_thread [OF assms(1-3)] by (metis union_iff)
  then show ?thesis by (auto simp: opt_mset_def split: option.splits)
qed

lemma new_finder_caller:
  assumes "k < length (callers s)" "callers s' = (callers s)[k := c]" "threads s' = threads s" "f \<in># finders s'"
  shows "f \<in># finders s \<or> call_finding c = Some f"
proof -
  have "f \<in># finders s + opt_mset (call_finding c)" using assms(4) finders_caller [OF assms(1-3)] by (metis union_iff)
  then show ?thesis by (auto simp: opt_mset_def split: option.splits)
qed

lemma types_inv_thread:
  assumes sl: "slots_inv s" and inv: "types_inv s" and i: "i < length (threads s)"
  shows "types_inv (thread_step t i s)"
proof -
  let ?s = "thread_step t i s"
  obtain th where th: "threads ?s = (threads s)[i := th]" "callers ?s = callers s" "slot_change s i (pc th) ?s"
    using thread_step_change [OF sl i] by blast
  have old: "find_ok f" if "finding (pc (threads s ! i)) = Some f" for f
    using inv finder_thread [OF i that] by (simp add: types_inv_def)
  have olduse: "ci < WP_MAX_JOB_TYPES" if "uses ci (threads s ! i)" for ci
    using inv that nth_mem [OF i] unfolding types_inv_def by blast
  have new: "length (concurrency (pool ?s)) = WP_MAX_JOB_TYPES \<and> (\<forall>f. finding (pc th) = Some f \<longrightarrow> find_ok f)
      \<and> (\<forall>ci. uses ci th \<longrightarrow> ci < WP_MAX_JOB_TYPES)"
    using th(3)
  proof cases
    case quiet
    have "find_ok f" if "finding (pc th) = Some f" for f using quiet(5) that old by auto
    moreover have "ci < WP_MAX_JOB_TYPES" if "uses ci th" for ci
      using quiet(3,4) that olduse old by (fastforce simp: uses_def)
    ultimately show ?thesis using quiet(1) inv by (simp add: types_inv_def)
  next
    case (acquire ci)
    then show ?thesis using inv olduse [of ci] by (simp add: types_inv_def uses_def)
  next
    case (release ci)
    then show ?thesis using inv by (simp add: types_inv_def uses_def)
  next
    case (search jt f f')
    then show ?thesis using inv find_step_ok [OF search(1) old [OF search(2)]] by (simp add: types_inv_def uses_def)
  qed
  have "find_ok f" if "f \<in># finders ?s" for f
    using new_finder_thread [OF i th(1,2) that] new inv by (auto simp: types_inv_def)
  moreover have "ci < WP_MAX_JOB_TYPES" if "x \<in> set (threads ?s)" "uses ci x" for x ci
    using that th(1) new inv set_update_subset_insert by (fastforce simp: types_inv_def)
  ultimately show ?thesis using new by (simp add: types_inv_def)
qed

lemma settled_thread:
  assumes sl: "slots_inv s" and inv: "types_inv s" and i: "i < length (threads s)" and st: "settled ci s"
  shows "settled ci (thread_step t i s) \<and> limit ci (thread_step t i s) = limit ci s
    \<and> (current ci (thread_step t i s) \<le> current ci s \<or> limit ci s = 0 \<or> current ci (thread_step t i s) \<le> limit ci s)"
proof -
  let ?s = "thread_step t i s"
  obtain th where th: "threads ?s = (threads s)[i := th]" "callers ?s = callers s" "slot_change s i (pc th) ?s"
    using thread_step_change [OF sl i] by blast
  have h: "int (holders ci (threads ?s)) = int (holders ci (threads s)) + (if holds (pc th) = Some ci then 1 else 0)
     - (if holds (pc (threads s ! i)) = Some ci then 1 else 0)"
    unfolding th(1) by (rule holders_update [OF i])
  have old: "ci < j" if "finding (pc (threads s ! i)) = Some f" "target f = Some j" for f j
    using st finder_thread [OF i that(1)] that(2) by (auto simp: settled_def)
  have olduse: "c < length (concurrency (pool s))" if "uses c (threads s ! i)" for c
    using inv that nth_mem [OF i] unfolding types_inv_def by metis
  have new: "ci < job_type_count (pool ?s) \<and> (\<forall>f. finding (pc th) = Some f \<longrightarrow> (\<forall>j. target f = Some j \<longrightarrow> ci < j))
      \<and> current ci ?s = int (holders ci (threads ?s)) \<and> limit ci ?s = limit ci s
      \<and> (current ci ?s \<le> current ci s \<or> limit ci s = 0 \<or> current ci ?s \<le> limit ci s)"
    using th(3)
  proof cases
    case quiet
    have "ci < j" if "finding (pc th) = Some f" "target f = Some j" for f j using quiet(5) that old by auto
    then show ?thesis using quiet(1-3) st h by (simp add: settled_def current_def limit_def)
  next
    case (acquire c)
    then show ?thesis using st h olduse [of c] by (cases "c = ci") (auto simp: settled_def current_def limit_def uses_def)
  next
    case (release c)
    then show ?thesis using st h olduse [of c] by (cases "c = ci") (auto simp: settled_def current_def limit_def uses_def)
  next
    case (search jt f f')
    then show ?thesis using st h find_step_other [OF search(1) _ old [OF search(2)]]
      by (auto simp: settled_def current_def limit_def)
  qed
  then have "\<forall>f \<in># finders ?s. \<forall>j. target f = Some j \<longrightarrow> ci < j"
    using new_finder_thread [OF i th(1,2)] st by (auto simp: settled_def)
  then have "settled ci ?s" using new by (simp add: settled_def)
  then show ?thesis using new by blast
qed

text \<open>The same for a step of a caller, who may also set the limit.\<close>

lemma call_step_change:
  assumes k: "k < length (callers s)"
  obtains p c where "call_step k s = s\<lparr>pool := p, callers := (callers s)[k := c]\<rparr>"
    "(\<exists>jt f f'. find_step jt f (pool s) = (p, f') \<and> call_finding (callers s ! k) = Some f \<and> call_finding c = Some f')
     \<or> p = pool s \<and> call_finding c = None \<and> (\<forall>f. call_finding (callers s ! k) = Some f \<longrightarrow> target f = None)
     \<or> (\<exists>j mx. call_finding (callers s ! k) = Some (Found (Some j)) \<and> call_finding c = None \<and> job_type_count p = job_type_count (pool s)
          \<and> concurrency p = (concurrency (pool s))[j := (concurrency (pool s) ! j)\<lparr>max_concurrent := mx\<rparr>])"
proof -
  obtain p c where c: "set_limit_step (callers s ! k) (pool s) = (p, c)" by fastforce
  show thesis
  proof (cases "callers s ! k")
    case (Setting jt mx f)
    show ?thesis
    proof (cases "\<exists>r. f = Found r")
      case True
      then obtain r where "f = Found r" by blast
      then show ?thesis using that [of c p] c Setting by (cases r) (fastforce simp: call_step_def set_limit_step_def)+
    next
      case False
      then have "set_limit_step (callers s ! k) (pool s) = (case find_step jt f (pool s) of (p', f') \<Rightarrow> (p', Setting jt mx f'))"
        using Setting by (cases f) (auto simp: set_limit_step_def)
      moreover obtain p2 f' where f: "find_step jt f (pool s) = (p2, f')" by fastforce
      ultimately have "p = p2" "c = Setting jt mx f'" using c Setting by auto
      then show ?thesis using that [of c p] c Setting f by (auto simp: call_step_def)
    qed
  next
    case (Returned r)
    then have "p = pool s" "c = Returned r" using c by (simp_all add: set_limit_step_def)
    then show ?thesis using that [of c p] c Returned by (simp add: call_step_def)
  qed
qed

lemma types_inv_call:
  assumes inv: "types_inv s" and k: "k < length (callers s)"
  shows "types_inv (call_step k s)"
proof (rule call_step_change [OF k])
  fix p c
  assume s': "call_step k s = s\<lparr>pool := p, callers := (callers s)[k := c]\<rparr>"
    and p: "(\<exists>jt f f'. find_step jt f (pool s) = (p, f') \<and> call_finding (callers s ! k) = Some f \<and> call_finding c = Some f')
     \<or> p = pool s \<and> call_finding c = None \<and> (\<forall>f. call_finding (callers s ! k) = Some f \<longrightarrow> target f = None)
     \<or> (\<exists>j mx. call_finding (callers s ! k) = Some (Found (Some j)) \<and> call_finding c = None \<and> job_type_count p = job_type_count (pool s)
          \<and> concurrency p = (concurrency (pool s))[j := (concurrency (pool s) ! j)\<lparr>max_concurrent := mx\<rparr>])"
  have old: "find_ok f" if "call_finding (callers s ! k) = Some f" for f
    using inv finder_caller [OF k that] by (simp add: types_inv_def)
  from p have new: "length (concurrency p) = WP_MAX_JOB_TYPES \<and> (\<forall>f. call_finding c = Some f \<longrightarrow> find_ok f)"
    using inv old find_step_ok by (fastforce simp: types_inv_def)
  have "find_ok f" if "f \<in># finders (call_step k s)" for f
    using new_finder_caller [OF k, of "call_step k s" c f] that new inv by (auto simp: types_inv_def s')
  then show ?thesis using new inv by (simp add: types_inv_def s')
qed

lemma settled_call:
  assumes inv: "types_inv s" and k: "k < length (callers s)" and st: "settled ci s"
  shows "settled ci (call_step k s) \<and> current ci (call_step k s) = current ci s
    \<and> (call_finding (callers s ! k) = None \<longrightarrow> limit ci (call_step k s) = limit ci s)"
proof (rule call_step_change [OF k])
  fix p c
  assume s': "call_step k s = s\<lparr>pool := p, callers := (callers s)[k := c]\<rparr>"
    and p: "(\<exists>jt f f'. find_step jt f (pool s) = (p, f') \<and> call_finding (callers s ! k) = Some f \<and> call_finding c = Some f')
     \<or> p = pool s \<and> call_finding c = None \<and> (\<forall>f. call_finding (callers s ! k) = Some f \<longrightarrow> target f = None)
     \<or> (\<exists>j mx. call_finding (callers s ! k) = Some (Found (Some j)) \<and> call_finding c = None \<and> job_type_count p = job_type_count (pool s)
          \<and> concurrency p = (concurrency (pool s))[j := (concurrency (pool s) ! j)\<lparr>max_concurrent := mx\<rparr>])"
  have old: "ci < j" if "call_finding (callers s ! k) = Some f" "target f = Some j" for f j
    using st finder_caller [OF k that(1)] that(2) by (auto simp: settled_def)
  have upd: "cc_current (xs[j := (xs ! j)\<lparr>max_concurrent := mx\<rparr>] ! ci) = cc_current (xs ! ci)"
    for xs :: "wp_concurrency_limit list" and j mx
    by (cases "j = ci"; cases "ci < length xs") (auto simp: list_update_beyond)
  from p have new: "ci < job_type_count p \<and> (\<forall>f. call_finding c = Some f \<longrightarrow> (\<forall>j. target f = Some j \<longrightarrow> ci < j))
      \<and> cc_current (concurrency p ! ci) = current ci s \<and> (call_finding (callers s ! k) = None \<longrightarrow> max_concurrent (concurrency p ! ci) = limit ci s)"
  proof (elim disjE exE conjE)
    fix jt f f'
    assume f: "find_step jt f (pool s) = (p, f')" "call_finding (callers s ! k) = Some f" "call_finding c = Some f'"
    from find_step_other [OF f(1) _ old [OF f(2)]] show ?thesis
      using st f(3) by (auto simp: settled_def current_def limit_def)
  qed (use st upd in \<open>auto simp: settled_def current_def limit_def\<close>)
  have "\<forall>f \<in># finders (call_step k s). \<forall>j. target f = Some j \<longrightarrow> ci < j"
    using new_finder_caller [OF k, of "call_step k s" c] new st by (auto simp: settled_def s')
  then show ?thesis using new st by (simp add: settled_def s' current_def limit_def)
qed

section \<open>Calls that do not overlap\<close>

text \<open>The systems reached with at most one search under way at any time.\<close>

inductive wp_alone :: "worker_pool \<Rightarrow> wp_system \<Rightarrow> bool" for p where
  alone_boot: "wp_alone p (boot p)"
| alone_step: "wp_alone p s \<Longrightarrow> size (finders (sys_step l s)) \<le> 1 \<Longrightarrow> wp_alone p (sys_step l s)"

fun alone_ok :: "nat \<Rightarrow> wp_find \<Rightarrow> bool" where
  "alone_ok n Take \<longleftrightarrow> n < WP_MAX_JOB_TYPES"
| "alone_ok n (Count i) \<longleftrightarrow> i = n \<and> n < WP_MAX_JOB_TYPES"
| "alone_ok n (Name i) \<longleftrightarrow> Suc i = n"
| "alone_ok n (Set_max i) \<longleftrightarrow> Suc i = n"
| "alone_ok n (Set_cur i) \<longleftrightarrow> Suc i = n"
| "alone_ok n (Found (Some i)) \<longleftrightarrow> i < n"
| "alone_ok n Overrun \<longleftrightarrow> False"
| "alone_ok n _ \<longleftrightarrow> True"

definition used :: "nat \<Rightarrow> wp_thread list \<Rightarrow> bool" where
  "used ci ths \<longleftrightarrow> (\<exists>th \<in> set ths. uses ci th)"

definition alone_inv :: "wp_system \<Rightarrow> bool" where
  "alone_inv s \<longleftrightarrow> size (finders s) \<le> 1 \<and> job_type_count (pool s) \<le> WP_MAX_JOB_TYPES
     \<and> (\<forall>f \<in># finders s. alone_ok (job_type_count (pool s)) f)
     \<and> (\<forall>ci. used ci (threads s) \<longrightarrow> ci < job_type_count (pool s) \<and> (\<forall>f \<in># finders s. target f \<noteq> Some ci))
     \<and> (\<forall>ci < job_type_count (pool s). (\<forall>f \<in># finders s. target f \<noteq> Some ci) \<longrightarrow> current ci s = int (holders ci (threads s)))"

lemma unused_holders: "\<not> used ci ths \<Longrightarrow> holders ci ths = 0"
  by (auto simp: used_def uses_def holders_def filter_empty_conv)

lemma find_alone:
  assumes "find_step jt f p = (p', f')" "alone_ok (job_type_count p) f" "job_type_count p \<le> WP_MAX_JOB_TYPES" "length (concurrency p) = WP_MAX_JOB_TYPES"
  shows "job_type_count p \<le> job_type_count p' \<and> job_type_count p' \<le> WP_MAX_JOB_TYPES \<and> alone_ok (job_type_count p') f'
    \<and> (\<forall>ci < job_type_count p. target f \<noteq> Some ci \<longrightarrow> target f' \<noteq> Some ci)
    \<and> (\<forall>ci < job_type_count p'. target f' \<noteq> Some ci \<longrightarrow>
         (if target f = Some ci then cc_current (concurrency p' ! ci) = 0
          else ci < job_type_count p \<and> cc_current (concurrency p' ! ci) = cc_current (concurrency p ! ci)))"
  using assms by (cases "(jt, f, p)" rule: find_step.cases) (auto simp: less_Suc_eq nth_list_update split: if_splits)

lemma alone_search:
  assumes inv: "alone_inv s" and len: "length (concurrency (pool s)) = WP_MAX_JOB_TYPES"
    and f: "finders s = {#f#}" "finders s' = {#f'#}" "find_step jt f (pool s) = (pool s', f')"
    and th: "\<And>ci. holders ci (threads s') = holders ci (threads s)" "\<And>ci. used ci (threads s') \<Longrightarrow> used ci (threads s)"
  shows "alone_inv s'"
proof -
  let ?n = "job_type_count (pool s)" and ?n' = "job_type_count (pool s')"
  have c: "?n \<le> ?n'" "?n' \<le> WP_MAX_JOB_TYPES" "alone_ok ?n' f'" "\<forall>ci < ?n. target f \<noteq> Some ci \<longrightarrow> target f' \<noteq> Some ci"
    "\<forall>ci < ?n'. target f' \<noteq> Some ci \<longrightarrow> (if target f = Some ci then current ci s' = 0 else ci < ?n \<and> current ci s' = current ci s)"
    using find_alone [OF f(3)] inv f(1) len by (auto simp: alone_inv_def current_def)
  have old: "used ci (threads s) \<longrightarrow> ci < ?n \<and> target f \<noteq> Some ci" for ci
    using inv f(1) by (simp add: alone_inv_def)
  have "current ci s' = int (holders ci (threads s'))" if "ci < ?n'" "target f' \<noteq> Some ci" for ci
  proof (cases "target f = Some ci")
    case True
    then have "holders ci (threads s) = 0" using old unused_holders by blast
    then show ?thesis using c(5) that True th(1) by simp
  next
    case False
    then have "ci < ?n" "current ci s' = current ci s" using c(5) that by auto
    then show ?thesis using inv f(1) False th(1) by (simp add: alone_inv_def)
  qed
  moreover have "ci < ?n' \<and> target f' \<noteq> Some ci" if "used ci (threads s')" for ci
    using old [of ci] th(2) [OF that] c(1,4) by auto
  ultimately show ?thesis using c(2,3) f(2) by (simp add: alone_inv_def)
qed

text \<open>A step that only takes away the search.\<close>

lemma alone_other:
  assumes inv: "alone_inv s" and f: "finders s' = finders s \<or> finders s' = {#} \<and> (\<forall>f \<in># finders s. target f = None)
      \<or> finders s = {#} \<and> finders s' = {#Scan_types 0#}"
    and n: "job_type_count (pool s') = job_type_count (pool s)"
    and use: "\<And>ci. used ci (threads s') \<Longrightarrow> used ci (threads s) \<or> Found (Some ci) \<in># finders s \<and> finders s' = {#}"
    and cur: "\<And>ci. ci < job_type_count (pool s) \<Longrightarrow>
      current ci s' - int (holders ci (threads s')) = current ci s - int (holders ci (threads s))"
  shows "alone_inv s'"
proof -
  have t: "(\<forall>g \<in># finders s'. target g \<noteq> Some ci) \<longleftrightarrow> (\<forall>g \<in># finders s. target g \<noteq> Some ci)" for ci using f by auto
  have ok: "\<forall>g \<in># finders s'. alone_ok (job_type_count (pool s)) g" "size (finders s') \<le> 1"
    using f inv by (auto simp: alone_inv_def)
  have "ci < job_type_count (pool s) \<and> (\<forall>g \<in># finders s'. target g \<noteq> Some ci)" if "used ci (threads s')" for ci
    using use [OF that]
  proof
    assume "used ci (threads s)"
    then show ?thesis using inv t by (simp add: alone_inv_def)
  next
    assume "Found (Some ci) \<in># finders s \<and> finders s' = {#}"
    then show ?thesis using inv unfolding alone_inv_def by fastforce
  qed
  moreover have "current ci s' = int (holders ci (threads s'))"
    if "ci < job_type_count (pool s)" "\<forall>g \<in># finders s'. target g \<noteq> Some ci" for ci
    using cur [OF that(1)] that inv t by (simp add: alone_inv_def)
  ultimately show ?thesis using ok inv n by (simp add: alone_inv_def)
qed

lemma single: "size M \<le> (1 :: nat) \<Longrightarrow> x \<in># M \<Longrightarrow> M = {#x#}"
  by (metis One_nat_def Suc_le_mono insert_DiffM le_zero_eq size_Suc_Diff1 size_eq_0_iff_empty)

lemma used_update: "i < length ths \<Longrightarrow> used ci (ths[i := th]) \<Longrightarrow> used ci ths \<or> uses ci th"
  unfolding used_def using set_update_subset_insert by fastforce

lemma alone_thread:
  assumes inv: "alone_inv s" and sl: "slots_inv s" and ty: "types_inv s" and i: "i < length (threads s)"
    and one: "size (finders (thread_step t i s)) \<le> 1"
  shows "alone_inv (thread_step t i s)"
proof -
  let ?s = "thread_step t i s" and ?old = "pc (threads s ! i)"
  obtain th where th: "threads ?s = (threads s)[i := th]" "callers ?s = callers s" "slot_change s i (pc th) ?s"
    using thread_step_change [OF sl i] by blast
  have h: "int (holders ci (threads ?s)) = int (holders ci (threads s)) + (if holds (pc th) = Some ci then 1 else 0)
     - (if holds ?old = Some ci then 1 else 0)" for ci
    unfolding th(1) by (rule holders_update [OF i])
  have fd: "finders ?s + opt_mset (finding ?old) = finders s + opt_mset (finding (pc th))"
    by (rule finders_thread [OF i th(1,2)])
  have sz: "size (finders s) \<le> 1" using inv by (simp add: alone_inv_def)
  have len: "length (concurrency (pool s)) = WP_MAX_JOB_TYPES" using ty by (simp add: types_inv_def)
  have olduse: "used ci (threads s)" if "uses ci (threads s ! i)" for ci using that i by (auto simp: used_def)
  have us: "used ci (threads s) \<or> uses ci th" if "used ci (threads ?s)" for ci using used_update [OF i] that th(1) by metis
  have bound: "c < WP_MAX_JOB_TYPES" if "uses c (threads s ! i)" for c
    using ty that nth_mem [OF i] unfolding types_inv_def by blast
  have gone: "finders s = {#f#} \<and> finders ?s = opt_mset (finding (pc th))" if "finding ?old = Some f" for f
    using single [OF sz finder_thread [OF i that]] fd that by (simp add: opt_mset_def)
  from th(3) show ?thesis
  proof cases
    case quiet
    have ncur: "current ci ?s - int (holders ci (threads ?s)) = current ci s - int (holders ci (threads s))" for ci
      using quiet(1,3) h [of ci] by (simp add: current_def)
    show ?thesis
    proof (cases "finding ?old")
      case None
      then have f: "finders ?s = finders s + opt_mset (finding (pc th))" using fd by (simp add: opt_mset_def)
      have "used ci (threads s)" if "used ci (threads ?s)" for ci
        using us [OF that] quiet(3,4) None olduse by (fastforce simp: uses_def)
      moreover have "finders ?s = finders s \<or> finders s = {#} \<and> finders ?s = {#Scan_types 0#}"
        using quiet(5) None f one by (auto simp: opt_mset_def)
      ultimately show ?thesis by (intro alone_other [OF inv _ quiet(2) _ ncur]) auto
    next
      case (Some f)
      note g = gone [OF Some]
      show ?thesis
      proof (cases "finding (pc th)")
        case None
        have old: "\<not> uses ci (threads s ! i)" for ci using Some by (cases ?old) (auto simp: uses_def)
        have "holds (pc th) = None" using quiet(3) Some by (cases ?old) auto
        then have "used ci (threads s) \<or> f = Found (Some ci)" if "used ci (threads ?s)" for ci
          using us [OF that] quiet(4) [of ci] old Some by (auto simp: uses_def)
        moreover have "target f = None" using quiet(5) Some None by auto
        ultimately show ?thesis using g None by (intro alone_other [OF inv _ quiet(2) _ ncur]) (auto simp: opt_mset_def)
      next
        case s: (Some f')
        then have "?s = s" using quiet(5) Some by auto
        then show ?thesis using inv by simp
      qed
    qed
  next
    case (acquire c)
    have f: "finders ?s = finders s" using fd acquire(5,8) by (simp add: opt_mset_def)
    have c: "uses c (threads s ! i)" using acquire(3) by (simp add: uses_def)
    have "used ci (threads s)" if "used ci (threads ?s)" for ci
      using us [OF that] acquire(6,7) olduse [OF c] by (auto simp: uses_def)
    moreover have "current ci ?s - int (holders ci (threads ?s)) = current ci s - int (holders ci (threads s))" for ci
      using acquire(1,4,6) h [of ci] bound [OF c] len by (cases "ci = c") (auto simp: current_def)
    ultimately show ?thesis by (intro alone_other [OF inv _ acquire(2)]) (auto simp: f)
  next
    case (release c)
    have f: "finders ?s = finders s" using fd release(4,7) by (simp add: opt_mset_def)
    have c: "uses c (threads s ! i)" using release(3) by (simp add: uses_def)
    have "used ci (threads s)" if "used ci (threads ?s)" for ci
      using us [OF that] release(5,6) by (auto simp: uses_def)
    moreover have "current ci ?s - int (holders ci (threads ?s)) = current ci s - int (holders ci (threads s))" for ci
      using release(1,3,5) h [of ci] bound [OF c] len by (cases "ci = c") (auto simp: current_def)
    ultimately show ?thesis by (intro alone_other [OF inv _ release(2)]) (auto simp: f)
  next
    case (search jt f f')
    have "finders s = {#f#}" "finders ?s = {#f'#}" using gone [OF search(2)] search(3) by (simp_all add: opt_mset_def)
    moreover have "holders ci (threads ?s) = holders ci (threads s)" for ci using h [of ci] search(4,6) by simp
    moreover have "used ci (threads s)" if "used ci (threads ?s)" for ci
      using us [OF that] search(4,5) by (auto simp: uses_def)
    ultimately show ?thesis using alone_search [OF inv len _ _ search(1)] by blast
  qed
qed

lemma alone_call:
  assumes inv: "alone_inv s" and ty: "types_inv s" and k: "k < length (callers s)"
  shows "alone_inv (call_step k s)"
proof (rule call_step_change [OF k])
  fix p c
  let ?s = "call_step k s" and ?old = "call_finding (callers s ! k)"
  assume s': "?s = s\<lparr>pool := p, callers := (callers s)[k := c]\<rparr>"
    and p: "(\<exists>jt f f'. find_step jt f (pool s) = (p, f') \<and> ?old = Some f \<and> call_finding c = Some f')
     \<or> p = pool s \<and> call_finding c = None \<and> (\<forall>f. ?old = Some f \<longrightarrow> target f = None)
     \<or> (\<exists>j mx. ?old = Some (Found (Some j)) \<and> call_finding c = None \<and> job_type_count p = job_type_count (pool s)
          \<and> concurrency p = (concurrency (pool s))[j := (concurrency (pool s) ! j)\<lparr>max_concurrent := mx\<rparr>])"
  have fd: "finders ?s + opt_mset ?old = finders s + opt_mset (call_finding c)"
    by (rule finders_caller [OF k]) (simp_all add: s')
  have sz: "size (finders s) \<le> 1" using inv by (simp add: alone_inv_def)
  have len: "length (concurrency (pool s)) = WP_MAX_JOB_TYPES" using ty by (simp add: types_inv_def)
  have gone: "finders s = {#f#} \<and> finders ?s = opt_mset (call_finding c)" if "?old = Some f" for f
    using single [OF sz finder_caller [OF k that]] fd that by (simp add: opt_mset_def)
  have upd: "cc_current (xs[j := (xs ! j)\<lparr>max_concurrent := mx\<rparr>] ! ci) = cc_current (xs ! ci)"
    for xs :: "wp_concurrency_limit list" and j mx ci
    by (cases "j = ci"; cases "ci < length xs") (auto simp: list_update_beyond)
  from p show "alone_inv ?s"
  proof (elim disjE exE conjE)
    fix jt f f'
    assume f: "find_step jt f (pool s) = (p, f')" "?old = Some f" "call_finding c = Some f'"
    then have "finders s = {#f#}" "finders ?s = {#f'#}" "find_step jt f (pool s) = (pool ?s, f')" using gone by (simp_all add: opt_mset_def s')
    then show ?thesis by (rule alone_search [OF inv len]) (simp_all add: s')
  next
    assume e: "p = pool s" "call_finding c = None" "\<forall>f. ?old = Some f \<longrightarrow> target f = None"
    show ?thesis
    proof (cases ?old)
      case None
      then have "finders ?s = finders s" using fd e by (simp add: opt_mset_def)
      then show ?thesis by (intro alone_other [OF inv]) (simp_all add: s' e current_def)
    next
      case (Some f)
      then show ?thesis using gone [OF Some] e by (intro alone_other [OF inv]) (auto simp: s' current_def opt_mset_def)
    qed
  next
    fix j mx
    assume e: "?old = Some (Found (Some j))" "call_finding c = None" "job_type_count p = job_type_count (pool s)"
      "concurrency p = (concurrency (pool s))[j := (concurrency (pool s) ! j)\<lparr>max_concurrent := mx\<rparr>]"
    then show ?thesis using gone [OF e(1)] upd by (intro alone_other [OF inv]) (auto simp: s' current_def opt_mset_def)
  qed
qed

lemma types_inv_cong:
  "types_inv s \<Longrightarrow> threads s' = threads s \<Longrightarrow> callers s' = callers s \<Longrightarrow> concurrency (pool s') = concurrency (pool s) \<Longrightarrow> types_inv s'"
  by (simp add: types_inv_def finders_def)

lemma settled_cong:
  "threads s' = threads s \<Longrightarrow> callers s' = callers s \<Longrightarrow> concurrency (pool s') = concurrency (pool s) \<Longrightarrow>
   job_type_count (pool s') = job_type_count (pool s) \<Longrightarrow> settled ci s' = settled ci s \<and> limit ci s' = limit ci s"
  by (simp add: settled_def finders_def current_def limit_def)

lemma alone_inv_cong:
  "alone_inv s \<Longrightarrow> threads s' = threads s \<Longrightarrow> callers s' = callers s \<Longrightarrow> concurrency (pool s') = concurrency (pool s) \<Longrightarrow>
   job_type_count (pool s') = job_type_count (pool s) \<Longrightarrow> alone_inv s'"
  by (simp add: alone_inv_def finders_def current_def)

text \<open>The steps that do not concern the types.\<close>

definition other_label :: "wp_label \<Rightarrow> bool" where
  "other_label l \<longleftrightarrow> (case l of L_thread _ _ \<Rightarrow> False | L_call _ \<Rightarrow> False | L_limit _ _ \<Rightarrow> False | _ \<Rightarrow> True)"

lemma label_cases:
  obtains (thread) i t where "l = L_thread i t" | (call) k where "l = L_call k" | (set_limit) jt mx where "l = L_limit jt mx" | (other) "other_label l"
  by (cases l) (auto simp: other_label_def)

lemma other_steps:
  "other_label l \<Longrightarrow> threads (sys_step l s) = threads s \<and> callers (sys_step l s) = callers s
    \<and> concurrency (pool (sys_step l s)) = concurrency (pool s) \<and> job_type_count (pool (sys_step l s)) = job_type_count (pool s)"
  by (cases l)
    (simp_all add: other_label_def submit_step_def wp_shutdown_def wp_shutdown_begin_def wp_shutdown_end_def split: prod.split)

lemma finders_begin: "finders (s\<lparr>callers := callers s @ [c]\<rparr>) = finders s + opt_mset (call_finding c)"
  by (simp add: finders_def opt_mset_def List.map_filter_def split: option.split)

lemma begin_call: "call_finding (wp_set_concurrency_limit jt mx) = None \<or> call_finding (wp_set_concurrency_limit jt mx) = Some (Scan_types 0)"
  by (simp add: wp_set_concurrency_limit_def split: option.split)

lemma types_inv_step:
  assumes "types_inv s" "slots_inv s"
  shows "types_inv (sys_step l s)"
proof (cases l rule: label_cases)
  case (thread i t)
  then show ?thesis using types_inv_thread [OF assms(2,1)] assms(1) by simp
next
  case (call k)
  then show ?thesis using types_inv_call [OF assms(1)] assms(1) by simp
next
  case (set_limit jt mx)
  then show ?thesis using assms(1) begin_call [of jt mx] by (auto simp: types_inv_def finders_begin opt_mset_def)
qed (use other_steps [of l s] types_inv_cong [OF assms(1)] in blast)

lemma alone_inv_step:
  assumes "alone_inv s" "types_inv s" "slots_inv s" "size (finders (sys_step l s)) \<le> 1"
  shows "alone_inv (sys_step l s)"
proof (cases l rule: label_cases)
  case (thread i t)
  then show ?thesis using alone_thread [OF assms(1,3,2), of i t] assms(1,4) by (cases "i < length (threads s)") simp_all
next
  case (call k)
  then show ?thesis using alone_call [OF assms(1,2)] assms(1) by simp
next
  case (set_limit jt mx)
  let ?c = "wp_set_concurrency_limit jt mx"
  have f: "finders (sys_step l s) = finders s + opt_mset (call_finding ?c)" using set_limit by (simp add: finders_begin)
  have "finders (sys_step l s) = finders s \<or> finders s = {#} \<and> finders (sys_step l s) = {#Scan_types 0#}"
    using begin_call [of jt mx] assms(4) f by (auto simp: opt_mset_def)
  then show ?thesis using set_limit by (intro alone_other [OF assms(1)]) (auto simp: current_def)
qed (use other_steps [of l s] alone_inv_cong [OF assms(1)] in blast)

lemma boot_types:
  assumes "worker_pool_create ok1 ok2 cfg = Some p"
  shows "types_inv (boot p)" "alone_inv (boot p)"
proof -
  have p: "concurrency p = replicate WP_MAX_JOB_TYPES \<lparr>max_concurrent = 0, cc_current = 0\<rparr>" "job_type_count p = 0"
    using assms by (auto simp: worker_pool_create_def Let_def split: option.splits if_splits)
  have f: "finders (boot p) = {#}" by (simp add: finders_def boot_def List.map_filter_def)
  have u: "\<not> used ci (threads (boot p))" for ci by (auto simp: boot_def used_def uses_def)
  show "types_inv (boot p)" using f u p by (auto simp: types_inv_def used_def) (simp add: boot_def)
  show "alone_inv (boot p)" using f u p by (simp add: alone_inv_def boot_def)
qed

lemma wp_alone_inv:
  assumes "wp_alone p s" "worker_pool_create ok1 ok2 cfg = Some p"
  shows "sys_inv s \<and> types_inv s \<and> alone_inv s"
  using assms(1)
proof (induction rule: wp_alone.induct)
  case alone_boot
  show ?case using created_pool [OF assms(2)] boot_types [OF assms(2)] by simp
next
  case (alone_step s l)
  then show ?case using sys_step_inv types_inv_step alone_inv_step by (simp add: sys_inv_def)
qed

section \<open>The limit\<close>

definition no_limit :: "wp_label \<Rightarrow> bool" where
  "no_limit l = (case l of L_limit _ _ \<Rightarrow> False | _ \<Rightarrow> True)"

text \<open>Nobody is setting a limit, the type is settled and within its limit.\<close>

definition under_limit :: "nat \<Rightarrow> nat \<Rightarrow> wp_system \<Rightarrow> bool" where
  "under_limit ci mx s \<longleftrightarrow> sys_inv s \<and> types_inv s \<and> (\<forall>c \<in> set (callers s). call_finding c = None)
     \<and> settled ci s \<and> limit ci s = int mx \<and> holders ci (threads s) \<le> mx"

lemma under_limit_step:
  assumes u: "under_limit ci mx s" and mx: "0 < mx" and l: "no_limit l"
  shows "under_limit ci mx (sys_step l s)"
proof -
  have inv: "sys_inv (sys_step l s)" "types_inv (sys_step l s)" and sl: "slots_inv s" and ty: "types_inv s" and st: "settled ci s"
    using u sys_step_inv types_inv_step by (auto simp: under_limit_def sys_inv_def)
  have "(\<forall>c \<in> set (callers (sys_step l s)). call_finding c = None)
      \<and> settled ci (sys_step l s) \<and> limit ci (sys_step l s) = int mx \<and> holders ci (threads (sys_step l s)) \<le> mx"
  proof (cases l rule: label_cases)
    case (thread i t)
    show ?thesis
    proof (cases "i < length (threads s)")
      case True
      note t = settled_thread [OF sl ty True st, of t]
      have "callers (thread_step t i s) = callers s" using thread_step_change [OF sl True] by blast
      then show ?thesis using t st u mx thread True by (auto simp: under_limit_def settled_def)
    qed (use u thread in \<open>simp add: under_limit_def\<close>)
  next
    case (call k)
    show ?thesis
    proof (cases "k < length (callers s)")
      case True
      then have none: "call_finding (callers s ! k) = None" using u by (simp add: under_limit_def)
      then obtain r where "callers s ! k = Returned r" by (cases "callers s ! k") auto
      then have "call_step k s = s\<lparr>callers := (callers s)[k := Returned r]\<rparr>" by (simp add: call_step_def set_limit_step_def)
      then have "call_step k s = s" using \<open>callers s ! k = Returned r\<close> by (metis list_update_id wp_system.surjective wp_system.update_convs(3))
      then show ?thesis using u call True by (simp add: under_limit_def)
    qed (use u call in \<open>simp add: under_limit_def\<close>)
  next
    case (set_limit jt mx)
    then show ?thesis using l by (simp add: no_limit_def)
  next
    case other
    note o = other_steps [OF other, of s]
    then show ?thesis using u settled_cong [of "sys_step l s" s ci] by (simp add: under_limit_def)
  qed
  then show ?thesis using inv by (simp add: under_limit_def)
qed

lemma under_limit_run: "under_limit ci mx s \<Longrightarrow> 0 < mx \<Longrightarrow> list_all no_limit ls \<Longrightarrow> under_limit ci mx (fold sys_step ls s)"
  by (induction ls arbitrary: s) (auto simp: under_limit_step)

lemma alone_under_limit:
  assumes "worker_pool_create ok1 ok2 cfg = Some p" "wp_alone p s" "finders s = {#}" "ci < job_type_count (pool s)"
    "limit ci s = int mx" "holders ci (threads s) \<le> mx"
  shows "under_limit ci mx s"
proof -
  have "call_finding c = None" if c: "c \<in> set (callers s)" for c
  proof -
    obtain k where "k < length (callers s)" "callers s ! k = c" using c by (auto simp: in_set_conv_nth)
    then show ?thesis using finder_caller [of k s] assms(3) by (cases "call_finding c") auto
  qed
  then show ?thesis using wp_alone_inv [OF assms(2,1)] assms(3-6) by (simp add: under_limit_def settled_def alone_inv_def)
qed

text \<open>C8. A concurrency limit is respected.  Take a pool in which the searches for a type, by workers and by callers of
  \<open>wp_set_concurrency_limit\<close>, have not overlapped so far and none is under way, and a registered type with a positive limit that is not
  exceeded.  Whatever the workers, submitters and shutdowns do from then on, in whatever interleaving, as long as no limit is set again, the
  number of workers between taking and giving back a slot of that type stays within the limit.\<close>

theorem wp_limit_respected:
  assumes "worker_pool_create ok1 ok2 cfg = Some p" "wp_alone p s" "finders s = {#}" "ci < job_type_count (pool s)"
    "limit ci s = int mx" "0 < mx" "holders ci (threads s) \<le> mx" "list_all no_limit ls"
  shows "holders ci (threads (fold sys_step ls s)) \<le> mx"
  using under_limit_run [OF alone_under_limit [OF assms(1-5,7)] assms(6,8)] by (simp add: under_limit_def)

text \<open>One worker runs an email task, two more are queued, and the limit is one.\<close>

fun alone_states :: "wp_label list \<Rightarrow> wp_system \<Rightarrow> bool" where
  "alone_states [] s \<longleftrightarrow> True"
| "alone_states (l # ls) s \<longleftrightarrow> size (finders (sys_step l s)) \<le> 1 \<and> alone_states ls (sys_step l s)"

lemma wp_alone_fold: "alone_states ls s \<Longrightarrow> wp_alone p s \<Longrightarrow> wp_alone p (fold sys_step ls s)"
proof (induction ls arbitrary: s)
  case (Cons l ls)
  then show ?case using alone_step [of p s l] by simp
qed simp

theorem wp_limit_respected_witness:
  "holders 0 (threads (fold sys_step (concat (replicate 9 [L_thread 0 1, L_thread 1 1])) (fold sys_step email_run (boot two_workers)))) \<le> 1"
proof -
  let ?s = "fold sys_step email_run (boot two_workers)"
  have "alone_states email_run (boot two_workers)" by code_simp
  from wp_alone_fold [OF this alone_boot] have a: "wp_alone two_workers ?s" .
  have "finders ?s = {#}" "0 < job_type_count (pool ?s)" "limit 0 ?s = int 1" "holders 0 (threads ?s) \<le> 1"
    "list_all no_limit (concat (replicate 9 [L_thread 0 1, L_thread 1 1]))"
    by code_simp+
  then show ?thesis using wp_limit_respected [OF two_workers_created a, of 0 1] by simp
qed

text \<open>Calls that overlap can break a limit: one worker has registered the type and is about to clear its counter when a client
  sets the limit to one and the other worker takes the slot; then the first worker clears the counter and takes a slot too.\<close>

definition overlap_run :: "wp_label list" where
  "overlap_run = [L_submit (job_of 7 ''email''), L_submit (job_of 8 ''email'')] @ replicate 10 (L_thread 0 0) @ [L_limit (Some ''email'') 1]
     @ replicate 2 (L_call 0) @ replicate 8 (L_thread 1 0) @ replicate 4 (L_thread 0 0)"

theorem wp_limit_race:
  "\<exists>s. wp_reach two_workers overlap_run s \<and> limit 0 s = 1 \<and> holders 0 (threads s) = 2"
proof -
  let ?s = "fold sys_step overlap_run (boot two_workers)"
  have "limit 0 ?s = 1" "holders 0 (threads ?s) = 2" by code_simp+
  then show ?thesis using wp_reach_fold [of two_workers overlap_run] by blast
qed

end
