(* ===== verification/Consistent_Hash.thy ===== *)
theory Consistent_Hash
  imports Prelude
begin

unbundle bit_operations_syntax

text \<open>
  The consistent-hashing ring of \<open>src/mini-business-infra/src/consistent_hash.c\<close>: every physical node owns a
  number of virtual nodes, kept sorted by hash; a key belongs to the first virtual node at or after its
  own hash, around the ring.

  \<open>qsort\<close> of the C library is a parameter: it returns a permutation of its argument sorted by hash, equal hashes in
  any order.  The counts of the C arrays are the lengths of the lists.
\<close>

section \<open>Data and hashing\<close>

definition CH_MAX_NODE_LEN :: nat where "CH_MAX_NODE_LEN = 128"
definition CH_DEFAULT_VIRTUAL_NODES :: nat where "CH_DEFAULT_VIRTUAL_NODES = 150"
definition CH_MAX_VIRTUAL_NODES :: nat where "CH_MAX_VIRTUAL_NODES = 4096"

record ch_vnode =
  vn_hash :: u32
  vn_idx :: nat

record ch_ring =
  virtual_count :: nat
  physical_capacity :: nat
  physical_names :: "string list"
  vnodes :: "ch_vnode list"
  vnode_capacity :: nat

definition ch_mix32 :: "u32 \<Rightarrow> u32" where
  "ch_mix32 h0 =
     (let h1 = h0 XOR drop_bit 16 h0;
          h2 = h1 * 0x85ebca6b;
          h3 = h2 XOR drop_bit 13 h2;
          h4 = h3 * 0xc2b2ae35
      in h4 XOR drop_bit 16 h4)"

definition ch_hash_key :: "string \<Rightarrow> u32" where
  "ch_hash_key key = ch_mix32 (foldl (\<lambda>h c. (h XOR of_char c) * 0x01000193) 0x811c9dc5 key)"

definition ch_hash_vnode :: "u32 \<Rightarrow> nat \<Rightarrow> u32" where
  "ch_hash_vnode base replica = ch_mix32 (base XOR (of_nat replica * 0x9e3779b9))"

section \<open>Operations\<close>

text \<open>The loop of the binary search, over indices that may become -1.\<close>

function ch_bsearch :: "ch_vnode list \<Rightarrow> u32 \<Rightarrow> int \<Rightarrow> int \<Rightarrow> int" where
  "ch_bsearch vs h lo hi =
     (if lo \<le> hi then
        let mid = (lo + hi) div 2
        in if vn_hash (vs ! nat mid) < h then ch_bsearch vs h (mid + 1) hi else ch_bsearch vs h lo (mid - 1)
      else lo)"
  by pat_completeness auto
termination by (relation "measure (\<lambda>(_, _, lo, hi). nat (hi - lo + 1))") auto

declare ch_bsearch.simps [simp del]

definition ch_find_vnode :: "ch_ring \<Rightarrow> u32 \<Rightarrow> int" where
  "ch_find_vnode ring h =
     (if vnodes ring = [] then -1
      else let lo = ch_bsearch (vnodes ring) h 0 (int (length (vnodes ring)) - 1)
           in if lo \<ge> int (length (vnodes ring)) then 0 else lo)"

definition ch_ring_create :: "bool \<Rightarrow> bool \<Rightarrow> bool \<Rightarrow> int \<Rightarrow> ch_ring option" where
  "ch_ring_create ok ok_names ok_vnodes virtual_nodes_per_physical =
     (if \<not> ok then None
      else
        let vc0 = (if virtual_nodes_per_physical > 0 then nat virtual_nodes_per_physical else CH_DEFAULT_VIRTUAL_NODES);
            vc = (if vc0 > CH_MAX_VIRTUAL_NODES then CH_MAX_VIRTUAL_NODES else vc0)
        in if \<not> ok_names \<or> \<not> ok_vnodes then None
           else Some \<lparr>virtual_count = vc, physical_capacity = 16, physical_names = [], vnodes = [], vnode_capacity = 16 * vc\<rparr>)"

definition mk_vnodes :: "nat \<Rightarrow> string \<Rightarrow> nat \<Rightarrow> ch_vnode list" where
  "mk_vnodes vc name idx = map (\<lambda>v. \<lparr>vn_hash = ch_hash_vnode (ch_hash_key name) v, vn_idx = idx\<rparr>) [0..<vc]"

text \<open>The outcomes of the two reallocations and of the copy of the name are arguments.\<close>

definition ch_ring_add_node :: "(ch_vnode list \<Rightarrow> ch_vnode list) \<Rightarrow> bool \<Rightarrow> bool \<Rightarrow> bool \<Rightarrow> ch_ring \<Rightarrow> string \<Rightarrow> ch_ring \<times> int" where
  "ch_ring_add_node qsort ok_names ok_dup ok_vnodes ring name =
     (if name \<in> set (physical_names ring) then (ring, 0)
      else if length (physical_names ring) \<ge> physical_capacity ring \<and> \<not> ok_names then (ring, -1)
      else
        let r1 = (if length (physical_names ring) \<ge> physical_capacity ring
                  then ring\<lparr>physical_capacity := physical_capacity ring * 2\<rparr> else ring)
        in if \<not> ok_dup then (r1, -1)
           else
             let idx = length (physical_names r1);
                 r2 = r1\<lparr>physical_names := physical_names r1 @ [name]\<rparr>;
                 needed = length (vnodes r2) + virtual_count r2;
                 r3 = (if needed > vnode_capacity r2 then r2\<lparr>vnode_capacity := needed * 2\<rparr> else r2)
             in if needed > vnode_capacity r2 \<and> \<not> ok_vnodes then (r3, -1)
                else (r3\<lparr>vnodes := qsort (vnodes r3 @ mk_vnodes (virtual_count r3) name idx)\<rparr>, 0))"

definition drop_idx :: "nat \<Rightarrow> ch_vnode \<Rightarrow> ch_vnode" where
  "drop_idx t v = (if vn_idx v > t then v\<lparr>vn_idx := vn_idx v - 1\<rparr> else v)"

definition ch_ring_remove_node :: "(ch_vnode list \<Rightarrow> ch_vnode list) \<Rightarrow> ch_ring \<Rightarrow> string \<Rightarrow> ch_ring \<times> int" where
  "ch_ring_remove_node qsort ring name =
     (case find_idx (\<lambda>n. n = name) (physical_names ring) (length (physical_names ring)) of
        None \<Rightarrow> (ring, -1)
      | Some t \<Rightarrow>
          (ring\<lparr>physical_names := take t (physical_names ring) @ drop (t + 1) (physical_names ring),
                vnodes := qsort (map (drop_idx t) (filter (\<lambda>v. vn_idx v \<noteq> t) (vnodes ring)))\<rparr>, 0))"

definition ch_ring_get_node :: "ch_ring \<Rightarrow> string \<Rightarrow> string option" where
  "ch_ring_get_node ring key =
     (if vnodes ring = [] then None
      else let idx = ch_find_vnode ring (ch_hash_key key);
               pi = vn_idx (vnodes ring ! nat idx)
           in Some (strncpy_buf CH_MAX_NODE_LEN (physical_names ring ! pi)))"

text \<open>The scan around the ring for further nodes: the positions left, the marks, the nodes found.\<close>

fun replica_scan :: "ch_ring \<Rightarrow> nat \<Rightarrow> nat list \<Rightarrow> bool list \<Rightarrow> nat list \<Rightarrow> nat list" where
  "replica_scan ring req [] seen out = out"
| "replica_scan ring req (vi # vis) seen out =
     (if length out < req then
        let pi = vn_idx (vnodes ring ! vi)
        in if \<not> seen ! pi then replica_scan ring req vis (seen[pi := True]) (out @ [pi]) else replica_scan ring req vis seen out
      else out)"

definition ch_ring_get_nodes :: "bool \<Rightarrow> ch_ring \<Rightarrow> string \<Rightarrow> int \<Rightarrow> int \<times> string list" where
  "ch_ring_get_nodes ok ring key req_n =
     (if req_n \<le> 0 then (-1, [])
      else if vnodes ring = [] then (0, [])
      else
        let n = length (physical_names ring);
            req = (if req_n > int n then n else nat req_n);
            start = ch_find_vnode ring (ch_hash_key key);
            vc = length (vnodes ring)
        in if \<not> ok then (-1, [])
           else
             let out = replica_scan ring req (map (\<lambda>i. (nat start + i) mod vc) [0..<vc]) (replicate n False) []
             in (int (length out), map (\<lambda>pi. strncpy_buf CH_MAX_NODE_LEN (physical_names ring ! pi)) out))"

definition ch_ring_size :: "ch_ring option \<Rightarrow> nat" where
  "ch_ring_size h = (case h of Some r \<Rightarrow> length (physical_names r) | None \<Rightarrow> 0)"

definition ch_ring_virtual_size :: "ch_ring option \<Rightarrow> nat" where
  "ch_ring_virtual_size h = (case h of Some r \<Rightarrow> length (vnodes r) | None \<Rightarrow> 0)"

definition ch_ring_list_nodes :: "ch_ring \<Rightarrow> int \<Rightarrow> int \<times> string list" where
  "ch_ring_list_nodes ring max_count =
     (let n = (if int (length (physical_names ring)) < max_count then int (length (physical_names ring)) else max_count)
      in (n, map (strncpy_buf CH_MAX_NODE_LEN) (take (nat n) (physical_names ring))))"

definition all_vnodes :: "nat \<Rightarrow> string list \<Rightarrow> ch_vnode list" where
  "all_vnodes vc names = concat (map (\<lambda>i. mk_vnodes vc (names ! i) i) [0..<length names])"

text \<open>The growth of the array while the ring is rebuilt: the result of \<open>realloc\<close> is not checked, so a failed one
  is a write through a null pointer, \<open>None\<close>.  \<open>ok n\<close> is the outcome with \<open>n\<close> nodes left after the current one.\<close>

fun grow_capacity :: "(nat \<Rightarrow> bool) \<Rightarrow> nat \<Rightarrow> nat \<Rightarrow> nat \<Rightarrow> nat \<Rightarrow> nat option" where
  "grow_capacity ok vc used cap 0 = Some cap"
| "grow_capacity ok vc used cap (Suc n) =
     (if used + vc > cap
      then (if ok n then grow_capacity ok vc (used + vc) ((used + vc) * 2) n else None)
      else grow_capacity ok vc (used + vc) cap n)"

definition ch_ring_rebalance :: "(ch_vnode list \<Rightarrow> ch_vnode list) \<Rightarrow> (nat \<Rightarrow> bool) \<Rightarrow> ch_ring \<Rightarrow> ch_ring option" where
  "ch_ring_rebalance qsort ok ring =
     (if physical_names ring = [] then Some ring
      else case grow_capacity ok (virtual_count ring) 0 (vnode_capacity ring) (length (physical_names ring)) of
             None \<Rightarrow> None
           | Some cap \<Rightarrow> Some (ring\<lparr>vnode_capacity := cap, vnodes := qsort (all_vnodes (virtual_count ring) (physical_names ring))\<rparr>))"

section \<open>Sorting\<close>

text \<open>What \<open>qsort\<close> promises.\<close>

locale vnode_sort =
  fixes qsort :: "ch_vnode list \<Rightarrow> ch_vnode list"
  assumes qsort_mset: "mset (qsort vs) = mset vs"
    and qsort_sorted: "sorted (map vn_hash (qsort vs))"
begin

lemma qsort_set: "set (qsort vs) = set vs"
  using qsort_mset by (rule mset_eq_setD)

lemma qsort_id:
  assumes "sorted (map vn_hash vs)" "distinct (map vn_hash vs)"
  shows "qsort vs = vs"
proof -
  have inj: "inj_on vn_hash (set vs)" using assms(2) by (simp add: distinct_map)
  have "sort_key vn_hash (qsort vs) = vs" "sort_key vn_hash (qsort vs) = qsort vs"
    using sort_key_inj_key_eq [of "qsort vs" vs vn_hash] sort_key_inj_key_eq [of "qsort vs" "qsort vs" vn_hash]
      inj assms(1) qsort_sorted qsort_mset qsort_set by (auto simp: distinct_map)
  then show ?thesis by simp
qed

lemma qsort_unique:
  assumes "mset us = mset vs" "distinct (map vn_hash vs)"
  shows "qsort us = qsort vs"
proof -
  have "distinct (map vn_hash (qsort vs))" using assms(2) qsort_mset [of vs]
    by (metis mset_eq_imp_distinct_iff mset_map)
  moreover have "mset (qsort us) = mset (qsort vs)" using assms(1) qsort_mset by simp
  ultimately show ?thesis
    using sort_key_inj_key_eq [of "qsort us" "qsort vs" vn_hash] sort_key_inj_key_eq [of "qsort us" "qsort us" vn_hash]
      qsort_sorted by (metis distinct_map mset_eq_setD)
qed

end

interpretation chs: vnode_sort "sort_key vn_hash"
  by unfold_locales simp_all

section \<open>Binary search\<close>

text \<open>The part of a sorted array below a hash, and the part at or above it.\<close>

definition below :: "ch_vnode list \<Rightarrow> u32 \<Rightarrow> int \<Rightarrow> bool" where
  "below vs h k = (\<forall>i. int i < k \<longrightarrow> vn_hash (vs ! i) < h)"

definition at_above :: "ch_vnode list \<Rightarrow> u32 \<Rightarrow> int \<Rightarrow> bool" where
  "at_above vs h k = (\<forall>i. k \<le> int i \<and> i < length vs \<longrightarrow> h \<le> vn_hash (vs ! i))"

lemma below_extend:
  assumes "sorted (map vn_hash vs)" "vn_hash (vs ! k) < h" "k < length vs"
  shows "below vs h (int k + 1)"
  unfolding below_def
proof (intro allI impI)
  fix i assume "int i < int k + 1"
  then have "vn_hash (vs ! i) \<le> vn_hash (vs ! k)" using sorted_nth_mono [OF assms(1), of i k] assms(3) by simp
  then show "vn_hash (vs ! i) < h" using assms(2) by simp
qed

lemma at_above_extend:
  assumes "sorted (map vn_hash vs)" "h \<le> vn_hash (vs ! k)"
  shows "at_above vs h (int k)"
  unfolding at_above_def
proof (intro allI impI)
  fix i assume "int k \<le> int i \<and> i < length vs"
  then have "vn_hash (vs ! k) \<le> vn_hash (vs ! i)" using sorted_nth_mono [OF assms(1), of k i] by simp
  then show "h \<le> vn_hash (vs ! i)" using assms(2) by simp
qed

lemma ch_bsearch_spec:
  "sorted (map vn_hash vs) \<Longrightarrow> 0 \<le> lo \<Longrightarrow> lo \<le> hi + 1 \<Longrightarrow> hi < int (length vs) \<Longrightarrow> below vs h lo \<Longrightarrow> at_above vs h (hi + 1) \<Longrightarrow>
   0 \<le> ch_bsearch vs h lo hi \<and> ch_bsearch vs h lo hi \<le> int (length vs) \<and>
   below vs h (ch_bsearch vs h lo hi) \<and> at_above vs h (ch_bsearch vs h lo hi)"
proof (induction vs h lo hi rule: ch_bsearch.induct)
  case (1 vs h lo hi)
  show ?case
  proof (cases "lo \<le> hi")
    case False
    then have "ch_bsearch vs h lo hi = lo" "lo = hi + 1" using "1.prems"(3) by (simp_all add: ch_bsearch.simps)
    then show ?thesis using "1.prems"(2,4,5,6) by simp
  next
    case True
    define mid where "mid = (lo + hi) div 2"
    have m: "lo \<le> mid" "mid \<le> hi" using True by (auto simp: mid_def)
    have k: "0 \<le> mid" "nat mid < length vs" "int (nat mid) = mid" using m "1.prems"(2,4) by auto
    show ?thesis
    proof (cases "vn_hash (vs ! nat mid) < h")
      case less: True
      have e: "ch_bsearch vs h lo hi = ch_bsearch vs h (mid + 1) hi"
        using True less by (subst ch_bsearch.simps) (simp add: mid_def)
      have "below vs h (mid + 1)" using below_extend [OF "1.prems"(1) less k(2)] k(3) by simp
      then show ?thesis unfolding e
        using "1.IH"(1) [OF True mid_def less "1.prems"(1)] "1.prems"(4,6) k(1) m(2) by simp
    next
      case ge: False
      have e: "ch_bsearch vs h lo hi = ch_bsearch vs h lo (mid - 1)"
        using True ge by (subst ch_bsearch.simps) (simp add: mid_def)
      have "at_above vs h mid" using at_above_extend [OF "1.prems"(1), of h "nat mid"] ge k(3) by simp
      then show ?thesis unfolding e
        using "1.IH"(2) [OF True mid_def ge "1.prems"(1)] "1.prems"(2,4,5) m k(1) by simp
    qed
  qed
qed

text \<open>The owner of a hash on a ring: the first virtual node at or after it, or the first of all.\<close>

definition owner :: "ch_vnode list \<Rightarrow> u32 \<Rightarrow> ch_vnode" where
  "owner vs h = (case filter (\<lambda>v. h \<le> vn_hash v) vs of v # _ \<Rightarrow> v | [] \<Rightarrow> vs ! 0)"

lemma ch_find_vnode_owner:
  assumes "sorted (map vn_hash (vnodes r))" "vnodes r \<noteq> []"
  shows "0 \<le> ch_find_vnode r h" "ch_find_vnode r h < int (length (vnodes r))" "vnodes r ! nat (ch_find_vnode r h) = owner (vnodes r) h"
proof -
  let ?vs = "vnodes r"
  define l where "l = ch_bsearch ?vs h 0 (int (length ?vs) - 1)"
  have "below ?vs h 0" "at_above ?vs h (int (length ?vs) - 1 + 1)" by (auto simp: below_def at_above_def)
  then have sp: "0 \<le> l" "l \<le> int (length ?vs)" "below ?vs h l" "at_above ?vs h l"
    using ch_bsearch_spec [OF assms(1), of 0 "int (length ?vs) - 1" h] by (auto simp: l_def)
  have f: "ch_find_vnode r h = (if l \<ge> int (length ?vs) then 0 else l)" using assms(2) by (simp add: ch_find_vnode_def l_def Let_def)
  then show "0 \<le> ch_find_vnode r h" "ch_find_vnode r h < int (length ?vs)" using sp(1) assms(2) by auto
  have "filter (\<lambda>v. h \<le> vn_hash v) (take (nat l) ?vs) = []" using sp(3) by (fastforce simp: below_def filter_empty_conv in_set_conv_nth zless_nat_eq_int_zless not_le)
  moreover have "filter (\<lambda>v. h \<le> vn_hash v) (drop (nat l) ?vs) = drop (nat l) ?vs"
    using sp(1,4) by (auto simp: at_above_def filter_id_conv in_set_conv_nth)
  ultimately have "filter (\<lambda>v. h \<le> vn_hash v) ?vs = drop (nat l) ?vs"
    by (metis append_take_drop_id filter_append append_Nil)
  then show "?vs ! nat (ch_find_vnode r h) = owner ?vs h"
    using f sp(1) by (auto simp: owner_def Cons_nth_drop_Suc [symmetric] not_le)
qed

lemma owner_in: "vs \<noteq> [] \<Longrightarrow> owner vs h \<in> set vs"
proof (cases "filter (\<lambda>v. h \<le> vn_hash v) vs")
  case (Cons v us)
  then have "v \<in> set vs" using filter_is_subset [of "\<lambda>v. h \<le> vn_hash v" vs] by auto
  then show ?thesis using Cons by (simp add: owner_def)
qed (simp add: owner_def)

text \<open>The heart of consistent hashing: taking away virtual nodes leaves the owner in place if it stays.\<close>

lemma owner_filter:
  assumes "P (owner vs h)" "vs \<noteq> []"
  shows "owner (filter P vs) h = owner vs h"
proof (cases "filter (\<lambda>v. h \<le> vn_hash v) vs")
  case Nil
  then have "filter (\<lambda>v. h \<le> vn_hash v) (filter P vs) = []" by (auto simp: filter_empty_conv)
  moreover have "filter P vs ! 0 = vs ! 0" using assms Nil by (cases vs) (auto simp: owner_def)
  ultimately show ?thesis using Nil by (simp add: owner_def)
next
  case (Cons v us)
  then have "P v" using assms(1) by (simp add: owner_def)
  have "filter (\<lambda>v. h \<le> vn_hash v) (filter P vs) = filter P (filter (\<lambda>v. h \<le> vn_hash v) vs)" by (simp add: conj_commute)
  then show ?thesis using Cons \<open>P v\<close> by (simp add: owner_def)
qed

lemma owner_map:
  assumes "\<And>v. vn_hash (f v) = vn_hash v" "vs \<noteq> []"
  shows "owner (map f vs) h = f (owner vs h)"
  using assms by (simp add: owner_def filter_map comp_def split: list.splits)

section \<open>The virtual nodes of a list of names\<close>

text \<open>The virtual nodes of names numbered from \<open>k\<close>.\<close>

primrec vn_from :: "nat \<Rightarrow> nat \<Rightarrow> string list \<Rightarrow> ch_vnode list" where
  "vn_from vc k [] = []"
| "vn_from vc k (n # ns) = mk_vnodes vc n k @ vn_from vc (Suc k) ns"

lemma vn_from_concat: "vn_from vc k ns = concat (map (\<lambda>i. mk_vnodes vc (ns ! i) (k + i)) [0..<length ns])"
proof (induction ns arbitrary: k)
  case (Cons n ns)
  have "[0..<length (n # ns)] = 0 # map Suc [0..<length ns]" by (metis map_Suc_upt upt_conv_Cons zero_less_Suc length_Cons)
  then show ?case using Cons.IH [of "Suc k"] by (simp add: comp_def)
qed simp

lemma all_vnodes_from: "all_vnodes vc ns = vn_from vc 0 ns"
  by (simp add: all_vnodes_def vn_from_concat)

lemma vn_from_append: "vn_from vc k (xs @ ys) = vn_from vc k xs @ vn_from vc (k + length xs) ys"
  by (induction xs arbitrary: k) simp_all

lemma mk_vnodes_idx: "v \<in> set (mk_vnodes vc n k) \<Longrightarrow> vn_idx v = k"
  by (auto simp: mk_vnodes_def)

lemma length_mk_vnodes [simp]: "length (mk_vnodes vc n k) = vc"
  by (simp add: mk_vnodes_def)

lemma length_vn_from [simp]: "length (vn_from vc k ns) = length ns * vc"
  by (induction ns arbitrary: k) simp_all

lemma set_vn_from:
  "set (vn_from vc k ns) = {\<lparr>vn_hash = ch_hash_vnode (ch_hash_key (ns ! i)) v, vn_idx = k + i\<rparr> | i v. i < length ns \<and> v < vc}"
  by (auto simp: vn_from_concat mk_vnodes_def)

lemma vn_from_idx: "v \<in> set (vn_from vc k ns) \<Longrightarrow> k \<le> vn_idx v \<and> vn_idx v < k + length ns"
  by (auto simp: set_vn_from)

lemma vn_from_idx_image: "0 < vc \<Longrightarrow> vn_idx ` set (vn_from vc k ns) = {k..<k + length ns}"
proof (induction ns arbitrary: k)
  case (Cons n ns)
  have "vn_idx ` set (mk_vnodes vc n k) = {k}" using Cons.prems by (auto simp: mk_vnodes_def image_image)
  then show ?case using Cons.IH [OF Cons.prems, of "Suc k"] by (auto simp: image_Un)
qed simp

lemma drop_idx_hash [simp]: "vn_hash (drop_idx t v) = vn_hash v"
  by (simp add: drop_idx_def)

lemma drop_idx_id: "vn_idx v \<le> t \<Longrightarrow> drop_idx t v = v"
  by (simp add: drop_idx_def)

lemma drop_idx_mk: "t \<le> k \<Longrightarrow> map (drop_idx t) (mk_vnodes vc n (Suc k)) = mk_vnodes vc n k"
  by (simp add: mk_vnodes_def drop_idx_def)

lemma drop_idx_from: "t \<le> k \<Longrightarrow> map (drop_idx t) (vn_from vc (Suc k) ns) = vn_from vc k ns"
  by (induction ns arbitrary: k) (simp_all add: drop_idx_mk)

text \<open>Dropping one name from the list is what the removal does to the virtual nodes.\<close>

lemma vn_from_remove:
  "map (drop_idx (length xs)) (filter (\<lambda>v. vn_idx v \<noteq> length xs) (vn_from vc 0 (xs @ x # ys))) = vn_from vc 0 (xs @ ys)"
proof -
  have "filter (\<lambda>v. vn_idx v \<noteq> length xs) (vn_from vc 0 xs) = vn_from vc 0 xs"
    "filter (\<lambda>v. vn_idx v \<noteq> length xs) (mk_vnodes vc x (length xs)) = []"
    "filter (\<lambda>v. vn_idx v \<noteq> length xs) (vn_from vc (Suc (length xs)) ys) = vn_from vc (Suc (length xs)) ys"
    by (auto simp: filter_id_conv filter_empty_conv dest: vn_from_idx mk_vnodes_idx)
  moreover have "map (drop_idx (length xs)) (vn_from vc 0 xs) = vn_from vc 0 xs"
    by (intro map_idI drop_idx_id) (auto dest: vn_from_idx)
  ultimately show ?thesis by (simp add: vn_from_append drop_idx_from)
qed

lemma vn_from_add: "vn_from vc 0 (ns @ [x]) = vn_from vc 0 ns @ mk_vnodes vc x (length ns)"
  by (simp add: vn_from_append)

section \<open>The invariant\<close>

definition ch_ok :: "ch_ring \<Rightarrow> bool" where
  "ch_ok r = (0 < virtual_count r \<and> virtual_count r \<le> CH_MAX_VIRTUAL_NODES \<and> distinct (physical_names r)
     \<and> length (physical_names r) \<le> physical_capacity r \<and> 0 < physical_capacity r
     \<and> sorted (map vn_hash (vnodes r)) \<and> mset (vnodes r) = mset (vn_from (virtual_count r) 0 (physical_names r))
     \<and> length (vnodes r) \<le> vnode_capacity r)"

lemma ch_okD:
  assumes "ch_ok r"
  shows "0 < virtual_count r" "distinct (physical_names r)" "sorted (map vn_hash (vnodes r))"
    "mset (vnodes r) = mset (vn_from (virtual_count r) 0 (physical_names r))"
    "set (vnodes r) = set (vn_from (virtual_count r) 0 (physical_names r))"
    "length (vnodes r) = length (physical_names r) * virtual_count r" "length (vnodes r) \<le> vnode_capacity r"
proof -
  show "mset (vnodes r) = mset (vn_from (virtual_count r) 0 (physical_names r))" using assms by (simp add: ch_ok_def)
  from mset_eq_setD [OF this] mset_eq_length [OF this]
  show "set (vnodes r) = set (vn_from (virtual_count r) 0 (physical_names r))"
    "length (vnodes r) = length (physical_names r) * virtual_count r" by simp_all
qed (use assms in \<open>simp_all add: ch_ok_def\<close>)

lemma ch_ok_nonempty: "ch_ok r \<Longrightarrow> vnodes r = [] \<longleftrightarrow> physical_names r = []"
  using ch_okD(1,6) [of r] by (metis length_0_conv mult_is_0 not_less0)

lemma ch_ring_create_ok: "ch_ring_create a b c n = Some r \<Longrightarrow> ch_ok r"
  by (auto simp: ch_ring_create_def ch_ok_def CH_MAX_VIRTUAL_NODES_def CH_DEFAULT_VIRTUAL_NODES_def Let_def split: if_splits)

text \<open>What a completed addition does.\<close>

lemma ch_ring_add_node_fresh:
  fixes qsort
  assumes "name \<notin> set (physical_names r)" "length (physical_names r) < physical_capacity r \<or> a" "ch_ok r"
  defines "r' \<equiv> fst (ch_ring_add_node qsort a True True r name)"
  shows "physical_names r' = physical_names r @ [name]" "virtual_count r' = virtual_count r"
    "vnodes r' = qsort (vnodes r @ mk_vnodes (virtual_count r) name (length (physical_names r)))"
    "length (physical_names r) < physical_capacity r'" "length (vnodes r) + virtual_count r \<le> vnode_capacity r'"
    "snd (ch_ring_add_node qsort a True True r name) = 0"
proof -
  have "0 < physical_capacity r" "length (physical_names r) \<le> physical_capacity r" using assms(3) by (simp_all add: ch_ok_def)
  then show "physical_names r' = physical_names r @ [name]" "virtual_count r' = virtual_count r"
    "vnodes r' = qsort (vnodes r @ mk_vnodes (virtual_count r) name (length (physical_names r)))"
    "length (physical_names r) < physical_capacity r'" "length (vnodes r) + virtual_count r \<le> vnode_capacity r'"
    "snd (ch_ring_add_node qsort a True True r name) = 0"
    using assms(1,2) by (auto simp: r'_def ch_ring_add_node_def Let_def)
qed

text \<open>An addition that fails before the virtual nodes, or finds the name, leaves names and virtual nodes alone.\<close>

lemma ch_ring_add_node_early:
  fixes qsort c
  assumes "name \<in> set (physical_names r) \<or> (length (physical_names r) \<ge> physical_capacity r \<and> \<not> a) \<or> \<not> b"
  defines "r' \<equiv> fst (ch_ring_add_node qsort a b c r name)"
  shows "physical_names r' = physical_names r" "virtual_count r' = virtual_count r" "vnodes r' = vnodes r"
    "vnode_capacity r' = vnode_capacity r" "physical_capacity r \<le> physical_capacity r'"
  using assms(1) by (auto simp: r'_def ch_ring_add_node_def Let_def)

lemma split_at_index: "t < length xs \<Longrightarrow> xs = take t xs @ xs ! t # drop (t + 1) xs"
  by (simp add: id_take_nth_drop)

context vnode_sort
begin

lemma ch_ring_add_node_ok:
  assumes ok: "ch_ok r"
  shows "ch_ok (fst (ch_ring_add_node qsort a b True r name))"
proof -
  define ws where "ws = qsort (vnodes r @ mk_vnodes (virtual_count r) name (length (physical_names r)))"
  have m: "mset ws = mset (vn_from (virtual_count r) 0 (physical_names r @ [name]))"
    using ch_okD(4) [OF ok] by (simp add: ws_def qsort_mset vn_from_add)
  have s: "sorted (map vn_hash ws)" by (simp add: ws_def qsort_sorted)
  have l: "length ws = length (vnodes r) + virtual_count r"
    using mset_eq_length [OF m] ch_okD(6) [OF ok] by simp
  show ?thesis
  proof (cases "name \<in> set (physical_names r) \<or> (length (physical_names r) \<ge> physical_capacity r \<and> \<not> a) \<or> \<not> b")
    case True
    then show ?thesis using ok ch_ring_add_node_early [OF True, of qsort True] by (simp add: ch_ok_def)
  next
    case False
    then have b "name \<notin> set (physical_names r)" "length (physical_names r) < physical_capacity r \<or> a" by auto
    with ch_ring_add_node_fresh [OF this(2,3) ok, of qsort] show ?thesis
      using ok m s l by (simp add: ch_ok_def ws_def)
  qed
qed

lemma ch_ring_remove_node_ok:
  assumes "ch_ok r"
  shows "ch_ok (fst (ch_ring_remove_node qsort r name))"
proof (cases "find_idx (\<lambda>n. n = name) (physical_names r) (length (physical_names r))")
  case (Some t)
  then have t: "t < length (physical_names r)" by auto
  define xs ys where "xs = take t (physical_names r)" and "ys = drop (t + 1) (physical_names r)"
  have ns: "physical_names r = xs @ physical_names r ! t # ys" "t = length xs"
    using split_at_index [OF t] t by (simp_all add: xs_def ys_def)
  note D = assms [unfolded ch_ok_def]
  define ws where "ws = map (drop_idx t) (filter (\<lambda>v. vn_idx v \<noteq> t) (vnodes r))"
  have "mset ws = mset (map (drop_idx t) (filter (\<lambda>v. vn_idx v \<noteq> t) (vn_from (virtual_count r) 0 (physical_names r))))"
    using D by (simp add: ws_def mset_map mset_filter)
  also have "\<dots> = mset (vn_from (virtual_count r) 0 (xs @ ys))"
    using vn_from_remove [of xs "virtual_count r" "physical_names r ! t" ys] ns by metis
  finally have "mset (qsort ws) = mset (vn_from (virtual_count r) 0 (xs @ ys))" by (simp add: qsort_mset)
  moreover have "length ws \<le> length (vnodes r)" by (simp add: ws_def)
  then have "length (qsort ws) \<le> vnode_capacity r" using D mset_eq_length [OF qsort_mset] by simp
  moreover have "distinct (xs @ physical_names r ! t # ys)" "length (xs @ physical_names r ! t # ys) \<le> physical_capacity r"
    using D ns(1) by simp_all
  then have "distinct (xs @ ys)" "length (xs @ ys) \<le> physical_capacity r" by auto
  ultimately show ?thesis using D Some
    by (simp add: ch_ring_remove_node_def ch_ok_def qsort_sorted ws_def xs_def ys_def)
qed (use assms in \<open>simp add: ch_ring_remove_node_def\<close>)

end

text \<open>On a well-formed ring the rebuild needs no memory and yields the same virtual nodes, in some order of equal hashes.\<close>

lemma grow_capacity_enough: "used + n * vc \<le> cap \<Longrightarrow> grow_capacity ok vc used cap n = Some cap"
  by (induction n arbitrary: used) simp_all

lemma ch_ring_rebalance_ok:
  assumes "ch_ok r"
  shows "ch_ring_rebalance qsort ok r =
    Some (if physical_names r = [] then r else r\<lparr>vnodes := qsort (vn_from (virtual_count r) 0 (physical_names r))\<rparr>)"
proof -
  have "grow_capacity ok (virtual_count r) 0 (vnode_capacity r) (length (physical_names r)) = Some (vnode_capacity r)"
    using ch_okD(6,7) [OF assms] by (intro grow_capacity_enough) simp
  then show ?thesis by (simp add: ch_ring_rebalance_def all_vnodes_from)
qed

text \<open>The rings the interface can build, as long as the array of virtual nodes can grow.\<close>

inductive ch_reach :: "(ch_vnode list \<Rightarrow> ch_vnode list) \<Rightarrow> ch_ring \<Rightarrow> bool" for qsort where
  create: "ch_ring_create a b c n = Some r \<Longrightarrow> ch_reach qsort r"
| add: "ch_reach qsort r \<Longrightarrow> ch_reach qsort (fst (ch_ring_add_node qsort a b True r name))"
| remove: "ch_reach qsort r \<Longrightarrow> ch_reach qsort (fst (ch_ring_remove_node qsort r name))"
| rebalance: "ch_reach qsort r \<Longrightarrow> ch_ring_rebalance qsort ok r = Some r' \<Longrightarrow> ch_reach qsort r'"

context vnode_sort
begin

lemma ch_reach_ok: "ch_reach qsort r \<Longrightarrow> ch_ok r"
proof (induction rule: ch_reach.induct)
  case (rebalance r ok r')
  then have "r' = (if physical_names r = [] then r else r\<lparr>vnodes := qsort (vn_from (virtual_count r) 0 (physical_names r))\<rparr>)"
    using ch_ring_rebalance_ok [of r qsort ok] by (simp split: if_splits)
  moreover have "length (qsort (vn_from (virtual_count r) 0 (physical_names r))) \<le> vnode_capacity r"
    using mset_eq_length [OF qsort_mset] ch_okD(6,7) [OF rebalance.IH] by simp
  ultimately show ?case using rebalance.IH by (simp add: ch_ok_def qsort_mset qsort_sorted)
qed (auto intro: ch_ring_create_ok ch_ring_add_node_ok ch_ring_remove_node_ok)

lemma sorted_mset_unique:
  fixes us vs :: "ch_vnode list"
  assumes "mset us = mset vs" "sorted (map vn_hash us)" "sorted (map vn_hash vs)" "distinct (map vn_hash vs)"
  shows "us = vs"
proof -
  have "distinct (map vn_hash us)" using mset_eq_imp_distinct_iff [of "map vn_hash us" "map vn_hash vs"] assms(1,4) by simp
  then have "qsort us = us" by (rule qsort_id [OF assms(2)])
  moreover have "qsort vs = vs" by (rule qsort_id [OF assms(3,4)])
  ultimately show ?thesis using qsort_unique [OF assms(1,4)] by metis
qed

lemma rebalance_identity:
  assumes "ch_ok r" "distinct (map vn_hash (vnodes r))"
  shows "ch_ring_rebalance qsort ok r = Some r"
proof -
  have "qsort (vn_from (virtual_count r) 0 (physical_names r)) = vnodes r"
    using ch_okD(3,4) [OF assms(1)] assms(2) by (intro sorted_mset_unique) (simp_all add: qsort_mset qsort_sorted)
  then show ?thesis using ch_ring_rebalance_ok [OF assms(1), of qsort ok] by simp
qed

end

section \<open>Lookup\<close>

lemma ch_ring_get_node_owner:
  assumes "ch_ok r"
  shows "ch_ring_get_node r key =
    (if physical_names r = [] then None
     else Some (strncpy_buf CH_MAX_NODE_LEN (physical_names r ! vn_idx (owner (vnodes r) (ch_hash_key key)))))"
  using ch_find_vnode_owner(3) [OF ch_okD(3) [OF assms]] ch_ok_nonempty [OF assms]
  by (simp add: ch_ring_get_node_def Let_def)

lemma owner_point:
  assumes "ch_ok r" "physical_names r \<noteq> []"
  obtains i v where "i < length (physical_names r)" "v < virtual_count r"
    "owner (vnodes r) h = \<lparr>vn_hash = ch_hash_vnode (ch_hash_key (physical_names r ! i)) v, vn_idx = i\<rparr>"
proof -
  have "owner (vnodes r) h \<in> set (vn_from (virtual_count r) 0 (physical_names r))"
    using owner_in [of "vnodes r" h] ch_ok_nonempty [OF assms(1)] assms(2) ch_okD(5) [OF assms(1)] by simp
  then show thesis using that by (auto simp: set_vn_from)
qed

text \<open>Going around from \<open>h\<close>, the owner comes first: distances are differences modulo \<open>2 ^ 32\<close>.\<close>

lemma clockwise_le:
  fixes p q h :: u32
  assumes "h \<le> p \<and> (h \<le> q \<longrightarrow> p \<le> q) \<or> p < h \<and> q < h \<and> p \<le> q"
  shows "p - h \<le> q - h"
proof -
  have "unat x < 4294967296" for x :: u32 using unsigned_less [of x] by simp
  from this [of p] this [of q] this [of h] show ?thesis using assms
    by (auto simp: word_le_nat_alt word_less_nat_alt unat_sub_if' not_le)
qed

lemma owner_closest:
  assumes "sorted (map vn_hash vs)" "v \<in> set vs"
  shows "vn_hash (owner vs h) - h \<le> vn_hash v - h"
proof (rule clockwise_le, cases "filter (\<lambda>v. h \<le> vn_hash v) vs")
  case Nil
  then have lt: "\<forall>w \<in> set vs. vn_hash w < h" by (simp add: filter_empty_conv not_le)
  have "owner vs h = vs ! 0" "vs ! 0 \<in> set vs" using Nil assms(2) by (auto simp: owner_def intro!: nth_mem)
  moreover have "vn_hash (vs ! 0) \<le> vn_hash v" using assms by (cases vs) auto
  ultimately show "h \<le> vn_hash (owner vs h) \<and> (h \<le> vn_hash v \<longrightarrow> vn_hash (owner vs h) \<le> vn_hash v) \<or>
      vn_hash (owner vs h) < h \<and> vn_hash v < h \<and> vn_hash (owner vs h) \<le> vn_hash v" using lt assms(2) by simp
next
  case (Cons w ws)
  then have o: "owner vs h = w" by (simp add: owner_def)
  have "sorted (map vn_hash (filter (\<lambda>v. h \<le> vn_hash v) vs))" using assms(1) by (rule sorted_filter)
  then have le: "\<forall>u \<in> set (filter (\<lambda>v. h \<le> vn_hash v) vs). vn_hash w \<le> vn_hash u" unfolding Cons by simp
  have "w \<in> set (filter (\<lambda>v. h \<le> vn_hash v) vs)" unfolding Cons by simp
  then show "h \<le> vn_hash (owner vs h) \<and> (h \<le> vn_hash v \<longrightarrow> vn_hash (owner vs h) \<le> vn_hash v) \<or>
      vn_hash (owner vs h) < h \<and> vn_hash v < h \<and> vn_hash (owner vs h) \<le> vn_hash v"
    using o le assms(2) by simp
qed

section \<open>Which keys move\<close>

lemma ch_ring_remove_node_found:
  assumes "name \<in> set (physical_names r)"
  obtains xs ys where "physical_names r = xs @ name # ys" "name \<notin> set xs"
    "ch_ring_remove_node qsort r name = (r\<lparr>physical_names := xs @ ys,
       vnodes := qsort (map (drop_idx (length xs)) (filter (\<lambda>v. vn_idx v \<noteq> length xs) (vnodes r)))\<rparr>, 0)"
proof -
  have "find_idx (\<lambda>n. n = name) (physical_names r) (length (physical_names r)) \<noteq> None"
    using assms by (auto simp: find_idx_None_iff in_set_conv_nth)
  then obtain t where t: "find_idx (\<lambda>n. n = name) (physical_names r) (length (physical_names r)) = Some t" by blast
  then have lt: "t < length (physical_names r)" "physical_names r ! t = name" "\<forall>j < t. physical_names r ! j \<noteq> name"
    by (simp_all add: find_idx_Some_iff)
  show thesis
  proof (rule that)
    show "physical_names r = take t (physical_names r) @ name # drop (t + 1) (physical_names r)"
      using split_at_index [OF lt(1)] lt(2) by simp
    show "name \<notin> set (take t (physical_names r))" using lt by (auto simp: in_set_conv_nth)
  qed (use t lt in \<open>simp add: ch_ring_remove_node_def\<close>)
qed

lemma nth_skip: "i \<noteq> length xs \<Longrightarrow> (xs @ ys) ! (if i > length xs then i - 1 else i) = (xs @ y # ys) ! i"
  by (auto simp: nth_append nth_Cons')

context vnode_sort
begin

lemma remove_keeps_owner:
  assumes ok: "ch_ok r" and d: "distinct (map vn_hash (vnodes r))" and n: "name \<in> set (physical_names r)"
    and o: "physical_names r ! vn_idx (owner (vnodes r) (ch_hash_key key)) \<noteq> name"
  shows "ch_ring_get_node (fst (ch_ring_remove_node qsort r name)) key = ch_ring_get_node r key"
proof -
  let ?h = "ch_hash_key key"
  obtain xs ys where ns: "physical_names r = xs @ name # ys"
    and rm: "ch_ring_remove_node qsort r name = (r\<lparr>physical_names := xs @ ys,
       vnodes := qsort (map (drop_idx (length xs)) (filter (\<lambda>v. vn_idx v \<noteq> length xs) (vnodes r)))\<rparr>, 0)"
    using ch_ring_remove_node_found [OF n] by metis
  define vs where "vs = filter (\<lambda>v. vn_idx v \<noteq> length xs) (vnodes r)"
  have ne: "vnodes r \<noteq> []" using ns ch_ok_nonempty [OF ok] by simp
  have oi: "vn_idx (owner (vnodes r) ?h) \<noteq> length xs" using o ns by auto
  have ow: "owner vs ?h = owner (vnodes r) ?h" unfolding vs_def using oi ne by (rule owner_filter)
  have vne: "vs \<noteq> []" using owner_in [OF ne] oi unfolding vs_def by (auto simp: filter_empty_conv)
  have id: "qsort (map (drop_idx (length xs)) vs) = map (drop_idx (length xs)) vs"
    using d ch_okD(3) [OF ok] by (intro qsort_id) (simp_all add: vs_def comp_def sorted_filter distinct_map_filter)
  define r' where "r' = fst (ch_ring_remove_node qsort r name)"
  have r': "physical_names r' = xs @ ys" "vnodes r' = map (drop_idx (length xs)) vs"
    by (simp_all add: r'_def rm id vs_def [symmetric])
  have ok': "ch_ok r'" unfolding r'_def using ok by (rule ch_ring_remove_node_ok)
  have "owner (vnodes r') ?h = drop_idx (length xs) (owner (vnodes r) ?h)"
    using ow vne by (simp add: r' owner_map)
  then have "physical_names r' ! vn_idx (owner (vnodes r') ?h) = physical_names r ! vn_idx (owner (vnodes r) ?h)"
    using nth_skip [OF oi, of ys name] by (simp add: r' ns drop_idx_def split: if_splits)
  moreover have "physical_names r' \<noteq> []" using ch_ok_nonempty [OF ok'] vne r' by simp
  ultimately show ?thesis using ch_ring_get_node_owner [OF ok', of key] ch_ring_get_node_owner [OF ok, of key] ns
    by (simp add: r'_def)
qed

lemma add_takes_or_keeps:
  assumes ok: "ch_ok r" and d: "distinct (map vn_hash (vnodes (fst (ch_ring_add_node qsort a b True r name))))"
  shows "ch_ring_get_node (fst (ch_ring_add_node qsort a b True r name)) key
    \<in> {ch_ring_get_node r key, Some (strncpy_buf CH_MAX_NODE_LEN name)}"
proof (cases "name \<in> set (physical_names r) \<or> (length (physical_names r) \<ge> physical_capacity r \<and> \<not> a) \<or> \<not> b")
  case True
  then show ?thesis using ch_ring_add_node_early [OF True, of qsort True]
    by (simp add: ch_ring_get_node_def ch_find_vnode_def)
next
  case False
  let ?h = "ch_hash_key key" and ?k = "length (physical_names r)"
  define r' where "r' = fst (ch_ring_add_node qsort a b True r name)"
  from False have b: b and f: "name \<notin> set (physical_names r)" "length (physical_names r) < physical_capacity r \<or> a" by auto
  have r': "physical_names r' = physical_names r @ [name]"
    "vnodes r' = qsort (vnodes r @ mk_vnodes (virtual_count r) name ?k)"
    using ch_ring_add_node_fresh [OF f ok, of qsort] b by (simp_all add: r'_def)
  have ok': "ch_ok r'" unfolding r'_def using ok by (rule ch_ring_add_node_ok)
  let ?P = "\<lambda>v. vn_idx v \<noteq> ?k"
  have old: "filter ?P (vnodes r) = vnodes r" "filter ?P (mk_vnodes (virtual_count r) name ?k) = []"
    using ch_okD(5) [OF ok] by (auto simp: filter_id_conv filter_empty_conv dest: vn_from_idx mk_vnodes_idx)
  have "mset (filter ?P (vnodes r')) = mset (filter ?P (vnodes r @ mk_vnodes (virtual_count r) name ?k))"
    unfolding mset_filter r' qsort_mset ..
  also have "\<dots> = mset (vnodes r)" by (simp only: filter_append old append_Nil2)
  finally have m: "mset (vnodes r) = mset (filter ?P (vnodes r'))" by (rule sym)
  have fl: "vnodes r = filter ?P (vnodes r')"
    using m ch_okD(3) [OF ok] ch_okD(3) [OF ok'] d
    by (intro sorted_mset_unique) (simp_all add: r'_def sorted_filter distinct_map_filter)
  show ?thesis
  proof (cases "?P (owner (vnodes r') ?h)")
    case True
    have ne': "vnodes r' \<noteq> []" using r'(1) ch_ok_nonempty [OF ok'] by simp
    then have ow: "owner (vnodes r) ?h = owner (vnodes r') ?h" using owner_filter [of ?P, OF True] fl by simp
    have ne: "vnodes r \<noteq> []" using owner_in [OF ne'] True unfolding fl by (auto simp: filter_empty_conv)
    then obtain i v where "i < ?k" "owner (vnodes r) ?h = \<lparr>vn_hash = ch_hash_vnode (ch_hash_key (physical_names r ! i)) v, vn_idx = i\<rparr>"
      using owner_point [OF ok] ch_ok_nonempty [OF ok] by metis
    then show ?thesis using ch_ring_get_node_owner [OF ok, of key] ch_ring_get_node_owner [OF ok', of key] ne ch_ok_nonempty [OF ok] ow r'(1)
      by (simp add: nth_append flip: r'_def)
  next
    case False
    then show ?thesis using ch_ring_get_node_owner [OF ok', of key] r'(1) by (simp flip: r'_def)
  qed
qed

end

section \<open>Replicas\<close>

lemma replica_scan_props:
  assumes "distinct out" "length out \<le> req" "\<forall>i < length seen. seen ! i \<longleftrightarrow> i \<in> set out" "\<forall>vi \<in> set vis. vn_idx (vnodes ring ! vi) < length seen"
  shows "distinct (replica_scan ring req vis seen out) \<and> length (replica_scan ring req vis seen out) \<le> req
    \<and> set (replica_scan ring req vis seen out) \<subseteq> set out \<union> (\<lambda>vi. vn_idx (vnodes ring ! vi)) ` set vis
    \<and> (length (replica_scan ring req vis seen out) < req \<longrightarrow>
        set (replica_scan ring req vis seen out) = set out \<union> (\<lambda>vi. vn_idx (vnodes ring ! vi)) ` set vis)"
  using assms
proof (induction ring req vis seen out rule: replica_scan.induct)
  case (2 ring req vi vis seen out)
  define pi where "pi = vn_idx (vnodes ring ! vi)"
  have pi: "pi < length seen" using "2.prems"(4) by (simp add: pi_def)
  show ?case
  proof (cases "length out < req")
    case lt: True
    show ?thesis
    proof (cases "seen ! pi")
      case True
      then have "pi \<in> set out" using "2.prems"(3) pi by simp
      then have "insert pi (set out \<union> A) = set out \<union> A" for A by auto
      then show ?thesis using "2.IH"(2) [OF lt pi_def] True lt "2.prems" by (simp flip: pi_def)
    next
      case False
      then have "pi \<notin> set out" using "2.prems"(3) pi by simp
      moreover have "\<forall>i < length seen. seen[pi := True] ! i \<longleftrightarrow> i \<in> set (out @ [pi])"
        using "2.prems"(3) pi by (auto simp: nth_list_update)
      ultimately show ?thesis using "2.IH"(1) [OF lt pi_def] False lt "2.prems" by (simp flip: pi_def)
    qed
  next
    case False
    then show ?thesis using "2.prems" by auto
  qed
qed simp

lemma replica_scan_prefix: "\<exists>zs. replica_scan ring req vis seen out = out @ zs"
proof (induction ring req vis seen out rule: replica_scan.induct)
  case (2 ring req vi vis seen out)
  show ?case
  proof (cases "length out < req")
    case True
    then show ?thesis using "2.IH"(1) [OF True refl] "2.IH"(2) [OF True refl] by (auto simp: Let_def)
  qed simp
qed simp

lemma mod_shift_inj: "i \<le> j \<Longrightarrow> j < n \<Longrightarrow> (s + i) mod n = (s + j) mod n \<Longrightarrow> i = j" for s n :: nat
  using mod_eq_dvd_iff_nat [of "s + i" "s + j" n] dvd_imp_le [of n "j - i"] by (cases "i < j") auto

lemma ring_positions: "n > 0 \<Longrightarrow> (\<lambda>i. (s + i) mod n) ` {0..<n} = {0..<n}" for s n :: nat
proof -
  assume n: "n > 0"
  have "inj_on (\<lambda>i. (s + i) mod n) {0..<n}"
    by (rule inj_onI) (metis atLeastLessThan_iff linear mod_shift_inj)
  then have "card ((\<lambda>i. (s + i) mod n) ` {0..<n}) = n" by (simp add: card_image)
  moreover have "(\<lambda>i. (s + i) mod n) ` {0..<n} \<subseteq> {0..<n}" using n by auto
  ultimately show ?thesis by (intro card_subset_eq) auto
qed

lemma get_nodes_scan:
  assumes ok: "ch_ok r" and ne: "physical_names r \<noteq> []" and q: "0 < req"
  obtains out where "ch_ring_get_nodes True r key req = (int (length out), map (\<lambda>i. strncpy_buf CH_MAX_NODE_LEN (physical_names r ! i)) out)"
    "distinct out" "set out \<subseteq> {0..<length (physical_names r)}" "length out = min (nat req) (length (physical_names r))"
    "hd out = vn_idx (owner (vnodes r) (ch_hash_key key))"
proof -
  let ?n = "length (physical_names r)" and ?vc = "length (vnodes r)" and ?h = "ch_hash_key key"
  let ?idx = "\<lambda>vi. vn_idx (vnodes r ! vi)"
  define k where "k = min (nat req) ?n"
  define start where "start = nat (ch_find_vnode r ?h)"
  define vis where "vis = map (\<lambda>i. (start + i) mod ?vc) [0..<?vc]"
  define out where "out = replica_scan r k vis (replicate ?n False) []"
  have vne: "vnodes r \<noteq> []" using ch_ok_nonempty [OF ok] ne by simp
  have st: "start < ?vc" "vnodes r ! start = owner (vnodes r) ?h"
    using ch_find_vnode_owner [OF ch_okD(3) [OF ok] vne, of ?h] by (simp_all add: start_def nat_less_iff)
  have sv: "set vis = {0..<?vc}" using ring_positions [of ?vc start] vne by (simp add: vis_def)
  have "vn_idx ` set (vnodes r) = {0..<?n}"
    using vn_from_idx_image [OF ch_okD(1) [OF ok], of 0] unfolding ch_okD(5) [OF ok] by simp
  moreover have "?idx ` set vis = vn_idx ` set (vnodes r)"
    unfolding sv using nth_image [of ?vc "vnodes r"] image_image [of vn_idx "(!) (vnodes r)" "{0..<?vc}"] by simp
  ultimately have im: "?idx ` set vis = {0..<?n}" by simp
  then have lt: "\<forall>vi \<in> set vis. ?idx vi < length (replicate ?n False)" by auto
  have p: "distinct out" "length out \<le> k" "set out \<subseteq> {0..<?n}" "length out < k \<longrightarrow> set out = {0..<?n}"
    using replica_scan_props [of "[]" k "replicate ?n False" vis r] lt im by (simp_all add: out_def)
  have "length out = k"
  proof (rule ccontr)
    assume "length out \<noteq> k"
    then have "set out = {0..<?n}" "length out < k" using p(2,4) by auto
    then show False using distinct_card [OF p(1)] by (simp add: k_def)
  qed
  moreover have "hd out = vn_idx (owner (vnodes r) ?h)"
  proof -
    have "0 < k" using q ne by (simp add: k_def)
    moreover obtain ws where "vis = start # ws" using st(1) vne upt_conv_Cons [of 0 ?vc] by (simp add: vis_def)
    moreover have "?idx start < ?n" using lt sv st(1) by simp
    ultimately have "out = replica_scan r k ws ((replicate ?n False)[?idx start := True]) [?idx start]"
      by (simp add: out_def Let_def)
    then obtain zs where "out = [?idx start] @ zs" using replica_scan_prefix by metis
    then show ?thesis using st(2) by simp
  qed
  moreover have "ch_ring_get_nodes True r key req = (int (length out), map (\<lambda>i. strncpy_buf CH_MAX_NODE_LEN (physical_names r ! i)) out)"
    using q vne by (simp add: ch_ring_get_nodes_def Let_def out_def vis_def start_def k_def min_def nat_le_iff)
  ultimately show thesis using that p(1,3) by (simp add: k_def)
qed

section \<open>An example ring\<close>

definition ex_adds :: "nat \<Rightarrow> string list \<Rightarrow> ch_ring" where
  "ex_adds vc names =
     foldl (\<lambda>r n. fst (ch_ring_add_node (sort_key vn_hash) True True True r n)) (the (ch_ring_create True True True (int vc))) names"

lemma ex_adds_reach: "ch_reach (sort_key vn_hash) (ex_adds vc names)"
proof -
  obtain r0 where "ch_ring_create True True True (int vc) = Some r0" by (auto simp: ch_ring_create_def Let_def)
  then have "ch_reach (sort_key vn_hash) (the (ch_ring_create True True True (int vc)))" by (auto intro: ch_reach.create)
  then show ?thesis unfolding ex_adds_def by (induction names rule: rev_induct) (auto intro: ch_reach.add)
qed

text \<open>The first sixteen nodes fit the initial arrays.\<close>

lemma ex_adds_fields:
  assumes "distinct names" "length names \<le> 16" "0 < vc" "vc \<le> CH_MAX_VIRTUAL_NODES"
  shows "physical_names (ex_adds vc names) = names \<and> physical_capacity (ex_adds vc names) = 16
    \<and> virtual_count (ex_adds vc names) = vc \<and> vnode_capacity (ex_adds vc names) = 16 * vc"
  using assms(1,2)
proof (induction names rule: rev_induct)
  case Nil
  then show ?case using assms(3,4) by (simp add: ex_adds_def ch_ring_create_def Let_def)
next
  case (snoc n names)
  have step: "ex_adds vc (names @ [n]) = fst (ch_ring_add_node (sort_key vn_hash) True True True (ex_adds vc names) n)"
    by (simp add: ex_adds_def)
  have len: "length (vnodes (ex_adds vc names)) = length (physical_names (ex_adds vc names)) * virtual_count (ex_adds vc names)"
    using chs.ch_reach_ok [OF ex_adds_reach] by (rule ch_okD(6))
  have "Suc (length names) * vc \<le> 16 * vc" using snoc.prems by (intro mult_le_mono1) simp
  then show ?case using snoc len by (simp add: step ch_ring_add_node_def Let_def)
qed

definition ex_ring3 :: ch_ring where
  "ex_ring3 = ex_adds 1 [''a'', ''b'', ''c'']"

lemmas ex_ring = chs.vnode_sort_axioms ex_adds_reach [of 1 "[''a'', ''b'', ''c'']", folded ex_ring3_def]

lemma ex_ring3_names: "physical_names ex_ring3 = [''a'', ''b'', ''c'']"
  unfolding ex_ring3_def by (rule ex_adds_fields [THEN conjunct1]) (simp_all add: CH_MAX_VIRTUAL_NODES_def)

lemma ex_ring3_distinct: "distinct (map vn_hash (vnodes ex_ring3))"
  by code_simp

definition ex_full :: ch_ring where
  "ex_full = ex_adds 1 (map (\<lambda>c. [c]) ''abcdefghijklmnop'')"

section \<open>Properties\<close>

text \<open>C22. A lookup on a ring with nodes returns a node one of whose virtual nodes comes first going clockwise from the
  hash of the key: no virtual node of any node is at a smaller distance modulo \<open>2 ^ 32\<close>, whatever the order in which
  the sort leaves equal hashes.\<close>

theorem ch_get_node_successor:
  assumes "vnode_sort qsort" "ch_reach qsort r" "physical_names r \<noteq> []"
  shows "\<exists>n \<in> set (physical_names r). \<exists>v < virtual_count r.
    ch_ring_get_node r key = Some (strncpy_buf CH_MAX_NODE_LEN n) \<and>
    (\<forall>n' \<in> set (physical_names r). \<forall>v' < virtual_count r.
       ch_hash_vnode (ch_hash_key n) v - ch_hash_key key \<le> ch_hash_vnode (ch_hash_key n') v' - ch_hash_key key)"
proof -
  have ok: "ch_ok r" using assms(1,2) by (rule vnode_sort.ch_reach_ok)
  let ?h = "ch_hash_key key"
  obtain i v where i: "i < length (physical_names r)" "v < virtual_count r"
    and o: "owner (vnodes r) ?h = \<lparr>vn_hash = ch_hash_vnode (ch_hash_key (physical_names r ! i)) v, vn_idx = i\<rparr>"
    using owner_point [OF ok assms(3)] by metis
  have "ch_hash_vnode (ch_hash_key (physical_names r ! i)) v - ?h \<le> ch_hash_vnode (ch_hash_key n') v' - ?h"
    if n': "n' \<in> set (physical_names r)" "v' < virtual_count r" for n' v'
  proof -
    obtain j where "j < length (physical_names r)" "physical_names r ! j = n'" using n'(1) by (auto simp: in_set_conv_nth)
    then have "\<lparr>vn_hash = ch_hash_vnode (ch_hash_key n') v', vn_idx = j\<rparr> \<in> set (vnodes r)"
      using n'(2) unfolding ch_okD(5) [OF ok] by (auto simp: set_vn_from)
    from owner_closest [OF ch_okD(3) [OF ok] this, of ?h] show ?thesis by (simp add: o)
  qed
  moreover have "ch_ring_get_node r key = Some (strncpy_buf CH_MAX_NODE_LEN (physical_names r ! i))"
    using ch_ring_get_node_owner [OF ok, of key] assms(3) o by simp
  ultimately show ?thesis using i(2) nth_mem [OF i(1)] by (intro bexI [of _ "physical_names r ! i"] exI [of _ v]) auto
qed

theorem ch_get_node_successor_witness:
  "physical_names ex_ring3 \<noteq> [] \<and>
   (\<exists>n \<in> set (physical_names ex_ring3). \<exists>v < virtual_count ex_ring3.
    ch_ring_get_node ex_ring3 ''k'' = Some (strncpy_buf CH_MAX_NODE_LEN n) \<and>
    (\<forall>n' \<in> set (physical_names ex_ring3). \<forall>v' < virtual_count ex_ring3.
       ch_hash_vnode (ch_hash_key n) v - ch_hash_key ''k'' \<le> ch_hash_vnode (ch_hash_key n') v' - ch_hash_key ''k''))"
proof -
  have ne: "physical_names ex_ring3 \<noteq> []" by (simp add: ex_ring3_names)
  show ?thesis by (rule conjI [OF ne ch_get_node_successor [OF ex_ring ne]])
qed

text \<open>C23. Removing a node moves only the keys it owned, on a ring whose virtual nodes have distinct hashes: every key whose lookup
  returned another name keeps it.  Collisions are excluded because the sort after the removal is
  \<open>qsort\<close>, which may put virtual nodes with equal hashes in another order.\<close>

theorem ch_remove_moves_only_own:
  assumes "vnode_sort qsort" "ch_reach qsort r" "distinct (map vn_hash (vnodes r))" "name \<in> set (physical_names r)"
    "ch_ring_get_node r key \<noteq> Some (strncpy_buf CH_MAX_NODE_LEN name)"
  shows "ch_ring_get_node (fst (ch_ring_remove_node qsort r name)) key = ch_ring_get_node r key"
proof -
  have ok: "ch_ok r" using assms(1,2) by (rule vnode_sort.ch_reach_ok)
  have "physical_names r ! vn_idx (owner (vnodes r) (ch_hash_key key)) \<noteq> name"
  proof
    assume "physical_names r ! vn_idx (owner (vnodes r) (ch_hash_key key)) = name"
    moreover have "physical_names r \<noteq> []" using assms(4) by auto
    ultimately show False using assms(5) ch_ring_get_node_owner [OF ok, of key] by simp
  qed
  then show ?thesis using vnode_sort.remove_keeps_owner [OF assms(1) ok assms(3,4)] by blast
qed

theorem ch_remove_moves_only_own_witness:
  "distinct (map vn_hash (vnodes ex_ring3)) \<and>
   ch_ring_get_node (fst (ch_ring_remove_node (sort_key vn_hash) ex_ring3 ''b'')) ''key'' =
   ch_ring_get_node ex_ring3 ''key''"
proof -
  have m: "''b'' \<in> set (physical_names ex_ring3)" by (simp add: ex_ring3_names)
  have o: "ch_ring_get_node ex_ring3 ''key'' \<noteq> Some (strncpy_buf CH_MAX_NODE_LEN ''b'')" by code_simp
  show ?thesis by (rule conjI [OF ex_ring3_distinct ch_remove_moves_only_own [OF ex_ring ex_ring3_distinct m o]])
qed

text \<open>Adding a node moves keys only to it: as long as no two virtual nodes of the new ring collide, a lookup
  afterwards returns what it returned before, or the new name.\<close>

theorem ch_add_moves_only_to_new:
  assumes "vnode_sort qsort" "ch_reach qsort r"
    "distinct (map vn_hash (vnodes (fst (ch_ring_add_node qsort a b True r name))))"
  shows "ch_ring_get_node (fst (ch_ring_add_node qsort a b True r name)) key
    \<in> {ch_ring_get_node r key, Some (strncpy_buf CH_MAX_NODE_LEN name)}"
  using vnode_sort.add_takes_or_keeps [OF assms(1) vnode_sort.ch_reach_ok [OF assms(1,2)] assms(3)] .

theorem ch_add_moves_only_to_new_witness:
  "distinct (map vn_hash (vnodes (fst (ch_ring_add_node (sort_key vn_hash) True True True ex_ring3 ''d'')))) \<and>
   ch_ring_get_node (fst (ch_ring_add_node (sort_key vn_hash) True True True ex_ring3 ''d'')) ''key''
   \<in> {ch_ring_get_node ex_ring3 ''key'', Some (strncpy_buf CH_MAX_NODE_LEN ''d'')}"
proof -
  have d: "distinct (map vn_hash (vnodes (fst (ch_ring_add_node (sort_key vn_hash) True True True ex_ring3 ''d''))))"
    by code_simp
  show ?thesis by (rule conjI [OF d ch_add_moves_only_to_new [OF ex_ring d]])
qed

text \<open>The replica set of a key consists of distinct nodes of the ring, as many as asked for or all there are, and
  begins with the node that the plain lookup returns.\<close>

theorem ch_get_nodes_replicas:
  assumes "vnode_sort qsort" "ch_reach qsort r" "physical_names r \<noteq> []" "0 < req"
  shows "\<exists>ns. ch_ring_get_nodes True r key req = (int (length ns), map (strncpy_buf CH_MAX_NODE_LEN) ns)
    \<and> distinct ns \<and> set ns \<subseteq> set (physical_names r) \<and> length ns = min (nat req) (length (physical_names r))
    \<and> ch_ring_get_node r key = Some (strncpy_buf CH_MAX_NODE_LEN (hd ns))"
proof -
  have ok: "ch_ok r" using assms(1,2) by (rule vnode_sort.ch_reach_ok)
  obtain out where o: "ch_ring_get_nodes True r key req = (int (length out), map (\<lambda>i. strncpy_buf CH_MAX_NODE_LEN (physical_names r ! i)) out)"
    "distinct out" "set out \<subseteq> {0..<length (physical_names r)}" "length out = min (nat req) (length (physical_names r))"
    "hd out = vn_idx (owner (vnodes r) (ch_hash_key key))"
    using get_nodes_scan [OF ok assms(3,4)] by metis
  have "out \<noteq> []" using o(4) assms(3,4) by (auto simp: min_def split: if_splits)
  moreover have "inj_on ((!) (physical_names r)) (set out)"
    using o(3) ch_okD(2) [OF ok] by (intro inj_on_nth) auto
  ultimately show ?thesis using o ch_ring_get_node_owner [OF ok, of key] assms(3)
    by (intro exI [of _ "map ((!) (physical_names r)) out"]) (auto simp: distinct_map comp_def hd_map)
qed

theorem ch_get_nodes_replicas_witness:
  "physical_names ex_ring3 \<noteq> [] \<and>
   (\<exists>ns. ch_ring_get_nodes True ex_ring3 ''key'' 2 = (int (length ns), map (strncpy_buf CH_MAX_NODE_LEN) ns)
    \<and> distinct ns \<and> set ns \<subseteq> set (physical_names ex_ring3)
    \<and> length ns = min (nat 2) (length (physical_names ex_ring3))
    \<and> ch_ring_get_node ex_ring3 ''key'' = Some (strncpy_buf CH_MAX_NODE_LEN (hd ns)))"
proof -
  have ne: "physical_names ex_ring3 \<noteq> []" by (simp add: ex_ring3_names)
  show ?thesis by (rule conjI [OF ne ch_get_nodes_replicas [OF ex_ring ne]]) simp
qed

text \<open>Rebuilding the ring from its names changes nothing when no hashes collide, and needs no memory: the
  incrementally maintained virtual nodes are those of a ring built anew.\<close>

theorem ch_rebalance_identity:
  assumes "vnode_sort qsort" "ch_reach qsort r" "distinct (map vn_hash (vnodes r))"
  shows "ch_ring_rebalance qsort ok r = Some r"
  using vnode_sort.rebalance_identity [OF assms(1) vnode_sort.ch_reach_ok [OF assms(1,2)] assms(3)] .

theorem ch_rebalance_identity_witness:
  "distinct (map vn_hash (vnodes ex_ring3)) \<and>
   ch_ring_rebalance (sort_key vn_hash) (\<lambda>_. False) ex_ring3 = Some ex_ring3"
  by (rule conjI [OF ex_ring3_distinct ch_rebalance_identity [OF ex_ring ex_ring3_distinct]])

text \<open>When the array of virtual nodes cannot grow, adding a node reports failure but keeps the node listed without
  any virtual node; adding it again reports success and changes nothing, so it never owns a key.\<close>

theorem ch_failed_add_permanent:
  assumes "vnode_sort qsort" "ch_reach qsort r" "name \<notin> set (physical_names r)" "length (physical_names r) < physical_capacity r \<or> a"
    "vnode_capacity r < length (vnodes r) + virtual_count r"
    "fst (ch_ring_add_node qsort a True False r name) = r'"
  shows "snd (ch_ring_add_node qsort a True False r name) = -1 \<and> name \<in> set (physical_names r') \<and> ch_ring_add_node qsort a2 b2 c2 r' name = (r', 0)
    \<and> (physical_names r \<noteq> [] \<longrightarrow> ch_ring_get_node r' key = ch_ring_get_node r key)"
proof -
  have ok: "ch_ok r" using assms(1,2) by (rule vnode_sort.ch_reach_ok)
  have r': "snd (ch_ring_add_node qsort a True False r name) = -1" "physical_names r' = physical_names r @ [name]" "vnodes r' = vnodes r"
    using assms(3-6) by (auto simp: ch_ring_add_node_def Let_def split: if_splits)
  have "ch_find_vnode r' h = ch_find_vnode r h" for h by (simp add: ch_find_vnode_def r')
  moreover have "vn_idx (vnodes r ! nat (ch_find_vnode r h)) < length (physical_names r)" if "physical_names r \<noteq> []" for h
    using owner_point [OF ok that, of h] ch_find_vnode_owner(3) [OF ch_okD(3) [OF ok], of h] ch_ok_nonempty [OF ok] that
    by (metis ch_vnode.select_convs(2))
  ultimately have "physical_names r \<noteq> [] \<longrightarrow> ch_ring_get_node r' key = ch_ring_get_node r key"
    by (simp add: ch_ring_get_node_def r' nth_append)
  then show ?thesis using r' by (simp add: ch_ring_add_node_def)
qed

theorem ch_failed_add_permanent_witness:
  "vnode_capacity ex_full < length (vnodes ex_full) + virtual_count ex_full \<and>
   (let r' = fst (ch_ring_add_node (sort_key vn_hash) True True False ex_full ''q'')
    in snd (ch_ring_add_node (sort_key vn_hash) True True False ex_full ''q'') = -1 \<and> ''q'' \<in> set (physical_names r')
       \<and> ch_ring_add_node (sort_key vn_hash) True True True r' ''q'' = (r', 0)
       \<and> (physical_names ex_full \<noteq> [] \<longrightarrow> ch_ring_get_node r' ''key'' = ch_ring_get_node ex_full ''key''))"
proof -
  have r: "ch_reach (sort_key vn_hash) ex_full" unfolding ex_full_def by (rule ex_adds_reach)
  have f: "physical_names ex_full = map (\<lambda>c. [c]) ''abcdefghijklmnop'' \<and> physical_capacity ex_full = 16
    \<and> virtual_count ex_full = 1 \<and> vnode_capacity ex_full = 16 * 1"
    unfolding ex_full_def by (rule ex_adds_fields) (simp_all add: CH_MAX_VIRTUAL_NODES_def)
  have n: "''q'' \<notin> set (physical_names ex_full)" using f by simp
  have v: "vnode_capacity ex_full < length (vnodes ex_full) + virtual_count ex_full"
    using f ch_okD(6) [OF chs.ch_reach_ok [OF r]] by simp
  show ?thesis unfolding Let_def by (rule conjI [OF v ch_failed_add_permanent [OF chs.vnode_sort_axioms r n _ v refl]]) simp
qed

end
