(* ===== verification/Bloom_Filter.thy ===== *)
theory Bloom_Filter
  imports Float64
begin

unbundle bit_operations_syntax

text \<open>
  The Bloom filter of \<open>src/mini-business-infra/src/bloom_filter.c\<close>: an array of bits, of which each element sets as many
  as there are hash functions, derived from two base hashes by double hashing.

  \<open>size_t\<close> is a 64-bit word.  The byte order in which the second hash reads the first one is a parameter, and so are the
  functions \<open>log\<close>, \<open>exp\<close> and \<open>pow\<close> of the C library and the outcomes of the two allocations.  An access beyond the array
  of bytes is \<open>None\<close>.
\<close>

section \<open>Data and hashing\<close>

definition BF_DEFAULT_CAPACITY :: u64 where "BF_DEFAULT_CAPACITY = 10000"
definition BF_DEFAULT_FP_RATE :: double where "BF_DEFAULT_FP_RATE = fl (1 / 100)"
definition BF_MAX_HASH_FUNCTIONS :: int where "BF_MAX_HASH_FUNCTIONS = 32"

record bf_bloom_filter =
  bits :: "u8 list"
  bit_count :: u64
  byte_count :: u64
  hash_count :: int
  element_count :: u64

definition bf_fnv1a :: "u8 list \<Rightarrow> u64" where
  "bf_fnv1a data = foldl (\<lambda>h b. (h XOR ucast b) * 0x100000001b3) 0xcbf29ce484222325 data"

definition bf_hash_pair :: "(u64 \<Rightarrow> u8 list) \<Rightarrow> u8 list \<Rightarrow> u64 \<times> u64" where
  "bf_hash_pair rep data = (let base = bf_fnv1a data in (base, bf_fnv1a (rep base)))"

section \<open>Operations\<close>

definition bf_create_with_params :: "bool \<Rightarrow> bool \<Rightarrow> u64 \<Rightarrow> int \<Rightarrow> bf_bloom_filter option" where
  "bf_create_with_params ok ok_bits bits_n num_hashes =
     (if bits_n = 0 \<or> num_hashes \<le> 0 then None
      else
        let k = (if num_hashes > BF_MAX_HASH_FUNCTIONS then BF_MAX_HASH_FUNCTIONS else num_hashes)
        in if \<not> ok then None
           else
             let bytes = (bits_n + 7) div 8
             in if \<not> ok_bits then None
                else Some \<lparr>bits = replicate (unat bytes) 0, bit_count = bits_n, byte_count = bytes, hash_count = k, element_count = 0\<rparr>)"

definition bf_create :: "(double \<Rightarrow> double) \<Rightarrow> bool \<Rightarrow> bool \<Rightarrow> u64 \<Rightarrow> double \<Rightarrow> bf_bloom_filter option" where
  "bf_create ln_c ok ok_bits capacity0 fp_rate0 =
     (let capacity = (if capacity0 = 0 then BF_DEFAULT_CAPACITY else capacity0);
          fp_rate = (if fp_rate0 \<le> 0 \<or> fp_rate0 \<ge> 1 then BF_DEFAULT_FP_RATE else fp_rate0)
      in case fdiv (fmul (- of_c_int (uint capacity)) (ln_c fp_rate)) (fmul (ln_c 2) (ln_c 2)) of
           None \<Rightarrow> None
         | Some m_d \<Rightarrow>
             let m0 = (of_int \<lceil>m_d\<rceil> :: u64);
                 m = (if m0 < 64 then 64 else m0)
             in case fdiv (of_c_int (uint m)) (of_c_int (uint capacity)) of
                  None \<Rightarrow> None
                | Some q \<Rightarrow>
                    let k0 = \<lceil>fmul q (ln_c 2)\<rceil>;
                        k1 = (if k0 < 1 then 1 else k0);
                        k = (if k1 > BF_MAX_HASH_FUNCTIONS then BF_MAX_HASH_FUNCTIONS else k1)
                    in bf_create_with_params ok ok_bits m k)"

definition bf_bit_idx :: "bf_bloom_filter \<Rightarrow> u64 \<Rightarrow> u64 \<Rightarrow> nat \<Rightarrow> nat" where
  "bf_bit_idx bf h1 h2 i = unat ((h1 + of_nat i * h2) mod bit_count bf)"

definition bf_mask :: "nat \<Rightarrow> u8" where
  "bf_mask bit_idx = push_bit (bit_idx mod 8) 1"

text \<open>The loop of the insertion over the bit indices: the bytes and whether every bit was already set.\<close>

fun bf_set_loop :: "nat list \<Rightarrow> u8 list \<Rightarrow> bool \<Rightarrow> (u8 list \<times> bool) option" where
  "bf_set_loop [] bs all_set = Some (bs, all_set)"
| "bf_set_loop (j # js) bs all_set =
     (if j div 8 < length bs
      then bf_set_loop js (bs[j div 8 := (bs ! (j div 8)) OR bf_mask j]) (all_set \<and> (bs ! (j div 8)) AND bf_mask j \<noteq> 0)
      else None)"

definition bf_add :: "(u64 \<Rightarrow> u8 list) \<Rightarrow> bf_bloom_filter \<Rightarrow> u8 list \<Rightarrow> (bf_bloom_filter \<times> int) option" where
  "bf_add rep bf data =
     (if data = [] then Some (bf, -1)
      else
        let (h1, h2) = bf_hash_pair rep data
        in case bf_set_loop (map (bf_bit_idx bf h1 h2) [0..<nat (hash_count bf)]) (bits bf) True of
             None \<Rightarrow> None
           | Some (bs, all_set) \<Rightarrow>
               Some (bf\<lparr>bits := bs, element_count := (if \<not> all_set then element_count bf + 1 else element_count bf)\<rparr>, 0))"

definition str_bytes :: "string \<Rightarrow> u8 list" where
  "str_bytes s = map of_char s"

definition bf_add_string :: "(u64 \<Rightarrow> u8 list) \<Rightarrow> bf_bloom_filter \<Rightarrow> string \<Rightarrow> (bf_bloom_filter \<times> int) option" where
  "bf_add_string rep bf s = bf_add rep bf (str_bytes s)"

fun bf_test_loop :: "nat list \<Rightarrow> u8 list \<Rightarrow> bool option" where
  "bf_test_loop [] bs = Some True"
| "bf_test_loop (j # js) bs =
     (if j div 8 < length bs
      then (if (bs ! (j div 8)) AND bf_mask j = 0 then Some False else bf_test_loop js bs)
      else None)"

definition bf_contains :: "(u64 \<Rightarrow> u8 list) \<Rightarrow> bf_bloom_filter \<Rightarrow> u8 list \<Rightarrow> bool option" where
  "bf_contains rep bf data =
     (if data = [] then Some False
      else let (h1, h2) = bf_hash_pair rep data
           in bf_test_loop (map (bf_bit_idx bf h1 h2) [0..<nat (hash_count bf)]) (bits bf))"

definition bf_contains_string :: "(u64 \<Rightarrow> u8 list) \<Rightarrow> bf_bloom_filter \<Rightarrow> string \<Rightarrow> bool option" where
  "bf_contains_string rep bf s = bf_contains rep bf (str_bytes s)"

definition bf_clear :: "bf_bloom_filter \<Rightarrow> bf_bloom_filter" where
  "bf_clear bf = bf\<lparr>bits := replicate (unat (byte_count bf)) 0, element_count := 0\<rparr>"

definition bf_bit_count :: "bf_bloom_filter option \<Rightarrow> u64" where
  "bf_bit_count h = (case h of Some bf \<Rightarrow> bit_count bf | None \<Rightarrow> 0)"

definition bf_hash_count :: "bf_bloom_filter option \<Rightarrow> int" where
  "bf_hash_count h = (case h of Some bf \<Rightarrow> hash_count bf | None \<Rightarrow> 0)"

definition bf_element_count :: "bf_bloom_filter option \<Rightarrow> u64" where
  "bf_element_count h = (case h of Some bf \<Rightarrow> element_count bf | None \<Rightarrow> 0)"

definition bf_current_fp_rate :: "(double \<Rightarrow> double) \<Rightarrow> (double \<Rightarrow> double \<Rightarrow> double) \<Rightarrow> bf_bloom_filter \<Rightarrow> double option" where
  "bf_current_fp_rate exp_c pow_c bf =
     (if element_count bf = 0 then Some 0
      else
        let k = of_c_int (hash_count bf);
            n = of_c_int (uint (element_count bf));
            m = of_c_int (uint (bit_count bf))
        in case fdiv (fmul (- k) n) m of
             None \<Rightarrow> None
           | Some exponent \<Rightarrow> Some (pow_c (fsub 1 (exp_c exponent)) k))"

text \<open>Kernighan's loop: each round clears the lowest set bit.\<close>

function popcount8 :: "u8 \<Rightarrow> nat" where
  "popcount8 b = (if b \<noteq> 0 then Suc (popcount8 (b AND (b - 1))) else 0)"
  by pat_completeness auto
termination
proof (relation "measure unat")
  fix b :: u8
  assume b: "b \<noteq> 0"
  have "unat (b AND (b - 1)) \<le> unat (b - 1)" using word_and_le1 [of b "b - 1"] by (simp add: word_le_nat_alt)
  also have "\<dots> < unat b" using b by (metis measure_unat)
  finally show "(b AND (b - 1), b) \<in> measure unat" by simp
qed simp

declare popcount8.simps [simp del]

definition bf_set_bits :: "bf_bloom_filter \<Rightarrow> nat" where
  "bf_set_bits bf = sum_list (map popcount8 (bits bf))"

definition bf_fill_ratio :: "bf_bloom_filter \<Rightarrow> double option" where
  "bf_fill_ratio bf = (if bit_count bf = 0 then Some 0 else fdiv (of_c_int (int (bf_set_bits bf))) (of_c_int (uint (bit_count bf))))"

section \<open>The array of bits as a set\<close>

definition bits_of :: "u8 list \<Rightarrow> nat set" where
  "bits_of bs = {j. j div 8 < length bs \<and> bit (bs ! (j div 8)) (j mod 8)}"

lemma and_mask_bit: "b AND bf_mask j = 0 \<longleftrightarrow> \<not> bit b (j mod 8)"
  by (simp add: bf_mask_def bit_iff_and_push_bit_not_eq_0)

lemma bit_or_mask: "bit (b OR bf_mask j) k \<longleftrightarrow> bit b k \<or> k = j mod 8" if "k < 8" for b :: u8
  using that by (auto simp: bf_mask_def bit_or_iff bit_exp_iff)

lemma bits_of_zero [simp]: "bits_of (replicate n 0) = {}"
  by (auto simp: bits_of_def)

lemma bits_of_set:
  assumes "j div 8 < length bs"
  shows "bits_of (bs[j div 8 := (bs ! (j div 8)) OR bf_mask j]) = insert j (bits_of bs)"
proof -
  have e: "i div 8 = j div 8 \<and> i mod 8 = j mod 8 \<longleftrightarrow> i = j" for i :: nat by (metis div_mod_decomp)
  show ?thesis
  proof (rule set_eqI)
    fix i :: nat
    have "i mod 8 < 8" by simp
    then show "i \<in> bits_of (bs[j div 8 := (bs ! (j div 8)) OR bf_mask j]) \<longleftrightarrow> i \<in> insert j (bits_of bs)"
      using assms e [of i] by (cases "i div 8 = j div 8") (auto simp: bits_of_def bit_or_mask)
  qed
qed

lemma bf_set_loop_spec:
  "\<forall>j \<in> set js. j div 8 < length bs \<Longrightarrow>
   \<exists>bs'. bf_set_loop js bs a = Some (bs', a \<and> set js \<subseteq> bits_of bs) \<and> length bs' = length bs \<and> bits_of bs' = bits_of bs \<union> set js"
proof (induction js arbitrary: bs a)
  case (Cons j js)
  let ?bs = "bs[j div 8 := (bs ! (j div 8)) OR bf_mask j]"
  have j: "j div 8 < length bs" using Cons.prems by simp
  have set: "bits_of ?bs = insert j (bits_of bs)" using j by (rule bits_of_set)
  have "(bs ! (j div 8)) AND bf_mask j \<noteq> 0 \<longleftrightarrow> j \<in> bits_of bs" using j by (simp add: and_mask_bit bits_of_def)
  moreover obtain bs' where "bf_set_loop js ?bs (a \<and> j \<in> bits_of bs) = Some (bs', (a \<and> j \<in> bits_of bs) \<and> set js \<subseteq> bits_of ?bs)"
    "length bs' = length ?bs" "bits_of bs' = bits_of ?bs \<union> set js"
    using Cons.IH [of ?bs "a \<and> j \<in> bits_of bs"] Cons.prems by auto
  ultimately show ?case using j set by (auto simp: insert_absorb)
qed simp

lemma bf_test_loop_spec:
  "\<forall>j \<in> set js. j div 8 < length bs \<Longrightarrow> bf_test_loop js bs = Some (set js \<subseteq> bits_of bs)"
  by (induction js) (auto simp: and_mask_bit bits_of_def)

section \<open>The invariant\<close>

definition bf_ok :: "bf_bloom_filter \<Rightarrow> bool" where
  "bf_ok bf = (0 < unat (bit_count bf) \<and> unat (bit_count bf) \<le> 8 * length (bits bf) \<and> length (bits bf) = unat (byte_count bf)
     \<and> 0 < hash_count bf \<and> hash_count bf \<le> BF_MAX_HASH_FUNCTIONS \<and> bits_of (bits bf) \<subseteq> {..<unat (bit_count bf)})"

text \<open>The bits that an element stands for.\<close>

definition bf_probes :: "(u64 \<Rightarrow> u8 list) \<Rightarrow> bf_bloom_filter \<Rightarrow> u8 list \<Rightarrow> nat set" where
  "bf_probes rep bf d = (let (h1, h2) = bf_hash_pair rep d in bf_bit_idx bf h1 h2 ` {0..<nat (hash_count bf)})"

lemma bf_probes_cong: "bit_count bf' = bit_count bf \<Longrightarrow> hash_count bf' = hash_count bf \<Longrightarrow> bf_probes rep bf' = bf_probes rep bf"
  by (simp add: bf_probes_def bf_bit_idx_def fun_eq_iff)

lemma bf_bit_idx_bound: "bf_ok bf \<Longrightarrow> bf_bit_idx bf h1 h2 i < unat (bit_count bf)"
  by (simp add: bf_ok_def bf_bit_idx_def unat_mod)

lemma bf_bit_idx_byte: "bf_ok bf \<Longrightarrow> bf_bit_idx bf h1 h2 i div 8 < length (bits bf)"
  using bf_bit_idx_bound [of bf h1 h2 i] by (auto simp: bf_ok_def)

lemma bf_probes_bound: "bf_ok bf \<Longrightarrow> bf_probes rep bf d \<subseteq> {..<unat (bit_count bf)}"
  by (auto simp: bf_probes_def bf_bit_idx_bound split: prod.splits)

lemma bf_create_with_params_ok:
  assumes "bf_create_with_params a b n k = Some bf" "unat n + 7 < 2 ^ 64"
  shows "bf_ok bf \<and> bits_of (bits bf) = {} \<and> bit_count bf = n \<and> element_count bf = 0"
proof -
  have "unat (n + 7) = unat n + 7" using assms(2) by (simp add: unat_word_ariths)
  then have l: "unat ((n + 7) div 8) = (unat n + 7) div 8" by (simp add: unat_div)
  have "0 < unat n" using assms(1) by (auto simp: bf_create_with_params_def unat_gt_0 split: if_splits)
  then show ?thesis using assms(1) l
    by (auto simp: bf_create_with_params_def bf_ok_def BF_MAX_HASH_FUNCTIONS_def Let_def split: if_splits)
qed

lemma bf_add_spec:
  assumes ok: "bf_ok bf" and d: "d \<noteq> []"
  obtains bf' where "bf_add rep bf d = Some (bf', 0)" "bf_ok bf'" "bits_of (bits bf') = bits_of (bits bf) \<union> bf_probes rep bf d"
    "bit_count bf' = bit_count bf" "hash_count bf' = hash_count bf"
    "element_count bf' = (if bf_probes rep bf d \<subseteq> bits_of (bits bf) then element_count bf else element_count bf + 1)"
proof -
  obtain h1 h2 where h: "bf_hash_pair rep d = (h1, h2)" by fastforce
  let ?js = "map (bf_bit_idx bf h1 h2) [0..<nat (hash_count bf)]"
  have s: "set ?js = bf_probes rep bf d" by (simp add: bf_probes_def h)
  obtain bs where bs: "bf_set_loop ?js (bits bf) True = Some (bs, set ?js \<subseteq> bits_of (bits bf))"
    "length bs = length (bits bf)" "bits_of bs = bits_of (bits bf) \<union> set ?js"
    using bf_set_loop_spec [of ?js "bits bf" True] bf_bit_idx_byte [OF ok] by auto
  note bs = bs [unfolded s]
  show thesis
    by (rule that [of "bf\<lparr>bits := bs, element_count := (if \<not> bf_probes rep bf d \<subseteq> bits_of (bits bf) then element_count bf + 1 else element_count bf)\<rparr>"])
      (use d ok bs bf_probes_bound [OF ok, of rep d] in \<open>auto simp: bf_add_def h s bf_ok_def\<close>)
qed

lemma bf_contains_spec:
  assumes "bf_ok bf"
  shows "bf_contains rep bf d = Some (d \<noteq> [] \<and> bf_probes rep bf d \<subseteq> bits_of (bits bf))"
proof -
  obtain h1 h2 where h: "bf_hash_pair rep d = (h1, h2)" by fastforce
  then show ?thesis using bf_test_loop_spec [of "map (bf_bit_idx bf h1 h2) [0..<nat (hash_count bf)]" "bits bf"] bf_bit_idx_byte [OF assms]
    by (simp add: bf_contains_def bf_probes_def h)
qed

lemma bf_clear_ok: "bf_ok bf \<Longrightarrow> bf_ok (bf_clear bf)"
  by (simp add: bf_ok_def bf_clear_def)

section \<open>Runs\<close>

text \<open>The operations that change a filter, and the abstract filter: the set of elements added since it was last cleared.\<close>

datatype bf_op = BfAdd "u8 list" | BfClear

fun bf_step :: "(u64 \<Rightarrow> u8 list) \<Rightarrow> bf_op \<Rightarrow> bf_bloom_filter \<Rightarrow> bf_bloom_filter option" where
  "bf_step rep (BfAdd d) bf = map_option fst (bf_add rep bf d)"
| "bf_step rep BfClear bf = Some (bf_clear bf)"

fun bf_run :: "(u64 \<Rightarrow> u8 list) \<Rightarrow> bf_op list \<Rightarrow> bf_bloom_filter \<Rightarrow> bf_bloom_filter option" where
  "bf_run rep [] bf = Some bf"
| "bf_run rep (c # cs) bf = (case bf_step rep c bf of None \<Rightarrow> None | Some bf' \<Rightarrow> bf_run rep cs bf')"

fun elems_step :: "bf_op \<Rightarrow> u8 list set \<Rightarrow> u8 list set" where
  "elems_step (BfAdd d) S = (if d = [] then S else insert d S)"
| "elems_step BfClear S = {}"

definition elems_run :: "bf_op list \<Rightarrow> u8 list set \<Rightarrow> u8 list set" where
  "elems_run cs S = foldl (\<lambda>S c. elems_step c S) S cs"

text \<open>The simulation relation: the bits set are those of the elements.\<close>

definition bf_rel :: "(u64 \<Rightarrow> u8 list) \<Rightarrow> bf_bloom_filter \<Rightarrow> bf_bloom_filter \<Rightarrow> u8 list set \<Rightarrow> bool" where
  "bf_rel rep bf0 bf S = (bf_ok bf \<and> bit_count bf = bit_count bf0 \<and> hash_count bf = hash_count bf0
     \<and> bits_of (bits bf) = (\<Union>d \<in> S. bf_probes rep bf0 d))"

lemma bf_step_rel:
  assumes "bf_rel rep bf0 bf S"
  shows "\<exists>bf'. bf_step rep c bf = Some bf' \<and> bf_rel rep bf0 bf' (elems_step c S)"
proof (cases c)
  case (BfAdd d)
  have ok: "bf_ok bf" using assms by (simp add: bf_rel_def)
  have p: "bf_probes rep bf = bf_probes rep bf0" using assms by (intro bf_probes_cong) (simp_all add: bf_rel_def)
  show ?thesis
  proof (cases "d = []")
    case True
    then show ?thesis using assms BfAdd by (simp add: bf_add_def)
  next
    case False
    obtain bf' where "bf_add rep bf d = Some (bf', 0)" "bf_ok bf'" "bits_of (bits bf') = bits_of (bits bf) \<union> bf_probes rep bf d"
      "bit_count bf' = bit_count bf" "hash_count bf' = hash_count bf"
      by (rule bf_add_spec [OF ok False, of rep])
    then have "bf_rel rep bf0 bf' (insert d S)" using assms p by (simp add: bf_rel_def Un_commute)
    then show ?thesis using BfAdd False \<open>bf_add rep bf d = Some (bf', 0)\<close> by simp
  qed
next
  case BfClear
  then show ?thesis using assms bf_clear_ok [of bf] by (simp add: bf_rel_def) (simp add: bf_clear_def)
qed

lemma bf_run_rel:
  "bf_rel rep bf0 bf S \<Longrightarrow> \<exists>bf'. bf_run rep cs bf = Some bf' \<and> bf_rel rep bf0 bf' (elems_run cs S)"
proof (induction cs arbitrary: bf S)
  case (Cons c cs)
  obtain bf' where "bf_step rep c bf = Some bf'" "bf_rel rep bf0 bf' (elems_step c S)" using bf_step_rel [OF Cons.prems] by blast
  then show ?case using Cons.IH [of bf' "elems_step c S"] by (simp add: elems_run_def)
qed (simp add: elems_run_def)

lemma bf_rel_fresh:
  assumes "bf_create_with_params a b n k = Some bf0" "unat n + 7 < 2 ^ 64"
  shows "bf_rel rep bf0 bf0 {}"
  using bf_create_with_params_ok [OF assms] by (simp add: bf_rel_def)

section \<open>Counting bits\<close>

text \<open>Clearing the lowest set bit removes exactly one bit.\<close>

lemma clear_lowest:
  "0 < n \<Longrightarrow> \<exists>m. bit n m \<and> (\<forall>i. bit n i \<and> bit (n - 1) i \<longleftrightarrow> bit n i \<and> i \<noteq> m)" for n :: nat
proof (induction n rule: less_induct)
  case (less n)
  show ?case
  proof (cases "even n")
    case True
    then obtain c where c: "n = 2 * c" by (elim evenE)
    then have "0 < c" "c < n" using less.prems by simp_all
    then obtain m where m: "bit c m" "\<And>i. bit c i \<and> bit (c - 1) i \<longleftrightarrow> bit c i \<and> i \<noteq> m" using less.IH by blast
    have d: "n div 2 = c" "(n - 1) div 2 = c - 1" using c less.prems by simp_all
    have "bit n i \<and> bit (n - 1) i \<longleftrightarrow> bit n i \<and> i \<noteq> Suc m" for i
      using True m(2) by (cases i) (simp_all add: bit_0 bit_Suc d del: One_nat_def)
    moreover have "bit n (Suc m)" using m(1) by (simp add: bit_Suc d)
    ultimately show ?thesis by blast
  next
    case False
    then have "(n - 1) div 2 = n div 2" by (metis odd_two_times_div_two_nat nonzero_mult_div_cancel_left zero_neq_numeral)
    then have "bit n i \<and> bit (n - 1) i \<longleftrightarrow> bit n i \<and> i \<noteq> 0" for i
      using False by (cases i) (simp_all add: bit_0 bit_Suc)
    then show ?thesis using False by (intro exI [of _ 0]) (simp add: bit_0)
  qed
qed

lemma popcount8_bits: "popcount8 b = card {i. bit b i}"
proof (induction b rule: popcount8.induct)
  case (1 b)
  show ?case
  proof (cases "b = 0")
    case True
    then show ?thesis by (simp add: popcount8.simps)
  next
    case False
    then have u: "0 < unat b" "unat (b - 1) = unat b - 1" by (simp_all add: unat_gt_0 unat_minus_one)
    obtain m where m: "bit (unat b) m" "\<And>i. bit (unat b) i \<and> bit (unat b - 1) i \<longleftrightarrow> bit (unat b) i \<and> i \<noteq> m"
      using clear_lowest [OF u(1)] by blast
    have bu: "bit w i = bit (unat w) i" for w :: u8 and i by (simp add: bit_unsigned_iff)
    have m': "bit (b AND (b - 1)) i \<longleftrightarrow> bit b i \<and> i \<noteq> m" for i
      using m(2) [of i] unfolding bit_and_iff bu [of b] bu [of "b - 1"] u(2) .
    have "{i. bit b i} = insert m {i. bit (b AND (b - 1)) i}" "m \<notin> {i. bit (b AND (b - 1)) i}"
      using m(1) bu [of b m] unfolding m' by auto
    moreover have "finite {i. bit (b AND (b - 1)) i}" by (rule finite_subset [of _ "{..<8}"]) (auto dest: bit_imp_le_length)
    ultimately show ?thesis using "1.IH" False by (subst popcount8.simps) simp
  qed
qed

text \<open>The bits of the array, byte by byte.\<close>

lemma bits_of_Cons: "bits_of (b # bs) = {i. bit b i} \<union> (\<lambda>j. j + 8) ` bits_of bs"
proof (rule set_eqI)
  fix j :: nat
  show "j \<in> bits_of (b # bs) \<longleftrightarrow> j \<in> {i. bit b i} \<union> (\<lambda>j. j + 8) ` bits_of bs"
  proof (cases "j < 8")
    case True
    then show ?thesis by (auto simp: bits_of_def)
  next
    case False
    then obtain k where "j = k + 8" by (metis add.commute le_add_diff_inverse not_less)
    moreover have "\<not> bit b (k + 8)" by (auto dest: bit_imp_le_length)
    ultimately show ?thesis by (auto simp: bits_of_def)
  qed
qed

lemma bits_of_finite [simp]: "finite (bits_of bs)"
  by (rule finite_subset [of _ "{..<8 * length bs}"]) (auto simp: bits_of_def)

lemma popcount_bits_of: "sum_list (map popcount8 bs) = card (bits_of bs)"
proof (induction bs)
  case Nil
  then show ?case by (simp add: bits_of_def)
next
  case (Cons b bs)
  have "{i. bit b i} \<inter> (\<lambda>j. j + 8) ` bits_of bs = {}" by (auto dest: bit_imp_le_length)
  moreover have "finite {i. bit b i}" by (rule finite_subset [of _ "{..<8}"]) (auto dest: bit_imp_le_length)
  ultimately show ?case using Cons by (simp add: bits_of_Cons popcount8_bits card_Un_disjoint card_image)
qed

section \<open>An example filter\<close>

definition le_bytes :: "u64 \<Rightarrow> u8 list" where
  "le_bytes w = map (\<lambda>i. ucast (drop_bit (8 * i) w)) [0..<8]"

definition ex_bf :: bf_bloom_filter where
  "ex_bf = the (bf_create_with_params True True 100 3)"

definition ex_ops :: "bf_op list" where
  "ex_ops = [BfAdd (str_bytes ''x''), BfClear, BfAdd (str_bytes ''a''), BfAdd (str_bytes ''b'')]"

lemma ex_bf: "bf_create_with_params True True 100 3 = Some ex_bf" "unat (100 :: u64) + 7 < 2 ^ 64"
  by (simp_all add: ex_bf_def bf_create_with_params_def Let_def)

lemma ex_bf_run: obtains bf where "bf_run le_bytes ex_ops ex_bf = Some bf"
  using bf_run_rel [OF bf_rel_fresh [OF ex_bf], of le_bytes ex_ops] by blast

section \<open>Properties\<close>

text \<open>C24. Through every sequence of insertions and clearings the filter refines a set: nothing is accessed out of
  bounds, and a query answers yes exactly when every bit of the element belongs to an element added since the last
  clearing.\<close>

theorem bf_contains_exact:
  assumes "bf_create_with_params a b n k = Some bf0" "unat n + 7 < 2 ^ 64"
  shows "\<exists>bf. bf_run rep cs bf0 = Some bf \<and>
    (\<forall>d. bf_contains rep bf d = Some (d \<noteq> [] \<and> bf_probes rep bf0 d \<subseteq> (\<Union>x \<in> elems_run cs {}. bf_probes rep bf0 x)))"
proof -
  obtain bf where r: "bf_run rep cs bf0 = Some bf" "bf_rel rep bf0 bf (elems_run cs {})"
    using bf_run_rel [OF bf_rel_fresh [OF assms]] by blast
  have "bf_probes rep bf = bf_probes rep bf0" using r(2) by (intro bf_probes_cong) (simp_all add: bf_rel_def)
  then show ?thesis using r bf_contains_spec [of bf rep] by (simp add: bf_rel_def)
qed

theorem bf_contains_exact_witness:
  "bf_create_with_params True True 100 3 = Some ex_bf \<and>
   (\<exists>bf. bf_run le_bytes ex_ops ex_bf = Some bf \<and>
     (\<forall>d. bf_contains le_bytes bf d =
        Some (d \<noteq> [] \<and> bf_probes le_bytes ex_bf d \<subseteq> (\<Union>x \<in> elems_run ex_ops {}. bf_probes le_bytes ex_bf x))))"
  by (rule conjI [OF ex_bf(1) bf_contains_exact [OF ex_bf]])

text \<open>There are no false negatives: an element added and not cleared away is always found.\<close>

theorem bf_no_false_negatives:
  assumes "bf_create_with_params a b n k = Some bf0" "unat n + 7 < 2 ^ 64" "bf_run rep cs bf0 = Some bf" "d \<in> elems_run cs {}" "d \<noteq> []"
  shows "bf_contains rep bf d = Some True"
proof -
  have r: "bf_rel rep bf0 bf (elems_run cs {})" using bf_run_rel [OF bf_rel_fresh [OF assms(1,2)], of rep cs] assms(3) by auto
  have "bf_probes rep bf = bf_probes rep bf0" using r by (intro bf_probes_cong) (simp_all add: bf_rel_def)
  then show ?thesis using r assms(4,5) bf_contains_spec [of bf rep d] by (auto simp: bf_rel_def)
qed

theorem bf_no_false_negatives_witness:
  "\<exists>bf. bf_run le_bytes ex_ops ex_bf = Some bf \<and> bf_contains le_bytes bf (str_bytes ''a'') = Some True"
proof -
  obtain bf where r: "bf_run le_bytes ex_ops ex_bf = Some bf" by (rule ex_bf_run)
  have d: "str_bytes ''a'' \<in> elems_run ex_ops {}" "str_bytes ''a'' \<noteq> []" by (simp_all add: elems_run_def ex_ops_def str_bytes_def)
  show ?thesis using r bf_no_false_negatives [OF ex_bf r d] by blast
qed

text \<open>The bit count of the fill ratio, by Kernighan's method over the bytes, is the number of bits the added elements
  stand for, and never exceeds the size of the filter.\<close>

theorem bf_set_bits_exact:
  assumes "bf_create_with_params a b n k = Some bf0" "unat n + 7 < 2 ^ 64" "bf_run rep cs bf0 = Some bf"
  shows "bf_set_bits bf = card (\<Union>x \<in> elems_run cs {}. bf_probes rep bf0 x) \<and> bf_set_bits bf \<le> unat (bit_count bf)"
proof -
  have r: "bf_rel rep bf0 bf (elems_run cs {})" using bf_run_rel [OF bf_rel_fresh [OF assms(1,2)], of rep cs] assms(3) by auto
  have "bf_ok bf" using r by (simp add: bf_rel_def)
  then have "card (bits_of (bits bf)) \<le> card {..<unat (bit_count bf)}" by (intro card_mono) (simp_all add: bf_ok_def)
  moreover have "bf_set_bits bf = card (bits_of (bits bf))" by (simp add: bf_set_bits_def popcount_bits_of)
  ultimately show ?thesis using r by (simp add: bf_rel_def)
qed

theorem bf_set_bits_exact_witness:
  "\<exists>bf. bf_run le_bytes ex_ops ex_bf = Some bf \<and>
     bf_set_bits bf = card (\<Union>x \<in> elems_run ex_ops {}. bf_probes le_bytes ex_bf x) \<and> bf_set_bits bf \<le> unat (bit_count bf)"
proof -
  obtain bf where r: "bf_run le_bytes ex_ops ex_bf = Some bf" by (rule ex_bf_run)
  show ?thesis using r bf_set_bits_exact [OF ex_bf r] by blast
qed

text \<open>The number of bytes wraps for the largest sizes: such a filter has no bytes, and the first insertion writes out of
  bounds.\<close>

theorem bf_huge_size_overruns:
  assumes "bf_create_with_params a b n k = Some bf" "2 ^ 64 \<le> unat n + 7" "d \<noteq> []"
  shows "bits bf = [] \<and> bf_add rep bf d = None"
proof -
  have "unat n < 2 ^ 64" using unsigned_less [of n] by simp
  then have "unat (n + 7) = unat n + 7 - 2 ^ 64" using assms(2) by (simp add: unat_word_ariths mod_if)
  then have "unat ((n + 7) div 8) = 0" using \<open>unat n < 2 ^ 64\<close> by (simp add: unat_div)
  then have b: "bits bf = []" "0 < hash_count bf"
    using assms(1) by (auto simp: bf_create_with_params_def BF_MAX_HASH_FUNCTIONS_def Let_def split: if_splits)
  then obtain m where "nat (hash_count bf) = Suc m" by (cases "nat (hash_count bf)") auto
  then show ?thesis using b assms(3) by (simp add: bf_add_def upt_conv_Cons del: upt_Suc split: prod.split)
qed

end
