(* ===== verification/Json.thy ===== *)
theory Json
  imports Float64 C_Text
begin

text \<open>
  The JSON reader and writer of \<open>src/mini-web-server/src/json_helper.c\<close>: tokenizer, recursive-descent parser, value
  tree, serializer into a caller's buffer, and path access.

  A tokenizer holds the input from its position on.  Allocations succeed, so the capacities of arrays and objects
  have no counterpart.  Characters are bytes; a C string ends at its first null byte.  What a failed call leaves in
  the token is not modelled: the token is then \<open>None\<close>.  The result of the parser is a value, a failure, or \<open>Undefined\<close>: the parser frees a value whose
  elements lie inside an array as if each were an allocation of its own.  The serializer works on the bytes of the buffer, and a write
  outside of it is \<open>None\<close>.  The format \<open>%.17g\<close> is a parameter.
\<close>

section \<open>Data\<close>

definition JSON_MAX_DEPTH :: int where "JSON_MAX_DEPTH = 32"
definition JSON_MAX_STRING_LEN :: nat where "JSON_MAX_STRING_LEN = 8192"
definition JSON_MAX_NUMBER_LEN :: nat where "JSON_MAX_NUMBER_LEN = 64"

datatype JsonType = JSON_NULL | JSON_BOOL | JSON_NUMBER | JSON_STRING | JSON_ARRAY | JSON_OBJECT

datatype JsonTokenType =
    JSON_TOK_LBRACE | JSON_TOK_RBRACE | JSON_TOK_LBRACKET | JSON_TOK_RBRACKET | JSON_TOK_COMMA | JSON_TOK_COLON
  | JSON_TOK_STRING | JSON_TOK_NUMBER | JSON_TOK_TRUE | JSON_TOK_FALSE | JSON_TOK_NULL | JSON_TOK_EOF | JSON_TOK_ERROR

record JsonToken =
  tok_type :: JsonTokenType
  tok_text :: string
  num_value :: double
  tok_line :: int
  tok_col :: int

datatype JsonValue =
    JNull | JBool bool | JNumber double | JString string
  | JArray "JsonValue list" | JObject "(string \<times> JsonValue) list"

record JsonTokenizer =
  t_rest :: string
  t_line :: int
  t_col :: int

section \<open>Tokenizer\<close>

definition NUL :: char where "NUL = CHR 0x00"

definition c_str :: "string \<Rightarrow> string" where
  "c_str s = takeWhile (\<lambda>c. c \<noteq> NUL) s"

definition json_tokenizer_init :: "string \<Rightarrow> JsonTokenizer" where
  "json_tokenizer_init input = \<lparr>t_rest = c_str input, t_line = 1, t_col = 1\<rparr>"

text \<open>Moving on to a later position of the same line.\<close>

definition adv :: "JsonTokenizer \<Rightarrow> string \<Rightarrow> JsonTokenizer" where
  "adv t r = t\<lparr>t_rest := r, t_col := t_col t + (int (length (t_rest t)) - int (length r))\<rparr>"

function skip_whitespace :: "JsonTokenizer \<Rightarrow> JsonTokenizer" where
  "skip_whitespace t =
     (case t_rest t of
        [] \<Rightarrow> t
      | c # cs \<Rightarrow>
          if c = CHR '' '' \<or> c = CHR 0x09 \<or> c = CHR 0x0D then skip_whitespace (t\<lparr>t_rest := cs, t_col := t_col t + 1\<rparr>)
          else if c = CHR 0x0A then skip_whitespace (t\<lparr>t_rest := cs, t_line := t_line t + 1, t_col := 1\<rparr>)
          else t)"
  by pat_completeness auto
termination by (relation "measure (\<lambda>t. length (t_rest t))") auto

declare skip_whitespace.simps [simp del]

definition hex_digit :: "char \<Rightarrow> nat option" where
  "hex_digit c =
     (let n = of_char c in
      if 48 \<le> n \<and> n \<le> 57 then Some (n - 48)
      else if 65 \<le> n \<and> n \<le> 70 then Some (n - 65 + 10)
      else if 97 \<le> n \<and> n \<le> 102 then Some (n - 97 + 10)
      else None)"

text \<open>The loop over the four digits of a unicode escape; the input begins with the character before the next digit.\<close>

fun hex_loop :: "nat \<Rightarrow> nat \<Rightarrow> string \<Rightarrow> nat option \<times> string" where
  "hex_loop 0 cp r = (Some cp, r)"
| "hex_loop (Suc i) cp r =
     (case tl r of
        [] \<Rightarrow> (None, [])
      | h # hs \<Rightarrow> (case hex_digit h of None \<Rightarrow> (None, h # hs) | Some d \<Rightarrow> hex_loop i (16 * cp + d) (h # hs)))"

definition utf8 :: "nat \<Rightarrow> string" where
  "utf8 cp =
     (if cp < 0x80 then [char_of cp]
      else if cp < 0x800 then [char_of (0xC0 + cp div 64), char_of (0x80 + cp mod 64)]
      else [char_of (0xE0 + cp div 4096), char_of (0x80 + cp div 64 mod 64), char_of (0x80 + cp mod 64)])"

definition escape_char :: "char \<Rightarrow> char option" where
  "escape_char e =
     (if e = CHR 0x22 then Some (CHR 0x22) else if e = CHR 0x5C then Some (CHR 0x5C) else if e = CHR ''/'' then Some (CHR ''/'')
      else if e = CHR ''b'' then Some (CHR 0x08) else if e = CHR ''f'' then Some (CHR 0x0C) else if e = CHR ''n'' then Some (CHR 0x0A)
      else if e = CHR ''r'' then Some (CHR 0x0D) else if e = CHR ''t'' then Some (CHR 0x09) else None)"

lemma hex_loop_length: "length (snd (hex_loop n cp r)) \<le> length r"
proof (induction n arbitrary: cp r)
  case (Suc n)
  show ?case
  proof (cases "tl r")
    case (Cons h hs)
    then have "length (h # hs) \<le> length r" by (metis length_tl diff_le_self)
    then show ?thesis using Cons Suc.IH [of _ "h # hs"] by (auto split: option.splits intro: le_trans)
  qed simp
qed simp

function string_loop :: "string \<Rightarrow> string \<Rightarrow> string option \<times> string" where
  "string_loop r out =
     (if r \<noteq> [] \<and> length out < JSON_MAX_STRING_LEN - 1 then
        if hd r = CHR 0x22 then (Some out, tl r)
        else if hd r = CHR 0x5C then
          (case tl r of
             [] \<Rightarrow> (None, [])
           | e # es \<Rightarrow>
               if e = CHR ''u'' then
                 (case hex_loop 4 0 (e # es) of
                    (None, r') \<Rightarrow> (None, r')
                  | (Some cp, r') \<Rightarrow> string_loop (tl r') (out @ utf8 cp))
               else (case escape_char e of None \<Rightarrow> (None, e # es) | Some ch \<Rightarrow> string_loop es (out @ [ch])))
        else if (of_char (hd r) :: nat) < 0x20 then (None, r)
        else string_loop (tl r) (out @ [hd r])
      else (None, r))"
  by pat_completeness auto
termination
proof (relation "measure (\<lambda>(r, _). length r)", goal_cases)
  case (2 r out e es x r' cp)
  then have "length r' \<le> length (e # es)" using hex_loop_length [of 4 0 "e # es"] by (metis snd_conv)
  moreover have "length (e # es) < length r" using 2 by (metis length_tl length_greater_0_conv diff_less zero_less_one)
  ultimately show ?case by simp
next
  case (3 r out e es ch)
  then have "length (e # es) < length r" by (metis length_tl length_greater_0_conv diff_less zero_less_one)
  then show ?case by simp
qed auto

declare string_loop.simps [simp del]

definition parse_string_token :: "JsonTokenizer \<Rightarrow> JsonToken \<Rightarrow> JsonTokenizer \<times> JsonToken option" where
  "parse_string_token t tok =
     (case t_rest t of
        [] \<Rightarrow> (t, None)
      | q # r \<Rightarrow>
          if q \<noteq> CHR 0x22 then (t, None)
          else (case string_loop r [] of
                  (None, r') \<Rightarrow> (adv t r', None)
                | (Some out, r') \<Rightarrow> (adv t r', Some (tok\<lparr>tok_type := JSON_TOK_STRING, tok_text := c_str out\<rparr>))))"

text \<open>The parts of a number: what is consumed, what is left, and whether the number is complete.\<close>

definition starts_digit :: "string \<Rightarrow> bool" where
  "starts_digit r = (case r of [] \<Rightarrow> False | c # _ \<Rightarrow> is_digit c)"

definition lex_sign :: "string \<Rightarrow> string \<times> string" where
  "lex_sign s = (case s of c # r \<Rightarrow> if c = CHR ''-'' then ([c], r) else ([], s) | [] \<Rightarrow> ([], []))"

definition lex_int :: "string \<Rightarrow> string \<times> string" where
  "lex_int r = (if hd r = CHR ''0'' then ([hd r], tl r) else (takeWhile is_digit r, dropWhile is_digit r))"

definition lex_frac :: "string \<Rightarrow> bool \<times> string \<times> string" where
  "lex_frac r =
     (case r of
        c # cs \<Rightarrow>
          if c = CHR ''.'' then
            (if starts_digit cs then (True, c # takeWhile is_digit cs, dropWhile is_digit cs) else (False, [c], cs))
          else (True, [], r)
      | [] \<Rightarrow> (True, [], []))"

definition lex_exp_sign :: "string \<Rightarrow> string \<times> string" where
  "lex_exp_sign r = (case r of c # cs \<Rightarrow> if c = CHR ''+'' \<or> c = CHR ''-'' then ([c], cs) else ([], r) | [] \<Rightarrow> ([], []))"

definition lex_exp :: "string \<Rightarrow> bool \<times> string \<times> string" where
  "lex_exp r =
     (case r of
        c # cs \<Rightarrow>
          if c = CHR ''e'' \<or> c = CHR ''E'' then
            (case lex_exp_sign cs of
               (sg, ds) \<Rightarrow>
                 if starts_digit ds then (True, c # sg @ takeWhile is_digit ds, dropWhile is_digit ds) else (False, c # sg, ds))
          else (True, [], r)
      | [] \<Rightarrow> (True, [], []))"

definition lex_number :: "string \<Rightarrow> bool \<times> string \<times> string" where
  "lex_number s =
     (let (sg, r1) = lex_sign s
      in if \<not> starts_digit r1 then (False, sg, r1)
         else
           let (ip, r2) = lex_int r1;
               (ok1, fp, r3) = lex_frac r2
           in if \<not> ok1 then (False, sg @ ip @ fp, r3)
              else
                let (ok2, ep, r4) = lex_exp r3
                in (ok2, sg @ ip @ fp @ ep, r4))"

text \<open>\<open>strtod\<close> on the text of a JSON number: the nearest double.\<close>

definition strtod :: "string \<Rightarrow> double" where
  "strtod s =
     (let (sg, r1) = lex_sign s;
          ip = takeWhile is_digit r1;
          r2 = dropWhile is_digit r1;
          fp = (case r2 of c # cs \<Rightarrow> if c = CHR ''.'' then takeWhile is_digit cs else [] | [] \<Rightarrow> []);
          r3 = drop (length fp + (if fp = [] then 0 else 1)) r2;
          e = (case r3 of c # cs \<Rightarrow> if c = CHR ''e'' \<or> c = CHR ''E'' then atoi cs else 0 | [] \<Rightarrow> 0)
      in fl ((if sg = [] then 1 else -1) * of_int (dec_value (ip @ fp)) * 10 powi (e - int (length fp))))"

definition parse_number_token :: "JsonTokenizer \<Rightarrow> JsonToken \<Rightarrow> JsonTokenizer \<times> JsonToken option" where
  "parse_number_token t tok =
     (case lex_number (t_rest t) of
        (ok, txt, r) \<Rightarrow>
          if \<not> ok then (t\<lparr>t_col := t_col t + int (length txt)\<rparr>, None)
          else if length txt \<ge> JSON_MAX_NUMBER_LEN then (adv t r, None)
          else (adv t r, Some (tok\<lparr>tok_type := JSON_TOK_NUMBER, tok_text := txt, num_value := strtod txt\<rparr>)))"

definition is_alnum :: "char \<Rightarrow> bool" where
  "is_alnum c = (let n = of_char c :: nat in is_digit c \<or> (65 \<le> n \<and> n \<le> 90) \<or> (97 \<le> n \<and> n \<le> 122))"

definition match_keyword :: "JsonTokenizer \<Rightarrow> string \<Rightarrow> JsonTokenType \<Rightarrow> JsonToken \<Rightarrow> JsonTokenizer \<times> JsonToken option" where
  "match_keyword t kw tt tok =
     (if length (t_rest t) < length kw \<or> take (length kw) (t_rest t) \<noteq> kw then (t, None)
      else
        (case drop (length kw) (t_rest t) of
           c # _ \<Rightarrow> if is_alnum c \<or> c = CHR ''_'' then (t, None) else (adv t (drop (length kw) (t_rest t)), Some (tok\<lparr>tok_type := tt\<rparr>))
         | [] \<Rightarrow> (adv t [], Some (tok\<lparr>tok_type := tt\<rparr>))))"

definition zero_token :: JsonToken where
  "zero_token = \<lparr>tok_type = JSON_TOK_LBRACE, tok_text = [], num_value = 0, tok_line = 0, tok_col = 0\<rparr>"

definition json_tokenizer_next :: "JsonTokenizer \<Rightarrow> JsonTokenizer \<times> JsonToken option" where
  "json_tokenizer_next t0 =
     (let tok = zero_token\<lparr>tok_line := t_line t0, tok_col := t_col t0\<rparr>;
          t = skip_whitespace t0
      in case t_rest t of
           [] \<Rightarrow> (t, Some (tok\<lparr>tok_type := JSON_TOK_EOF\<rparr>))
         | c # cs \<Rightarrow>
             let one = (\<lambda>tt. (adv t cs, Some (tok\<lparr>tok_type := tt\<rparr>)))
             in if c = CHR 0x7B then one JSON_TOK_LBRACE
                else if c = CHR 0x7D then one JSON_TOK_RBRACE
                else if c = CHR ''['' then one JSON_TOK_LBRACKET
                else if c = CHR '']'' then one JSON_TOK_RBRACKET
                else if c = CHR '','' then one JSON_TOK_COMMA
                else if c = CHR '':'' then one JSON_TOK_COLON
                else if c = CHR 0x22 then parse_string_token t tok
                else if c = CHR ''t'' then match_keyword t ''true'' JSON_TOK_TRUE tok
                else if c = CHR ''f'' then match_keyword t ''false'' JSON_TOK_FALSE tok
                else if c = CHR ''n'' then match_keyword t ''null'' JSON_TOK_NULL tok
                else if c = CHR ''-'' \<or> is_digit c then parse_number_token t tok
                else (t, None))"

section \<open>Values\<close>

definition json_value_type :: "JsonValue option \<Rightarrow> JsonType" where
  "json_value_type h =
     (case h of
        None \<Rightarrow> JSON_NULL
      | Some v \<Rightarrow> (case v of JNull \<Rightarrow> JSON_NULL | JBool _ \<Rightarrow> JSON_BOOL | JNumber _ \<Rightarrow> JSON_NUMBER | JString _ \<Rightarrow> JSON_STRING
                   | JArray _ \<Rightarrow> JSON_ARRAY | JObject _ \<Rightarrow> JSON_OBJECT))"

definition json_value_get_bool :: "JsonValue option \<Rightarrow> bool \<Rightarrow> bool" where
  "json_value_get_bool h d = (case h of Some (JBool b) \<Rightarrow> b | _ \<Rightarrow> d)"

definition json_value_get_number :: "JsonValue option \<Rightarrow> double \<Rightarrow> double" where
  "json_value_get_number h d = (case h of Some (JNumber n) \<Rightarrow> n | _ \<Rightarrow> d)"

definition json_value_get_string :: "JsonValue option \<Rightarrow> string \<Rightarrow> string" where
  "json_value_get_string h d = (case h of Some (JString s) \<Rightarrow> s | _ \<Rightarrow> d)"

definition json_array_size :: "JsonValue option \<Rightarrow> nat" where
  "json_array_size h = (case h of Some (JArray vs) \<Rightarrow> length vs | _ \<Rightarrow> 0)"

definition json_array_get :: "JsonValue option \<Rightarrow> int \<Rightarrow> JsonValue option" where
  "json_array_get h i = (case h of Some (JArray vs) \<Rightarrow> if i < 0 \<or> i \<ge> int (length vs) then None else Some (vs ! nat i) | _ \<Rightarrow> None)"

definition json_object_size :: "JsonValue option \<Rightarrow> nat" where
  "json_object_size h = (case h of Some (JObject kvs) \<Rightarrow> length kvs | _ \<Rightarrow> 0)"

definition json_object_get :: "JsonValue option \<Rightarrow> string \<Rightarrow> JsonValue option" where
  "json_object_get h key =
     (case h of
        Some (JObject kvs) \<Rightarrow> map_option (\<lambda>i. snd (kvs ! i)) (find_idx (\<lambda>kv. fst kv = key) kvs (length kvs))
      | _ \<Rightarrow> None)"

definition json_object_keys :: "JsonValue option \<Rightarrow> string list option" where
  "json_object_keys h = (case h of Some (JObject kvs) \<Rightarrow> Some (map fst kvs) | _ \<Rightarrow> None)"

definition json_build_null :: JsonValue where "json_build_null = JNull"
definition json_build_bool :: "bool \<Rightarrow> JsonValue" where "json_build_bool b = JBool b"
definition json_build_number :: "double \<Rightarrow> JsonValue" where "json_build_number n = JNumber n"
definition json_build_string :: "string \<Rightarrow> JsonValue" where "json_build_string s = JString s"
definition json_build_array :: JsonValue where "json_build_array = JArray []"
definition json_build_object :: JsonValue where "json_build_object = JObject []"

definition json_array_push :: "JsonValue \<Rightarrow> JsonValue \<Rightarrow> JsonValue \<times> bool" where
  "json_array_push arr item = (case arr of JArray vs \<Rightarrow> (JArray (vs @ [item]), True) | _ \<Rightarrow> (arr, False))"

text \<open>What a function returns that frees a value and gives up.  The elements of a container lie inside its array, but each is passed
  to \<open>json_value_free\<close>, which ends with \<open>free\<close> of its address: the first one frees the array, whose own \<open>free\<close> follows, the others are
  no allocations at all.\<close>

datatype json_result = Value JsonValue | Fail | Undefined

definition json_value_free :: "JsonValue \<Rightarrow> json_result" where
  "json_value_free v =
     (case v of
        JArray vs \<Rightarrow> if vs = [] then Fail else Undefined
      | JObject kvs \<Rightarrow> if kvs = [] then Fail else Undefined
      | _ \<Rightarrow> Fail)"

text \<open>For a key that is already there the source frees the old value in the same way, which lies in the array of values, and then
  writes to it: \<open>None\<close> stands for this undefined behaviour.\<close>

definition json_object_set :: "JsonValue \<Rightarrow> string \<Rightarrow> JsonValue \<Rightarrow> (JsonValue \<times> bool) option" where
  "json_object_set obj key val =
     (case obj of
        JObject kvs \<Rightarrow>
          (case find_idx (\<lambda>kv. fst kv = key) kvs (length kvs) of
             Some i \<Rightarrow> None
           | None \<Rightarrow> Some (JObject (kvs @ [(key, val)]), True))
      | _ \<Rightarrow> Some (obj, False))"

section \<open>Parser\<close>

record JsonParser =
  tokenizer :: JsonTokenizer
  current :: "JsonToken option"

definition parser_advance :: "JsonParser \<Rightarrow> JsonParser" where
  "parser_advance p = (case json_tokenizer_next (tokenizer p) of (t, tok) \<Rightarrow> \<lparr>tokenizer = t, current = tok\<rparr>)"

definition cur :: "JsonParser \<Rightarrow> JsonTokenType option" where
  "cur p = map_option tok_type (current p)"

function parse_value :: "JsonParser \<Rightarrow> int \<Rightarrow> json_result \<times> JsonParser"
  and parse_object :: "JsonParser \<Rightarrow> int \<Rightarrow> json_result \<times> JsonParser"
  and members_loop :: "JsonParser \<Rightarrow> int \<Rightarrow> JsonValue \<Rightarrow> json_result \<times> JsonParser"
  and parse_array :: "JsonParser \<Rightarrow> int \<Rightarrow> json_result \<times> JsonParser"
  and elements_loop :: "JsonParser \<Rightarrow> int \<Rightarrow> JsonValue \<Rightarrow> json_result \<times> JsonParser" where
  "parse_value p depth =
     (case current p of
        None \<Rightarrow> (Fail, p)
      | Some tok \<Rightarrow>
          (case tok_type tok of
             JSON_TOK_LBRACE \<Rightarrow> parse_object (parser_advance p) depth
           | JSON_TOK_LBRACKET \<Rightarrow> parse_array (parser_advance p) depth
           | JSON_TOK_STRING \<Rightarrow> (Value (json_build_string (tok_text tok)), parser_advance p)
           | JSON_TOK_NUMBER \<Rightarrow> (Value (json_build_number (num_value tok)), parser_advance p)
           | JSON_TOK_TRUE \<Rightarrow> (Value (json_build_bool True), parser_advance p)
           | JSON_TOK_FALSE \<Rightarrow> (Value (json_build_bool False), parser_advance p)
           | JSON_TOK_NULL \<Rightarrow> (Value json_build_null, parser_advance p)
           | _ \<Rightarrow> (Fail, p)))"
| "parse_object p depth =
     (if depth > JSON_MAX_DEPTH then (Fail, p)
      else if cur p = Some JSON_TOK_RBRACE then (Value json_build_object, parser_advance p)
      else members_loop p depth json_build_object)"
| "members_loop p depth obj =
     (case current p of
        None \<Rightarrow> (json_value_free obj, p)
      | Some tok \<Rightarrow>
          if tok_type tok \<noteq> JSON_TOK_STRING then (json_value_free obj, p)
          else
            let p1 = parser_advance p
            in if cur p1 \<noteq> Some JSON_TOK_COLON then (json_value_free obj, p1)
               else
                 (case parse_value (parser_advance p1) (depth + 1) of
                    (Undefined, p2) \<Rightarrow> (Undefined, p2)
                  | (Fail, p2) \<Rightarrow> (json_value_free obj, p2)
                  | (Value val, p2) \<Rightarrow>
                      (case json_object_set obj (tok_text tok) val of
                         None \<Rightarrow> (Undefined, p2)
                       | Some (obj', _) \<Rightarrow>
                           if cur p2 = None then (json_value_free obj', p2)
                           else if cur p2 = Some JSON_TOK_RBRACE then (Value obj', parser_advance p2)
                           else if cur p2 \<noteq> Some JSON_TOK_COMMA then (json_value_free obj', p2)
                           else members_loop (parser_advance p2) depth obj')))"
| "parse_array p depth =
     (if depth > JSON_MAX_DEPTH then (Fail, p)
      else if cur p = Some JSON_TOK_RBRACKET then (Value json_build_array, parser_advance p)
      else elements_loop p depth json_build_array)"
| "elements_loop p depth arr =
     (case parse_value p (depth + 1) of
        (Undefined, p1) \<Rightarrow> (Undefined, p1)
      | (Fail, p1) \<Rightarrow> (json_value_free arr, p1)
      | (Value val, p1) \<Rightarrow>
          let arr' = fst (json_array_push arr val)
          in if cur p1 = None then (json_value_free arr', p1)
             else if cur p1 = Some JSON_TOK_RBRACKET then (Value arr', parser_advance p1)
             else if cur p1 \<noteq> Some JSON_TOK_COMMA then (json_value_free arr', p1)
             else elements_loop (parser_advance p1) depth arr')"
  by pat_completeness auto

text \<open>Every token but the end of the input consumes characters, so the parser ends.\<close>

lemma skip_whitespace_length: "length (t_rest (skip_whitespace t)) \<le> length (t_rest t)"
proof (induction t rule: skip_whitespace.induct)
  case (1 t)
  show ?case
  proof (cases "t_rest t")
    case (Cons c cs)
    then show ?thesis using 1 by (subst skip_whitespace.simps) (auto intro: le_SucI)
  qed (simp add: skip_whitespace.simps)
qed

lemma string_loop_stop: "\<not> (r \<noteq> [] \<and> length out < JSON_MAX_STRING_LEN - 1) \<Longrightarrow> string_loop r out = (None, r)"
  by (subst string_loop.simps) (rule if_not_P)

lemma string_loop_quote: "length out < JSON_MAX_STRING_LEN - 1 \<Longrightarrow> string_loop (CHR 0x22 # cs) out = (Some out, cs)"
  by (subst string_loop.simps) simp

lemma string_loop_escape:
  "length out < JSON_MAX_STRING_LEN - 1 \<Longrightarrow> string_loop (CHR 0x5C # cs) out =
    (case cs of
       [] \<Rightarrow> (None, [])
     | e # es \<Rightarrow>
         if e = CHR ''u'' then
           (case hex_loop 4 0 (e # es) of
              (None, r') \<Rightarrow> (None, r')
            | (Some cp, r') \<Rightarrow> string_loop (tl r') (out @ utf8 cp))
         else (case escape_char e of None \<Rightarrow> (None, e # es) | Some ch \<Rightarrow> string_loop es (out @ [ch])))"
  by (subst string_loop.simps) simp

lemma string_loop_plain:
  "length out < JSON_MAX_STRING_LEN - 1 \<Longrightarrow> c \<noteq> CHR 0x22 \<Longrightarrow> c \<noteq> CHR 0x5C \<Longrightarrow>
    string_loop (c # cs) out = (if (of_char c :: nat) < 0x20 then (None, c # cs) else string_loop cs (out @ [c]))"
  by (subst string_loop.simps) simp

lemma string_loop_length: "length (snd (string_loop r out)) \<le> length r"
proof (induction "length r" arbitrary: r out rule: less_induct)
  case less
  show ?case
  proof (cases "r \<noteq> [] \<and> length out < JSON_MAX_STRING_LEN - 1")
    case True
    then obtain c cs where r: "r = c # cs" by (cases r) auto
    have IH: "length (snd (string_loop r' out')) \<le> length r" if "length r' < length r" for r' out'
      using less [OF that, of out'] that by simp
    have u: "length (snd (string_loop (tl r') out')) \<le> length r" if "hex_loop 4 0 cs = (Some cp, r')" "cs \<noteq> []" for cp r' out'
      using hex_loop_length [of 4 0 cs] that r by (intro IH) auto
    have n: "length r' \<le> length r" if "hex_loop 4 0 cs = (None, r')" for r'
      using hex_loop_length [of 4 0 cs] that r by simp
    consider "c = CHR 0x22" | "c = CHR 0x5C" | "c \<noteq> CHR 0x22" "c \<noteq> CHR 0x5C" by blast
    then show ?thesis
    proof cases
      case 2
      then show ?thesis using True r IH u n by (auto simp: string_loop_escape split: list.splits option.splits prod.splits)
    qed (use True r IH in \<open>auto simp: string_loop_quote string_loop_plain\<close>)
  qed (simp add: string_loop_stop)
qed

lemma lex_append:
  "lex_sign s = (a, b) \<Longrightarrow> a @ b = s"
  "starts_digit s \<Longrightarrow> lex_int s = (a, b) \<Longrightarrow> a @ b = s \<and> a \<noteq> []"
  "lex_frac s = (ok, a, b) \<Longrightarrow> a @ b = s"
  "lex_exp_sign s = (a, b) \<Longrightarrow> a @ b = s"
  by (auto simp: lex_sign_def lex_int_def lex_frac_def lex_exp_sign_def starts_digit_def split: list.splits if_splits)

lemma lex_exp_append: "lex_exp s = (ok, a, b) \<Longrightarrow> a @ b = s"
  using lex_append(4) by (fastforce simp: lex_exp_def split: list.splits if_splits prod.splits)

lemma lex_number_append:
  assumes "lex_number s = (ok, txt, r)"
  shows "txt @ r = s \<and> (ok \<longrightarrow> txt \<noteq> [])"
proof -
  obtain sg r1 where 1: "lex_sign s = (sg, r1)" by fastforce
  obtain ip r2 where 2: "lex_int r1 = (ip, r2)" by fastforce
  obtain ok1 fp r3 where 3: "lex_frac r2 = (ok1, fp, r3)" by (metis prod_cases3)
  obtain ok2 ep r4 where 4: "lex_exp r3 = (ok2, ep, r4)" by (metis prod_cases3)
  show ?thesis
  proof (cases "starts_digit r1")
    case True
    then show ?thesis
      using assms lex_append(1) [OF 1] lex_append(2) [OF True 2] lex_append(3) [OF 3] lex_exp_append [OF 4]
      by (auto simp: lex_number_def 1 2 3 4 split: if_splits)
  next
    case False
    then show ?thesis using assms lex_append(1) [OF 1] by (simp add: lex_number_def 1)
  qed
qed

lemma json_tokenizer_next_length:
  assumes "json_tokenizer_next t0 = (t', r)"
  shows "length (t_rest t') \<le> length (t_rest t0) \<and>
    (\<forall>tok. r = Some tok \<and> tok_type tok \<noteq> JSON_TOK_EOF \<longrightarrow> length (t_rest t') < length (t_rest t0))"
proof -
  define t where "t = skip_whitespace t0"
  have le: "length (t_rest t) \<le> length (t_rest t0)" unfolding t_def by (rule skip_whitespace_length)
  have str: "length (t_rest u) \<le> length (t_rest t) \<and> (x \<noteq> None \<longrightarrow> length (t_rest u) < length (t_rest t))"
    if "parse_string_token t tk = (u, x)" for tk u x
    using that string_loop_length [of "tl (t_rest t)" "[]"]
    by (auto simp: parse_string_token_def adv_def split: list.splits if_splits prod.splits option.splits)
  have num: "length (t_rest u) \<le> length (t_rest t) \<and> (x \<noteq> None \<longrightarrow> length (t_rest u) < length (t_rest t))"
    if n: "parse_number_token t tk = (u, x)" for tk u x
  proof -
    obtain ok tx w where l: "lex_number (t_rest t) = (ok, tx, w)" by (metis prod_cases3)
    have "length w \<le> length (t_rest t)" "ok \<Longrightarrow> length w < length (t_rest t)"
    proof -
      have "t_rest t = tx @ w" "ok \<longrightarrow> tx \<noteq> []" using lex_number_append [OF l] by simp_all
      then show "length w \<le> length (t_rest t)" "ok \<Longrightarrow> length w < length (t_rest t)" by auto
    qed
    then show ?thesis using n l by (cases "ok \<and> length tx < JSON_MAX_NUMBER_LEN") (auto simp: parse_number_token_def adv_def split: if_splits)
  qed
  have kw: "length (t_rest u) \<le> length (t_rest t) \<and> (x \<noteq> None \<longrightarrow> length (t_rest u) < length (t_rest t))"
    if "match_keyword t k tt tk = (u, x)" "k \<noteq> []" "t_rest t \<noteq> []" for k tt tk u x
  proof -
    have "length (drop (length k) (t_rest t)) < length (t_rest t)" using that(2,3) by simp
    then show ?thesis using that(1) by (auto simp: match_keyword_def adv_def split: list.splits if_splits simp del: length_drop)
  qed
  show ?thesis
  proof (cases "t_rest t")
    case Nil
    then show ?thesis using assms le by (auto simp: json_tokenizer_next_def t_def [symmetric])
  next
    case (Cons c cs)
    have "length (t_rest t') \<le> length (t_rest t) \<and> (r \<noteq> None \<longrightarrow> length (t_rest t') < length (t_rest t))"
      using assms Cons str num kw
      by (fastforce simp: json_tokenizer_next_def t_def [symmetric] Let_def adv_def split: if_splits)
    then show ?thesis using le by auto
  qed
qed

definition parser_size :: "JsonParser \<Rightarrow> nat" where
  "parser_size p = length (t_rest (tokenizer p)) + (if cur p = None \<or> cur p = Some JSON_TOK_EOF then 0 else 1)"

lemma parser_advance_size: "parser_size (parser_advance p) \<le> length (t_rest (tokenizer p))"
  using json_tokenizer_next_length [of "tokenizer p"]
  by (fastforce simp: parser_size_def parser_advance_def cur_def split: prod.splits option.splits)

lemma parser_advance_less:
  "cur p = Some tt \<Longrightarrow> tt \<noteq> JSON_TOK_EOF \<Longrightarrow> parser_size (parser_advance p) < parser_size p"
  using parser_advance_size [of p] by (simp add: parser_size_def)

lemma parser_advance_le: "parser_size (parser_advance p) \<le> parser_size p"
  using parser_advance_size [of p] by (simp add: parser_size_def)

lemma parse_size:
  "parse_value_parse_object_members_loop_parse_array_elements_loop_dom (Inl (Inl (p, d))) \<Longrightarrow> parser_size (snd (parse_value p d)) \<le> parser_size p"
  "parse_value_parse_object_members_loop_parse_array_elements_loop_dom (Inl (Inr (p, d))) \<Longrightarrow> parser_size (snd (parse_object p d)) \<le> parser_size p"
  "parse_value_parse_object_members_loop_parse_array_elements_loop_dom (Inr (Inl (p, d, v))) \<Longrightarrow> parser_size (snd (members_loop p d v)) \<le> parser_size p"
  "parse_value_parse_object_members_loop_parse_array_elements_loop_dom (Inr (Inr (Inl (p, d)))) \<Longrightarrow> parser_size (snd (parse_array p d)) \<le> parser_size p"
  "parse_value_parse_object_members_loop_parse_array_elements_loop_dom (Inr (Inr (Inr (p, d, v)))) \<Longrightarrow> parser_size (snd (elements_loop p d v)) \<le> parser_size p"
proof (induction p d and p d and p d v and p d and p d v rule: parse_value_parse_object_members_loop_parse_array_elements_loop.pinduct)
  case (1 p depth)
  then show ?case
    by (auto simp: parse_value.psimps parser_advance_le split: option.splits JsonTokenType.splits intro: le_trans [OF _ parser_advance_le])
next
  case (2 p depth)
  then show ?case by (auto simp: parse_object.psimps parser_advance_le)
next
  case (3 p depth obj)
  show ?case
  proof (cases "current p")
    case (Some tok)
    let ?p1 = "parser_advance p"
    obtain r p2 where v: "parse_value (parser_advance ?p1) (depth + 1) = (r, p2)" by fastforce
    have "parser_size p2 \<le> parser_size p" if "tok_type tok = JSON_TOK_STRING" "cur ?p1 = Some JSON_TOK_COLON"
      using "3.IH"(1) [OF Some _ refl] that v parser_advance_le [of p] parser_advance_le [of ?p1] by simp
    then show ?thesis using "3.hyps" "3.IH"(2) [OF Some _ refl _ v [symmetric]] Some v parser_advance_le [of p] parser_advance_le [of p2]
      by (auto simp: members_loop.psimps Let_def split: json_result.splits option.splits) (meson order.trans)+
  qed (use "3.hyps" in \<open>simp add: members_loop.psimps\<close>)
next
  case (4 p depth)
  then show ?case by (auto simp: parse_array.psimps parser_advance_le)
next
  case (5 p depth arr)
  obtain r p2 where v: "parse_value p (depth + 1) = (r, p2)" by fastforce
  have "parser_size p2 \<le> parser_size p" using "5.IH"(1) v by simp
  then show ?case using "5.hyps" "5.IH"(2) [OF v [symmetric] _ refl] v parser_advance_le [of p2]
    by (auto simp: elements_loop.psimps Let_def split: json_result.splits)
qed

termination parse_value
proof (relation "measure (case_sum (case_sum (\<lambda>(p, _). 3 * parser_size p) (\<lambda>(p, _). 3 * parser_size p + 2))
    (case_sum (\<lambda>(p, _, _). 3 * parser_size p + 1) (case_sum (\<lambda>(p, _). 3 * parser_size p + 2) (\<lambda>(p, _, _). 3 * parser_size p + 1))))", goal_cases)
  case (2 p depth tok)
  then show ?case using parser_advance_less [of p] by (simp add: cur_def)
next
  case (3 p depth tok)
  then show ?case using parser_advance_less [of p] by (simp add: cur_def)
next
  case (5 p depth obj tok p1)
  then show ?case using parser_advance_less [of p] parser_advance_le [of p1] by (simp add: cur_def)
next
  case (6 p depth obj tok p1 r p2 v x obj' b)
  then have "parser_size p2 \<le> parser_size (parser_advance p1)" using parse_size(1) [of "parser_advance p1" "depth + 1"] by (metis snd_conv)
  then show ?case using 6 parser_advance_less [of p] parser_advance_le [of p1] parser_advance_le [of p2] by (simp add: cur_def)
next
  case (9 p depth arr r p1 v arr')
  then have "parser_size p1 \<le> parser_size p" using parse_size(1) [of p "depth + 1"] by (metis snd_conv)
  then show ?case using 9 parser_advance_less [of p1] by simp
qed simp_all

declare parse_value.simps [simp del] parse_object.simps [simp del] members_loop.simps [simp del]
  parse_array.simps [simp del] elements_loop.simps [simp del]

definition json_parse :: "string \<Rightarrow> json_result" where
  "json_parse json_str =
     (let p = parser_advance \<lparr>tokenizer = json_tokenizer_init json_str, current = None\<rparr>
      in if current p = None then Fail
         else if cur p = Some JSON_TOK_EOF then Fail
         else fst (parse_value p 0))"

section \<open>Serializer\<close>

text \<open>\<open>snprintf\<close> and the assignment of a byte at a position of the buffer.  The size that is passed is the difference of two
  unsigned numbers: beyond the end it wraps, and the text is written out of bounds.\<close>

definition write_at :: "string \<Rightarrow> nat \<Rightarrow> string \<Rightarrow> string" where
  "write_at buf pos s = take pos buf @ s @ drop (pos + length s) buf"

definition sn_put :: "string \<Rightarrow> string \<times> nat \<Rightarrow> (string \<times> nat) option" where
  "sn_put s st =
     (let (buf, pos) = st
      in if pos > length buf then None
         else if pos = length buf then Some (buf, pos + length s)
         else Some (write_at buf pos (take (length buf - pos - 1) s @ [NUL]), pos + length s))"

definition put_char :: "char \<Rightarrow> string \<times> nat \<Rightarrow> (string \<times> nat) option" where
  "put_char c st = (let (buf, pos) = st in if pos < length buf then Some (buf[pos := c], pos + 1) else None)"

text \<open>What one character of a string becomes.\<close>

definition escaped :: "char \<Rightarrow> string option" where
  "escaped c =
     (if c = CHR 0x22 then Some [CHR 0x5C, CHR 0x22] else if c = CHR 0x5C then Some [CHR 0x5C, CHR 0x5C]
      else if c = CHR 0x08 then Some [CHR 0x5C, CHR ''b''] else if c = CHR 0x0C then Some [CHR 0x5C, CHR ''f'']
      else if c = CHR 0x0A then Some [CHR 0x5C, CHR ''n''] else if c = CHR 0x0D then Some [CHR 0x5C, CHR ''r'']
      else if c = CHR 0x09 then Some [CHR 0x5C, CHR ''t'']
      else let n = of_char c :: nat
           in if n < 0x20 then Some [CHR 0x5C, CHR ''u'', CHR ''0'', CHR ''0'', hex_char (n div 16), hex_char (n mod 16)] else None)"

fun put_string :: "string \<Rightarrow> string \<times> nat \<Rightarrow> (string \<times> nat) option" where
  "put_string [] st = Some st"
| "put_string (c # cs) st =
     (if length (fst st) \<ge> 2 \<and> \<not> snd st < length (fst st) - 2 then Some st
      else (case (case escaped c of Some e \<Rightarrow> sn_put e st | None \<Rightarrow> put_char c st) of
              None \<Rightarrow> None
            | Some st' \<Rightarrow> put_string cs st'))"

definition fmt_number :: "(double \<Rightarrow> string) \<Rightarrow> double \<Rightarrow> string" where
  "fmt_number g17 n =
     (if of_int \<lfloor>n\<rfloor> = n \<and> \<bar>n\<bar> < 10 ^ 15
      then (if n < 0 then [CHR ''-''] else []) @ dec_digits (nat \<lfloor>\<bar>n\<bar>\<rfloor>)
      else g17 n)"

fun json_serialize_internal :: "(double \<Rightarrow> string) \<Rightarrow> JsonValue \<Rightarrow> string \<times> nat \<Rightarrow> (string \<times> nat) option"
  and ser_items :: "(double \<Rightarrow> string) \<Rightarrow> bool \<Rightarrow> JsonValue list \<Rightarrow> string \<times> nat \<Rightarrow> (string \<times> nat) option"
  and ser_members :: "(double \<Rightarrow> string) \<Rightarrow> bool \<Rightarrow> (string \<times> JsonValue) list \<Rightarrow> string \<times> nat \<Rightarrow> (string \<times> nat) option" where
  "json_serialize_internal g17 v st =
     (if snd st \<ge> length (fst st) then Some st
      else case v of
        JNull \<Rightarrow> sn_put ''null'' st
      | JBool b \<Rightarrow> sn_put (if b then ''true'' else ''false'') st
      | JNumber n \<Rightarrow> sn_put (fmt_number g17 n) st
      | JString s \<Rightarrow> Option.bind (Option.bind (sn_put [CHR 0x22] st) (put_string s)) (sn_put [CHR 0x22])
      | JArray vs \<Rightarrow> Option.bind (Option.bind (sn_put ''['' st) (ser_items g17 True vs)) (sn_put '']'')
      | JObject kvs \<Rightarrow> Option.bind (Option.bind (sn_put [CHR 0x7B] st) (ser_members g17 True kvs)) (sn_put [CHR 0x7D]))"
| "ser_items g17 first [] st = Some st"
| "ser_items g17 first (v # vs) st =
     Option.bind (Option.bind (if first then Some st else sn_put '','' st) (json_serialize_internal g17 v)) (ser_items g17 False vs)"
| "ser_members g17 first [] st = Some st"
| "ser_members g17 first ((k, v) # kvs) st =
     Option.bind
       (Option.bind (Option.bind (if first then Some st else sn_put '','' st) (sn_put ([CHR 0x22] @ k @ [CHR 0x22, CHR '':'']))) (json_serialize_internal g17 v))
       (ser_members g17 False kvs)"

declare json_serialize_internal.simps [simp del]

definition json_serialize :: "(double \<Rightarrow> string) \<Rightarrow> JsonValue \<Rightarrow> string \<Rightarrow> (string \<times> nat) option" where
  "json_serialize g17 v buf =
     (if buf = [] then Some (buf, 0)
      else case json_serialize_internal g17 v (buf, 0) of
             None \<Rightarrow> None
           | Some (buf', pos) \<Rightarrow> Some (if pos < length buf' then buf'[pos := NUL] else buf', pos))"

section \<open>Path access\<close>

text \<open>One segment of a path and what follows it, at most 255 characters.\<close>

fun take_seg :: "(char \<Rightarrow> bool) \<Rightarrow> nat \<Rightarrow> string \<Rightarrow> string \<times> string" where
  "take_seg P n [] = ([], [])"
| "take_seg P n (c # cs) =
     (if P c \<or> n = 0 then ([], c # cs) else (case take_seg P (n - 1) cs of (seg, r) \<Rightarrow> (c # seg, r)))"

definition next_segment :: "string \<Rightarrow> string \<times> string" where
  "next_segment p =
     (if hd p = CHR ''['' then
        (case take_seg (\<lambda>c. c = CHR '']'') 255 (tl p) of
           (seg, r) \<Rightarrow> (seg, (case r of c # cs \<Rightarrow> if c = CHR '']'' then cs else r | [] \<Rightarrow> [])))
      else take_seg (\<lambda>c. c = CHR ''.'' \<or> c = CHR ''['') 255 p)"

definition step_segment :: "JsonValue \<Rightarrow> string \<Rightarrow> JsonValue option" where
  "step_segment v seg =
     (if is_digit (hd seg) then json_array_get (Some v) (atoi seg) else json_object_get (Some v) seg)"

lemma take_seg_append: "take_seg P n s = (a, b) \<Longrightarrow> a @ b = s"
  by (induction P n s arbitrary: a b rule: take_seg.induct) (auto split: if_splits prod.splits)

lemma next_segment_length:
  assumes "p \<noteq> []" "next_segment p = (seg, r)" "seg \<noteq> []"
  shows "length r < length p"
proof (cases "hd p = CHR ''[''")
  case True
  obtain a b where t: "take_seg (\<lambda>c. c = CHR '']'') 255 (tl p) = (a, b)" by fastforce
  have "length b \<le> length (tl p)" using take_seg_append [OF t] by (metis length_append le_add2)
  then show ?thesis using assms(1,2) True t by (cases p) (auto simp: next_segment_def split: list.splits if_splits)
next
  case False
  then have "p = seg @ r" using assms(2) take_seg_append [symmetric] by (auto simp: next_segment_def)
  then show ?thesis using assms(3) by simp
qed

function json_path_get :: "JsonValue \<Rightarrow> string \<Rightarrow> JsonValue option" where
  "json_path_get v0 p =
     (if p = [] then Some v0
      else
        let (seg, r) = next_segment p
        in if seg = [] then Some v0
           else
             (case step_segment v0 seg of
                None \<Rightarrow> None
              | Some v \<Rightarrow> json_path_get v (case r of c # cs \<Rightarrow> if c = CHR ''.'' then cs else r | [] \<Rightarrow> [])))"
  by pat_completeness auto
termination
proof (relation "measure (\<lambda>(_, p). length p)", goal_cases)
  case (2 cur p x seg r v)
  then have "length r < length p" using next_segment_length [of p seg r] by simp
  then show ?case by (auto split: list.splits)
qed simp

declare json_path_get.simps [simp del]

section \<open>Serialization into a large enough buffer\<close>

definition esc_text :: "string \<Rightarrow> string" where
  "esc_text s = concat (map (\<lambda>c. case escaped c of Some e \<Rightarrow> e | None \<Rightarrow> [c]) s)"

fun json_text :: "(double \<Rightarrow> string) \<Rightarrow> JsonValue \<Rightarrow> string"
  and items_text :: "(double \<Rightarrow> string) \<Rightarrow> JsonValue list \<Rightarrow> string"
  and members_text :: "(double \<Rightarrow> string) \<Rightarrow> (string \<times> JsonValue) list \<Rightarrow> string" where
  "json_text g JNull = ''null''"
| "json_text g (JBool b) = (if b then ''true'' else ''false'')"
| "json_text g (JNumber n) = fmt_number g n"
| "json_text g (JString s) = CHR 0x22 # esc_text s @ [CHR 0x22]"
| "json_text g (JArray vs) = CHR ''['' # items_text g vs @ '']''"
| "json_text g (JObject kvs) = CHR 0x7B # members_text g kvs @ [CHR 0x7D]"
| "items_text g [] = []"
| "items_text g [v] = json_text g v"
| "items_text g (v # vs) = json_text g v @ CHR '','' # items_text g vs"
| "members_text g [] = []"
| "members_text g [(k, v)] = [CHR 0x22] @ k @ [CHR 0x22, CHR '':''] @ json_text g v"
| "members_text g ((k, v) # kvs) = [CHR 0x22] @ k @ [CHR 0x22, CHR '':''] @ json_text g v @ CHR '','' # members_text g kvs"

text \<open>The buffer holds the text written so far.\<close>

definition holds :: "nat \<Rightarrow> string \<times> nat \<Rightarrow> string \<Rightarrow> bool" where
  "holds N st T = (length (fst st) = N \<and> snd st = length T \<and> take (length T) (fst st) = T)"

lemma holds_sn_put:
  assumes "holds N st T" "length T + length s < N"
  shows "\<exists>st'. sn_put s st = Some st' \<and> holds N st' (T @ s)"
proof -
  obtain buf where st: "st = (buf, length T)" "length buf = N" "take (length T) buf = T"
    using assms(1) by (cases st) (auto simp: holds_def)
  then have "sn_put s st = Some (write_at buf (length T) (s @ [NUL]), length T + length s)"
    using assms(2) by (simp add: sn_put_def)
  moreover have "holds N (write_at buf (length T) (s @ [NUL]), length T + length s) (T @ s)"
    using assms(2) st by (simp add: holds_def write_at_def)
  ultimately show ?thesis by blast
qed

lemma holds_put_char:
  assumes "holds N st T" "length T < N"
  shows "\<exists>st'. put_char c st = Some st' \<and> holds N st' (T @ [c])"
proof -
  obtain buf where st: "st = (buf, length T)" "length buf = N" "take (length T) buf = T"
    using assms(1) by (cases st) (auto simp: holds_def)
  then have "put_char c st = Some (buf[length T := c], length T + 1)" using assms(2) by (simp add: put_char_def)
  moreover have "holds N (buf[length T := c], length T + 1) (T @ [c])"
    using assms(2) st by (simp add: holds_def take_Suc_conv_app_nth)
  ultimately show ?thesis by blast
qed

lemma escaped_ne: "escaped c = Some e \<Longrightarrow> e \<noteq> []"
  by (auto simp: escaped_def Let_def split: if_splits)

lemma holds_put_string:
  "holds N st T \<Longrightarrow> length T + length (esc_text s) + 1 < N \<Longrightarrow>
   \<exists>st'. put_string s st = Some st' \<and> holds N st' (T @ esc_text s)"
proof (induction s arbitrary: st T)
  case (Cons c cs)
  let ?e = "case escaped c of Some e \<Rightarrow> e | None \<Rightarrow> [c]"
  have ne: "?e \<noteq> []" using escaped_ne [of c] by (auto split: option.splits)
  have T: "esc_text (c # cs) = ?e @ esc_text cs" by (simp add: esc_text_def)
  have small: "length T + length ?e < N" "length T < N" using Cons.prems(2) T by simp_all
  have "length T + length ?e + length (esc_text cs) + 1 < N" using Cons.prems(2) T by simp
  moreover have "1 \<le> length ?e" using ne by (simp add: Suc_le_eq)
  ultimately have "length T < N - 2" by linarith
  then have go: "\<not> (length (fst st) \<ge> 2 \<and> \<not> snd st < length (fst st) - 2)" using Cons.prems(1) by (simp add: holds_def)
  obtain st' where st': "(case escaped c of Some e \<Rightarrow> sn_put e st | None \<Rightarrow> put_char c st) = Some st'" "holds N st' (T @ ?e)"
  proof (cases "escaped c")
    case None
    then show thesis using holds_put_char [OF Cons.prems(1) small(2), of c] that by auto
  next
    case (Some e)
    then show thesis using holds_sn_put [OF Cons.prems(1), of e] small(1) that by auto
  qed
  have "length (T @ ?e) + length (esc_text cs) + 1 < N" using Cons.prems(2) T by simp
  from Cons.IH [OF st'(2) this] show ?case using go st'(1) T by auto
qed (simp add: esc_text_def)

text \<open>Texts of lists without and with the leading comma.\<close>

definition comma :: "bool \<Rightarrow> string" where
  "comma first = (if first then [] else '','')"

lemma items_text_Cons: "items_text g (v # vs) = json_text g v @ (if vs = [] then [] else comma False @ items_text g vs)"
  by (cases vs) (simp_all add: comma_def)

lemma members_text_Cons:
  "members_text g ((k, v) # kvs) = [CHR 0x22] @ k @ [CHR 0x22, CHR '':''] @ json_text g v @ (if kvs = [] then [] else comma False @ members_text g kvs)"
  by (cases kvs) (simp_all add: comma_def)

lemma holds_less: "holds N st T \<Longrightarrow> length T < N \<Longrightarrow> snd st < length (fst st)"
  by (simp add: holds_def)

definition ser_ok :: "nat \<Rightarrow> (double \<Rightarrow> string) \<Rightarrow> JsonValue \<Rightarrow> bool" where
  "ser_ok N g v = (\<forall>st T. holds N st T \<longrightarrow> length T + length (json_text g v) < N \<longrightarrow>
     (\<exists>st'. json_serialize_internal g v st = Some st' \<and> holds N st' (T @ json_text g v)))"

lemma ser_okD:
  "ser_ok N g v \<Longrightarrow> holds N st T \<Longrightarrow> length T + length (json_text g v) < N \<Longrightarrow>
    \<exists>st'. json_serialize_internal g v st = Some st' \<and> holds N st' (T @ json_text g v)"
  unfolding ser_ok_def by blast

lemma ser_items_holds:
  assumes "\<forall>v \<in> set vs. ser_ok N g v"
    and "holds N st T" "length T + length (if vs = [] then [] else comma first @ items_text g vs) < N"
  shows "\<exists>st'. ser_items g first vs st = Some st' \<and> holds N st' (T @ (if vs = [] then [] else comma first @ items_text g vs))"
  using assms
proof (induction vs arbitrary: st T first)
  case (Cons v vs)
  have len: "length T + length (comma first) + length (json_text g v) + length (if vs = [] then [] else comma False @ items_text g vs) < N"
    using Cons.prems(3) by (simp add: items_text_Cons)
  obtain s1 where s1: "(if first then Some st else sn_put '','' st) = Some s1" "holds N s1 (T @ comma first)"
  proof (cases first)
    case False
    then show thesis using holds_sn_put [OF Cons.prems(2), of "'',''"] len that by (auto simp: comma_def)
  qed (use Cons.prems(2) that in \<open>simp add: comma_def\<close>)
  obtain s2 where s2: "json_serialize_internal g v s1 = Some s2" "holds N s2 ((T @ comma first) @ json_text g v)"
    using ser_okD [OF _ s1(2), of g v] Cons.prems(1) len by auto
  obtain s3 where "ser_items g False vs s2 = Some s3"
    "holds N s3 (((T @ comma first) @ json_text g v) @ (if vs = [] then [] else comma False @ items_text g vs))"
    using Cons.IH [OF _ s2(2), where first = False] Cons.prems(1) len by auto
  then show ?case using s1(1) s2(1) by (simp add: items_text_Cons)
qed simp

lemma ser_members_holds:
  assumes "\<forall>kv \<in> set kvs. ser_ok N g (snd kv)"
    and "holds N st T" "length T + length (if kvs = [] then [] else comma first @ members_text g kvs) < N"
  shows "\<exists>st'. ser_members g first kvs st = Some st' \<and> holds N st' (T @ (if kvs = [] then [] else comma first @ members_text g kvs))"
  using assms
proof (induction kvs arbitrary: st T first)
  case (Cons kv kvs)
  obtain k v where kv: "kv = (k, v)" by fastforce
  let ?k = "[CHR 0x22] @ k @ [CHR 0x22, CHR '':'']"
  have len: "length T + length (comma first) + length ?k + length (json_text g v) + length (if kvs = [] then [] else comma False @ members_text g kvs) < N"
    using Cons.prems(3) by (simp add: kv members_text_Cons)
  obtain s1 where s1: "(if first then Some st else sn_put '','' st) = Some s1" "holds N s1 (T @ comma first)"
  proof (cases first)
    case False
    then show thesis using holds_sn_put [OF Cons.prems(2), of "'',''"] len that by (auto simp: comma_def)
  qed (use Cons.prems(2) that in \<open>simp add: comma_def\<close>)
  obtain s2 where s2: "sn_put ?k s1 = Some s2" "holds N s2 ((T @ comma first) @ ?k)"
    using holds_sn_put [OF s1(2), of ?k] len by auto
  obtain s3 where s3: "json_serialize_internal g v s2 = Some s3" "holds N s3 (((T @ comma first) @ ?k) @ json_text g v)"
    using ser_okD [OF _ s2(2), of g v] Cons.prems(1) len kv by auto
  obtain s4 where "ser_members g False kvs s3 = Some s4"
    "holds N s4 ((((T @ comma first) @ ?k) @ json_text g v) @ (if kvs = [] then [] else comma False @ members_text g kvs))"
    using Cons.IH [OF _ s3(2), where first = False] Cons.prems(1) len by auto
  then show ?case using s1(1) s2(1) s3(1) by (simp add: kv members_text_Cons)
qed simp

lemma ser_okI:
  assumes "\<And>st T. holds N st T \<Longrightarrow> snd st < length (fst st) \<Longrightarrow> length T + length (json_text g v) < N \<Longrightarrow>
    \<exists>st'. json_serialize_internal g v st = Some st' \<and> holds N st' (T @ json_text g v)"
  shows "ser_ok N g v"
  using assms holds_less by (fastforce simp: ser_ok_def)

lemma serialize_ok: "ser_ok N g v"
proof (induction v)
  case JNull
  show ?case by (rule ser_okI) (use holds_sn_put [of N _ _ "''null''"] in \<open>auto simp: json_serialize_internal.simps\<close>)
next
  case (JBool b)
  show ?case by (rule ser_okI) (use holds_sn_put [of N _ _ "json_text g (JBool b)"] in \<open>auto simp: json_serialize_internal.simps\<close>)
next
  case (JNumber n)
  show ?case by (rule ser_okI) (use holds_sn_put [of N _ _ "json_text g (JNumber n)"] in \<open>auto simp: json_serialize_internal.simps\<close>)
next
  case (JString s)
  show ?case
  proof (rule ser_okI)
    fix st T
    assume st: "holds N st T" "snd st < length (fst st)" "length T + length (json_text g (JString s)) < N"
    obtain s1 where s1: "sn_put [CHR 0x22] st = Some s1" "holds N s1 (T @ [CHR 0x22])"
      using holds_sn_put [OF st(1), of "[CHR 0x22]"] st(3) by auto
    obtain s2 where s2: "put_string s s1 = Some s2" "holds N s2 ((T @ [CHR 0x22]) @ esc_text s)"
      using holds_put_string [OF s1(2), of s] st(3) by auto
    obtain s3 where "sn_put [CHR 0x22] s2 = Some s3" "holds N s3 (((T @ [CHR 0x22]) @ esc_text s) @ [CHR 0x22])"
      using holds_sn_put [OF s2(2), of "[CHR 0x22]"] st(3) by auto
    then show "\<exists>st'. json_serialize_internal g (JString s) st = Some st' \<and> holds N st' (T @ json_text g (JString s))"
      using s1(1) s2(1) st(2) by (simp add: json_serialize_internal.simps)
  qed
next
  case (JArray vs)
  show ?case
  proof (rule ser_okI)
    fix st T
    assume st: "holds N st T" "snd st < length (fst st)" "length T + length (json_text g (JArray vs)) < N"
    obtain s1 where s1: "sn_put ''['' st = Some s1" "holds N s1 (T @ ''['')"
      using holds_sn_put [OF st(1), of "''[''"] st(3) by auto
    have ok: "\<forall>v \<in> set vs. ser_ok N g v" using JArray by blast
    have e: "(if vs = [] then [] else comma True @ items_text g vs) = items_text g vs" by (simp add: comma_def)
    obtain s2 where s2: "ser_items g True vs s1 = Some s2" "holds N s2 ((T @ ''['') @ items_text g vs)"
      using ser_items_holds [OF ok s1(2), where first = True, unfolded e] st(3) by auto
    obtain s3 where "sn_put '']'' s2 = Some s3" "holds N s3 (((T @ ''['') @ items_text g vs) @ '']'')"
      using holds_sn_put [OF s2(2), of "'']''"] st(3) by auto
    then show "\<exists>st'. json_serialize_internal g (JArray vs) st = Some st' \<and> holds N st' (T @ json_text g (JArray vs))"
      using s1(1) s2(1) st(2) by (simp add: json_serialize_internal.simps)
  qed
next
  case (JObject kvs)
  show ?case
  proof (rule ser_okI)
    fix st T
    assume st: "holds N st T" "snd st < length (fst st)" "length T + length (json_text g (JObject kvs)) < N"
    obtain s1 where s1: "sn_put [CHR 0x7B] st = Some s1" "holds N s1 (T @ [CHR 0x7B])"
      using holds_sn_put [OF st(1), of "[CHR 0x7B]"] st(3) by auto
    have e: "(if kvs = [] then [] else comma True @ members_text g kvs) = members_text g kvs" by (simp add: comma_def)
    have ok: "\<forall>kv \<in> set kvs. ser_ok N g (snd kv)" using JObject by (auto simp: snds.simps)
    obtain s2 where s2: "ser_members g True kvs s1 = Some s2" "holds N s2 ((T @ [CHR 0x7B]) @ members_text g kvs)"
      using ser_members_holds [OF ok s1(2), where first = True, unfolded e] st(3) by auto
    obtain s3 where "sn_put [CHR 0x7D] s2 = Some s3" "holds N s3 (((T @ [CHR 0x7B]) @ members_text g kvs) @ [CHR 0x7D])"
      using holds_sn_put [OF s2(2), of "[CHR 0x7D]"] st(3) by auto
    then show "\<exists>st'. json_serialize_internal g (JObject kvs) st = Some st' \<and> holds N st' (T @ json_text g (JObject kvs))"
      using s1(1) s2(1) st(2) by (simp add: json_serialize_internal.simps)
  qed
qed

end
