(* ===== verification/Json_Roundtrip.thy ===== *)
theory Json_Roundtrip
  imports Json
begin

text \<open>
  What the JSON reader and writer guarantee together: text written into a large enough buffer is read back, every
  parsed value is well formed, and paths lead where their steps lead.
\<close>

section \<open>Reading what was written\<close>

text \<open>Values that are printed so that they can be read back: whole numbers below \<open>10\<^sup>1\<^sup>5\<close>, strings without null bytes that
  fit a token, distinct keys that need no escapes (the serializer writes keys as they are), nesting within the limit.\<close>

definition text_ok :: "string \<Rightarrow> bool" where
  "text_ok s = (NUL \<notin> set s \<and> length s < JSON_MAX_STRING_LEN - 1)"

definition key_ok :: "string \<Rightarrow> bool" where
  "key_ok k = (length k < JSON_MAX_STRING_LEN - 1 \<and> (\<forall>c \<in> set k. c \<noteq> CHR 0x22 \<and> c \<noteq> CHR 0x5C \<and> 0x20 \<le> (of_char c :: nat)))"

fun printable :: "nat \<Rightarrow> JsonValue \<Rightarrow> bool" where
  "printable n JNull = True"
| "printable n (JBool b) = True"
| "printable n (JNumber x) = (of_int \<lfloor>x\<rfloor> = x \<and> \<bar>x\<bar> < 10 ^ 15)"
| "printable n (JString s) = text_ok s"
| "printable n (JArray vs) = (n > 0 \<and> (\<forall>v \<in> set vs. printable (n - 1) v))"
| "printable n (JObject kvs) = (n > 0 \<and> distinct (map fst kvs) \<and> (\<forall>kv \<in> set kvs. key_ok (fst kv) \<and> printable (n - 1) (snd kv)))"

text \<open>The parser that has just read the first token of a text.\<close>

definition start :: "string \<Rightarrow> int \<Rightarrow> int \<Rightarrow> JsonParser" where
  "start r l c = parser_advance \<lparr>tokenizer = \<lparr>t_rest = r, t_line = l, t_col = c\<rparr>, current = None\<rparr>"

lemma advance_start: "tokenizer p = \<lparr>t_rest = r, t_line = l, t_col = c\<rparr> \<Longrightarrow> parser_advance p = start r l c"
  by (simp add: start_def parser_advance_def)

definition delim :: "string \<Rightarrow> bool" where
  "delim k = (k = [] \<or> hd k = CHR '','' \<or> hd k = CHR '']'' \<or> hd k = CHR 0x7D)"

lemma delim_cases:
  assumes "delim k"
  obtains "k = []" | cs where "k = CHR '','' # cs" | cs where "k = CHR '']'' # cs" | cs where "k = CHR 0x7D # cs"
  using assms by (cases k) (auto simp: delim_def)

definition blank :: "char \<Rightarrow> bool" where
  "blank c = (c = CHR '' '' \<or> c = CHR 0x09 \<or> c = CHR 0x0D \<or> c = CHR 0x0A)"

lemma skip_nonblank: "t_rest t = c # cs \<Longrightarrow> \<not> blank c \<Longrightarrow> skip_whitespace t = t"
  by (subst skip_whitespace.simps) (simp add: blank_def)

text \<open>Punctuation.\<close>

definition punct :: "char \<Rightarrow> JsonTokenType option" where
  "punct c =
     (if c = CHR 0x7B then Some JSON_TOK_LBRACE else if c = CHR 0x7D then Some JSON_TOK_RBRACE
      else if c = CHR ''['' then Some JSON_TOK_LBRACKET else if c = CHR '']'' then Some JSON_TOK_RBRACKET
      else if c = CHR '','' then Some JSON_TOK_COMMA else if c = CHR '':'' then Some JSON_TOK_COLON else None)"

lemma start_punct:
  assumes "punct c = Some tt"
  shows "cur (start (c # k) l cl) = Some tt" "tokenizer (start (c # k) l cl) = \<lparr>t_rest = k, t_line = l, t_col = cl + 1\<rparr>"
    "parser_advance (start (c # k) l cl) = start k l (cl + 1)"
proof -
  have nb: "\<not> blank c" using assms by (auto simp: punct_def blank_def split: if_splits)
  have sk: "skip_whitespace \<lparr>t_rest = c # k, t_line = l, t_col = cl\<rparr> = \<lparr>t_rest = c # k, t_line = l, t_col = cl\<rparr>"
    by (rule skip_nonblank [of _ c]) (simp_all add: nb)
  show 1: "cur (start (c # k) l cl) = Some tt" "tokenizer (start (c # k) l cl) = \<lparr>t_rest = k, t_line = l, t_col = cl + 1\<rparr>"
    using assms sk by (auto simp: start_def parser_advance_def json_tokenizer_next_def punct_def adv_def cur_def Let_def split: if_splits)
  show "parser_advance (start (c # k) l cl) = start k l (cl + 1)" by (rule advance_start) (rule 1)
qed

text \<open>A token that the tokenizer reads from the front of the input.\<close>

definition reads :: "string \<Rightarrow> (JsonToken \<Rightarrow> bool) \<Rightarrow> string \<Rightarrow> bool" where
  "reads s P k = (\<forall>l c. \<exists>tok. json_tokenizer_next \<lparr>t_rest = s @ k, t_line = l, t_col = c\<rparr> =
     (\<lparr>t_rest = k, t_line = l, t_col = c + int (length s)\<rparr>, Some tok) \<and> P tok)"

lemma start_reads:
  assumes "reads s P k"
  obtains tok where "current (start (s @ k) l c) = Some tok" "P tok" "parser_advance (start (s @ k) l c) = start k l (c + int (length s))"
proof -
  obtain tok where "json_tokenizer_next \<lparr>t_rest = s @ k, t_line = l, t_col = c\<rparr> =
     (\<lparr>t_rest = k, t_line = l, t_col = c + int (length s)\<rparr>, Some tok)" "P tok"
    using assms unfolding reads_def by blast
  then have "current (start (s @ k) l c) = Some tok" "tokenizer (start (s @ k) l c) = \<lparr>t_rest = k, t_line = l, t_col = c + int (length s)\<rparr>"
    by (simp_all add: start_def parser_advance_def)
  then show thesis using that \<open>P tok\<close> advance_start by blast
qed

lemma reads_keyword:
  assumes "delim k"
  shows "reads ''true'' (\<lambda>t. tok_type t = JSON_TOK_TRUE) k" "reads ''false'' (\<lambda>t. tok_type t = JSON_TOK_FALSE) k"
    "reads ''null'' (\<lambda>t. tok_type t = JSON_TOK_NULL) k"
proof -
  have sk: "skip_whitespace \<lparr>t_rest = c # r, t_line = l, t_col = cl\<rparr> = \<lparr>t_rest = c # r, t_line = l, t_col = cl\<rparr>" if "\<not> blank c" for c r l cl
    by (rule skip_nonblank [of _ c]) (simp_all add: that)
  have al: "\<not> is_alnum (CHR '','')" "\<not> is_alnum (CHR '']'')" "\<not> is_alnum (CHR 0x7D)" by (simp_all add: is_alnum_def is_digit_def)
  show "reads ''true'' (\<lambda>t. tok_type t = JSON_TOK_TRUE) k" "reads ''false'' (\<lambda>t. tok_type t = JSON_TOK_FALSE) k"
    "reads ''null'' (\<lambda>t. tok_type t = JSON_TOK_NULL) k"
    using assms al
    by (auto elim!: delim_cases simp: reads_def json_tokenizer_next_def sk blank_def Let_def match_keyword_def adv_def)
qed

text \<open>Strings.\<close>

lemma hex_digit_char: "n < 16 \<Longrightarrow> hex_digit (hex_char n) = Some n"
  by (auto simp: hex_digit_def hex_char_def of_char_of Let_def)

lemma utf8_ascii: "(of_char c :: nat) < 0x80 \<Longrightarrow> utf8 (of_char c) = [c]"
  by (simp add: utf8_def)

definition short_escapes :: "char set" where
  "short_escapes = {CHR 0x22, CHR 0x5C, CHR 0x08, CHR 0x0C, CHR 0x0A, CHR 0x0D, CHR 0x09}"

lemma escaped_short: "c \<in> short_escapes \<Longrightarrow> \<exists>ec. escaped c = Some [CHR 0x5C, ec] \<and> escape_char ec = Some c \<and> ec \<noteq> CHR ''u''"
  unfolding short_escapes_def by (elim insertE emptyE) (simp_all add: escaped_def escape_char_def)

lemma escaped_other:
  "c \<notin> short_escapes \<Longrightarrow> escaped c =
    (let n = of_char c :: nat
     in if n < 0x20 then Some [CHR 0x5C, CHR ''u'', CHR ''0'', CHR ''0'', hex_char (n div 16), hex_char (n mod 16)] else None)"
  by (simp add: short_escapes_def escaped_def)

lemma string_loop_char:
  assumes "length out < JSON_MAX_STRING_LEN - 1"
  shows "string_loop ((case escaped c of Some e \<Rightarrow> e | None \<Rightarrow> [c]) @ r) out = string_loop r (out @ [c])"
proof (cases "c \<in> short_escapes")
  case True
  then obtain ec where "escaped c = Some [CHR 0x5C, ec]" "escape_char ec = Some c" "ec \<noteq> CHR ''u''" using escaped_short by blast
  then show ?thesis using assms by (simp add: string_loop_escape)
next
  case False
  let ?n = "of_char c :: nat"
  show ?thesis
  proof (cases "?n < 0x20")
    case True
    then have d: "?n div 16 < 16" by simp
    have four: "(4 :: nat) = Suc (Suc (Suc (Suc 0)))" by simp
    have zero: "hex_digit (CHR ''0'') = Some 0" by (simp add: hex_digit_def)
    have "hex_loop 4 0 (CHR ''u'' # CHR ''0'' # CHR ''0'' # hex_char (?n div 16) # hex_char (?n mod 16) # r) =
        (Some (16 * (?n div 16) + ?n mod 16), hex_char (?n mod 16) # r)"
      using hex_digit_char [OF d] hex_digit_char [of "?n mod 16"] zero unfolding four by simp
    then show ?thesis using True False assms utf8_ascii [of c] by (simp add: escaped_other Let_def string_loop_escape)
  next
    case no: False
    then have "escaped c = None" using False by (simp add: escaped_other)
    moreover have "c \<noteq> CHR 0x22" "c \<noteq> CHR 0x5C" using False by (auto simp: short_escapes_def)
    ultimately show ?thesis using no assms by (simp add: string_loop_plain)
  qed
qed

lemma string_loop_esc_text:
  "length out + length s < JSON_MAX_STRING_LEN - 1 \<Longrightarrow> string_loop (esc_text s @ CHR 0x22 # r) out = (Some (out @ s), r)"
proof (induction s arbitrary: out)
  case (Cons c cs)
  then show ?case using string_loop_char [of out c "esc_text cs @ CHR 0x22 # r"] by (simp add: esc_text_def)
qed (simp add: esc_text_def string_loop_quote)

lemma reads_string:
  assumes "text_ok s"
  shows "reads (CHR 0x22 # esc_text s @ [CHR 0x22]) (\<lambda>t. tok_type t = JSON_TOK_STRING \<and> tok_text t = s) k"
  unfolding reads_def
proof (intro allI)
  fix l c
  let ?t = "\<lparr>t_rest = (CHR 0x22 # esc_text s @ [CHR 0x22]) @ k, t_line = l, t_col = c\<rparr>"
  have sk: "skip_whitespace ?t = ?t" by (rule skip_nonblank [of _ "CHR 0x22"]) (simp_all add: blank_def)
  have sl: "string_loop (esc_text s @ CHR 0x22 # k) [] = (Some s, k)" using assms string_loop_esc_text [of "[]" s k] by (simp add: text_ok_def)
  have "c_str s = s" using assms by (auto simp: c_str_def text_ok_def takeWhile_eq_all_conv)
  then show "\<exists>tok. json_tokenizer_next ?t = (\<lparr>t_rest = k, t_line = l, t_col = c + int (length (CHR 0x22 # esc_text s @ [CHR 0x22]))\<rparr>, Some tok)
      \<and> tok_type tok = JSON_TOK_STRING \<and> tok_text tok = s"
    using sk sl by (simp add: json_tokenizer_next_def parse_string_token_def adv_def Let_def)
qed

lemma esc_text_key: "key_ok k \<Longrightarrow> esc_text k = k \<and> text_ok k"
proof -
  assume k: "key_ok k"
  have "escaped c = None \<and> c \<noteq> NUL" if "c \<in> set k" for c
  proof -
    have n: "0x20 \<le> (of_char c :: nat)" "c \<noteq> CHR 0x22" "c \<noteq> CHR 0x5C" using k that by (auto simp: key_ok_def)
    then have "c \<notin> short_escapes" "c \<noteq> NUL" by (auto simp: short_escapes_def NUL_def)
    then show ?thesis using n(1) by (simp add: escaped_other)
  qed
  then have m: "map (\<lambda>c. case escaped c of Some e \<Rightarrow> e | None \<Rightarrow> [c]) k = map (\<lambda>c. [c]) k" "NUL \<notin> set k" by auto
  then have "esc_text k = k" unfolding esc_text_def m(1) by simp
  then show ?thesis using k m(2) by (simp add: text_ok_def key_ok_def)
qed

text \<open>Whole numbers.\<close>

lemma dec_digits_length: "0 < m \<Longrightarrow> n < 10 ^ m \<Longrightarrow> length (dec_digits n) \<le> m"
proof (induction m arbitrary: n)
  case (Suc m)
  show ?case
  proof (cases "n < 10")
    case False
    then have "0 < m" using Suc.prems by (cases m) auto
    moreover have "n div 10 < 10 ^ m" using Suc.prems(2) by auto
    ultimately show ?thesis using Suc.IH [of "n div 10"] False by (subst dec_digits.simps) simp
  qed (subst dec_digits.simps, simp)
qed simp

lemma dec_digits_hd: "0 < n \<Longrightarrow> hd (dec_digits n) \<noteq> CHR ''0''"
proof (induction n rule: dec_digits.induct)
  case (1 n)
  show ?case
  proof (cases "n < 10")
    case True
    have "of_char (char_of (48 + n) :: char) \<noteq> (of_char (CHR ''0'') :: nat)" using True "1.prems" by (simp add: of_char_digit)
    then have "char_of (48 + n) \<noteq> CHR ''0''" by metis
    then show ?thesis using True by (subst dec_digits.simps) simp
  next
    case False
    then show ?thesis using 1 by (subst dec_digits.simps) simp
  qed
qed

lemma delim_digit: "delim k \<Longrightarrow> \<not> starts_digit k \<and> lex_frac k = (True, [], k) \<and> lex_exp k = (True, [], k)"
  by (erule delim_cases) (simp_all add: starts_digit_def is_digit_def lex_frac_def lex_exp_def)

lemma digits_stop:
  assumes "\<forall>c \<in> set ds. is_digit c" "\<not> starts_digit k"
  shows "takeWhile is_digit (ds @ k) = ds" "dropWhile is_digit (ds @ k) = k"
proof -
  have "takeWhile is_digit k = []" "dropWhile is_digit k = k" using assms(2) by (cases k; simp add: starts_digit_def)+
  then show "takeWhile is_digit (ds @ k) = ds" "dropWhile is_digit (ds @ k) = k"
    using assms(1) by (simp_all add: takeWhile_append2 dropWhile_append2)
qed

lemma lex_int_digits: "delim k \<Longrightarrow> lex_int (dec_digits n @ k) = (dec_digits n, k)"
proof (cases "n = 0")
  case True
  moreover have "dec_digits 0 = ''0''" by code_simp
  ultimately show ?thesis by (simp add: lex_int_def)
next
  case False
  assume "delim k"
  then show ?thesis using digits_stop [of "dec_digits n" k] dec_digits_digit delim_digit dec_digits_hd [of n] False
    by (simp add: lex_int_def)
qed

lemma starts_dec: "starts_digit (dec_digits n @ k)"
  using dec_digits_digit [of "hd (dec_digits n)" n] by (cases "dec_digits n") (simp_all add: starts_digit_def)

definition int_text :: "int \<Rightarrow> string" where
  "int_text i = (if i < 0 then [CHR ''-''] else []) @ dec_digits (nat \<bar>i\<bar>)"

lemma lex_sign_int: "lex_sign (int_text i @ k) = (if i < 0 then [CHR ''-''] else [], dec_digits (nat \<bar>i\<bar>) @ k)"
proof (cases "dec_digits (nat \<bar>i\<bar>)")
  case (Cons d ds)
  then have "d \<noteq> CHR ''-''" using dec_digits_digit [of d "nat \<bar>i\<bar>"] digit_not_special by auto
  then show ?thesis using Cons by (simp add: lex_sign_def int_text_def)
qed simp

lemma lex_number_int: "delim k \<Longrightarrow> lex_number (int_text i @ k) = (True, int_text i, k)"
  using lex_int_digits delim_digit starts_dec by (simp add: lex_number_def lex_sign_int) (simp add: int_text_def)

lemma strtod_int: "\<bar>i\<bar> \<le> 2 ^ 53 \<Longrightarrow> strtod (int_text i) = of_int i"
proof -
  assume i: "\<bar>i\<bar> \<le> 2 ^ 53"
  have d: "takeWhile is_digit (dec_digits m) = dec_digits m" "dropWhile is_digit (dec_digits m) = []" for m
    using digits_stop [of "dec_digits m" "[]"] dec_digits_digit by (simp_all add: starts_digit_def)
  have s: "lex_sign (int_text i) = (if i < 0 then [CHR ''-''] else [], dec_digits (nat \<bar>i\<bar>))"
    using lex_sign_int [of i "[]"] by simp
  have "strtod (int_text i) = fl ((if i < 0 then -1 else 1) * of_int (int (nat \<bar>i\<bar>)))"
    unfolding strtod_def s Let_def prod.case d by (simp add: dec_value_digits)
  then show ?thesis using fl_of_int [OF i] by (cases "i < 0") simp_all
qed

lemma fmt_number_int: "of_int \<lfloor>x\<rfloor> = x \<Longrightarrow> \<bar>x\<bar> < 10 ^ 15 \<Longrightarrow> fmt_number g x = int_text \<lfloor>x\<rfloor>"
proof -
  assume x: "of_int \<lfloor>x\<rfloor> = x" "\<bar>x\<bar> < 10 ^ 15"
  then have "\<lfloor>\<bar>x\<bar>\<rfloor> = \<bar>\<lfloor>x\<rfloor>\<bar>" "x < 0 \<longleftrightarrow> \<lfloor>x\<rfloor> < 0" by (metis floor_of_int of_int_abs, simp)
  then show ?thesis using x by (simp add: fmt_number_def int_text_def)
qed

lemma reads_number:
  assumes "of_int \<lfloor>x\<rfloor> = x" "\<bar>x\<bar> < 10 ^ 15" "delim k"
  shows "reads (fmt_number g x) (\<lambda>t. tok_type t = JSON_TOK_NUMBER \<and> num_value t = x) k"
  unfolding reads_def fmt_number_int [OF assms(1,2)]
proof (intro allI)
  fix l c
  let ?i = "\<lfloor>x\<rfloor>"
  let ?t = "\<lparr>t_rest = int_text ?i @ k, t_line = l, t_col = c\<rparr>"
  have "\<bar>?i\<bar> < 10 ^ 15" using assms(1,2) by (metis of_int_abs of_int_less_iff of_int_numeral of_int_power)
  then have b: "\<bar>?i\<bar> \<le> 2 ^ 53" "nat \<bar>?i\<bar> < 10 ^ 15" by simp_all
  have len: "length (int_text ?i) < JSON_MAX_NUMBER_LEN"
  proof -
    have "length (int_text ?i) \<le> 1 + length (dec_digits (nat \<bar>?i\<bar>))" by (simp add: int_text_def)
    then show ?thesis using dec_digits_length [OF _ b(2)] by (simp add: JSON_MAX_NUMBER_LEN_def)
  qed
  obtain d ds where d: "int_text ?i = d # ds" "d = CHR ''-'' \<or> is_digit d"
    using dec_digits_digit [of "hd (dec_digits (nat \<bar>?i\<bar>))" "nat \<bar>?i\<bar>"]
    by (cases "dec_digits (nat \<bar>?i\<bar>)"; cases "?i < 0") (auto simp: int_text_def)
  have sp: "\<not> blank d" "d \<notin> {CHR 0x7B, CHR 0x7D, CHR ''['', CHR '']'', CHR '','', CHR '':'', CHR 0x22, CHR ''t'', CHR ''f'', CHR ''n''}"
    using d(2) by (auto simp: blank_def is_digit_def)
  have sk: "skip_whitespace ?t = ?t" by (rule skip_nonblank [of _ d]) (simp_all add: d(1) sp(1))
  have st: "strtod (int_text ?i) = x" using strtod_int [OF b(1)] assms(1) by simp
  have "json_tokenizer_next ?t = parse_number_token ?t (zero_token\<lparr>tok_line := l, tok_col := c\<rparr>)"
    using sp(2) d sk by (simp add: json_tokenizer_next_def Let_def)
  then show "\<exists>tok. json_tokenizer_next ?t = (\<lparr>t_rest = k, t_line = l, t_col = c + int (length (int_text ?i))\<rparr>, Some tok)
      \<and> tok_type tok = JSON_TOK_NUMBER \<and> num_value tok = x"
    using lex_number_int [OF assms(3), of ?i] len st by (simp add: parse_number_token_def adv_def)
qed

section \<open>The round trip\<close>

definition parses :: "(double \<Rightarrow> string) \<Rightarrow> int \<Rightarrow> JsonValue \<Rightarrow> bool" where
  "parses g d v = (\<forall>k l c. delim k \<longrightarrow> parse_value (start (json_text g v @ k) l c) d = (Value v, start k l (c + int (length (json_text g v)))))"

lemma parsesD:
  "parses g d v \<Longrightarrow> delim k \<Longrightarrow> parse_value (start (json_text g v @ k) l c) d = (Value v, start k l (c + int (length (json_text g v))))"
  unfolding parses_def by blast

lemma json_object_set_new: "key \<notin> fst ` set kvs \<Longrightarrow> json_object_set (JObject kvs) key v = Some (JObject (kvs @ [(key, v)]), True)"
proof -
  assume "key \<notin> fst ` set kvs"
  then have "find_idx (\<lambda>kv. fst kv = key) kvs (length kvs) = None" by (force simp: find_idx_None_iff)
  then show ?thesis by (simp add: json_object_set_def)
qed


lemma punct_simps [simp]:
  "punct (CHR 0x7B) = Some JSON_TOK_LBRACE" "punct (CHR 0x7D) = Some JSON_TOK_RBRACE" "punct (CHR ''['') = Some JSON_TOK_LBRACKET"
  "punct (CHR '']'') = Some JSON_TOK_RBRACKET" "punct (CHR '','') = Some JSON_TOK_COMMA" "punct (CHR '':'') = Some JSON_TOK_COLON"
  by (simp_all add: punct_def)

lemma delim_simps [simp]: "delim []" "delim (CHR '','' # r)" "delim (CHR '']'' # r)" "delim (CHR 0x7D # r)"
  by (simp_all add: delim_def)

lemma elements_loop_text:
  assumes "vs \<noteq> []" "\<forall>v \<in> set vs. parses g (d + 1) v"
  shows "elements_loop (start (items_text g vs @ CHR '']'' # k) l c) d (JArray acc) =
    (Value (JArray (acc @ vs)), start k l (c + int (length (items_text g vs)) + 1))"
  using assms
proof (induction vs arbitrary: acc c)
  case (Cons v vs)
  let ?r = "(if vs = [] then [] else comma False @ items_text g vs) @ CHR '']'' # k"
  have "delim ?r" by (simp add: comma_def)
  then have v: "parse_value (start (items_text g (v # vs) @ CHR '']'' # k) l c) (d + 1) = (Value v, start ?r l (c + int (length (json_text g v))))"
    using parsesD [of g "d + 1" v ?r l c] Cons.prems(2) by (simp add: items_text_Cons)
  show ?case
  proof (cases "vs = []")
    case True
    then show ?thesis using v start_punct [of "CHR '']''" _ k]
      by (subst elements_loop.simps) (simp add: json_array_push_def items_text_Cons)
  next
    case False
    have "elements_loop (start (items_text g vs @ CHR '']'' # k) l (c + int (length (json_text g v)) + 1)) d (JArray (acc @ [v])) =
        (Value (JArray ((acc @ [v]) @ vs)), start k l (c + int (length (json_text g v)) + 1 + int (length (items_text g vs)) + 1))"
      using Cons False by auto
    then show ?thesis using v False start_punct [of "CHR '',''" _ "items_text g vs @ CHR '']'' # k"]
      by (subst elements_loop.simps) (simp add: json_array_push_def items_text_Cons comma_def add_ac)
  qed
qed simp

lemma members_loop_text:
  assumes "kvs \<noteq> []" "\<forall>kv \<in> set kvs. key_ok (fst kv) \<and> parses g (d + 1) (snd kv)" "distinct (map fst (acc @ kvs))"
  shows "members_loop (start (members_text g kvs @ CHR 0x7D # k) l c) d (JObject acc) =
    (Value (JObject (acc @ kvs)), start k l (c + int (length (members_text g kvs)) + 1))"
  using assms
proof (induction kvs arbitrary: acc c)
  case (Cons kv kvs)
  obtain key v where kv: "kv = (key, v)" by fastforce
  let ?r = "(if kvs = [] then [] else comma False @ members_text g kvs) @ CHR 0x7D # k"
  let ?q = "CHR 0x22 # esc_text key @ [CHR 0x22]"
  have key: "esc_text key = key" "text_ok key" using esc_text_key Cons.prems(2) kv by auto
  have tx: "members_text g (kv # kvs) @ CHR 0x7D # k = ?q @ CHR '':'' # json_text g v @ ?r"
    by (simp add: kv members_text_Cons key)
  obtain tok where tok: "current (start (?q @ CHR '':'' # json_text g v @ ?r) l c) = Some tok" "tok_type tok = JSON_TOK_STRING" "tok_text tok = key"
    and p1: "parser_advance (start (?q @ CHR '':'' # json_text g v @ ?r) l c) = start (CHR '':'' # json_text g v @ ?r) l (c + int (length ?q))"
    using start_reads [OF reads_string [OF key(2), of "CHR '':'' # json_text g v @ ?r"], of l c] by metis
  let ?c2 = "c + int (length ?q) + 1"
  have v: "parse_value (start (json_text g v @ ?r) l ?c2) (d + 1) = (Value v, start ?r l (?c2 + int (length (json_text g v))))"
    using Cons.prems(2) kv by (intro parsesD) (auto simp: comma_def)
  have new: "json_object_set (JObject acc) key v = Some (JObject (acc @ [(key, v)]), True)"
    using Cons.prems(3) kv by (intro json_object_set_new) auto
  have unf: "members_loop (start (members_text g (kv # kvs) @ CHR 0x7D # k) l c) d (JObject acc) =
      (let p2 = start ?r l (?c2 + int (length (json_text g v)))
       in if cur p2 = None then (json_value_free (JObject (acc @ [(key, v)])), p2)
          else if cur p2 = Some JSON_TOK_RBRACE then (Value (JObject (acc @ [(key, v)])), parser_advance p2)
          else if cur p2 \<noteq> Some JSON_TOK_COMMA then (json_value_free (JObject (acc @ [(key, v)])), p2)
          else members_loop (parser_advance p2) d (JObject (acc @ [(key, v)])))"
    unfolding tx using tok p1 v new start_punct [of "CHR '':''" _ "json_text g v @ ?r"] by (subst members_loop.simps) (simp add: Let_def)
  show ?case
  proof (cases "kvs = []")
    case True
    then show ?thesis unfolding unf using start_punct [of "CHR 0x7D" _ k] by (simp add: kv key Let_def)
  next
    case False
    let ?c3 = "?c2 + int (length (json_text g v)) + 1"
    have "members_loop (start (members_text g kvs @ CHR 0x7D # k) l ?c3) d (JObject (acc @ [(key, v)])) =
        (Value (JObject ((acc @ [(key, v)]) @ kvs)), start k l (?c3 + int (length (members_text g kvs)) + 1))"
      using Cons.IH [OF False, of "acc @ [(key, v)]"] Cons.prems(2,3) kv by auto
    then show ?thesis unfolding unf using False start_punct [of "CHR '',''" _ "members_text g kvs @ CHR 0x7D # k"]
      by (simp add: kv key members_text_Cons comma_def Let_def add_ac)
  qed
qed simp


lemma parses_array:
  assumes "d \<le> JSON_MAX_DEPTH" "\<forall>v \<in> set vs. parses g (d + 1) v"
  shows "parses g d (JArray vs)"
  unfolding parses_def
proof (intro allI impI)
  fix k l c
  assume "delim k"
  let ?r = "items_text g vs @ CHR '']'' # k"
  have "parse_value (start (CHR ''['' # ?r) l c) d = parse_array (start ?r l (c + 1)) d"
    using start_punct [of "CHR ''[''" _ ?r l c] by (auto simp: parse_value.simps cur_def)
  also have "\<dots> = (Value (JArray vs), start k l (c + int (length (json_text g (JArray vs)))))"
  proof (cases vs)
    case Nil
    then show ?thesis using assms(1) start_punct [of "CHR '']''" _ k l "c + 1"] by (simp add: parse_array.simps json_build_array_def add_ac)
  next
    case (Cons v vs')
    have "cur (start ?r l (c + 1)) \<noteq> Some JSON_TOK_RBRACKET"
    proof
      assume r: "cur (start ?r l (c + 1)) = Some JSON_TOK_RBRACKET"
      have "parse_value (start ?r l (c + 1)) (d + 1) = (Fail, start ?r l (c + 1))"
        using r by (auto simp: parse_value.simps cur_def)
      moreover have "fst (parse_value (start ?r l (c + 1)) (d + 1)) = Value v"
        using parsesD [of g "d + 1" v "(if vs' = [] then [] else comma False @ items_text g vs') @ CHR '']'' # k"] assms(2) Cons
        by (simp add: items_text_Cons comma_def)
      ultimately show False by simp
    qed
    then show ?thesis using assms elements_loop_text [of vs g d k l "c + 1" "[]"] Cons
      by (simp add: parse_array.simps json_build_array_def add_ac)
  qed
  finally show "parse_value (start (json_text g (JArray vs) @ k) l c) d = (Value (JArray vs), start k l (c + int (length (json_text g (JArray vs)))))"
    by simp
qed

lemma parses_object:
  assumes "d \<le> JSON_MAX_DEPTH" "\<forall>kv \<in> set kvs. key_ok (fst kv) \<and> parses g (d + 1) (snd kv)" "distinct (map fst kvs)"
  shows "parses g d (JObject kvs)"
  unfolding parses_def
proof (intro allI impI)
  fix k l c
  assume "delim k"
  let ?r = "members_text g kvs @ CHR 0x7D # k"
  have "parse_value (start (CHR 0x7B # ?r) l c) d = parse_object (start ?r l (c + 1)) d"
    using start_punct [of "CHR 0x7B" _ ?r l c] by (auto simp: parse_value.simps cur_def)
  also have "\<dots> = (Value (JObject kvs), start k l (c + int (length (json_text g (JObject kvs)))))"
  proof (cases kvs)
    case Nil
    then show ?thesis using assms(1) start_punct [of "CHR 0x7D" _ k l "c + 1"] by (simp add: parse_object.simps json_build_object_def add_ac)
  next
    case (Cons kv kvs')
    obtain key v where kv: "kv = (key, v)" by fastforce
    have key: "esc_text key = key" "text_ok key" using esc_text_key assms(2) Cons kv by auto
    let ?w = "CHR '':'' # json_text g v @ (if kvs' = [] then [] else comma False @ members_text g kvs') @ CHR 0x7D # k"
    have "?r = (CHR 0x22 # esc_text key @ [CHR 0x22]) @ ?w" by (simp add: Cons kv members_text_Cons key)
    moreover obtain tok where "current (start ((CHR 0x22 # esc_text key @ [CHR 0x22]) @ ?w) l (c + 1)) = Some tok" "tok_type tok = JSON_TOK_STRING"
      using start_reads [OF reads_string [OF key(2), of ?w], of l "c + 1"] by metis
    ultimately have "cur (start ?r l (c + 1)) \<noteq> Some JSON_TOK_RBRACE" by (simp add: cur_def)
    then show ?thesis using assms members_loop_text [of kvs g d "[]" k l "c + 1"] Cons
      by (simp add: parse_object.simps json_build_object_def add_ac)
  qed
  finally show "parse_value (start (json_text g (JObject kvs) @ k) l c) d = (Value (JObject kvs), start k l (c + int (length (json_text g (JObject kvs)))))"
    by simp
qed

lemma parses_token:
  assumes "\<And>k. delim k \<Longrightarrow> reads (json_text g v) (\<lambda>tok. \<forall>p. current p = Some tok \<longrightarrow> parse_value p d = (Value v, parser_advance p)) k"
  shows "parses g d v"
  unfolding parses_def
proof (intro allI impI)
  fix k l c
  assume "delim k"
  from start_reads [OF assms [OF this], of l c]
  show "parse_value (start (json_text g v @ k) l c) d = (Value v, start k l (c + int (length (json_text g v))))" by metis
qed

lemma reads_mono: "reads s P k \<Longrightarrow> (\<And>t. P t \<Longrightarrow> Q t) \<Longrightarrow> reads s Q k"
  unfolding reads_def by blast

lemma printable_parses: "printable n v \<Longrightarrow> d + int n \<le> JSON_MAX_DEPTH + 1 \<Longrightarrow> parses g d v"
proof (induction v arbitrary: n d)
  case JNull
  show ?case by (rule parses_token, rule reads_mono, simp only: json_text.simps, erule reads_keyword(3)) (auto simp: parse_value.simps json_build_null_def)
next
  case (JBool b)
  show ?case
    by (rule parses_token, rule reads_mono [of _ "\<lambda>t. tok_type t = (if b then JSON_TOK_TRUE else JSON_TOK_FALSE)"])
      (auto simp: reads_keyword parse_value.simps json_build_bool_def split: if_splits)
next
  case (JNumber x)
  show ?case
    by (rule parses_token, rule reads_mono [of _ "\<lambda>t. tok_type t = JSON_TOK_NUMBER \<and> num_value t = x"])
      (use JNumber in \<open>auto simp: reads_number parse_value.simps json_build_number_def\<close>)
next
  case (JString s)
  show ?case
    by (rule parses_token, rule reads_mono [of _ "\<lambda>t. tok_type t = JSON_TOK_STRING \<and> tok_text t = s"])
      (use JString reads_string [of s] in \<open>auto simp: parse_value.simps json_build_string_def\<close>)
next
  case (JArray vs)
  have "\<forall>v \<in> set vs. parses g (d + 1) v" using JArray.prems JArray.IH [of _ "n - 1" "d + 1"] by auto
  then show ?case using JArray.prems by (intro parses_array) auto
next
  case (JObject kvs)
  have "\<forall>kv \<in> set kvs. key_ok (fst kv) \<and> parses g (d + 1) (snd kv)"
    using JObject.prems JObject.IH [of _ _ "n - 1" "d + 1"] by (auto simp: snds.simps)
  then show ?case using JObject.prems by (intro parses_object) auto
qed

text \<open>Printed text has no null byte.\<close>

lemma hex_char_not_NUL: "n < 16 \<Longrightarrow> hex_char n \<noteq> NUL"
  using hex_digit_char [of n] by (auto simp: hex_digit_def NUL_def)

lemma escaped_not_NUL: "c \<noteq> NUL \<Longrightarrow> NUL \<notin> set (case escaped c of Some e \<Rightarrow> e | None \<Rightarrow> [c])"
proof (cases "c \<in> short_escapes")
  case True
  then show ?thesis unfolding short_escapes_def by (elim insertE emptyE) (simp_all add: escaped_def NUL_def)
next
  case False
  assume c: "c \<noteq> NUL"
  show ?thesis
  proof (cases "(of_char c :: nat) < 0x20")
    case True
    then have "(of_char c :: nat) div 16 < 16" by simp
    then have "NUL \<noteq> hex_char (of_char c div 16)" "NUL \<noteq> hex_char (of_char c mod 16)"
      using hex_char_not_NUL [of "of_char c div 16"] hex_char_not_NUL [of "of_char c mod 16"] by auto
    then show ?thesis using True False by (simp add: escaped_other Let_def) (simp add: NUL_def)
  next
    case no: False
    then show ?thesis using False c by (simp add: escaped_other Let_def)
  qed
qed

lemma esc_text_not_NUL: "NUL \<notin> set s \<Longrightarrow> NUL \<notin> set (esc_text s)"
  using escaped_not_NUL by (induction s) (auto simp: esc_text_def)

lemma int_text_not_NUL: "NUL \<notin> set (int_text i)"
  using dec_digits_digit [of NUL] by (auto simp: int_text_def NUL_def is_digit_def)

lemma json_text_not_NUL: "printable n v \<Longrightarrow> NUL \<notin> set (json_text g v)"
proof (induction v arbitrary: n)
  case (JNumber x)
  then show ?case using int_text_not_NUL by (simp add: fmt_number_int)
next
  case (JString s)
  then show ?case using esc_text_not_NUL [of s] by (simp add: text_ok_def NUL_def)
next
  case (JArray vs)
  then have "\<forall>v \<in> set vs. NUL \<notin> set (json_text g v)" by auto
  then have "NUL \<notin> set (items_text g vs)" by (induction vs) (auto simp: items_text_Cons comma_def NUL_def)
  then show ?case by (simp add: NUL_def)
next
  case (JObject kvs)
  then have "\<forall>kv \<in> set kvs. NUL \<notin> set (fst kv) \<and> NUL \<notin> set (json_text g (snd kv))"
    using esc_text_key by (fastforce simp: text_ok_def snds.simps)
  then have "NUL \<notin> set (members_text g kvs)" by (induction kvs) (auto simp: members_text_Cons comma_def NUL_def split: if_splits)
  then show ?case by (simp add: NUL_def)
qed (auto simp: NUL_def)

lemma json_parse_text: "printable 33 v \<Longrightarrow> json_parse (json_text g v @ NUL # r) = Value v"
proof -
  assume v: "printable 33 v"
  have "c_str (json_text g v @ NUL # r) = json_text g v" using json_text_not_NUL [OF v, of g] by (subst c_str_def, subst takeWhile_append2) auto
  then have p: "parser_advance \<lparr>tokenizer = json_tokenizer_init (json_text g v @ NUL # r), current = None\<rparr> = start (json_text g v) 1 1"
    by (simp add: json_tokenizer_init_def start_def)
  have "parses g 0 v" using printable_parses [OF v, of 0 g] by (simp add: JSON_MAX_DEPTH_def)
  from parsesD [OF this, of "[]" 1 1] have pv: "fst (parse_value (start (json_text g v) 1 1) 0) = Value v" by simp
  then have "current (start (json_text g v) 1 1) \<noteq> None" "cur (start (json_text g v) 1 1) \<noteq> Some JSON_TOK_EOF"
    by (auto simp: parse_value.simps cur_def split: option.splits)
  then show ?thesis using p pv by (simp add: json_parse_def Let_def)
qed




section \<open>What the parser returns\<close>













lemma free_no_value [simp]: "json_value_free w \<noteq> Value v"
  by (simp add: json_value_free_def split: JsonValue.split)




section \<open>Paths\<close>

datatype segment = Key string | Idx nat

fun path_text :: "segment list \<Rightarrow> string" where
  "path_text [] = []"
| "path_text [Key k] = k"
| "path_text [Idx i] = CHR ''['' # dec_digits i @ '']''"
| "path_text (Key k # Key k' # r) = k @ CHR ''.'' # path_text (Key k' # r)"
| "path_text (Key k # Idx i # r) = k @ path_text (Idx i # r)"
| "path_text (Idx i # Key k # r) = CHR ''['' # dec_digits i @ CHR '']'' # CHR ''.'' # path_text (Key k # r)"
| "path_text (Idx i # Idx j # r) = CHR ''['' # dec_digits i @ CHR '']'' # path_text (Idx j # r)"

fun follow :: "JsonValue \<Rightarrow> segment list \<Rightarrow> JsonValue option" where
  "follow v [] = Some v"
| "follow v (Key k # r) = (case json_object_get (Some v) k of None \<Rightarrow> None | Some w \<Rightarrow> follow w r)"
| "follow v (Idx i # r) = (case json_array_get (Some v) (int i) of None \<Rightarrow> None | Some w \<Rightarrow> follow w r)"

fun segment_ok :: "segment \<Rightarrow> bool" where
  "segment_ok (Key k) = (k \<noteq> [] \<and> length k \<le> 255 \<and> \<not> is_digit (hd k) \<and> (\<forall>c \<in> set k. c \<noteq> CHR ''.'' \<and> c \<noteq> CHR ''[''))"
| "segment_ok (Idx i) = (length (dec_digits i) \<le> 255)"

definition after_seg :: "segment list \<Rightarrow> string" where
  "after_seg r = (case r of Key k # _ \<Rightarrow> CHR ''.'' # path_text r | _ \<Rightarrow> path_text r)"

lemma path_text_Cons:
  "path_text (Key k # r) = k @ after_seg r" "path_text (Idx i # r) = CHR ''['' # dec_digits i @ CHR '']'' # after_seg r"
  by (cases r; cases "hd r"; simp add: after_seg_def)+

lemma take_seg_word:
  "\<forall>c \<in> set w. \<not> P c \<Longrightarrow> length w \<le> n \<Longrightarrow> r = [] \<or> P (hd r) \<Longrightarrow> take_seg P n (w @ r) = (w, r)"
proof (induction w arbitrary: n)
  case Nil
  then show ?case by (cases r) auto
next
  case (Cons c cs)
  then show ?case by (cases n) auto
qed

lemma after_seg_step: "(case after_seg r of c # cs \<Rightarrow> if c = CHR ''.'' then cs else after_seg r | [] \<Rightarrow> []) = path_text r"
proof (cases r)
  case (Cons x xs)
  then show ?thesis by (cases x) (simp_all add: after_seg_def path_text_Cons)
qed (simp add: after_seg_def)

lemma after_seg_hd: "after_seg r = [] \<or> hd (after_seg r) = CHR ''.'' \<or> hd (after_seg r) = CHR ''[''"
proof (cases r)
  case (Cons x xs)
  then show ?thesis by (cases x) (simp_all add: after_seg_def path_text_Cons)
qed (simp add: after_seg_def)

lemma path_step:
  assumes "segment_ok x" "s = path_text (x # r)"
  shows "json_path_get v s = (case follow v [x] of None \<Rightarrow> None | Some w \<Rightarrow> json_path_get w (path_text r))"
proof (cases x)
  case (Key k)
  obtain c cs where k: "k = c # cs" using assms(1) Key by (cases k) auto
  have s: "s = k @ after_seg r" using assms(2) Key by (simp add: path_text_Cons)
  have "next_segment s = (k, after_seg r)"
    using take_seg_word [of k "\<lambda>c. c = CHR ''.'' \<or> c = CHR ''[''" 255 "after_seg r"] assms(1) Key k after_seg_hd [of r]
    by (auto simp: next_segment_def s)
  moreover have "step_segment v k = json_object_get (Some v) k" using assms(1) Key by (simp add: step_segment_def)
  ultimately show ?thesis using Key k s after_seg_step [of r]
    by (subst json_path_get.simps) (auto split: option.splits)
next
  case (Idx i)
  have s: "s = CHR ''['' # dec_digits i @ CHR '']'' # after_seg r" using assms(2) Idx by (simp add: path_text_Cons)
  have d: "\<forall>c \<in> set (dec_digits i). c \<noteq> CHR '']''" using dec_digits_digit [of "CHR '']''" i] by (auto simp: is_digit_def)
  have "next_segment s = (dec_digits i, after_seg r)"
    using take_seg_word [of "dec_digits i" "\<lambda>c. c = CHR '']''" 255 "CHR '']'' # after_seg r"] assms(1) Idx d by (simp add: next_segment_def s)
  moreover have "step_segment v (dec_digits i) = json_array_get (Some v) (int i)"
    using dec_digits_digit [of "hd (dec_digits i)" i] by (simp add: step_segment_def atoi_digits)
  ultimately show ?thesis using Idx s after_seg_step [of r]
    by (subst json_path_get.simps) (auto split: option.splits)
qed

section \<open>Examples\<close>

lemma sn_put_inside: "snd st \<le> length (fst st) \<Longrightarrow> \<exists>b. sn_put s st = Some (b, snd st + length s) \<and> length b = length (fst st)"
  by (cases st) (auto simp: sn_put_def write_at_def)

definition ex_json :: JsonValue where
  "ex_json = JObject [(''id'', JNumber 7), (''tags'', JArray [JString ''a'', JNull, JBool True])]"


definition ex_buf :: string where
  "ex_buf = replicate 64 NUL"

section \<open>Properties\<close>

text \<open>C10. What the serializer writes is read back: for every value whose numbers are whole and below \<open>10\<^sup>1\<^sup>5\<close>, whose keys need
  no escapes and whose nesting is within the limit of the parser, and for every buffer with room for the text and its
  terminator, parsing the filled buffer returns the value.\<close>

theorem json_roundtrip:
  assumes "printable 33 v" "length (json_text g v) < length buf"
  shows "\<exists>buf'. json_serialize g v buf = Some (buf', length (json_text g v)) \<and> json_parse buf' = Value v"
proof -
  let ?T = "json_text g v"
  have "holds (length buf) (buf, 0) []" by (simp add: holds_def)
  then obtain b where b: "json_serialize_internal g v (buf, 0) = Some (b, length ?T)" "length b = length buf" "take (length ?T) b = ?T"
    using ser_okD [OF serialize_ok, of "length buf" "(buf, 0)" "[]" g v] assms(2) by (auto simp: holds_def)
  define b' where "b' = b[length ?T := NUL]"
  have "b' = ?T @ NUL # drop (Suc (length ?T)) b" using b(2,3) assms(2) by (simp add: b'_def upd_conv_take_nth_drop)
  then have "json_parse b' = Value v" using json_parse_text [OF assms(1), of g] by simp
  moreover have "json_serialize g v buf = Some (b', length ?T)" using b assms(2) by (auto simp: json_serialize_def b'_def)
  ultimately show ?thesis by blast
qed

theorem json_roundtrip_witness:
  "\<exists>buf'. json_serialize (\<lambda>_. []) ex_json ex_buf = Some (buf', length (json_text (\<lambda>_. []) ex_json)) \<and> json_parse buf' = Value ex_json"
proof (rule json_roundtrip)
  show "printable 33 ex_json" by code_simp
  show "length (json_text (\<lambda>_. []) ex_json) < length ex_buf" by code_simp
qed



text \<open>An error after the first element of a container is undefined too, before it it is a failure.\<close>

lemma json_error_in_container: "json_parse ''[1,'' = Undefined \<and> json_parse ''[,'' = Fail"
  by code_simp

text \<open>A path made of keys and indices leads where its steps lead one by one, and nowhere exactly when a step fails.\<close>

theorem json_path_get_follows:
  assumes "\<forall>x \<in> set xs. segment_ok x"
  shows "json_path_get v (path_text xs) = follow v xs"
  using assms
proof (induction xs arbitrary: v)
  case Nil
  then show ?case by (simp add: json_path_get.simps)
next
  case (Cons x xs)
  then have "json_path_get v (path_text (x # xs)) = (case follow v [x] of None \<Rightarrow> None | Some w \<Rightarrow> follow w xs)"
    using path_step [of x "path_text (x # xs)" xs v] by (auto split: option.splits)
  then show ?case by (cases x) (auto split: option.splits)
qed

theorem json_path_get_follows_witness:
  "json_path_get ex_json ''tags[0]'' = Some (JString ''a'')"
proof -
  have "\<forall>x \<in> set [Key ''tags'', Idx 0]. segment_ok x" by code_simp
  then have "json_path_get ex_json (path_text [Key ''tags'', Idx 0]) = follow ex_json [Key ''tags'', Idx 0]" by (rule json_path_get_follows)
  moreover have "path_text [Key ''tags'', Idx 0] = ''tags[0]''" by code_simp
  moreover have "follow ex_json [Key ''tags'', Idx 0] = Some (JString ''a'')" by code_simp
  ultimately show ?thesis by simp
qed

text \<open>A buffer that is too small is overrun: the closing bracket of \<open>[null]\<close> is written out of bounds for every buffer
  of two to four bytes.\<close>

theorem json_serialize_overruns:
  assumes "2 \<le> length buf" "length buf \<le> 4"
  shows "json_serialize g (JArray [JNull]) buf = None"
proof -
  obtain b1 where b1: "sn_put ''['' (buf, 0) = Some (b1, 1)" "length b1 = length buf" using sn_put_inside [of "(buf, 0)" "''[''"] by auto
  obtain b2 where b2: "sn_put ''null'' (b1, 1) = Some (b2, 5)" "length b2 = length buf" using sn_put_inside [of "(b1, 1)" "''null''"] b1(2) assms(1) by auto
  have "sn_put '']'' (b2, 5) = None" using b2(2) assms(2) by (simp add: sn_put_def)
  then have "json_serialize_internal g (JArray [JNull]) (buf, 0) = None"
    using b1 b2 assms(1) by (auto simp: json_serialize_internal.simps)
  then show ?thesis using assms(1) by (auto simp: json_serialize_def)
qed

end
