(* ===== verification/Router.thy ===== *)
theory Router
  imports C_Text
begin

text \<open>
  The trie router of \<open>src/mini-web-server/src/router.c\<close>: registering patterns of segments, and dispatching a request along
  the first matching child of every node.  A router is its root node; adding a route rebuilds the nodes on its way.  The fields of a
  captured parameter are what \<open>strncpy\<close> writes into the uninitialized array, with a flag whether a terminator was written; a
  parameter that no longer fits the array is \<open>None\<close>.  Allocations succeed.  Registration of patterns without parameters refines
  the update of a table of routes, and dispatching the lookup in it.
\<close>

section \<open>Data\<close>

definition ROUTE_MAX_CHILDREN :: nat where "ROUTE_MAX_CHILDREN = 64"
definition ROUTE_MAX_PARAMS :: nat where "ROUTE_MAX_PARAMS = 16"
definition ROUTE_MAX_PARAM_NAME :: nat where "ROUTE_MAX_PARAM_NAME = 64"
definition ROUTE_MAX_PARAM_VALUE :: nat where "ROUTE_MAX_PARAM_VALUE = 256"

datatype HttpMethod = HTTP_GET | HTTP_POST | HTTP_PUT | HTTP_DELETE | HTTP_HEAD | HTTP_OPTIONS | HTTP_PATCH | HTTP_UNKNOWN

datatype RouteNode =
  RouteNode (segment: string) (children: "RouteNode list") (is_endpoint: bool) (route_method: HttpMethod) (handler: ptr)
    (is_wildcard: bool) (is_param: bool) (param_name: string)

text \<open>The characters copied, and whether the copy ends in a null byte.\<close>

type_synonym c_field = "string \<times> bool"

definition strncpy_raw :: "nat \<Rightarrow> string \<Rightarrow> c_field" where
  "strncpy_raw n s = (take n s, length s < n)"

record RouteParam =
  p_name :: c_field
  p_value :: c_field

section \<open>Operations\<close>

definition route_node_create :: "string \<Rightarrow> RouteNode" where
  "route_node_create seg =
     (let param = take 1 seg = '':''; wild = \<not> param \<and> seg = ''*''
      in RouteNode (strncpy_buf 256 seg) [] False HTTP_GET NULL wild param (if param then strncpy_buf ROUTE_MAX_PARAM_NAME (tl seg) else []))"

definition router_create :: RouteNode where
  "router_create = route_node_create ''/''"

definition split_path :: "string \<Rightarrow> string list" where
  "split_path pattern = strtok (\<lambda>c. c = CHR ''/'') pattern"

definition set_children :: "RouteNode list \<Rightarrow> RouteNode \<Rightarrow> RouteNode" where
  "set_children cs n = RouteNode (segment n) cs (is_endpoint n) (route_method n) (handler n) (is_wildcard n) (is_param n) (param_name n)"

definition set_endpoint :: "HttpMethod \<Rightarrow> ptr \<Rightarrow> RouteNode \<Rightarrow> RouteNode" where
  "set_endpoint m h n = RouteNode (segment n) (children n) True m h (is_wildcard n) (is_param n) (param_name n)"

definition find_child :: "string \<Rightarrow> RouteNode \<Rightarrow> nat option" where
  "find_child s n = find_idx (\<lambda>c. segment c = s) (children n) (length (children n))"

fun add_segs :: "string list \<Rightarrow> HttpMethod \<Rightarrow> ptr \<Rightarrow> RouteNode \<Rightarrow> RouteNode \<times> bool" where
  "add_segs [] m h n = (set_endpoint m h n, True)"
| "add_segs (s # ss) m h n =
     (case find_child s n of
        Some j \<Rightarrow> (case add_segs ss m h (children n ! j) of (c, ok) \<Rightarrow> (set_children ((children n)[j := c]) n, ok))
      | None \<Rightarrow>
          if length (children n) \<ge> ROUTE_MAX_CHILDREN then (n, False)
          else (case add_segs ss m h (route_node_create s) of (c, ok) \<Rightarrow> (set_children (children n @ [c]) n, ok)))"

definition router_add :: "RouteNode \<Rightarrow> HttpMethod \<Rightarrow> string \<Rightarrow> ptr \<Rightarrow> RouteNode \<times> bool" where
  "router_add r m pattern h = (if h = NULL then (r, False) else add_segs (split_path pattern) m h r)"

definition match_node :: "RouteNode \<Rightarrow> string \<Rightarrow> RouteParam list \<Rightarrow> (bool \<times> RouteParam list) option" where
  "match_node n seg params =
     (if \<not> is_param n \<and> \<not> is_wildcard n then Some (segment n = seg, params)
      else if is_param n \<and> length params < ROUTE_MAX_PARAMS then
        Some (True, params @ [\<lparr>p_name = strncpy_raw (ROUTE_MAX_PARAM_NAME - 1) (param_name n),
                               p_value = strncpy_raw (ROUTE_MAX_PARAM_VALUE - 1) seg\<rparr>])
      else if is_wildcard n then
        (if length params < ROUTE_MAX_PARAMS then
           Some (True, params @ [\<lparr>p_name = strncpy_raw (ROUTE_MAX_PARAM_NAME - 1) ''wildcard'',
                                  p_value = strncpy_raw (ROUTE_MAX_PARAM_VALUE - 1) seg\<rparr>])
         else None)
      else Some (False, params))"

text \<open>The loop over the children, and the loop over the segments.\<close>

fun match_children :: "RouteNode list \<Rightarrow> string \<Rightarrow> RouteParam list \<Rightarrow> (RouteNode option \<times> RouteParam list) option" where
  "match_children [] seg params = Some (None, params)"
| "match_children (c # cs) seg params =
     (case match_node c seg params of
        None \<Rightarrow> None
      | Some (ok, params') \<Rightarrow> if ok then Some (Some c, params') else match_children cs seg params')"

fun walk :: "string list \<Rightarrow> RouteNode \<Rightarrow> RouteParam list \<Rightarrow> (RouteNode option \<times> RouteParam list) option" where
  "walk [] n params = Some (Some n, params)"
| "walk (s # ss) n params =
     (case match_children (children n) s params of
        None \<Rightarrow> None
      | Some (None, params') \<Rightarrow> Some (None, params')
      | Some (Some c, params') \<Rightarrow> walk ss c params')"

text \<open>The result of the handler, and the call that was made.\<close>

definition router_dispatch :: "(ptr \<Rightarrow> RouteParam list \<Rightarrow> bool) \<Rightarrow> RouteNode \<Rightarrow> HttpMethod \<Rightarrow> string
    \<Rightarrow> (bool \<times> (ptr \<times> RouteParam list) option) option" where
  "router_dispatch call r m path =
     (case walk (split_path path) r [] of
        None \<Rightarrow> None
      | Some (None, _) \<Rightarrow> Some (False, None)
      | Some (Some n, params) \<Rightarrow>
          if is_endpoint n \<and> route_method n = m \<and> handler n \<noteq> NULL then Some (call (handler n) params, Some (handler n, params))
          else Some (False, None))"

section \<open>The table of routes\<close>

fun entry :: "string list \<Rightarrow> RouteNode \<Rightarrow> (HttpMethod \<times> ptr) option" where
  "entry [] n = (if is_endpoint n then Some (route_method n, handler n) else None)"
| "entry (s # ss) n = (case find_child s n of None \<Rightarrow> None | Some j \<Rightarrow> entry ss (children n ! j))"

text \<open>A node without parameters and wildcards, and a segment that is neither and fits a node.\<close>

fun plain :: "RouteNode \<Rightarrow> bool" where
  "plain (RouteNode s cs e m h w p pn) = (\<not> w \<and> \<not> p \<and> (\<forall>c \<in> set cs. plain c))"

definition plain_segment :: "string \<Rightarrow> bool" where
  "plain_segment s \<longleftrightarrow> take 1 s \<noteq> '':'' \<and> s \<noteq> ''*'' \<and> length s < 256"

lemma plain_iff: "plain n \<longleftrightarrow> \<not> is_wildcard n \<and> \<not> is_param n \<and> (\<forall>c \<in> set (children n). plain c)"
  by (cases n) simp

lemma set_sel [simp]:
  "segment (set_children cs n) = segment n" "children (set_children cs n) = cs" "is_endpoint (set_children cs n) = is_endpoint n"
  "route_method (set_children cs n) = route_method n" "handler (set_children cs n) = handler n" "is_wildcard (set_children cs n) = is_wildcard n"
  "is_param (set_children cs n) = is_param n"
  "segment (set_endpoint m h n) = segment n" "children (set_endpoint m h n) = children n" "is_endpoint (set_endpoint m h n)"
  "route_method (set_endpoint m h n) = m" "handler (set_endpoint m h n) = h" "is_wildcard (set_endpoint m h n) = is_wildcard n"
  "is_param (set_endpoint m h n) = is_param n"
  by (simp_all add: set_children_def set_endpoint_def)

lemma create_sel [simp]:
  "children (route_node_create s) = []" "\<not> is_endpoint (route_node_create s)"
  "length s < 256 \<Longrightarrow> segment (route_node_create s) = s"
  by (simp_all add: route_node_create_def Let_def strncpy_buf_def)

lemma create_plain: "plain_segment s \<Longrightarrow> plain (route_node_create s)"
  by (simp add: route_node_create_def plain_segment_def Let_def)

lemma create_entry: "entry p (route_node_create s) = None"
  by (cases p) (simp_all add: find_child_def find_idx_def)

lemma find_child_update:
  "find_child s n = Some j \<Longrightarrow> segment c = s \<Longrightarrow> find_child x (set_children ((children n)[j := c]) n) = find_child x n"
proof -
  assume "find_child s n = Some j" and c: "segment c = s"
  then have j: "j < length (children n)" "segment (children n ! j) = s" by (auto simp: find_child_def)
  then have "segment ((children n)[j := c] ! i) = segment (children n ! i)" for i using c by (cases "i = j") auto
  then show ?thesis by (simp add: find_child_def find_idx_def)
qed

lemma find_idx_snoc:
  "find_idx P (xs @ [x]) (Suc (length xs)) =
     (case find_idx P xs (length xs) of None \<Rightarrow> if P x then Some (length xs) else None | Some i \<Rightarrow> Some i)"
proof (cases "find_idx P xs (length xs)")
  case None
  then have "\<forall>i < length xs. \<not> P ((xs @ [x]) ! i)" by (simp add: find_idx_None_iff nth_append)
  then have "find_idx P (xs @ [x]) (Suc (length xs)) = (if P x then Some (length xs) else None)"
    by (auto simp: find_idx_None_iff find_idx_Some_iff less_Suc_eq)
  then show ?thesis using None by simp
next
  case (Some i)
  then have "i < length xs" "P (xs ! i)" "\<forall>j < i. \<not> P (xs ! j)" by (auto simp: find_idx_Some_iff)
  then have "find_idx P (xs @ [x]) (Suc (length xs)) = Some i" by (simp add: find_idx_Some_iff nth_append)
  then show ?thesis using Some by simp
qed

lemma find_idx_Cons:
  "find_idx P (x # xs) (Suc (length xs)) = (if P x then Some 0 else map_option Suc (find_idx P xs (length xs)))"
proof (cases "P x")
  case True
  then show ?thesis by (simp add: find_idx_Some_iff)
next
  case False
  show ?thesis
  proof (cases "find_idx P xs (length xs)")
    case None
    then have "find_idx P (x # xs) (Suc (length xs)) = None" using False by (auto simp: find_idx_None_iff less_Suc_eq_0_disj)
    then show ?thesis using False None by simp
  next
    case (Some i)
    then have "find_idx P (x # xs) (Suc (length xs)) = Some (Suc i)"
      using False by (auto simp: find_idx_Some_iff less_Suc_eq_0_disj)
    then show ?thesis using False Some by simp
  qed
qed

lemma find_child_append:
  "find_child s n = None \<Longrightarrow> segment c = s \<Longrightarrow>
   find_child x (set_children (children n @ [c]) n) = (if x = s then Some (length (children n)) else find_child x n)"
  by (auto simp: find_child_def find_idx_snoc split: option.split)

lemma add_segs_entry:
  "plain n \<Longrightarrow> \<forall>s \<in> set segs. plain_segment s \<Longrightarrow> add_segs segs m h n = (n', ok) \<Longrightarrow>
   plain n' \<and> segment n' = segment n \<and> (\<forall>p. entry p n' = (if ok \<and> p = segs then Some (m, h) else entry p n))"
proof (induction segs arbitrary: n n' ok)
  case Nil
  then have "entry p n' = (if p = [] then Some (m, h) else entry p n)" for p
    by (cases p) (auto simp: find_child_def split: option.split)
  then show ?case using Nil by (auto simp: plain_iff [of n] plain_iff [of "set_endpoint m h n"])
next
  case (Cons s ss)
  have s: "plain_segment s" "length s < 256" using Cons.prems(2) by (auto simp: plain_segment_def)
  show ?case
  proof (cases "find_child s n")
    case (Some j)
    obtain c where c: "add_segs ss m h (children n ! j) = (c, ok)" "n' = set_children ((children n)[j := c]) n"
      using Cons.prems(3) Some by (auto split: prod.splits)
    have j: "j < length (children n)" "segment (children n ! j) = s" using Some by (auto simp: find_child_def)
    have IH: "plain c" "segment c = s" "\<And>p. entry p c = (if ok \<and> p = ss then Some (m, h) else entry p (children n ! j))"
      using Cons.IH [OF _ _ c(1)] Cons.prems(1,2) j plain_iff [of n] by auto
    have "plain n'" using Cons.prems(1) IH(1) set_update_subset_insert [of "children n" j c] by (auto simp: c(2) plain_iff [of n] plain_iff [of "set_children _ n"])
    moreover have "entry p n' = (if ok \<and> p = s # ss then Some (m, h) else entry p n)" for p
    proof (cases p)
      case (Cons x xs)
      have "(children n)[j := c] ! k = children n ! k" if "find_child x n = Some k" "x \<noteq> s" for k
        using that j by (cases "k = j") (auto simp: find_child_def)
      then show ?thesis using Cons Some IH j by (cases "x = s") (auto simp: c(2) find_child_update [OF Some IH(2)] split: option.split)
    qed (simp add: c(2))
    ultimately show ?thesis by (simp add: c(2))
  next
    case None
    show ?thesis
    proof (cases "length (children n) \<ge> ROUTE_MAX_CHILDREN")
      case False
      obtain c where c: "add_segs ss m h (route_node_create s) = (c, ok)" "n' = set_children (children n @ [c]) n"
        using Cons.prems(3) None False by (auto split: prod.splits)
      have IH: "plain c" "segment c = s" "\<And>p. entry p c = (if ok \<and> p = ss then Some (m, h) else None)"
        using Cons.IH [OF create_plain [OF s(1)] _ c(1)] Cons.prems(2) s create_entry by auto
      have "entry p n' = (if ok \<and> p = s # ss then Some (m, h) else entry p n)" for p
      proof (cases p)
        case (Cons x xs)
        have "(children n @ [c]) ! k = children n ! k" if "find_child x n = Some k" for k
          using that by (auto simp: find_child_def nth_append)
        then show ?thesis using Cons None IH by (cases "x = s") (auto simp: c(2) find_child_append [OF None IH(2)] split: option.split)
      qed (simp add: c(2))
      then show ?thesis using Cons.prems(1) IH(1) by (auto simp: c(2) plain_iff [of n] plain_iff [of "set_children _ n"])
    qed (use Cons.prems None in simp)
  qed
qed

lemma match_children_plain:
  "\<forall>c \<in> set cs. plain c \<Longrightarrow>
   match_children cs s ps = Some (map_option (\<lambda>j. cs ! j) (find_idx (\<lambda>c. segment c = s) cs (length cs)), ps)"
proof (induction cs)
  case Nil
  then show ?case by (simp add: find_idx_def)
next
  case (Cons c cs)
  have "find_idx (\<lambda>c. segment c = s) (c # cs) (length (c # cs)) =
      (if segment c = s then Some 0 else map_option Suc (find_idx (\<lambda>c. segment c = s) cs (length cs)))"
    by (simp add: find_idx_Cons)
  then show ?case using Cons plain_iff [of c] by (auto simp: match_node_def option.map_comp comp_def)
qed

lemma walk_plain:
  "plain n \<Longrightarrow> \<exists>x. walk segs n ps = Some (x, ps) \<and>
     entry segs n = (case x of None \<Rightarrow> None | Some n' \<Rightarrow> if is_endpoint n' then Some (route_method n', handler n') else None)"
proof (induction segs arbitrary: n)
  case (Cons s ss)
  have m: "match_children (children n) s ps = Some (map_option (\<lambda>j. children n ! j) (find_child s n), ps)"
    using Cons.prems match_children_plain [of "children n"] plain_iff [of n] by (simp add: find_child_def)
  show ?case
  proof (cases "find_child s n")
    case (Some j)
    then have "plain (children n ! j)" using Cons.prems plain_iff [of n] by (auto simp: find_child_def)
    then show ?thesis using Cons.IH m Some by simp
  qed (simp add: m)
qed simp

section \<open>Registering and dispatching\<close>

text \<open>A registration, together with the table it should update.\<close>

definition register :: "RouteNode \<times> (string list \<rightharpoonup> HttpMethod \<times> ptr) \<Rightarrow> HttpMethod \<times> string \<times> ptr
    \<Rightarrow> RouteNode \<times> (string list \<rightharpoonup> HttpMethod \<times> ptr)" where
  "register rt route =
     (case (rt, route) of ((r, t), (m, pattern, h)) \<Rightarrow>
        case router_add r m pattern h of (r', ok) \<Rightarrow> (r', if ok then t(split_path pattern \<mapsto> (m, h)) else t))"

definition refines :: "RouteNode \<times> (string list \<rightharpoonup> HttpMethod \<times> ptr) \<Rightarrow> bool" where
  "refines rt \<longleftrightarrow> plain (fst rt) \<and> (\<forall>p. entry p (fst rt) = snd rt p) \<and> (\<forall>p m. snd rt p \<noteq> Some (m, NULL))"

lemma refines_register:
  assumes "refines (r, t)" "\<forall>s \<in> set (split_path pattern). plain_segment s"
  shows "refines (register (r, t) (m, pattern, h))"
proof (cases "h = NULL")
  case True
  then show ?thesis using assms(1) by (simp add: register_def router_add_def)
next
  case False
  obtain r' ok where "add_segs (split_path pattern) m h r = (r', ok)" by fastforce
  then show ?thesis
    using add_segs_entry [OF _ assms(2), of r m h r' ok] assms(1) False by (auto simp: register_def router_add_def refines_def)
qed

lemma refines_dispatch:
  assumes "refines (r, t)"
  shows "router_dispatch call r m path =
    (case t (split_path path) of
       Some (m', h) \<Rightarrow> if m' = m then Some (call h [], Some (h, [])) else Some (False, None)
     | None \<Rightarrow> Some (False, None))"
proof -
  obtain x where "walk (split_path path) r [] = Some (x, [])"
      "t (split_path path) = (case x of None \<Rightarrow> None | Some n' \<Rightarrow> if is_endpoint n' then Some (route_method n', handler n') else None)"
    using walk_plain [of r "split_path path" "[]"] assms by (auto simp: refines_def)
  then show ?thesis using assms by (auto simp: router_dispatch_def refines_def split: option.splits)
qed

text \<open>C13. However many patterns without parameters and wildcards were registered, in whatever order, the trie behaves like the
  table from paths to routes that the successful registrations fill: a request is handled exactly if the last successful
  registration of its path was for its method, by that registration's handler and without parameters.  So a path has one route:
  contrary to the test \<open>router_basic\<close>, which registers GET and POST on one path and expects both to be dispatched, the second
  registration replaces the first, and the GET request is then refused.\<close>

theorem router_refines_table:
  assumes "\<forall>(m, pattern, h) \<in> set routes. \<forall>s \<in> set (split_path pattern). plain_segment s"
    and "foldl register (router_create, Map.empty) routes = (r, t)"
  shows "router_dispatch call r m path =
    (case t (split_path path) of
       Some (m', h) \<Rightarrow> if m' = m then Some (call h [], Some (h, [])) else Some (False, None)
     | None \<Rightarrow> Some (False, None))"
proof -
  have "refines (foldl register rt routes)" if "refines rt" for rt
    using that assms(1)
  proof (induction routes arbitrary: rt)
    case (Cons route routes)
    obtain r t m pattern h where "rt = (r, t)" "route = (m, pattern, h)" by (metis prod_cases3 surj_pair)
    then show ?case using Cons refines_register [of r t pattern m h] by simp
  qed simp
  moreover have "refines (router_create, Map.empty)"
    using create_plain [of "''/''"] create_entry [of _ "''/''"] by (simp add: refines_def router_create_def plain_segment_def)
  ultimately have "refines (r, t)" using assms(2) by metis
  then show ?thesis by (rule refines_dispatch)
qed

text \<open>The second route takes the place of the first, although their methods differ.\<close>

theorem router_refines_table_witness:
  "router_dispatch (\<lambda>_ _. True) (fst (foldl register (router_create, Map.empty) [(HTTP_GET, ''/api/users'', 1), (HTTP_POST, ''/api/users'', 2)]))
     HTTP_GET ''/api/users'' = Some (False, None)"
proof -
  let ?routes = "[(HTTP_GET, ''/api/users'', 1), (HTTP_POST, ''/api/users'', 2)]"
  have sp: "split_path ''/api/users'' = [''api'', ''users'']" by code_simp
  obtain r t where rt: "foldl register (router_create, Map.empty) ?routes = (r, t)" by fastforce
  have ok: "\<forall>(m, pattern, h) \<in> set ?routes. \<forall>s \<in> set (split_path pattern). plain_segment s" by (simp add: sp plain_segment_def)
  have "snd (foldl register (router_create, Map.empty) ?routes) [''api'', ''users''] = Some (HTTP_POST, 2)" by code_simp
  then show ?thesis using router_refines_table [OF ok rt, of "\<lambda>_ _. True" HTTP_GET "''/api/users''"] unfolding rt sp by simp
qed

text \<open>A pattern of wildcards that is longer than the array of parameters overruns it.\<close>

theorem router_wildcards_overrun:
  "router_dispatch (\<lambda>_ _. True) (fst (router_add router_create HTTP_GET (concat (replicate 17 ''/*'')) 1)) HTTP_GET (concat (replicate 17 ''/a'')) = None"
  by code_simp

end
