(* ===== verification/Message_Queue.thy ===== *)
theory Message_Queue
  imports Binary_Heap C_Text
begin

text \<open>
  The message broker of \<open>src/mini-business-infra/src/message_queue.c\<close>: exchanges, bindings and queues, publishing with dead
  letters, consumption in arrival order and by priority, deduplication, and topic patterns.

  A channel is modelled together with the broker it refers to, and records the confirmations it sends.  The array of
  messages of a queue is the list of its first \<open>count\<close> slots, each null, a message, or a value the program has no
  right to use (\<open>Wild\<close>); \<open>spare\<close> holds what is left in the array of queues behind the live ones, which a later
  declaration takes over.  A function that uses a slot it may not use fails with \<open>Bad_memory\<close>.  Publishing to a full queue
  publishes the message again to the dead-letter exchange, and nothing bounds this recursion: the functions take the
  depth of calls they may use and fail with \<open>Too_deep\<close> when it was not enough.  The loop of the consumer runs over a queue
  that may grow meanwhile, so it takes a number of rounds.  Each reading of the clock is a value of the argument \<open>now\<close>;
  a callback maps a message and the data it works on to its answer, the message it leaves behind and the new data.  The
  strings of the requests fit their arrays, except in \<open>mq_queue_bind\<close>, whose arguments have no bound.  Allocations succeed.
\<close>

section \<open>Data\<close>

definition MQ_MAX_KEY_LEN :: nat where "MQ_MAX_KEY_LEN = 64"
definition MQ_MAX_ROUTING_KEY_LEN :: nat where "MQ_MAX_ROUTING_KEY_LEN = 128"
definition MQ_MAX_QUEUES :: nat where "MQ_MAX_QUEUES = 256"
definition MQ_MAX_RETRY_COUNT :: int where "MQ_MAX_RETRY_COUNT = 10"
definition MQ_DEFAULT_BACKOFF_MS :: int where "MQ_DEFAULT_BACKOFF_MS = 100"
definition MQ_DEDUP_WINDOW :: nat where "MQ_DEDUP_WINDOW = 10000"

datatype mq_exchange_type = MQ_EXCHANGE_DIRECT | MQ_EXCHANGE_TOPIC | MQ_EXCHANGE_FANOUT
datatype mq_confirm_mode = MQ_CONFIRM_OFF | MQ_CONFIRM_ON
datatype mq_ack_status = MQ_ACK_SUCCESS | MQ_ACK_NACK | MQ_ACK_REQUEUE

definition ack_code :: "mq_ack_status \<Rightarrow> int" where
  "ack_code a = (case a of MQ_ACK_SUCCESS \<Rightarrow> 0 | MQ_ACK_NACK \<Rightarrow> 1 | MQ_ACK_REQUEUE \<Rightarrow> 2)"

datatype mq_error = Too_deep | Bad_memory

text \<open>Running a step only when the one before it succeeded.\<close>

fun and_then :: "mq_error + 'a \<Rightarrow> ('a \<Rightarrow> mq_error + 'b) \<Rightarrow> mq_error + 'b" where
  "and_then (Inl e) f = Inl e"
| "and_then (Inr x) f = f x"

record mq_message =
  m_exchange_name :: string
  m_routing_key :: string
  body :: "u8 list"
  message_id :: string
  timestamp_ms :: int
  ttl_seconds :: int
  retry_count :: int
  max_retries :: int
  backoff_ms :: int

datatype mq_slot = Null | Wild | Msg (slot_msg: mq_message)

record mq_queue_declare_req =
  qd_name :: string
  qd_durable :: bool
  qd_message_ttl :: int
  qd_max_length :: int
  qd_dlx :: string
  qd_dlx_rk :: string

record mq_exchange =
  e_name :: string
  e_type :: mq_exchange_type
  e_durable :: bool
  e_auto_delete :: bool

record mq_queue =
  q_name :: string
  q_durable :: bool
  message_ttl :: int
  max_length :: int
  dlx :: string
  dlx_rk :: string
  messages :: "mq_slot list"
  q_cap :: nat
  consumer_cb :: ptr
  consumer_data :: ptr

record mq_binding =
  b_exchange :: string
  b_queue :: string
  b_routing_key :: string

record mq_broker =
  exchanges :: "mq_exchange list"
  queues :: "mq_queue list"
  spare :: "mq_queue list"
  bindings :: "mq_binding list"
  running :: bool

record mq_channel =
  broker :: mq_broker
  confirm_mode :: mq_confirm_mode
  confirm_cb :: ptr
  confirm_user_data :: ptr
  confirms :: "(string \<times> int \<times> ptr) list"

section \<open>Broker and declarations\<close>

definition mq_gen_uuid :: "nat \<Rightarrow> nat \<Rightarrow> nat \<Rightarrow> nat \<Rightarrow> nat \<Rightarrow> nat \<Rightarrow> string" where
  "mq_gen_uuid r1 r2 r3 r4 r5 r6 =
     strncpy_buf 37 (fmt_0x 8 r1 @ ''-'' @ fmt_0x 4 (r2 mod 0x10000) @ ''-'' @ fmt_0x 4 (r3 mod 0x1000 + 0x4000) @ ''-''
       @ fmt_0x 4 (r4 mod 0x4000 + 0x8000) @ ''-'' @ fmt_0x 4 (r5 mod 0x10000) @ fmt_0x 8 r6)"

definition mq_message_init :: "int \<Rightarrow> string \<Rightarrow> mq_message" where
  "mq_message_init now uuid =
     \<lparr>m_exchange_name = [], m_routing_key = [], body = [], message_id = uuid, timestamp_ms = now * 1000, ttl_seconds = 0,
      retry_count = 0, max_retries = MQ_MAX_RETRY_COUNT, backoff_ms = MQ_DEFAULT_BACKOFF_MS\<rparr>"

definition mq_broker_create :: "bool \<Rightarrow> mq_broker option" where
  "mq_broker_create ok =
     (if \<not> ok then None
      else Some \<lparr>exchanges = [\<lparr>e_name = ''amq.default'', e_type = MQ_EXCHANGE_DIRECT, e_durable = True, e_auto_delete = False\<rparr>],
                 queues = [], spare = [], bindings = [], running = False\<rparr>)"

definition mq_broker_start :: "mq_broker \<Rightarrow> mq_broker \<times> int" where
  "mq_broker_start b = (b\<lparr>running := True\<rparr>, 0)"

definition mq_broker_stop :: "mq_broker \<Rightarrow> mq_broker" where
  "mq_broker_stop b = b\<lparr>running := False\<rparr>"

definition mq_broker_open_channel :: "bool \<Rightarrow> mq_broker \<Rightarrow> mq_channel option" where
  "mq_broker_open_channel ok b =
     (if \<not> ok then None
      else Some \<lparr>broker = b, confirm_mode = MQ_CONFIRM_OFF, confirm_cb = NULL, confirm_user_data = NULL, confirms = []\<rparr>)"

text \<open>Changing the broker of a channel, and one of its queues.\<close>

definition on_broker :: "(mq_broker \<Rightarrow> mq_broker) \<Rightarrow> mq_channel \<Rightarrow> mq_channel" where
  "on_broker f ch = ch\<lparr>broker := f (broker ch)\<rparr>"

definition on_queue :: "nat \<Rightarrow> (mq_queue \<Rightarrow> mq_queue) \<Rightarrow> mq_channel \<Rightarrow> mq_channel" where
  "on_queue j f = on_broker (\<lambda>b. b\<lparr>queues := (queues b)[j := f (queues b ! j)]\<rparr>)"

lemma on_queue_same: "f (queues (broker ch) ! j) = queues (broker ch) ! j \<Longrightarrow> on_queue j f ch = ch"
  by (simp add: on_queue_def on_broker_def)

definition find_queue :: "mq_broker \<Rightarrow> string \<Rightarrow> nat option" where
  "find_queue b name = find_idx (\<lambda>q. q_name q = name) (queues b) (length (queues b))"

definition find_exchange :: "mq_broker \<Rightarrow> string \<Rightarrow> mq_exchange option" where
  "find_exchange b name = map_option (\<lambda>i. exchanges b ! i) (find_idx (\<lambda>e. e_name e = name) (exchanges b) (length (exchanges b)))"

definition mq_exchange_declare :: "mq_channel \<Rightarrow> mq_exchange \<Rightarrow> mq_channel \<times> int" where
  "mq_exchange_declare ch decl =
     (if find_exchange (broker ch) (e_name decl) \<noteq> None then (ch, 0)
      else if length (exchanges (broker ch)) \<ge> MQ_MAX_QUEUES then (ch, -1)
      else (on_broker (\<lambda>b. b\<lparr>exchanges := exchanges b @ [decl]\<rparr>) ch, 0))"

text \<open>A queue slot that was never used is zero.  Declaring a queue sets neither its count nor its consumer: they stay what
  the slot had before, and the new array of 64 null pointers is read with that count.\<close>

definition zero_queue :: mq_queue where
  "zero_queue = \<lparr>q_name = [], q_durable = False, message_ttl = 0, max_length = 0, dlx = [], dlx_rk = [], messages = [], q_cap = 0,
                 consumer_cb = NULL, consumer_data = NULL\<rparr>"

definition next_slot :: "mq_broker \<Rightarrow> mq_queue" where
  "next_slot b = (case spare b of [] \<Rightarrow> zero_queue | q # _ \<Rightarrow> q)"

definition mq_queue_declare :: "mq_channel \<Rightarrow> mq_queue_declare_req \<Rightarrow> mq_channel \<times> int" where
  "mq_queue_declare ch decl =
     (if find_queue (broker ch) (qd_name decl) \<noteq> None then (ch, 0)
      else if length (queues (broker ch)) \<ge> MQ_MAX_QUEUES then (ch, -1)
      else
        let q = next_slot (broker ch); n = length (messages q);
            q' = q\<lparr>q_name := qd_name decl, q_durable := qd_durable decl, message_ttl := qd_message_ttl decl, max_length := qd_max_length decl,
                   dlx := qd_dlx decl, dlx_rk := qd_dlx_rk decl, q_cap := 64,
                   messages := replicate (min n 64) Null @ replicate (n - 64) Wild\<rparr>
        in (on_broker (\<lambda>b. b\<lparr>queues := queues b @ [q'], spare := tl (spare b)\<rparr>) ch, 0))"

definition mq_queue_bind :: "mq_channel \<Rightarrow> string \<Rightarrow> string \<Rightarrow> string option \<Rightarrow> mq_error + (mq_channel \<times> int)" where
  "mq_queue_bind ch queue exchange routing_key =
     (let rk = (case routing_key of Some r \<Rightarrow> r | None \<Rightarrow> [])
      in if length (bindings (broker ch)) \<ge> MQ_MAX_QUEUES * 4 then Inr (ch, -1)
         else if length exchange \<ge> MQ_MAX_KEY_LEN \<or> length queue \<ge> MQ_MAX_KEY_LEN \<or> length rk \<ge> MQ_MAX_ROUTING_KEY_LEN then Inl Bad_memory
         else Inr (on_broker (\<lambda>b. b\<lparr>bindings := bindings b @ [\<lparr>b_exchange = exchange, b_queue = queue, b_routing_key = rk\<rparr>]\<rparr>) ch, 0))"

text \<open>Removing one element of an array by moving the ones behind it.\<close>

definition remove_at :: "nat \<Rightarrow> 'a list \<Rightarrow> 'a list" where
  "remove_at i xs = take i xs @ drop (i + 1) xs"

definition mq_queue_unbind :: "mq_channel \<Rightarrow> string \<Rightarrow> string \<Rightarrow> string option \<Rightarrow> mq_channel \<times> int" where
  "mq_queue_unbind ch queue exchange routing_key =
     (case find_idx (\<lambda>bd. b_queue bd = queue \<and> b_exchange bd = exchange \<and> (case routing_key of None \<Rightarrow> True | Some r \<Rightarrow> b_routing_key bd = r))
             (bindings (broker ch)) (length (bindings (broker ch))) of
        None \<Rightarrow> (ch, -1)
      | Some i \<Rightarrow> (on_broker (\<lambda>b. b\<lparr>bindings := remove_at i (bindings b)\<rparr>) ch, 0))"

text \<open>Freeing every message of a queue: a null pointer is skipped by \<open>mq_message_free\<close> and \<open>free\<close>.\<close>

definition free_messages :: "mq_queue \<Rightarrow> mq_error + unit" where
  "free_messages q = (if Wild \<in> set (messages q) then Inl Bad_memory else Inr ())"

definition mq_queue_purge :: "mq_channel \<Rightarrow> string \<Rightarrow> mq_error + (mq_channel \<times> int)" where
  "mq_queue_purge ch queue =
     (case find_queue (broker ch) queue of
        None \<Rightarrow> Inr (ch, -1)
      | Some i \<Rightarrow>
          and_then (free_messages (queues (broker ch) ! i)) (\<lambda>_. Inr (on_queue i (\<lambda>q. q\<lparr>messages := []\<rparr>) ch, 0)))"

definition mq_queue_delete :: "mq_channel \<Rightarrow> string \<Rightarrow> mq_error + (mq_channel \<times> int)" where
  "mq_queue_delete ch queue =
     (case find_queue (broker ch) queue of
        None \<Rightarrow> Inr (ch, -1)
      | Some i \<Rightarrow>
          and_then (free_messages (queues (broker ch) ! i))
            (\<lambda>_. Inr (on_broker (\<lambda>b. b\<lparr>queues := remove_at i (queues b), spare := last (queues b) # spare b\<rparr>) ch, 0)))"

definition mq_exchange_delete :: "mq_channel \<Rightarrow> string \<Rightarrow> mq_channel \<times> int" where
  "mq_exchange_delete ch exchange =
     (case find_idx (\<lambda>e. e_name e = exchange) (exchanges (broker ch)) (length (exchanges (broker ch))) of
        None \<Rightarrow> (ch, -1)
      | Some i \<Rightarrow> (on_broker (\<lambda>b. b\<lparr>exchanges := remove_at i (exchanges b)\<rparr>) ch, 0))"

definition mq_queue_message_count :: "mq_broker \<Rightarrow> string \<Rightarrow> int" where
  "mq_queue_message_count b queue =
     (case find_queue b queue of None \<Rightarrow> -1 | Some i \<Rightarrow> int (length (messages (queues b ! i))))"

definition mq_set_confirm_mode :: "mq_channel \<Rightarrow> mq_confirm_mode \<Rightarrow> mq_channel \<times> int" where
  "mq_set_confirm_mode ch mode = (ch\<lparr>confirm_mode := mode\<rparr>, 0)"

definition mq_set_confirm_callback :: "mq_channel \<Rightarrow> ptr \<Rightarrow> ptr \<Rightarrow> mq_channel \<times> int" where
  "mq_set_confirm_callback ch cb data = (ch\<lparr>confirm_cb := cb, confirm_user_data := data\<rparr>, 0)"

definition mq_basic_ack :: "mq_channel \<Rightarrow> string \<Rightarrow> mq_ack_status \<Rightarrow> int" where
  "mq_basic_ack ch mid status = 0"

definition mq_basic_cancel :: "mq_channel \<Rightarrow> string \<Rightarrow> mq_channel \<times> int" where
  "mq_basic_cancel ch queue =
     (case find_queue (broker ch) queue of
        None \<Rightarrow> (ch, -1)
      | Some i \<Rightarrow> (on_queue i (\<lambda>q. q\<lparr>consumer_cb := NULL, consumer_data := NULL\<rparr>) ch, 0))"

section \<open>Publishing\<close>

text \<open>Appending a copy of the message: the array is doubled once when it is full.\<close>

definition mq_store :: "mq_message \<Rightarrow> mq_queue \<Rightarrow> mq_error + mq_queue" where
  "mq_store msg q =
     (let cap = (if length (messages q) \<ge> q_cap q then q_cap q * 2 else q_cap q)
      in if length (messages q) < cap then Inr (q\<lparr>q_cap := cap, messages := messages q @ [Msg msg]\<rparr>) else Inl Bad_memory)"

definition store_in :: "mq_message \<Rightarrow> nat \<Rightarrow> mq_channel \<Rightarrow> mq_error + mq_channel" where
  "store_in msg j ch = and_then (mq_store msg (queues (broker ch) ! j)) (\<lambda>q. Inr (on_queue j (\<lambda>_. q) ch))"

definition mq_routes :: "mq_broker \<Rightarrow> string \<Rightarrow> string option \<Rightarrow> mq_binding \<Rightarrow> bool" where
  "mq_routes b exchange routing_key bd =
     (b_exchange bd = exchange \<and>
      (case routing_key of
         None \<Rightarrow> True
       | Some rk \<Rightarrow>
           if b_routing_key bd \<noteq> rk
           then (case find_exchange b exchange of None \<Rightarrow> False | Some ex \<Rightarrow> e_type ex \<noteq> MQ_EXCHANGE_DIRECT)
           else True))"

definition mq_confirm :: "mq_message \<Rightarrow> mq_channel \<Rightarrow> mq_channel" where
  "mq_confirm msg ch =
     (if confirm_cb ch \<noteq> NULL then ch\<lparr>confirms := confirms ch @ [(message_id msg, 1, confirm_user_data ch)]\<rparr> else ch)"

text \<open>The loop over the queues for one binding, and the loop over the bindings; \<open>again\<close> is the recursive call.\<close>

fun queue_loop :: "(mq_channel \<Rightarrow> string \<Rightarrow> string \<Rightarrow> mq_error + mq_channel) \<Rightarrow> string \<Rightarrow> mq_message \<Rightarrow> nat list \<Rightarrow> mq_channel \<times> nat
    \<Rightarrow> mq_error + (mq_channel \<times> nat)" where
  "queue_loop again name msg [] st = Inr st"
| "queue_loop again name msg (j # js) (ch, delivered) =
     (let q = queues (broker ch) ! j
      in if q_name q \<noteq> name then queue_loop again name msg js (ch, delivered)
         else if max_length q > 0 \<and> int (length (messages q)) \<ge> max_length q then
           (if dlx q \<noteq> [] then and_then (again ch (dlx q) (dlx_rk q)) (\<lambda>ch'. queue_loop again name msg js (ch', delivered))
            else queue_loop again name msg js (ch, delivered))
         else and_then (store_in msg j ch) (\<lambda>ch'. queue_loop again name msg js (ch', delivered + 1)))"

fun binding_loop :: "(mq_channel \<Rightarrow> string \<Rightarrow> string \<Rightarrow> mq_error + mq_channel) \<Rightarrow> string \<Rightarrow> string option \<Rightarrow> mq_message \<Rightarrow> mq_binding list
    \<Rightarrow> mq_channel \<times> nat \<Rightarrow> mq_error + (mq_channel \<times> nat)" where
  "binding_loop again exchange rk msg [] st = Inr st"
| "binding_loop again exchange rk msg (bd # bds) (ch, delivered) =
     (if \<not> mq_routes (broker ch) exchange rk bd then binding_loop again exchange rk msg bds (ch, delivered)
      else and_then (queue_loop again (b_queue bd) msg [0..<length (queues (broker ch))] (ch, delivered))
             (binding_loop again exchange rk msg bds))"

definition publish_result :: "mq_message \<Rightarrow> mq_channel \<times> nat \<Rightarrow> mq_channel \<times> int" where
  "publish_result msg st =
     (case st of (ch, delivered) \<Rightarrow> if delivered > 0 then (mq_confirm msg ch, 0) else (ch, -1))"

fun mq_basic_publish :: "nat \<Rightarrow> mq_channel \<Rightarrow> string \<Rightarrow> string option \<Rightarrow> mq_message \<Rightarrow> mq_error + (mq_channel \<times> int)" where
  "mq_basic_publish 0 ch exchange rk msg = Inl Too_deep"
| "mq_basic_publish (Suc depth) ch exchange rk msg =
     and_then
       (binding_loop (\<lambda>ch' ex r. and_then (mq_basic_publish depth ch' ex (Some r) msg) (\<lambda>(ch'', _). Inr ch'')) exchange rk msg
          (bindings (broker ch)) (ch, 0))
       (\<lambda>st. Inr (publish_result msg st))"

section \<open>Consuming\<close>

definition dead_letter :: "nat \<Rightarrow> nat \<Rightarrow> mq_message \<Rightarrow> mq_channel \<Rightarrow> mq_error + mq_channel" where
  "dead_letter depth i msg ch =
     (let q = queues (broker ch) ! i
      in if dlx q \<noteq> [] then and_then (mq_basic_publish depth ch (dlx q) (Some (dlx_rk q)) msg) (\<lambda>(ch', _). Inr ch') else Inr ch)"

definition set_slot :: "nat \<Rightarrow> nat \<Rightarrow> mq_slot \<Rightarrow> mq_channel \<Rightarrow> mq_channel" where
  "set_slot i j s = on_queue i (\<lambda>q. q\<lparr>messages := (messages q)[j := s]\<rparr>)"

definition expired :: "int \<Rightarrow> mq_message \<Rightarrow> bool" where
  "expired now msg \<longleftrightarrow> ttl_seconds msg > 0 \<and> now * 1000 - timestamp_ms msg > ttl_seconds msg * 1000"

text \<open>One message: it is released on success, on a negative answer (the retry count and the back-off are raised in the message
  just before it is freed) and when it has expired, and kept on any other answer.\<close>

definition consume_one :: "nat \<Rightarrow> int \<Rightarrow> (mq_message \<Rightarrow> 's \<Rightarrow> int \<times> mq_message \<times> 's) \<Rightarrow> nat \<Rightarrow> nat \<Rightarrow> mq_message \<Rightarrow> mq_channel \<times> 's
    \<Rightarrow> mq_error + (mq_channel \<times> 's)" where
  "consume_one depth now cb i j msg st =
     (case st of (ch, s) \<Rightarrow>
        if expired now msg then and_then (dead_letter depth i msg ch) (\<lambda>ch'. Inr (set_slot i j Null ch', s))
        else
          case cb msg s of (ack, msg', s') \<Rightarrow>
            if ack = ack_code MQ_ACK_SUCCESS then Inr (set_slot i j Null ch, s')
            else if ack = ack_code MQ_ACK_NACK then
              (if retry_count msg' < max_retries msg' then Inr (set_slot i j Null ch, s')
               else and_then (dead_letter depth i msg' (set_slot i j (Msg msg') ch)) (\<lambda>ch'. Inr (set_slot i j Null ch', s')))
            else Inr (set_slot i j (Msg msg') ch, s'))"

fun consume_loop :: "nat \<Rightarrow> nat \<Rightarrow> (nat \<Rightarrow> int) \<Rightarrow> (mq_message \<Rightarrow> 's \<Rightarrow> int \<times> mq_message \<times> 's) \<Rightarrow> nat \<Rightarrow> nat \<Rightarrow> mq_channel \<times> 's
    \<Rightarrow> mq_error + (mq_channel \<times> 's)" where
  "consume_loop depth rounds now cb i j (ch, s) =
     (if j \<ge> length (messages (queues (broker ch) ! i)) then Inr (ch, s)
      else
        case rounds of
          0 \<Rightarrow> Inl Too_deep
        | Suc rounds' \<Rightarrow>
            (case messages (queues (broker ch) ! i) ! j of
               Msg msg \<Rightarrow> and_then (consume_one depth (now j) cb i j msg (ch, s)) (consume_loop depth rounds' now cb i (j + 1))
             | _ \<Rightarrow> Inl Bad_memory))"

definition mq_basic_consume :: "nat \<Rightarrow> nat \<Rightarrow> (nat \<Rightarrow> int) \<Rightarrow> mq_channel \<Rightarrow> string \<Rightarrow> (mq_message \<Rightarrow> 's \<Rightarrow> int \<times> mq_message \<times> 's) \<Rightarrow> ptr \<Rightarrow> ptr \<Rightarrow> 's
    \<Rightarrow> mq_error + (mq_channel \<times> 's \<times> int)" where
  "mq_basic_consume depth rounds now ch queue cb cb_ptr user_data s =
     (if cb_ptr = NULL then Inr (ch, s, -1)
      else
        case find_queue (broker ch) queue of
          None \<Rightarrow> Inr (ch, s, -1)
        | Some i \<Rightarrow>
            and_then (consume_loop depth rounds now cb i 0 (on_queue i (\<lambda>q. q\<lparr>consumer_cb := cb_ptr, consumer_data := user_data\<rparr>) ch, s))
              (\<lambda>(ch', s'). Inr (on_queue i (\<lambda>q. q\<lparr>messages := filter (\<lambda>x. x \<noteq> Null) (messages q)\<rparr>) ch', s', 0)))"

section \<open>A concrete broker\<close>

text \<open>Two queues: \<open>jobs\<close>, which holds \<open>n\<close> messages and at most two and sends dead letters to the exchange \<open>dead\<close>, and \<open>late\<close>; the
  dead letters go to the queue \<open>target\<close>.\<close>

definition mq_demo :: "string \<Rightarrow> nat \<Rightarrow> mq_channel" where
  "mq_demo target n =
     \<lparr>broker =
        \<lparr>exchanges = [\<lparr>e_name = ''amq.default'', e_type = MQ_EXCHANGE_DIRECT, e_durable = True, e_auto_delete = False\<rparr>],
         queues = [zero_queue\<lparr>q_name := ''jobs'', max_length := 2, dlx := ''dead'', q_cap := 64,
                     messages := replicate n (Msg (mq_message_init 0 ''a''))\<rparr>,
                   zero_queue\<lparr>q_name := ''late'', q_cap := 64, messages := map (\<lambda>i. Msg (mq_message_init 0 i)) [''x'', ''y'', ''z'']\<rparr>],
         spare = [],
         bindings = [\<lparr>b_exchange = ''amq.default'', b_queue = ''jobs'', b_routing_key = ''k''\<rparr>,
                     \<lparr>b_exchange = ''dead'', b_queue = target, b_routing_key = []\<rparr>],
         running = True\<rparr>,
      confirm_mode = MQ_CONFIRM_OFF, confirm_cb = NULL, confirm_user_data = NULL, confirms = []\<rparr>"

lemmas mq_demo_simps = mq_demo_def zero_queue_def find_queue_def find_idx_def find_exchange_def mq_message_init_def

end
