(* ===== verification/Message_Priority.thy ===== *)
theory Message_Priority
  imports Message_Queue
begin

text \<open>
  Consumption by priority in \<open>src/mini-business-infra/src/message_queue.c\<close>: the binary heap of message indices and
  \<open>mq_basic_consume_priority\<close>.  The two sift loops are an instance of the locale \<open>binary_heap\<close>; the messages of the queue
  are handed to the callback once each, in the order of their priorities.
\<close>

section \<open>The heap\<close>

record mq_prio_entry =
  priority :: int
  msg_index :: nat

record mq_priority_queue =
  heap :: "mq_prio_entry list"
  pq_size :: nat
  pq_capacity :: nat

definition zero_entry :: mq_prio_entry where
  "zero_entry = \<lparr>priority = 0, msg_index = 0\<rparr>"

definition mq_pq_create :: "int \<Rightarrow> mq_priority_queue" where
  "mq_pq_create capacity =
     (let cap = (if capacity > 0 then nat capacity else 64)
      in \<lparr>heap = replicate cap zero_entry, pq_size = 0, pq_capacity = cap\<rparr>)"

function mq_pq_sift_up :: "mq_prio_entry list \<Rightarrow> nat \<Rightarrow> mq_prio_entry list" where
  "mq_pq_sift_up h idx =
     (if idx > 0 then
        let parent = (idx - 1) div 2
        in if priority (h ! idx) \<ge> priority (h ! parent) then h else mq_pq_sift_up (swap_at h idx parent) parent
      else h)"
  by pat_completeness auto
termination by (relation "measure (\<lambda>(h, idx). idx)") auto

definition mq_pq_smallest :: "mq_prio_entry list \<Rightarrow> nat \<Rightarrow> nat \<Rightarrow> nat" where
  "mq_pq_smallest h idx hsize =
     (let left = 2 * idx + 1; right = 2 * idx + 2;
          smallest = (if left < hsize \<and> priority (h ! left) < priority (h ! idx) then left else idx)
      in if right < hsize \<and> priority (h ! right) < priority (h ! smallest) then right else smallest)"

function mq_pq_sift_down :: "mq_prio_entry list \<Rightarrow> nat \<Rightarrow> nat \<Rightarrow> mq_prio_entry list" where
  "mq_pq_sift_down h idx hsize =
     (let smallest = mq_pq_smallest h idx hsize
      in if smallest = idx then h else mq_pq_sift_down (swap_at h idx smallest) smallest hsize)"
  by pat_completeness auto
termination
  by (relation "measure (\<lambda>(h, idx, hsize). hsize - idx)") (auto simp: mq_pq_smallest_def Let_def split: if_splits)

declare mq_pq_sift_up.simps [simp del] mq_pq_sift_down.simps [simp del]

text \<open>The new part of a reallocated array has no known contents: \<open>junk\<close> stands for it.\<close>

definition mq_pq_push :: "mq_prio_entry list \<Rightarrow> mq_priority_queue \<Rightarrow> int \<Rightarrow> nat \<Rightarrow> mq_priority_queue" where
  "mq_pq_push junk pq prio i =
     (let grown = pq_size pq \<ge> pq_capacity pq;
          cap = (if grown then pq_capacity pq * 2 else pq_capacity pq);
          h = (if grown then heap pq @ take (pq_capacity pq) junk else heap pq)
      in \<lparr>heap = mq_pq_sift_up (h[pq_size pq := \<lparr>priority = prio, msg_index = i\<rparr>]) (pq_size pq),
          pq_size = pq_size pq + 1, pq_capacity = cap\<rparr>)"

definition mq_pq_pop :: "mq_priority_queue \<Rightarrow> (mq_priority_queue \<times> int \<times> nat) option" where
  "mq_pq_pop pq =
     (if pq_size pq = 0 then None
      else
        let e = heap pq ! 0; n = pq_size pq - 1
        in Some (pq\<lparr>heap := (if n > 0 then mq_pq_sift_down ((heap pq)[0 := heap pq ! n]) 0 n else heap pq), pq_size := n\<rparr>,
                 priority e, msg_index e))"

section \<open>Consumption by priority\<close>

definition prio_of :: "int list option \<Rightarrow> int \<Rightarrow> nat \<Rightarrow> int" where
  "prio_of priorities msg_count j =
     (case priorities of None \<Rightarrow> 0 | Some ps \<Rightarrow> if int j < msg_count then ps ! j else 0)"

fun push_loop :: "mq_prio_entry list \<Rightarrow> (nat \<Rightarrow> int) \<Rightarrow> nat list \<Rightarrow> mq_priority_queue \<Rightarrow> mq_priority_queue" where
  "push_loop junk prio [] pq = pq"
| "push_loop junk prio (j # js) pq = push_loop junk prio js (mq_pq_push junk pq (prio j) j)"

lemma mq_pq_pop_size: "mq_pq_pop pq = Some (pq', p, i) \<Longrightarrow> pq_size pq = Suc (pq_size pq')"
  by (auto simp: mq_pq_pop_def Let_def split: if_splits)

function pop_loop :: "mq_slot list \<Rightarrow> (mq_message \<Rightarrow> 's \<Rightarrow> int \<times> mq_message \<times> 's) \<Rightarrow> mq_priority_queue \<Rightarrow> 's \<Rightarrow> mq_error + 's" where
  "pop_loop slots cb pq s =
     (case mq_pq_pop pq of
        None \<Rightarrow> Inr s
      | Some (pq', p, idx) \<Rightarrow>
          (case slots ! idx of
             Null \<Rightarrow> pop_loop slots cb pq' s
           | Wild \<Rightarrow> Inl Bad_memory
           | Msg msg \<Rightarrow> pop_loop slots cb pq' (snd (snd (cb msg s)))))"
  by pat_completeness auto
termination
  by (relation "measure (\<lambda>(slots, cb, pq, s). pq_size pq)") (auto dest: mq_pq_pop_size)

declare pop_loop.simps [simp del]

text \<open>Every index is popped once, so what the callback leaves in a message is not read again; it is freed with the rest.\<close>

definition mq_basic_consume_priority :: "mq_prio_entry list \<Rightarrow> mq_channel \<Rightarrow> string \<Rightarrow> int list option \<Rightarrow> int
    \<Rightarrow> (mq_message \<Rightarrow> 's \<Rightarrow> int \<times> mq_message \<times> 's) \<Rightarrow> ptr \<Rightarrow> 's \<Rightarrow> mq_error + (mq_channel \<times> 's \<times> int)" where
  "mq_basic_consume_priority junk ch queue priorities msg_count cb cb_ptr s =
     (if cb_ptr = NULL then Inr (ch, s, -1)
      else
        case find_queue (broker ch) queue of
          None \<Rightarrow> Inr (ch, s, -1)
        | Some i \<Rightarrow>
            let q = queues (broker ch) ! i; n = length (messages q)
            in if n = 0 then Inr (ch, s, 0)
               else and_then (pop_loop (messages q) cb (push_loop junk (prio_of priorities msg_count) [0..<n] (mq_pq_create (int n))) s)
                      (\<lambda>s'. and_then (free_messages q) (\<lambda>_. Inr (on_queue i (\<lambda>q. q\<lparr>messages := []\<rparr>) ch, s', 0))))"

section \<open>The order of delivery\<close>

interpretation mqh: binary_heap priority mq_pq_sift_up mq_pq_smallest mq_pq_sift_down
  by unfold_locales (rule mq_pq_sift_up.simps, simp add: mq_pq_smallest_def, rule mq_pq_sift_down.simps)

definition pq_inv :: "mq_priority_queue \<Rightarrow> bool" where
  "pq_inv pq \<longleftrightarrow> pq_size pq \<le> pq_capacity pq \<and> length (heap pq) = pq_capacity pq \<and> heap_ord priority (heap pq) (pq_size pq)"

definition pq_items :: "mq_priority_queue \<Rightarrow> mq_prio_entry multiset" where
  "pq_items pq = mset (take (pq_size pq) (heap pq))"

lemma pq_create_inv: "pq_inv (mq_pq_create n) \<and> pq_items (mq_pq_create n) = {#} \<and> pq_size (mq_pq_create n) = 0 \<and>
    (0 < n \<longrightarrow> pq_capacity (mq_pq_create n) = nat n)"
  by (simp add: mq_pq_create_def pq_inv_def pq_items_def heap_ord_def Let_def)

lemma pq_push:
  assumes "pq_inv pq" "pq_size pq < pq_capacity pq"
  shows "pq_inv (mq_pq_push junk pq p i)"
    and "pq_items (mq_pq_push junk pq p i) = add_mset \<lparr>priority = p, msg_index = i\<rparr> (pq_items pq)"
    and "pq_size (mq_pq_push junk pq p i) = Suc (pq_size pq)" "pq_capacity (mq_pq_push junk pq p i) = pq_capacity pq"
proof -
  let ?n = "pq_size pq" and ?e = "\<lparr>priority = p, msg_index = i\<rparr>"
  let ?h = "(heap pq)[?n := ?e]"
  have n: "?n < length ?h" using assms by (simp add: pq_inv_def)
  have push: "mq_pq_push junk pq p i = \<lparr>heap = mq_pq_sift_up ?h ?n, pq_size = Suc ?n, pq_capacity = pq_capacity pq\<rparr>"
    using assms(2) by (simp add: mq_pq_push_def)
  have "heap_but_up priority ?h (Suc ?n) ?n"
    using assms by (auto simp: heap_but_up_def heap_ord_def less_Suc_eq pq_inv_def)
  then have "heap_ord priority (mq_pq_sift_up ?h ?n) (Suc ?n)" using n by (intro mqh.sift_up_ordered) auto
  then show "pq_inv (mq_pq_push junk pq p i)" using assms by (simp add: push pq_inv_def)
  have "mset (take (Suc ?n) (mq_pq_sift_up ?h ?n)) = mset (take (Suc ?n) ?h)" using n by (intro mqh.mset_sift_up) auto
  also have "\<dots> = add_mset ?e (mset (take ?n (heap pq)))" using n by (simp add: take_Suc_conv_app_nth)
  finally show "pq_items (mq_pq_push junk pq p i) = add_mset ?e (pq_items pq)" by (simp add: push pq_items_def)
qed (use assms in \<open>simp_all add: mq_pq_push_def\<close>)

lemma push_loop_items:
  "pq_inv pq \<Longrightarrow> pq_size pq + length js \<le> pq_capacity pq \<Longrightarrow>
   pq_inv (push_loop junk prio js pq) \<and>
   pq_items (push_loop junk prio js pq) = pq_items pq + mset (map (\<lambda>j. \<lparr>priority = prio j, msg_index = j\<rparr>) js)"
  by (induction js arbitrary: pq) (simp_all add: pq_push)

lemma pq_pop:
  assumes "pq_inv pq" "mq_pq_pop pq = Some (pq', p, i)"
  shows "pq_inv pq'" and "pq_items pq = add_mset \<lparr>priority = p, msg_index = i\<rparr> (pq_items pq')"
    and "\<forall>e \<in># pq_items pq'. p \<le> priority e"
proof -
  obtain n where sz: "pq_size pq = Suc n" using mq_pq_pop_size [OF assms(2)] by blast
  let ?h = "heap pq" and ?h' = "(heap pq)[0 := heap pq ! n]"
  have len: "Suc n \<le> length ?h" using assms(1) sz by (simp add: pq_inv_def)
  have pi: "p = priority (?h ! 0)" "i = msg_index (?h ! 0)"
    and pq': "pq' = pq\<lparr>heap := (if n > 0 then mq_pq_sift_down ?h' 0 n else ?h), pq_size := n\<rparr>"
    using assms(2) sz by (simp_all add: mq_pq_pop_def Let_def)
  then have e: "\<lparr>priority = p, msg_index = i\<rparr> = ?h ! 0" by simp
  have ord: "heap_ord priority ?h n" using assms(1) sz by (simp add: pq_inv_def heap_ord_def)
  have "n > 0 \<Longrightarrow> heap_but_down priority ?h' n 0" using ord len by (intro mqh.heap_but_down_update) auto
  then have "n > 0 \<Longrightarrow> heap_ord priority (mq_pq_sift_down ?h' 0 n) n" using len by (intro mqh.sift_down_ordered) auto
  then show "pq_inv pq'" using assms(1) sz ord by (auto simp: pq' pq_inv_def)
  have "n > 0 \<Longrightarrow> mset (take n (mq_pq_sift_down ?h' 0 n)) = mset (take n ?h')" using len by (intro mqh.mset_sift_down) auto
  moreover have "n > 0 \<Longrightarrow> mset (take (Suc n) ?h) = add_mset (?h ! 0) (mset (take n ?h'))"
    using len by (cases ?h; cases n) (auto simp: take_Suc_conv_app_nth)
  moreover have "n = 0 \<Longrightarrow> mset (take (Suc n) ?h) = {#?h ! 0#}" using len by (cases ?h) auto
  ultimately show items: "pq_items pq = add_mset \<lparr>priority = p, msg_index = i\<rparr> (pq_items pq')"
    unfolding e pq' pq_items_def by (cases "n = 0") (simp_all add: sz)
  show "\<forall>e \<in># pq_items pq'. p \<le> priority e"
  proof
    fix x assume "x \<in># pq_items pq'"
    then have "x \<in># pq_items pq" by (simp add: items)
    then obtain k where "k < pq_size pq" "x = ?h ! k" using len sz by (auto simp: pq_items_def in_set_take_conv_nth)
    then have "priority (?h ! 0) \<le> priority x" using assms(1) by (auto simp: pq_inv_def intro: mqh.heap_min)
    then show "p \<le> priority x" using pi by simp
  qed
qed

text \<open>The messages of some slots, and what the callback makes of its data when it gets them one after the other.\<close>

definition call_all :: "(mq_message \<Rightarrow> 's \<Rightarrow> int \<times> mq_message \<times> 's) \<Rightarrow> mq_message list \<Rightarrow> 's \<Rightarrow> 's" where
  "call_all cb ms s = foldl (\<lambda>s m. snd (snd (cb m s))) s ms"

lemma pop_loop_order:
  assumes "pq_inv pq" "\<forall>e \<in># pq_items pq. msg_index e < length slots \<and> slots ! msg_index e = Msg (f (msg_index e))"
  shows "\<exists>es. mset es = pq_items pq \<and> sorted (map priority es) \<and>
              pop_loop slots cb pq s = Inr (call_all cb (map (f \<circ> msg_index) es) s)"
  using assms
proof (induction "pq_size pq" arbitrary: pq s)
  case 0
  then have "mq_pq_pop pq = None" "pq_items pq = {#}" by (simp_all add: mq_pq_pop_def pq_items_def)
  then show ?case by (intro exI [of _ "[]"]) (simp add: pop_loop.simps call_all_def)
next
  case (Suc n)
  then obtain pq' p i where pop: "mq_pq_pop pq = Some (pq', p, i)" by (auto simp: mq_pq_pop_def Let_def)
  note pq = pq_pop [OF Suc.prems(1) pop]
  have i: "slots ! i = Msg (f i)" and rest: "\<forall>e \<in># pq_items pq'. msg_index e < length slots \<and> slots ! msg_index e = Msg (f (msg_index e))"
    using Suc.prems(2) pq(2) by auto
  have "n = pq_size pq'" using Suc.hyps(2) mq_pq_pop_size [OF pop] by simp
  from Suc.hyps(1) [OF this pq(1) rest, of "snd (snd (cb (f i) s))"] obtain es where
    es: "mset es = pq_items pq'" "sorted (map priority es)"
        "pop_loop slots cb pq' (snd (snd (cb (f i) s))) = Inr (call_all cb (map (f \<circ> msg_index) es) (snd (snd (cb (f i) s))))" by auto
  show ?case
    by (rule exI [of _ "\<lparr>priority = p, msg_index = i\<rparr> # es"])
       (use es pq i pop in \<open>auto simp: pop_loop.simps [of slots cb pq] call_all_def simp flip: set_mset_mset\<close>)
qed

lemma consume_priority_order:
  assumes "find_queue (broker ch) queue = Some i" "messages (queues (broker ch) ! i) = map Msg ms" "cb_ptr \<noteq> NULL"
  shows "\<exists>order. mset order = mset [0..<length ms] \<and> sorted (map (prio_of priorities msg_count) order) \<and>
           mq_basic_consume_priority junk ch queue priorities msg_count cb cb_ptr s =
             Inr (on_queue i (\<lambda>q. q\<lparr>messages := []\<rparr>) ch, call_all cb (map ((!) ms) order) s, 0)"
proof (cases ms)
  case Nil
  have "on_queue i (\<lambda>q. q\<lparr>messages := []\<rparr>) ch = ch"
    using assms(2) Nil by (intro on_queue_same) simp
  then show ?thesis using assms Nil by (simp add: mq_basic_consume_priority_def call_all_def)
next
  case Cons
  let ?n = "length ms" and ?prio = "prio_of priorities msg_count"
  let ?pq = "push_loop junk ?prio [0..<?n] (mq_pq_create (int ?n))"
  have pq: "pq_inv ?pq" "pq_items ?pq = mset (map (\<lambda>j. \<lparr>priority = ?prio j, msg_index = j\<rparr>) [0..<?n])"
    using push_loop_items [of "mq_pq_create (int ?n)" "[0..<?n]" junk ?prio] pq_create_inv [of "int ?n"] Cons by auto
  obtain es where es: "mset es = pq_items ?pq" "sorted (map priority es)"
      "pop_loop (map Msg ms) cb ?pq s = Inr (call_all cb (map ((!) ms \<circ> msg_index) es) s)"
    using pop_loop_order [of ?pq "map Msg ms" "(!) ms" cb s] pq by auto
  have "set es = set (map (\<lambda>j. \<lparr>priority = ?prio j, msg_index = j\<rparr>) [0..<?n])"
    using arg_cong [OF es(1) [unfolded pq(2)], of set_mset] by (simp only: set_mset_mset)
  then have prio: "map priority es = map ?prio (map msg_index es)" by auto
  have "mset (map msg_index es) = image_mset msg_index (pq_items ?pq)" by (simp add: es(1))
  also have "\<dots> = mset (map msg_index (map (\<lambda>j. \<lparr>priority = ?prio j, msg_index = j\<rparr>) [0..<?n]))" unfolding pq(2) mset_map ..
  finally have order: "mset (map msg_index es) = mset [0..<?n]" by (simp only: list.map_comp comp_def) simp
  have "free_messages (queues (broker ch) ! i) = Inr ()" using assms(2) by (auto simp: free_messages_def)
  then have "mq_basic_consume_priority junk ch queue priorities msg_count cb cb_ptr s =
      Inr (on_queue i (\<lambda>q. q\<lparr>messages := []\<rparr>) ch, call_all cb (map ((!) ms) (map msg_index es)) s, 0)"
    using es(3) assms Cons by (simp add: mq_basic_consume_priority_def comp_def)
  then show ?thesis using es(2) prio order by metis
qed


text \<open>C20. Consuming by priority hands every message of the queue to the callback exactly once, in an order in which the
  priorities never decrease (a message without a priority counts as 0), empties the queue and returns 0.\<close>

theorem mq_priority_order:
  assumes "find_queue (broker ch) queue = Some i" "messages (queues (broker ch) ! i) = map Msg ms" "cb_ptr \<noteq> NULL"
  shows "\<exists>order. mset order = mset [0..<length ms] \<and> sorted (map (prio_of priorities msg_count) order) \<and>
           mq_basic_consume_priority junk ch queue priorities msg_count cb cb_ptr s =
             Inr (on_queue i (\<lambda>q. q\<lparr>messages := []\<rparr>) ch, call_all cb (map ((!) ms) order) s, 0)"
  using assms by (rule consume_priority_order)

theorem mq_priority_order_witness:
  "find_queue (broker (mq_demo ''jobs'' 0)) ''late'' = Some 1 \<and>
   (\<exists>order. mset order = mset [0, 1, 2] \<and> sorted (map (prio_of (Some [5, 1]) 2) order) \<and>
      mq_basic_consume_priority [] (mq_demo ''jobs'' 0) ''late'' (Some [5, 1]) 2 (\<lambda>m s. (0, m, s @ [message_id m])) 7 [] =
        Inr (on_queue 1 (\<lambda>q. q\<lparr>messages := []\<rparr>) (mq_demo ''jobs'' 0),
             call_all (\<lambda>m s. (0, m, s @ [message_id m])) (map ((!) (map (mq_message_init 0) [''x'', ''y'', ''z''])) order) [], 0))"
proof -
  have f: "find_queue (broker (mq_demo ''jobs'' 0)) ''late'' = Some 1" by (simp add: mq_demo_simps upt_rec)
  have m: "messages (queues (broker (mq_demo ''jobs'' 0)) ! 1) = map Msg (map (mq_message_init 0) [''x'', ''y'', ''z''])"
    by (simp add: mq_demo_def)
  show ?thesis
    using mq_priority_order [OF f m, of 7 "Some [5, 1]" 2 "[]" "\<lambda>m s. (0, m, s @ [message_id m])" "[]"] f by (simp add: numeral_2_eq_2)
qed

end
