(* ===== verification/Message_Delivery.thy ===== *)
theory Message_Delivery
  imports Message_Queue
begin

text \<open>
  What publishing and consuming in \<open>src/mini-business-infra/src/message_queue.c\<close> do to the queues: publishing returns when dead
  letters cannot go round in a circle, keeps the length limits, and without overflow appends one copy per matching binding;
  consuming calls the callback once per live message, in order.  The locale \<open>publish_invariant\<close> carries a property of the
  channel through publishing; it is instantiated with the invariants below.
\<close>

section \<open>Outcomes\<close>

text \<open>A computation that fails only in the ways \<open>E\<close> and otherwise ends in \<open>I\<close>.\<close>

definition ends :: "(mq_error \<Rightarrow> bool) \<Rightarrow> ('a \<Rightarrow> bool) \<Rightarrow> mq_error + 'a \<Rightarrow> bool" where
  "ends E I r = (case r of Inl e \<Rightarrow> E e | Inr x \<Rightarrow> I x)"

lemma ends_simps [simp]: "ends E I (Inl e) = E e" "ends E I (Inr x) = I x"
  by (simp_all add: ends_def)

lemma ends_and_then [intro]: "ends E J r \<Longrightarrow> (\<And>x. J x \<Longrightarrow> ends E I (f x)) \<Longrightarrow> ends E I (and_then r f)"
  by (cases r) auto

lemma ends_mono: "ends E I r \<Longrightarrow> (\<And>e. E e \<Longrightarrow> E' e) \<Longrightarrow> (\<And>x. I x \<Longrightarrow> J x) \<Longrightarrow> ends E' J r"
  by (cases r) auto

lemma ends_Inr: "ends (\<lambda>_. False) I r \<Longrightarrow> \<exists>x. r = Inr x \<and> I x"
  by (cases r) auto

section \<open>What publishing leaves alone\<close>

definition q_config :: "mq_queue \<Rightarrow> mq_queue" where
  "q_config q = q\<lparr>messages := [], q_cap := 0\<rparr>"

definition config :: "mq_channel \<Rightarrow> mq_channel" where
  "config ch = ch\<lparr>confirms := [], broker := (broker ch)\<lparr>queues := map q_config (queues (broker ch))\<rparr>\<rparr>"

definition q_full :: "mq_queue \<Rightarrow> bool" where
  "q_full q \<longleftrightarrow> max_length q > 0 \<and> int (length (messages q)) \<ge> max_length q"

lemma q_config_sel:
  assumes "q_config q = q_config q'"
  shows "q_name q = q_name q'" "dlx q = dlx q'" "dlx_rk q = dlx_rk q'" "max_length q = max_length q'"
  using arg_cong [OF assms, of q_name] arg_cong [OF assms, of dlx] arg_cong [OF assms, of dlx_rk] arg_cong [OF assms, of max_length]
  by (simp_all add: q_config_def)

lemma config_sel:
  assumes "config ch = config ch'"
  shows "bindings (broker ch) = bindings (broker ch')" "exchanges (broker ch) = exchanges (broker ch')"
    "map q_config (queues (broker ch)) = map q_config (queues (broker ch'))"
  using arg_cong [OF assms, of "bindings \<circ> broker"] arg_cong [OF assms, of "exchanges \<circ> broker"] arg_cong [OF assms, of "queues \<circ> broker"]
  by (simp_all add: config_def)

lemma config_length: "config ch = config ch' \<Longrightarrow> length (queues (broker ch)) = length (queues (broker ch'))"
  by (drule config_sel(3)) (metis length_map)

lemma config_queue:
  assumes "config ch = config ch'" "q \<in> set (queues (broker ch))"
  shows "\<exists>q' \<in> set (queues (broker ch')). q_config q = q_config q'"
  using config_sel(3) [OF assms(1)] assms(2) by (metis (no_types, lifting) image_iff list.set_map)

lemma routes_exchanges:
  assumes "exchanges b = exchanges b'"
  shows "mq_routes b = mq_routes b'"
proof -
  have "find_exchange b = find_exchange b'" by (intro ext) (simp add: find_exchange_def assms)
  then show ?thesis by (intro ext) (auto simp: mq_routes_def split: option.splits)
qed

lemmas routes_config = routes_exchanges [OF config_sel(2)]

lemma config_nth:
  assumes "config ch = config ch'" "i < length (queues (broker ch))"
  shows "q_config (queues (broker ch) ! i) = q_config (queues (broker ch') ! i)"
  using arg_cong [OF config_sel(3) [OF assms(1)], of "\<lambda>qs. qs ! i"] assms(2) config_length [OF assms(1)] by simp

lemma config_confirm [simp]: "config (mq_confirm msg ch) = config ch"
  by (simp add: config_def mq_confirm_def)

lemma broker_confirm [simp]: "broker (mq_confirm msg ch) = broker ch"
  by (simp add: mq_confirm_def)

lemma config_on_queue:
  "(j < length (queues (broker ch)) \<Longrightarrow> q_config (f (queues (broker ch) ! j)) = q_config (queues (broker ch) ! j)) \<Longrightarrow>
   config (on_queue j f ch) = config ch"
  by (cases "j < length (queues (broker ch))")
     (auto simp: config_def on_queue_def on_broker_def map_update list_update_beyond list_update_same_conv)

lemma config_store: "store_in msg j ch = Inr ch' \<Longrightarrow> config ch' = config ch"
  by (cases "mq_store msg (queues (broker ch) ! j)")
     (auto simp: store_in_def mq_store_def Let_def q_config_def intro!: config_on_queue split: if_splits)

section \<open>Properties kept by publishing\<close>

text \<open>A property together with the configuration of a given channel.\<close>

definition keeping :: "(mq_channel \<Rightarrow> bool) \<Rightarrow> mq_channel \<Rightarrow> mq_channel \<Rightarrow> bool" where
  "keeping I c ch \<longleftrightarrow> I ch \<and> config ch = config c"

locale publish_invariant =
  fixes I :: "mq_channel \<Rightarrow> bool"
  assumes store: "I ch \<Longrightarrow> j < length (queues (broker ch)) \<Longrightarrow> \<not> q_full (queues (broker ch) ! j) \<Longrightarrow> ends (\<lambda>_. False) I (store_in msg j ch)"
    and confirm: "I ch \<Longrightarrow> I (mq_confirm msg ch)"
begin

lemma store_at:
  assumes "keeping I c ch" "j < length (queues (broker ch))" "\<not> q_full (queues (broker ch) ! j)"
  shows "ends E (keeping I c) (store_in msg j ch)"
proof -
  obtain ch' where "store_in msg j ch = Inr ch'" "I ch'"
    using store [of ch j msg] assms ends_Inr by (metis keeping_def)
  then show ?thesis using config_store [of msg j ch ch'] assms(1) by (simp add: keeping_def)
qed

lemma queue_loop_at:
  assumes again: "\<And>ch q. keeping I c ch \<Longrightarrow> q \<in> set (queues (broker ch)) \<Longrightarrow> q_name q = name \<Longrightarrow> dlx q \<noteq> [] \<Longrightarrow>
                     ends E (keeping I c) (again ch (dlx q) (dlx_rk q))"
  shows "keeping I c ch \<Longrightarrow> set js \<subseteq> {..<length (queues (broker c))} \<Longrightarrow>
         ends E (\<lambda>(ch', n). keeping I c ch') (queue_loop again name msg js (ch, d))"
proof (induction js arbitrary: ch d)
  case (Cons j js)
  have j: "j < length (queues (broker ch))" using Cons.prems config_length [of ch c] by (auto simp: keeping_def)
  let ?q = "queues (broker ch) ! j"
  have more: "\<And>ch' d'. keeping I c ch' \<Longrightarrow> ends E (\<lambda>(ch', n). keeping I c ch') (queue_loop again name msg js (ch', d'))"
    using Cons by simp
  consider (other) "q_name ?q \<noteq> name" | (letter) "q_name ?q = name" "q_full ?q" "dlx ?q \<noteq> []"
    | (drop) "q_name ?q = name" "q_full ?q" "dlx ?q = []" | (keep) "q_name ?q = name" "\<not> q_full ?q" by blast
  then show ?case
  proof cases
    case letter
    then have "ends E (keeping I c) (again ch (dlx ?q) (dlx_rk ?q))" using again [of ch ?q] Cons.prems(1) j by simp
    then show ?thesis using letter more by (auto simp: Let_def q_full_def)
  next
    case keep
    then have "queue_loop again name msg (j # js) (ch, d) = and_then (store_in msg j ch) (\<lambda>ch'. queue_loop again name msg js (ch', d + 1))"
      by (auto simp: q_full_def Let_def)
    then show ?thesis using ends_and_then [OF store_at [OF Cons.prems(1) j keep(2)] more] by simp
  qed (use more Cons.prems in \<open>auto simp: q_full_def\<close>)
qed simp

lemma binding_loop_at:
  assumes again: "\<And>ch q bd. keeping I c ch \<Longrightarrow> q \<in> set (queues (broker ch)) \<Longrightarrow> bd \<in> set bds \<Longrightarrow> b_exchange bd = exchange \<Longrightarrow>
                     q_name q = b_queue bd \<Longrightarrow> dlx q \<noteq> [] \<Longrightarrow> ends E (keeping I c) (again ch (dlx q) (dlx_rk q))"
  shows "keeping I c ch \<Longrightarrow> ends E (\<lambda>(ch', n). keeping I c ch') (binding_loop again exchange rk msg bds (ch, d))"
  using again
proof (induction bds arbitrary: ch d)
  case (Cons bd bds)
  have more: "\<And>st. (case st of (ch', n) \<Rightarrow> keeping I c ch') \<Longrightarrow> ends E (\<lambda>(ch', n). keeping I c ch') (binding_loop again exchange rk msg bds st)"
    by (auto split: prod.splits intro!: Cons.IH intro: Cons.prems(2))
  show ?case
  proof (cases "mq_routes (broker ch) exchange rk bd")
    case True
    have "ends E (\<lambda>(ch', n). keeping I c ch') (queue_loop again (b_queue bd) msg [0..<length (queues (broker ch))] (ch, d))"
    proof (rule queue_loop_at)
      fix ch q assume "keeping I c ch" "q \<in> set (queues (broker ch))" "q_name q = b_queue bd" "dlx q \<noteq> []"
      then show "ends E (keeping I c) (again ch (dlx q) (dlx_rk q))"
        using Cons.prems(2) [of ch q bd] True by (simp add: mq_routes_def)
    next
      show "set [0..<length (queues (broker ch))] \<subseteq> {..<length (queues (broker c))}"
        using Cons.prems(1) config_length [of ch c] by (auto simp: keeping_def)
    qed (rule Cons.prems(1))
    then show ?thesis using True more by auto
  qed (use more Cons.prems in auto)
qed simp

lemma publish_step:
  assumes "keeping I c ch" and "\<And>ch' q bd. keeping I c ch' \<Longrightarrow> q \<in> set (queues (broker ch')) \<Longrightarrow> bd \<in> set (bindings (broker c)) \<Longrightarrow>
      b_exchange bd = exchange \<Longrightarrow> q_name q = b_queue bd \<Longrightarrow> dlx q \<noteq> [] \<Longrightarrow>
      ends E (\<lambda>(ch'', r). keeping I c ch'') (mq_basic_publish depth ch' (dlx q) (Some (dlx_rk q)) msg)"
  shows "ends E (\<lambda>(ch', r). keeping I c ch') (mq_basic_publish (Suc depth) ch exchange rk msg)"
proof -
  have bs: "bindings (broker ch) = bindings (broker c)" using assms(1) config_sel(1) [of ch c] by (simp add: keeping_def)
  have "ends E (\<lambda>(ch', n). keeping I c ch')
      (binding_loop (\<lambda>ch' ex r. and_then (mq_basic_publish depth ch' ex (Some r) msg) (\<lambda>(ch'', _). Inr ch'')) exchange rk msg
          (bindings (broker ch)) (ch, 0))"
    unfolding bs
  proof (rule binding_loop_at [OF _ assms(1)])
    fix ch' q bd assume "keeping I c ch'" "q \<in> set (queues (broker ch'))" "bd \<in> set (bindings (broker c))" "b_exchange bd = exchange"
      "q_name q = b_queue bd" "dlx q \<noteq> []"
    from assms(2) [OF this] show "ends E (keeping I c) (and_then (mq_basic_publish depth ch' (dlx q) (Some (dlx_rk q)) msg) (\<lambda>(ch'', _). Inr ch''))"
      by (rule ends_and_then) auto
  qed
  then show ?thesis
    unfolding mq_basic_publish.simps by (rule ends_and_then) (auto simp: publish_result_def keeping_def confirm split: if_splits)
qed

lemma publish_at:
  "keeping I c ch \<Longrightarrow> ends (\<lambda>e. e = Too_deep) (\<lambda>(ch', r). keeping I c ch') (mq_basic_publish depth ch exchange rk msg)"
proof (induction depth arbitrary: ch exchange rk)
  case (Suc depth)
  show ?case by (rule publish_step [OF Suc.prems]) (rule Suc.IH)
qed simp

lemma publish_keeps:
  assumes "I ch" "mq_basic_publish depth ch exchange rk msg = r"
  shows "r \<noteq> Inl Bad_memory" "r = Inr (ch', n) \<Longrightarrow> I ch' \<and> config ch' = config ch"
proof -
  have "ends (\<lambda>e. e = Too_deep) (\<lambda>(ch', n). I ch' \<and> config ch' = config ch) r"
    using publish_at [of ch ch depth exchange rk msg] assms by (simp add: keeping_def)
  then show "r \<noteq> Inl Bad_memory" "r = Inr (ch', n) \<Longrightarrow> I ch' \<and> config ch' = config ch" by auto
qed

text \<open>With ranks that fall along dead letters, the rank of the queues reached bounds the depth needed.\<close>

lemma publish_ranked:
  assumes ranked: "\<And>q bd. q \<in> set (queues (broker c)) \<Longrightarrow> dlx q \<noteq> [] \<Longrightarrow> bd \<in> set (bindings (broker c)) \<Longrightarrow>
                     b_exchange bd = dlx q \<Longrightarrow> (rank (b_queue bd) :: nat) < rank (q_name q)"
  shows "keeping I c ch \<Longrightarrow> \<forall>bd \<in> set (bindings (broker c)). b_exchange bd = exchange \<longrightarrow> rank (b_queue bd) < depth \<Longrightarrow>
         ends (\<lambda>_. False) (\<lambda>(ch', r). keeping I c ch') (mq_basic_publish (Suc depth) ch exchange rk msg)"
proof (induction depth arbitrary: ch exchange rk)
  case 0
  show ?case by (rule publish_step [OF 0(1)]) (use 0(2) in auto)
next
  case (Suc depth)
  show ?case
  proof (rule publish_step [OF Suc.prems(1)])
    fix ch' q bd
    assume a: "keeping I c ch'" "q \<in> set (queues (broker ch'))" "bd \<in> set (bindings (broker c))" "b_exchange bd = exchange"
      "q_name q = b_queue bd" "dlx q \<noteq> []"
    then obtain q' where q': "q' \<in> set (queues (broker c))" "q_config q = q_config q'"
      using config_queue [of ch' c q] by (auto simp: keeping_def)
    note sel = q_config_sel [OF q'(2)]
    have "rank (b_queue bd) \<le> depth" using Suc.prems(2) a(3,4) by auto
    then have "rank (b_queue bd') < depth" if "bd' \<in> set (bindings (broker c))" "b_exchange bd' = dlx q" for bd'
      using ranked [OF q'(1) _ that(1)] that a(5,6) sel(1,2) by simp
    then show "ends (\<lambda>_. False) (\<lambda>(ch'', r). keeping I c ch'') (mq_basic_publish (Suc depth) ch' (dlx q) (Some (dlx_rk q)) msg)"
      by (intro Suc.IH a(1)) auto
  qed
qed

text \<open>A full queue whose dead letters come back to it stops the loops for good.\<close>

lemma queue_loop_stuck:
  assumes again: "\<And>ch ex r. keeping I c ch \<Longrightarrow> ends (\<lambda>e. e = Too_deep) (keeping I c) (again ch ex r)"
    and stuck: "\<And>ch. keeping I c ch \<Longrightarrow> again ch X Y = Inl Too_deep"
    and full: "\<And>ch. keeping I c ch \<Longrightarrow> q_full (queues (broker ch) ! i) \<and> q_name (queues (broker ch) ! i) = name \<and>
                  dlx (queues (broker ch) ! i) = X \<and> dlx_rk (queues (broker ch) ! i) = Y" and X: "X \<noteq> []"
  shows "keeping I c ch \<Longrightarrow> set js \<subseteq> {..<length (queues (broker c))} \<Longrightarrow> i \<in> set js \<Longrightarrow>
         queue_loop again name msg js (ch, d) = Inl Too_deep"
proof (induction js arbitrary: ch d)
  case (Cons j js)
  show ?case
  proof (cases "j = i")
    case True
    then show ?thesis using full [OF Cons.prems(1)] stuck [OF Cons.prems(1)] X by (simp add: q_full_def Let_def)
  next
    case False
    have "queue_loop again name msg (j # js) (ch, d) = and_then (queue_loop again name msg [j] (ch, d)) (queue_loop again name msg js)"
      by (auto simp: Let_def split: sum.split) (cases "again ch (dlx (queues (broker ch) ! j)) (dlx_rk (queues (broker ch) ! j))";
            cases "store_in msg j ch"; simp)+
    moreover have "ends (\<lambda>e. e = Too_deep) (\<lambda>(ch', n). keeping I c ch') (queue_loop again name msg [j] (ch, d))"
      using Cons.prems by (intro queue_loop_at again) auto
    ultimately show ?thesis
      using Cons.IH Cons.prems False by (cases "queue_loop again name msg [j] (ch, d)") auto
  qed
qed simp

lemma publish_stuck:
  assumes full: "\<And>ch. keeping I c ch \<Longrightarrow> i < length (queues (broker ch)) \<and> q_full (queues (broker ch) ! i) \<and>
                  q_name (queues (broker ch) ! i) = b_queue bd \<and> dlx (queues (broker ch) ! i) = X \<and> dlx_rk (queues (broker ch) ! i) = Y"
    and X: "X \<noteq> []" and bd: "bd \<in> set (bindings (broker c))" "mq_routes (broker c) X (Some Y) bd"
  shows "keeping I c ch \<Longrightarrow> mq_basic_publish depth ch X (Some Y) msg = Inl Too_deep"
proof (induction depth arbitrary: ch)
  case (Suc depth)
  define again where "again = (\<lambda>ch' ex r. and_then (mq_basic_publish depth ch' ex (Some r) msg) (\<lambda>(ch'', _). Inr ch''))"
  have safe: "ends (\<lambda>e. e = Too_deep) (keeping I c) (again ch ex r)" if "keeping I c ch" for ch ex r
    unfolding again_def by (rule ends_and_then [OF publish_at [OF that]]) auto
  have stuck: "again ch X Y = Inl Too_deep" if "keeping I c ch" for ch using Suc.IH [OF that] by (simp add: again_def)
  have routes: "mq_routes (broker ch) X (Some Y) bd" if "keeping I c ch" for ch
    using bd(2) routes_config [of ch c] that by (simp add: keeping_def)
  have loop: "binding_loop again X (Some Y) msg bds (ch, d) = Inl Too_deep" if "keeping I c ch" "bd \<in> set bds" for bds ch d
    using that
  proof (induction bds arbitrary: ch d)
    case (Cons b bds)
    let ?js = "[0..<length (queues (broker ch))]"
    have len: "length (queues (broker ch)) = length (queues (broker c))" using Cons.prems config_length [of ch c] by (simp add: keeping_def)
    show ?case
    proof (cases "b = bd")
      case True
      have "queue_loop again (b_queue bd) msg ?js (ch, d) = Inl Too_deep"
        using queue_loop_stuck [of c again X Y i "b_queue bd" ch ?js msg d] safe stuck full X Cons.prems(1) full [OF Cons.prems(1)] len
        by (auto simp: atLeast0LessThan)
      then show ?thesis using True routes [OF Cons.prems(1)] by simp
    next
      case False
      have "ends (\<lambda>e. e = Too_deep) (\<lambda>(ch', n). keeping I c ch') (queue_loop again (b_queue b) msg ?js (ch, d))"
        using Cons.prems len by (intro queue_loop_at safe) auto
      then show ?thesis
        using Cons False by (cases "queue_loop again (b_queue b) msg ?js (ch, d)") auto
    qed
  qed simp
  have "bd \<in> set (bindings (broker ch))" using Suc.prems config_sel(1) [of ch c] bd(1) by (simp add: keeping_def)
  then show ?case using loop [OF Suc.prems] by (simp add: again_def)
qed simp

end

section \<open>Limits\<close>

definition q_ok :: "mq_queue \<Rightarrow> bool" where
  "q_ok q \<longleftrightarrow> 0 < q_cap q \<and> length (messages q) \<le> q_cap q"

definition queues_ok :: "mq_channel \<Rightarrow> bool" where
  "queues_ok ch \<longleftrightarrow> (\<forall>q \<in> set (queues (broker ch)). q_ok q)"

definition within_limits :: "mq_channel \<Rightarrow> bool" where
  "within_limits ch \<longleftrightarrow>
     (\<forall>q \<in> set (queues (broker ch)). q_ok q \<and> (max_length q > 0 \<longrightarrow> int (length (messages q)) \<le> max_length q))"

text \<open>The queue after its array has room and the message is appended.\<close>

definition stored :: "mq_message \<Rightarrow> mq_queue \<Rightarrow> mq_queue" where
  "stored msg q = q\<lparr>q_cap := (if length (messages q) \<ge> q_cap q then q_cap q * 2 else q_cap q), messages := messages q @ [Msg msg]\<rparr>"

lemma mq_store_ok: "q_ok q \<Longrightarrow> mq_store msg q = Inr (stored msg q)"
  by (auto simp: mq_store_def stored_def q_ok_def Let_def)

lemma stored_sel [simp]:
  "messages (stored msg q) = messages q @ [Msg msg]" "max_length (stored msg q) = max_length q" "q_name (stored msg q) = q_name q"
  by (simp_all add: stored_def)

lemma stored_ok: "q_ok q \<Longrightarrow> q_ok (stored msg q)"
  by (auto simp: stored_def q_ok_def)

lemma store_in_ok:
  "q_ok (queues (broker ch) ! j) \<Longrightarrow>
   store_in msg j ch = Inr (ch\<lparr>broker := (broker ch)\<lparr>queues := (queues (broker ch))[j := stored msg (queues (broker ch) ! j)]\<rparr>\<rparr>)"
  by (simp add: store_in_def mq_store_ok on_queue_def on_broker_def)

lemma in_set_updateD: "x \<in> set (xs[i := y]) \<Longrightarrow> x \<in> set xs \<or> x = y"
  using set_update_subset_insert by fastforce

interpretation pub_ok: publish_invariant queues_ok
  by unfold_locales (auto simp: queues_ok_def store_in_ok stored_ok dest!: in_set_updateD)

interpretation pub_limits: publish_invariant within_limits
  by unfold_locales (auto simp: within_limits_def store_in_ok stored_ok q_full_def dest!: in_set_updateD)

interpretation pub_full: publish_invariant "\<lambda>ch. queues_ok ch \<and> i < length (queues (broker ch)) \<and> q_full (queues (broker ch) ! i)" for i
  by unfold_locales
     (auto simp: queues_ok_def store_in_ok stored_ok nth_list_update dest!: in_set_updateD)

text \<open>C26. When the queues can be ranked so that every dead-letter exchange leads only to queues of lower rank, publishing
  returns with a depth of calls above the ranks of the queues bound to the exchange, and a broker whose queues are within
  their length limits stays within them.\<close>

theorem mq_publish_returns:
  assumes "within_limits ch"
    and "\<forall>q \<in> set (queues (broker ch)). \<forall>bd \<in> set (bindings (broker ch)).
           dlx q \<noteq> [] \<and> b_exchange bd = dlx q \<longrightarrow> (rank (b_queue bd) :: nat) < rank (q_name q)"
    and "\<forall>bd \<in> set (bindings (broker ch)). b_exchange bd = exchange \<longrightarrow> rank (b_queue bd) < depth"
  shows "\<exists>ch' r. mq_basic_publish (Suc depth) ch exchange rk msg = Inr (ch', r) \<and> within_limits ch'"
  using ends_Inr [OF pub_limits.publish_ranked [of ch rank ch exchange depth rk msg]] assms
  by (auto simp: keeping_def)

theorem mq_publish_returns_witness:
  "within_limits (mq_demo ''late'' 2) \<and>
   (\<exists>ch' r. mq_basic_publish (Suc 2) (mq_demo ''late'' 2) ''amq.default'' (Some ''k'') (mq_message_init 0 ''b'') = Inr (ch', r) \<and>
      within_limits ch')"
  using mq_publish_returns [of "mq_demo ''late'' 2" "\<lambda>n. if n = ''jobs'' then 1 else 0" "''amq.default''" 2]
  by (simp add: mq_demo_simps within_limits_def q_ok_def)

text \<open>Publishing to the dead-letter exchange of a full queue never returns when a binding of that exchange leads back to
  the queue: no depth of calls is enough.\<close>

theorem mq_dead_letter_cycle:
  assumes "queues_ok ch" "i < length (queues (broker ch))" "q_full (queues (broker ch) ! i)" "dlx (queues (broker ch) ! i) \<noteq> []"
    and "bd \<in> set (bindings (broker ch))" "b_queue bd = q_name (queues (broker ch) ! i)"
    and "mq_routes (broker ch) (dlx (queues (broker ch) ! i)) (Some (dlx_rk (queues (broker ch) ! i))) bd"
  shows "mq_basic_publish depth ch (dlx (queues (broker ch) ! i)) (Some (dlx_rk (queues (broker ch) ! i))) msg = Inl Too_deep"
proof (rule pub_full.publish_stuck)
  fix ch' assume "keeping (\<lambda>ch. queues_ok ch \<and> i < length (queues (broker ch)) \<and> q_full (queues (broker ch) ! i)) ch ch'"
  then have k: "config ch' = config ch" "i < length (queues (broker ch'))" "q_full (queues (broker ch') ! i)"
    by (simp_all only: keeping_def)
  show "i < length (queues (broker ch')) \<and> q_full (queues (broker ch') ! i) \<and>
      q_name (queues (broker ch') ! i) = b_queue bd \<and> dlx (queues (broker ch') ! i) = dlx (queues (broker ch) ! i) \<and>
      dlx_rk (queues (broker ch') ! i) = dlx_rk (queues (broker ch) ! i)"
    using q_config_sel [OF config_nth [OF k(1,2)]] k(2,3) assms(6) by simp
qed (use assms in \<open>simp_all add: keeping_def\<close>)

theorem mq_dead_letter_cycle_witness:
  "q_full (queues (broker (mq_demo ''jobs'' 2)) ! 0) \<and>
   mq_basic_publish 100 (mq_demo ''jobs'' 2) ''dead'' (Some []) (mq_message_init 0 ''b'') = Inl Too_deep"
proof -
  let ?bd = "\<lparr>b_exchange = ''dead'', b_queue = ''jobs'', b_routing_key = []\<rparr>"
  have "q_full (queues (broker (mq_demo ''jobs'' 2)) ! 0)" by (simp add: mq_demo_simps q_full_def)
  moreover have "queues_ok (mq_demo ''jobs'' 2)" by (simp add: mq_demo_simps queues_ok_def q_ok_def)
  ultimately show ?thesis
    using mq_dead_letter_cycle [of "mq_demo ''jobs'' 2" 0 ?bd 100] by (simp add: mq_demo_simps mq_routes_def)
qed

section \<open>Exact delivery\<close>

text \<open>What one binding adds, and how many bindings lead to a queue.\<close>

definition deliver_to :: "(mq_queue \<Rightarrow> mq_queue) \<Rightarrow> string \<Rightarrow> mq_channel \<Rightarrow> mq_channel" where
  "deliver_to f name ch =
     ch\<lparr>broker := (broker ch)\<lparr>queues := map (\<lambda>q. if q_name q = name then f q else q) (queues (broker ch))\<rparr>\<rparr>"

definition named :: "string \<Rightarrow> mq_channel \<Rightarrow> nat" where
  "named name ch = length (filter (\<lambda>q. q_name q = name) (queues (broker ch)))"

definition copies :: "(mq_binding \<Rightarrow> bool) \<Rightarrow> mq_binding list \<Rightarrow> string \<Rightarrow> nat" where
  "copies routes bds name = length (filter (\<lambda>bd. routes bd \<and> b_queue bd = name) bds)"

lemma copies_simps [simp]:
  "copies routes [] name = 0"
  "copies routes (bd # bds) name = (if routes bd \<and> b_queue bd = name then 1 else 0) + copies routes bds name"
  by (simp_all add: copies_def)

text \<open>After the queues before \<open>j\<close> are seen.\<close>

definition deliver_upto :: "(mq_queue \<Rightarrow> mq_queue) \<Rightarrow> string \<Rightarrow> nat \<Rightarrow> mq_channel \<Rightarrow> mq_channel" where
  "deliver_upto f name j ch =
     ch\<lparr>broker := (broker ch)\<lparr>queues := map (\<lambda>q. if q_name q = name then f q else q) (take j (queues (broker ch))) @ drop j (queues (broker ch))\<rparr>\<rparr>"

lemma deliver_upto_ends: "deliver_upto f name 0 ch = ch" "deliver_upto f name (length (queues (broker ch))) ch = deliver_to f name ch"
  by (simp_all add: deliver_upto_def deliver_to_def)

lemma deliver_upto_nth: "j < length (queues (broker ch)) \<Longrightarrow> queues (broker (deliver_upto f name j ch)) ! j = queues (broker ch) ! j"
  by (simp add: deliver_upto_def nth_append)

lemma deliver_upto_Suc:
  "j < length (queues (broker ch)) \<Longrightarrow>
   deliver_upto f name (Suc j) ch =
     (let q = queues (broker ch) ! j in
      if q_name q = name then on_queue j (\<lambda>_. f q) (deliver_upto f name j ch) else deliver_upto f name j ch)"
  by (auto simp: deliver_upto_def on_queue_def on_broker_def Let_def take_Suc_conv_app_nth list_update_append upd_conv_take_nth_drop
        simp flip: Cons_nth_drop_Suc)

text \<open>A loop over the queues that stores one copy in each queue of the given name, provided the queue is \<open>ready\<close>.\<close>

locale delivery_loop =
  fixes loop :: "string \<Rightarrow> mq_message \<Rightarrow> nat list \<Rightarrow> mq_channel \<times> nat \<Rightarrow> mq_error + (mq_channel \<times> nat)"
    and ready :: "mq_queue \<Rightarrow> bool"
  assumes stop: "loop name msg [] st = Inr st"
    and skip: "q_name (queues (broker ch) ! j) \<noteq> name \<Longrightarrow> loop name msg (j # js) (ch, d) = loop name msg js (ch, d)"
    and put: "q_name (queues (broker ch) ! j) = name \<Longrightarrow> ready (queues (broker ch) ! j) \<Longrightarrow>
      loop name msg (j # js) (ch, d) = loop name msg js (on_queue j (\<lambda>_. stored msg (queues (broker ch) ! j)) ch, d + 1)"
begin

lemma loop_from:
  assumes "\<And>q. q \<in> set (queues (broker ch)) \<Longrightarrow> q_name q = name \<Longrightarrow> ready q"
  shows "k + length js = length (queues (broker ch)) \<Longrightarrow> js = [k..<length (queues (broker ch))] \<Longrightarrow>
         loop name msg js (deliver_upto (stored msg) name k ch, d) =
           Inr (deliver_to (stored msg) name ch, d + length (filter (\<lambda>q. q_name q = name) (drop k (queues (broker ch)))))"
proof (induction js arbitrary: k d)
  case Nil
  then show ?case by (simp add: stop flip: deliver_upto_ends)
next
  case (Cons j js)
  let ?q = "queues (broker ch) ! k" and ?ch = "deliver_upto (stored msg) name k ch"
  have k: "k < length (queues (broker ch))" using Cons.prems(1) by simp
  have j: "j = k" and js: "js = [Suc k..<length (queues (broker ch))]" using Cons.prems(2) by (simp_all add: upt_conv_Cons [OF k])
  note q = deliver_upto_nth [OF k, of "stored msg" name]
  have drop: "drop k (queues (broker ch)) = ?q # drop (Suc k) (queues (broker ch))" using k by (simp add: Cons_nth_drop_Suc)
  have "loop name msg (j # js) (?ch, d) =
      loop name msg js (deliver_upto (stored msg) name (Suc k) ch, d + (if q_name ?q = name then 1 else 0))"
    using assms [of ?q] q j k by (cases "q_name ?q = name") (simp_all add: skip put deliver_upto_Suc Let_def)
  also have "\<dots> = Inr (deliver_to (stored msg) name ch,
      d + (if q_name ?q = name then 1 else 0) + length (filter (\<lambda>q. q_name q = name) (drop (Suc k) (queues (broker ch)))))"
    using Cons.prems(1) by (intro Cons.IH js) simp
  finally show ?case by (simp add: drop)
qed

lemma loop_exact:
  "(\<And>q. q \<in> set (queues (broker ch)) \<Longrightarrow> q_name q = name \<Longrightarrow> ready q) \<Longrightarrow>
   loop name msg [0..<length (queues (broker ch))] (ch, d) = Inr (deliver_to (stored msg) name ch, d + named name ch)"
  using loop_from [of ch name 0] by (simp add: deliver_upto_ends named_def)

end

interpretation ql: delivery_loop "queue_loop again" "\<lambda>q. q_ok q \<and> \<not> q_full q" for again
  by unfold_locales (auto simp: q_full_def store_in_def mq_store_ok Let_def)

lemma deliver_to_sel [simp]:
  "bindings (broker (deliver_to f name ch)) = bindings (broker ch)" "exchanges (broker (deliver_to f name ch)) = exchanges (broker ch)"
  "confirm_cb (deliver_to f name ch) = confirm_cb ch" "confirms (deliver_to f name ch) = confirms ch"
  "confirm_user_data (deliver_to f name ch) = confirm_user_data ch"
  by (simp_all add: deliver_to_def)

text \<open>The effect of the bindings on the whole broker.\<close>

definition deliver_all :: "(mq_queue \<Rightarrow> mq_queue) \<Rightarrow> (string \<Rightarrow> nat) \<Rightarrow> mq_channel \<Rightarrow> mq_channel" where
  "deliver_all f n ch = ch\<lparr>broker := (broker ch)\<lparr>queues := map (\<lambda>q. (f ^^ n (q_name q)) q) (queues (broker ch))\<rparr>\<rparr>"

definition total :: "(string \<Rightarrow> nat) \<Rightarrow> mq_channel \<Rightarrow> nat" where
  "total n ch = sum_list (map (\<lambda>q. n (q_name q)) (queues (broker ch)))"

lemma length_filter_sum: "length (filter P xs) = (\<Sum>x\<leftarrow>xs. if P x then 1 else 0)"
  by (induction xs) auto

lemma deliver_all_Suc:
  assumes "\<And>q. q_name (f q) = q_name q"
  shows "deliver_all f n (deliver_to f name ch) = deliver_all f (\<lambda>x. (if name = x then 1 else 0) + n x) ch"
    and "named name ch + total n (deliver_to f name ch) = total (\<lambda>x. (if name = x then 1 else 0) + n x) ch"
proof -
  show "deliver_all f n (deliver_to f name ch) = deliver_all f (\<lambda>x. (if name = x then 1 else 0) + n x) ch"
    by (auto simp: deliver_all_def deliver_to_def assms simp flip: funpow_swap1)
  have "named name ch = sum_list (map (\<lambda>q. if name = q_name q then 1 else 0) (queues (broker ch)))"
    unfolding named_def length_filter_sum by (simp add: eq_commute)
  moreover have "q_name (if q_name q = name then f q else q) = q_name q" for q by (simp add: assms)
  ultimately show "named name ch + total n (deliver_to f name ch) = total (\<lambda>x. (if name = x then 1 else 0) + n x) ch"
    by (simp add: total_def deliver_to_def comp_def sum_list_addf)
qed

lemma deliver_all_0: "deliver_all f (\<lambda>_. 0) ch = ch" "total (\<lambda>_. 0) ch = 0"
  by (simp_all add: deliver_all_def total_def)

text \<open>Room for all copies: either a queue has no limit or the copies fit under it.\<close>

definition has_room :: "(string \<Rightarrow> nat) \<Rightarrow> mq_channel \<Rightarrow> bool" where
  "has_room n ch \<longleftrightarrow>
     (\<forall>q \<in> set (queues (broker ch)). q_ok q \<and> (max_length q > 0 \<longrightarrow> int (length (messages q) + n (q_name q)) \<le> max_length q))"

lemma binding_loop_exact:
  "has_room (copies (mq_routes (broker ch) exchange rk) bds) ch \<Longrightarrow>
   binding_loop again exchange rk msg bds (ch, d) =
     Inr (deliver_all (stored msg) (copies (mq_routes (broker ch) exchange rk) bds) ch,
          d + total (copies (mq_routes (broker ch) exchange rk) bds) ch)"
proof (induction bds arbitrary: ch d)
  case Nil
  then show ?case by (simp add: deliver_all_0)
next
  case (Cons bd bds)
  let ?routes = "mq_routes (broker ch) exchange rk"
  show ?case
  proof (cases "?routes bd")
    case False
    then show ?thesis using Cons.IH [of ch d] Cons.prems by (simp add: copies_def)
  next
    case True
    let ?name = "b_queue bd" and ?n = "copies ?routes bds"
    let ?ch = "deliver_to (stored msg) ?name ch"
    have n: "copies ?routes (bd # bds) = (\<lambda>x. (if ?name = x then 1 else 0) + ?n x)" using True by (intro ext) simp
    have routes: "mq_routes (broker ?ch) = mq_routes (broker ch)"
      by (rule routes_exchanges) simp
    have loop: "queue_loop again ?name msg [0..<length (queues (broker ch))] (ch, d) = Inr (?ch, d + named ?name ch)"
      using Cons.prems unfolding n by (intro ql.loop_exact) (force simp: has_room_def q_full_def)
    have "has_room ?n ?ch"
      using Cons.prems unfolding n by (auto simp: has_room_def deliver_to_def stored_ok)
    from Cons.IH [of ?ch "d + named ?name ch", unfolded routes, OF this]
    have "binding_loop again exchange rk msg bds (?ch, d + named ?name ch) =
        Inr (deliver_all (stored msg) ?n ?ch, d + named ?name ch + total ?n ?ch)" .
    then show ?thesis
      using True loop unfolding n by (simp add: deliver_all_Suc add.assoc)
  qed
qed

lemma messages_stored_funpow: "messages ((stored msg ^^ n) q) = messages q @ replicate n (Msg msg)"
  by (induction n) (simp_all add: replicate_append_same)

lemma total_pos: "0 < total n ch \<longleftrightarrow> (\<exists>q \<in> set (queues (broker ch)). 0 < n (q_name q))"
  by (auto simp: total_def sum_list_eq_0_iff simp flip: neq0_conv)

text \<open>C21. When no queue can overflow, publishing appends to every queue one copy of the message per binding of the exchange
  that leads to it and that the code lets through, and changes no other queue; it returns 0 and confirms the message once exactly
  if some queue got a copy.  The last clause says which bindings are let through: those whose key equals the routing key, and, if there
  is no routing key or the exchange is found and is not a direct one, all of them.  So, contrary to the documentation,
  a topic exchange ignores the patterns of its bindings, and a channel confirms whatever its confirm mode is.\<close>

theorem mq_publish_exact:
  assumes "has_room (copies (mq_routes (broker ch) exchange rk) (bindings (broker ch))) ch"
  shows "\<exists>ch' r. mq_basic_publish (Suc depth) ch exchange rk msg = Inr (ch', r) \<and>
    map messages (queues (broker ch')) =
      map (\<lambda>q. messages q @ replicate (copies (mq_routes (broker ch) exchange rk) (bindings (broker ch)) (q_name q)) (Msg msg)) (queues (broker ch)) \<and>
    r = (if \<exists>q \<in> set (queues (broker ch)). copies (mq_routes (broker ch) exchange rk) (bindings (broker ch)) (q_name q) > 0 then 0 else -1) \<and>
    confirms ch' = confirms ch @ (if r = 0 \<and> confirm_cb ch \<noteq> NULL then [(message_id msg, 1, confirm_user_data ch)] else []) \<and>
    (\<forall>bd. mq_routes (broker ch) exchange rk bd = (b_exchange bd = exchange \<and> (rk = None \<or> rk = Some (b_routing_key bd) \<or>
       (\<exists>ex. find_exchange (broker ch) exchange = Some ex \<and> e_type ex \<noteq> MQ_EXCHANGE_DIRECT))))"
proof -
  let ?routes = "mq_routes (broker ch) exchange rk"
  have "?routes bd = (b_exchange bd = exchange \<and> (rk = None \<or> rk = Some (b_routing_key bd) \<or>
       (\<exists>ex. find_exchange (broker ch) exchange = Some ex \<and> e_type ex \<noteq> MQ_EXCHANGE_DIRECT)))" for bd
    by (auto simp: mq_routes_def split: option.splits)
  moreover have "\<exists>ch' r. mq_basic_publish (Suc depth) ch exchange rk msg = Inr (ch', r) \<and>
    map messages (queues (broker ch')) =
      map (\<lambda>q. messages q @ replicate (copies ?routes (bindings (broker ch)) (q_name q)) (Msg msg)) (queues (broker ch)) \<and>
    r = (if \<exists>q \<in> set (queues (broker ch)). copies ?routes (bindings (broker ch)) (q_name q) > 0 then 0 else -1) \<and>
    confirms ch' = confirms ch @ (if r = 0 \<and> confirm_cb ch \<noteq> NULL then [(message_id msg, 1, confirm_user_data ch)] else [])"
    unfolding mq_basic_publish.simps binding_loop_exact [OF assms]
    by (simp add: publish_result_def total_pos [symmetric] deliver_all_def mq_confirm_def messages_stored_funpow comp_def del: not_gr_zero)
  ultimately show ?thesis by blast
qed

theorem mq_publish_exact_witness:
  "\<exists>ch' r. mq_basic_publish (Suc 0) (mq_demo ''late'' 1) ''amq.default'' (Some ''k'') (mq_message_init 0 ''b'') = Inr (ch', r) \<and>
     map messages (queues (broker ch')) =
       [[Msg (mq_message_init 0 ''a''), Msg (mq_message_init 0 ''b'')], map (\<lambda>i. Msg (mq_message_init 0 i)) [''x'', ''y'', ''z'']] \<and> r = 0"
proof -
  let ?n = "copies (mq_routes (broker (mq_demo ''late'' 1)) ''amq.default'' (Some ''k'')) (bindings (broker (mq_demo ''late'' 1)))"
  have n: "?n = (\<lambda>x. if x = ''jobs'' then 1 else 0)" by (intro ext) (simp add: mq_demo_def mq_routes_def)
  have room: "has_room ?n (mq_demo ''late'' 1)" unfolding n by (simp add: has_room_def mq_demo_def zero_queue_def q_ok_def)
  show ?thesis using mq_publish_exact [OF room, of 0 "mq_message_init 0 ''b''"] unfolding n by (auto simp: mq_demo_def zero_queue_def)
qed

section \<open>Consuming\<close>

text \<open>What the callback sees of the messages of a queue without a dead-letter exchange: every message that has not expired, in
  order, once; and the messages that stay.\<close>

fun consume_ref :: "(nat \<Rightarrow> int) \<Rightarrow> (mq_message \<Rightarrow> 's \<Rightarrow> int \<times> mq_message \<times> 's) \<Rightarrow> nat \<Rightarrow> mq_message list \<Rightarrow> 's \<Rightarrow> mq_message list \<times> 's" where
  "consume_ref now cb j [] s = ([], s)"
| "consume_ref now cb j (m # ms) s =
     (if expired (now j) m then consume_ref now cb (j + 1) ms s
      else
        case cb m s of (ack, m', s') \<Rightarrow>
          case consume_ref now cb (j + 1) ms s' of (kept, s'') \<Rightarrow>
            (if ack = ack_code MQ_ACK_SUCCESS \<or> ack = ack_code MQ_ACK_NACK then kept else m' # kept, s''))"

definition with_slots :: "nat \<Rightarrow> mq_slot list \<Rightarrow> mq_channel \<Rightarrow> mq_channel" where
  "with_slots i slots = on_queue i (\<lambda>q. q\<lparr>messages := slots\<rparr>)"

lemma with_slots_sel:
  "i < length (queues (broker ch)) \<Longrightarrow> messages (queues (broker (with_slots i xs ch)) ! i) = xs"
  "i < length (queues (broker ch)) \<Longrightarrow> dlx (queues (broker (with_slots i xs ch)) ! i) = dlx (queues (broker ch) ! i)"
  "length (queues (broker (with_slots i xs ch))) = length (queues (broker ch))"
  by (simp_all add: with_slots_def on_queue_def on_broker_def)

lemma set_slot_with_slots: "i < length (queues (broker ch)) \<Longrightarrow> set_slot i j x (with_slots i xs ch) = with_slots i (xs[j := x]) ch"
  by (simp add: with_slots_def set_slot_def on_queue_def on_broker_def)

text \<open>The callback decides what the slot of a live message holds afterwards.\<close>

lemma consume_one_plain:
  assumes i: "i < length (queues (broker ch))" and dlx: "dlx (queues (broker ch) ! i) = []"
  shows "consume_one depth now cb i j m (with_slots i xs ch, s) =
    (if expired now m then Inr (with_slots i (xs[j := Null]) ch, s)
     else case cb m s of (ack, m', s') \<Rightarrow>
       Inr (with_slots i (xs[j := if ack = ack_code MQ_ACK_SUCCESS \<or> ack = ack_code MQ_ACK_NACK then Null else Msg m']) ch, s'))"
  using dlx i by (simp add: consume_one_def dead_letter_def with_slots_sel set_slot_with_slots Let_def split: prod.split)

lemma consume_loop_plain:
  assumes i: "i < length (queues (broker ch))" and dlx: "dlx (queues (broker ch) ! i) = []"
  shows "length ms \<le> rounds \<Longrightarrow>
    \<exists>seen'. filter (\<lambda>x. x \<noteq> Null) seen' = filter (\<lambda>x. x \<noteq> Null) seen @ map Msg (fst (consume_ref now cb (length seen) ms s)) \<and>
    consume_loop depth rounds now cb i (length seen) (with_slots i (seen @ map Msg ms) ch, s) =
      Inr (with_slots i seen' ch, snd (consume_ref now cb (length seen) ms s))"
proof (induction ms arbitrary: seen rounds s)
  case Nil
  then show ?case using i by (intro exI [of _ seen]) (simp add: consume_loop.simps with_slots_sel)
next
  case (Cons m ms)
  obtain rounds' where r: "rounds = Suc rounds'" "length ms \<le> rounds'" using Cons.prems by (cases rounds) auto
  obtain x s' where one: "consume_one depth (now (length seen)) cb i (length seen) m (with_slots i (seen @ map Msg (m # ms)) ch, s) =
        Inr (with_slots i ((seen @ [x]) @ map Msg ms) ch, s')"
    and ref: "consume_ref now cb (length seen) (m # ms) s =
        (case consume_ref now cb (Suc (length seen)) ms s' of (kept, s'') \<Rightarrow> ((case x of Msg m' \<Rightarrow> m' # kept | _ \<Rightarrow> kept), s''))" and x: "x \<noteq> Wild"
  proof (cases "expired (now (length seen)) m")
    case True
    then show ?thesis using that [of Null s] by (simp add: consume_one_plain [OF i dlx] list_update_append split: prod.split)
  next
    case False
    obtain ack m' s' where cb: "cb m s = (ack, m', s')" by (metis prod_cases3)
    then show ?thesis
      using that [of "if ack = ack_code MQ_ACK_SUCCESS \<or> ack = ack_code MQ_ACK_NACK then Null else Msg m'" s'] False
      by (simp add: consume_one_plain [OF i dlx] list_update_append split: prod.split)
  qed
  have loop: "consume_loop depth rounds now cb i (length seen) (with_slots i (seen @ map Msg (m # ms)) ch, s) =
      consume_loop depth rounds' now cb i (length (seen @ [x])) (with_slots i ((seen @ [x]) @ map Msg ms) ch, s')"
    using i one r(1) by (simp add: consume_loop.simps [of depth rounds] with_slots_sel nth_append)
  obtain seen' where "filter (\<lambda>x. x \<noteq> Null) seen' =
        filter (\<lambda>x. x \<noteq> Null) (seen @ [x]) @ map Msg (fst (consume_ref now cb (length (seen @ [x])) ms s'))"
      "consume_loop depth rounds' now cb i (length (seen @ [x])) (with_slots i ((seen @ [x]) @ map Msg ms) ch, s') =
        Inr (with_slots i seen' ch, snd (consume_ref now cb (length (seen @ [x])) ms s'))"
    using Cons.IH [OF r(2), of "seen @ [x]" s'] by blast
  then show ?case
    using x unfolding loop ref by (intro exI [of _ seen']) (auto split: prod.split mq_slot.split)
qed

text \<open>C28. On a queue without a dead-letter exchange, consuming calls the callback once for each message that has not expired,
  in the order of arrival, and keeps exactly the messages it neither accepts nor rejects: expired messages and rejected ones
  are gone, however many retries the rejected ones had left.  The documentation says the contrary of a rejected message: that it stays
  in the queue and is retried.\<close>

theorem mq_consume_exact:
  assumes "find_queue (broker ch) queue = Some i" "messages (queues (broker ch) ! i) = map Msg ms" "dlx (queues (broker ch) ! i) = []"
    and "length ms \<le> rounds" "cb_ptr \<noteq> NULL" "consume_ref now cb 0 ms s = (kept, s')"
  shows "mq_basic_consume depth rounds now ch queue cb cb_ptr user_data s =
           Inr (on_queue i (\<lambda>q. q\<lparr>consumer_cb := cb_ptr, consumer_data := user_data, messages := map Msg kept\<rparr>) ch, s', 0)"
proof -
  let ?ch = "on_queue i (\<lambda>q. q\<lparr>consumer_cb := cb_ptr, consumer_data := user_data\<rparr>) ch"
  have i: "i < length (queues (broker ch))" using assms(1) by (auto simp: find_queue_def)
  then have i': "i < length (queues (broker ?ch))" and dlx: "dlx (queues (broker ?ch) ! i) = []"
    and ms: "messages (queues (broker ?ch) ! i) = map Msg ms"
    using assms(2,3) by (simp_all add: on_queue_def on_broker_def)
  have start: "with_slots i ([] @ map Msg ms) ?ch = ?ch"
    unfolding with_slots_def by (rule on_queue_same) (simp add: ms [symmetric])
  obtain seen' where "filter (\<lambda>x. x \<noteq> Null) seen' = map Msg kept"
      "consume_loop depth rounds now cb i 0 (?ch, s) = Inr (with_slots i seen' ?ch, s')"
    using consume_loop_plain [OF i' dlx assms(4), of "[]" now cb s depth] assms(6) unfolding start by auto
  then show ?thesis
    using assms(1,5) i by (simp add: mq_basic_consume_def with_slots_def on_queue_def on_broker_def)
qed

theorem mq_consume_exact_witness:
  "mq_basic_consume 0 3 (\<lambda>_. 0) (mq_demo ''jobs'' 0) ''late'' (\<lambda>m s. (if message_id m = ''y'' then 1 else if message_id m = ''z'' then 2 else 0, m, s + 1)) 7 8 (0 :: nat) =
     Inr (on_queue 1 (\<lambda>q. q\<lparr>consumer_cb := 7, consumer_data := 8, messages := map Msg [mq_message_init 0 ''z'']\<rparr>) (mq_demo ''jobs'' 0), 3, 0)"
proof (rule mq_consume_exact)
  show "find_queue (broker (mq_demo ''jobs'' 0)) ''late'' = Some 1" by (simp add: mq_demo_simps upt_rec)
  show "messages (queues (broker (mq_demo ''jobs'' 0)) ! 1) = map Msg (map (mq_message_init 0) [''x'', ''y'', ''z''])"
    by (simp add: mq_demo_def)
qed (simp_all add: mq_demo_def zero_queue_def mq_message_init_def expired_def ack_code_def)

end
