(* ===== verification/Message_Routing.thy ===== *)
theory Message_Routing
  imports Message_Delivery
begin

text \<open>
  Deduplication and topic routing in \<open>src/mini-business-infra/src/message_queue.c\<close>.  The tracker of message ids, one static
  object of the program, is a value the functions take and return; an id is a duplicate exactly if it is among the last
  10000 recorded.  A topic pattern is matched character by character; on patterns of words this is the word-by-word
  comparison, where a final hash stands for one or more words.
\<close>

section \<open>Deduplication\<close>

record mq_dedup_entry =
  d_message_id :: string
  seen_at :: int

record mq_dedup_tracker =
  entries :: "mq_dedup_entry list"
  pos :: nat
  filled :: bool

definition mq_dedup_init :: mq_dedup_tracker where
  "mq_dedup_init = \<lparr>entries = replicate MQ_DEDUP_WINDOW \<lparr>d_message_id = [], seen_at = 0\<rparr>, pos = 0, filled = False\<rparr>"

definition mq_is_duplicate :: "mq_dedup_tracker \<Rightarrow> string \<Rightarrow> bool" where
  "mq_is_duplicate t mid \<longleftrightarrow>
     find_idx (\<lambda>e. d_message_id e = mid) (entries t) (if filled t then MQ_DEDUP_WINDOW else pos t) \<noteq> None"

definition mq_dedup_record :: "int \<Rightarrow> mq_dedup_tracker \<Rightarrow> string \<Rightarrow> mq_dedup_tracker" where
  "mq_dedup_record now t mid =
     (let t' = t\<lparr>entries := (entries t)[pos t := \<lparr>d_message_id = take 36 mid, seen_at = now\<rparr>], pos := pos t + 1\<rparr>
      in if pos t' \<ge> MQ_DEDUP_WINDOW then t'\<lparr>pos := 0, filled := True\<rparr> else t')"

definition mq_basic_publish_dedup :: "nat \<Rightarrow> int \<Rightarrow> mq_dedup_tracker \<Rightarrow> mq_channel \<Rightarrow> string \<Rightarrow> string option \<Rightarrow> mq_message
    \<Rightarrow> mq_error + (mq_dedup_tracker \<times> mq_channel \<times> int)" where
  "mq_basic_publish_dedup depth now t ch exchange rk msg =
     (if mq_is_duplicate t (message_id msg) then Inr (t, mq_confirm msg ch, 0)
      else
        let t' = mq_dedup_record now t (message_id msg)
        in and_then (mq_basic_publish depth ch exchange rk msg) (\<lambda>r. Inr (t', r)))"

text \<open>The ids of the window, in the order in which they were recorded.\<close>

definition window :: "mq_dedup_tracker \<Rightarrow> string list" where
  "window t = map d_message_id ((if filled t then drop (pos t) (entries t) else []) @ take (pos t) (entries t))"

definition dedup_inv :: "mq_dedup_tracker \<Rightarrow> bool" where
  "dedup_inv t \<longleftrightarrow> length (entries t) = MQ_DEDUP_WINDOW \<and> pos t < MQ_DEDUP_WINDOW"

text \<open>The last \<open>n\<close> elements.\<close>

definition last_n :: "nat \<Rightarrow> 'a list \<Rightarrow> 'a list" where
  "last_n n xs = drop (length xs - n) xs"

lemma last_n_snoc: "0 < n \<Longrightarrow> last_n n (xs @ [x]) = last_n n (last_n n xs @ [x])"
  by (cases "n \<le> length xs") (auto simp: last_n_def Suc_diff_le)

lemma is_duplicate_window: "dedup_inv t \<Longrightarrow> mq_is_duplicate t mid \<longleftrightarrow> mid \<in> set (window t)"
proof -
  assume inv: "dedup_inv t"
  have "mq_is_duplicate t mid \<longleftrightarrow> mid \<in> d_message_id ` set (take (if filled t then MQ_DEDUP_WINDOW else pos t) (entries t))"
    using inv by (force simp: mq_is_duplicate_def find_idx_None_iff dedup_inv_def in_set_conv_nth)
  moreover have "set (entries t) = set (take (pos t) (entries t)) \<union> set (drop (pos t) (entries t))"
    by (metis append_take_drop_id set_append)
  ultimately show ?thesis using inv by (auto simp: window_def dedup_inv_def)
qed

lemma dedup_record_inv: "dedup_inv t \<Longrightarrow> dedup_inv (mq_dedup_record now t mid)"
  by (auto simp: dedup_inv_def mq_dedup_record_def Let_def MQ_DEDUP_WINDOW_def)

lemma dedup_record_window:
  assumes inv: "dedup_inv t"
  shows "window (mq_dedup_record now t mid) = last_n MQ_DEDUP_WINDOW (window t @ [take 36 mid])"
proof -
  let ?e = "\<lparr>d_message_id = take 36 mid, seen_at = now\<rparr>" and ?xs = "entries t" and ?p = "pos t"
  have p: "?p < length ?xs" and len: "length ?xs = MQ_DEDUP_WINDOW" using inv by (simp_all add: dedup_inv_def)
  have split: "?xs[?p := ?e] = take ?p ?xs @ ?e # drop (Suc ?p) ?xs" using p by (simp add: upd_conv_take_nth_drop)
  have d: "drop ?p ?xs = ?xs ! ?p # drop (Suc ?p) ?xs" using p by (simp add: Cons_nth_drop_Suc)
  show ?thesis
  proof (cases "Suc ?p = MQ_DEDUP_WINDOW")
    case True
    then show ?thesis
      using p len by (cases "filled t") (simp_all add: window_def mq_dedup_record_def Let_def last_n_def split d)
  next
    case False
    then have "Suc ?p < MQ_DEDUP_WINDOW" using p len by simp
    then show ?thesis
      using p len by (cases "filled t") (simp_all add: window_def mq_dedup_record_def Let_def last_n_def split d)
  qed
qed

lemma dedup_records_window:
  "dedup_inv t \<Longrightarrow> dedup_inv (foldl (\<lambda>t (now, mid). mq_dedup_record now t mid) t ids) \<and>
   window (foldl (\<lambda>t (now, mid). mq_dedup_record now t mid) t ids) = last_n MQ_DEDUP_WINDOW (window t @ map (\<lambda>(now, mid). take 36 mid) ids)"
proof (induction ids rule: rev_induct)
  case Nil
  then have "length (window t) \<le> MQ_DEDUP_WINDOW" by (auto simp: window_def dedup_inv_def)
  then show ?case using Nil by (simp add: last_n_def)
next
  case (snoc x ids)
  then show ?case
    using last_n_snoc [of MQ_DEDUP_WINDOW "window t @ map (\<lambda>(now, mid). take 36 mid) ids"]
    by (cases x) (simp add: dedup_record_inv dedup_record_window MQ_DEDUP_WINDOW_def)
qed

text \<open>C27. After any sequence of recordings, an id counts as a duplicate exactly if it is among the last 10000 recorded (each
  cut to 36 characters).\<close>

theorem mq_dedup_exact:
  "mq_is_duplicate (foldl (\<lambda>t (now, mid). mq_dedup_record now t mid) mq_dedup_init ids) mid \<longleftrightarrow>
     mid \<in> set (last_n 10000 (map (\<lambda>(now, mid). take 36 mid) ids))"
proof -
  have "dedup_inv mq_dedup_init" "window mq_dedup_init = []"
    by (simp_all add: dedup_inv_def mq_dedup_init_def window_def MQ_DEDUP_WINDOW_def)
  then show ?thesis using dedup_records_window [of mq_dedup_init ids] is_duplicate_window by (simp add: MQ_DEDUP_WINDOW_def)
qed

text \<open>A message whose publication reached no queue is recorded all the same: publishing it again, with deduplication, reports
  success and confirms it, and delivers nothing.\<close>

theorem mq_dedup_drops_retry:
  assumes "dedup_inv t" "\<not> mq_is_duplicate t (message_id msg)" "length (message_id msg) \<le> 36"
    and "mq_basic_publish depth ch exchange rk msg = Inr (ch', -1)"
  shows "\<exists>t'. mq_basic_publish_dedup depth now t ch exchange rk msg = Inr (t', ch', -1) \<and>
    mq_basic_publish_dedup depth' now' t' ch' exchange' rk' msg = Inr (t', mq_confirm msg ch', 0)"
proof -
  let ?t = "mq_dedup_record now t (message_id msg)"
  have "message_id msg \<in> set (window ?t)"
    using assms(3) by (simp add: dedup_record_window [OF assms(1)] last_n_def MQ_DEDUP_WINDOW_def)
  then have "mq_is_duplicate ?t (message_id msg)" by (simp add: is_duplicate_window dedup_record_inv assms(1))
  then show ?thesis using assms(2,4) by (simp add: mq_basic_publish_dedup_def Let_def)
qed

section \<open>Topics\<close>

fun skip_word :: "string \<Rightarrow> string" where
  "skip_word [] = []"
| "skip_word (c # cs) = (if c = CHR ''.'' then c # cs else skip_word cs)"

lemma length_skip_word: "length (skip_word cs) \<le> length cs"
  by (induction cs) auto

text \<open>The loop of \<open>mq_topic_match\<close>, and the loop behind a hash, which tries every rest of the key that is not empty.\<close>

function (sequential) mq_topic_match :: "string \<Rightarrow> string \<Rightarrow> bool" and hash_loop :: "string \<Rightarrow> string \<Rightarrow> bool" where
  "mq_topic_match (p # ps) (k # ks) =
     (if p = CHR ''#'' then (if ps = [] then True else hash_loop ps (k # ks))
      else if p = CHR ''*'' then
        let ks' = skip_word (k # ks)
        in if take 1 ks' = ''.'' \<and> take 1 ps = ''.'' then mq_topic_match (tl ps) (tl ks') else mq_topic_match ps ks'
      else if p \<noteq> k then False
      else mq_topic_match ps ks)"
| "mq_topic_match ps ks = ((if take 1 ps = ''#'' then tl ps else ps) = [] \<and> ks = [])"
| "hash_loop ps [] = False"
| "hash_loop ps (k # ks) = (if mq_topic_match ps (k # ks) then True else hash_loop ps ks)"
  by pat_completeness auto
termination
proof (relation "measures [\<lambda>x. case x of Inl (ps, ks) \<Rightarrow> 2 * length ps | Inr (ps, ks) \<Rightarrow> 2 * length ps + 1,
    \<lambda>x. case x of Inl (ps, ks) \<Rightarrow> length ks | Inr (ps, ks) \<Rightarrow> length ks]", goal_cases)
qed (auto simp: neq_Nil_conv)

declare mq_topic_match.simps [simp del] hash_loop.simps [simp del]

text \<open>Storing without the length limit.\<close>

definition topic_store :: "mq_message \<Rightarrow> mq_queue \<Rightarrow> mq_error + mq_queue" where
  "topic_store msg q =
     (let cap = (if length (messages q) \<ge> q_cap q then (if q_cap q > 0 then q_cap q * 2 else 64) else q_cap q)
      in if length (messages q) < cap then Inr (q\<lparr>q_cap := cap, messages := messages q @ [Msg msg]\<rparr>) else Inl Bad_memory)"

fun topic_queue_loop :: "string \<Rightarrow> mq_message \<Rightarrow> nat list \<Rightarrow> mq_channel \<times> nat \<Rightarrow> mq_error + (mq_channel \<times> nat)" where
  "topic_queue_loop name msg [] st = Inr st"
| "topic_queue_loop name msg (j # js) (ch, delivered) =
     (let q = queues (broker ch) ! j
      in if q_name q \<noteq> name then topic_queue_loop name msg js (ch, delivered)
         else and_then (topic_store msg q) (\<lambda>q'. topic_queue_loop name msg js (on_queue j (\<lambda>_. q') ch, delivered + 1)))"

definition route_match :: "mq_exchange_type \<Rightarrow> string \<Rightarrow> string \<Rightarrow> mq_binding \<Rightarrow> bool" where
  "route_match ty exchange rk bd \<longleftrightarrow>
     b_exchange bd = exchange \<and>
     (case ty of
        MQ_EXCHANGE_FANOUT \<Rightarrow> True
      | MQ_EXCHANGE_TOPIC \<Rightarrow> mq_topic_match (b_routing_key bd) rk
      | MQ_EXCHANGE_DIRECT \<Rightarrow> b_routing_key bd = rk)"

fun topic_binding_loop :: "(mq_binding \<Rightarrow> bool) \<Rightarrow> mq_message \<Rightarrow> mq_binding list \<Rightarrow> mq_channel \<times> nat \<Rightarrow> mq_error + (mq_channel \<times> nat)" where
  "topic_binding_loop routes msg [] st = Inr st"
| "topic_binding_loop routes msg (bd # bds) (ch, delivered) =
     (if \<not> routes bd then topic_binding_loop routes msg bds (ch, delivered)
      else and_then (topic_queue_loop (b_queue bd) msg [0..<length (queues (broker ch))] (ch, delivered)) (topic_binding_loop routes msg bds))"

definition mq_basic_publish_topic :: "mq_channel \<Rightarrow> string \<Rightarrow> string \<Rightarrow> mq_message \<Rightarrow> mq_error + (mq_channel \<times> int)" where
  "mq_basic_publish_topic ch exchange rk msg =
     (case find_exchange (broker ch) exchange of
        None \<Rightarrow> Inr (ch, -1)
      | Some ex \<Rightarrow>
          and_then (topic_binding_loop (route_match (e_type ex) exchange rk) msg (bindings (broker ch)) (ch, 0))
            (\<lambda>st. Inr (publish_result msg st)))"

section \<open>Delivery by topic\<close>

lemma topic_store_ok: "q_ok q \<Longrightarrow> topic_store msg q = Inr (stored msg q)"
  by (auto simp: topic_store_def stored_def q_ok_def Let_def)

interpretation tql: delivery_loop topic_queue_loop q_ok
  by unfold_locales (auto simp: topic_store_ok Let_def)

lemma topic_binding_loop_exact:
  "queues_ok ch \<Longrightarrow> topic_binding_loop routes msg bds (ch, d) =
     Inr (deliver_all (stored msg) (copies routes bds) ch, d + total (copies routes bds) ch)"
proof (induction bds arbitrary: ch d)
  case Nil
  then show ?case by (simp add: deliver_all_0)
next
  case (Cons bd bds)
  let ?ch = "deliver_to (stored msg) (b_queue bd) ch"
  have loop: "topic_queue_loop (b_queue bd) msg [0..<length (queues (broker ch))] (ch, d) = Inr (?ch, d + named (b_queue bd) ch)"
    using Cons.prems by (intro tql.loop_exact) (simp add: queues_ok_def)
  have ok: "queues_ok ?ch" using Cons.prems by (auto simp: queues_ok_def deliver_to_def stored_ok)
  show ?case
  proof (cases "routes bd")
    case True
    then have "copies routes (bd # bds) = (\<lambda>x. (if b_queue bd = x then 1 else 0) + copies routes bds x)" by (intro ext) simp
    then show ?thesis using True loop Cons.IH [OF ok] by (simp add: deliver_all_Suc add.assoc)
  next
    case False
    then show ?thesis using Cons.IH [OF Cons.prems] by (simp add: copies_def)
  qed
qed

text \<open>Publishing by topic to a declared exchange appends to every queue one copy of the message per binding of the exchange
  that leads to it and that the kind of the exchange accepts, whatever the length limits of the queues are.\<close>

theorem mq_publish_topic_exact:
  assumes "queues_ok ch" "find_exchange (broker ch) exchange = Some ex"
  shows "\<exists>ch' r. mq_basic_publish_topic ch exchange rk msg = Inr (ch', r) \<and>
    map messages (queues (broker ch')) =
      map (\<lambda>q. messages q @ replicate (copies (route_match (e_type ex) exchange rk) (bindings (broker ch)) (q_name q)) (Msg msg)) (queues (broker ch)) \<and>
    r = (if \<exists>q \<in> set (queues (broker ch)). copies (route_match (e_type ex) exchange rk) (bindings (broker ch)) (q_name q) > 0 then 0 else -1)"
  unfolding mq_basic_publish_topic_def assms(2) topic_binding_loop_exact [OF assms(1)] option.case
  by (simp add: publish_result_def total_pos [symmetric] deliver_all_def mq_confirm_def messages_stored_funpow comp_def del: not_gr_zero)

section \<open>Patterns of words\<close>

fun join_dots :: "string list \<Rightarrow> string" where
  "join_dots [] = []"
| "join_dots [w] = w"
| "join_dots (w # ws) = w @ CHR ''.'' # join_dots ws"

definition word :: "string \<Rightarrow> bool" where
  "word w \<longleftrightarrow> w \<noteq> [] \<and> CHR ''.'' \<notin> set w"

definition literal :: "string \<Rightarrow> bool" where
  "literal w \<longleftrightarrow> CHR ''.'' \<notin> set w \<and> CHR ''*'' \<notin> set w \<and> CHR ''#'' \<notin> set w"

fun pattern_ok :: "string list \<Rightarrow> bool" where
  "pattern_ok [] = True"
| "pattern_ok (p # ps) = (p = ''#'' \<and> ps = [] \<or> (p = ''*'' \<or> literal p) \<and> pattern_ok ps)"

fun topic_words :: "string list \<Rightarrow> string list \<Rightarrow> bool" where
  "topic_words [] ks = (ks = [])"
| "topic_words (p # ps) [] = False"
| "topic_words (p # ps) (k # ks) = (p = ''#'' \<and> ps = [] \<or> (p = ''*'' \<or> p = k) \<and> topic_words ps ks)"

text \<open>A rest begins with a separator or is empty.\<close>

definition rest :: "string \<Rightarrow> bool" where
  "rest r \<longleftrightarrow> r = [] \<or> hd r = CHR ''.''"

lemma match_empty: "mq_topic_match [] r \<longleftrightarrow> r = []"
  by (cases r) (simp_all add: mq_topic_match.simps)

lemma match_dots: "mq_topic_match (CHR ''.'' # P) (CHR ''.'' # K) = mq_topic_match P K"
  by (simp add: mq_topic_match.simps)

lemma match_literal:
  "literal p \<Longrightarrow> CHR ''.'' \<notin> set k \<Longrightarrow> rest P \<Longrightarrow> rest K \<Longrightarrow> mq_topic_match (p @ P) (k @ K) \<longleftrightarrow> p = k \<and> mq_topic_match P K"
proof (induction p arbitrary: k)
  case Nil
  then show ?case
    by (cases k; cases P; cases K) (auto simp: match_empty rest_def mq_topic_match.simps)
next
  case (Cons c p)
  then show ?case
    by (cases k; cases K) (auto simp: literal_def rest_def mq_topic_match.simps)
qed

lemma skip_word_word: "CHR ''.'' \<notin> set k \<Longrightarrow> rest K \<Longrightarrow> skip_word (k @ K) = K"
  by (induction k) (cases K, auto simp: rest_def)

lemma match_star:
  assumes "word k" "rest P" "rest K"
  shows "mq_topic_match (CHR ''*'' # P) (k @ K) = mq_topic_match P K"
proof -
  obtain c k' where k: "k = c # k'" using assms(1) by (cases k) (auto simp: word_def)
  have "skip_word (k @ K) = K" using assms by (intro skip_word_word) (auto simp: word_def)
  then show ?thesis
    using assms(2,3) unfolding k by (cases P; cases K) (auto simp: mq_topic_match.simps(1) match_dots Let_def rest_def)
qed

lemma join_dots_Cons: "ws \<noteq> [] \<Longrightarrow> join_dots (w # ws) = w @ CHR ''.'' # join_dots ws"
  by (cases ws) simp_all

text \<open>C25. On a pattern of words separated by dots, each a literal word or a star, the last possibly a hash, matching compares the
  words of the pattern with the words of the key one by one: a star stands for exactly one word, and a final hash for one or
  more words: not for none, as the comment of the function and the documentation say.\<close>

theorem mq_topic_match_words:
  assumes "pattern_ok ps" "ps \<noteq> []" "\<forall>k \<in> set ks. word k" "ks \<noteq> []"
  shows "mq_topic_match (join_dots ps) (join_dots ks) \<longleftrightarrow> topic_words ps ks"
  using assms
proof (induction ps ks rule: topic_words.induct)
  case (3 p ps k ks)
  define P where "P = (if ps = [] then [] else CHR ''.'' # join_dots ps)"
  define K where "K = (if ks = [] then [] else CHR ''.'' # join_dots ks)"
  have join: "join_dots (p # ps) = p @ P" "join_dots (k # ks) = k @ K" by (simp_all add: P_def K_def join_dots_Cons)
  have rest: "rest P" "rest K" by (simp_all add: P_def K_def rest_def)
  have k: "word k" using 3 by simp
  have tail: "mq_topic_match P K \<longleftrightarrow> topic_words ps ks" if "pattern_ok ps"
    using 3 that by (cases ps; cases ks) (auto simp: P_def K_def match_dots match_empty mq_topic_match.simps)
  show ?case
  proof (cases "p = ''#'' \<and> ps = []")
    case True
    moreover obtain c k' where "k @ K = c # k'" using k by (cases k) (auto simp: word_def)
    ultimately show ?thesis unfolding join P_def by (simp add: mq_topic_match.simps)
  next
    case False
    then have p: "p = ''*'' \<or> literal p" "pattern_ok ps" using 3 by auto
    show ?thesis
    proof (cases "p = ''*''")
      case True
      then show ?thesis using match_star [OF k rest] tail p unfolding join by simp
    next
      case star: False
      then show ?thesis using False match_literal [of p k P K] k rest tail p unfolding join by (auto simp: word_def literal_def)
    qed
  qed
qed auto

theorem mq_topic_match_words_witness:
  "mq_topic_match ''order.*.#'' ''order.123.paid.now'' \<and> \<not> mq_topic_match ''order.#'' ''order''"
  using mq_topic_match_words [of "[''order'', ''*'', ''#'']" "[''order'', ''123'', ''paid'', ''now'']"]
    mq_topic_match_words [of "[''order'', ''#'']" "[''order'']"]
  by (simp add: word_def literal_def)

end
