(* ===== verification/Message_Safety.thy ===== *)
theory Message_Safety
  imports Message_Priority Message_Routing
begin

text \<open>
  Memory safety of the message broker of \<open>src/mini-business-infra/src/message_queue.c\<close>.  In every state that the operations
  other than \<open>mq_queue_delete\<close> reach from a new broker, the counts are within the arrays, the names of the queues are distinct and
  every slot of a queue holds a message, so no operation uses a slot it may not use.  After a deletion this fails: the
  next declaration takes over the count of the slot it reuses.
\<close>

section \<open>The invariant\<close>

definition slots_ok :: "nat \<Rightarrow> mq_queue \<Rightarrow> bool" where
  "slots_ok j q \<longleftrightarrow> q_ok q \<and> Wild \<notin> set (messages q) \<and> Null \<notin> set (drop j (messages q))"

definition mq_static :: "mq_channel \<Rightarrow> bool" where
  "mq_static ch \<longleftrightarrow> length (exchanges (broker ch)) \<le> MQ_MAX_QUEUES \<and> length (queues (broker ch)) \<le> MQ_MAX_QUEUES \<and>
     length (bindings (broker ch)) \<le> MQ_MAX_QUEUES * 4 \<and> distinct (map q_name (queues (broker ch))) \<and> spare (broker ch) = []"

definition mq_inv :: "mq_channel \<Rightarrow> bool" where
  "mq_inv ch \<longleftrightarrow> mq_static ch \<and> (\<forall>q \<in> set (queues (broker ch)). slots_ok 0 q)"

text \<open>While queue \<open>i\<close> is consumed, its slots before \<open>j\<close> may be null.\<close>

definition consuming :: "nat \<Rightarrow> nat \<Rightarrow> nat \<Rightarrow> mq_channel \<Rightarrow> bool" where
  "consuming n i j ch \<longleftrightarrow>
     mq_static ch \<and> length (queues (broker ch)) = n \<and> (\<forall>k < n. slots_ok (if k = i then j else 0) (queues (broker ch) ! k))"

lemma consuming_start: "mq_inv ch \<longleftrightarrow> consuming (length (queues (broker ch))) i 0 ch"
  by (auto simp: mq_inv_def consuming_def all_set_conv_all_nth)

lemma consuming_inv: "consuming n i 0 ch \<Longrightarrow> mq_inv ch"
  using consuming_start [of ch i] by (simp add: consuming_def)

lemma static_on_queue:
  assumes "mq_static ch" "q_name (f (queues (broker ch) ! k)) = q_name (queues (broker ch) ! k)"
  shows "mq_static (on_queue k f ch)"
proof -
  have "map q_name ((queues (broker ch))[k := f (queues (broker ch) ! k)]) = map q_name (queues (broker ch))"
    unfolding map_update assms(2) by (metis list_update_id map_update)
  then show ?thesis using assms(1) by (simp add: mq_static_def on_queue_def on_broker_def)
qed

lemma consuming_on_queue:
  assumes "consuming n i j ch" "q_name (f (queues (broker ch) ! k)) = q_name (queues (broker ch) ! k)"
    and "k < length (queues (broker ch)) \<Longrightarrow> slots_ok (if k = i then j' else 0) (f (queues (broker ch) ! k))" and "k = i \<or> j = j'"
  shows "consuming n i j' (on_queue k f ch)"
proof -
  have "mq_static (on_queue k f ch)" using assms(1,2) by (intro static_on_queue) (simp_all add: consuming_def)
  moreover have "slots_ok (if m = i then j' else 0) (queues (broker (on_queue k f ch)) ! m)" if "m < length (queues (broker ch))" for m
    using assms that by (cases "m = k") (auto simp: consuming_def on_queue_def on_broker_def)
  ultimately show ?thesis using assms(1) by (simp add: consuming_def on_queue_def on_broker_def)
qed

lemma slots_ok_stored: "slots_ok j q \<Longrightarrow> slots_ok j (stored msg q)"
  by (auto simp: slots_ok_def stored_ok dest: in_set_dropD)

lemma static_confirm [simp]: "mq_static (mq_confirm msg ch) = mq_static ch"
  by (simp add: mq_static_def)

interpretation pub_safe: publish_invariant "consuming n i j" for n i j
proof
  fix ch k msg assume c: "consuming n i j ch" and k: "k < length (queues (broker ch))" and "\<not> q_full (queues (broker ch) ! k)"
  have q: "slots_ok (if k = i then j else 0) (queues (broker ch) ! k)" using c k by (auto simp: consuming_def)
  then have "store_in msg k ch = Inr (on_queue k (\<lambda>_. stored msg (queues (broker ch) ! k)) ch)"
    by (simp add: store_in_def mq_store_ok slots_ok_def)
  moreover have "consuming n i j (on_queue k (\<lambda>_. stored msg (queues (broker ch) ! k)) ch)"
    using c q by (intro consuming_on_queue [OF c]) (simp_all add: slots_ok_stored)
  ultimately show "ends (\<lambda>_. False) (consuming n i j) (store_in msg k ch)" by simp
qed (simp add: consuming_def)

section \<open>Consuming keeps the invariant\<close>

lemma set_slot_consuming:
  assumes "consuming n i j ch" "x \<noteq> Wild" "j' = Suc j \<or> j' = j \<and> x \<noteq> Null"
  shows "consuming n i j' (set_slot i j x ch)"
  unfolding set_slot_def
proof (rule consuming_on_queue [OF assms(1)])
  assume "i < length (queues (broker ch))"
  then have q: "slots_ok j (queues (broker ch) ! i)" using assms(1) by (auto simp: consuming_def)
  let ?xs = "messages (queues (broker ch) ! i)"
  have "set (?xs[j := x]) \<subseteq> insert x (set ?xs)" by (rule set_update_subset_insert)
  moreover have "set (drop (Suc j) (?xs[j := x])) \<subseteq> set (drop j ?xs)"
    by (simp add: set_drop_subset_set_drop)
  moreover have "set (drop j (?xs[j := x])) \<subseteq> insert x (set (drop j ?xs))"
    by (simp add: drop_update_swap set_update_subset_insert)
  ultimately show "slots_ok (if i = i then j' else 0) ((queues (broker ch) ! i)\<lparr>messages := ?xs[j := x]\<rparr>)"
    using q assms(2,3) by (auto simp: slots_ok_def q_ok_def)
qed simp_all

lemma dead_letter_consuming:
  assumes "consuming n i j ch"
  shows "ends (\<lambda>e. e = Too_deep) (consuming n i j) (dead_letter depth i msg ch)"
proof -
  have c: "keeping (consuming n i j) ch ch" using assms by (simp add: keeping_def)
  show ?thesis
    unfolding dead_letter_def Let_def using assms
    by (auto intro!: ends_and_then [OF pub_safe.publish_at [OF c]] simp: keeping_def split: prod.splits)
qed

lemma consume_one_consuming:
  assumes "consuming n i j ch"
  shows "ends (\<lambda>e. e = Too_deep) (\<lambda>(ch', s). consuming n i (Suc j) ch') (consume_one depth now cb i j msg (ch, s))"
proof -
  have done_slot: "consuming n i (Suc j) (set_slot i j x ch')" if "consuming n i j ch'" "x \<noteq> Wild" for ch' x
    using that by (intro set_slot_consuming) auto
  have dead: "ends (\<lambda>e. e = Too_deep) (\<lambda>(ch', s). consuming n i (Suc j) ch') (and_then (dead_letter depth i m ch') (\<lambda>ch'. Inr (set_slot i j Null ch', s')))"
    if "consuming n i j ch'" for m ch' and s' :: 'a
    by (rule ends_and_then [OF dead_letter_consuming [OF that]]) (simp add: done_slot)
  have "consuming n i j (set_slot i j (Msg m) ch)" for m using assms by (intro set_slot_consuming) auto
  then show ?thesis
    using assms by (auto simp: consume_one_def done_slot intro: dead split: prod.split)
qed

lemma nth_in_drop: "j < length xs \<Longrightarrow> xs ! j \<in> set (drop j xs)"
  by (metis Cons_nth_drop_Suc list.set_intros(1))

declare consume_loop.simps [simp del]

lemma consume_loop_consuming:
  "consuming n i j ch \<Longrightarrow> i < n \<Longrightarrow>
   ends (\<lambda>e. e = Too_deep) (\<lambda>(ch', s). \<exists>j. consuming n i j ch') (consume_loop depth rounds now cb i j (ch, s))"
proof (induction rounds arbitrary: j ch s)
  case 0
  then show ?case by (auto simp: consume_loop.simps)
next
  case (Suc rounds)
  let ?xs = "messages (queues (broker ch) ! i)"
  show ?case
  proof (cases "j \<ge> length ?xs")
    case True
    then show ?thesis using Suc.prems by (auto simp: consume_loop.simps [of depth "Suc rounds"])
  next
    case False
    have "slots_ok j (queues (broker ch) ! i)" using Suc.prems by (auto simp: consuming_def)
    then have "?xs ! j \<noteq> Null" "?xs ! j \<noteq> Wild"
      using False nth_in_drop [of j ?xs] by (auto simp: slots_ok_def dest: in_set_dropD)
    then obtain msg where "?xs ! j = Msg msg" by (cases "?xs ! j") auto
    then have "consume_loop depth (Suc rounds) now cb i j (ch, s) =
        and_then (consume_one depth (now j) cb i j msg (ch, s)) (consume_loop depth rounds now cb i (Suc j))"
      using False by (simp add: consume_loop.simps [of depth "Suc rounds"])
    moreover have "ends (\<lambda>e. e = Too_deep) (\<lambda>(ch', s). \<exists>j. consuming n i j ch') (consume_loop depth rounds now cb i (Suc j) st)"
      if "case st of (ch', s) \<Rightarrow> consuming n i (Suc j) ch'" for st
      using that Suc.IH [OF _ Suc.prems(2)] by (cases st) blast
    ultimately show ?thesis using ends_and_then [OF consume_one_consuming [OF Suc.prems(1)]] by metis
  qed
qed

lemma consume_inv:
  assumes "mq_inv ch"
  shows "ends (\<lambda>e. e = Too_deep) (\<lambda>(ch', s, r). mq_inv ch') (mq_basic_consume depth rounds now ch queue cb cb_ptr user_data s)"
proof (cases "cb_ptr = NULL \<or> find_queue (broker ch) queue = None")
  case True
  then show ?thesis using assms by (auto simp: mq_basic_consume_def)
next
  case False
  then obtain i where i: "find_queue (broker ch) queue = Some i" "i < length (queues (broker ch))" by (auto simp: find_queue_def)
  let ?n = "length (queues (broker ch))" and ?ch = "on_queue i (\<lambda>q. q\<lparr>consumer_cb := cb_ptr, consumer_data := user_data\<rparr>) ch"
  have ch: "consuming ?n i 0 ch" using assms consuming_start by blast
  then have "slots_ok 0 (queues (broker ch) ! i)" using i by (auto simp: consuming_def)
  then have "consuming ?n i 0 ?ch"
    by (intro consuming_on_queue [OF ch]) (simp_all add: slots_ok_def q_ok_def)
  note loop = consume_loop_consuming [OF this i(2), of depth rounds now cb s]
  have last: "mq_inv (on_queue i (\<lambda>q. q\<lparr>messages := filter (\<lambda>x. x \<noteq> Null) (messages q)\<rparr>) ch')" if "consuming ?n i j ch'" for ch' j
  proof -
    have "slots_ok j (queues (broker ch') ! i)" using that i by (auto simp: consuming_def)
    then have "consuming ?n i 0 (on_queue i (\<lambda>q. q\<lparr>messages := filter (\<lambda>x. x \<noteq> Null) (messages q)\<rparr>) ch')"
      by (intro consuming_on_queue [OF that]) (auto simp: slots_ok_def q_ok_def intro: order.trans [OF length_filter_le])
    then show ?thesis by (rule consuming_inv)
  qed
  have "mq_basic_consume depth rounds now ch queue cb cb_ptr user_data s =
      and_then (consume_loop depth rounds now cb i 0 (?ch, s))
        (\<lambda>(ch', s'). Inr (on_queue i (\<lambda>q. q\<lparr>messages := filter (\<lambda>x. x \<noteq> Null) (messages q)\<rparr>) ch', s', 0))"
    using False i by (simp add: mq_basic_consume_def)
  then show ?thesis by (auto intro!: ends_and_then [OF loop] last)
qed

section \<open>Reachable states\<close>

text \<open>The data of a consumer are the messages it has seen, on which its answers may depend.\<close>

inductive mq_reach :: "mq_channel \<Rightarrow> bool" where
  start: "mq_broker_create True = Some b \<Longrightarrow> mq_broker_open_channel True b = Some ch \<Longrightarrow> mq_reach ch"
| run: "mq_reach ch \<Longrightarrow> mq_reach (on_broker (\<lambda>b. fst (mq_broker_start b)) ch)"
| halt: "mq_reach ch \<Longrightarrow> mq_reach (on_broker mq_broker_stop ch)"
| exchange_declare: "mq_reach ch \<Longrightarrow> mq_reach (fst (mq_exchange_declare ch ed))"
| exchange_delete: "mq_reach ch \<Longrightarrow> mq_reach (fst (mq_exchange_delete ch ex))"
| queue_declare: "mq_reach ch \<Longrightarrow> mq_reach (fst (mq_queue_declare ch qd))"
| bind: "mq_reach ch \<Longrightarrow> mq_queue_bind ch q ex rk = Inr (ch', r) \<Longrightarrow> mq_reach ch'"
| unbind: "mq_reach ch \<Longrightarrow> mq_reach (fst (mq_queue_unbind ch q ex rk))"
| purge: "mq_reach ch \<Longrightarrow> mq_queue_purge ch q = Inr (ch', r) \<Longrightarrow> mq_reach ch'"
| confirm_mode: "mq_reach ch \<Longrightarrow> mq_reach (fst (mq_set_confirm_mode ch mode))"
| confirm_callback: "mq_reach ch \<Longrightarrow> mq_reach (fst (mq_set_confirm_callback ch cbp data))"
| cancel: "mq_reach ch \<Longrightarrow> mq_reach (fst (mq_basic_cancel ch q))"
| publish: "mq_reach ch \<Longrightarrow> mq_basic_publish depth ch ex rk msg = Inr (ch', r) \<Longrightarrow> mq_reach ch'"
| publish_topic: "mq_reach ch \<Longrightarrow> mq_basic_publish_topic ch ex key msg = Inr (ch', r) \<Longrightarrow> mq_reach ch'"
| publish_dedup: "mq_reach ch \<Longrightarrow> mq_basic_publish_dedup depth time t ch ex rk msg = Inr (t', ch', r) \<Longrightarrow> mq_reach ch'"
| consume: "mq_reach ch \<Longrightarrow> mq_basic_consume depth rounds now ch q cb cbp data (s :: mq_message list) = Inr (ch', s', r) \<Longrightarrow> mq_reach ch'"
| consume_priority: "mq_reach ch \<Longrightarrow> mq_basic_consume_priority junk ch q prios m cb cbp (s :: mq_message list) = Inr (ch', s', r) \<Longrightarrow> mq_reach ch'"

lemma inv_same_queues:
  "mq_inv ch \<Longrightarrow> queues (broker ch') = queues (broker ch) \<Longrightarrow> spare (broker ch') = spare (broker ch) \<Longrightarrow>
   length (exchanges (broker ch')) \<le> MQ_MAX_QUEUES \<Longrightarrow> length (bindings (broker ch')) \<le> MQ_MAX_QUEUES * 4 \<Longrightarrow> mq_inv ch'"
  by (simp add: mq_inv_def mq_static_def)

lemma inv_on_queue:
  assumes "mq_inv ch" "q_name (f (queues (broker ch) ! k)) = q_name (queues (broker ch) ! k)"
    and "\<And>q. q \<in> set (queues (broker ch)) \<Longrightarrow> slots_ok 0 q \<Longrightarrow> slots_ok 0 (f q)"
  shows "mq_inv (on_queue k f ch)"
proof -
  have "consuming (length (queues (broker ch))) k 0 (on_queue k f ch)"
    using assms by (intro consuming_on_queue [of _ _ 0]) (auto simp: consuming_start [symmetric] mq_inv_def)
  then show ?thesis by (rule consuming_inv)
qed

lemma slots_ok_empty: "slots_ok 0 q \<Longrightarrow> slots_ok 0 (q\<lparr>messages := []\<rparr>)"
  by (simp add: slots_ok_def q_ok_def)

lemma declare_inv: "mq_inv ch \<Longrightarrow> mq_inv (fst (mq_queue_declare ch qd))"
  by (auto simp: mq_queue_declare_def Let_def mq_inv_def mq_static_def on_broker_def next_slot_def zero_queue_def slots_ok_def q_ok_def
        find_queue_def find_idx_None_iff in_set_conv_nth)

lemma publish_inv:
  "mq_inv ch \<Longrightarrow> ends (\<lambda>e. e = Too_deep) (\<lambda>(ch', r). mq_inv ch') (mq_basic_publish depth ch ex rk msg)"
proof -
  assume "mq_inv ch"
  then have "keeping (consuming (length (queues (broker ch))) 0 0) ch ch" using consuming_start by (simp add: keeping_def)
  from pub_safe.publish_at [OF this] show ?thesis
    by (rule ends_mono) (auto simp: keeping_def dest: consuming_inv)
qed

lemma confirm_inv: "mq_inv ch \<Longrightarrow> mq_inv (mq_confirm msg ch)"
  by (simp add: mq_inv_def)

lemma publish_topic_inv:
  assumes "mq_inv ch"
  shows "ends (\<lambda>_. False) (\<lambda>(ch', r). mq_inv ch') (mq_basic_publish_topic ch ex key msg)"
proof -
  have ok: "queues_ok ch" using assms by (simp add: mq_inv_def queues_ok_def slots_ok_def)
  have pow: "slots_ok 0 q \<Longrightarrow> slots_ok 0 ((stored msg ^^ k) q)" "q_name ((stored msg ^^ k) q) = q_name q" for k q
    by (induction k) (simp_all add: slots_ok_stored)
  have "mq_inv (deliver_all (stored msg) k ch)" for k
    using assms pow by (auto simp: mq_inv_def mq_static_def deliver_all_def comp_def)
  then show ?thesis
    using assms by (auto simp: mq_basic_publish_topic_def topic_binding_loop_exact [OF ok] publish_result_def confirm_inv split: option.split)
qed

lemma slots_msgs: "slots_ok 0 q \<Longrightarrow> \<exists>ms. messages q = map Msg ms"
  unfolding ex_map_conv slots_ok_def drop_0 by (metis mq_slot.exhaust)

lemma priority_inv:
  assumes "mq_inv ch"
  shows "ends (\<lambda>_. False) (\<lambda>(ch', s, r). mq_inv ch') (mq_basic_consume_priority junk ch q prios m cb cbp s)"
proof (cases "cbp = NULL \<or> find_queue (broker ch) q = None")
  case True
  then show ?thesis using assms by (auto simp: mq_basic_consume_priority_def)
next
  case False
  then obtain i where i: "find_queue (broker ch) q = Some i" "i < length (queues (broker ch))" by (auto simp: find_queue_def)
  let ?q = "queues (broker ch) ! i"
  have ok: "slots_ok 0 ?q" using assms i by (simp add: mq_inv_def)
  then obtain ms where "messages ?q = map Msg ms" using slots_msgs by blast
  then obtain order where "mq_basic_consume_priority junk ch q prios m cb cbp s =
      Inr (on_queue i (\<lambda>q. q\<lparr>messages := []\<rparr>) ch, call_all cb (map ((!) ms) order) s, 0)"
    using consume_priority_order [OF i(1), of ms cbp prios m junk cb s] False by auto
  moreover have "mq_inv (on_queue i (\<lambda>q. q\<lparr>messages := []\<rparr>) ch)" by (rule inv_on_queue [OF assms]) (simp_all add: slots_ok_empty)
  ultimately show ?thesis by simp
qed

lemma dedup_inv_kept:
  "mq_inv ch \<Longrightarrow> ends (\<lambda>e. e = Too_deep) (\<lambda>(t', ch', r). mq_inv ch') (mq_basic_publish_dedup depth time t ch ex rk msg)"
  by (auto simp: mq_basic_publish_dedup_def confirm_inv Let_def intro!: ends_and_then [OF publish_inv])

lemma free_ok: "mq_inv ch \<Longrightarrow> find_queue (broker ch) q = Some i \<Longrightarrow> free_messages (queues (broker ch) ! i) = Inr ()"
  by (auto simp: mq_inv_def free_messages_def slots_ok_def find_queue_def)

lemma length_remove_at_le: "length (remove_at i xs) \<le> length xs"
  by (simp add: remove_at_def)

lemma config_ops_inv:
  assumes "mq_inv ch"
  shows "mq_inv (fst (mq_exchange_declare ch ed))" "mq_inv (fst (mq_exchange_delete ch ex))"
    "mq_queue_bind ch q ex rk = Inr (ch', r) \<Longrightarrow> mq_inv ch'" "mq_inv (fst (mq_queue_unbind ch q ex rk))"
    "mq_inv (fst (mq_basic_cancel ch q))" "mq_queue_purge ch q = Inr (ch', r) \<Longrightarrow> mq_inv ch'"
proof -
  have lens: "length (exchanges (broker ch)) \<le> MQ_MAX_QUEUES" "length (bindings (broker ch)) \<le> MQ_MAX_QUEUES * 4"
    using assms by (simp_all add: mq_inv_def mq_static_def)
  show "mq_inv (fst (mq_exchange_declare ch ed))"
    using assms lens by (auto simp: mq_exchange_declare_def on_broker_def intro: inv_same_queues)
  show "mq_inv (fst (mq_exchange_delete ch ex))"
    using assms lens by (auto simp: mq_exchange_delete_def on_broker_def
      intro!: inv_same_queues [OF assms] order.trans [OF length_remove_at_le] split: option.split)
  show "mq_queue_bind ch q ex rk = Inr (ch', r) \<Longrightarrow> mq_inv ch'"
    using assms lens by (auto simp: mq_queue_bind_def on_broker_def Let_def intro: inv_same_queues split: if_splits)
  show "mq_inv (fst (mq_queue_unbind ch q ex rk))"
    using assms lens by (auto simp: mq_queue_unbind_def on_broker_def
      intro!: inv_same_queues [OF assms] order.trans [OF length_remove_at_le] split: option.split)
  show "mq_inv (fst (mq_basic_cancel ch q))"
    using assms by (auto simp: mq_basic_cancel_def slots_ok_def q_ok_def intro!: inv_on_queue split: option.split)
  show "mq_queue_purge ch q = Inr (ch', r) \<Longrightarrow> mq_inv ch'"
    using assms free_ok [OF assms, of q] by (auto simp: mq_queue_purge_def slots_ok_empty intro!: inv_on_queue split: option.splits)
qed

lemma flag_ops_inv:
  "mq_inv ch \<Longrightarrow> mq_inv (on_broker (\<lambda>b. fst (mq_broker_start b)) ch)" "mq_inv ch \<Longrightarrow> mq_inv (on_broker mq_broker_stop ch)"
  "mq_inv ch \<Longrightarrow> mq_inv (fst (mq_set_confirm_mode ch mode))" "mq_inv ch \<Longrightarrow> mq_inv (fst (mq_set_confirm_callback ch cbp data))"
  by (simp_all add: mq_inv_def mq_static_def on_broker_def mq_broker_start_def mq_broker_stop_def mq_set_confirm_mode_def
      mq_set_confirm_callback_def)

lemma reach_inv: "mq_reach ch \<Longrightarrow> mq_inv ch"
proof (induction rule: mq_reach.induct)
  case (start b ch)
  then show ?case by (auto simp: mq_broker_create_def mq_broker_open_channel_def mq_inv_def mq_static_def MQ_MAX_QUEUES_def)
next
  case (publish ch depth ex rk msg ch' r)
  then show ?case using publish_inv [of ch depth ex rk msg] by simp
next
  case (publish_topic ch ex key msg ch' r)
  then show ?case using publish_topic_inv [of ch ex key msg] by simp
next
  case (publish_dedup ch depth time t ex rk msg t' ch' r)
  then show ?case using dedup_inv_kept [of ch depth time t ex rk msg] by simp
next
  case (consume ch depth rounds now q cb cbp data s ch' s' r)
  then show ?case using consume_inv [of ch depth rounds now q cb cbp data s] by simp
next
  case (consume_priority ch junk q prios m cb cbp s ch' s' r)
  then show ?case using priority_inv [of ch junk q prios m cb cbp s] by simp
qed (auto simp: declare_inv flag_ops_inv intro: config_ops_inv)

text \<open>C12. In every state reached from a new broker without deleting a queue, the queues have distinct names and every slot
  below the count of a queue holds a message inside its array; so publishing, by topic or not, consuming, by priority or not, and
  freeing the messages of a queue never use a slot they may not use.\<close>

theorem mq_memory_safe:
  assumes "mq_reach ch"
  shows "distinct (map q_name (queues (broker ch))) \<and>
    (\<forall>q \<in> set (queues (broker ch)). length (messages q) \<le> q_cap q \<and> (\<forall>x \<in> set (messages q). \<exists>m. x = Msg m)) \<and>
    mq_basic_publish depth ch exchange rk msg \<noteq> Inl Bad_memory \<and> mq_basic_publish_topic ch exchange key msg \<noteq> Inl Bad_memory \<and>
    mq_basic_consume depth rounds now ch queue cb cb_ptr user_data s \<noteq> Inl Bad_memory \<and>
    mq_basic_consume_priority junk ch queue priorities msg_count cb cb_ptr s \<noteq> Inl Bad_memory \<and>
    mq_queue_purge ch queue \<noteq> Inl Bad_memory \<and> mq_queue_delete ch queue \<noteq> Inl Bad_memory"
proof -
  note inv = reach_inv [OF assms]
  have "\<forall>q \<in> set (queues (broker ch)). length (messages q) \<le> q_cap q \<and> (\<forall>x \<in> set (messages q). \<exists>m. x = Msg m)"
    using inv slots_msgs by (fastforce simp: mq_inv_def slots_ok_def q_ok_def)
  moreover have "mq_queue_purge ch queue \<noteq> Inl Bad_memory" "mq_queue_delete ch queue \<noteq> Inl Bad_memory"
    using free_ok [OF inv, of queue] by (auto simp: mq_queue_purge_def mq_queue_delete_def split: option.split)
  moreover have "mq_basic_publish depth ch exchange rk msg \<noteq> Inl Bad_memory" "mq_basic_publish_topic ch exchange key msg \<noteq> Inl Bad_memory"
    using publish_inv [OF inv, of depth exchange rk msg] publish_topic_inv [OF inv, of exchange key msg] by auto
  moreover have "mq_basic_consume depth rounds now ch queue cb cb_ptr user_data s \<noteq> Inl Bad_memory"
    "mq_basic_consume_priority junk ch queue priorities msg_count cb cb_ptr s \<noteq> Inl Bad_memory"
    using consume_inv [OF inv, of depth rounds now queue cb cb_ptr user_data s]
      priority_inv [OF inv, of junk queue priorities msg_count cb cb_ptr s] by auto
  ultimately show ?thesis using inv by (simp add: mq_inv_def mq_static_def)
qed

text \<open>A broker with one queue and one message.\<close>

definition one_queue :: mq_channel where
  "one_queue =
     fst (mq_queue_declare (the (mq_broker_open_channel True (the (mq_broker_create True))))
       \<lparr>qd_name = ''jobs'', qd_durable = False, qd_message_ttl = 0, qd_max_length = 0, qd_dlx = [], qd_dlx_rk = []\<rparr>)"

definition one_message :: mq_channel where
  "one_message =
     on_broker (\<lambda>b. b\<lparr>bindings := [\<lparr>b_exchange = ''amq.default'', b_queue = ''jobs'', b_routing_key = ''k''\<rparr>],
       queues := [(queues b ! 0)\<lparr>messages := [Msg (mq_message_init 0 ''a'')]\<rparr>]\<rparr>) one_queue"

lemmas one_message_simps = one_message_def one_queue_def mq_broker_create_def mq_broker_open_channel_def mq_queue_declare_def
  find_queue_def find_idx_def on_broker_def next_slot_def zero_queue_def MQ_MAX_QUEUES_def Let_def

lemma one_queue_reach: "mq_reach one_queue"
  unfolding one_queue_def
  by (intro queue_declare start [of "the (mq_broker_create True)"]) (simp_all add: mq_broker_create_def mq_broker_open_channel_def)

lemma one_message_reach: "mq_reach one_message"
proof -
  obtain ch r where b: "mq_queue_bind one_queue ''jobs'' ''amq.default'' (Some ''k'') = Inr (ch, r)"
      "ch = on_broker (\<lambda>b. b\<lparr>bindings := [\<lparr>b_exchange = ''amq.default'', b_queue = ''jobs'', b_routing_key = ''k''\<rparr>]\<rparr>) one_queue"
    by (simp add: mq_queue_bind_def one_message_simps MQ_MAX_KEY_LEN_def MQ_MAX_ROUTING_KEY_LEN_def)
  then have "mq_reach ch" using mq_reach.bind one_queue_reach by blast
  moreover have "mq_basic_publish (Suc 0) ch ''amq.default'' (Some ''k'') (mq_message_init 0 ''a'') = Inr (one_message, 0)"
    by (simp add: b(2) one_message_simps mq_routes_def store_in_def mq_store_def on_queue_def publish_result_def mq_confirm_def)
  ultimately show ?thesis using mq_reach.publish by blast
qed

theorem mq_memory_safe_witness:
  "mq_reach one_message \<and> mq_basic_consume 0 0 (\<lambda>_. 0) one_message ''jobs'' (\<lambda>m s. (0, m, s + 1)) 7 8 (0 :: nat) \<noteq> Inl Bad_memory"
  using mq_memory_safe [OF one_message_reach, where cb = "\<lambda>m s. (0, m, s + 1)" and s = "0 :: nat"] one_message_reach by blast

section \<open>Deletion\<close>

text \<open>C32. Deleting the last declared queue while it holds messages and declaring another queue gives the new queue their
  number and no message: it reports them, and consuming from it uses a null pointer.\<close>

theorem mq_redeclare_reuses_count:
  assumes "mq_reach ch" "find_queue (broker ch) old = Some i" "Suc i = length (queues (broker ch))" "messages (queues (broker ch) ! i) \<noteq> []"
    and "find_queue (broker ch) (qd_name decl) = None" "cb_ptr \<noteq> NULL"
  shows "\<exists>ch1 ch2. mq_queue_delete ch old = Inr (ch1, 0) \<and> mq_queue_declare ch1 decl = (ch2, 0) \<and>
    mq_queue_message_count (broker ch2) (qd_name decl) = int (length (messages (queues (broker ch) ! i))) \<and>
    mq_basic_consume depth (Suc rounds) now ch2 (qd_name decl) cb cb_ptr user_data s = Inl Bad_memory"
proof -
  let ?qs = "queues (broker ch)"
  define c where "c = length (messages (?qs ! i))"
  have inv: "mq_inv ch" by (rule reach_inv [OF assms(1)])
  have last: "last ?qs = ?qs ! i" using assms(3) last_conv_nth [of ?qs] by (cases "?qs = []") (simp_all flip: assms(3))
  have del: "remove_at i ?qs = take i ?qs" using assms(3) by (simp add: remove_at_def)
  define ch1 where "ch1 = on_broker (\<lambda>b. b\<lparr>queues := take i ?qs, spare := ?qs ! i # spare b\<rparr>) ch"
  have d: "mq_queue_delete ch old = Inr (ch1, 0)"
    using free_ok [OF inv assms(2)] by (simp add: mq_queue_delete_def assms(2) ch1_def on_broker_def del last)
  have free: "find_queue (broker ch1) (qd_name decl) = None" "length (queues (broker ch1)) = i" "i < MQ_MAX_QUEUES"
    "next_slot (broker ch1) = ?qs ! i"
    using assms(3,5) inv by (auto simp: ch1_def on_broker_def find_queue_def find_idx_None_iff mq_inv_def mq_static_def next_slot_def)
  obtain ch2 q where ch2: "mq_queue_declare ch1 decl = (ch2, 0)" "queues (broker ch2) = take i ?qs @ [q]" "q_name q = qd_name decl"
      "messages q = replicate (min c 64) Null @ replicate (c - 64) Wild"
    using free by (simp add: mq_queue_declare_def Let_def on_broker_def ch1_def c_def)
  have "find_queue (broker ch2) (qd_name decl) = Some i"
    using free(1,2) assms(3) by (auto simp: ch1_def on_broker_def find_queue_def find_idx_None_iff find_idx_Some_iff ch2(2,3) nth_append)
  moreover have q: "queues (broker ch2) ! i = q" "i < length (queues (broker ch2))" using ch2(2) assms(3) by (simp_all add: nth_append)
  moreover have c: "length (messages q) = c" "0 < c" "messages q ! 0 = Null"
    using assms(4) by (simp_all add: ch2(4) c_def nth_append)
  moreover have "consume_loop depth (Suc rounds) now cb i 0 (on_queue i (\<lambda>q. q\<lparr>consumer_cb := cb_ptr, consumer_data := user_data\<rparr>) ch2, s)
      = Inl Bad_memory"
    using q c by (subst consume_loop.simps) (simp add: on_queue_def on_broker_def)
  ultimately have "mq_queue_message_count (broker ch2) (qd_name decl) = int c"
      "mq_basic_consume depth (Suc rounds) now ch2 (qd_name decl) cb cb_ptr user_data s = Inl Bad_memory"
    using assms(6) by (simp_all add: mq_queue_message_count_def mq_basic_consume_def)
  then show ?thesis using d ch2(1) by (auto simp: c_def)
qed

theorem mq_redeclare_reuses_count_witness:
  "\<exists>ch1 ch2. mq_queue_delete one_message ''jobs'' = Inr (ch1, 0) \<and>
     mq_queue_declare ch1 \<lparr>qd_name = ''new'', qd_durable = False, qd_message_ttl = 0, qd_max_length = 0, qd_dlx = [], qd_dlx_rk = []\<rparr> = (ch2, 0) \<and>
     mq_queue_message_count (broker ch2) ''new'' = 1 \<and>
     mq_basic_consume 1 (Suc 0) (\<lambda>_. 0) ch2 ''new'' (\<lambda>m s. (0, m, s + 1)) 7 8 (0 :: nat) = Inl Bad_memory"
proof -
  have "find_queue (broker one_message) ''jobs'' = Some 0" "find_queue (broker one_message) ''new'' = None"
    "length (queues (broker one_message)) = 1" "messages (queues (broker one_message) ! 0) = [Msg (mq_message_init 0 ''a'')]"
    by (simp_all add: one_message_simps)
  then show ?thesis
    using mq_redeclare_reuses_count [OF one_message_reach, of "''jobs''" 0
      "\<lparr>qd_name = ''new'', qd_durable = False, qd_message_ttl = 0, qd_max_length = 0, qd_dlx = [], qd_dlx_rk = []\<rparr>" 7
      1 0 "\<lambda>_. 0" "\<lambda>m s. (0, m, s + 1)" 8 "0 :: nat"]
    by simp
qed

end
