(* ===== verification/Rbac.thy ===== *)
theory Rbac
  imports Prelude
begin

unbundle bit_operations_syntax

text \<open>
  The role-based access control of \<open>src/mini-auth-security/src/rbac_engine.c\<close>: roles with parents and permission masks, users with
  assigned roles, and checks against a cached mask.  The counted arrays are lists.  The structures start zeroed, so every
  copied string is terminated.  Each reading of the clock is an argument.

  A role grants the bits of all roles it reaches in at most ten steps to its parents; a check against a valid cache answers by the
  cache, which is exact as long as the roles do not change after the first check.
\<close>

section \<open>Data\<close>

definition RBAC_MAX_USERS :: nat where "RBAC_MAX_USERS = 512"
definition RBAC_MAX_ROLES :: nat where "RBAC_MAX_ROLES = 64"
definition RBAC_MAX_PERMISSIONS :: nat where "RBAC_MAX_PERMISSIONS = 256"
definition RBAC_MAX_USERNAME_LEN :: nat where "RBAC_MAX_USERNAME_LEN = 128"
definition RBAC_MAX_ROLENAME_LEN :: nat where "RBAC_MAX_ROLENAME_LEN = 64"
definition RBAC_MAX_PERMNAME_LEN :: nat where "RBAC_MAX_PERMNAME_LEN = 128"
definition RBAC_MAX_PARENT_ROLES :: nat where "RBAC_MAX_PARENT_ROLES = 16"

definition PERM_READ_USERS :: u64 where "PERM_READ_USERS = push_bit 0 1"
definition PERM_WRITE_USERS :: u64 where "PERM_WRITE_USERS = push_bit 1 1"
definition PERM_DELETE_USERS :: u64 where "PERM_DELETE_USERS = push_bit 2 1"
definition PERM_READ_POSTS :: u64 where "PERM_READ_POSTS = push_bit 3 1"
definition PERM_WRITE_POSTS :: u64 where "PERM_WRITE_POSTS = push_bit 4 1"
definition PERM_DELETE_POSTS :: u64 where "PERM_DELETE_POSTS = push_bit 5 1"
definition PERM_READ_COMMENTS :: u64 where "PERM_READ_COMMENTS = push_bit 6 1"
definition PERM_WRITE_COMMENTS :: u64 where "PERM_WRITE_COMMENTS = push_bit 7 1"
definition PERM_DELETE_COMMENTS :: u64 where "PERM_DELETE_COMMENTS = push_bit 8 1"
definition PERM_MANAGE_ROLES :: u64 where "PERM_MANAGE_ROLES = push_bit 9 1"
definition PERM_MANAGE_SYSTEM :: u64 where "PERM_MANAGE_SYSTEM = push_bit 10 1"
definition PERM_READ_METRICS :: u64 where "PERM_READ_METRICS = push_bit 11 1"
definition PERM_MANAGE_USERS :: u64 where "PERM_MANAGE_USERS = push_bit 12 1"

datatype RbacRoleId = ROLE_NONE | ROLE_ADMIN | ROLE_MODERATOR | ROLE_EDITOR | ROLE_VIEWER | ROLE_CUSTOM | ROLE_COUNT

record RbacPermission =
  perm_name :: string
  resource :: string
  action :: string
  mask :: "32 word"

record RbacRole =
  role_name :: string
  role_id :: RbacRoleId
  permission_mask :: u64
  parent_roles :: "string list"
  priority :: int

record RbacUser =
  username :: string
  role_names :: "string list"
  cached_permission_mask :: u64
  cache_valid :: bool
  created_at :: time_t
  updated_at :: time_t

record RbacEngine =
  roles :: "RbacRole list"
  permissions :: "RbacPermission list"
  users :: "RbacUser list"

section \<open>Operations\<close>

definition rbac_engine_init :: RbacEngine where
  "rbac_engine_init = \<lparr>roles = [], permissions = [], users = []\<rparr>"

definition rbac_role_id_name :: "RbacRoleId \<Rightarrow> string" where
  "rbac_role_id_name i =
     (case i of ROLE_NONE \<Rightarrow> ''NONE'' | ROLE_ADMIN \<Rightarrow> ''ADMIN'' | ROLE_MODERATOR \<Rightarrow> ''MODERATOR'' | ROLE_EDITOR \<Rightarrow> ''EDITOR''
      | ROLE_VIEWER \<Rightarrow> ''VIEWER'' | ROLE_CUSTOM \<Rightarrow> ''CUSTOM'' | ROLE_COUNT \<Rightarrow> ''UNKNOWN'')"

definition rbac_role_name_to_id :: "string option \<Rightarrow> RbacRoleId" where
  "rbac_role_name_to_id name =
     (if name = Some ''ADMIN'' then ROLE_ADMIN else if name = Some ''MODERATOR'' then ROLE_MODERATOR
      else if name = Some ''EDITOR'' then ROLE_EDITOR else if name = Some ''VIEWER'' then ROLE_VIEWER
      else if name = Some ''CUSTOM'' then ROLE_CUSTOM else ROLE_NONE)"

definition rbac_register_permission :: "RbacEngine \<Rightarrow> string \<Rightarrow> string \<Rightarrow> string \<Rightarrow> u64 \<Rightarrow> RbacEngine \<times> int" where
  "rbac_register_permission eng name res act m =
     (if length (permissions eng) \<ge> RBAC_MAX_PERMISSIONS then (eng, -1)
      else if \<exists>p \<in> set (permissions eng). perm_name p = name then (eng, -2)
      else (eng\<lparr>permissions := permissions eng @
              [\<lparr>perm_name = strncpy_buf RBAC_MAX_PERMNAME_LEN name, resource = strncpy_buf RBAC_MAX_ROLENAME_LEN res,
                action = strncpy_buf RBAC_MAX_ROLENAME_LEN act, mask = ucast m\<rparr>]\<rparr>, 0))"

definition rbac_register_role :: "RbacEngine \<Rightarrow> string \<Rightarrow> RbacRoleId \<Rightarrow> int \<Rightarrow> RbacEngine \<times> int" where
  "rbac_register_role eng name i prio =
     (if length (roles eng) \<ge> RBAC_MAX_ROLES then (eng, -1)
      else if \<exists>r \<in> set (roles eng). role_name r = name then (eng, -2)
      else (eng\<lparr>roles := roles eng @
              [\<lparr>role_name = strncpy_buf RBAC_MAX_ROLENAME_LEN name, role_id = i, permission_mask = 0, parent_roles = [], priority = prio\<rparr>]\<rparr>, 0))"

text \<open>The scan for both roles runs to the end and keeps the last matches.\<close>

definition last_idx :: "('a \<Rightarrow> bool) \<Rightarrow> 'a list \<Rightarrow> nat option" where
  "last_idx P xs = find (\<lambda>i. P (xs ! i)) (rev [0..<length xs])"

definition rbac_role_add_parent :: "RbacEngine \<Rightarrow> string \<Rightarrow> string \<Rightarrow> RbacEngine \<times> int" where
  "rbac_role_add_parent eng name parent =
     (case (last_idx (\<lambda>r. role_name r = name) (roles eng), last_idx (\<lambda>r. role_name r = parent) (roles eng)) of
        (Some i, Some _) \<Rightarrow>
          if length (parent_roles (roles eng ! i)) \<ge> RBAC_MAX_PARENT_ROLES then (eng, -2)
          else (eng\<lparr>roles := (roles eng)[i := (roles eng ! i)\<lparr>parent_roles :=
                  parent_roles (roles eng ! i) @ [strncpy_buf RBAC_MAX_ROLENAME_LEN parent]\<rparr>]\<rparr>, 0)
      | _ \<Rightarrow> (eng, -1))"

definition rbac_role_grant_permission :: "RbacEngine \<Rightarrow> string \<Rightarrow> u64 \<Rightarrow> RbacEngine \<times> int" where
  "rbac_role_grant_permission eng name m =
     (case find_idx (\<lambda>r. role_name r = name) (roles eng) (length (roles eng)) of
        Some i \<Rightarrow> (eng\<lparr>roles := (roles eng)[i := (roles eng ! i)\<lparr>permission_mask := permission_mask (roles eng ! i) OR m\<rparr>]\<rparr>, 0)
      | None \<Rightarrow> (eng, -1))"

definition rbac_create_user :: "time_t \<Rightarrow> time_t \<Rightarrow> RbacEngine \<Rightarrow> string \<Rightarrow> RbacEngine \<times> int" where
  "rbac_create_user now1 now2 eng name =
     (if length (users eng) \<ge> RBAC_MAX_USERS then (eng, -1)
      else if \<exists>u \<in> set (users eng). username u = name then (eng, -2)
      else (eng\<lparr>users := users eng @
              [\<lparr>username = strncpy_buf RBAC_MAX_USERNAME_LEN name, role_names = [], cached_permission_mask = 0, cache_valid = False,
                created_at = now1, updated_at = now2\<rparr>]\<rparr>, 0))"

definition rbac_find_user :: "RbacEngine \<Rightarrow> string \<Rightarrow> nat option" where
  "rbac_find_user eng name = find_idx (\<lambda>u. username u = name) (users eng) (length (users eng))"

definition rbac_find_role :: "RbacEngine \<Rightarrow> string \<Rightarrow> RbacRole option" where
  "rbac_find_role eng name = find (\<lambda>r. role_name r = name) (roles eng)"

definition on_user :: "nat \<Rightarrow> (RbacUser \<Rightarrow> RbacUser) \<Rightarrow> RbacEngine \<Rightarrow> RbacEngine" where
  "on_user i f eng = eng\<lparr>users := (users eng)[i := f (users eng ! i)]\<rparr>"

definition rbac_assign_role :: "time_t \<Rightarrow> RbacEngine \<Rightarrow> string \<Rightarrow> string \<Rightarrow> RbacEngine \<times> int" where
  "rbac_assign_role now eng name role =
     (case rbac_find_user eng name of
        None \<Rightarrow> (eng, -1)
      | Some i \<Rightarrow>
          if rbac_find_role eng role = None then (eng, -2)
          else if length (role_names (users eng ! i)) \<ge> RBAC_MAX_ROLES then (eng, -3)
          else (on_user i (\<lambda>u. u\<lparr>role_names := role_names u @ [strncpy_buf RBAC_MAX_ROLENAME_LEN role], cache_valid := False, updated_at := now\<rparr>) eng, 0))"

definition rbac_remove_role :: "time_t \<Rightarrow> RbacEngine \<Rightarrow> string \<Rightarrow> string \<Rightarrow> RbacEngine \<times> int" where
  "rbac_remove_role now eng name role =
     (case rbac_find_user eng name of
        None \<Rightarrow> (eng, -1)
      | Some i \<Rightarrow>
          (case find_idx (\<lambda>r. r = role) (role_names (users eng ! i)) (length (role_names (users eng ! i))) of
             None \<Rightarrow> (eng, -2)
           | Some j \<Rightarrow>
               (on_user i (\<lambda>u. u\<lparr>role_names := take j (role_names u) @ drop (j + 1) (role_names u), cache_valid := False, updated_at := now\<rparr>) eng, 0)))"

function rbac_resolve_perm_mask :: "RbacEngine \<Rightarrow> string \<Rightarrow> nat \<Rightarrow> u64" where
  "rbac_resolve_perm_mask eng name depth =
     (case rbac_find_role eng name of
        None \<Rightarrow> 0
      | Some role \<Rightarrow>
          if depth > 10 then 0
          else foldl (\<lambda>m p. m OR rbac_resolve_perm_mask eng p (depth + 1)) (permission_mask role) (parent_roles role))"
  by pat_completeness auto
termination by (relation "measure (\<lambda>(_, _, depth). 11 - depth)") auto

declare rbac_resolve_perm_mask.simps [simp del]

text \<open>The loop over the roles of a user.\<close>

definition fresh_mask :: "RbacEngine \<Rightarrow> RbacUser \<Rightarrow> u64" where
  "fresh_mask eng u = foldl (\<lambda>m r. m OR rbac_resolve_perm_mask eng r 0) 0 (role_names u)"

definition rbac_get_effective_permissions :: "RbacEngine \<Rightarrow> string \<Rightarrow> RbacEngine \<times> u64" where
  "rbac_get_effective_permissions eng name =
     (case rbac_find_user eng name of
        None \<Rightarrow> (eng, 0)
      | Some i \<Rightarrow>
          let u = users eng ! i
          in if cache_valid u then (eng, cached_permission_mask u)
             else (on_user i (\<lambda>u. u\<lparr>cached_permission_mask := fresh_mask eng u, cache_valid := True\<rparr>) eng, fresh_mask eng u))"

definition rbac_check_permission :: "RbacEngine \<Rightarrow> string \<Rightarrow> u64 \<Rightarrow> RbacEngine \<times> bool" where
  "rbac_check_permission eng name required =
     (case rbac_get_effective_permissions eng name of
        (eng', effective) \<Rightarrow> (eng', if required = 0 then True else effective AND required = required))"

definition rbac_check_permission_multi :: "RbacEngine \<Rightarrow> string \<Rightarrow> u64 list \<Rightarrow> bool \<Rightarrow> RbacEngine \<times> bool" where
  "rbac_check_permission_multi eng name required require_all =
     (case rbac_get_effective_permissions eng name of
        (eng', effective) \<Rightarrow>
          (eng', if required = [] then True
                 else if require_all then list_all (\<lambda>r. effective AND r = r) required
                 else list_ex (\<lambda>r. effective AND r = r) required))"

definition rbac_get_user_roles :: "RbacEngine \<Rightarrow> string \<Rightarrow> string list option" where
  "rbac_get_user_roles eng name =
     (case rbac_find_user eng name of None \<Rightarrow> None | Some i \<Rightarrow> Some (role_names (users eng ! i)))"

definition rbac_setup_default_roles :: "RbacEngine \<Rightarrow> RbacEngine" where
  "rbac_setup_default_roles eng =
     (let perm = \<lambda>name res act m e. fst (rbac_register_permission e name res act m);
          role = \<lambda>name i prio e. fst (rbac_register_role e name i prio);
          grant = \<lambda>name m e. fst (rbac_role_grant_permission e name m);
          parent = \<lambda>name p e. fst (rbac_role_add_parent e name p)
      in fold (\<lambda>f. f)
         [perm ''READ:users'' ''users'' ''READ'' PERM_READ_USERS, perm ''WRITE:users'' ''users'' ''WRITE'' PERM_WRITE_USERS,
          perm ''DELETE:users'' ''users'' ''DELETE'' PERM_DELETE_USERS, perm ''READ:posts'' ''posts'' ''READ'' PERM_READ_POSTS,
          perm ''WRITE:posts'' ''posts'' ''WRITE'' PERM_WRITE_POSTS, perm ''DELETE:posts'' ''posts'' ''DELETE'' PERM_DELETE_POSTS,
          perm ''READ:comments'' ''comments'' ''READ'' PERM_READ_COMMENTS, perm ''WRITE:comments'' ''comments'' ''WRITE'' PERM_WRITE_COMMENTS,
          perm ''DELETE:comments'' ''comments'' ''DELETE'' PERM_DELETE_COMMENTS, perm ''MANAGE:roles'' ''roles'' ''MANAGE'' PERM_MANAGE_ROLES,
          perm ''MANAGE:system'' ''system'' ''MANAGE'' PERM_MANAGE_SYSTEM, perm ''READ:metrics'' ''metrics'' ''READ'' PERM_READ_METRICS,
          perm ''MANAGE:users'' ''users'' ''MANAGE'' PERM_MANAGE_USERS,
          role ''VIEWER'' ROLE_VIEWER 1, role ''EDITOR'' ROLE_EDITOR 2, role ''MODERATOR'' ROLE_MODERATOR 3, role ''ADMIN'' ROLE_ADMIN 10,
          grant ''VIEWER'' (PERM_READ_USERS OR PERM_READ_POSTS OR PERM_READ_COMMENTS OR PERM_READ_METRICS),
          grant ''EDITOR'' (PERM_READ_USERS OR PERM_READ_POSTS OR PERM_WRITE_POSTS OR PERM_READ_COMMENTS OR PERM_WRITE_COMMENTS OR PERM_READ_METRICS),
          grant ''MODERATOR'' (PERM_READ_USERS OR PERM_READ_POSTS OR PERM_WRITE_POSTS OR PERM_DELETE_POSTS OR PERM_READ_COMMENTS
            OR PERM_WRITE_COMMENTS OR PERM_DELETE_COMMENTS OR PERM_READ_METRICS),
          grant ''ADMIN'' (PERM_READ_USERS OR PERM_WRITE_USERS OR PERM_DELETE_USERS OR PERM_READ_POSTS OR PERM_WRITE_POSTS OR PERM_DELETE_POSTS
            OR PERM_READ_COMMENTS OR PERM_WRITE_COMMENTS OR PERM_DELETE_COMMENTS OR PERM_MANAGE_ROLES OR PERM_MANAGE_SYSTEM
            OR PERM_READ_METRICS OR PERM_MANAGE_USERS),
          parent ''EDITOR'' ''VIEWER'', parent ''MODERATOR'' ''EDITOR'', parent ''ADMIN'' ''MODERATOR''] eng)"

section \<open>Inheritance\<close>

definition parent_of :: "RbacEngine \<Rightarrow> string \<Rightarrow> string \<Rightarrow> bool" where
  "parent_of eng r p \<longleftrightarrow> (\<exists>role. rbac_find_role eng r = Some role \<and> p \<in> set (parent_roles role))"

text \<open>A role grants a bit within \<open>n\<close> steps.\<close>

definition grants :: "RbacEngine \<Rightarrow> nat \<Rightarrow> string \<Rightarrow> nat \<Rightarrow> bool" where
  "grants eng n r b \<longleftrightarrow> (\<exists>k \<le> n. \<exists>r' role. (parent_of eng ^^ k) r r' \<and> rbac_find_role eng r' = Some role \<and> bit (permission_mask role) b)"

lemma bit_foldl_or: "bit (foldl (\<lambda>m x. m OR f x) (m :: u64) xs) b \<longleftrightarrow> bit m b \<or> (\<exists>x \<in> set xs. bit (f x) b)"
  by (induction xs arbitrary: m) (auto simp: bit_or_iff)

lemma grants_0: "grants eng 0 r b \<longleftrightarrow> (\<exists>role. rbac_find_role eng r = Some role \<and> bit (permission_mask role) b)"
  by (auto simp: grants_def)

lemma grants_Suc:
  "grants eng (Suc n) r b \<longleftrightarrow>
     (\<exists>role. rbac_find_role eng r = Some role \<and> (bit (permission_mask role) b \<or> (\<exists>p \<in> set (parent_roles role). grants eng n p b)))"
  (is "?L \<longleftrightarrow> ?R")
proof
  assume ?L
  then obtain k r' role where k: "k \<le> Suc n" "(parent_of eng ^^ k) r r'" "rbac_find_role eng r' = Some role" "bit (permission_mask role) b"
    by (auto simp: grants_def)
  show ?R
  proof (cases k)
    case (Suc j)
    then obtain p where "parent_of eng r p" "(parent_of eng ^^ j) p r'" using relpowp_Suc_D2 [of j] k(2) by metis
    then show ?thesis using k Suc by (auto simp: parent_of_def grants_def)
  qed (use k in auto)
next
  assume ?R
  then obtain role where role: "rbac_find_role eng r = Some role" "bit (permission_mask role) b \<or> (\<exists>p \<in> set (parent_roles role). grants eng n p b)"
    by blast
  show ?L
  proof (cases "bit (permission_mask role) b")
    case True
    then show ?thesis using role(1) by (auto simp: grants_def intro!: exI [of _ 0])
  next
    case False
    then obtain p k r' role' where p: "p \<in> set (parent_roles role)" "k \<le> n" "(parent_of eng ^^ k) p r'" "rbac_find_role eng r' = Some role'"
        "bit (permission_mask role') b" using role(2) by (auto simp: grants_def)
    then have "(parent_of eng ^^ Suc k) r r'" using role(1) by (intro relpowp_Suc_I2 [of _ r p]) (auto simp: parent_of_def)
    then show ?thesis using p(2,4,5) unfolding grants_def by (meson Suc_le_mono)
  qed
qed

lemma resolve_bits: "bit (rbac_resolve_perm_mask eng r (10 - n)) b \<longleftrightarrow> grants eng n r b" if "n \<le> 10"
  using that
proof (induction n arbitrary: r)
  case 0
  have zero: "rbac_resolve_perm_mask eng p 11 = 0" for p by (subst rbac_resolve_perm_mask.simps) (simp split: option.split)
  have "foldl (\<lambda>m p. m OR rbac_resolve_perm_mask eng p 11) m ps = m" for m ps by (induction ps arbitrary: m) (simp_all add: zero)
  then show ?case by (subst rbac_resolve_perm_mask.simps) (auto simp: grants_0 split: option.split)
next
  case (Suc n)
  then have "Suc (10 - Suc n) = 10 - n" by simp
  then show ?case using Suc
    by (subst rbac_resolve_perm_mask.simps) (auto simp: grants_Suc bit_foldl_or split: option.split)
qed

lemma fresh_mask_bits: "bit (fresh_mask eng u) b \<longleftrightarrow> (\<exists>r \<in> set (role_names u). grants eng 10 r b)"
  using resolve_bits [of 10 eng _ b] by (simp add: fresh_mask_def bit_foldl_or)

section \<open>The cache\<close>

definition coherent :: "RbacEngine \<Rightarrow> bool" where
  "coherent eng \<longleftrightarrow> (\<forall>u \<in> set (users eng). cache_valid u \<longrightarrow> cached_permission_mask u = fresh_mask eng u)"

lemma grants_roles: "roles eng = roles eng' \<Longrightarrow> grants eng = grants eng'"
proof -
  assume "roles eng = roles eng'"
  then have "rbac_find_role eng = rbac_find_role eng'" by (intro ext) (simp add: rbac_find_role_def)
  then have "parent_of eng = parent_of eng'" "rbac_find_role eng = rbac_find_role eng'" by (auto simp: parent_of_def fun_eq_iff)
  then show ?thesis by (intro ext) (simp add: grants_def)
qed

lemma fresh_mask_roles: "roles eng = roles eng' \<Longrightarrow> fresh_mask eng u = fresh_mask eng' u"
  by (rule bit_eqI) (simp add: fresh_mask_bits grants_roles [of eng eng'])

lemma coherent_on_user:
  assumes "coherent eng" "\<And>u. cache_valid (f u) \<Longrightarrow> cached_permission_mask (f u) = fresh_mask eng (f u)"
  shows "coherent (on_user i f eng)"
proof -
  have "u = f (users eng ! i) \<or> u \<in> set (users eng)" if "u \<in> set (users (on_user i f eng))" for u
    using that set_update_subset_insert [of "users eng" i "f (users eng ! i)"] by (auto simp: on_user_def)
  moreover have "fresh_mask (on_user i f eng) u = fresh_mask eng u" for u by (rule fresh_mask_roles) (simp add: on_user_def)
  ultimately show ?thesis using assms unfolding coherent_def by metis
qed

lemma effective_roles: "roles (fst (rbac_get_effective_permissions eng name)) = roles eng"
  by (simp add: rbac_get_effective_permissions_def on_user_def Let_def split: option.split)

lemma effective_coherent: "coherent eng \<Longrightarrow> coherent (fst (rbac_get_effective_permissions eng name))"
proof -
  assume c: "coherent eng"
  have "coherent (on_user i (\<lambda>u. u\<lparr>cached_permission_mask := fresh_mask eng u, cache_valid := True\<rparr>) eng)" for i
    by (rule coherent_on_user [OF c]) (simp add: fresh_mask_def)
  then show ?thesis using c by (auto simp: rbac_get_effective_permissions_def Let_def split: option.split)
qed

text \<open>The operations that leave the roles alone.\<close>

datatype rbac_op = Register_permission string string string u64 | Create_user time_t time_t string | Assign_role time_t string string
  | Remove_role time_t string string | Check_permission string u64 | Check_permission_multi string "u64 list" bool

fun rbac_exec :: "rbac_op \<Rightarrow> RbacEngine \<Rightarrow> RbacEngine" where
  "rbac_exec (Register_permission name res act m) eng = fst (rbac_register_permission eng name res act m)"
| "rbac_exec (Create_user now1 now2 name) eng = fst (rbac_create_user now1 now2 eng name)"
| "rbac_exec (Assign_role now name role) eng = fst (rbac_assign_role now eng name role)"
| "rbac_exec (Remove_role now name role) eng = fst (rbac_remove_role now eng name role)"
| "rbac_exec (Check_permission name p) eng = fst (rbac_check_permission eng name p)"
| "rbac_exec (Check_permission_multi name ps al) eng = fst (rbac_check_permission_multi eng name ps al)"

definition rbac_run :: "rbac_op list \<Rightarrow> RbacEngine \<Rightarrow> RbacEngine" where
  "rbac_run ops eng = foldl (\<lambda>e op. rbac_exec op e) eng ops"

lemma coherent_same: "coherent eng \<Longrightarrow> roles eng' = roles eng \<Longrightarrow> (\<forall>u \<in> set (users eng'). u \<in> set (users eng) \<or> \<not> cache_valid u) \<Longrightarrow> coherent eng'"
  using fresh_mask_roles [of eng' eng] by (auto simp: coherent_def)

lemma exec_keeps: "coherent eng \<Longrightarrow> coherent (rbac_exec op eng) \<and> roles (rbac_exec op eng) = roles eng"
proof (cases op)
  case (Check_permission name p)
  then show "coherent eng \<Longrightarrow> ?thesis" using effective_coherent [of eng name] effective_roles [of eng name]
    by (simp add: rbac_check_permission_def case_prod_unfold)
next
  case (Check_permission_multi name ps al)
  then show "coherent eng \<Longrightarrow> ?thesis" using effective_coherent [of eng name] effective_roles [of eng name]
    by (simp add: rbac_check_permission_multi_def case_prod_unfold)
next
  case (Assign_role now name role)
  then show "coherent eng \<Longrightarrow> ?thesis"
    by (auto simp: rbac_assign_role_def intro!: coherent_on_user split: option.split) (simp_all add: on_user_def)
next
  case (Remove_role now name role)
  then show "coherent eng \<Longrightarrow> ?thesis"
    by (auto simp: rbac_remove_role_def intro!: coherent_on_user split: option.split) (simp_all add: on_user_def)
qed (auto simp: rbac_register_permission_def rbac_create_user_def intro: coherent_same)

lemma run_keeps: "coherent eng \<Longrightarrow> coherent (rbac_run ops eng) \<and> roles (rbac_run ops eng) = roles eng"
  by (induction ops arbitrary: eng) (use exec_keeps in \<open>auto simp: rbac_run_def\<close>)

lemma and_eq_iff: "(e :: u64) AND r = r \<longleftrightarrow> (\<forall>b. bit r b \<longrightarrow> bit e b)"
proof
  assume "e AND r = r"
  then show "\<forall>b. bit r b \<longrightarrow> bit e b" using bit_and_iff [of e r] by metis
next
  assume "\<forall>b. bit r b \<longrightarrow> bit e b"
  then show "e AND r = r" by (intro bit_eqI) (auto simp: bit_and_iff)
qed

lemma check_coherent:
  assumes "coherent eng"
  shows "snd (rbac_check_permission eng name required) \<longleftrightarrow>
    (\<forall>b. bit required b \<longrightarrow> (\<exists>i. rbac_find_user eng name = Some i \<and> (\<exists>r \<in> set (role_names (users eng ! i)). grants eng 10 r b)))"
proof (cases "rbac_find_user eng name")
  case None
  have "required = 0 \<longleftrightarrow> (\<forall>b. \<not> bit required b)" by (metis bit_0_eq bot_apply bot_bool_def bit_eqI)
  then show ?thesis using None by (simp add: rbac_check_permission_def rbac_get_effective_permissions_def)
next
  case (Some i)
  then have "users eng ! i \<in> set (users eng)" by (auto simp: rbac_find_user_def)
  then have "snd (rbac_get_effective_permissions eng name) = fresh_mask eng (users eng ! i)"
    using assms Some by (auto simp: rbac_get_effective_permissions_def coherent_def Let_def)
  then show ?thesis using Some
    by (auto simp: rbac_check_permission_def and_eq_iff fresh_mask_bits split: prod.split)
qed

text \<open>C17. Once the roles are set up, through every sequence of user operations and checks a permission check succeeds exactly if the
  user exists and every required bit is granted by one of the roles the user has at that moment, directly or through at most ten
  steps of inheritance; so a cached mask never gives more or less than the roles do.\<close>

theorem rbac_check_exact:
  assumes "coherent eng"
  shows "snd (rbac_check_permission (rbac_run ops eng) name required) \<longleftrightarrow>
    (\<forall>b. bit required b \<longrightarrow> (\<exists>i. rbac_find_user (rbac_run ops eng) name = Some i \<and>
       (\<exists>r \<in> set (role_names (users (rbac_run ops eng) ! i)). grants eng 10 r b)))"
  using check_coherent [of "rbac_run ops eng" name required] run_keeps [OF assms, of ops] grants_roles [of "rbac_run ops eng" eng] by simp

theorem rbac_check_exact_witness:
  "coherent (rbac_setup_default_roles rbac_engine_init) \<and>
   (\<exists>i. rbac_find_user (rbac_run [Create_user 0 0 ''alice'', Assign_role 0 ''alice'' ''EDITOR''] (rbac_setup_default_roles rbac_engine_init)) ''alice'' = Some i \<and>
      (\<exists>r \<in> set (role_names (users (rbac_run [Create_user 0 0 ''alice'', Assign_role 0 ''alice'' ''EDITOR''] (rbac_setup_default_roles rbac_engine_init)) ! i)).
         grants (rbac_setup_default_roles rbac_engine_init) 10 r 4))"
proof -
  let ?eng = "rbac_setup_default_roles rbac_engine_init" and ?ops = "[Create_user 0 0 ''alice'', Assign_role 0 ''alice'' ''EDITOR'']"
  have "users ?eng = []" by code_simp
  then have c: "coherent ?eng" by (simp add: coherent_def)
  moreover have "snd (rbac_check_permission (rbac_run ?ops ?eng) ''alice'' PERM_WRITE_POSTS)" by code_simp
  moreover have "bit PERM_WRITE_POSTS 4" by (simp add: PERM_WRITE_POSTS_def bit_push_bit_iff)
  ultimately show ?thesis using rbac_check_exact [OF c, of ?ops "''alice''" PERM_WRITE_POSTS] by blast
qed

text \<open>A permission granted to a role after a user with that role was checked has no effect on the user: the next check still
  fails, although the role grants every required bit.\<close>

theorem rbac_grant_not_seen:
  assumes "rbac_find_user eng name = Some i" "role \<in> set (role_names (users eng ! i))" "rbac_find_role eng role \<noteq> None"
    and "\<not> snd (rbac_check_permission eng name required)"
  shows "let eng1 = fst (rbac_check_permission eng name required); eng2 = fst (rbac_role_grant_permission eng1 role required)
    in (\<forall>b. bit required b \<longrightarrow> grants eng2 10 role b) \<and> \<not> snd (rbac_check_permission eng2 name required)"
proof -
  define eng1 where "eng1 = fst (rbac_check_permission eng name required)"
  define eng2 where "eng2 = fst (rbac_role_grant_permission eng1 role required)"
  have i: "i < length (users eng)" "username (users eng ! i) = name" using assms(1) by (auto simp: rbac_find_user_def)
  have rq: "required \<noteq> 0" and no: "snd (rbac_get_effective_permissions eng name) AND required \<noteq> required"
    using assms(4) by (auto simp: rbac_check_permission_def split: prod.splits if_splits)
  have roles: "roles eng1 = roles eng" using effective_roles [of eng name] by (simp add: eng1_def rbac_check_permission_def case_prod_unfold)
  have names: "map username (users eng1) = map username (users eng)"
    using assms(1) i list_update_id [of "map username (users eng)" i]
    by (simp add: eng1_def rbac_check_permission_def rbac_get_effective_permissions_def on_user_def Let_def map_update)
  have find: "rbac_find_user eng1 name = Some i"
  proof -
    have "username (users eng1 ! j) = username (users eng ! j)" if "j < length (users eng)" for j
      using arg_cong [OF names, of "\<lambda>xs. xs ! j"] that map_eq_imp_length_eq [OF names] by simp
    then show ?thesis using assms(1) map_eq_imp_length_eq [OF names] by (auto simp: rbac_find_user_def find_idx_Some_iff)
  qed
  have "cache_valid (users eng1 ! i)" "cached_permission_mask (users eng1 ! i) = snd (rbac_get_effective_permissions eng name)"
    using assms(1) i by (auto simp: eng1_def rbac_check_permission_def rbac_get_effective_permissions_def on_user_def Let_def)
  moreover have u: "users eng2 = users eng1" by (simp add: eng2_def rbac_role_grant_permission_def split: option.split)
  moreover have "rbac_find_user eng2 name = Some i" using find u by (simp add: rbac_find_user_def)
  ultimately have "\<not> snd (rbac_check_permission eng2 name required)"
    using no rq by (simp add: rbac_check_permission_def rbac_get_effective_permissions_def Let_def)
  moreover have "grants eng2 10 role b" if "bit required b" for b
  proof -
    obtain j where j: "find_idx (\<lambda>r. role_name r = role) (roles eng1) (length (roles eng1)) = Some j"
      using assms(3) roles by (cases "find_idx (\<lambda>r. role_name r = role) (roles eng1) (length (roles eng1))")
        (auto simp: rbac_find_role_def find_None_iff find_idx_None_iff in_set_conv_nth)
    then have jj: "j < length (roles eng1)" "role_name (roles eng1 ! j) = role" "\<forall>k < j. role_name (roles eng1 ! k) \<noteq> role"
      by (auto simp: find_idx_Some_iff)
    let ?r = "(roles eng1 ! j)\<lparr>permission_mask := permission_mask (roles eng1 ! j) OR required\<rparr>"
    have "roles eng2 = (roles eng1)[j := ?r]" by (simp add: eng2_def rbac_role_grant_permission_def j)
    then have "rbac_find_role eng2 role = Some ?r"
      using jj by (auto simp: rbac_find_role_def find_Some_iff intro!: exI [of _ j])
    then show ?thesis using that by (auto simp: grants_def bit_or_iff intro!: exI [of _ 0])
  qed
  ultimately show ?thesis by (simp add: eng1_def [symmetric] eng2_def [symmetric] Let_def)
qed

theorem rbac_grant_not_seen_witness:
  "let eng = rbac_run [Create_user 0 0 ''alice'', Assign_role 0 ''alice'' ''VIEWER''] (rbac_setup_default_roles rbac_engine_init);
       eng1 = fst (rbac_check_permission eng ''alice'' PERM_WRITE_POSTS);
       eng2 = fst (rbac_role_grant_permission eng1 ''VIEWER'' PERM_WRITE_POSTS)
   in \<not> snd (rbac_check_permission eng2 ''alice'' PERM_WRITE_POSTS)"
proof -
  let ?eng = "rbac_run [Create_user 0 0 ''alice'', Assign_role 0 ''alice'' ''VIEWER''] (rbac_setup_default_roles rbac_engine_init)"
  have "rbac_find_user ?eng ''alice'' = Some 0" "''VIEWER'' \<in> set (role_names (users ?eng ! 0))" by code_simp+
  moreover have "rbac_find_role ?eng ''VIEWER'' \<noteq> None" by code_simp
  moreover have "\<not> snd (rbac_check_permission ?eng ''alice'' PERM_WRITE_POSTS)" by code_simp
  ultimately show ?thesis using rbac_grant_not_seen [of ?eng "''alice''" 0 "''VIEWER''" PERM_WRITE_POSTS] by (simp add: Let_def)
qed

end
