(* ===== verification/Saga.thy ===== *)
theory Saga
  imports C_Text Float64
begin

text \<open>
  The saga orchestrator and the choreography bus of \<open>src/mini-business-arch/src/saga_orch.c\<close>: steps with an action and a
  compensation, execution with retries, compensation of the completed steps in reverse, the orchestrator's tick, and the event bus.

  A function pointer is a name of type \<open>'f\<close>, and \<open>call\<close> says what calling it does: it gets the context of the step, the data of the
  saga and the state of the world, and gives the result and the new data and world.  Every operation returns the trace of the
  calls it made.  A copied name as long as its array has no terminator.  Allocations succeed.
\<close>

section \<open>Data\<close>

definition SAGA_ID_LEN :: nat where "SAGA_ID_LEN = 64"
definition SAGA_NAME_LEN :: nat where "SAGA_NAME_LEN = 128"
definition SAGA_MAX_STEPS :: nat where "SAGA_MAX_STEPS = 20"

datatype SagaStepStatus = SAGA_STEP_PENDING | SAGA_STEP_EXECUTING | SAGA_STEP_COMPLETED | SAGA_STEP_COMPENSATING
  | SAGA_STEP_COMPENSATED | SAGA_STEP_FAILED

datatype SagaStatus = SAGA_STATUS_RUNNING | SAGA_STATUS_COMPLETED | SAGA_STATUS_COMPENSATING | SAGA_STATUS_COMPENSATED | SAGA_STATUS_FAILED

record 'f SagaStep =
  step_name :: string
  execute :: 'f
  compensate :: "'f option"
  context_ptr :: ptr
  step_status :: SagaStepStatus
  retry_count :: int
  max_retries :: int

record ('f, 'd) SagaInstance =
  saga_id :: string
  saga_name :: string
  steps :: "'f SagaStep list"
  current_step :: int
  saga_status :: SagaStatus
  saga_data :: 'd
  saga_data_size :: nat
  is_orchestrated :: bool

type_synonym ('f, 'd, 'w) callee = "'f \<Rightarrow> ptr \<Rightarrow> 'd \<Rightarrow> 'w \<Rightarrow> int \<times> 'd \<times> 'w"

text \<open>A call of the action or of the compensation of a step, with its result.\<close>

datatype saga_call = is_Exec: Exec (call_step: nat) (call_result: int) | is_Comp: Comp (call_step: nat) (call_result: int)

section \<open>Steps\<close>

definition saga_step_create :: "string \<Rightarrow> 'f \<Rightarrow> 'f option \<Rightarrow> ptr \<Rightarrow> int \<Rightarrow> 'f SagaStep" where
  "saga_step_create name ex undo ctx retries =
     \<lparr>step_name = strncpy_buf SAGA_NAME_LEN name, execute = ex, compensate = undo, context_ptr = ctx, step_status = SAGA_STEP_PENDING,
      retry_count = 0, max_retries = retries\<rparr>"

definition saga_step_set_status :: "SagaStepStatus \<Rightarrow> 'f SagaStep \<Rightarrow> 'f SagaStep" where
  "saga_step_set_status s step = step\<lparr>step_status := s\<rparr>"

definition saga_step_status_string :: "SagaStepStatus \<Rightarrow> string" where
  "saga_step_status_string s =
     (case s of SAGA_STEP_PENDING \<Rightarrow> ''PENDING'' | SAGA_STEP_EXECUTING \<Rightarrow> ''EXECUTING'' | SAGA_STEP_COMPLETED \<Rightarrow> ''COMPLETED''
      | SAGA_STEP_COMPENSATING \<Rightarrow> ''COMPENSATING'' | SAGA_STEP_COMPENSATED \<Rightarrow> ''COMPENSATED'' | SAGA_STEP_FAILED \<Rightarrow> ''FAILED'')"

definition saga_step_can_retry :: "'f SagaStep \<Rightarrow> bool" where
  "saga_step_can_retry step \<longleftrightarrow> retry_count step < max_retries step"

section \<open>Sagas\<close>

definition saga_orch_create :: "u64 \<Rightarrow> nat \<Rightarrow> 'd \<Rightarrow> string \<Rightarrow> bool \<Rightarrow> ('f, 'd) SagaInstance" where
  "saga_orch_create now rv zero name orchestrated =
     (let digits = fmt_llu now
      in \<lparr>saga_id = strncpy_buf SAGA_ID_LEN (''SAGA-'' @ replicate (10 - length digits) (CHR ''0'') @ digits @ ''-'' @ fmt_0x 4 (rv mod 0x10000)),
          saga_name = strncpy_buf SAGA_NAME_LEN name, steps = [], current_step = 0, saga_status = SAGA_STATUS_RUNNING, saga_data = zero,
          saga_data_size = 0,          is_orchestrated = orchestrated\<rparr>)"

definition saga_orch_add_step :: "('f, 'd) SagaInstance \<Rightarrow> 'f SagaStep \<Rightarrow> ('f, 'd) SagaInstance \<times> int" where
  "saga_orch_add_step saga step =
     (if length (steps saga) \<ge> SAGA_MAX_STEPS then (saga, -1) else (saga\<lparr>steps := steps saga @ [step]\<rparr>, 0))"

fun saga_orch_add_steps :: "('f, 'd) SagaInstance \<Rightarrow> 'f SagaStep list \<Rightarrow> ('f, 'd) SagaInstance \<times> int" where
  "saga_orch_add_steps saga [] = (saga, 0)"
| "saga_orch_add_steps saga (step # rest) =
     (case saga_orch_add_step saga step of (saga', r) \<Rightarrow> if r \<noteq> 0 then (saga', -1) else saga_orch_add_steps saga' rest)"

definition on_step :: "nat \<Rightarrow> ('f SagaStep \<Rightarrow> 'f SagaStep) \<Rightarrow> ('f, 'd) SagaInstance \<Rightarrow> ('f, 'd) SagaInstance" where
  "on_step i f saga = saga\<lparr>steps := (steps saga)[i := f (steps saga ! i)]\<rparr>"

lemma on_step_sel [simp]:
  "saga_status (on_step i f saga) = saga_status saga" "current_step (on_step i f saga) = current_step saga"
  "saga_data (on_step i f saga) = saga_data saga" "length (steps (on_step i f saga)) = length (steps saga)"
  "i < length (steps saga) \<Longrightarrow> steps (on_step i f saga) ! i = f (steps saga ! i)"
  "j \<noteq> i \<Longrightarrow> steps (on_step i f saga) ! j = steps saga ! j"
  by (simp_all add: on_step_def)

function saga_orch_execute_step :: "('f, 'd, 'w) callee \<Rightarrow> ('f, 'd) SagaInstance \<Rightarrow> 'w \<Rightarrow> int \<Rightarrow> ('f, 'd) SagaInstance \<times> 'w \<times> int \<times> saga_call list" where
  "saga_orch_execute_step call saga w index =
     (if index < 0 \<or> index \<ge> int (length (steps saga)) then (saga, w, -1, [])
      else
        let i = nat index; step = steps saga ! i; saga1 = on_step i (saga_step_set_status SAGA_STEP_EXECUTING) saga
        in case call (execute step) (context_ptr step) (saga_data saga1) w of
             (result, data, w') \<Rightarrow>
               let saga2 = saga1\<lparr>saga_data := data\<rparr>
               in if result = 0 then
                    ((on_step i (saga_step_set_status SAGA_STEP_COMPLETED) saga2)\<lparr>current_step := index + 1\<rparr>, w', 0, [Exec i 0])
                  else if saga_step_can_retry step then
                    (case saga_orch_execute_step call (on_step i (\<lambda>s. s\<lparr>retry_count := retry_count s + 1\<rparr>) saga2) w' index of
                       (saga3, w'', r, tr) \<Rightarrow> (saga3, w'', r, Exec i result # tr))
                  else ((on_step i (saga_step_set_status SAGA_STEP_FAILED) saga2)\<lparr>saga_status := SAGA_STATUS_FAILED\<rparr>, w', result, [Exec i result]))"
  by pat_completeness auto
termination
  by (relation "measure (\<lambda>(_, saga, _, index). nat (max_retries (steps saga ! nat index) - retry_count (steps saga ! nat index)))")
     (auto simp: saga_step_can_retry_def saga_step_set_status_def on_step_def nat_less_iff)

declare saga_orch_execute_step.simps [simp del]

text \<open>The loop of \<open>saga_orch_compensate\<close>, from step \<open>n - 1\<close> down.  A failed compensation with retries left visits the step again, but its
  status is no longer the one the loop looks for.\<close>

function comp_loop :: "('f, 'd, 'w) callee \<Rightarrow> ('f, 'd) SagaInstance \<Rightarrow> 'w \<Rightarrow> nat \<Rightarrow> ('f, 'd) SagaInstance \<times> 'w \<times> saga_call list" where
  "comp_loop call saga w 0 = (saga, w, [])"
| "comp_loop call saga w (Suc i) =
     (let step = steps saga ! i
      in if i < length (steps saga) \<and> step_status step = SAGA_STEP_COMPLETED \<and> compensate step \<noteq> None then
           (let saga1 = on_step i (saga_step_set_status SAGA_STEP_COMPENSATING) saga
            in case call (the (compensate step)) (context_ptr step) (saga_data saga1) w of
                 (result, data, w') \<Rightarrow>
                   let saga2 = saga1\<lparr>saga_data := data\<rparr>
                   in if result = 0 then
                        (case comp_loop call (on_step i (saga_step_set_status SAGA_STEP_COMPENSATED) saga2) w' i of
                           (saga', w'', tr) \<Rightarrow> (saga', w'', Comp i result # tr))
                      else
                        let saga3 = on_step i (\<lambda>s. s\<lparr>retry_count := retry_count s + 1\<rparr>) saga2
                        in case comp_loop call saga3 w' (if saga_step_can_retry (steps saga3 ! i) then Suc i else i) of
                             (saga', w'', tr) \<Rightarrow> (saga', w'', Comp i result # tr))
         else comp_loop call saga w i)"
  by pat_completeness auto
termination
  by (relation "measure (\<lambda>(_, saga, _, n). 2 * n +
        (if 0 < n \<and> n \<le> length (steps saga) \<and> step_status (steps saga ! (n - 1)) = SAGA_STEP_COMPLETED then 1 else 0))")
     (auto simp: saga_step_set_status_def split: if_splits)

definition saga_orch_compensate :: "('f, 'd, 'w) callee \<Rightarrow> ('f, 'd) SagaInstance \<Rightarrow> 'w \<Rightarrow> int \<Rightarrow> ('f, 'd) SagaInstance \<times> 'w \<times> saga_call list" where
  "saga_orch_compensate call saga w failed =
     (let start = (if failed \<ge> int (length (steps saga)) then int (length (steps saga)) - 1 else failed)
      in case comp_loop call (saga\<lparr>saga_status := SAGA_STATUS_COMPENSATING\<rparr>) w (nat (start + 1)) of
           (saga', w', tr) \<Rightarrow> (saga'\<lparr>saga_status := SAGA_STATUS_COMPENSATED\<rparr>, w', tr))"

text \<open>The loop of \<open>saga_orch_execute\<close> over the indices that remain, from \<open>current_step\<close> on.\<close>

fun exec_loop :: "('f, 'd, 'w) callee \<Rightarrow> ('f, 'd) SagaInstance \<Rightarrow> 'w \<Rightarrow> int list \<Rightarrow> ('f, 'd) SagaInstance \<times> 'w \<times> int \<times> saga_call list" where
  "exec_loop call saga w [] = (saga\<lparr>saga_status := SAGA_STATUS_COMPLETED\<rparr>, w, 0, [])"
| "exec_loop call saga w (i # is) =
     (case saga_orch_execute_step call saga w i of
        (saga1, w1, result, tr) \<Rightarrow>
          if result \<noteq> 0 then
            (case saga_orch_compensate call saga1 w1 i of (saga2, w2, tr') \<Rightarrow> (saga2, w2, result, tr @ tr'))
          else (case exec_loop call saga1 w1 is of (saga2, w2, r, tr') \<Rightarrow> (saga2, w2, r, tr @ tr')))"

definition saga_orch_execute :: "('f, 'd, 'w) callee \<Rightarrow> ('f, 'd) SagaInstance \<Rightarrow> 'w \<Rightarrow> ('f, 'd) SagaInstance \<times> 'w \<times> int \<times> saga_call list" where
  "saga_orch_execute call saga w = exec_loop call saga w [current_step saga .. int (length (steps saga)) - 1]"

definition saga_orch_resume :: "('f, 'd, 'w) callee \<Rightarrow> ('f, 'd) SagaInstance \<Rightarrow> 'w \<Rightarrow> ('f, 'd) SagaInstance \<times> 'w \<times> int \<times> saga_call list" where
  "saga_orch_resume call saga w =
     (if saga_status saga \<noteq> SAGA_STATUS_RUNNING then (saga, w, -1, []) else saga_orch_execute call saga w)"

definition saga_status_string :: "SagaStatus \<Rightarrow> string" where
  "saga_status_string s =
     (case s of SAGA_STATUS_RUNNING \<Rightarrow> ''RUNNING'' | SAGA_STATUS_COMPLETED \<Rightarrow> ''COMPLETED'' | SAGA_STATUS_COMPENSATING \<Rightarrow> ''COMPENSATING''
      | SAGA_STATUS_COMPENSATED \<Rightarrow> ''COMPENSATED'' | SAGA_STATUS_FAILED \<Rightarrow> ''FAILED'')"

definition saga_is_terminal :: "('f, 'd) SagaInstance \<Rightarrow> bool" where
  "saga_is_terminal saga \<longleftrightarrow> saga_status saga = SAGA_STATUS_COMPLETED \<or> saga_status saga = SAGA_STATUS_COMPENSATED
     \<or> saga_status saga = SAGA_STATUS_FAILED"

section \<open>The orchestrator\<close>

text \<open>The first \<open>count\<close> entries of the array are the list.\<close>

record ('f, 'd) SagaOrchestrator =
  active_sagas :: "('f, 'd) SagaInstance list"
  capacity :: nat

definition saga_orchestrator_create :: "('f, 'd) SagaOrchestrator" where
  "saga_orchestrator_create = \<lparr>active_sagas = [], capacity = 8\<rparr>"

definition saga_orchestrator_enqueue :: "('f, 'd) SagaOrchestrator \<Rightarrow> ('f, 'd) SagaInstance \<Rightarrow> ('f, 'd) SagaOrchestrator \<times> int" where
  "saga_orchestrator_enqueue orch saga =
     (let orch' = (if length (active_sagas orch) \<ge> capacity orch then orch\<lparr>capacity := capacity orch * 2\<rparr> else orch)
      in (orch'\<lparr>active_sagas := active_sagas orch' @ [saga]\<rparr>, 0))"

text \<open>The trace of a tick has one list of calls for each saga.\<close>

fun tick_loop :: "('f, 'd, 'w) callee \<Rightarrow> ('f, 'd) SagaInstance list \<Rightarrow> 'w \<Rightarrow> ('f, 'd) SagaInstance list \<times> 'w \<times> saga_call list list" where
  "tick_loop call [] w = ([], w, [])"
| "tick_loop call (saga # rest) w =
     (if saga_is_terminal saga then (case tick_loop call rest w of (rest', w', trs) \<Rightarrow> (saga # rest', w', [] # trs))
      else (case saga_orch_execute call saga w of
              (saga', w1, _, tr) \<Rightarrow> (case tick_loop call rest w1 of (rest', w', trs) \<Rightarrow> (saga' # rest', w', tr # trs))))"

definition saga_orchestrator_tick :: "('f, 'd, 'w) callee \<Rightarrow> ('f, 'd) SagaOrchestrator \<Rightarrow> 'w \<Rightarrow> ('f, 'd) SagaOrchestrator \<times> 'w \<times> saga_call list list" where
  "saga_orchestrator_tick call orch w =
     (case tick_loop call (active_sagas orch) w of (sagas, w', trs) \<Rightarrow> (orch\<lparr>active_sagas := sagas\<rparr>, w', trs))"

definition saga_orchestrator_find :: "('f, 'd) SagaOrchestrator \<Rightarrow> string \<Rightarrow> nat option" where
  "saga_orchestrator_find orch sid = find_idx (\<lambda>s. saga_id s = sid) (active_sagas orch) (length (active_sagas orch))"

definition saga_orchestrator_cancel :: "('f, 'd, 'w) callee \<Rightarrow> ('f, 'd) SagaOrchestrator \<Rightarrow> 'w \<Rightarrow> string \<Rightarrow> ('f, 'd) SagaOrchestrator \<times> 'w \<times> int \<times> saga_call list" where
  "saga_orchestrator_cancel call orch w sid =
     (case saga_orchestrator_find orch sid of
        None \<Rightarrow> (orch, w, -1, [])
      | Some i \<Rightarrow>
          let saga = active_sagas orch ! i
          in if saga_is_terminal saga then (orch, w, -2, [])
             else (case saga_orch_compensate call saga w (current_step saga) of
                     (saga', w', tr) \<Rightarrow> (orch\<lparr>active_sagas := (active_sagas orch)[i := saga']\<rparr>, w', 0, tr)))"

section \<open>The choreography bus\<close>

datatype ChoreoEventType = CHOREO_EVENT_TYPE_STARTED | CHOREO_EVENT_TYPE_STEP_COMPLETED | CHOREO_EVENT_TYPE_STEP_FAILED
  | CHOREO_EVENT_TYPE_COMPENSATION_TRIGGERED | CHOREO_EVENT_TYPE_COMPENSATED | CHOREO_EVENT_TYPE_SAGA_COMPLETED
  | CHOREO_EVENT_TYPE_SAGA_FAILED

text \<open>The constructors of events copy up to the whole array, without a terminator of their own.\<close>

record ChoreographyEvent =
  event_type :: ChoreoEventType
  ev_saga_id :: string
  ev_step_name :: string
  ev_service_name :: string
  payload :: "u8 list"
  payload_size :: nat
  ev_step_status :: SagaStepStatus

record ('f, 'h) ChoreographyService =
  service_name :: string
  service_context :: ptr
  on_event :: "'h option"
  known_steps :: "'f SagaStep list"

record ('f, 'h) ChoreographyBus =
  services :: "('f, 'h) ChoreographyService list"
  service_capacity :: nat
  event_log :: "ChoreographyEvent list"
  event_log_capacity :: nat

definition choreography_bus_create :: "('f, 'h) ChoreographyBus" where
  "choreography_bus_create = \<lparr>services = [], service_capacity = 8, event_log = [], event_log_capacity = 32\<rparr>"

definition choreography_bus_register_service :: "('f, 'h) ChoreographyBus \<Rightarrow> ('f, 'h) ChoreographyService \<Rightarrow> ('f, 'h) ChoreographyBus \<times> int" where
  "choreography_bus_register_service bus service =
     (let bus' = (if length (services bus) \<ge> service_capacity bus then bus\<lparr>service_capacity := service_capacity bus * 2\<rparr> else bus)
      in (bus'\<lparr>services := services bus' @ [service]\<rparr>, 0))"

definition choreography_bus_publish :: "('f, 'h) ChoreographyBus \<Rightarrow> ChoreographyEvent \<Rightarrow> ('f, 'h) ChoreographyBus \<times> int" where
  "choreography_bus_publish bus event =
     (let bus' = (if length (event_log bus) \<ge> event_log_capacity bus then bus\<lparr>event_log_capacity := event_log_capacity bus * 2\<rparr> else bus)
      in (bus'\<lparr>event_log := event_log bus' @ [event]\<rparr>, 0))"

text \<open>The calls of handlers for one event, in order: the handler, the context of its service and the event.\<close>

fun deliver :: "('f, 'h) ChoreographyService list \<Rightarrow> ChoreographyEvent \<Rightarrow> ('h \<times> ptr \<times> ChoreographyEvent) list" where
  "deliver [] ev = []"
| "deliver (s # ss) ev =
     (if service_name s = ev_service_name ev then (case on_event s of None \<Rightarrow> [] | Some h \<Rightarrow> [(h, service_context s, ev)]) else [])
     @ deliver ss ev"

definition choreography_bus_dispatch_pending :: "('f, 'h) ChoreographyBus \<Rightarrow> ('f, 'h) ChoreographyBus \<times> ('h \<times> ptr \<times> ChoreographyEvent) list \<times> int" where
  "choreography_bus_dispatch_pending bus = (bus\<lparr>event_log := []\<rparr>, concat (map (deliver (services bus)) (event_log bus)), 0)"

definition choreography_bus_find_service :: "('f, 'h) ChoreographyBus \<Rightarrow> string \<Rightarrow> nat option" where
  "choreography_bus_find_service bus name = find_idx (\<lambda>s. service_name s = name) (services bus) (length (services bus))"

definition zero_event :: ChoreographyEvent where
  "zero_event = \<lparr>event_type = CHOREO_EVENT_TYPE_STARTED, ev_saga_id = [], ev_step_name = [], ev_service_name = [], payload = [],
     payload_size = 0, ev_step_status = SAGA_STEP_PENDING\<rparr>"

definition ch_event_started :: "string \<Rightarrow> string \<Rightarrow> ChoreographyEvent" where
  "ch_event_started sid step = zero_event\<lparr>event_type := CHOREO_EVENT_TYPE_STARTED, ev_saga_id := take SAGA_ID_LEN sid,
     ev_step_name := take SAGA_NAME_LEN step, ev_step_status := SAGA_STEP_PENDING\<rparr>"

definition ch_event_completed :: "string \<Rightarrow> string \<Rightarrow> string \<Rightarrow> ChoreographyEvent" where
  "ch_event_completed sid step service = zero_event\<lparr>event_type := CHOREO_EVENT_TYPE_STEP_COMPLETED, ev_saga_id := take SAGA_ID_LEN sid,
     ev_step_name := take SAGA_NAME_LEN step, ev_service_name := take SAGA_NAME_LEN service, ev_step_status := SAGA_STEP_COMPLETED\<rparr>"

definition ch_event_failed :: "string \<Rightarrow> string \<Rightarrow> string \<Rightarrow> ChoreographyEvent" where
  "ch_event_failed sid step service = zero_event\<lparr>event_type := CHOREO_EVENT_TYPE_STEP_FAILED, ev_saga_id := take SAGA_ID_LEN sid,
     ev_step_name := take SAGA_NAME_LEN step, ev_service_name := take SAGA_NAME_LEN service, ev_step_status := SAGA_STEP_FAILED\<rparr>"

definition ch_event_compensation_needed :: "string \<Rightarrow> string \<Rightarrow> ChoreographyEvent" where
  "ch_event_compensation_needed sid step = zero_event\<lparr>event_type := CHOREO_EVENT_TYPE_COMPENSATION_TRIGGERED,
     ev_saga_id := take SAGA_ID_LEN sid, ev_step_name := take SAGA_NAME_LEN step\<rparr>"

definition ch_event_compensated :: "string \<Rightarrow> string \<Rightarrow> string \<Rightarrow> ChoreographyEvent" where
  "ch_event_compensated sid step service = zero_event\<lparr>event_type := CHOREO_EVENT_TYPE_COMPENSATED, ev_saga_id := take SAGA_ID_LEN sid,
     ev_step_name := take SAGA_NAME_LEN step, ev_service_name := take SAGA_NAME_LEN service\<rparr>"

definition ch_event_type_string :: "ChoreoEventType \<Rightarrow> string" where
  "ch_event_type_string t =
     (case t of CHOREO_EVENT_TYPE_STARTED \<Rightarrow> ''STARTED'' | CHOREO_EVENT_TYPE_STEP_COMPLETED \<Rightarrow> ''STEP_COMPLETED''
      | CHOREO_EVENT_TYPE_STEP_FAILED \<Rightarrow> ''STEP_FAILED'' | CHOREO_EVENT_TYPE_COMPENSATION_TRIGGERED \<Rightarrow> ''COMPENSATION_TRIGGERED''
      | CHOREO_EVENT_TYPE_COMPENSATED \<Rightarrow> ''COMPENSATED'' | CHOREO_EVENT_TYPE_SAGA_COMPLETED \<Rightarrow> ''SAGA_COMPLETED''
      | CHOREO_EVENT_TYPE_SAGA_FAILED \<Rightarrow> ''SAGA_FAILED'')"

section \<open>The order saga\<close>

record OrderSagaData =
  order_id :: string
  customer_id :: string
  amount :: double
  currency :: string

datatype order_fn = saga_step_reserve_inventory_exec | saga_step_reserve_inventory_comp | saga_step_process_payment_exec
  | saga_step_process_payment_comp | saga_step_confirm_order_exec | saga_step_confirm_order_comp | saga_step_ship_order_exec
  | saga_step_ship_order_comp

text \<open>Each of the functions of the order saga ignores its arguments and returns 0.\<close>

definition order_call :: "(order_fn, OrderSagaData, 'w) callee" where
  "order_call f ctx data w = (0, data, w)"

text \<open>Two identifiers of 64 bytes, a double and 8 bytes for the currency.\<close>

definition sizeof_OrderSagaData :: nat where
  "sizeof_OrderSagaData = 64 + 64 + 8 + 8"

definition saga_create_order_saga :: "u64 \<Rightarrow> nat \<Rightarrow> string \<Rightarrow> string \<Rightarrow> double \<Rightarrow> string \<Rightarrow> bool \<Rightarrow> (order_fn, OrderSagaData) SagaInstance" where
  "saga_create_order_saga now rv order customer amt cur orchestrated =
     (let zero = \<lparr>order_id = [], customer_id = [], amount = 0, currency = []\<rparr>;
          data = \<lparr>order_id = order, customer_id = customer, amount = amt, currency = take 8 cur\<rparr>;
          saga = (saga_orch_create now rv zero ''CreateOrderSaga'' orchestrated)\<lparr>saga_data := data, saga_data_size := sizeof_OrderSagaData\<rparr>;
          step1 = saga_step_create ''ReserveInventory'' saga_step_reserve_inventory_exec (Some saga_step_reserve_inventory_comp) NULL 3;
          step2 = saga_step_create ''ProcessPayment'' saga_step_process_payment_exec (Some saga_step_process_payment_comp) NULL 3;
          step3 = saga_step_create ''ConfirmOrder'' saga_step_confirm_order_exec (Some saga_step_confirm_order_comp) NULL 3;
          step4 = saga_step_create ''ShipOrder'' saga_step_ship_order_exec (Some saga_step_ship_order_comp) NULL 3
      in fst (saga_orch_add_steps saga [step1, step2, step3, step4]))"

end
