(* ===== verification/Saga_Run.thy ===== *)
theory Saga_Run
  imports Saga
begin

text \<open>
  What a saga of \<open>saga_orch.c\<close> does when it is executed: it runs every step in order or it stops at a step whose attempts are used up and
  compensates the completed steps in reverse, and one tick of the orchestrator ends every saga.
\<close>

section \<open>One step\<close>

definition budget :: "'f SagaStep \<Rightarrow> nat" where
  "budget s = nat (max_retries s - retry_count s)"

text \<open>The calls of the action of step \<open>i\<close> that end with \<open>r\<close>: all but the last fail, there are at most \<open>b\<close> of them besides the last, and
  a final failure uses all of them up.\<close>

definition attempts :: "nat \<Rightarrow> nat \<Rightarrow> int \<Rightarrow> saga_call list \<Rightarrow> bool" where
  "attempts b i r tr \<longleftrightarrow> tr \<noteq> [] \<and> (\<forall>c \<in> set tr. is_Exec c \<and> call_step c = i) \<and> (\<forall>c \<in> set (butlast tr). call_result c \<noteq> 0)
     \<and> call_result (last tr) = r \<and> length tr \<le> Suc b \<and> (r \<noteq> 0 \<longrightarrow> length tr = Suc b)"

lemma attempts_one: "r \<noteq> 0 \<longrightarrow> b = 0 \<Longrightarrow> attempts b i r [Exec i r]"
  by (simp add: attempts_def)

lemma attempts_Cons: "attempts b i r tr \<Longrightarrow> x \<noteq> 0 \<Longrightarrow> attempts (Suc b) i r (Exec i x # tr)"
  by (auto simp: attempts_def)

lemma on_step_steps: "steps (on_step i f saga) = (steps saga)[i := f (steps saga ! i)]"
  by (simp add: on_step_def)

lemma set_status_sel [simp]:
  "step_status (saga_step_set_status st s) = st" "compensate (saga_step_set_status st s) = compensate s"
  "retry_count (saga_step_set_status st s) = retry_count s" "max_retries (saga_step_set_status st s) = max_retries s"
  by (simp_all add: saga_step_set_status_def)

text \<open>One attempt, with the action's outcome as arguments.\<close>

definition attempted :: "nat \<Rightarrow> 'd \<Rightarrow> ('f, 'd) SagaInstance \<Rightarrow> ('f, 'd) SagaInstance" where
  "attempted i d saga = (on_step i (saga_step_set_status SAGA_STEP_EXECUTING) saga)\<lparr>saga_data := d\<rparr>"

lemma attempted_steps: "steps (attempted i d saga) = (steps saga)[i := saga_step_set_status SAGA_STEP_EXECUTING (steps saga ! i)]"
  by (simp add: attempted_def on_step_steps)

lemma execute_step_unfold:
  assumes "i < length (steps saga)" "call (execute (steps saga ! i)) (context_ptr (steps saga ! i)) (saga_data saga) w = (x, d, w1)"
  shows "saga_orch_execute_step call saga w (int i) =
     (if x = 0 then ((on_step i (saga_step_set_status SAGA_STEP_COMPLETED) (attempted i d saga))\<lparr>current_step := int i + 1\<rparr>, w1, 0, [Exec i 0])
      else if saga_step_can_retry (steps saga ! i) then
        (case saga_orch_execute_step call (on_step i (\<lambda>s. s\<lparr>retry_count := retry_count s + 1\<rparr>) (attempted i d saga)) w1 (int i) of
           (saga3, w'', r, tr) \<Rightarrow> (saga3, w'', r, Exec i x # tr))
      else ((on_step i (saga_step_set_status SAGA_STEP_FAILED) (attempted i d saga))\<lparr>saga_status := SAGA_STATUS_FAILED\<rparr>, w1, x, [Exec i x]))"
  using assms by (subst saga_orch_execute_step.simps) (simp add: attempted_def Let_def)

lemma execute_step_run:
  assumes "saga_orch_execute_step call saga w (int i) = (saga', w', r, tr)" "i < length (steps saga)"
  shows "\<exists>s'. steps saga' = (steps saga)[i := s'] \<and> compensate s' = compensate (steps saga ! i)
           \<and> step_status s' = (if r = 0 then SAGA_STEP_COMPLETED else SAGA_STEP_FAILED) \<and> attempts (budget (steps saga ! i)) i r tr"
  using assms
proof (induction "budget (steps saga ! i)" arbitrary: saga w saga' w' r tr)
  case 0
  obtain x d w1 where c: "call (execute (steps saga ! i)) (context_ptr (steps saga ! i)) (saga_data saga) w = (x, d, w1)" by (rule prod_cases3)
  have "\<not> saga_step_can_retry (steps saga ! i)" using 0(1) by (simp add: budget_def saga_step_can_retry_def)
  then show ?case using 0 by (auto simp: execute_step_unfold [of i saga call w x d w1, OF _ c] on_step_steps attempted_steps attempts_one split: if_splits)
next
  case (Suc b)
  obtain x d w1 where c: "call (execute (steps saga ! i)) (context_ptr (steps saga ! i)) (saga_data saga) w = (x, d, w1)" by (rule prod_cases3)
  let ?again = "on_step i (\<lambda>s. s\<lparr>retry_count := retry_count s + 1\<rparr>) (attempted i d saga)"
  have retry: "saga_step_can_retry (steps saga ! i)" using Suc(2) by (simp add: budget_def saga_step_can_retry_def)
  show ?case
  proof (cases "x = 0")
    case True
    then show ?thesis using Suc(3,4) by (auto simp: execute_step_unfold [of i saga call w x d w1, OF _ c] on_step_steps attempted_steps attempts_one)
  next
    case False
    obtain s4 w4 r4 t4 where rec: "saga_orch_execute_step call ?again w1 (int i) = (s4, w4, r4, t4)" by (rule prod_cases4)
    have out: "saga' = s4" "r = r4" "tr = Exec i x # t4" using Suc(3,4) False retry rec by (simp_all add: execute_step_unfold [of i saga call w x d w1, OF _ c])
    have "b = budget (steps ?again ! i)" using Suc(2,4) by (simp add: budget_def on_step_steps attempted_steps)
    with Suc(1) [OF this rec] obtain s' where s': "steps s4 = (steps ?again)[i := s']" "compensate s' = compensate (steps ?again ! i)"
      "step_status s' = (if r4 = 0 then SAGA_STEP_COMPLETED else SAGA_STEP_FAILED)" "attempts b i r4 t4"
      using Suc(4) by (auto simp: on_step_steps attempted_steps)
    have "compensate s' = compensate (steps saga ! i)" using s'(2) Suc(4) by (simp add: on_step_steps attempted_steps)
    moreover have "steps s4 = (steps saga)[i := s']" using s'(1) by (simp add: on_step_steps attempted_steps)
    moreover have "attempts (budget (steps saga ! i)) i r tr" using attempts_Cons [OF s'(4) False] out Suc(2) by simp
    ultimately show ?thesis using out s'(3) by auto
  qed
qed

section \<open>Compensation\<close>

text \<open>The steps below \<open>n\<close> that the loop compensates, and what it leaves of each step.\<close>

definition to_undo :: "'f SagaStep list \<Rightarrow> nat \<Rightarrow> nat list" where
  "to_undo ss n = rev (filter (\<lambda>j. step_status (ss ! j) = SAGA_STEP_COMPLETED \<and> compensate (ss ! j) \<noteq> None) [0..<n])"

text \<open>A step is visited with effect once: after a failed compensation its status is \<open>SAGA_STEP_COMPENSATING\<close>, and the second visit
  that a remaining retry causes finds nothing to do.\<close>

definition undone :: "nat \<Rightarrow> int \<Rightarrow> 'd \<Rightarrow> ('f, 'd) SagaInstance \<Rightarrow> ('f, 'd) SagaInstance" where
  "undone i x d saga = on_step i (\<lambda>s. if x = 0 then saga_step_set_status SAGA_STEP_COMPENSATED s
     else (saga_step_set_status SAGA_STEP_COMPENSATING s)\<lparr>retry_count := retry_count s + 1\<rparr>) (saga\<lparr>saga_data := d\<rparr>)"

lemma undone_steps: "steps (undone i x d saga) = (steps saga)[i := if x = 0 then saga_step_set_status SAGA_STEP_COMPENSATED (steps saga ! i)
     else (saga_step_set_status SAGA_STEP_COMPENSATING (steps saga ! i))\<lparr>retry_count := retry_count (steps saga ! i) + 1\<rparr>]"
  by (simp add: undone_def on_step_steps)

lemma comp_loop_visit:
  assumes "i < length (steps saga)" "step_status (steps saga ! i) = SAGA_STEP_COMPLETED" "compensate (steps saga ! i) = Some f"
    "call f (context_ptr (steps saga ! i)) (saga_data saga) w = (x, d, w1)"
  shows "comp_loop call saga w (Suc i) =
           (case comp_loop call (undone i x d saga) w1 i of (saga', w', tr) \<Rightarrow> (saga', w', Comp i x # tr))"
proof -
  have "comp_loop call (undone i x d saga) w1 (Suc i) = comp_loop call (undone i x d saga) w1 i"
    using assms(1) by (subst comp_loop.simps) (simp add: undone_steps)
  then show ?thesis using assms by (subst comp_loop.simps) (simp add: undone_def on_step_def Let_def saga_step_set_status_def)
qed

lemma comp_loop_skip:
  "\<not> (step_status (steps saga ! i) = SAGA_STEP_COMPLETED \<and> compensate (steps saga ! i) \<noteq> None) \<Longrightarrow>
   comp_loop call saga w (Suc i) = comp_loop call saga w i"
  by (subst comp_loop.simps) (auto simp: Let_def)

lemma to_undo_Suc:
  "to_undo ss (Suc n) =
     (if step_status (ss ! n) = SAGA_STEP_COMPLETED \<and> compensate (ss ! n) \<noteq> None then n # to_undo ss n else to_undo ss n)"
  by (simp add: to_undo_def)

lemma to_undo_cong: "(\<And>j. j < n \<Longrightarrow> ss ! j = ss' ! j) \<Longrightarrow> to_undo ss n = to_undo ss' n"
  by (auto simp: to_undo_def intro!: filter_cong)

lemma to_undo_less: "j \<in> set (to_undo ss n) \<Longrightarrow> j < n"
  by (auto simp: to_undo_def)

text \<open>What the compensation of the steps below \<open>n\<close> does, with the calls \<open>tr\<close>.\<close>

definition rolled_back :: "'f SagaStep list \<Rightarrow> nat \<Rightarrow> 'f SagaStep list \<Rightarrow> saga_call list \<Rightarrow> bool" where
  "rolled_back ss n ss' tr \<longleftrightarrow> length ss' = length ss \<and> (\<forall>c \<in> set tr. is_Comp c) \<and> map call_step tr = to_undo ss n
     \<and> (\<forall>j < length ss. if j \<in> set (to_undo ss n)
          then step_status (ss' ! j) = (if Comp j 0 \<in> set tr then SAGA_STEP_COMPENSATED else SAGA_STEP_COMPENSATING)
          else ss' ! j = ss ! j)"

lemma rolled_back_Cons:
  assumes "rolled_back (steps (undone n x d saga)) n ss' tr" "n < length (steps saga)"
    "step_status (steps saga ! n) = SAGA_STEP_COMPLETED" "compensate (steps saga ! n) \<noteq> None"
  shows "rolled_back (steps saga) (Suc n) ss' (Comp n x # tr)"
proof -
  have u: "to_undo (steps (undone n x d saga)) n = to_undo (steps saga) n" by (rule to_undo_cong) (simp add: undone_steps)
  have n: "n \<notin> set (to_undo (steps saga) n)" using to_undo_less by blast
  have tr: "map call_step tr = to_undo (steps saga) n" "\<forall>c \<in> set tr. is_Comp c" "length ss' = length (steps saga)"
    using assms(1) u by (simp_all add: rolled_back_def undone_steps)
  have ss': "if j \<in> set (to_undo (steps saga) n)
      then step_status (ss' ! j) = (if Comp j 0 \<in> set tr then SAGA_STEP_COMPENSATED else SAGA_STEP_COMPENSATING)
      else ss' ! j = steps (undone n x d saga) ! j" if "j < length (steps saga)" for j
    using assms(1) u that by (simp add: rolled_back_def undone_steps)
  have c: "Comp n 0 \<notin> set tr"
  proof
    assume "Comp n 0 \<in> set tr"
    then have "n \<in> set (map call_step tr)" by force
    with n tr(1) show False by simp
  qed
  have at_n: "step_status (ss' ! n) = (if x = 0 then SAGA_STEP_COMPENSATED else SAGA_STEP_COMPENSATING)"
    using ss' [OF assms(2)] n assms(2) by (simp add: undone_steps)
  have "if j \<in> set (n # to_undo (steps saga) n)
      then step_status (ss' ! j) = (if Comp j 0 \<in> set (Comp n x # tr) then SAGA_STEP_COMPENSATED else SAGA_STEP_COMPENSATING)
      else ss' ! j = steps saga ! j" if j: "j < length (steps saga)" for j
  proof (cases "j = n")
    case True
    have "Comp n 0 \<in> set (Comp n x # tr) \<longleftrightarrow> x = 0" using c by auto
    then show ?thesis using at_n True by simp
  next
    case False
    then have "j \<in> set (n # to_undo (steps saga) n) \<longleftrightarrow> j \<in> set (to_undo (steps saga) n)"
      "Comp j 0 \<in> set (Comp n x # tr) \<longleftrightarrow> Comp j 0 \<in> set tr" "steps (undone n x d saga) ! j = steps saga ! j"
      by (simp_all add: undone_steps)
    then show ?thesis using ss' [OF j] by (simp only:)
  qed
  moreover have "to_undo (steps saga) (Suc n) = n # to_undo (steps saga) n" using assms(3,4) by (simp add: to_undo_Suc)
  ultimately show ?thesis using tr unfolding rolled_back_def by simp
qed

lemma comp_loop_run:
  assumes "comp_loop call saga w n = (saga', w', tr)" "n \<le> length (steps saga)"
  shows "rolled_back (steps saga) n (steps saga') tr"
  using assms
proof (induction n arbitrary: saga w tr)
  case 0
  then show ?case by (simp add: rolled_back_def to_undo_def)
next
  case (Suc n)
  show ?case
  proof (cases "step_status (steps saga ! n) = SAGA_STEP_COMPLETED \<and> compensate (steps saga ! n) \<noteq> None")
    case True
    then obtain f x d w1 where f: "compensate (steps saga ! n) = Some f" "call f (context_ptr (steps saga ! n)) (saga_data saga) w = (x, d, w1)"
      by (metis not_None_eq prod_cases3)
    with True Suc(2,3) comp_loop_visit [of n saga f call w x d w1] obtain tr' where
      "comp_loop call (undone n x d saga) w1 n = (saga', w', tr')" "tr = Comp n x # tr'" by (auto split: prod.splits)
    with rolled_back_Cons [OF Suc(1) [OF this(1)]] Suc(3) True show ?thesis by (simp add: undone_def)
  next
    case False
    then have u: "to_undo (steps saga) (Suc n) = to_undo (steps saga) n" by (simp only: to_undo_Suc if_False)
    have "rolled_back (steps saga) n (steps saga') tr"
      using Suc(1) [of saga w tr] Suc(2,3) comp_loop_skip [OF False, of call w] by simp
    moreover have "rolled_back (steps saga) (Suc n) (steps saga') tr = rolled_back (steps saga) n (steps saga') tr"
      by (simp only: rolled_back_def u)
    ultimately show ?thesis by simp
  qed
qed

lemma compensate_run:
  assumes "saga_orch_compensate call saga w (int k) = (saga', w', tr)" "k < length (steps saga)"
  shows "saga_status saga' = SAGA_STATUS_COMPENSATED \<and> rolled_back (steps saga) (Suc k) (steps saga') tr"
proof -
  obtain s1 where c: "comp_loop call (saga\<lparr>saga_status := SAGA_STATUS_COMPENSATING\<rparr>) w (Suc k) = (s1, w', tr)"
    and "saga' = s1\<lparr>saga_status := SAGA_STATUS_COMPENSATED\<rparr>"
    using assms by (auto simp: saga_orch_compensate_def nat_add_distrib split: prod.splits)
  then show ?thesis using comp_loop_run [OF c] assms(2) by simp
qed

section \<open>The whole saga\<close>

text \<open>The calls \<open>trs\<close> run steps \<open>i\<close>, \<open>i + 1\<close>, \dots with success.\<close>

fun runs :: "'f SagaStep list \<Rightarrow> nat \<Rightarrow> saga_call list list \<Rightarrow> bool" where
  "runs ss i [] \<longleftrightarrow> True"
| "runs ss i (tr # trs) \<longleftrightarrow> attempts (budget (ss ! i)) i 0 tr \<and> runs ss (Suc i) trs"

text \<open>Steps below \<open>i\<close> are completed and the others are as they were.\<close>

definition progressed :: "'f SagaStep list \<Rightarrow> nat \<Rightarrow> 'f SagaStep list \<Rightarrow> bool" where
  "progressed ss i ss' \<longleftrightarrow> length ss' = length ss \<and>
     (\<forall>j < length ss. compensate (ss' ! j) = compensate (ss ! j)
        \<and> (if j < i then step_status (ss' ! j) = SAGA_STEP_COMPLETED else ss' ! j = ss ! j))"

lemma progressed_Suc:
  assumes "progressed ss i ss1" "i < length ss" "compensate s' = compensate (ss1 ! i)" "step_status s' = SAGA_STEP_COMPLETED"
  shows "progressed ss (Suc i) (ss1[i := s'])"
  using assms unfolding progressed_def by (auto simp: nth_list_update less_Suc_eq)

lemma exec_loop_run:
  assumes "exec_loop call saga w [int i .. int n - 1] = (saga', w', r, tr)" "progressed ss i (steps saga)" "n = length ss" "i \<le> n"
  shows "(r = 0 \<and> saga_status saga' = SAGA_STATUS_COMPLETED \<and> progressed ss n (steps saga')
            \<and> (\<exists>trs. tr = concat trs \<and> length trs = n - i \<and> runs ss i trs))
       \<or> (r \<noteq> 0 \<and> (\<exists>k trs t comps saga1 w1 ss1 s'. i \<le> k \<and> k < n \<and> tr = concat trs @ t @ comps \<and> length trs = k - i \<and> runs ss i trs
            \<and> attempts (budget (ss ! k)) k r t \<and> progressed ss k ss1 \<and> steps saga1 = ss1[k := s'] \<and> step_status s' = SAGA_STEP_FAILED
            \<and> saga_orch_compensate call saga1 w1 (int k) = (saga', w', comps)))"
  using assms
proof (induction "n - i" arbitrary: saga w i tr)
  case 0
  then have "[int i .. int n - 1] = []" by simp
  with 0 show ?case by auto
next
  case (Suc m)
  then have i: "i < n" "i < length (steps saga)" "steps saga ! i = ss ! i" by (auto simp: progressed_def)
  then have up: "[int i .. int n - 1] = int i # [int (Suc i) .. int n - 1]" by (simp add: upto_rec1 add.commute)
  obtain s1 w1 r1 t1 where e: "saga_orch_execute_step call saga w (int i) = (s1, w1, r1, t1)" by (rule prod_cases4)
  from execute_step_run [OF e i(2)] obtain s' where s': "steps s1 = (steps saga)[i := s']" "compensate s' = compensate (steps saga ! i)"
    "step_status s' = (if r1 = 0 then SAGA_STEP_COMPLETED else SAGA_STEP_FAILED)" "attempts (budget (ss ! i)) i r1 t1" by (auto simp: i(3))
  show ?case
  proof (cases "r1 = 0")
    case False
    obtain s2 w2 comps where c: "saga_orch_compensate call s1 w1 (int i) = (s2, w2, comps)" by (rule prod_cases3)
    with Suc(3) up e False have out: "saga' = s2" "w' = w2" "r = r1" "tr = concat [] @ t1 @ comps" by simp_all
    show ?thesis using out c False s' i Suc(4) by (intro disjI2 conjI exI [of _ i] exI [of _ "[]"] exI [of _ t1] exI [of _ comps]
      exI [of _ s1] exI [of _ w1] exI [of _ "steps saga"] exI [of _ s']) simp_all
  next
    case True
    obtain s2 w2 r2 t2 where rec: "exec_loop call s1 w1 [int (Suc i) .. int n - 1] = (s2, w2, r2, t2)" by (rule prod_cases4)
    with Suc(3) up e True have out: "saga' = s2" "w' = w2" "r = r2" "tr = t1 @ t2" by simp_all
    have p: "progressed ss (Suc i) (steps s1)" using progressed_Suc [OF Suc(4)] s' i(1) Suc(5) True by simp
    have m: "m = n - Suc i" "Suc i \<le> n" using Suc(2) i(1) by simp_all
    note IH = Suc(1) [OF m(1) rec [folded out(1-3)] p Suc(5) m(2)]
    have t1: "attempts (budget (ss ! i)) i 0 t1" using s'(4) True by simp
    show ?thesis
    proof (cases "r = 0")
      case True
      with IH obtain trs where "saga_status saga' = SAGA_STATUS_COMPLETED" "progressed ss n (steps saga')"
        "t2 = concat trs" "length trs = n - Suc i" "runs ss (Suc i) trs" by auto
      with True out t1 i(1) show ?thesis by (intro disjI1 conjI exI [of _ "t1 # trs"]) simp_all
    next
      case False
      with IH obtain k trs t comps saga1 w3 ss1 s3 where
        k: "Suc i \<le> k" "k < n" "t2 = concat trs @ t @ comps" "length trs = k - Suc i" "runs ss (Suc i) trs"
           "attempts (budget (ss ! k)) k r t" "progressed ss k ss1" "steps saga1 = ss1[k := s3]" "step_status s3 = SAGA_STEP_FAILED"
           "saga_orch_compensate call saga1 w3 (int k) = (saga', w', comps)" by auto
      show ?thesis using k False out t1 by (intro disjI2 conjI exI [of _ k] exI [of _ "t1 # trs"] exI [of _ t] exI [of _ comps]
        exI [of _ saga1] exI [of _ w3] exI [of _ ss1] exI [of _ s3]) simp_all
    qed
  qed
qed

text \<open>The steps below the failed one that have a compensation, last first.\<close>

definition compensable :: "'f SagaStep list \<Rightarrow> nat \<Rightarrow> nat list" where
  "compensable ss k = rev (filter (\<lambda>j. compensate (ss ! j) \<noteq> None) [0..<k])"

lemma to_undo_failed:
  assumes "progressed ss k ss1" "k < length ss" "step_status s' = SAGA_STEP_FAILED"
  shows "to_undo (ss1[k := s']) (Suc k) = compensable ss k"
proof -
  have "length ss1 = length ss" using assms(1) by (simp add: progressed_def)
  then have "to_undo (ss1[k := s']) (Suc k) = to_undo ss1 k"
    using assms(2,3) to_undo_cong [of k "ss1[k := s']" ss1] by (simp add: to_undo_Suc)
  also have "\<dots> = compensable ss k" using assms(1,2)
    unfolding to_undo_def compensable_def by (intro arg_cong [of _ _ rev] filter_cong) (auto simp: progressed_def)
  finally show ?thesis .
qed

text \<open>C16. A saga that is new, or is resumed after its first \<open>i\<close> steps were completed, ends in one of two ways.  Either the result is 0, every
  remaining step was run in order to success within its retries, nothing was compensated, and the saga is completed.  Or the result is not 0
  and the action of some step \<open>k\<close> failed in all its attempts, after each remaining step before it was run to success: then the compensations
  of all the steps before \<open>k\<close> that have one were called, once each, last step first, after all actions; step \<open>k\<close> is marked as failed, each
  compensated step as compensated exactly if its compensation returned 0, and the later steps are untouched.  The saga itself is then
  always marked as compensated, also when a compensation failed or a step has none, where the documentation says failed.\<close>

theorem saga_completes_or_compensates:
  assumes "current_step saga = int i" "i \<le> length (steps saga)" "\<forall>j < i. step_status (steps saga ! j) = SAGA_STEP_COMPLETED"
    and "saga_orch_execute call saga w = (saga', w', r, tr)"
  shows "(r = 0 \<and> saga_status saga' = SAGA_STATUS_COMPLETED \<and> progressed (steps saga) (length (steps saga)) (steps saga')
            \<and> (\<exists>trs. tr = concat trs \<and> length trs = length (steps saga) - i \<and> runs (steps saga) i trs))
       \<or> (r \<noteq> 0 \<and> saga_status saga' = SAGA_STATUS_COMPENSATED \<and> (\<exists>k trs t comps. i \<le> k \<and> k < length (steps saga)
            \<and> tr = concat trs @ t @ comps \<and> length trs = k - i \<and> runs (steps saga) i trs \<and> attempts (budget (steps saga ! k)) k r t
            \<and> (\<forall>c \<in> set comps. is_Comp c) \<and> map call_step comps = compensable (steps saga) k
            \<and> step_status (steps saga' ! k) = SAGA_STEP_FAILED
            \<and> (\<forall>j < k. step_status (steps saga' ! j) =
                 (if compensate (steps saga ! j) = None then SAGA_STEP_COMPLETED
                  else if Comp j 0 \<in> set comps then SAGA_STEP_COMPENSATED else SAGA_STEP_COMPENSATING))
            \<and> (\<forall>j < length (steps saga). k < j \<longrightarrow> steps saga' ! j = steps saga ! j)))"
proof -
  have p: "progressed (steps saga) i (steps saga)" using assms(3) by (simp add: progressed_def)
  have e: "exec_loop call saga w [int i .. int (length (steps saga)) - 1] = (saga', w', r, tr)"
    using assms by (simp add: saga_orch_execute_def)
  show ?thesis
  proof (cases "r = 0")
    case True
    then show ?thesis using exec_loop_run [OF e p refl assms(2)] by auto
  next
    case False
    with exec_loop_run [OF e p refl assms(2)] obtain k trs t comps saga1 w1 ss1 s1 where
      k: "k < length (steps saga)" "i \<le> k" "tr = concat trs @ t @ comps" "length trs = k - i" "runs (steps saga) i trs"
        "attempts (budget (steps saga ! k)) k r t" and
      s1: "progressed (steps saga) k ss1" "steps saga1 = ss1[k := s1]" "step_status s1 = SAGA_STEP_FAILED" and
      c: "saga_orch_compensate call saga1 w1 (int k) = (saga', w', comps)" by auto
    have len: "length ss1 = length (steps saga)" using s1(1) by (simp add: progressed_def)
    note u = to_undo_failed [OF s1(1) k(1) s1(3), folded s1(2)]
    have "saga_status saga' = SAGA_STATUS_COMPENSATED" and rb: "rolled_back (steps saga1) (Suc k) (steps saga') comps"
      using compensate_run [OF c] k(1) len s1(2) by simp_all
    have j: "if j \<in> set (compensable (steps saga) k)
          then step_status (steps saga' ! j) = (if Comp j 0 \<in> set comps then SAGA_STEP_COMPENSATED else SAGA_STEP_COMPENSATING)
          else steps saga' ! j = ss1[k := s1] ! j" if "j < length (steps saga)" for j
      using rb that len s1(2) unfolding rolled_back_def u by simp
    have pr: "if j < k then step_status (ss1 ! j) = SAGA_STEP_COMPLETED else ss1 ! j = steps saga ! j" if "j < length (steps saga)" for j
      using s1(1) that by (simp add: progressed_def)
    have "step_status (steps saga' ! k) = SAGA_STEP_FAILED" using j [OF k(1)] k(1) len s1(3) by (simp add: compensable_def)
    moreover have "step_status (steps saga' ! j) = (if compensate (steps saga ! j) = None then SAGA_STEP_COMPLETED
                  else if Comp j 0 \<in> set comps then SAGA_STEP_COMPENSATED else SAGA_STEP_COMPENSATING)" if "j < k" for j
      using j [of j] pr [of j] that k(1) by (auto simp: compensable_def split: if_splits)
    moreover have "steps saga' ! j = steps saga ! j" if "j < length (steps saga)" "k < j" for j
      using j [of j] pr [of j] that by (simp add: compensable_def)
    moreover have "\<forall>c \<in> set comps. is_Comp c" "map call_step comps = compensable (steps saga) k" using rb unfolding rolled_back_def u by simp_all
    ultimately show ?thesis using False k \<open>saga_status saga' = _\<close> by blast
  qed
qed

text \<open>The third of three steps fails: it is tried again once, and then the second and the first are compensated; the compensation of the
  first fails and is not tried again, although it has retries left.\<close>

definition demo_call :: "(nat, unit, nat) callee" where
  "demo_call f ctx d w = (if f = 2 \<or> f = 10 then -1 else 0, d, Suc w)"

definition demo_saga :: "(nat, unit) SagaInstance" where
  "demo_saga = fst (saga_orch_add_steps \<lparr>saga_id = ''S1'', saga_name = ''demo'', steps = [], current_step = 0,
     saga_status = SAGA_STATUS_RUNNING, saga_data = (), saga_data_size = 0, is_orchestrated = True\<rparr>
     [saga_step_create ''a'' 0 (Some 10) 0 5, saga_step_create ''b'' 1 (Some 11) 0 0, saga_step_create ''c'' 2 (Some 12) 0 1])"

lemma demo_run: "snd (saga_orch_execute demo_call demo_saga 0) =
    (6, -1, [Exec 0 0, Exec 1 0, Exec 2 (-1), Exec 2 (-1), Comp 1 0, Comp 0 (-1)])"
  by code_simp

theorem saga_completes_or_compensates_witness:
  "current_step demo_saga = 0 \<and> snd (snd (snd (saga_orch_execute demo_call demo_saga 0))) =
      [Exec 0 0, Exec 1 0, Exec 2 (-1), Exec 2 (-1), Comp 1 0, Comp 0 (-1)]
   \<and> saga_status (fst (saga_orch_execute demo_call demo_saga 0)) = SAGA_STATUS_COMPENSATED"
proof -
  have c: "current_step demo_saga = 0" by code_simp
  moreover have "saga_orch_execute demo_call demo_saga 0 = (fst (saga_orch_execute demo_call demo_saga 0),
      6, -1, [Exec 0 0, Exec 1 0, Exec 2 (-1), Exec 2 (-1), Comp 1 0, Comp 0 (-1)])" using demo_run by (metis prod.collapse)
  ultimately show ?thesis using saga_completes_or_compensates [of demo_saga 0 demo_call 0] demo_run c by fastforce
qed

section \<open>The orchestrator\<close>

lemma exec_loop_terminal: "exec_loop call saga w is = (saga', w', r, tr) \<Longrightarrow> saga_is_terminal saga'"
  by (induction "is" arbitrary: saga w tr) (auto simp: saga_is_terminal_def saga_orch_compensate_def Let_def split: prod.splits if_splits)

lemma tick_loop_run:
  "tick_loop call sagas w = (sagas', w', trs) \<Longrightarrow>
   (\<forall>s \<in> set sagas'. saga_is_terminal s) \<and> length sagas' = length sagas \<and> length trs = length sagas
   \<and> (\<forall>i < length sagas. if saga_is_terminal (sagas ! i) then sagas' ! i = sagas ! i \<and> trs ! i = []
        else \<exists>v v' r. saga_orch_execute call (sagas ! i) v = (sagas' ! i, v', r, trs ! i))"
proof (induction sagas arbitrary: w sagas' trs)
  case (Cons s rest)
  show ?case
  proof (cases "saga_is_terminal s")
    case True
    then obtain rest' trs' where "tick_loop call rest w = (rest', w', trs')" "sagas' = s # rest'" "trs = [] # trs'"
      using Cons(2) by (auto split: prod.splits)
    then show ?thesis using Cons(1) True by (auto simp: nth_Cons split: nat.split)
  next
    case False
    obtain s' w1 r tr where e: "saga_orch_execute call s w = (s', w1, r, tr)" by (rule prod_cases4)
    then obtain rest' trs' where t: "tick_loop call rest w1 = (rest', w', trs')" "sagas' = s' # rest'" "trs = tr # trs'"
      using Cons(2) False by (auto split: prod.splits)
    have "saga_is_terminal s'" using e exec_loop_terminal by (auto simp: saga_orch_execute_def)
    moreover have "\<exists>v v' r. saga_orch_execute call s v = (s', v', r, tr)" using e by blast
    ultimately show ?thesis using Cons(1) [OF t(1)] t False by (auto simp: nth_Cons split: nat.split)
  qed
qed simp

lemma tick_loop_idle:
  "(\<forall>s \<in> set sagas. saga_is_terminal s) \<Longrightarrow> tick_loop call sagas w = (sagas, w, replicate (length sagas) [])"
  by (induction sagas) simp_all

text \<open>C30. One tick of the orchestrator ends every saga, where the documentation says that it runs the next step of each: afterwards each saga is terminal, a saga that was terminal before is unchanged
  and none of its functions was called, every other one was executed, and a second tick calls nothing and changes nothing.\<close>

theorem saga_tick_ends_all:
  assumes "saga_orchestrator_tick call orch w = (orch', w', trs)"
  shows "(\<forall>s \<in> set (active_sagas orch'). saga_is_terminal s) \<and> length (active_sagas orch') = length (active_sagas orch)
    \<and> (\<forall>i < length (active_sagas orch). if saga_is_terminal (active_sagas orch ! i)
         then active_sagas orch' ! i = active_sagas orch ! i \<and> trs ! i = []
         else \<exists>v v' r. saga_orch_execute call (active_sagas orch ! i) v = (active_sagas orch' ! i, v', r, trs ! i))
    \<and> saga_orchestrator_tick call orch' v = (orch', v, replicate (length (active_sagas orch)) [])"
proof -
  obtain sagas where t: "tick_loop call (active_sagas orch) w = (sagas, w', trs)" "orch' = orch\<lparr>active_sagas := sagas\<rparr>"
    using assms by (auto simp: saga_orchestrator_tick_def split: prod.splits)
  then show ?thesis using tick_loop_run [OF t(1)] tick_loop_idle [of sagas call v] by (simp add: saga_orchestrator_tick_def)
qed

definition demo_orch :: "(nat, unit) SagaOrchestrator" where
  "demo_orch = fst (saga_orchestrator_enqueue (fst (saga_orchestrator_enqueue saga_orchestrator_create demo_saga))
     (demo_saga\<lparr>saga_status := SAGA_STATUS_COMPLETED\<rparr>))"

theorem saga_tick_ends_all_witness:
  "\<exists>orch' w' trs. saga_orchestrator_tick demo_call demo_orch 0 = (orch', w', trs) \<and> trs ! 0 \<noteq> [] \<and> trs ! 1 = []
     \<and> (\<forall>s \<in> set (active_sagas orch'). saga_is_terminal s) \<and> saga_orchestrator_tick demo_call orch' w' = (orch', w', [[], []])"
proof -
  obtain orch' w' trs where t: "saga_orchestrator_tick demo_call demo_orch 0 = (orch', w', trs)" by (rule prod_cases3)
  have "snd (snd (saga_orchestrator_tick demo_call demo_orch 0)) ! 0 \<noteq> []" by code_simp
  moreover have "snd (snd (saga_orchestrator_tick demo_call demo_orch 0)) ! 1 = []" by code_simp
  moreover have "length (active_sagas demo_orch) = 2" by code_simp
  ultimately show ?thesis using t saga_tick_ends_all [OF t, of w'] by (simp add: numeral_2_eq_2)
qed

section \<open>The order saga and the bus\<close>

lemma execute_step_ok:
  assumes "0 \<le> index" "index < int (length (steps saga))"
    "call (execute (steps saga ! nat index)) (context_ptr (steps saga ! nat index)) (saga_data saga) w = (0, d, w1)"
  shows "saga_orch_execute_step call saga w index =
    ((on_step (nat index) (saga_step_set_status SAGA_STEP_COMPLETED) (attempted (nat index) d saga))\<lparr>current_step := index + 1\<rparr>, w1, 0,
     [Exec (nat index) 0])"
  using execute_step_unfold [of "nat index" saga call w 0 d w1] assms by (simp add: nat_less_iff)

text \<open>The order saga runs its four steps once each and completes.\<close>

lemma order_saga_completes:
  "\<exists>saga'. saga_orch_execute order_call (saga_create_order_saga now rv ord cust amt cur orch) w =
     (saga', w, 0, [Exec 0 0, Exec 1 0, Exec 2 0, Exec 3 0]) \<and> saga_status saga' = SAGA_STATUS_COMPLETED"
proof -
  let ?saga = "saga_create_order_saga now rv ord cust amt cur orch"
  have n: "length (steps ?saga) = 4" "current_step ?saga = 0"
    by (simp_all add: saga_create_order_saga_def saga_orch_create_def saga_orch_add_step_def SAGA_MAX_STEPS_def Let_def)
  have "[0 .. 3] = [0, 1, 2, 3 :: int]" by code_simp
  then show ?thesis using n by (simp add: saga_orch_execute_def execute_step_ok order_call_def attempted_steps)
qed

lemma deliver_mem:
  "(h, ctx, ev') \<in> set (deliver ss ev) \<longleftrightarrow>
     ev' = ev \<and> (\<exists>s \<in> set ss. service_name s = ev_service_name ev \<and> on_event s = Some h \<and> service_context s = ctx)"
proof (induction ss)
  case (Cons s ss)
  have "(h, ctx, ev') \<in> set (deliver (s # ss) ev) \<longleftrightarrow>
      (ev' = ev \<and> service_name s = ev_service_name ev \<and> on_event s = Some h \<and> service_context s = ctx) \<or> (h, ctx, ev') \<in> set (deliver ss ev)"
    by (cases "on_event s"; cases "service_name s = ev_service_name ev") (simp_all add: conj_ac eq_commute)
  then show ?case unfolding Cons by (simp only: list.set bex_simps) blast
qed simp

lemma deliver_events:
  "map (\<lambda>(_, _, ev). ev) (deliver ss ev) =
     replicate (length (filter (\<lambda>s. service_name s = ev_service_name ev \<and> on_event s \<noteq> None) ss)) ev"
  by (induction ss) (auto split: option.split)

text \<open>A dispatch calls, for each pending event in the order of publication, the handlers of exactly the services with the name the
  event carries, and leaves no event pending.  The events for a started saga and for a triggered compensation carry no service name: no
  service with a name gets them, and the dispatch discards them.\<close>

theorem choreography_dispatch_exact:
  assumes "choreography_bus_dispatch_pending bus = (bus', calls, r)"
  shows "event_log bus' = [] \<and> services bus' = services bus
    \<and> map (\<lambda>(_, _, ev). ev) calls = concat (map (\<lambda>ev. replicate (length (filter (\<lambda>s. service_name s = ev_service_name ev \<and> on_event s \<noteq> None)
         (services bus))) ev) (event_log bus))
    \<and> (\<forall>h ctx ev. (h, ctx, ev) \<in> set calls \<longleftrightarrow> ev \<in> set (event_log bus)
         \<and> (\<exists>s \<in> set (services bus). service_name s = ev_service_name ev \<and> on_event s = Some h \<and> service_context s = ctx))
    \<and> ((\<forall>s \<in> set (services bus). service_name s \<noteq> []) \<longrightarrow>
         (\<forall>h ctx sid step. (h, ctx, ch_event_started sid step) \<notin> set calls \<and> (h, ctx, ch_event_compensation_needed sid step) \<notin> set calls))"
proof -
  have c: "bus' = bus\<lparr>event_log := []\<rparr>" "calls = concat (map (deliver (services bus)) (event_log bus))"
    using assms by (simp_all add: choreography_bus_dispatch_pending_def)
  have mem: "(h, ctx, ev) \<in> set calls \<longleftrightarrow> ev \<in> set (event_log bus)
      \<and> (\<exists>s \<in> set (services bus). service_name s = ev_service_name ev \<and> on_event s = Some h \<and> service_context s = ctx)" for h ctx ev
    by (auto simp: c deliver_mem)
  moreover have "map (\<lambda>(_, _, ev). ev) calls = concat (map (\<lambda>ev. replicate (length (filter (\<lambda>s. service_name s = ev_service_name ev
      \<and> on_event s \<noteq> None) (services bus))) ev) (event_log bus))"
    by (simp add: c map_concat o_def deliver_events)
  moreover have "ev_service_name (ch_event_started sid step) = []" "ev_service_name (ch_event_compensation_needed sid step) = []" for sid step
    by (simp_all add: ch_event_started_def ch_event_compensation_needed_def zero_event_def)
  ultimately show ?thesis using c(1) by auto
qed

definition demo_bus :: "(nat, nat) ChoreographyBus" where
  "demo_bus = fst (choreography_bus_publish (fst (choreography_bus_publish (fst (choreography_bus_register_service choreography_bus_create
     \<lparr>service_name = ''pay'', service_context = 7, on_event = Some 3, known_steps = []\<rparr>)) (ch_event_started ''S1'' ''a'')))
     (ch_event_completed ''S1'' ''a'' ''pay''))"

theorem choreography_dispatch_exact_witness:
  "\<exists>bus' calls r. choreography_bus_dispatch_pending demo_bus = (bus', calls, r) \<and> (3, 7, ch_event_completed ''S1'' ''a'' ''pay'') \<in> set calls
     \<and> (3, 7, ch_event_started ''S1'' ''a'') \<notin> set calls \<and> ch_event_started ''S1'' ''a'' \<in> set (event_log demo_bus)"
proof -
  obtain bus' calls r where t: "choreography_bus_dispatch_pending demo_bus = (bus', calls, r)" by (rule prod_cases3)
  have "services demo_bus = [\<lparr>service_name = ''pay'', service_context = 7, on_event = Some 3, known_steps = []\<rparr>]"
    "event_log demo_bus = [ch_event_started ''S1'' ''a'', ch_event_completed ''S1'' ''a'' ''pay'']"
    by (simp_all add: demo_bus_def choreography_bus_publish_def choreography_bus_register_service_def choreography_bus_create_def Let_def)
  moreover have "ev_service_name (ch_event_completed ''S1'' ''a'' ''pay'') = ''pay''"
    "ev_service_name (ch_event_started ''S1'' ''a'') = []"
    by (simp_all add: ch_event_completed_def ch_event_started_def zero_event_def SAGA_NAME_LEN_def)
  ultimately show ?thesis using t choreography_dispatch_exact [OF t] by auto
qed

end
