(* ===== verification/Lru_Cache.thy ===== *)
theory Lru_Cache
  imports C_Text Float64 "HOL-Library.Monad_Syntax"
begin

text \<open>
  The cache of \<open>src/mini-backend-framework/src/cache.c\<close>: entries in a doubly linked list by recency and in hash chains, with a time to live.

  The entries live in a store from addresses to entries, and an operation on an address that holds no entry gives \<open>None\<close>, as does a
  loop that does not end; so a result \<open>Some\<close> says that the operation returned without touching memory it does not own.  The allocator is a
  parameter that chooses an address from the store, 0 if it fails.  A reading of the clock is an argument; the scan of all entries, which
  reads the clock for each, gets the readings by the key of the entry.  Strings have no zero bytes.
\<close>

section \<open>Data\<close>

definition CACHE_MAX_KEY_LEN :: nat where "CACHE_MAX_KEY_LEN = 128"
definition CACHE_MAX_VALUE_LEN :: nat where "CACHE_MAX_VALUE_LEN = 1024"
definition CACHE_HASH_SIZE :: nat where "CACHE_HASH_SIZE = 256"

record timespec =
  tv_sec :: int
  tv_nsec :: int

record CacheEntry =
  ce_key :: string
  ce_value :: string
  value_len :: nat
  ce_created_at :: timespec
  ttl_sec :: int
  ce_prev :: ptr
  ce_next :: ptr
  hash_next :: ptr

record LRUCache =
  lc_head :: ptr
  lc_tail :: ptr
  lc_hash :: "ptr list"
  lc_capacity :: int
  lc_size :: int
  lc_hits :: int
  lc_misses :: int
  lc_evictions :: int
  default_ttl :: int

type_synonym heap = "ptr \<rightharpoonup> CacheEntry"
type_synonym lru = "heap \<times> LRUCache"

definition deref :: "heap \<Rightarrow> ptr \<Rightarrow> CacheEntry option" where
  "deref h p = (if p = NULL then None else h p)"

definition upd :: "heap \<Rightarrow> ptr \<Rightarrow> (CacheEntry \<Rightarrow> CacheEntry) \<Rightarrow> heap option" where
  "upd h p f = do { e \<leftarrow> deref h p; Some (h(p \<mapsto> f e)) }"

definition free_entry :: "heap \<Rightarrow> ptr \<Rightarrow> heap option" where
  "free_entry h p = do { e \<leftarrow> deref h p; Some (h(p := None)) }"

section \<open>Helpers\<close>

definition hash_djb2 :: "string \<Rightarrow> u64" where
  "hash_djb2 s = foldl (\<lambda>hash c. (push_bit 5 hash + hash) + of_nat (of_char c)) 5381 s"

definition bucket :: "string \<Rightarrow> nat" where
  "bucket s = unat (hash_djb2 s mod of_nat CACHE_HASH_SIZE)"

definition entry_expired :: "timespec \<Rightarrow> CacheEntry \<Rightarrow> bool" where
  "entry_expired now e =
     (if ttl_sec e \<le> 0 then False
      else let age = of_c_int (tv_sec now - tv_sec (ce_created_at e));
               age' = fadd age (fl (of_c_int (tv_nsec now - tv_nsec (ce_created_at e)) / 10 ^ 9))
           in age' \<ge> of_c_int (ttl_sec e))"

text \<open>The two statements of \<open>detach_node\<close> that let the neighbours point past the entry.\<close>

definition unlink_left :: "lru \<Rightarrow> CacheEntry \<Rightarrow> lru option" where
  "unlink_left = (\<lambda>(h, c) e.
     if ce_prev e \<noteq> NULL then do { h' \<leftarrow> upd h (ce_prev e) (\<lambda>x. x\<lparr>ce_next := ce_next e\<rparr>); Some (h', c) }
     else Some (h, c\<lparr>lc_head := ce_next e\<rparr>))"

definition unlink_right :: "lru \<Rightarrow> CacheEntry \<Rightarrow> lru option" where
  "unlink_right = (\<lambda>(h, c) e.
     if ce_next e \<noteq> NULL then do { h' \<leftarrow> upd h (ce_next e) (\<lambda>x. x\<lparr>ce_prev := ce_prev e\<rparr>); Some (h', c) }
     else Some (h, c\<lparr>lc_tail := ce_prev e\<rparr>))"

definition detach_node :: "lru \<Rightarrow> ptr \<Rightarrow> lru option" where
  "detach_node = (\<lambda>(h, c) p. do {
     e \<leftarrow> deref h p;
     (h1, c1) \<leftarrow> unlink_left (h, c) e;
     e1 \<leftarrow> deref h1 p;
     (h2, c2) \<leftarrow> unlink_right (h1, c1) e1;
     h3 \<leftarrow> upd h2 p (\<lambda>x. x\<lparr>ce_prev := NULL, ce_next := NULL\<rparr>);
     Some (h3, c2) })"

text \<open>The end of \<open>move_to_head\<close> and of an insertion: the entry becomes the head.\<close>

definition push_head :: "lru \<Rightarrow> ptr \<Rightarrow> lru option" where
  "push_head = (\<lambda>(h, c) p. do {
     h1 \<leftarrow> upd h p (\<lambda>x. x\<lparr>ce_next := lc_head c\<rparr>);
     h2 \<leftarrow> (if lc_head c \<noteq> NULL then upd h1 (lc_head c) (\<lambda>x. x\<lparr>ce_prev := p\<rparr>) else Some h1);
     let c1 = c\<lparr>lc_head := p\<rparr>;
     Some (h2, if lc_tail c1 = NULL then c1\<lparr>lc_tail := p\<rparr> else c1) })"

definition move_to_head :: "lru \<Rightarrow> ptr \<Rightarrow> lru option" where
  "move_to_head = (\<lambda>(h, c) p.
     if lc_head c = p then Some (h, c)
     else do { (h1, c1) \<leftarrow> detach_node (h, c) p; h2 \<leftarrow> upd h1 p (\<lambda>x. x\<lparr>ce_prev := NULL\<rparr>); push_head (h2, c1) p })"

text \<open>The pointer to a pointer of \<open>hash_remove\<close> points to a bucket or into an entry.\<close>

datatype loc = Bucket nat | Hash_next ptr

fun read_loc :: "lru \<Rightarrow> loc \<Rightarrow> ptr option" where
  "read_loc (h, c) (Bucket b) = Some (lc_hash c ! b)"
| "read_loc (h, c) (Hash_next p) = do { e \<leftarrow> deref h p; Some (hash_next e) }"

fun write_loc :: "lru \<Rightarrow> loc \<Rightarrow> ptr \<Rightarrow> lru option" where
  "write_loc (h, c) (Bucket b) q = Some (h, c\<lparr>lc_hash := (lc_hash c)[b := q]\<rparr>)"
| "write_loc (h, c) (Hash_next p) q = do { h' \<leftarrow> upd h p (\<lambda>x. x\<lparr>hash_next := q\<rparr>); Some (h', c) }"

partial_function (option) remove_loop :: "lru \<Rightarrow> loc \<Rightarrow> ptr \<Rightarrow> lru option" where
  "remove_loop s pp p =
     Option.bind (read_loc s pp) (\<lambda>q.
       if q = NULL then Some s
       else if q = p then Option.bind (deref (fst s) p) (\<lambda>e. write_loc s pp (hash_next e))
       else remove_loop s (Hash_next q) p)"

definition hash_remove :: "lru \<Rightarrow> ptr \<Rightarrow> lru option" where
  "hash_remove s p = do { e \<leftarrow> deref (fst s) p; remove_loop s (Bucket (bucket (ce_key e))) p }"

definition hash_insert :: "lru \<Rightarrow> ptr \<Rightarrow> lru option" where
  "hash_insert = (\<lambda>(h, c) p. do {
     e \<leftarrow> deref h p;
     let b = bucket (ce_key e);
     h' \<leftarrow> upd h p (\<lambda>x. x\<lparr>hash_next := lc_hash c ! b\<rparr>);
     Some (h', c\<lparr>lc_hash := (lc_hash c)[b := p]\<rparr>) })"

partial_function (option) find_loop :: "heap \<Rightarrow> ptr \<Rightarrow> string \<Rightarrow> ptr option" where
  "find_loop h p k =
     (if p = NULL then Some NULL
      else Option.bind (deref h p) (\<lambda>e. if ce_key e = k then Some p else find_loop h (hash_next e) k))"

definition hash_find :: "lru \<Rightarrow> string \<Rightarrow> ptr option" where
  "hash_find = (\<lambda>(h, c) k. find_loop h (lc_hash c ! bucket k) k)"

section \<open>Operations\<close>

definition cache_init :: "int \<Rightarrow> int \<Rightarrow> LRUCache" where
  "cache_init capacity ttl =
     \<lparr>lc_head = NULL, lc_tail = NULL, lc_hash = replicate CACHE_HASH_SIZE NULL, lc_capacity = (if capacity > 0 then capacity else 64),
      lc_size = 0, lc_hits = 0, lc_misses = 0, lc_evictions = 0, default_ttl = (if ttl \<ge> 0 then ttl else 0)\<rparr>"

definition cache_get :: "timespec \<Rightarrow> lru \<Rightarrow> string \<Rightarrow> (lru \<times> string option) option" where
  "cache_get now = (\<lambda>(h, c) k. do {
     p \<leftarrow> hash_find (h, c) k;
     if p = NULL then Some ((h, c\<lparr>lc_misses := lc_misses c + 1\<rparr>), None)
     else do {
       e \<leftarrow> deref h p;
       if entry_expired now e then do {
         s1 \<leftarrow> detach_node (h, c) p;
         (h2, c2) \<leftarrow> hash_remove s1 p;
         h3 \<leftarrow> free_entry h2 p;
         Some ((h3, c2\<lparr>lc_size := lc_size c2 - 1, lc_evictions := lc_evictions c2 + 1, lc_misses := lc_misses c2 + 1\<rparr>), None) }
       else do {
         (h1, c1) \<leftarrow> move_to_head (h, c) p;
         e1 \<leftarrow> deref h1 p;
         Some ((h1, c1\<lparr>lc_hits := lc_hits c1 + 1\<rparr>), Some (ce_value e1)) } } })"

definition cache_evict_lru :: "lru \<Rightarrow> (lru \<times> int) option" where
  "cache_evict_lru = (\<lambda>(h, c).
     if lc_tail c = NULL then Some ((h, c), -1)
     else do {
       let p = lc_tail c;
       s1 \<leftarrow> detach_node (h, c) p;
       (h2, c2) \<leftarrow> hash_remove s1 p;
       h3 \<leftarrow> free_entry h2 p;
       Some ((h3, c2\<lparr>lc_size := lc_size c2 - 1, lc_evictions := lc_evictions c2 + 1\<rparr>), 0) })"

definition store_value :: "timespec \<Rightarrow> int \<Rightarrow> string \<Rightarrow> CacheEntry \<Rightarrow> CacheEntry" where
  "store_value now ttl v e =
     (let val_len = (if length v \<ge> CACHE_MAX_VALUE_LEN then CACHE_MAX_VALUE_LEN - 1 else length v)
      in e\<lparr>ce_value := take val_len v, value_len := val_len, ttl_sec := ttl, ce_created_at := now\<rparr>)"

definition zero_entry :: CacheEntry where
  "zero_entry = \<lparr>ce_key = [], ce_value = [], value_len = 0, ce_created_at = \<lparr>tv_sec = 0, tv_nsec = 0\<rparr>, ttl_sec = 0, ce_prev = NULL,
     ce_next = NULL, hash_next = NULL\<rparr>"

definition cache_put :: "(heap \<Rightarrow> ptr) \<Rightarrow> timespec \<Rightarrow> lru \<Rightarrow> string \<Rightarrow> string \<Rightarrow> int \<Rightarrow> (lru \<times> int) option" where
  "cache_put alloc now = (\<lambda>(h, c) k v ttl. do {
     p \<leftarrow> hash_find (h, c) k;
     let t = (if ttl > 0 then ttl else default_ttl c);
     if p \<noteq> NULL then do {
       h1 \<leftarrow> upd h p (store_value now t v);
       s2 \<leftarrow> move_to_head (h1, c) p;
       Some (s2, 0) }
     else do {
       ((h1, c1), _) \<leftarrow> (if lc_size c \<ge> lc_capacity c then cache_evict_lru (h, c) else Some ((h, c), 0));
       let q = alloc h1;
       if q = NULL then Some ((h1, c1), -1)
       else do {
         s2 \<leftarrow> push_head (h1(q \<mapsto> store_value now t v (zero_entry\<lparr>ce_key := strncpy_buf CACHE_MAX_KEY_LEN k\<rparr>)), c1) q;
         (h3, c3) \<leftarrow> hash_insert s2 q;
         Some ((h3, c3\<lparr>lc_size := lc_size c3 + 1\<rparr>), 0) } } })"

definition cache_delete :: "lru \<Rightarrow> string \<Rightarrow> (lru \<times> int) option" where
  "cache_delete = (\<lambda>(h, c) k. do {
     p \<leftarrow> hash_find (h, c) k;
     if p = NULL then Some ((h, c), -1)
     else do {
       s1 \<leftarrow> detach_node (h, c) p;
       (h2, c2) \<leftarrow> hash_remove s1 p;
       h3 \<leftarrow> free_entry h2 p;
       Some ((h3, c2\<lparr>lc_size := lc_size c2 - 1\<rparr>), 0) } })"

definition cache_has :: "timespec \<Rightarrow> lru \<Rightarrow> string \<Rightarrow> bool option" where
  "cache_has now = (\<lambda>(h, c) k. do {
     p \<leftarrow> hash_find (h, c) k;
     if p = NULL then Some False else do { e \<leftarrow> deref h p; Some (\<not> entry_expired now e) } })"

partial_function (option) expire_loop :: "(string \<Rightarrow> timespec) \<Rightarrow> lru \<Rightarrow> ptr \<Rightarrow> int \<Rightarrow> (lru \<times> int) option" where
  "expire_loop now s p n =
     (if p = NULL then Some (s, n)
      else Option.bind (deref (fst s) p) (\<lambda>e.
        if entry_expired (now (ce_key e)) e then
          Option.bind (hash_remove s p) (\<lambda>s1.
          Option.bind (detach_node s1 p) (\<lambda>s2.
          Option.bind (free_entry (fst s2) p) (\<lambda>h3.
            expire_loop now (h3, (snd s2)\<lparr>lc_size := lc_size (snd s2) - 1, lc_evictions := lc_evictions (snd s2) + 1\<rparr>) (ce_prev e) (n + 1))))
        else expire_loop now s (ce_prev e) n))"

definition cache_evict_expired :: "(string \<Rightarrow> timespec) \<Rightarrow> lru \<Rightarrow> (lru \<times> int) option" where
  "cache_evict_expired now s = expire_loop now s (lc_tail (snd s)) 0"

definition cache_size :: "LRUCache \<Rightarrow> int" where
  "cache_size c = lc_size c"

partial_function (option) clear_loop :: "heap \<Rightarrow> ptr \<Rightarrow> heap option" where
  "clear_loop h p =
     (if p = NULL then Some h
      else Option.bind (deref h p) (\<lambda>e. Option.bind (free_entry h p) (\<lambda>h1. clear_loop h1 (ce_next e))))"

definition cache_clear :: "lru \<Rightarrow> lru option" where
  "cache_clear = (\<lambda>(h, c). do {
     h1 \<leftarrow> clear_loop h (lc_head c);
     Some (h1, c\<lparr>lc_head := NULL, lc_tail := NULL, lc_size := 0, lc_hash := replicate CACHE_HASH_SIZE NULL\<rparr>) })"

definition cache_destroy :: "lru \<Rightarrow> lru option" where
  "cache_destroy s = do { (h, c) \<leftarrow> cache_clear s; Some (h, c\<lparr>lc_capacity := 0\<rparr>) }"

definition cache_hit_rate :: "LRUCache \<Rightarrow> double" where
  "cache_hit_rate c =
     (let total = lc_hits c + lc_misses c
      in if total = 0 then 0 else fl (of_c_int (lc_hits c) / of_c_int total))"

definition cache_hits :: "LRUCache \<Rightarrow> int" where "cache_hits c = lc_hits c"
definition cache_misses :: "LRUCache \<Rightarrow> int" where "cache_misses c = lc_misses c"
definition cache_evictions :: "LRUCache \<Rightarrow> int" where "cache_evictions c = lc_evictions c"

end
