(* ===== verification/Lru_Refine.thy ===== *)
theory Lru_Refine
  imports Lru_Cache
begin

text \<open>
  The cache of \<open>cache.c\<close> refines a list of entries by recency.  The store represents the list when the links of the entries form a doubly
  linked list, the chains partition its entries by hash, and nothing else is allocated.
\<close>

section \<open>Views of the store\<close>

definition datum :: "CacheEntry \<Rightarrow> string \<times> string \<times> timespec \<times> int" where
  "datum e = (ce_key e, ce_value e, ce_created_at e, ttl_sec e)"

definition lk :: "heap \<Rightarrow> ptr \<Rightarrow> (ptr \<times> ptr) option" where
  "lk h p = map_option (\<lambda>e. (ce_prev e, ce_next e)) (h p)"

definition hn :: "heap \<Rightarrow> ptr \<Rightarrow> ptr option" where
  "hn h p = map_option hash_next (h p)"

definition dat :: "heap \<Rightarrow> ptr \<Rightarrow> (string \<times> string \<times> timespec \<times> int) option" where
  "dat h p = map_option datum (h p)"

named_theorems lru_view

lemma lk_upd [lru_view]: "lk (h(p \<mapsto> e)) q = (if q = p then Some (ce_prev e, ce_next e) else lk h q)" by (simp add: lk_def)
lemma hn_upd [lru_view]: "hn (h(p \<mapsto> e)) q = (if q = p then Some (hash_next e) else hn h q)" by (simp add: hn_def)
lemma dat_upd [lru_view]: "dat (h(p \<mapsto> e)) q = (if q = p then Some (datum e) else dat h q)" by (simp add: dat_def)
lemma lk_del [lru_view]: "lk (h(p := None)) q = (if q = p then None else lk h q)" by (simp add: lk_def)
lemma hn_del [lru_view]: "hn (h(p := None)) q = (if q = p then None else hn h q)" by (simp add: hn_def)
lemma dat_del [lru_view]: "dat (h(p := None)) q = (if q = p then None else dat h q)" by (simp add: dat_def)

lemma datum_links [lru_view]:
  "datum (e\<lparr>ce_prev := x\<rparr>) = datum e" "datum (e\<lparr>ce_next := x\<rparr>) = datum e" "datum (e\<lparr>hash_next := x\<rparr>) = datum e"
  by (simp_all add: datum_def)

lemma deref_eq: "h NULL = None \<Longrightarrow> deref h p = h p"
  by (simp add: deref_def)

lemma lk_SomeE: "lk h p = Some (a, b) \<Longrightarrow> (\<And>e. h p = Some e \<Longrightarrow> ce_prev e = a \<Longrightarrow> ce_next e = b \<Longrightarrow> P) \<Longrightarrow> P"
  by (auto simp: lk_def)

section \<open>The recency list\<close>

definition first :: "ptr list \<Rightarrow> ptr \<Rightarrow> ptr" where
  "first ps d = (case ps of [] \<Rightarrow> d | p # _ \<Rightarrow> p)"

definition lastp :: "ptr list \<Rightarrow> ptr \<Rightarrow> ptr" where
  "lastp ps d = (if ps = [] then d else last ps)"

lemma first_simps [simp]: "first [] d = d" "first (p # ps) d = p" "first (xs @ ys) d = first xs (first ys d)"
  by (simp_all add: first_def split: list.split)

lemma lastp_simps [simp]: "lastp [] d = d" "lastp (xs @ ys) d = lastp ys (lastp xs d)" "lastp [p] d = p" "lastp (p # ps) d = lastp ps p"
  by (simp_all add: lastp_def)

fun dll :: "heap \<Rightarrow> ptr \<Rightarrow> ptr list \<Rightarrow> ptr \<Rightarrow> bool" where
  "dll h a [] b \<longleftrightarrow> True"
| "dll h a (p # ps) b \<longleftrightarrow> lk h p = Some (a, first ps b) \<and> dll h p ps b"

lemma dll_append: "dll h a (xs @ ys) b \<longleftrightarrow> dll h a xs (first ys b) \<and> dll h (lastp xs a) ys b"
  by (induction xs arbitrary: a) auto

lemma dll_cong: "(\<And>p. p \<in> set ps \<Longrightarrow> lk h' p = lk h p) \<Longrightarrow> dll h' a ps b = dll h a ps b"
  by (induction ps arbitrary: a) auto

lemma dll_mem: "dll h a ps b \<Longrightarrow> p \<in> set ps \<Longrightarrow> h p \<noteq> None"
  by (induction ps arbitrary: a) (auto simp: lk_def)

definition order_ok :: "heap \<Rightarrow> LRUCache \<Rightarrow> ptr list \<Rightarrow> bool" where
  "order_ok h c ps \<longleftrightarrow> h NULL = None \<and> distinct ps \<and> dll h NULL ps NULL \<and> lc_head c = first ps NULL \<and> lc_tail c = lastp ps NULL"

lemma order_ok_NULL: "order_ok h c ps \<Longrightarrow> NULL \<notin> set ps"
  using dll_mem by (fastforce simp: order_ok_def)

lemma dll_set_next:
  assumes "dll h a (xs @ [x]) b" "x \<notin> set xs" "h x = Some e"
  shows "dll (h(x \<mapsto> e\<lparr>ce_next := b'\<rparr>)) a (xs @ [x]) b'"
proof -
  have "dll (h(x \<mapsto> e\<lparr>ce_next := b'\<rparr>)) a xs x = dll h a xs x" by (rule dll_cong) (use assms(2) in \<open>auto simp: lru_view\<close>)
  then show ?thesis using assms by (simp add: dll_append lru_view lk_def)
qed

lemma dll_set_prev:
  assumes "dll h a (y # ys) b" "y \<notin> set ys" "h y = Some e"
  shows "dll (h(y \<mapsto> e\<lparr>ce_prev := a'\<rparr>)) a' (y # ys) b"
proof -
  have "dll (h(y \<mapsto> e\<lparr>ce_prev := a'\<rparr>)) y ys b = dll h y ys b" by (rule dll_cong) (use assms(2) in \<open>auto simp: lru_view\<close>)
  then show ?thesis using assms by (simp add: lru_view lk_def)
qed

text \<open>The two halves of \<open>detach_node\<close>: the successor of the left neighbour, and the predecessor of the right one.\<close>

definition same_data :: "heap \<Rightarrow> heap \<Rightarrow> bool" where
  "same_data h h' \<longleftrightarrow> h' NULL = h NULL \<and> dom h' = dom h \<and> hn h' = hn h \<and> dat h' = dat h"

lemma same_data_refl [simp]: "same_data h h"
  by (simp add: same_data_def)

lemma same_data_trans: "same_data h h' \<Longrightarrow> same_data h' h'' \<Longrightarrow> same_data h h''"
  by (simp add: same_data_def)

lemma same_data_links:
  assumes "h p = Some e" "h NULL = None"
  shows "same_data h (h(p \<mapsto> e\<lparr>ce_prev := x\<rparr>))" "same_data h (h(p \<mapsto> e\<lparr>ce_next := x\<rparr>))"
    "same_data h (h(p \<mapsto> e\<lparr>ce_prev := x, ce_next := y\<rparr>))"
proof -
  have "p \<noteq> NULL" using assms by (metis option.distinct(1))
  with assms show "same_data h (h(p \<mapsto> e\<lparr>ce_prev := x\<rparr>))" "same_data h (h(p \<mapsto> e\<lparr>ce_next := x\<rparr>))"
    "same_data h (h(p \<mapsto> e\<lparr>ce_prev := x, ce_next := y\<rparr>))" by (auto simp: same_data_def fun_eq_iff lru_view hn_def dat_def)
qed

lemma detach_left:
  assumes "dll h NULL xs p" "distinct (xs @ p # ys)" "h NULL = None" "NULL \<notin> set xs" "ce_prev e0 = lastp xs NULL" "ce_next e0 = b"
  shows "\<exists>h1. unlink_left (h, c) e0 = Some (h1, if xs = [] then c\<lparr>lc_head := b\<rparr> else c)
    \<and> dll h1 NULL xs b \<and> same_data h h1 \<and> (\<forall>q. q \<notin> set xs \<longrightarrow> h1 q = h q)"
proof (cases xs rule: rev_cases)
  case (snoc zs x)
  with assms(1) obtain e where e: "h x = Some e" by (auto simp: dll_append elim: lk_SomeE)
  have "dll (h(x \<mapsto> e\<lparr>ce_next := b\<rparr>)) NULL xs b" using dll_set_next [of h NULL zs x p e b] assms(1,2) snoc e by simp
  then show ?thesis using e snoc assms(3-6) same_data_links(2) [OF e assms(3)] by (simp add: upd_def deref_eq unlink_left_def)
qed (use assms(5,6) in \<open>simp add: unlink_left_def\<close>)

lemma detach_right:
  assumes "dll h p ys NULL" "distinct (xs @ p # ys)" "h NULL = None" "NULL \<notin> set ys" "ce_next e0 = first ys NULL" "ce_prev e0 = a"
  shows "\<exists>h1. unlink_right (h, c) e0 = Some (h1, if ys = [] then c\<lparr>lc_tail := a\<rparr> else c)
    \<and> dll h1 a ys NULL \<and> same_data h h1 \<and> (\<forall>q. q \<notin> set ys \<longrightarrow> h1 q = h q)"
proof (cases ys)
  case (Cons y zs)
  with assms(1) obtain e where e: "h y = Some e" by (auto elim: lk_SomeE)
  have "dll (h(y \<mapsto> e\<lparr>ce_prev := a\<rparr>)) a ys NULL" using dll_set_prev [of h p y zs NULL e a] assms(1,2) Cons e by simp
  then show ?thesis using e Cons assms(3-6) same_data_links(1) [OF e assms(3)] by (simp add: upd_def deref_eq unlink_right_def)
qed (use assms(5,6) in \<open>simp add: unlink_right_def\<close>)

lemma detach_node_ok:
  assumes "order_ok h c (xs @ p # ys)"
  shows "\<exists>h'. detach_node (h, c) p = Some (h', c\<lparr>lc_head := first (xs @ ys) NULL, lc_tail := lastp (xs @ ys) NULL\<rparr>)
    \<and> dll h' NULL (xs @ ys) NULL \<and> same_data h h' \<and> lk h' p = Some (NULL, NULL)"
proof -
  have d: "distinct (xs @ p # ys)" "dll h NULL xs p" "dll h p ys NULL" "lk h p = Some (lastp xs NULL, first ys NULL)" "h NULL = None"
    "lc_head c = first (xs @ p # ys) NULL" "lc_tail c = lastp (xs @ p # ys) NULL"
    using assms by (simp_all add: order_ok_def dll_append)
  from d(4) obtain e where e: "h p = Some e" "ce_prev e = lastp xs NULL" "ce_next e = first ys NULL" by (rule lk_SomeE)
  have n: "NULL \<notin> set xs" "NULL \<notin> set ys" "NULL \<noteq> p" using order_ok_NULL [OF assms] by auto
  let ?c1 = "if xs = [] then c\<lparr>lc_head := first ys NULL\<rparr> else c"
  obtain h1 where h1: "unlink_left (h, c) e = Some (h1, ?c1)"
    "dll h1 NULL xs (first ys NULL)" "same_data h h1" "\<And>q. q \<notin> set xs \<Longrightarrow> h1 q = h q"
    using detach_left [OF d(2,1,5) n(1) e(2,3), of c] by blast
  have "h1 q = h q" if "q \<in> set ys" for q using d(1) that by (intro h1(4)) auto
  then have "dll h1 p ys NULL = dll h p ys NULL" by (intro dll_cong) (simp add: lk_def)
  with d(3) have ys1: "dll h1 p ys NULL" by simp
  have p1: "h1 p = Some e" "h1 NULL = None" using h1(3,4) d(1,5) e(1) by (auto simp: same_data_def)
  obtain h2 where h2: "unlink_right (h1, ?c1) e = Some (h2, if ys = [] then ?c1\<lparr>lc_tail := lastp xs NULL\<rparr> else ?c1)"
    "dll h2 (lastp xs NULL) ys NULL" "same_data h1 h2" "\<And>q. q \<notin> set ys \<Longrightarrow> h2 q = h1 q"
    using detach_right [OF ys1 d(1) p1(2) n(2) e(3,2), of ?c1] by blast
  have p2: "h2 p = Some e" "h2 NULL = None" using h2(3,4) d(1) p1 by (auto simp: same_data_def)
  let ?h3 = "h2(p \<mapsto> e\<lparr>ce_prev := NULL, ce_next := NULL\<rparr>)"
  have c2: "(if ys = [] then ?c1\<lparr>lc_tail := lastp xs NULL\<rparr> else ?c1) = c\<lparr>lc_head := first (xs @ ys) NULL, lc_tail := lastp (xs @ ys) NULL\<rparr>"
    using d(6,7) by (cases xs; cases ys) (simp_all add: lastp_def)
  have "detach_node (h, c) p = Some (?h3, c\<lparr>lc_head := first (xs @ ys) NULL, lc_tail := lastp (xs @ ys) NULL\<rparr>)"
    using h1(1) h2(1) e p1 p2 d(5) unfolding detach_node_def c2 [symmetric] by (simp add: deref_eq upd_def del: first_simps(3))
  moreover have "h2 q = h1 q" if "q \<in> set xs" for q using d(1) that by (intro h2(4)) auto
  then have "dll ?h3 NULL xs (first ys NULL) = dll h1 NULL xs (first ys NULL)" using d(1) by (intro dll_cong) (auto simp: lk_def)
  moreover have "dll ?h3 (lastp xs NULL) ys NULL = dll h2 (lastp xs NULL) ys NULL" using d(1) by (intro dll_cong) (auto simp: lk_def)
  moreover have "same_data h ?h3" using same_data_trans [OF h1(3) same_data_trans [OF h2(3) same_data_links(3) [OF p2]]] .
  ultimately show ?thesis using h1(2) h2(2) by (auto simp: dll_append lru_view)
qed

lemma push_head_ok:
  assumes "order_ok h c ps" "p \<notin> set ps" "h p = Some e" "ce_prev e = NULL" "p \<noteq> NULL"
  shows "\<exists>h'. push_head (h, c) p = Some (h', c\<lparr>lc_head := p, lc_tail := lastp ps p\<rparr>) \<and> dll h' NULL (p # ps) NULL \<and> same_data h h'"
proof -
  have d: "dll h NULL ps NULL" "distinct ps" "h NULL = None" "lc_head c = first ps NULL" "lc_tail c = lastp ps NULL"
    using assms(1) by (simp_all add: order_ok_def)
  note n = order_ok_NULL [OF assms(1)]
  let ?h1 = "h(p \<mapsto> e\<lparr>ce_next := first ps NULL\<rparr>)"
  have "dll ?h1 NULL ps NULL = dll h NULL ps NULL" by (rule dll_cong) (use assms(2) in \<open>auto simp: lru_view\<close>)
  then have h1: "dll ?h1 NULL ps NULL" "?h1 NULL = None" "same_data h ?h1"
    using d assms(5) same_data_links(2) [OF assms(3) d(3)] by simp_all
  show ?thesis
  proof (cases ps)
    case Nil
    then show ?thesis using d h1(3) assms(3-5) by (simp add: push_head_def upd_def deref_eq lru_view)
  next
    case (Cons q qs)
    with h1(1) obtain e' where e': "?h1 q = Some e'" by (auto elim: lk_SomeE)
    let ?h2 = "?h1(q \<mapsto> e'\<lparr>ce_prev := p\<rparr>)"
    have "ps \<noteq> []" using Cons by simp
    then have "last ps \<noteq> NULL" using n last_in_set by metis
    then have tl: "lastp ps NULL \<noteq> NULL" "lastp ps p = lastp ps NULL" using Cons by (simp_all add: lastp_def del: last.simps lastp_simps)
    have ct: "lc_tail c \<noteq> NULL" "c\<lparr>lc_head := p\<rparr> = c\<lparr>lc_head := p, lc_tail := lastp ps p\<rparr>" using d(5) tl by simp_all
    have "dll ?h2 p ps NULL" using dll_set_prev [of ?h1 NULL q qs NULL e' p] h1(1) d(2) e' Cons by simp
    moreover have "lk ?h2 p = Some (NULL, first ps NULL)" using assms(2,4) Cons by (simp add: lru_view)
    moreover have "same_data h ?h2" using same_data_trans [OF h1(3) same_data_links(1) [OF e' h1(2)]] .
    moreover have "push_head (h, c) p = Some (?h2, c\<lparr>lc_head := p, lc_tail := lastp ps p\<rparr>)"
      using d(3,4) e' assms(3,5) n Cons tl ct by (simp add: push_head_def upd_def deref_def Let_def del: lastp_simps fun_upd_apply)
    ultimately show ?thesis by simp
  qed
qed

lemma same_data_order: "same_data h h' \<Longrightarrow> h NULL = None \<Longrightarrow> h' NULL = None"
  by (simp add: same_data_def)

lemma order_ok_split: "p \<in> set ps \<Longrightarrow> \<exists>xs ys. ps = xs @ p # ys"
  by (rule split_list)

lemma move_to_head_ok:
  assumes "order_ok h c (xs @ p # ys)"
  shows "\<exists>h' c'. move_to_head (h, c) p = Some (h', c') \<and> order_ok h' c' (p # xs @ ys) \<and> same_data h h'
    \<and> c' = c\<lparr>lc_head := lc_head c', lc_tail := lc_tail c'\<rparr>"
proof (cases "xs = []")
  case True
  then show ?thesis using assms by (auto simp: move_to_head_def order_ok_def)
next
  case False
  have d: "distinct (xs @ p # ys)" "h NULL = None" "lc_head c \<noteq> p" using assms False by (cases xs; auto simp: order_ok_def)+
  let ?c1 = "c\<lparr>lc_head := first (xs @ ys) NULL, lc_tail := lastp (xs @ ys) NULL\<rparr>"
  obtain h1 where h1: "detach_node (h, c) p = Some (h1, ?c1)" "dll h1 NULL (xs @ ys) NULL" "same_data h h1" "lk h1 p = Some (NULL, NULL)"
    using detach_node_ok [OF assms] by blast
  have o1: "order_ok h1 ?c1 (xs @ ys)" using h1 d by (simp add: order_ok_def same_data_def)
  from h1(4) obtain e where e: "h1 p = Some e" "ce_prev e = NULL" "ce_next e = NULL" by (rule lk_SomeE)
  have "h1(p \<mapsto> e\<lparr>ce_prev := NULL\<rparr>) = h1" using e by (simp add: fun_upd_idem_iff)
  moreover have p: "p \<noteq> NULL" using order_ok_NULL [OF assms] by auto
  moreover obtain h' where h': "push_head (h1, ?c1) p = Some (h', ?c1\<lparr>lc_head := p, lc_tail := lastp (xs @ ys) p\<rparr>)"
    "dll h' NULL (p # xs @ ys) NULL" "same_data h1 h'"
    using push_head_ok [OF o1 _ e(1,2) p] d(1) by auto
  ultimately show ?thesis using h1 e d same_data_trans [OF h1(3) h'(3)] o1
    by (auto simp: move_to_head_def upd_def deref_def order_ok_def same_data_def)
qed

section \<open>The hash chains\<close>

fun chain :: "heap \<Rightarrow> ptr \<Rightarrow> ptr list \<Rightarrow> bool" where
  "chain h p [] \<longleftrightarrow> p = NULL"
| "chain h p (q # qs) \<longleftrightarrow> p = q \<and> q \<noteq> NULL \<and> (\<exists>r. hn h q = Some r \<and> chain h r qs)"

lemma chain_cong: "(\<And>q. q \<in> set qs \<Longrightarrow> hn h' q = hn h q) \<Longrightarrow> chain h' p qs = chain h p qs"
  by (induction qs arbitrary: p) auto

definition key_of :: "heap \<Rightarrow> ptr \<Rightarrow> string" where
  "key_of h p = (case dat h p of Some (k, _) \<Rightarrow> k | None \<Rightarrow> [])"

definition hash_ok :: "heap \<Rightarrow> LRUCache \<Rightarrow> ptr set \<Rightarrow> bool" where
  "hash_ok h c S \<longleftrightarrow> length (lc_hash c) = CACHE_HASH_SIZE \<and> S \<subseteq> dom h \<and>
     (\<forall>b < CACHE_HASH_SIZE. \<exists>qs. chain h (lc_hash c ! b) qs \<and> distinct qs \<and> set qs = {p \<in> S. bucket (key_of h p) = b})"

lemma bucket_less: "bucket k < CACHE_HASH_SIZE"
proof -
  have "unat (w mod (256 :: u64)) < 256" for w by (simp add: unat_mod)
  then show ?thesis by (simp add: bucket_def CACHE_HASH_SIZE_def)
qed

lemma hash_ok_cong:
  assumes "hash_ok h c S" "\<And>p. p \<in> S \<Longrightarrow> hn h' p = hn h p \<and> dat h' p = dat h p" "lc_hash c' = lc_hash c"
  shows "hash_ok h' c' S"
proof -
  have "p \<in> dom h'" if "p \<in> S" for p using assms(1,2) that by (auto simp: hash_ok_def dat_def dom_def subset_iff) (metis not_None_eq option.map_disc_iff)
  moreover have "key_of h' p = key_of h p" if "p \<in> S" for p using assms(2) that by (simp add: key_of_def)
  moreover have "chain h' r qs = chain h r qs" if "set qs = {p \<in> S. bucket (key_of h p) = b}" for r qs b
    using that assms(2) by (intro chain_cong) auto
  moreover have "{p \<in> S. bucket (key_of h' p) = b} = {p \<in> S. bucket (key_of h p) = b}" for b using calculation(2) by auto
  ultimately show ?thesis using assms(1,3) unfolding hash_ok_def by (simp add: subset_iff) metis
qed

lemma find_loop_ok:
  assumes "chain h p qs" "h NULL = None"
  shows "find_loop h p k = Some (case find (\<lambda>q. key_of h q = k) qs of None \<Rightarrow> NULL | Some q \<Rightarrow> q)"
  using assms
proof (induction qs arbitrary: p)
  case Nil
  then show ?case by (subst find_loop.simps) simp
next
  case (Cons q qs)
  then obtain e where "h q = Some e" "chain h (hash_next e) qs" by (auto simp: hn_def)
  with Cons show ?case by (subst find_loop.simps) (simp add: deref_eq key_of_def dat_def datum_def)
qed

lemma hash_find_ok:
  assumes "hash_ok h c S" "h NULL = None" "NULL \<notin> S"
  shows "\<exists>p. hash_find (h, c) k = Some p \<and> (if p = NULL then \<forall>q \<in> S. key_of h q \<noteq> k else p \<in> S \<and> key_of h p = k)"
proof -
  obtain qs where qs: "chain h (lc_hash c ! bucket k) qs" "set qs = {p \<in> S. bucket (key_of h p) = bucket k}"
    using assms(1) bucket_less [of k] by (auto simp: hash_ok_def)
  show ?thesis
  proof (cases "find (\<lambda>q. key_of h q = k) qs")
    case None
    then have "\<forall>q \<in> set qs. key_of h q \<noteq> k" by (simp add: find_None_iff)
    then show ?thesis using find_loop_ok [OF qs(1) assms(2), of k] None qs(2) by (auto simp: hash_find_def)
  next
    case (Some q)
    then have "q \<in> set qs" "key_of h q = k" by (auto simp: find_Some_iff)
    then show ?thesis using find_loop_ok [OF qs(1) assms(2), of k] Some qs(2) assms(3) by (auto simp: hash_find_def)
  qed
qed

lemma hash_next_views:
  assumes "h q = Some e"
  shows "lk (h(q \<mapsto> e\<lparr>hash_next := x\<rparr>)) = lk h" "dat (h(q \<mapsto> e\<lparr>hash_next := x\<rparr>)) = dat h" "dom (h(q \<mapsto> e\<lparr>hash_next := x\<rparr>)) = dom h"
  using assms by (auto simp: fun_eq_iff lru_view lk_def dat_def)

text \<open>The loop of \<open>hash_remove\<close> from a location whose chain holds the entry.\<close>

lemma remove_loop_ok:
  assumes "chain h (the (read_loc (h, c) pp)) (xs @ p # ys)" "read_loc (h, c) pp \<noteq> None" "h NULL = None" "p \<notin> set xs"
    "case pp of Bucket b \<Rightarrow> b < length (lc_hash c) | Hash_next q \<Rightarrow> q \<notin> set (xs @ p # ys)" "distinct (xs @ p # ys)"
  shows "\<exists>h' c'. remove_loop (h, c) pp p = Some (h', c') \<and> chain h' (the (read_loc (h', c') pp)) (xs @ ys) \<and> lk h' = lk h \<and> dat h' = dat h
    \<and> h' NULL = None \<and> dom h' = dom h
    \<and> (\<forall>q. q \<notin> set xs \<and> pp \<noteq> Hash_next q \<longrightarrow> hn h' q = hn h q)
    \<and> c' = c\<lparr>lc_hash := lc_hash c'\<rparr> \<and> length (lc_hash c') = length (lc_hash c)
    \<and> (\<forall>b. pp \<noteq> Bucket b \<longrightarrow> lc_hash c' ! b = lc_hash c ! b)"
  using assms
proof (induction xs arbitrary: pp)
  case Nil
  then obtain e where e: "h p = Some e" "chain h (hash_next e) ys" "read_loc (h, c) pp = Some p" "p \<noteq> NULL" by (auto simp: hn_def)
  then have r: "remove_loop (h, c) pp p = write_loc (h, c) pp (hash_next e)" using Nil(3) by (subst remove_loop.simps) (simp add: deref_eq)
  show ?case
  proof (cases pp)
    case (Bucket b)
    then show ?thesis using r e Nil by auto
  next
    case (Hash_next q)
    then obtain e' where e': "h q = Some e'" "hash_next e' = p" "q \<noteq> NULL" using e(3) by (auto simp: deref_def split: if_splits bind_splits)
    let ?h' = "h(q \<mapsto> e'\<lparr>hash_next := hash_next e\<rparr>)"
    have "chain ?h' (hash_next e) ys = chain h (hash_next e) ys" by (rule chain_cong) (use Nil(5) Hash_next in \<open>auto simp: lru_view\<close>)
    then show ?thesis using r e e' Nil(3) Hash_next
      by (intro exI [of _ ?h'] exI [of _ c]) (auto simp: upd_def deref_def lru_view hash_next_views simp del: fun_upd_apply, simp_all add: fun_upd_def)
  qed
next
  case (Cons x xs)
  then obtain e where e: "h x = Some e" "chain h (hash_next e) (xs @ p # ys)" "read_loc (h, c) pp = Some x" "x \<noteq> NULL" by (auto simp: hn_def)
  have r: "remove_loop (h, c) pp p = remove_loop (h, c) (Hash_next x) p" using Cons(5) e by (subst remove_loop.simps) simp
  have l: "read_loc (h, c) (Hash_next x) = Some (hash_next e)" using e by (simp add: deref_def)
  obtain h' c' where IH: "remove_loop (h, c) (Hash_next x) p = Some (h', c')" "chain h' (the (read_loc (h', c') (Hash_next x))) (xs @ ys)"
    "lk h' = lk h" "dat h' = dat h" "h' NULL = None" "dom h' = dom h" "\<forall>q. q \<notin> set xs \<and> Hash_next x \<noteq> Hash_next q \<longrightarrow> hn h' q = hn h q"
    "c' = c\<lparr>lc_hash := lc_hash c'\<rparr>" "length (lc_hash c') = length (lc_hash c)" "\<forall>b. lc_hash c' ! b = lc_hash c ! b"
    using Cons(1) [of "Hash_next x"] Cons(4-7) e(2) l by auto
  have pp: "read_loc (h', c') pp = read_loc (h, c) pp"
  proof (cases pp)
    case (Hash_next q)
    then have "hn h' q = hn h q" using IH(7) Cons(6) by auto
    then show ?thesis using Hash_next by (cases "h q"; cases "h' q") (auto simp: deref_def hn_def)
  qed (use IH(10) in simp)
  have "x \<in> dom h'" using IH(6) e(1) by auto
  then have "chain h' x (x # xs @ ys)" using IH(2) e(4) by (auto simp: hn_def deref_def)
  then show ?case using r IH pp e(3) by auto
qed

lemma hash_remove_ok:
  assumes "hash_ok h c S" "h NULL = None" "NULL \<notin> S" "p \<in> S"
  shows "\<exists>h' c'. hash_remove (h, c) p = Some (h', c') \<and> hash_ok h' c' (S - {p}) \<and> lk h' = lk h \<and> dat h' = dat h \<and> h' NULL = None \<and> dom h' = dom h
    \<and> c' = c\<lparr>lc_hash := lc_hash c'\<rparr>"
proof -
  let ?b = "bucket (key_of h p)"
  obtain e where e: "h p = Some e" using assms(1,4) by (auto simp: hash_ok_def)
  then have k: "ce_key e = key_of h p" by (simp add: key_of_def dat_def datum_def)
  obtain qs where qs: "chain h (lc_hash c ! ?b) qs" "distinct qs" "set qs = {q \<in> S. bucket (key_of h q) = ?b}"
    using assms(1) bucket_less [of "key_of h p"] unfolding hash_ok_def by blast
  obtain xs ys where xy: "qs = xs @ p # ys" using qs(3) assms(4) split_list [of p qs] by auto
  have len: "length (lc_hash c) = CACHE_HASH_SIZE" using assms(1) by (simp add: hash_ok_def)
  obtain h' c' where r: "remove_loop (h, c) (Bucket ?b) p = Some (h', c')" "chain h' (lc_hash c' ! ?b) (xs @ ys)" "lk h' = lk h" "dat h' = dat h"
    "h' NULL = None" "dom h' = dom h" "\<And>q. q \<notin> set xs \<Longrightarrow> hn h' q = hn h q" "c' = c\<lparr>lc_hash := lc_hash c'\<rparr>" "length (lc_hash c') = length (lc_hash c)"
    "\<And>b. b \<noteq> ?b \<Longrightarrow> lc_hash c' ! b = lc_hash c ! b"
    using remove_loop_ok [of h c "Bucket ?b" xs p ys] qs xy assms(2) len bucket_less by auto
  have key: "key_of h' = key_of h" using r(4) by (simp add: key_of_def fun_eq_iff)
  have "\<exists>qs. chain h' (lc_hash c' ! b) qs \<and> distinct qs \<and> set qs = {q \<in> S - {p}. bucket (key_of h' q) = b}" if i: "b < CACHE_HASH_SIZE" for b
  proof (cases "b = ?b")
    case True
    then show ?thesis using r(2) qs xy key by (intro exI [of _ "xs @ ys"]) auto
  next
    case False
    obtain rs where rs: "chain h (lc_hash c ! b) rs" "distinct rs" "set rs = {q \<in> S. bucket (key_of h q) = b}"
      using assms(1) i by (auto simp: hash_ok_def)
    have "set xs \<inter> set rs = {}" using rs(3) qs(3) xy False by auto
    then have "chain h' (lc_hash c ! b) rs = chain h (lc_hash c ! b) rs" by (intro chain_cong r(7)) auto
    then show ?thesis using rs False r(10) key by (intro exI [of _ rs]) auto
  qed
  then have "hash_ok h' c' (S - {p})" using r(6,9) len assms(1) by (auto simp: hash_ok_def)
  moreover have "hash_remove (h, c) p = Some (h', c')" using e k r(1) assms(2) by (simp add: hash_remove_def deref_eq)
  ultimately show ?thesis using r by blast
qed

lemma hash_insert_ok:
  assumes "hash_ok h c S" "h NULL = None" "p \<notin> S" "p \<in> dom h"
  shows "\<exists>h' c'. hash_insert (h, c) p = Some (h', c') \<and> hash_ok h' c' (insert p S) \<and> lk h' = lk h \<and> dat h' = dat h \<and> h' NULL = None \<and> dom h' = dom h
    \<and> c' = c\<lparr>lc_hash := lc_hash c'\<rparr>"
proof -
  obtain e where e: "h p = Some e" using assms(4) by auto
  let ?b = "bucket (key_of h p)"
  have k: "ce_key e = key_of h p" using e by (simp add: key_of_def dat_def datum_def)
  have len: "length (lc_hash c) = CACHE_HASH_SIZE" and b: "?b < CACHE_HASH_SIZE" using assms(1) bucket_less by (simp_all add: hash_ok_def)
  let ?h' = "h(p \<mapsto> e\<lparr>hash_next := lc_hash c ! ?b\<rparr>)"
  let ?c' = "c\<lparr>lc_hash := (lc_hash c)[?b := p]\<rparr>"
  have p: "p \<noteq> NULL" using e assms(2) by (metis option.distinct(1))
  note view = hash_next_views [of h p e "lc_hash c ! ?b", OF e]
  then have key: "key_of ?h' = key_of h" by (simp add: key_of_def fun_eq_iff)
  have "\<exists>qs. chain ?h' (lc_hash ?c' ! i) qs \<and> distinct qs \<and> set qs = {q \<in> insert p S. bucket (key_of ?h' q) = i}" if i: "i < CACHE_HASH_SIZE" for i
  proof -
    obtain rs where rs: "chain h (lc_hash c ! i) rs" "distinct rs" "set rs = {q \<in> S. bucket (key_of h q) = i}"
      using assms(1) i by (auto simp: hash_ok_def)
    have f: "chain ?h' (lc_hash c ! i) rs = chain h (lc_hash c ! i) rs" by (rule chain_cong) (use rs(3) assms(3) in \<open>auto simp: lru_view\<close>)
    show ?thesis
    proof (cases "i = ?b")
      case True
      then show ?thesis using rs f assms(3) len b p key by (intro exI [of _ "p # rs"]) (auto simp: lru_view)
    next
      case False
      then show ?thesis using rs f key by (intro exI [of _ rs]) auto
    qed
  qed
  then have "hash_ok ?h' ?c' (insert p S)" using assms(1) by (auto simp: hash_ok_def)
  moreover have "hash_insert (h, c) p = Some (?h', ?c')" using e k assms(2) by (simp add: hash_insert_def upd_def deref_eq Let_def)
  ultimately show ?thesis using view p assms(2) by (intro exI [of _ ?h'] exI [of _ ?c']) simp
qed

section \<open>The whole structure\<close>

definition lru_inv :: "heap \<Rightarrow> LRUCache \<Rightarrow> ptr list \<Rightarrow> bool" where
  "lru_inv h c ps \<longleftrightarrow> order_ok h c ps \<and> hash_ok h c (set ps) \<and> distinct (map (key_of h) ps) \<and> lc_size c = int (length ps) \<and> dom h = set ps"

definition same_conf :: "LRUCache \<Rightarrow> LRUCache \<Rightarrow> bool" where
  "same_conf c c' \<longleftrightarrow> lc_capacity c' = lc_capacity c \<and> lc_size c' = lc_size c \<and> lc_hits c' = lc_hits c \<and> lc_misses c' = lc_misses c
     \<and> lc_evictions c' = lc_evictions c \<and> default_ttl c' = default_ttl c"

lemma same_conf_links [simp]:
  "same_conf c (c\<lparr>lc_head := x, lc_tail := y\<rparr>)" "same_conf c (c\<lparr>lc_hash := z\<rparr>)" "same_conf c c"
  by (simp_all add: same_conf_def)

lemma same_conf_trans: "same_conf c c' \<Longrightarrow> same_conf c' c'' \<Longrightarrow> same_conf c c''"
  by (simp add: same_conf_def)

lemma lru_invD:
  assumes "lru_inv h c ps"
  shows "order_ok h c ps" "hash_ok h c (set ps)" "distinct (map (key_of h) ps)" "lc_size c = int (length ps)" "dom h = set ps"
    "h NULL = None" "NULL \<notin> set ps" "distinct ps"
  using assms order_ok_NULL by (auto simp: lru_inv_def order_ok_def)

lemma order_ok_cong:
  assumes "order_ok h c ps" "\<And>p. p \<in> set ps \<Longrightarrow> lk h' p = lk h p" "h' NULL = None" "lc_head c' = lc_head c" "lc_tail c' = lc_tail c"
  shows "order_ok h' c' ps"
  using assms dll_cong [of ps h' h NULL NULL] by (simp add: order_ok_def)

lemma key_of_cong: "dat h' p = dat h p \<Longrightarrow> key_of h' p = key_of h p"
  by (simp add: key_of_def)

lemma dat_dom: "p \<in> dom h \<longleftrightarrow> dat h p \<noteq> None"
  by (auto simp: dat_def)

text \<open>Freeing an entry that is in neither structure any more.\<close>

lemma free_entry_ok:
  assumes "order_ok h2 c2 (xs @ ys)" "hash_ok h2 c2 (set (xs @ p # ys) - {p})" "dat h2 = dat h" "dom h2 = dom h" "lru_inv h c (xs @ p # ys)"
    "same_conf c c2" "lc_size c3 = lc_size c2 - 1" "lc_head c3 = lc_head c2" "lc_tail c3 = lc_tail c2" "lc_hash c3 = lc_hash c2"
  shows "free_entry h2 p = Some (h2(p := None))" "lru_inv (h2(p := None)) c3 (xs @ ys)" "\<And>q. q \<noteq> p \<Longrightarrow> dat (h2(p := None)) q = dat h q"
proof -
  note i = lru_invD [OF assms(5)]
  have p: "p \<noteq> NULL" "p \<notin> set (xs @ ys)" "set (xs @ p # ys) - {p} = set (xs @ ys)" using i(7,8) by auto
  have "p \<in> dom h2" using assms(4) i(5) by simp
  then show "free_entry h2 p = Some (h2(p := None))" using p(1) by (auto simp: free_entry_def deref_def)
  show d: "\<And>q. q \<noteq> p \<Longrightarrow> dat (h2(p := None)) q = dat h q" using assms(3) by (simp add: lru_view)
  have "order_ok (h2(p := None)) c3 (xs @ ys)"
    using assms(1) by (rule order_ok_cong) (use assms(1,8,9) p in \<open>auto simp: lru_view order_ok_def\<close>)
  moreover have "hash_ok (h2(p := None)) c3 (set (xs @ ys))"
    using assms(2) [unfolded p(3)] by (rule hash_ok_cong) (use p(2) assms(10) in \<open>auto simp: lru_view\<close>)
  moreover have eq: "map (key_of (h2(p := None))) (xs @ ys) = map (key_of h) (xs @ ys)" using p(2) by (intro map_cong refl key_of_cong d) auto
  have "distinct (map (key_of (h2(p := None))) (xs @ ys))" unfolding eq using i(3) by simp
  moreover have "dom (h2(p := None)) = set (xs @ ys)" using assms(4) i(5) p(2) by auto
  ultimately show "lru_inv (h2(p := None)) c3 (xs @ ys)" using i(4) assms(6,7) by (simp add: lru_inv_def same_conf_def)
qed

lemma detach_then_remove:
  assumes "lru_inv h c (xs @ p # ys)"
  obtains s1 h2 c2 where "detach_node (h, c) p = Some s1" "hash_remove s1 p = Some (h2, c2)" "order_ok h2 c2 (xs @ ys)"
    "hash_ok h2 c2 (set (xs @ p # ys) - {p})" "dat h2 = dat h" "dom h2 = dom h" "same_conf c c2"
proof -
  note i = lru_invD [OF assms]
  let ?c1 = "c\<lparr>lc_head := first (xs @ ys) NULL, lc_tail := lastp (xs @ ys) NULL\<rparr>"
  obtain h1 where h1: "detach_node (h, c) p = Some (h1, ?c1)" "dll h1 NULL (xs @ ys) NULL" "same_data h h1"
    using detach_node_ok [OF i(1)] by blast
  have ok1: "hash_ok h1 ?c1 (set (xs @ p # ys))" using i(2) by (rule hash_ok_cong) (use h1(3) in \<open>auto simp: same_data_def\<close>)
  have n1: "h1 NULL = None" using h1(3) i(6) by (simp add: same_data_def)
  have o1: "order_ok h1 ?c1 (xs @ ys)" using h1(2) n1 i(8) by (simp add: order_ok_def)
  obtain h2 c2 where r: "hash_remove (h1, ?c1) p = Some (h2, c2)" "hash_ok h2 c2 (set (xs @ p # ys) - {p})" "lk h2 = lk h1" "dat h2 = dat h1"
    "h2 NULL = None" "dom h2 = dom h1" "c2 = ?c1\<lparr>lc_hash := lc_hash c2\<rparr>"
    using hash_remove_ok [OF ok1 n1 i(7), of p] by auto
  have hd: "lc_head c2 = lc_head ?c1" "lc_tail c2 = lc_tail ?c1" by (subst r(7), simp)+
  have "order_ok h2 c2 (xs @ ys)" using o1 by (rule order_ok_cong) (use r(3,5) hd in simp_all)
  moreover have "same_conf c c2" by (subst r(7)) (simp add: same_conf_def)
  ultimately show thesis using that h1 r by (simp add: same_data_def)
qed

lemma remove_then_detach:
  assumes "lru_inv h c (xs @ p # ys)"
  obtains s1 h2 c2 where "hash_remove (h, c) p = Some s1" "detach_node s1 p = Some (h2, c2)" "order_ok h2 c2 (xs @ ys)"
    "hash_ok h2 c2 (set (xs @ p # ys) - {p})" "dat h2 = dat h" "dom h2 = dom h" "same_conf c c2"
proof -
  note i = lru_invD [OF assms]
  obtain h1 c1 where r: "hash_remove (h, c) p = Some (h1, c1)" "hash_ok h1 c1 (set (xs @ p # ys) - {p})" "lk h1 = lk h" "dat h1 = dat h"
    "h1 NULL = None" "dom h1 = dom h" "c1 = c\<lparr>lc_hash := lc_hash c1\<rparr>"
    using hash_remove_ok [OF i(2,6,7), of p] by auto
  have hd: "lc_head c1 = lc_head c" "lc_tail c1 = lc_tail c" by (subst r(7), simp)+
  have o1: "order_ok h1 c1 (xs @ p # ys)" using i(1) by (rule order_ok_cong) (use r(3,5) hd in simp_all)
  let ?c2 = "c1\<lparr>lc_head := first (xs @ ys) NULL, lc_tail := lastp (xs @ ys) NULL\<rparr>"
  obtain h2 where h2: "detach_node (h1, c1) p = Some (h2, ?c2)" "dll h2 NULL (xs @ ys) NULL" "same_data h1 h2"
    using detach_node_ok [OF o1] by blast
  have "hash_ok h2 ?c2 (set (xs @ p # ys) - {p})" using r(2) by (rule hash_ok_cong) (use h2(3) in \<open>auto simp: same_data_def\<close>)
  moreover have "order_ok h2 ?c2 (xs @ ys)" using h2(2,3) r(5) i(8) by (simp add: order_ok_def same_data_def)
  moreover have "same_conf c ?c2" by (subst r(7)) (simp add: same_conf_def)
  ultimately show thesis using that r h2 by (simp add: same_data_def)
qed

section \<open>The abstract cache\<close>

type_synonym entry = "string \<times> string \<times> timespec \<times> int"

definition expired :: "timespec \<Rightarrow> entry \<Rightarrow> bool" where
  "expired now = (\<lambda>(k, v, t, ttl). entry_expired now (zero_entry\<lparr>ce_created_at := t, ttl_sec := ttl\<rparr>))"

definition lookup :: "string \<Rightarrow> entry list \<Rightarrow> entry option" where
  "lookup k L = find (\<lambda>x. fst x = k) L"

definition without :: "string \<Rightarrow> entry list \<Rightarrow> entry list" where
  "without k L = filter (\<lambda>x. fst x \<noteq> k) L"

datatype lru_op = Get timespec string | Put timespec string string int | Delete string | Has timespec string
  | Evict_expired "string \<Rightarrow> timespec" | Evict_lru | Clear

datatype lru_out = Value "string option" | Code int | Answer bool

text \<open>The most recent entry comes first.  The flag says whether an allocation succeeds.\<close>

fun lru_spec :: "int \<Rightarrow> int \<Rightarrow> bool \<Rightarrow> lru_op \<Rightarrow> entry list \<Rightarrow> entry list \<times> lru_out" where
  "lru_spec cap dttl ok (Get now k) L =
     (case lookup k L of
        None \<Rightarrow> (L, Value None)
      | Some x \<Rightarrow> if expired now x then (without k L, Value None) else (x # without k L, Value (Some (fst (snd x)))))"
| "lru_spec cap dttl ok (Put now k v ttl) L =
     (let x = (k, take (CACHE_MAX_VALUE_LEN - 1) v, now, if ttl > 0 then ttl else dttl);
          L1 = (if int (length L) \<ge> cap then butlast L else L)
      in if lookup k L \<noteq> None then (x # without k L, Code 0) else if ok then (x # L1, Code 0) else (L1, Code (-1)))"
| "lru_spec cap dttl ok (Delete k) L = (if lookup k L = None then (L, Code (-1)) else (without k L, Code 0))"
| "lru_spec cap dttl ok (Has now k) L = (L, Answer (case lookup k L of None \<Rightarrow> False | Some x \<Rightarrow> \<not> expired now x))"
| "lru_spec cap dttl ok (Evict_expired now) L =
     (filter (\<lambda>x. \<not> expired (now (fst x)) x) L, Code (int (length (filter (\<lambda>x. expired (now (fst x)) x) L))))"
| "lru_spec cap dttl ok Evict_lru L = (if L = [] then (L, Code (-1)) else (butlast L, Code 0))"
| "lru_spec cap dttl ok Clear L = ([], Code 0)"

fun lru_exec :: "(heap \<Rightarrow> ptr) \<Rightarrow> lru_op \<Rightarrow> lru \<Rightarrow> (lru \<times> lru_out) option" where
  "lru_exec alloc (Get now k) s = do { (s', v) \<leftarrow> cache_get now s k; Some (s', Value v) }"
| "lru_exec alloc (Put now k v ttl) s = do { (s', r) \<leftarrow> cache_put alloc now s k v ttl; Some (s', Code r) }"
| "lru_exec alloc (Delete k) s = do { (s', r) \<leftarrow> cache_delete s k; Some (s', Code r) }"
| "lru_exec alloc (Has now k) s = do { r \<leftarrow> cache_has now s k; Some (s, Answer r) }"
| "lru_exec alloc (Evict_expired now) s = do { (s', r) \<leftarrow> cache_evict_expired now s; Some (s', Code r) }"
| "lru_exec alloc Evict_lru s = do { (s', r) \<leftarrow> cache_evict_lru s; Some (s', Code r) }"
| "lru_exec alloc Clear s = do { s' \<leftarrow> cache_clear s; Some (s', Code 0) }"

definition contents :: "heap \<Rightarrow> ptr list \<Rightarrow> entry list" where
  "contents h ps = map (\<lambda>p. the (dat h p)) ps"

definition lru_rel :: "lru \<Rightarrow> entry list \<Rightarrow> bool" where
  "lru_rel s L \<longleftrightarrow> (\<exists>ps. lru_inv (fst s) (snd s) ps \<and> L = contents (fst s) ps)"

lemma contents_simps [simp]: "contents h [] = []" "contents h (p # ps) = the (dat h p) # contents h ps"
  "contents h (xs @ ys) = contents h xs @ contents h ys" "length (contents h ps) = length ps"
  by (simp_all add: contents_def)

lemma contents_cong: "(\<And>p. p \<in> set ps \<Longrightarrow> dat h' p = dat h p) \<Longrightarrow> contents h' ps = contents h ps"
  by (simp add: contents_def)

lemma expired_datum: "entry_expired now e = expired now (datum e)"
  by (simp add: expired_def datum_def entry_expired_def)

lemma fst_contents: "set ps \<subseteq> dom h \<Longrightarrow> map fst (contents h ps) = map (key_of h) ps"
  by (induction ps) (auto simp: key_of_def dat_def split: prod.split)

lemma dat_key: "h p = Some e \<Longrightarrow> dat h p = Some (datum e) \<and> fst (datum e) = key_of h p \<and> ce_key e = key_of h p"
  by (simp add: dat_def key_of_def datum_def)

lemma without_split:
  assumes "distinct (map fst (A @ x # B))"
  shows "without (fst x) (A @ x # B) = A @ B" "lookup (fst x) (A @ x # B) = Some x"
proof -
  have n: "fst x \<notin> fst ` set A" "fst x \<notin> fst ` set B" using assms by simp_all
  have "filter (\<lambda>y. fst y \<noteq> fst x) A = A" using n(1) by (intro filter_True) (metis image_eqI)
  moreover have "filter (\<lambda>y. fst y \<noteq> fst x) B = B" using n(2) by (intro filter_True) (metis image_eqI)
  ultimately show "without (fst x) (A @ x # B) = A @ B" by (simp add: without_def)
  show "lookup (fst x) (A @ x # B) = Some x" using n(1) unfolding lookup_def by (induction A) auto
qed

text \<open>What \<open>hash_find\<close> tells about the abstract list.\<close>

lemma find_cases:
  assumes "lru_inv h c ps"
  obtains (absent) "hash_find (h, c) k = Some NULL" "lookup k (contents h ps) = None"
  | (present) xs p ys e where "hash_find (h, c) k = Some p" "p \<noteq> NULL" "ps = xs @ p # ys" "h p = Some e" "ce_key e = k"
      "lookup k (contents h ps) = Some (datum e)" "without k (contents h ps) = contents h (xs @ ys)"
proof -
  note i = lru_invD [OF assms]
  obtain p where p: "hash_find (h, c) k = Some p" "if p = NULL then \<forall>q \<in> set ps. key_of h q \<noteq> k else p \<in> set ps \<and> key_of h p = k"
    using hash_find_ok [OF i(2,6,7)] by blast
  have keys: "map fst (contents h ps) = map (key_of h) ps" using fst_contents [of ps h] i(5) by simp
  show thesis
  proof (cases "p = NULL")
    case True
    then have "k \<notin> set (map (key_of h) ps)" using p(2) by auto
    then have "lookup k (contents h ps) = None" unfolding keys [symmetric] by (force simp: lookup_def find_None_iff)
    with absent p(1) True show thesis by simp
  next
    case False
    then have "p \<in> set ps" "p \<in> dom h" using p(2) i(5) by simp_all
    then obtain xs ys e where x: "ps = xs @ p # ys" "h p = Some e" by (metis domD split_list)
    have e: "dat h p = Some (datum e)" "fst (datum e) = k" "ce_key e = k" using dat_key [of h p e, OF x(2)] p(2) False by simp_all
    have "distinct (map fst (contents h xs @ datum e # contents h ys))" using i(3) e(1) x(1) unfolding keys [symmetric] by simp
    from without_split [OF this] present [OF p(1) False x e(3)] e x(1) show thesis by simp
  qed
qed

section \<open>Every operation refines its specification\<close>

definition same_limits :: "LRUCache \<Rightarrow> LRUCache \<Rightarrow> bool" where
  "same_limits c c' \<longleftrightarrow> lc_capacity c' = lc_capacity c \<and> default_ttl c' = default_ttl c"

lemma same_confD: "same_conf c c' \<Longrightarrow> same_limits c c'"
  by (simp add: same_conf_def same_limits_def)

text \<open>Taking an entry out, as \<open>cache_get\<close>, \<open>cache_delete\<close> and \<open>cache_evict_lru\<close> do.\<close>

lemma take_out:
  assumes "lru_inv h c (xs @ p # ys)"
  obtains s1 h2 c2 h3 where "detach_node (h, c) p = Some s1" "hash_remove s1 p = Some (h2, c2)" "free_entry h2 p = Some h3"
    "\<And>c3. lc_size c3 = lc_size c2 - 1 \<Longrightarrow> lc_head c3 = lc_head c2 \<Longrightarrow> lc_tail c3 = lc_tail c2 \<Longrightarrow> lc_hash c3 = lc_hash c2 \<Longrightarrow>
       lru_rel (h3, c3) (contents h (xs @ ys))" "same_limits c c2"
proof -
  obtain s1 h2 c2 where r: "detach_node (h, c) p = Some s1" "hash_remove s1 p = Some (h2, c2)" "order_ok h2 c2 (xs @ ys)"
    "hash_ok h2 c2 (set (xs @ p # ys) - {p})" "dat h2 = dat h" "dom h2 = dom h" "same_conf c c2"
    by (rule detach_then_remove [OF assms])
  have p: "p \<notin> set (xs @ ys)" using lru_invD(8) [OF assms] by simp
  note f = free_entry_ok [OF r(3-6) assms r(7)]
  have "contents (h2(p := None)) (xs @ ys) = contents h (xs @ ys)"
    using p by (intro contents_cong) (auto simp: r(5) lru_view)
  moreover have "free_entry h2 p = Some (h2(p := None))" by (rule f(1) [of "c2\<lparr>lc_size := lc_size c2 - 1\<rparr>"]) simp_all
  ultimately show thesis using that [OF r(1,2), of "h2(p := None)"] f(2) same_confD [OF r(7)]
    unfolding lru_rel_def by (metis fst_conv snd_conv)
qed

lemma to_front:
  assumes "lru_inv h c (xs @ p # ys)"
  obtains h' c' where "move_to_head (h, c) p = Some (h', c')" "lru_inv h' c' (p # xs @ ys)" "dat h' = dat h" "same_conf c c'"
proof -
  note i = lru_invD [OF assms]
  obtain h' c' where m: "move_to_head (h, c) p = Some (h', c')" "order_ok h' c' (p # xs @ ys)" "same_data h h'"
    "c' = c\<lparr>lc_head := lc_head c', lc_tail := lc_tail c'\<rparr>" using move_to_head_ok [OF i(1)] by blast
  have c: "same_conf c c'" "lc_hash c' = lc_hash c" by (subst m(4), simp)+
  have "hash_ok h' c' (set (xs @ p # ys))" using i(2) by (rule hash_ok_cong) (use m(3) c(2) in \<open>auto simp: same_data_def\<close>)
  moreover have "key_of h' = key_of h" using m(3) by (simp add: same_data_def key_of_def fun_eq_iff)
  ultimately have "lru_inv h' c' (p # xs @ ys)" using m(2,3) i(3-5) c(1) by (auto simp: lru_inv_def same_data_def same_conf_def)
  with that m c show thesis by (simp add: same_data_def)
qed

lemma lru_inv_counters:
  "lru_inv h c ps \<Longrightarrow> lru_inv h (c\<lparr>lc_hits := x\<rparr>) ps" "lru_inv h c ps \<Longrightarrow> lru_inv h (c\<lparr>lc_misses := y\<rparr>) ps"
  by (simp_all add: lru_inv_def order_ok_def hash_ok_def)

lemma get_refines:
  assumes "lru_inv h c ps"
  shows "\<exists>h' c'. cache_get now (h, c) k = Some ((h', c'), case lookup k (contents h ps) of None \<Rightarrow> None | Some x \<Rightarrow> if expired now x then None else Some (fst (snd x)))
    \<and> lru_rel (h', c') (fst (lru_spec cap dttl ok (Get now k) (contents h ps))) \<and> same_limits c c'"
  using assms
proof (cases rule: find_cases [of h c ps k])
  case absent
  then show ?thesis using lru_inv_counters(2) [OF assms] assms by (auto simp: cache_get_def lru_rel_def same_limits_def)
next
  case (present xs p ys e)
  note i = assms [unfolded present(3)]
  show ?thesis
  proof (cases "entry_expired now e")
    case True
    obtain s1 h2 c2 h3 where t: "detach_node (h, c) p = Some s1" "hash_remove s1 p = Some (h2, c2)" "free_entry h2 p = Some h3"
      "\<And>c3. lc_size c3 = lc_size c2 - 1 \<Longrightarrow> lc_head c3 = lc_head c2 \<Longrightarrow> lc_tail c3 = lc_tail c2 \<Longrightarrow> lc_hash c3 = lc_hash c2 \<Longrightarrow>
       lru_rel (h3, c3) (contents h (xs @ ys))" "same_limits c c2" by (rule take_out [OF i]) blast
    then show ?thesis using present True by (simp add: cache_get_def deref_def expired_datum same_limits_def)
  next
    case False
    obtain h' c' where m: "move_to_head (h, c) p = Some (h', c')" "lru_inv h' c' (p # xs @ ys)" "dat h' = dat h" "same_conf c c'"
      by (rule to_front [OF i])
    have "dat h' p = Some (datum e)" using m(3) present(4) by (simp add: dat_def)
    then obtain e' where e': "h' p = Some e'" "datum e' = datum e" by (auto simp: dat_def)
    have v: "ce_value e' = fst (snd (datum e))" using e'(2) by (simp add: datum_def)
    have "contents h' (p # xs @ ys) = datum e # contents h (xs @ ys)" using m(3) present(4) by (simp add: contents_def dat_def)
    then have "lru_rel (h', c'\<lparr>lc_hits := lc_hits c' + 1\<rparr>) (datum e # contents h (xs @ ys))"
      using lru_inv_counters(1) [OF m(2)] unfolding lru_rel_def by (metis fst_conv snd_conv)
    then show ?thesis using present False m(1) e'(1) v same_confD [OF m(4)] by (simp add: cache_get_def deref_def expired_datum same_limits_def)
  qed
qed

lemma delete_refines:
  assumes "lru_inv h c ps"
  shows "\<exists>h' c'. cache_delete (h, c) k = Some ((h', c'), if lookup k (contents h ps) = None then -1 else 0)
    \<and> lru_rel (h', c') (if lookup k (contents h ps) = None then contents h ps else without k (contents h ps)) \<and> same_limits c c'"
  using assms
proof (cases rule: find_cases [of h c ps k])
  case absent
  then show ?thesis using assms by (auto simp: cache_delete_def lru_rel_def same_limits_def)
next
  case (present xs p ys e)
  obtain s1 h2 c2 h3 where t: "detach_node (h, c) p = Some s1" "hash_remove s1 p = Some (h2, c2)" "free_entry h2 p = Some h3"
      "\<And>c3. lc_size c3 = lc_size c2 - 1 \<Longrightarrow> lc_head c3 = lc_head c2 \<Longrightarrow> lc_tail c3 = lc_tail c2 \<Longrightarrow> lc_hash c3 = lc_hash c2 \<Longrightarrow>
       lru_rel (h3, c3) (contents h (xs @ ys))" "same_limits c c2" by (rule take_out [OF assms [unfolded present(3)]]) blast
  then show ?thesis using present by (simp add: cache_delete_def same_limits_def)
qed

lemma has_refines:
  assumes "lru_inv h c ps"
  shows "cache_has now (h, c) k = Some (case lookup k (contents h ps) of None \<Rightarrow> False | Some x \<Rightarrow> \<not> expired now x)"
  using assms by (cases rule: find_cases [of h c ps k]) (simp_all add: cache_has_def deref_def expired_datum)

lemma evict_lru_refines:
  assumes "lru_inv h c ps"
  shows "\<exists>h' c'. cache_evict_lru (h, c) = Some ((h', c'), if ps = [] then -1 else 0) \<and> lru_rel (h', c') (butlast (contents h ps)) \<and> same_limits c c'"
proof (cases ps rule: rev_cases)
  case Nil
  then show ?thesis using assms lru_invD(1) [OF assms] by (auto simp: cache_evict_lru_def order_ok_def lru_rel_def same_limits_def)
next
  case (snoc xs p)
  note i = assms [unfolded snoc]
  have p: "lc_tail c = p" "p \<noteq> NULL" using lru_invD(1,7) [OF i] by (auto simp: order_ok_def)
  obtain s1 h2 c2 h3 where t: "detach_node (h, c) p = Some s1" "hash_remove s1 p = Some (h2, c2)" "free_entry h2 p = Some h3"
      "\<And>c3. lc_size c3 = lc_size c2 - 1 \<Longrightarrow> lc_head c3 = lc_head c2 \<Longrightarrow> lc_tail c3 = lc_tail c2 \<Longrightarrow> lc_hash c3 = lc_hash c2 \<Longrightarrow>
       lru_rel (h3, c3) (contents h (xs @ []))" "same_limits c c2" by (rule take_out [OF i]) blast
  then show ?thesis using snoc p by (simp add: cache_evict_lru_def Let_def same_limits_def)
qed

text \<open>Linking a new entry in, as the end of \<open>cache_put\<close> does.\<close>

lemma insert_new:
  assumes "lru_inv h c ps" "h q = None" "q \<noteq> NULL" "ce_prev e = NULL" "ce_key e \<notin> set (map (key_of h) ps)"
  obtains s2 h3 c3 where "push_head (h(q \<mapsto> e), c) q = Some s2" "hash_insert s2 q = Some (h3, c3)"
    "lru_rel (h3, c3\<lparr>lc_size := lc_size c3 + 1\<rparr>) (datum e # contents h ps)" "same_limits c c3"
proof -
  note i = lru_invD [OF assms(1)]
  let ?h = "h(q \<mapsto> e)"
  have q: "q \<notin> set ps" using assms(2) i(5) by (metis domIff)
  have o: "order_ok ?h c ps" using i(1) by (rule order_ok_cong) (use q assms(3) i(6) in \<open>auto simp: lru_view\<close>)
  obtain h2 where h2: "push_head (?h, c) q = Some (h2, c\<lparr>lc_head := q, lc_tail := lastp ps q\<rparr>)" "dll h2 NULL (q # ps) NULL" "same_data ?h h2"
    using push_head_ok [OF o q _ assms(4,3)] by auto
  let ?c2 = "c\<lparr>lc_head := q, lc_tail := lastp ps q\<rparr>"
  have d2: "dat h2 p = (if p = q then Some (datum e) else dat h p)" "hn h2 p = (if p = q then Some (hash_next e) else hn h p)" for p
    using h2(3) by (simp_all add: same_data_def lru_view)
  have n2: "h2 NULL = None" "dom h2 = insert q (set ps)" using h2(3) i(5,6) assms(3) by (auto simp: same_data_def)
  have "hash_ok h2 ?c2 (set ps)" using i(2) by (rule hash_ok_cong) (use d2 q in auto)
  from hash_insert_ok [OF this n2(1) q] n2(2) obtain h3 c3 where h3: "hash_insert (h2, ?c2) q = Some (h3, c3)" "hash_ok h3 c3 (insert q (set ps))"
    "lk h3 = lk h2" "dat h3 = dat h2" "h3 NULL = None" "dom h3 = dom h2" "c3 = ?c2\<lparr>lc_hash := lc_hash c3\<rparr>" by auto
  have c3: "lc_head c3 = q" "lc_tail c3 = lastp ps q" "same_conf c c3" by (subst h3(7), simp add: same_conf_def)+
  have "order_ok h3 c3 (q # ps)" using h2(2) h3(3,5) c3 i(8) q dll_cong [of "q # ps" h3 h2 NULL NULL] by (simp add: order_ok_def del: dll.simps)
  moreover have "key_of h3 p = key_of h p" if "p \<in> set ps" for p using that q by (intro key_of_cong) (auto simp: h3(4) d2(1))
  then have eq: "map (key_of h3) ps = map (key_of h) ps" by simp
  have kq: "key_of h3 q = ce_key e" by (simp add: key_of_def h3(4) d2(1) datum_def)
  have "distinct (map (key_of h3) (q # ps))" unfolding list.map eq kq using i(3) assms(5) by simp
  ultimately have "lru_inv h3 (c3\<lparr>lc_size := lc_size c3 + 1\<rparr>) (q # ps)"
    using h3(2,6) n2(2) i(4) c3(3) by (simp add: lru_inv_def order_ok_def hash_ok_def same_conf_def)
  moreover have "contents h3 ps = contents h ps" using q by (intro contents_cong) (auto simp: h3(4) d2(1))
  then have "contents h3 (q # ps) = datum e # contents h ps" by (simp add: h3(4) d2(1))
  ultimately have "lru_rel (h3, c3\<lparr>lc_size := lc_size c3 + 1\<rparr>) (datum e # contents h ps)" unfolding lru_rel_def by (metis fst_conv snd_conv)
  with that h2(1) h3(1) same_confD [OF c3(3)] show thesis by blast
qed

definition fresh_alloc :: "(heap \<Rightarrow> ptr) \<Rightarrow> bool" where
  "fresh_alloc alloc \<longleftrightarrow> (\<forall>h. alloc h \<noteq> NULL \<longrightarrow> h (alloc h) = None)"

text \<open>The allocator does not fail while fewer than \<open>n\<close> entries are allocated.\<close>

definition alloc_total :: "(heap \<Rightarrow> ptr) \<Rightarrow> int \<Rightarrow> bool" where
  "alloc_total alloc n \<longleftrightarrow> (\<forall>h. finite (dom h) \<and> int (card (dom h)) < n \<longrightarrow> alloc h \<noteq> NULL)"

lemma store_value_sel [simp]: "ce_key (store_value now t v e) = ce_key e" "ce_prev (store_value now t v e) = ce_prev e"
  "ce_next (store_value now t v e) = ce_next e" "hash_next (store_value now t v e) = hash_next e"
  "datum (store_value now t v e) = (ce_key e, take (CACHE_MAX_VALUE_LEN - 1) v, now, t)"
  by (simp_all add: store_value_def Let_def datum_def)

text \<open>Overwriting the data of an entry but not its key.\<close>

lemma overwrite_ok:
  assumes "lru_inv h c ps" "h p = Some e" "ce_key e' = ce_key e" "ce_prev e' = ce_prev e" "ce_next e' = ce_next e" "hash_next e' = hash_next e"
  shows "lru_inv (h(p \<mapsto> e')) c ps"
proof -
  note i = lru_invD [OF assms(1)]
  let ?h = "h(p \<mapsto> e')"
  have v: "lk ?h = lk h" "hn ?h = hn h" "key_of ?h = key_of h" "dom ?h = dom h"
    using assms(2-6) by (auto simp: fun_eq_iff lru_view lk_def hn_def key_of_def dat_def datum_def)
  have "p \<noteq> NULL" using assms(2) i(6) by (metis option.distinct(1))
  then have n: "?h NULL = None" using i(6) by simp
  have "order_ok ?h c ps" using i(1) by (rule order_ok_cong) (simp_all add: v(1) n del: fun_upd_apply)
  moreover have "chain ?h = chain h" by (intro ext chain_cong) (simp add: v(2) del: fun_upd_apply)
  ultimately show ?thesis using i(2-5) v by (simp add: lru_inv_def hash_ok_def del: fun_upd_apply)
qed

lemma put_refines:
  assumes "lru_inv h c ps" "fresh_alloc alloc" "length k < CACHE_MAX_KEY_LEN" "0 < lc_capacity c" "int (length ps) \<le> lc_capacity c"
  shows "\<exists>ok h' c' r. (alloc_total alloc (lc_capacity c) \<longrightarrow> ok) \<and> cache_put alloc now (h, c) k v ttl = Some ((h', c'), r)
    \<and> snd (lru_spec (lc_capacity c) (default_ttl c) ok (Put now k v ttl) (contents h ps)) = Code r
    \<and> lru_rel (h', c') (fst (lru_spec (lc_capacity c) (default_ttl c) ok (Put now k v ttl) (contents h ps))) \<and> same_limits c c'"
  using assms(1)
proof (cases rule: find_cases [of h c ps k])
  case (present xs p ys e)
  let ?e = "store_value now (if ttl > 0 then ttl else default_ttl c) v e"
  let ?h = "h(p \<mapsto> ?e)"
  have "lru_inv ?h c (xs @ p # ys)" using overwrite_ok [OF assms(1) present(4), of ?e] present(3) by simp
  then obtain h' c' where m: "move_to_head (?h, c) p = Some (h', c')" "lru_inv h' c' (p # xs @ ys)" "dat h' = dat ?h" "same_conf c c'"
    by (rule to_front)
  have p: "p \<notin> set (xs @ ys)" using lru_invD(8) [OF assms(1)] present(3) by simp
  have "contents h' (xs @ ys) = contents h (xs @ ys)" using p by (intro contents_cong) (auto simp: m(3) lru_view)
  moreover have "dat h' p = Some (datum ?e)" using m(3) by (simp add: lru_view)
  ultimately have "lru_rel (h', c') (datum ?e # contents h (xs @ ys))" using m(2) unfolding lru_rel_def
    by (metis contents_simps(2) fst_conv option.sel snd_conv)
  then show ?thesis using present(1,2,4-7) m(1) same_confD [OF m(4)]
    by (intro exI [of _ True] exI [of _ h'] exI [of _ c'] exI [of _ 0]) (simp add: cache_put_def upd_def deref_def Let_def del: fun_upd_apply)
next
  case absent
  let ?full = "lc_size c \<ge> lc_capacity c"
  let ?L1 = "if ?full then butlast (contents h ps) else contents h ps"
  obtain h1 c1 r1 where e: "(if ?full then cache_evict_lru (h, c) else Some ((h, c), 0)) = Some ((h1, c1), r1)" "lru_rel (h1, c1) ?L1" "same_limits c c1"
    using evict_lru_refines [OF assms(1)] assms(1) by (cases ?full) (auto simp: lru_rel_def same_limits_def)
  from e(2) obtain ps1 where ps1: "lru_inv h1 c1 ps1" "?L1 = contents h1 ps1" by (auto simp: lru_rel_def)
  note i1 = lru_invD [OF ps1(1)]
  have full: "?full \<longleftrightarrow> int (length (contents h ps)) \<ge> lc_capacity c" using lru_invD(4) [OF assms(1)] by simp
  have "k \<notin> set (map fst (contents h ps))" using absent(2) by (auto simp: lookup_def find_None_iff)
  then have "k \<notin> set (map fst ?L1)" by (auto dest: in_set_butlastD)
  then have k: "k \<notin> set (map (key_of h1) ps1)" using fst_contents [of ps1 h1] i1(5) ps1(2) by simp
  show ?thesis
  proof (cases "alloc h1 = NULL")
    case True
    have "length ps1 = length ?L1" using ps1(2) by simp
    then have "int (length ps1) < lc_capacity c" using assms(4,5) lru_invD(4) [OF assms(1)] by (simp split: if_splits)
    moreover have "card (dom h1) = length ps1" "finite (dom h1)" using i1(5,8) by (simp_all add: distinct_card)
    ultimately have "\<not> alloc_total alloc (lc_capacity c)" using True unfolding alloc_total_def by (metis)
    then show ?thesis using absent e full True
      by (intro exI [of _ False] exI [of _ h1] exI [of _ c1] exI [of _ "-1"]) (simp add: cache_put_def Let_def)
  next
    case False
    let ?t = "if ttl > 0 then ttl else default_ttl c"
    let ?e = "store_value now ?t v (zero_entry\<lparr>ce_key := strncpy_buf CACHE_MAX_KEY_LEN k\<rparr>)"
    have ke: "ce_key ?e = k" using assms(3) by (simp add: strncpy_buf_def)
    have n0: "h1 (alloc h1) = None" using assms(2) False by (simp add: fresh_alloc_def)
    have e0: "ce_prev ?e = NULL" "ce_key ?e \<notin> set (map (key_of h1) ps1)" using k ke by (simp_all add: zero_entry_def)
    obtain s2 h3 c3 where n: "push_head (h1(alloc h1 \<mapsto> ?e), c1) (alloc h1) = Some s2" "hash_insert s2 (alloc h1) = Some (h3, c3)"
      "lru_rel (h3, c3\<lparr>lc_size := lc_size c3 + 1\<rparr>) (datum ?e # contents h1 ps1)" "same_limits c1 c3"
      by (rule insert_new [OF ps1(1) n0 False e0])
    have "datum ?e = (k, take (CACHE_MAX_VALUE_LEN - 1) v, now, ?t)" using ke by simp
    then show ?thesis using absent e n full ps1(2) False
      by (intro exI [of _ True] exI [of _ h3] exI [of _ "c3\<lparr>lc_size := lc_size c3 + 1\<rparr>"] exI [of _ 0])
         (simp add: cache_put_def Let_def same_limits_def del: fun_upd_apply)
  qed
qed

lemma lru_inv_prev:
  assumes "lru_inv h c (xs @ p # ys)"
  obtains e where "h p = Some e" "ce_prev e = lastp xs NULL" "p \<noteq> NULL"
proof -
  have "lk h p = Some (lastp xs NULL, first ys NULL)" using lru_invD(1) [OF assms] by (simp add: order_ok_def dll_append)
  then show thesis using that lru_invD(7) [OF assms] by (auto elim: lk_SomeE)
qed

lemma expire_loop_ok:
  assumes "lru_inv h c (xs @ zs)"
  shows "\<exists>h' c'. expire_loop now (h, c) (lastp xs NULL) n =
      Some ((h', c'), n + int (length (filter (\<lambda>x. expired (now (fst x)) x) (contents h xs))))
    \<and> lru_rel (h', c') (filter (\<lambda>x. \<not> expired (now (fst x)) x) (contents h xs) @ contents h zs) \<and> same_limits c c'"
  using assms
proof (induction xs arbitrary: h c zs n rule: rev_induct)
  case Nil
  then show ?case by (subst expire_loop.simps) (auto simp: lru_rel_def same_limits_def)
next
  case (snoc p xs)
  have inv: "lru_inv h c (xs @ p # zs)" using snoc(2) by simp
  obtain e where e: "h p = Some e" "ce_prev e = lastp xs NULL" "p \<noteq> NULL" by (rule lru_inv_prev [OF inv])
  have d: "dat h p = Some (datum e)" "fst (datum e) = ce_key e" using dat_key [of h p e, OF e(1)] by simp_all
  show ?case
  proof (cases "expired (now (ce_key e)) (datum e)")
    case False
    have "expire_loop now (h, c) p n = expire_loop now (h, c) (lastp xs NULL) n"
      using e False by (subst expire_loop.simps) (simp add: deref_def expired_datum)
    then show ?thesis using snoc(1) [OF inv, of n] d False by simp
  next
    case True
    obtain s1 h2 c2 where r: "hash_remove (h, c) p = Some s1" "detach_node s1 p = Some (h2, c2)" "order_ok h2 c2 (xs @ zs)"
      "hash_ok h2 c2 (set (xs @ p # zs) - {p})" "dat h2 = dat h" "dom h2 = dom h" "same_conf c c2"
      by (rule remove_then_detach [OF inv])
    let ?c3 = "c2\<lparr>lc_size := lc_size c2 - 1, lc_evictions := lc_evictions c2 + 1\<rparr>" and ?h3 = "h2(p := None)"
    have "lc_size ?c3 = lc_size c2 - 1" "lc_head ?c3 = lc_head c2" "lc_tail ?c3 = lc_tail c2" "lc_hash ?c3 = lc_hash c2" by simp_all
    note f = free_entry_ok [OF r(3-6) inv r(7) this]
    have p: "p \<notin> set xs" "p \<notin> set zs" using lru_invD(8) [OF inv] by simp_all
    have co: "contents ?h3 xs = contents h xs" "contents ?h3 zs = contents h zs" using p by (auto intro!: contents_cong f(3))
    have "expire_loop now (h, c) p n = expire_loop now (?h3, ?c3) (lastp xs NULL) (n + 1)"
      using e True r(1,2) f(1) by (subst expire_loop.simps) (simp add: deref_def expired_datum)
    moreover obtain h' c' where "expire_loop now (?h3, ?c3) (lastp xs NULL) (n + 1) =
        Some ((h', c'), n + 1 + int (length (filter (\<lambda>x. expired (now (fst x)) x) (contents h xs))))"
      "lru_rel (h', c') (filter (\<lambda>x. \<not> expired (now (fst x)) x) (contents h xs) @ contents h zs)" "same_limits ?c3 c'"
      using snoc(1) [OF f(2), of "n + 1"] unfolding co by blast
    ultimately show ?thesis using d True same_confD [OF r(7)]
      by (intro exI [of _ h'] exI [of _ c']) (simp add: same_limits_def)
  qed
qed

lemma evict_expired_refines:
  assumes "lru_inv h c ps"
  shows "\<exists>h' c'. cache_evict_expired now (h, c) = Some ((h', c'), int (length (filter (\<lambda>x. expired (now (fst x)) x) (contents h ps))))
    \<and> lru_rel (h', c') (filter (\<lambda>x. \<not> expired (now (fst x)) x) (contents h ps)) \<and> same_limits c c'"
  using expire_loop_ok [of h c ps "[]" now 0] assms lru_invD(1) [OF assms] by (simp add: cache_evict_expired_def order_ok_def)

lemma clear_loop_ok:
  assumes "dll h a ps NULL" "distinct ps" "NULL \<notin> set ps"
  shows "clear_loop h (first ps NULL) = Some (h |` (- set ps))"
  using assms
proof (induction ps arbitrary: h a)
  case Nil
  then show ?case by (subst clear_loop.simps) (simp add: restrict_map_def)
next
  case (Cons p ps)
  from Cons(2) obtain e where e: "h p = Some e" "ce_next e = first ps NULL" by (auto elim: lk_SomeE)
  have "dll (h(p := None)) p ps NULL = dll h p ps NULL" by (rule dll_cong) (use Cons(3) in \<open>auto simp: lru_view\<close>)
  with Cons(2) have "dll (h(p := None)) p ps NULL" by simp
  then have "clear_loop (h(p := None)) (first ps NULL) = Some (h(p := None) |` (- set ps))" by (rule Cons(1)) (use Cons(3,4) in simp_all)
  moreover have "h(p := None) |` (- set ps) = h |` (- set (p # ps))" by (auto simp: restrict_map_def fun_eq_iff)
  ultimately show ?case using e Cons(4) by (subst clear_loop.simps) (simp add: deref_def free_entry_def)
qed

lemma lru_inv_empty:
  "length (lc_hash c) = CACHE_HASH_SIZE \<Longrightarrow> (\<forall>b < CACHE_HASH_SIZE. lc_hash c ! b = NULL) \<Longrightarrow> lc_head c = NULL \<Longrightarrow> lc_tail c = NULL \<Longrightarrow>
   lc_size c = 0 \<Longrightarrow> lru_inv Map.empty c []"
  by (simp add: lru_inv_def order_ok_def hash_ok_def)

lemma clear_refines:
  assumes "lru_inv h c ps"
  shows "\<exists>c'. cache_clear (h, c) = Some (Map.empty, c') \<and> lru_rel (Map.empty, c') [] \<and> same_limits c c'"
proof -
  note i = lru_invD [OF assms]
  have "h |` (- set ps) = Map.empty" using i(5) by (auto simp: restrict_map_def fun_eq_iff dom_def)
  moreover have "clear_loop h (lc_head c) = Some (h |` (- set ps))" using clear_loop_ok [of h NULL ps] i(1,7,8) by (simp add: order_ok_def)
  ultimately have "cache_clear (h, c) = Some (Map.empty, c\<lparr>lc_head := NULL, lc_tail := NULL, lc_size := 0, lc_hash := replicate CACHE_HASH_SIZE NULL\<rparr>)"
    by (simp add: cache_clear_def)
  moreover have "lru_inv Map.empty (c\<lparr>lc_head := NULL, lc_tail := NULL, lc_size := 0, lc_hash := replicate CACHE_HASH_SIZE NULL\<rparr>) []"
    by (rule lru_inv_empty) simp_all
  ultimately show ?thesis by (auto simp: lru_rel_def same_limits_def intro!: exI [of _ "[]"])
qed

section \<open>Runs\<close>

definition op_ok :: "lru_op \<Rightarrow> bool" where
  "op_ok op = (case op of Put now k v ttl \<Rightarrow> length k < CACHE_MAX_KEY_LEN | _ \<Rightarrow> True)"

lemma exec_refines:
  assumes "lru_rel (h, c) L" "fresh_alloc alloc" "op_ok op" "0 < lc_capacity c" "int (length L) \<le> lc_capacity c"
  shows "\<exists>h' c' ok. lru_exec alloc op (h, c) = Some ((h', c'), snd (lru_spec (lc_capacity c) (default_ttl c) ok op L))
     \<and> (alloc_total alloc (lc_capacity c) \<longrightarrow> ok)
     \<and> lru_rel (h', c') (fst (lru_spec (lc_capacity c) (default_ttl c) ok op L)) \<and> same_limits c c'"
proof -
  obtain ps where ps: "lru_inv h c ps" "L = contents h ps" using assms(1) by (auto simp: lru_rel_def)
  show ?thesis
  proof (cases op)
    case (Get now k)
    obtain h' c' where "cache_get now (h, c) k = Some ((h', c'), case lookup k L of None \<Rightarrow> None | Some x \<Rightarrow> if expired now x then None else Some (fst (snd x)))"
      "lru_rel (h', c') (fst (lru_spec (lc_capacity c) (default_ttl c) True (Get now k) L))" "same_limits c c'"
      using get_refines [OF ps(1)] unfolding ps(2) by blast
    then show ?thesis unfolding Get by (intro exI [of _ h'] exI [of _ c'] exI [of _ True]) (auto split: option.splits)
  next
    case (Put now k v ttl)
    then have "length k < CACHE_MAX_KEY_LEN" using assms(3) by (simp add: op_ok_def)
    from put_refines [OF ps(1) assms(2) this assms(4), of now v ttl] assms(5) obtain ok h' c' r where
      "alloc_total alloc (lc_capacity c) \<longrightarrow> ok" "cache_put alloc now (h, c) k v ttl = Some ((h', c'), r)"
      "snd (lru_spec (lc_capacity c) (default_ttl c) ok (Put now k v ttl) L) = Code r"
      "lru_rel (h', c') (fst (lru_spec (lc_capacity c) (default_ttl c) ok (Put now k v ttl) L))" "same_limits c c'"
      unfolding ps(2) contents_simps(4) by blast
    then show ?thesis unfolding Put by (intro exI [of _ h'] exI [of _ c'] exI [of _ ok]) (simp del: lru_spec.simps)
  next
    case (Delete k)
    obtain h' c' where "cache_delete (h, c) k = Some ((h', c'), if lookup k L = None then -1 else 0)"
      "lru_rel (h', c') (if lookup k L = None then L else without k L)" "same_limits c c'"
      using delete_refines [OF ps(1), of k] unfolding ps(2) by blast
    then show ?thesis unfolding Delete by (intro exI [of _ h'] exI [of _ c'] exI [of _ True]) (auto split: if_splits)
  next
    case (Has now k)
    then show ?thesis using has_refines [OF ps(1), of now k] assms(1) unfolding ps(2) by (auto simp: same_limits_def)
  next
    case (Evict_expired now)
    then show ?thesis using evict_expired_refines [OF ps(1), of now] unfolding ps(2) by auto
  next
    case Evict_lru
    then show ?thesis using evict_lru_refines [OF ps(1)] unfolding ps(2) by (cases ps) auto
  next
    case Clear
    then show ?thesis using clear_refines [OF ps(1)] unfolding ps(2) by auto
  qed
qed

fun lru_run :: "(heap \<Rightarrow> ptr) \<Rightarrow> lru_op list \<Rightarrow> lru \<Rightarrow> (lru \<times> lru_out list) option" where
  "lru_run alloc [] s = Some (s, [])"
| "lru_run alloc (op # ops) s = do { (s1, out) \<leftarrow> lru_exec alloc op s; (s2, outs) \<leftarrow> lru_run alloc ops s1; Some (s2, out # outs) }"

fun spec_run :: "int \<Rightarrow> int \<Rightarrow> (lru_op \<times> bool) list \<Rightarrow> entry list \<Rightarrow> entry list \<times> lru_out list" where
  "spec_run cap dttl [] L = (L, [])"
| "spec_run cap dttl ((op, ok) # ops) L =
     (case lru_spec cap dttl ok op L of (L1, out) \<Rightarrow> case spec_run cap dttl ops L1 of (L2, outs) \<Rightarrow> (L2, out # outs))"

lemma length_without: "length (without k L) \<le> length L"
  by (simp add: without_def)

lemma length_without_lookup: "lookup k L \<noteq> None \<Longrightarrow> Suc (length (without k L)) \<le> length L"
proof -
  assume "lookup k L \<noteq> None"
  then obtain x where "x \<in> set L" "fst x = k" by (auto simp: lookup_def find_None_iff)
  then show ?thesis using length_filter_less [of x L "\<lambda>x. fst x \<noteq> k"] by (simp add: without_def Suc_le_eq)
qed

lemma lru_spec_bound:
  assumes "int (length L) \<le> cap" "0 < cap"
  shows "int (length (fst (lru_spec cap dttl ok op L))) \<le> cap"
proof (cases op)
  case (Get now k)
  then show ?thesis using assms length_without [of k L] length_without_lookup [of k L] by (auto split: option.splits)
next
  case (Put now k v ttl)
  then show ?thesis using assms length_without_lookup [of k L] by (auto simp: Let_def)
next
  case (Delete k)
  then show ?thesis using assms length_without [of k L] by auto
next
  case (Evict_expired now)
  show ?thesis unfolding Evict_expired lru_spec.simps fst_conv
    using assms(1) length_filter_le [of "\<lambda>x. \<not> expired (now (fst x)) x" L] by linarith
qed (use assms in auto)

lemma run_refines:
  assumes "lru_rel s L" "fresh_alloc alloc" "list_all op_ok ops" "0 < lc_capacity (snd s)" "int (length L) \<le> lc_capacity (snd s)"
  shows "\<exists>s' oks. length oks = length ops \<and> (alloc_total alloc (lc_capacity (snd s)) \<longrightarrow> (\<forall>ok \<in> set oks. ok))
     \<and> lru_run alloc ops s = Some (s', snd (spec_run (lc_capacity (snd s)) (default_ttl (snd s)) (zip ops oks) L))
     \<and> lru_rel s' (fst (spec_run (lc_capacity (snd s)) (default_ttl (snd s)) (zip ops oks) L))
     \<and> int (length (fst (spec_run (lc_capacity (snd s)) (default_ttl (snd s)) (zip ops oks) L))) \<le> lc_capacity (snd s)"
  using assms
proof (induction ops arbitrary: s L)
  case Nil
  then show ?case by simp
next
  case (Cons op ops)
  let ?cap = "lc_capacity (snd s)" and ?ttl = "default_ttl (snd s)"
  obtain h' c' ok where e: "lru_exec alloc op s = Some ((h', c'), snd (lru_spec ?cap ?ttl ok op L))" "alloc_total alloc ?cap \<longrightarrow> ok"
    "lru_rel (h', c') (fst (lru_spec ?cap ?ttl ok op L))" "same_limits (snd s) c'"
    using exec_refines [of "fst s" "snd s" L alloc op] Cons(2-6) by auto
  have lim: "lc_capacity c' = ?cap" "default_ttl c' = ?ttl" using e(4) by (simp_all add: same_limits_def)
  obtain s' oks where IH: "length oks = length ops" "alloc_total alloc ?cap \<longrightarrow> (\<forall>ok \<in> set oks. ok)"
    "lru_run alloc ops (h', c') = Some (s', snd (spec_run ?cap ?ttl (zip ops oks) (fst (lru_spec ?cap ?ttl ok op L))))"
    "lru_rel s' (fst (spec_run ?cap ?ttl (zip ops oks) (fst (lru_spec ?cap ?ttl ok op L))))"
    "int (length (fst (spec_run ?cap ?ttl (zip ops oks) (fst (lru_spec ?cap ?ttl ok op L))))) \<le> ?cap"
    using Cons(1) [OF e(3) Cons(3)] Cons(4,5) lim lru_spec_bound [OF Cons(6,5), of ?ttl ok op] by (auto simp del: lru_spec.simps)
  have "spec_run ?cap ?ttl (zip (op # ops) (ok # oks)) L =
      (fst (spec_run ?cap ?ttl (zip ops oks) (fst (lru_spec ?cap ?ttl ok op L))),
       snd (lru_spec ?cap ?ttl ok op L) # snd (spec_run ?cap ?ttl (zip ops oks) (fst (lru_spec ?cap ?ttl ok op L))))"
    by (simp add: split_beta del: lru_spec.simps)
  then show ?case using IH e(1,2) by (intro exI [of _ s'] exI [of _ "ok # oks"]) (simp del: lru_spec.simps)
qed

text \<open>C14. Every run of the cache from its initialization returns, without touching memory it does not own, when keys fit their array and
  the allocator returns fresh addresses: the answers are those of a list of entries ordered by recency of use, bounded by the capacity,
  from which a full cache drops the last entry and a look-up moves its entry to the front unless it has expired; only a put whose allocation
  fails answers -1.  At the end the store holds exactly the entries of that list, as a doubly linked list and in hash chains.\<close>

theorem lru_cache_refines:
  assumes "fresh_alloc alloc" "list_all op_ok ops"
  shows "\<exists>s oks L. length oks = length ops \<and> (alloc_total alloc (if cap > 0 then cap else 64) \<longrightarrow> (\<forall>ok \<in> set oks. ok))
    \<and> lru_run alloc ops (Map.empty, cache_init cap ttl) =
        Some (s, snd (spec_run (if cap > 0 then cap else 64) (if ttl \<ge> 0 then ttl else 0) (zip ops oks) []))
    \<and> L = fst (spec_run (if cap > 0 then cap else 64) (if ttl \<ge> 0 then ttl else 0) (zip ops oks) [])
    \<and> lru_rel s L \<and> int (length L) \<le> (if cap > 0 then cap else 64)"
proof -
  have "lru_inv Map.empty (cache_init cap ttl) []" by (rule lru_inv_empty) (simp_all add: cache_init_def)
  then have "lru_rel (Map.empty, cache_init cap ttl) []" by (auto simp: lru_rel_def intro!: exI [of _ "[]"])
  from run_refines [OF this assms] show ?thesis by (simp add: cache_init_def)
qed

text \<open>A cache of two entries with an allocator of two addresses: the entry used least recently makes room for the third.\<close>

definition demo_alloc :: "heap \<Rightarrow> ptr" where
  "demo_alloc h = (if h 1 = None then 1 else if h 2 = None then 2 else NULL)"

definition demo_time :: timespec where "demo_time = \<lparr>tv_sec = 100, tv_nsec = 0\<rparr>"

definition demo_ops :: "lru_op list" where
  "demo_ops = [Put demo_time ''a'' ''1'' 0, Put demo_time ''b'' ''2'' 0, Get demo_time ''a'', Put demo_time ''c'' ''3'' 0,
     Get demo_time ''b'', Get demo_time ''a'', Delete ''c'', Delete ''c'']"

lemma demo_alloc_ok: "fresh_alloc demo_alloc" "alloc_total demo_alloc 2"
proof -
  show "fresh_alloc demo_alloc" by (simp add: fresh_alloc_def demo_alloc_def)
  have "demo_alloc h \<noteq> NULL" if "finite (dom h)" "int (card (dom h)) < 2" for h :: heap
  proof
    assume "demo_alloc h = NULL"
    then have "{1, 2} \<subseteq> dom h" by (auto simp: demo_alloc_def split: if_splits)
    from card_mono [OF that(1) this] that(2) show False by simp
  qed
  then show "alloc_total demo_alloc 2" by (simp add: alloc_total_def)
qed

theorem lru_cache_refines_witness:
  "\<exists>s. lru_run demo_alloc demo_ops (Map.empty, cache_init 2 0) =
     Some (s, [Code 0, Code 0, Value (Some ''1''), Code 0, Value None, Value (Some ''1''), Code 0, Code (-1)])
   \<and> lru_rel s [(''a'', ''1'', demo_time, 0)]"
proof -
  have ops: "list_all op_ok demo_ops" by (simp add: demo_ops_def op_ok_def CACHE_MAX_KEY_LEN_def)
  obtain s oks where r: "length oks = length demo_ops" "alloc_total demo_alloc 2 \<longrightarrow> (\<forall>ok \<in> set oks. ok)"
    "lru_run demo_alloc demo_ops (Map.empty, cache_init 2 0) = Some (s, snd (spec_run 2 0 (zip demo_ops oks) []))"
    "lru_rel s (fst (spec_run 2 0 (zip demo_ops oks) []))"
    using lru_cache_refines [OF demo_alloc_ok(1) ops, of 2 0] by auto
  have "oks = replicate 8 True" using r(1,2) demo_alloc_ok(2) by (intro replicate_eqI) (auto simp: demo_ops_def)
  then have "spec_run 2 0 (zip demo_ops oks) [] = ([(''a'', ''1'', demo_time, 0)],
      [Code 0, Code 0, Value (Some ''1''), Code 0, Value None, Value (Some ''1''), Code 0, Code (-1)])"
    by (simp add: demo_ops_def numeral_eq_Suc lookup_def without_def expired_def entry_expired_def CACHE_MAX_VALUE_LEN_def)
  with r(3,4) show ?thesis by auto
qed

section \<open>Keys that do not fit\<close>

text \<open>A key is stored cut to 127 characters, but looked up whole: an entry put under a longer key is not found, and the entry stays.\<close>

lemma long_key_lost:
  assumes "lru_rel s L" "CACHE_MAX_KEY_LEN \<le> length k" "\<forall>x \<in> set L. length (fst x) < CACHE_MAX_KEY_LEN"
  shows "\<exists>s'. lru_exec alloc (Get now k) s = Some (s', Value None)"
proof -
  obtain ps where ps: "lru_inv (fst s) (snd s) ps" "L = contents (fst s) ps" using assms(1) by (auto simp: lru_rel_def)
  have "lookup k L = None" using assms(2,3) by (auto simp: lookup_def find_None_iff)
  then show ?thesis using get_refines [OF ps(1), of now k 0 0 True] ps(2) by auto
qed

end
