(* ===== verification/Workflow.thy ===== *)
theory Workflow
  imports Prelude
begin

text \<open>
  The workflow engine of \<open>src/mini-business-arch/src/workflow_engine.c\<close>: definitions of states and guarded transitions with actions,
  instances that take events and timers, and the approval workflow.

  A function pointer is a name, and the parameters \<open>act\<close> and \<open>grd\<close> say what calling an action or a guard does: it gets its context and the data of
  the instance and gives the new data, and a guard also its answer.  The results of actions are ignored, as in the source.  A name that
  fills an array without a terminator runs on into the field that follows it.  The timers of an instance are distinct objects.  The fields
  of an instance for forks, which no function reads or writes, are left out.
\<close>

section \<open>Data\<close>

definition WORKFLOW_NAME_LEN :: nat where "WORKFLOW_NAME_LEN = 128"
definition WORKFLOW_STATE_LEN :: nat where "WORKFLOW_STATE_LEN = 64"
definition WORKFLOW_EVENT_LEN :: nat where "WORKFLOW_EVENT_LEN = 64"
definition WORKFLOW_GUARD_LEN :: nat where "WORKFLOW_GUARD_LEN = 256"
definition WORKFLOW_MAX_STATES :: nat where "WORKFLOW_MAX_STATES = 32"
definition WORKFLOW_MAX_TRANS :: nat where "WORKFLOW_MAX_TRANS = 64"
definition WORKFLOW_MAX_ACTIONS :: nat where "WORKFLOW_MAX_ACTIONS = 16"
definition DDD_ID_LEN :: nat where "DDD_ID_LEN = 64"

record 'f WorkflowAction =
  wa_name :: string
  wa_fn :: 'f
  wa_context :: ptr

record 'f WorkflowState =
  ws_name :: string
  display_name :: string
  is_initial :: bool
  is_final :: bool
  on_entry :: "'f WorkflowAction list"
  on_exit :: "'f WorkflowAction list"

datatype WFBranchType = WF_BRANCH_SIMPLE | WF_BRANCH_FORK | WF_BRANCH_JOIN | WF_BRANCH_TIMER

record ('f, 'g) WorkflowTransition =
  source_state :: string
  target_state :: string
  wt_event :: string
  branch_type :: WFBranchType
  guard :: "'g option"
  guard_context :: ptr
  guard_desc :: string
  on_transition :: "'f WorkflowAction list"

record ('f, 'g) WorkflowDefinition =
  wd_name :: string
  states :: "'f WorkflowState list"
  transitions :: "('f, 'g) WorkflowTransition list"

record WorkflowTimer =
  timer_id :: string
  wtm_event :: string
  trigger_at_ms :: u64
  triggered :: bool
  repeating :: bool
  interval_ms :: u64

record 'd WorkflowInstance =
  current_state :: string
  previous_state :: string
  instance_id :: string
  wi_data :: 'd
  is_completed :: bool
  is_forked :: bool
  timers :: "WorkflowTimer list"

section \<open>Building a definition\<close>

definition workflow_define :: "string \<Rightarrow> ('f, 'g) WorkflowDefinition" where
  "workflow_define name = \<lparr>wd_name = strncpy_buf WORKFLOW_NAME_LEN name, states = [], transitions = []\<rparr>"

definition workflow_find_state :: "('f, 'g) WorkflowDefinition \<Rightarrow> string \<Rightarrow> nat option" where
  "workflow_find_state def name = find_idx (\<lambda>s. ws_name s = name) (states def) (length (states def))"

definition workflow_find_transition :: "('f, 'g) WorkflowDefinition \<Rightarrow> string \<Rightarrow> string \<Rightarrow> ('f, 'g) WorkflowTransition option" where
  "workflow_find_transition def from event = find (\<lambda>t. source_state t = from \<and> wt_event t = event) (transitions def)"

definition workflow_initial_state :: "('f, 'g) WorkflowDefinition \<Rightarrow> string option" where
  "workflow_initial_state def = map_option ws_name (find is_initial (states def))"

definition workflow_is_final_state :: "('f, 'g) WorkflowDefinition \<Rightarrow> string \<Rightarrow> bool" where
  "workflow_is_final_state def name =
     (case workflow_find_state def name of None \<Rightarrow> False | Some i \<Rightarrow> is_final (states def ! i))"

definition workflow_add_state :: "('f, 'g) WorkflowDefinition \<Rightarrow> string \<Rightarrow> string option \<Rightarrow> bool \<Rightarrow> bool \<Rightarrow> ('f, 'g) WorkflowDefinition \<times> int" where
  "workflow_add_state def name display initial final =
     (if length (states def) \<ge> WORKFLOW_MAX_STATES then (def, -1)
      else (def\<lparr>states := states def @
              [\<lparr>ws_name = strncpy_buf WORKFLOW_STATE_LEN name,
                display_name = strncpy_buf WORKFLOW_NAME_LEN (case display of Some d \<Rightarrow> d | None \<Rightarrow> name),
                is_initial = initial, is_final = final, on_entry = [], on_exit = []\<rparr>]\<rparr>, 0))"

definition on_state :: "nat \<Rightarrow> ('f WorkflowState \<Rightarrow> 'f WorkflowState) \<Rightarrow> ('f, 'g) WorkflowDefinition \<Rightarrow> ('f, 'g) WorkflowDefinition" where
  "on_state i f def = def\<lparr>states := (states def)[i := f (states def ! i)]\<rparr>"

definition workflow_add_state_entry_action :: "('f, 'g) WorkflowDefinition \<Rightarrow> string \<Rightarrow> 'f \<Rightarrow> ptr \<Rightarrow> ('f, 'g) WorkflowDefinition \<times> int" where
  "workflow_add_state_entry_action def name action ctx =
     (case workflow_find_state def name of
        None \<Rightarrow> (def, -1)
      | Some i \<Rightarrow>
          if length (on_entry (states def ! i)) \<ge> WORKFLOW_MAX_ACTIONS then (def, -1)
          else (on_state i (\<lambda>s. s\<lparr>on_entry := on_entry s @ [\<lparr>wa_name = [], wa_fn = action, wa_context = ctx\<rparr>]\<rparr>) def, 0))"

definition workflow_add_state_exit_action :: "('f, 'g) WorkflowDefinition \<Rightarrow> string \<Rightarrow> 'f \<Rightarrow> ptr \<Rightarrow> ('f, 'g) WorkflowDefinition \<times> int" where
  "workflow_add_state_exit_action def name action ctx =
     (case workflow_find_state def name of
        None \<Rightarrow> (def, -1)
      | Some i \<Rightarrow>
          if length (on_exit (states def ! i)) \<ge> WORKFLOW_MAX_ACTIONS then (def, -1)
          else (on_state i (\<lambda>s. s\<lparr>on_exit := on_exit s @ [\<lparr>wa_name = [], wa_fn = action, wa_context = ctx\<rparr>]\<rparr>) def, 0))"

definition simple_transition :: "string \<Rightarrow> string \<Rightarrow> string \<Rightarrow> ('f, 'g) WorkflowTransition" where
  "simple_transition src trg event =
     \<lparr>source_state = src, target_state = trg, wt_event = event, branch_type = WF_BRANCH_SIMPLE, guard = None, guard_context = NULL,
      guard_desc = [], on_transition = []\<rparr>"

definition workflow_add_transition :: "('f, 'g) WorkflowDefinition \<Rightarrow> string \<Rightarrow> string \<Rightarrow> string \<Rightarrow> ('f, 'g) WorkflowDefinition \<times> int" where
  "workflow_add_transition def src trg event =
     (if length (transitions def) \<ge> WORKFLOW_MAX_TRANS then (def, -1)
      else (def\<lparr>transitions := transitions def @
              [simple_transition (strncpy_buf WORKFLOW_STATE_LEN src) (strncpy_buf WORKFLOW_STATE_LEN trg)
                 (strncpy_buf WORKFLOW_EVENT_LEN event)]\<rparr>, 0))"

definition workflow_add_guarded_transition ::
    "('f, 'g) WorkflowDefinition \<Rightarrow> string \<Rightarrow> string \<Rightarrow> string \<Rightarrow> 'g option \<Rightarrow> ptr \<Rightarrow> string option \<Rightarrow> ('f, 'g) WorkflowDefinition \<times> int" where
  "workflow_add_guarded_transition def src trg event g ctx desc =
     (case workflow_add_transition def src trg event of
        (def1, rc) \<Rightarrow>
          if rc \<noteq> 0 then (def1, rc)
          else
            let n = length (transitions def1) - 1; t = transitions def1 ! n;
                t1 = t\<lparr>guard := g, guard_context := ctx\<rparr>;
                t2 = (case desc of None \<Rightarrow> t1 | Some d \<Rightarrow> t1\<lparr>guard_desc := strncpy_buf WORKFLOW_GUARD_LEN d\<rparr>)
            in (def1\<lparr>transitions := (transitions def1)[n := t2]\<rparr>, 0))"

definition workflow_add_transition_action ::
    "('f, 'g) WorkflowDefinition \<Rightarrow> string \<Rightarrow> string \<Rightarrow> 'f \<Rightarrow> ptr \<Rightarrow> ('f, 'g) WorkflowDefinition \<times> int" where
  "workflow_add_transition_action def src event action ctx =
     (case find_idx (\<lambda>t. source_state t = src \<and> wt_event t = event) (transitions def) (length (transitions def)) of
        None \<Rightarrow> (def, -1)
      | Some i \<Rightarrow>
          let t = transitions def ! i
          in if length (on_transition t) \<ge> WORKFLOW_MAX_ACTIONS then (def, -1)
             else (def\<lparr>transitions := (transitions def)[i := t\<lparr>on_transition := on_transition t @
                     [\<lparr>wa_name = [], wa_fn = action, wa_context = ctx\<rparr>]\<rparr>]\<rparr>, 0))"

text \<open>What is read from an array of \<open>n\<close> characters without a terminator, followed by \<open>rest\<close>.\<close>

definition run_on :: "nat \<Rightarrow> string \<Rightarrow> string \<Rightarrow> string" where
  "run_on n s rest = (if length s < n then s else take n s @ rest)"

fun fork_branches :: "('f, 'g) WorkflowDefinition \<Rightarrow> string \<Rightarrow> string list \<Rightarrow> ('f, 'g) WorkflowDefinition" where
  "fork_branches def src [] = def"
| "fork_branches def src (trg # rest) =
     (if length (transitions def) \<ge> WORKFLOW_MAX_TRANS then def
      else fork_branches (def\<lparr>transitions := transitions def @
             [let trg' = strncpy_buf WORKFLOW_STATE_LEN trg
              in simple_transition (run_on WORKFLOW_STATE_LEN src trg') trg' ''__FORK_BRANCH__'']\<rparr>) src rest)"

definition workflow_add_fork :: "('f, 'g) WorkflowDefinition \<Rightarrow> string \<Rightarrow> string list \<Rightarrow> string \<Rightarrow> ('f, 'g) WorkflowDefinition \<times> int" where
  "workflow_add_fork def src targets join_state =
     (if length (transitions def) \<ge> WORKFLOW_MAX_TRANS then (def, -1)
      else
        let trg = strncpy_buf WORKFLOW_STATE_LEN join_state;
            t = (simple_transition (run_on WORKFLOW_STATE_LEN src trg) trg ''__FORK__'')\<lparr>branch_type := WF_BRANCH_FORK\<rparr>
        in (fork_branches (def\<lparr>transitions := transitions def @ [t]\<rparr>) src targets, 0))"

text \<open>The event is followed by the branch type, whose first byte is 2.\<close>

definition workflow_add_join :: "('f, 'g) WorkflowDefinition \<Rightarrow> string \<Rightarrow> string \<Rightarrow> string \<Rightarrow> ('f, 'g) WorkflowDefinition \<times> int" where
  "workflow_add_join def join_state trg event =
     (if length (transitions def) \<ge> WORKFLOW_MAX_TRANS then (def, -1)
      else
        let ev = run_on WORKFLOW_EVENT_LEN event [CHR 0x02];
            tg = run_on WORKFLOW_STATE_LEN trg ev;
            t = (simple_transition (run_on WORKFLOW_STATE_LEN join_state tg) tg ev)\<lparr>branch_type := WF_BRANCH_JOIN\<rparr>
        in (def\<lparr>transitions := transitions def @ [t]\<rparr>, 0))"

definition workflow_add_timer :: "('f, 'g) WorkflowDefinition \<Rightarrow> string \<Rightarrow> string \<Rightarrow> u64 \<Rightarrow> ('f, 'g) WorkflowDefinition \<times> int" where
  "workflow_add_timer def src event delay_ms = workflow_add_transition def src src event"

section \<open>Instances\<close>

text \<open>Without an initial state the name that is copied is a null pointer.\<close>

definition workflow_instance_create :: "('f, 'g) WorkflowDefinition \<Rightarrow> string \<Rightarrow> 'd \<Rightarrow> 'd WorkflowInstance option" where
  "workflow_instance_create def iid data =
     (case workflow_initial_state def of
        None \<Rightarrow> None
      | Some s \<Rightarrow> Some \<lparr>current_state = strncpy_buf WORKFLOW_STATE_LEN s, previous_state = [], instance_id = strncpy_buf DDD_ID_LEN iid,
          wi_data = data, is_completed = False, is_forked = False, timers = []\<rparr>)"

definition run_actions :: "('f \<Rightarrow> ptr \<Rightarrow> 'd \<Rightarrow> 'd) \<Rightarrow> 'f WorkflowAction list \<Rightarrow> 'd \<Rightarrow> 'd" where
  "run_actions act as d = fold (\<lambda>a. act (wa_fn a) (wa_context a)) as d"

definition transition_execute_actions :: "('f \<Rightarrow> ptr \<Rightarrow> 'd \<Rightarrow> 'd) \<Rightarrow> ('f, 'g) WorkflowTransition \<Rightarrow> 'd \<Rightarrow> 'd" where
  "transition_execute_actions act t d = run_actions act (on_transition t) d"

definition state_execute_on_exit :: "('f \<Rightarrow> ptr \<Rightarrow> 'd \<Rightarrow> 'd) \<Rightarrow> 'f WorkflowState \<Rightarrow> 'd \<Rightarrow> 'd" where
  "state_execute_on_exit act s d = run_actions act (on_exit s) d"

definition state_execute_on_entry :: "('f \<Rightarrow> ptr \<Rightarrow> 'd \<Rightarrow> 'd) \<Rightarrow> 'f WorkflowState \<Rightarrow> 'd \<Rightarrow> 'd" where
  "state_execute_on_entry act s d = run_actions act (on_entry s) d"

definition workflow_instance_send_event ::
    "('f \<Rightarrow> ptr \<Rightarrow> 'd \<Rightarrow> 'd) \<Rightarrow> ('g \<Rightarrow> ptr \<Rightarrow> 'd \<Rightarrow> bool \<times> 'd) \<Rightarrow> ('f, 'g) WorkflowDefinition \<Rightarrow> 'd WorkflowInstance \<Rightarrow> string \<Rightarrow>
     'd WorkflowInstance \<times> int" where
  "workflow_instance_send_event act grd def inst event =
     (if is_completed inst then (inst, -1)
      else
        (case workflow_find_transition def (current_state inst) event of
           None \<Rightarrow> (inst, -2)
         | Some t \<Rightarrow>
             (case (case guard t of None \<Rightarrow> (True, wi_data inst) | Some g \<Rightarrow> grd g (guard_context t) (wi_data inst)) of
                (passed, d0) \<Rightarrow>
                  if \<not> passed then (inst\<lparr>wi_data := d0\<rparr>, -3)
                  else
                    let d1 = (case workflow_find_state def (current_state inst) of
                                None \<Rightarrow> d0 | Some i \<Rightarrow> state_execute_on_exit act (states def ! i) d0);
                        d2 = transition_execute_actions act t d1;
                        inst1 = inst\<lparr>previous_state := strncpy_buf WORKFLOW_STATE_LEN (current_state inst),
                                     current_state := strncpy_buf WORKFLOW_STATE_LEN (target_state t), wi_data := d2\<rparr>
                    in (case workflow_find_state def (current_state inst1) of
                          None \<Rightarrow> (inst1, 0)
                        | Some i \<Rightarrow>
                            let inst2 = inst1\<lparr>wi_data := state_execute_on_entry act (states def ! i) d2\<rparr>
                            in (if is_final (states def ! i) then inst2\<lparr>is_completed := True\<rparr> else inst2, 0)))))"

fun tick_timers_from ::
    "('f \<Rightarrow> ptr \<Rightarrow> 'd \<Rightarrow> 'd) \<Rightarrow> ('g \<Rightarrow> ptr \<Rightarrow> 'd \<Rightarrow> bool \<times> 'd) \<Rightarrow> ('f, 'g) WorkflowDefinition \<Rightarrow> u64 \<Rightarrow> nat list \<Rightarrow> 'd WorkflowInstance \<Rightarrow>
     'd WorkflowInstance" where
  "tick_timers_from act grd def now [] inst = inst"
| "tick_timers_from act grd def now (i # is) inst =
     (let timer = timers inst ! i
      in if \<not> triggered timer \<and> now \<ge> trigger_at_ms timer then
           let inst1 = inst\<lparr>timers := (timers inst)[i := timer\<lparr>triggered := True\<rparr>]\<rparr>;
               inst2 = fst (workflow_instance_send_event act grd def inst1 (wtm_event timer));
               inst3 = (if repeating timer
                        then inst2\<lparr>timers := (timers inst2)[i := timer\<lparr>trigger_at_ms := now + interval_ms timer, triggered := False\<rparr>]\<rparr>
                        else inst2)
           in tick_timers_from act grd def now is inst3
         else tick_timers_from act grd def now is inst)"

definition workflow_instance_tick_timers ::
    "('f \<Rightarrow> ptr \<Rightarrow> 'd \<Rightarrow> 'd) \<Rightarrow> ('g \<Rightarrow> ptr \<Rightarrow> 'd \<Rightarrow> bool \<times> 'd) \<Rightarrow> ('f, 'g) WorkflowDefinition \<Rightarrow> 'd WorkflowInstance \<Rightarrow> u64 \<Rightarrow>
     'd WorkflowInstance \<times> int" where
  "workflow_instance_tick_timers act grd def inst now = (tick_timers_from act grd def now [0..<length (timers inst)] inst, 0)"

section \<open>The approval workflow\<close>

datatype ApprovalStateEnum = APPROVAL_DRAFT | APPROVAL_PENDING_APPROVAL | APPROVAL_APPROVED | APPROVAL_REJECTED | APPROVAL_REVISION_REQUESTED

record ApprovalRequestData =
  req_state :: ApprovalStateEnum
  request_id :: string
  submitter :: string
  approver :: string
  title :: string
  description :: string
  revision_count :: int
  is_urgent :: bool

text \<open>The only action prints; there are no guards.\<close>

datatype approval_fn = appr_log_action

definition approval_act :: "approval_fn \<Rightarrow> ptr \<Rightarrow> ApprovalRequestData \<Rightarrow> ApprovalRequestData" where
  "approval_act f ctx req = req"

definition approval_grd :: "unit \<Rightarrow> ptr \<Rightarrow> ApprovalRequestData \<Rightarrow> bool \<times> ApprovalRequestData" where
  "approval_grd g ctx req = (True, req)"

definition workflow_create_approval_workflow :: "(approval_fn, unit) WorkflowDefinition" where
  "workflow_create_approval_workflow =
     (let st = \<lambda>name display initial final w. fst (workflow_add_state w name (Some display) initial final);
          entry = \<lambda>name w. fst (workflow_add_state_entry_action w name appr_log_action NULL);
          tr = \<lambda>src trg ev w. fst (workflow_add_transition w src trg ev)
      in fold (\<lambda>f. f)
         [st ''draft'' ''Draft'' True False, st ''pending_approval'' ''Pending Approval'' False False, st ''approved'' ''Approved'' False True,
          st ''rejected'' ''Rejected'' False True, st ''revision_requested'' ''Revision Requested'' False False,
          entry ''pending_approval'', entry ''approved'', entry ''rejected'',
          tr ''draft'' ''pending_approval'' ''submit'', tr ''pending_approval'' ''approved'' ''approve'',
          tr ''pending_approval'' ''rejected'' ''reject'', tr ''pending_approval'' ''revision_requested'' ''request_revision'',
          tr ''revision_requested'' ''pending_approval'' ''resubmit''] (workflow_define ''ApprovalWorkflow''))"

type_synonym approval = "ApprovalRequestData WorkflowInstance"

definition with_data :: "(ApprovalRequestData \<Rightarrow> ApprovalRequestData) \<Rightarrow> approval \<Rightarrow> approval" where
  "with_data f inst = inst\<lparr>wi_data := f (wi_data inst)\<rparr>"

definition approval_request_submit :: "approval \<Rightarrow> (approval_fn, unit) WorkflowDefinition \<Rightarrow> approval \<times> int" where
  "approval_request_submit inst def = workflow_instance_send_event approval_act approval_grd def
     (with_data (\<lambda>r. r\<lparr>req_state := APPROVAL_PENDING_APPROVAL\<rparr>) inst) ''submit''"

definition approval_request_approve :: "approval \<Rightarrow> (approval_fn, unit) WorkflowDefinition \<Rightarrow> approval \<times> int" where
  "approval_request_approve inst def = workflow_instance_send_event approval_act approval_grd def
     (with_data (\<lambda>r. r\<lparr>req_state := APPROVAL_APPROVED\<rparr>) inst) ''approve''"

definition approval_request_reject :: "approval \<Rightarrow> (approval_fn, unit) WorkflowDefinition \<Rightarrow> approval \<times> int" where
  "approval_request_reject inst def = workflow_instance_send_event approval_act approval_grd def
     (with_data (\<lambda>r. r\<lparr>req_state := APPROVAL_REJECTED\<rparr>) inst) ''reject''"

definition approval_request_request_revision :: "approval \<Rightarrow> (approval_fn, unit) WorkflowDefinition \<Rightarrow> approval \<times> int" where
  "approval_request_request_revision inst def = workflow_instance_send_event approval_act approval_grd def
     (with_data (\<lambda>r. r\<lparr>req_state := APPROVAL_REVISION_REQUESTED, revision_count := revision_count r + 1\<rparr>) inst) ''request_revision''"

definition approval_request_resubmit :: "approval \<Rightarrow> (approval_fn, unit) WorkflowDefinition \<Rightarrow> approval \<times> int" where
  "approval_request_resubmit inst def = workflow_instance_send_event approval_act approval_grd def
     (with_data (\<lambda>r. r\<lparr>req_state := APPROVAL_PENDING_APPROVAL\<rparr>) inst) ''resubmit''"

section \<open>An instance follows the transitions\<close>

text \<open>The instances that events, timers and changes of the data lead to, with the events that were accepted.\<close>

inductive wf_reach :: "('f \<Rightarrow> ptr \<Rightarrow> 'd \<Rightarrow> 'd) \<Rightarrow> ('g \<Rightarrow> ptr \<Rightarrow> 'd \<Rightarrow> bool \<times> 'd) \<Rightarrow> ('f, 'g) WorkflowDefinition \<Rightarrow> 'd WorkflowInstance \<Rightarrow> string list \<Rightarrow> bool"
  for act grd def where
  create: "workflow_instance_create def iid d = Some inst \<Longrightarrow> wf_reach act grd def inst []"
| event: "wf_reach act grd def inst es \<Longrightarrow> workflow_instance_send_event act grd def inst ev = (inst', r) \<Longrightarrow>
    wf_reach act grd def inst' (if r = 0 then es @ [ev] else es)"
| data: "wf_reach act grd def inst es \<Longrightarrow> wf_reach act grd def (inst\<lparr>wi_data := d\<rparr>) es"
| timers: "wf_reach act grd def inst es \<Longrightarrow> wf_reach act grd def (inst\<lparr>timers := ts\<rparr>) es"

lemma tick_from_reach:
  "wf_reach act grd def inst es \<Longrightarrow> \<exists>es'. wf_reach act grd def (tick_timers_from act grd def now is inst) (es @ es')"
proof (induction "is" arbitrary: inst es)
  case Nil
  then show ?case by (auto intro: exI [of _ "[]"])
next
  case (Cons i "is")
  show ?case
  proof (cases "\<not> triggered (timers inst ! i) \<and> now \<ge> trigger_at_ms (timers inst ! i)")
    case True
    let ?timer = "timers inst ! i"
    let ?inst1 = "inst\<lparr>timers := (timers inst)[i := ?timer\<lparr>triggered := True\<rparr>]\<rparr>"
    obtain inst2 r where e: "workflow_instance_send_event act grd def ?inst1 (wtm_event ?timer) = (inst2, r)" by (rule prod.exhaust)
    let ?es = "if r = 0 then es @ [wtm_event ?timer] else es"
    let ?inst3 = "if repeating ?timer then inst2\<lparr>timers := (timers inst2)[i := ?timer\<lparr>trigger_at_ms := now + interval_ms ?timer, triggered := False\<rparr>]\<rparr> else inst2"
    have "wf_reach act grd def inst2 ?es" using wf_reach.event [OF wf_reach.timers [OF Cons(2)] e] .
    then have "wf_reach act grd def ?inst3 ?es"
      by (cases "repeating ?timer") (simp_all only: if_True if_False wf_reach.timers)
    from Cons(1) [OF this] obtain es' where "wf_reach act grd def (tick_timers_from act grd def now is ?inst3) (?es @ es')" by blast
    moreover have "tick_timers_from act grd def now (i # is) inst = tick_timers_from act grd def now is ?inst3"
      using True e by (cases "repeating ?timer") (simp_all add: Let_def)
    ultimately have "wf_reach act grd def (tick_timers_from act grd def now (i # is) inst) (?es @ es')" by (simp only:)
    then show ?thesis by (cases "r = 0") auto
  next
    case False
    then have "tick_timers_from act grd def now (i # is) inst = tick_timers_from act grd def now is inst" by (auto simp: Let_def)
    then show ?thesis using Cons by simp
  qed
qed

text \<open>Ticking the timers leads to such an instance again.\<close>

lemma tick_reach: "wf_reach act grd def inst es \<Longrightarrow> \<exists>es'. wf_reach act grd def (fst (workflow_instance_tick_timers act grd def inst now)) (es @ es')"
  using tick_from_reach by (simp add: workflow_instance_tick_timers_def)

text \<open>The events lead from a state to a state along the first matching transitions, and no step leaves a final state it entered.\<close>

inductive wf_path :: "('f, 'g) WorkflowDefinition \<Rightarrow> string \<Rightarrow> string list \<Rightarrow> string \<Rightarrow> bool" for def s where
  Nil: "wf_path def s [] s"
| Snoc: "wf_path def s es u \<Longrightarrow> es \<noteq> [] \<longrightarrow> \<not> workflow_is_final_state def u \<Longrightarrow> workflow_find_transition def u e = Some t \<Longrightarrow>
    wf_path def s (es @ [e]) (strncpy_buf WORKFLOW_STATE_LEN (target_state t))"

lemma send_event_cases:
  assumes "workflow_instance_send_event act grd def inst ev = (inst', r)"
  obtains (rejected) "r \<noteq> 0" "current_state inst' = current_state inst" "is_completed inst' = is_completed inst" "previous_state inst' = previous_state inst"
  | (accepted) t where "r = 0" "\<not> is_completed inst" "workflow_find_transition def (current_state inst) ev = Some t"
      "current_state inst' = strncpy_buf WORKFLOW_STATE_LEN (target_state t)"
      "is_completed inst' = workflow_is_final_state def (current_state inst')"
      "previous_state inst' = strncpy_buf WORKFLOW_STATE_LEN (current_state inst)"
proof (cases "is_completed inst \<or> workflow_find_transition def (current_state inst) ev = None")
  case True
  then show thesis using assms rejected by (auto simp: workflow_instance_send_event_def split: if_splits)
next
  case False
  then obtain t where t: "workflow_find_transition def (current_state inst) ev = Some t" "\<not> is_completed inst" by auto
  obtain passed d0 where g: "(case guard t of None \<Rightarrow> (True, wi_data inst) | Some g \<Rightarrow> grd g (guard_context t) (wi_data inst)) = (passed, d0)"
    by (rule prod.exhaust)
  show thesis
  proof (cases passed)
    case False
    then show thesis using assms t g rejected by (auto simp: workflow_instance_send_event_def)
  next
    case True
    have "r = 0" "current_state inst' = strncpy_buf WORKFLOW_STATE_LEN (target_state t)"
      "previous_state inst' = strncpy_buf WORKFLOW_STATE_LEN (current_state inst)"
      "is_completed inst' = workflow_is_final_state def (strncpy_buf WORKFLOW_STATE_LEN (target_state t))"
      using assms t g True
      by (auto simp: workflow_instance_send_event_def Let_def workflow_is_final_state_def split: option.splits if_splits)
    with accepted t show thesis by simp
  qed
qed

lemma wf_reach_path:
  assumes "wf_reach act grd def inst es" "workflow_initial_state def = Some s0"
  shows "wf_path def (strncpy_buf WORKFLOW_STATE_LEN s0) es (current_state inst)
    \<and> (is_completed inst \<longleftrightarrow> es \<noteq> [] \<and> workflow_is_final_state def (current_state inst))"
  using assms(1)
proof (induction rule: wf_reach.induct)
  case (create iid d inst)
  then show ?case using assms(2) by (auto simp: workflow_instance_create_def intro: wf_path.Nil)
next
  case (event inst es ev inst' r)
  from event(2) show ?case
  proof (cases rule: send_event_cases)
    case rejected
    then show ?thesis using event(3) by simp
  next
    case (accepted t)
    then show ?thesis using event(3) wf_path.Snoc [of def _ es "current_state inst" ev t] by auto
  qed
qed simp_all

text \<open>C29. Whatever events, timers and changes of its data an instance sees, its state is where the accepted events lead from the initial
  state along the first matching transition of each state; it is completed exactly when it accepted an event and stands in a final state, and
  then every further event is refused with -1 and changes nothing.  This is for any guards and actions: contrary to the
  documentation, the results of actions are ignored, so a failing action blocks nothing, and when the guard of the first matching
  transition refuses, no later one is tried.\<close>

theorem workflow_follows_transitions:
  assumes "wf_reach act grd def inst es" "workflow_initial_state def = Some s0"
  shows "wf_path def (strncpy_buf WORKFLOW_STATE_LEN s0) es (current_state inst)
    \<and> (is_completed inst \<longleftrightarrow> es \<noteq> [] \<and> workflow_is_final_state def (current_state inst))
    \<and> (is_completed inst \<longrightarrow> (\<forall>ev. workflow_instance_send_event act grd def inst ev = (inst, -1)))
    \<and> (\<exists>es'. wf_reach act grd def (fst (workflow_instance_tick_timers act grd def inst now)) (es @ es'))"
  using wf_reach_path [OF assms] tick_reach [OF assms(1)] by (simp add: workflow_instance_send_event_def)

section \<open>The approval protocol\<close>

datatype approval_op = Submit | Approve | Reject | Request_revision | Resubmit

fun approval_step :: "approval_op \<Rightarrow> approval \<Rightarrow> approval \<times> int" where
  "approval_step Submit inst = approval_request_submit inst workflow_create_approval_workflow"
| "approval_step Approve inst = approval_request_approve inst workflow_create_approval_workflow"
| "approval_step Reject inst = approval_request_reject inst workflow_create_approval_workflow"
| "approval_step Request_revision inst = approval_request_request_revision inst workflow_create_approval_workflow"
| "approval_step Resubmit inst = approval_request_resubmit inst workflow_create_approval_workflow"

text \<open>The accepted operations of a run.\<close>

fun approval_run :: "approval_op list \<Rightarrow> approval \<Rightarrow> approval \<times> approval_op list" where
  "approval_run [] inst = (inst, [])"
| "approval_run (op # ops) inst =
     (case approval_step op inst of (inst1, r) \<Rightarrow> case approval_run ops inst1 of (inst2, acc) \<Rightarrow> (inst2, if r = 0 then op # acc else acc))"

fun op_event :: "approval_op \<Rightarrow> string" where
  "op_event Submit = ''submit''" | "op_event Approve = ''approve''" | "op_event Reject = ''reject''"
| "op_event Request_revision = ''request_revision''" | "op_event Resubmit = ''resubmit''"

text \<open>The table of the workflow.\<close>

fun approval_next :: "string \<Rightarrow> approval_op \<Rightarrow> string option" where
  "approval_next s Submit = (if s = ''draft'' then Some ''pending_approval'' else None)"
| "approval_next s Approve = (if s = ''pending_approval'' then Some ''approved'' else None)"
| "approval_next s Reject = (if s = ''pending_approval'' then Some ''rejected'' else None)"
| "approval_next s Request_revision = (if s = ''pending_approval'' then Some ''revision_requested'' else None)"
| "approval_next s Resubmit = (if s = ''revision_requested'' then Some ''pending_approval'' else None)"

lemma approval_transitions:
  "transitions workflow_create_approval_workflow =
     [simple_transition ''draft'' ''pending_approval'' ''submit'', simple_transition ''pending_approval'' ''approved'' ''approve'',
      simple_transition ''pending_approval'' ''rejected'' ''reject'', simple_transition ''pending_approval'' ''revision_requested'' ''request_revision'',
      simple_transition ''revision_requested'' ''pending_approval'' ''resubmit'']"
  by code_simp

lemma approval_states:
  "map (\<lambda>s. (ws_name s, is_initial s, is_final s)) (states workflow_create_approval_workflow) =
     [(''draft'', True, False), (''pending_approval'', False, False), (''approved'', False, True), (''rejected'', False, True),
      (''revision_requested'', False, False)]"
  by code_simp

lemma approval_final:
  "s \<in> {''draft'', ''pending_approval'', ''revision_requested''} \<Longrightarrow> \<not> workflow_is_final_state workflow_create_approval_workflow s"
  "s \<in> {''approved'', ''rejected''} \<Longrightarrow> workflow_is_final_state workflow_create_approval_workflow s"
proof -
  have "\<not> workflow_is_final_state workflow_create_approval_workflow ''draft''" "\<not> workflow_is_final_state workflow_create_approval_workflow ''pending_approval''"
    "\<not> workflow_is_final_state workflow_create_approval_workflow ''revision_requested''" "workflow_is_final_state workflow_create_approval_workflow ''approved''"
    "workflow_is_final_state workflow_create_approval_workflow ''rejected''" by code_simp+
  then show "s \<in> {''draft'', ''pending_approval'', ''revision_requested''} \<Longrightarrow> \<not> workflow_is_final_state workflow_create_approval_workflow s"
    "s \<in> {''approved'', ''rejected''} \<Longrightarrow> workflow_is_final_state workflow_create_approval_workflow s" by blast+
qed

lemma approval_find:
  "workflow_find_transition workflow_create_approval_workflow s (op_event op) =
     map_option (\<lambda>trg. simple_transition s trg (op_event op)) (approval_next s op)"
  by (cases op) (simp_all add: workflow_find_transition_def approval_transitions simple_transition_def)

lemma approval_step_event:
  "\<exists>inst0. approval_step op inst = workflow_instance_send_event approval_act approval_grd workflow_create_approval_workflow inst0 (op_event op)
     \<and> current_state inst0 = current_state inst \<and> is_completed inst0 = is_completed inst"
  by (cases op) (auto simp: approval_request_submit_def approval_request_approve_def approval_request_reject_def
    approval_request_request_revision_def approval_request_resubmit_def with_data_def)

lemma approval_step_table:
  assumes "approval_step op inst = (inst', r)"
  shows "if is_completed inst \<or> approval_next (current_state inst) op = None
    then r \<noteq> 0 \<and> current_state inst' = current_state inst \<and> is_completed inst' = is_completed inst
    else r = 0 \<and> current_state inst' = the (approval_next (current_state inst) op)
      \<and> is_completed inst' = workflow_is_final_state workflow_create_approval_workflow (current_state inst')"
proof -
  obtain inst0 where e: "workflow_instance_send_event approval_act approval_grd workflow_create_approval_workflow inst0 (op_event op) = (inst', r)"
    "current_state inst0 = current_state inst" "is_completed inst0 = is_completed inst" using approval_step_event [of op inst] assms by metis
  have len: "strncpy_buf WORKFLOW_STATE_LEN u = u" if "approval_next (current_state inst) op = Some u" for u
    using that by (cases op) (auto simp: strncpy_buf_def WORKFLOW_STATE_LEN_def split: if_splits)
  show ?thesis
  proof (cases "is_completed inst \<or> approval_next (current_state inst) op = None")
    case True
    then show ?thesis using e approval_find [of "current_state inst" op] by (auto simp: workflow_instance_send_event_def split: if_splits)
  next
    case False
    then obtain u where u: "approval_next (current_state inst) op = Some u" "\<not> is_completed inst" by auto
    then have t: "workflow_find_transition workflow_create_approval_workflow (current_state inst0) (op_event op) = Some (simple_transition (current_state inst) u (op_event op))"
      using approval_find [of "current_state inst" op] e(2) by simp
    have "r = 0" using e t u(2) by (auto simp: workflow_instance_send_event_def simple_transition_def Let_def split: option.splits)
    from e(1) show ?thesis
    proof (cases rule: send_event_cases)
      case rejected
      then show ?thesis using \<open>r = 0\<close> by simp
    next
      case (accepted t')
      then have "t' = simple_transition (current_state inst) u (op_event op)" using t by simp
      then show ?thesis using accepted u len [OF u(1)] by (simp add: simple_transition_def)
    qed
  qed
qed

text \<open>The protocol: the accepted operations \<open>acc\<close> of an instance in state \<open>s\<close>.\<close>

definition protocol :: "string \<Rightarrow> bool \<Rightarrow> approval_op list \<Rightarrow> bool" where
  "protocol s completed acc \<longleftrightarrow> (s = ''draft'' \<and> \<not> completed \<and> acc = [])
     \<or> (\<exists>n tl. acc = Submit # concat (replicate n [Request_revision, Resubmit]) @ tl
          \<and> (s, completed, tl) \<in> {(''pending_approval'', False, []), (''revision_requested'', False, [Request_revision]),
               (''approved'', True, [Approve]), (''rejected'', True, [Reject])})"

lemma replicate_snoc: "concat (replicate (Suc n) xs) = concat (replicate n xs) @ xs"
  by (induction n) simp_all

lemma protocol_step:
  assumes "protocol (current_state inst) (is_completed inst) acc" "approval_step op inst = (inst', r)"
  shows "protocol (current_state inst') (is_completed inst') (if r = 0 then acc @ [op] else acc)"
proof (cases "is_completed inst \<or> approval_next (current_state inst) op = None")
  case True
  then show ?thesis using approval_step_table [OF assms(2)] assms(1) by auto
next
  case False
  then obtain u where u: "approval_next (current_state inst) op = Some u" "\<not> is_completed inst" by auto
  have r: "r = 0" "current_state inst' = u" "is_completed inst' = workflow_is_final_state workflow_create_approval_workflow u"
    using approval_step_table [OF assms(2)] u by auto
  consider "current_state inst = ''draft''" "acc = []"
    | n where "current_state inst = ''pending_approval''" "acc = Submit # concat (replicate n [Request_revision, Resubmit])"
    | n where "current_state inst = ''revision_requested''" "acc = Submit # concat (replicate n [Request_revision, Resubmit]) @ [Request_revision]"
    using assms(1) u(2) by (auto simp: protocol_def)
  then show ?thesis
  proof cases
    case 1
    then have "op = Submit" "u = ''pending_approval''" using u(1) by (cases op; simp)+
    then show ?thesis using 1 r approval_final(1) [of u] by (auto simp: protocol_def intro!: exI [of _ 0])
  next
    case (2 n)
    then have "op \<in> {Approve, Reject, Request_revision}" "u = (if op = Approve then ''approved'' else if op = Reject then ''rejected'' else ''revision_requested'')"
      using u(1) by (cases op; simp)+
    then show ?thesis using 2 r approval_final [of u] by (auto simp: protocol_def intro!: exI [of _ n])
  next
    case (3 n)
    then have "op = Resubmit" "u = ''pending_approval''" using u(1) by (cases op; simp)+
    then show ?thesis using 3 r approval_final(1) [of u] replicate_snoc [of n "[Request_revision, Resubmit]"]
      by (auto simp: protocol_def simp del: replicate.simps intro!: exI [of _ "Suc n"])
  qed
qed

lemma approval_run_protocol:
  "approval_run ops inst = (inst', acc) \<Longrightarrow> protocol (current_state inst) (is_completed inst) acc0 \<Longrightarrow>
   protocol (current_state inst') (is_completed inst') (acc0 @ acc)"
proof (induction ops arbitrary: inst acc0 acc)
  case (Cons op ops)
  obtain inst1 r where s: "approval_step op inst = (inst1, r)" by (rule prod.exhaust)
  obtain inst2 acc2 where rec: "approval_run ops inst1 = (inst2, acc2)" by (rule prod.exhaust)
  have "protocol (current_state inst2) (is_completed inst2) ((if r = 0 then acc0 @ [op] else acc0) @ acc2)"
    using Cons(1) [OF _ protocol_step [OF Cons(3) s]] rec Cons(2) s by simp
  then show ?case using Cons(2) s rec by (simp split: if_splits)
qed simp

text \<open>C15. Whatever operations are called on a request of the approval workflow, in whatever order, the accepted ones follow the protocol: one
  submission, then any number of requested revisions each followed by a resubmission, and then at most one decision; the state of the
  instance tells exactly how far it is, and it is completed exactly after the decision.\<close>

theorem approval_follows_protocol:
  assumes "workflow_instance_create workflow_create_approval_workflow iid req = Some inst" "approval_run ops inst = (inst', acc)"
  shows "protocol (current_state inst') (is_completed inst') acc"
proof -
  have "workflow_initial_state workflow_create_approval_workflow = Some ''draft''" by code_simp
  then have "current_state inst = ''draft''" "\<not> is_completed inst"
    using assms(1) by (auto simp: workflow_instance_create_def strncpy_buf_def WORKFLOW_STATE_LEN_def)
  then have "protocol (current_state inst) (is_completed inst) []" by (simp add: protocol_def)
  from approval_run_protocol [OF assms(2) this] show ?thesis by simp
qed

definition demo_request :: ApprovalRequestData where
  "demo_request = \<lparr>req_state = APPROVAL_DRAFT, request_id = ''r1'', submitter = ''alice'', approver = ''bob'', title = ''t'', description = [],
     revision_count = 0, is_urgent = False\<rparr>"

definition demo_instance :: approval where
  "demo_instance = \<lparr>current_state = ''draft'', previous_state = [], instance_id = ''r1'', wi_data = demo_request, is_completed = False,
     is_forked = False, timers = []\<rparr>"

lemma demo_created: "workflow_instance_create workflow_create_approval_workflow ''r1'' demo_request = Some demo_instance"
  by code_simp

theorem approval_follows_protocol_witness:
  "protocol ''approved'' True [Submit, Request_revision, Resubmit, Approve]
   \<and> snd (approval_run [Approve, Submit, Request_revision, Approve, Resubmit, Approve, Reject] demo_instance) = [Submit, Request_revision, Resubmit, Approve]"
proof -
  let ?ops = "[Approve, Submit, Request_revision, Approve, Resubmit, Approve, Reject]"
  have r: "snd (approval_run ?ops demo_instance) = [Submit, Request_revision, Resubmit, Approve]"
    "current_state (fst (approval_run ?ops demo_instance)) = ''approved''" "is_completed (fst (approval_run ?ops demo_instance))" by code_simp+
  obtain inst' acc where a: "approval_run ?ops demo_instance = (inst', acc)" by (rule prod.exhaust)
  show ?thesis using approval_follows_protocol [OF demo_created a] a r by simp
qed

theorem workflow_follows_transitions_witness:
  "wf_path workflow_create_approval_workflow ''draft'' [''submit''] ''pending_approval''"
proof -
  have r: "wf_reach approval_act approval_grd workflow_create_approval_workflow demo_instance []" by (rule wf_reach.create [OF demo_created])
  have e: "snd (workflow_instance_send_event approval_act approval_grd workflow_create_approval_workflow demo_instance ''submit'') = 0"
    "current_state (fst (workflow_instance_send_event approval_act approval_grd workflow_create_approval_workflow demo_instance ''submit'')) = ''pending_approval''"
    by code_simp+
  obtain inst' x where i: "workflow_instance_send_event approval_act approval_grd workflow_create_approval_workflow demo_instance ''submit'' = (inst', x)"
    by (rule prod.exhaust)
  have "workflow_initial_state workflow_create_approval_workflow = Some ''draft''" by code_simp
  moreover have "strncpy_buf WORKFLOW_STATE_LEN ''draft'' = ''draft''" by code_simp
  ultimately show ?thesis using workflow_follows_transitions [OF wf_reach.event [OF r i], of "''draft''" 0] e i by simp
qed

text \<open>The operations write the state into the data of the request before the engine decides: a rejection of an approved request is
  refused, and yet the data says that it is rejected.\<close>

lemma approval_data_diverges:
  assumes "is_completed inst"
  shows "approval_request_reject inst def = (inst\<lparr>wi_data := (wi_data inst)\<lparr>req_state := APPROVAL_REJECTED\<rparr>\<rparr>, -1)"
  using assms by (simp add: approval_request_reject_def with_data_def workflow_instance_send_event_def)

end
