(* ===== verification/Crypto.thy ===== *)
theory Crypto
  imports C_Text
begin

unbundle bit_operations_syntax

text \<open>
  The cryptographic helpers of \<open>src/mini-auth-security/src/crypto_utils.c\<close>: base64, comparison in constant time, salts, hashing and
  verification of passwords, and the stored format of a hash.

  The functions of OpenSSL are parameters: \<open>sha256\<close>, \<open>hmac\<close>, \<open>kdf\<close> for \<open>PKCS5_PBKDF2_HMAC\<close>, which fails or gives as many bytes as it is
  asked for, and \<open>rand_bytes\<close>, which fails or gives as many bytes as it is asked for.  Strings have no zero bytes.
\<close>

section \<open>Data\<close>

definition CRYPTO_SALT_LEN :: nat where "CRYPTO_SALT_LEN = 32"
definition CRYPTO_HASH_LEN :: nat where "CRYPTO_HASH_LEN = 32"
definition CRYPTO_PEPPER_LEN :: nat where "CRYPTO_PEPPER_LEN = 32"
definition CRYPTO_MAX_PASSWORD_LEN :: nat where "CRYPTO_MAX_PASSWORD_LEN = 256"
definition CRYPTO_MAX_B64_LEN :: nat where "CRYPTO_MAX_B64_LEN = 512"
definition CRYPTO_PBKDF2_ITERATIONS :: u32 where "CRYPTO_PBKDF2_ITERATIONS = 100000"

datatype CryptoHashAlgo = CRYPTO_HASH_SHA256 | CRYPTO_HASH_SHA384 | CRYPTO_HASH_SHA512

record CryptoKdfConfig =
  cfg_salt :: "u8 list"
  pepper :: "u8 list"
  cfg_iterations :: u32
  cfg_salt_len :: nat
  pepper_len :: nat
  hash_algo :: CryptoHashAlgo

record CryptoPasswordHash =
  storage_string :: string
  ph_algo :: CryptoHashAlgo
  ph_iterations :: u32
  ph_salt :: "u8 list"
  ph_hash :: "u8 list"
  ph_salt_len :: nat
  ph_hash_len :: nat

record CryptoSecureBuffer =
  sb_data :: "u8 list option"
  sb_len :: nat
  locked :: bool

section \<open>Hashes, comparison, keys\<close>

definition crypto_sha256 :: "(u8 list \<Rightarrow> u8 list) \<Rightarrow> u8 list \<Rightarrow> u8 list \<times> nat" where
  "crypto_sha256 sha256 data = (if data = [] then (sha256 [], 32) else (sha256 data, 32))"

definition crypto_hmac_sha256 :: "(u8 list \<Rightarrow> u8 list \<Rightarrow> u8 list) \<Rightarrow> u8 list \<Rightarrow> u8 list \<Rightarrow> u8 list \<times> nat" where
  "crypto_hmac_sha256 hmac key data = (let out = hmac key data in (out, length out))"

text \<open>The loop over the first \<open>len\<close> bytes of both arrays.\<close>

definition crypto_const_time_compare :: "u8 list \<Rightarrow> u8 list \<Rightarrow> nat \<Rightarrow> int" where
  "crypto_const_time_compare a b len = (let diff = fold (\<lambda>i d. d OR (a ! i XOR b ! i)) [0..<len] 0 in if diff = 0 then 1 else 0)"

definition crypto_kdf_init :: "u8 list \<Rightarrow> CryptoKdfConfig" where
  "crypto_kdf_init pep =
     (let ok = pep \<noteq> [] \<and> length pep \<le> CRYPTO_PEPPER_LEN
      in \<lparr>cfg_salt = replicate CRYPTO_SALT_LEN 0,
          pepper = (if ok then pep @ replicate (CRYPTO_PEPPER_LEN - length pep) 0 else replicate CRYPTO_PEPPER_LEN 0),
          cfg_iterations = CRYPTO_PBKDF2_ITERATIONS, cfg_salt_len = 0, pepper_len = (if ok then length pep else 0), hash_algo = CRYPTO_HASH_SHA256\<rparr>)"

fun lcg_salt :: "u32 \<Rightarrow> nat \<Rightarrow> u8 list" where
  "lcg_salt seed 0 = []"
| "lcg_salt seed (Suc n) = (let seed' = seed * 1103515245 + 12345 in ucast (drop_bit 16 seed') # lcg_salt seed' n)"

definition crypto_generate_salt :: "(nat \<Rightarrow> u8 list option) \<Rightarrow> time_t \<Rightarrow> nat \<Rightarrow> u8 list \<times> int" where
  "crypto_generate_salt rand_bytes now salt_len =
     (if salt_len = 0 then ([], -1)
      else let n = (if salt_len > CRYPTO_SALT_LEN then CRYPTO_SALT_LEN else salt_len)
           in case rand_bytes n of Some salt \<Rightarrow> (salt, 0) | None \<Rightarrow> (lcg_salt (word_of_int now) n, -1))"

type_synonym kdf = "u8 list \<Rightarrow> u8 list \<Rightarrow> u32 \<Rightarrow> nat \<Rightarrow> u8 list option"

definition crypto_pbkdf2 :: "kdf \<Rightarrow> u8 list \<Rightarrow> u8 list \<Rightarrow> u32 \<Rightarrow> nat \<Rightarrow> u8 list option" where
  "crypto_pbkdf2 kdf password salt iterations dk_len =
     (if dk_len = 0 then None else if iterations < 1 \<or> password = [] then None else kdf password salt iterations dk_len)"

definition crypto_hash_algo_name :: "CryptoHashAlgo \<Rightarrow> string" where
  "crypto_hash_algo_name a =
     (case a of CRYPTO_HASH_SHA256 \<Rightarrow> ''SHA-256'' | CRYPTO_HASH_SHA384 \<Rightarrow> ''SHA-384'' | CRYPTO_HASH_SHA512 \<Rightarrow> ''SHA-512'')"

section \<open>Base64\<close>

definition B64_STD :: string where
  "B64_STD = ''ABCDEFGHIJKLMNOPQRSTUVWXYZabcdefghijklmnopqrstuvwxyz0123456789+/''"

definition b64_char :: "u32 \<Rightarrow> nat \<Rightarrow> char" where
  "b64_char triple n = B64_STD ! unat (drop_bit n triple AND 63)"

text \<open>One group of the encoder, and the loop over the rest of the source.\<close>

definition encode_group :: "u8 \<Rightarrow> u8 \<Rightarrow> u8 \<Rightarrow> string" where
  "encode_group a b c =
     (let triple = push_bit 16 (ucast a) OR push_bit 8 (ucast b) OR ucast c
      in [b64_char triple 18, b64_char triple 12, b64_char triple 6, b64_char triple 0])"

fun encode_loop :: "u8 list \<Rightarrow> nat \<Rightarrow> string \<Rightarrow> string option" where
  "encode_loop [] dst_size out = Some out"
| "encode_loop [a] dst_size out = (if length out + 4 \<ge> dst_size then None else Some (out @ encode_group a 0 0))"
| "encode_loop [a, b] dst_size out = (if length out + 4 \<ge> dst_size then None else Some (out @ encode_group a b 0))"
| "encode_loop (a # b # c # rest) dst_size out =
     (if length out + 4 \<ge> dst_size then None else encode_loop rest dst_size (out @ encode_group a b c))"

definition crypto_base64_encode :: "u8 list \<Rightarrow> nat \<Rightarrow> string option" where
  "crypto_base64_encode src dst_size =
     (if dst_size < 4 then None
      else case encode_loop src dst_size [] of
             None \<Rightarrow> None
           | Some dst \<Rightarrow>
               let j = length dst
               in Some (if length src mod 3 = 1 \<and> j \<ge> 2 then dst[j - 2 := CHR ''='', j - 1 := CHR ''='']
                        else if length src mod 3 = 2 \<and> j \<ge> 1 then dst[j - 1 := CHR ''=''] else dst))"

text \<open>The table of the decoder: the index of a character, -2 for the padding, -1 for all others.\<close>

definition b64_dec :: "char \<Rightarrow> int" where
  "b64_dec c = (if c = CHR ''='' then -2 else opt_index (find_idx (\<lambda>x. x = c) B64_STD 64))"

fun dec_at :: "string \<Rightarrow> int" where
  "dec_at [] = -1" | "dec_at (c # cs) = b64_dec c"

text \<open>The three bytes of a group are stored while there is room.\<close>

definition put_byte :: "nat \<Rightarrow> u32 \<Rightarrow> u8 list \<Rightarrow> u8 list" where
  "put_byte cap w out = (if length out < cap then out @ [ucast w] else out)"

definition decode_group :: "nat \<Rightarrow> int \<Rightarrow> int \<Rightarrow> int \<Rightarrow> int \<Rightarrow> u8 list \<Rightarrow> u8 list" where
  "decode_group cap v0 v1 v2 v3 out =
     (let triple = push_bit 18 (word_of_int v0 :: u32) OR push_bit 12 (word_of_int v1) OR push_bit 6 (word_of_int v2) OR word_of_int v3
      in put_byte cap triple (put_byte cap (drop_bit 8 triple) (put_byte cap (drop_bit 16 triple) out)))"

function decode_loop :: "nat \<Rightarrow> string \<Rightarrow> u8 list \<Rightarrow> u8 list option" where
  "decode_loop cap cs out =
     (if cs = [] then Some out
      else let v0 = dec_at cs; v1 = dec_at (drop 1 cs); v2 = dec_at (drop 2 cs); v3 = dec_at (drop 3 cs)
           in if v0 < 0 \<or> v1 < 0 then None
              else if v2 < -1 \<or> v3 < -1 then None
              else decode_loop cap (drop 4 cs) (decode_group cap v0 v1 v2 v3 out))"
  by pat_completeness auto
termination decode_loop
  by (relation "measure (\<lambda>(_, cs, _). length cs)") auto

declare decode_loop.simps [simp del]

text \<open>The bytes written, and the length reported: the subtraction of the padding is that of \<open>size_t\<close>.\<close>

definition crypto_base64_decode :: "string \<Rightarrow> nat \<Rightarrow> (u8 list \<times> u64) option" where
  "crypto_base64_decode src cap =
     (let cs = rev (dropWhile (\<lambda>c. c = CHR ''='') (rev src)); pad = length src - length cs
      in case decode_loop cap cs [] of None \<Rightarrow> None | Some out \<Rightarrow> Some (out, of_nat (length out) - of_nat pad))"

section \<open>Passwords\<close>

definition bytes_of :: "string \<Rightarrow> u8 list" where
  "bytes_of s = map (\<lambda>c. of_nat (of_char c)) s"

definition combined :: "CryptoKdfConfig \<Rightarrow> string \<Rightarrow> u8 list" where
  "combined config password = bytes_of password @ (if pepper_len config > 0 then take (pepper_len config) (pepper config) else [])"

definition mcf_string :: "u32 \<Rightarrow> string \<Rightarrow> string \<Rightarrow> string" where
  "mcf_string iterations salt_b64 hash_b64 =
     strncpy_buf (CRYPTO_MAX_B64_LEN * 2 + 128) (''$pbkdf2-sha256$'' @ dec_digits (unat iterations) @ ''$'' @ salt_b64 @ ''$'' @ hash_b64)"

text \<open>The encodings cannot fail with these sizes.\<close>

definition crypto_hash_password ::
    "kdf \<Rightarrow> (nat \<Rightarrow> u8 list option) \<Rightarrow> time_t \<Rightarrow> CryptoKdfConfig \<Rightarrow> string \<Rightarrow> CryptoPasswordHash option" where
  "crypto_hash_password kdf rand_bytes now config password =
     (if length password = 0 \<or> length password > CRYPTO_MAX_PASSWORD_LEN then None
      else
        let salt = fst (crypto_generate_salt rand_bytes now CRYPTO_SALT_LEN)
        in case crypto_pbkdf2 kdf (combined config password) salt (cfg_iterations config) CRYPTO_HASH_LEN of
             None \<Rightarrow> None
           | Some derived \<Rightarrow>
               Some \<lparr>storage_string = mcf_string (cfg_iterations config) (the (crypto_base64_encode salt CRYPTO_MAX_B64_LEN))
                       (the (crypto_base64_encode derived CRYPTO_MAX_B64_LEN)),
                     ph_algo = hash_algo config, ph_iterations = cfg_iterations config, ph_salt = salt, ph_hash = derived,
                     ph_salt_len = CRYPTO_SALT_LEN, ph_hash_len = CRYPTO_HASH_LEN\<rparr>)"

definition crypto_verify_password :: "kdf \<Rightarrow> CryptoKdfConfig \<Rightarrow> string \<Rightarrow> CryptoPasswordHash \<Rightarrow> int" where
  "crypto_verify_password kdf config password ph =
     (if length password = 0 \<or> length password > CRYPTO_MAX_PASSWORD_LEN then -1
      else case crypto_pbkdf2 kdf (combined config password) (take (ph_salt_len ph) (ph_salt ph)) (ph_iterations ph) CRYPTO_HASH_LEN of
             None \<Rightarrow> -1
           | Some derived \<Rightarrow> crypto_const_time_compare derived (ph_hash ph) (ph_hash_len ph))"

text \<open>\<open>strtoul\<close> in base 10, cut to 32 bits.\<close>

definition strtoul_u32 :: "string \<Rightarrow> u32" where
  "strtoul_u32 s =
     (let clamp = \<lambda>n :: int. if n \<ge> 2 ^ 64 then 2 ^ 64 - 1 else n
      in case dropWhile is_space s of
           [] \<Rightarrow> 0
         | c # cs \<Rightarrow>
             if c = CHR ''-'' then (if dec_value cs \<ge> 2 ^ 64 then word_of_int (2 ^ 64 - 1) else word_of_int (- dec_value cs))
             else if c = CHR ''+'' then word_of_int (clamp (dec_value cs)) else word_of_int (clamp (dec_value (c # cs))))"

text \<open>A decoded field in an array of \<open>n\<close> bytes that held \<open>junk\<close>.\<close>

definition mcf_field :: "nat \<Rightarrow> u8 list \<Rightarrow> string \<Rightarrow> (u8 list \<times> nat) option" where
  "mcf_field n junk b64 =
     (case crypto_base64_decode b64 n of
        None \<Rightarrow> None
      | Some (out, len) \<Rightarrow>
          let raw = out @ drop (length out) junk; len' = (if unat len > n then n else unat len)
          in Some (take len' raw @ replicate (n - len') 0, len'))"

definition crypto_parse_mcf :: "u8 list \<Rightarrow> u8 list \<Rightarrow> string \<Rightarrow> CryptoPasswordHash option" where
  "crypto_parse_mcf junk_salt junk_hash mcf =
     (if mcf = [] \<or> hd mcf \<noteq> CHR ''$'' then None
      else
        let work = strncpy_buf (CRYPTO_MAX_B64_LEN * 2 + 128) mcf; toks = strtok (\<lambda>c. c = CHR ''$'') (drop 1 work)
        in if length toks < 4 then None
           else if toks ! 0 \<noteq> ''pbkdf2-sha256'' then None
           else let iters = strtoul_u32 (toks ! 1)
                in if iters < 10 then None
                   else case (mcf_field CRYPTO_SALT_LEN junk_salt (toks ! 2), mcf_field CRYPTO_HASH_LEN junk_hash (toks ! 3)) of
                          (Some (salt, salt_len), Some (hash, hash_len)) \<Rightarrow>
                            Some \<lparr>storage_string = strncpy_buf (CRYPTO_MAX_B64_LEN * 2 + 128) mcf, ph_algo = CRYPTO_HASH_SHA256,
                              ph_iterations = iters, ph_salt = salt, ph_hash = hash, ph_salt_len = salt_len, ph_hash_len = hash_len\<rparr>
                        | _ \<Rightarrow> None)"

section \<open>Secure buffers\<close>

text \<open>Whether the memory can be locked is an argument.  Freeing returns the bytes that go back to the allocator.\<close>

definition crypto_secure_alloc :: "bool \<Rightarrow> bool \<Rightarrow> nat \<Rightarrow> CryptoSecureBuffer" where
  "crypto_secure_alloc alloc_ok lock_ok len =
     (if len = 0 \<or> \<not> alloc_ok then \<lparr>sb_data = None, sb_len = 0, locked = False\<rparr>
      else \<lparr>sb_data = Some (replicate len 0), sb_len = len, locked = lock_ok\<rparr>)"

definition crypto_secure_free :: "CryptoSecureBuffer \<Rightarrow> CryptoSecureBuffer \<times> u8 list" where
  "crypto_secure_free buf =
     (case sb_data buf of
        None \<Rightarrow> (buf, [])
      | Some bytes \<Rightarrow> (\<lparr>sb_data = None, sb_len = 0, locked = False\<rparr>, fold (\<lambda>i b. b[i := 0]) [0..<sb_len buf] bytes))"

end
