(* ===== verification/Crypto_Props.thy ===== *)
theory Crypto_Props
  imports Crypto
begin

unbundle bit_operations_syntax

text \<open>
  What the helpers of \<open>crypto_utils.c\<close> do: base64 decodes what it encoded exactly when no padding is needed, a password verifies against
  its own hash, and a hash read back from its stored format is another one.
\<close>

section \<open>Base64\<close>

lemma b64_table: "i < 64 \<Longrightarrow> b64_dec (B64_STD ! i) = int i \<and> B64_STD ! i \<noteq> CHR ''='' \<and> B64_STD ! i \<noteq> CHR ''$''"
proof -
  have "list_all (\<lambda>i. b64_dec (B64_STD ! i) = int i \<and> B64_STD ! i \<noteq> CHR ''='' \<and> B64_STD ! i \<noteq> CHR ''$'') [0..<64]" by code_simp
  then show "i < 64 \<Longrightarrow> b64_dec (B64_STD ! i) = int i \<and> B64_STD ! i \<noteq> CHR ''='' \<and> B64_STD ! i \<noteq> CHR ''$''" by (simp add: list_all_iff)
qed

lemma and_63_less: "unat ((w :: u32) AND 63) < 64"
proof -
  have "w AND 63 = take_bit 6 w" by (simp add: take_bit_eq_mask mask_eq_exp_minus_1)
  then show ?thesis by (simp add: unsigned_take_bit_eq take_bit_nat_less_exp [of 6, simplified])
qed

lemma b64_char_dec: "b64_dec (b64_char t n) = uint (drop_bit n t AND 63)" "b64_char t n \<noteq> CHR ''=''" "b64_char t n \<noteq> CHR ''$''"
proof -
  note b = b64_table [OF and_63_less, of "drop_bit n t"]
  show "b64_char t n \<noteq> CHR ''=''" "b64_char t n \<noteq> CHR ''$''" unfolding b64_char_def using b by blast+
  have "int (unat w) = uint w" for w :: u32 by simp
  with b show "b64_dec (b64_char t n) = uint (drop_bit n t AND 63)" unfolding b64_char_def by metis
qed

definition triple :: "u8 \<Rightarrow> u8 \<Rightarrow> u8 \<Rightarrow> u32" where
  "triple a b c = push_bit 16 (ucast a) OR push_bit 8 (ucast b) OR ucast c"

lemma sextets:
  "push_bit 18 (drop_bit 18 t AND 63) OR push_bit 12 (drop_bit 12 t AND 63) OR push_bit 6 (drop_bit 6 t AND 63) OR (t AND 63) = take_bit 24 (t :: u32)"
proof -
  have m: "(63 :: u32) = mask 6" by (simp add: mask_eq_exp_minus_1)
  show ?thesis unfolding m
  proof (rule bit_word_eqI)
    fix n :: nat
    assume n: "n < LENGTH(32)"
    consider "n < 6" | "6 \<le> n" "n < 12" | "12 \<le> n" "n < 18" | "18 \<le> n" by linarith
    then show "bit (push_bit 18 (drop_bit 18 t AND mask 6) OR push_bit 12 (drop_bit 12 t AND mask 6) OR push_bit 6 (drop_bit 6 t AND mask 6)
        OR t AND mask 6) n = bit (take_bit 24 t) n"
      using n by cases (auto simp: bit_simps)
  qed
qed

lemma triple_bytes:
  "ucast (drop_bit 16 (take_bit 24 (triple a b c))) = a" "ucast (drop_bit 8 (take_bit 24 (triple a b c))) = b" "ucast (take_bit 24 (triple a b c)) = c"
  unfolding triple_def by (rule bit_word_eqI; auto simp: bit_simps dest: bit_imp_le_length)+

lemma all_ones: "ucast (- 1 :: u32) = (255 :: u8)" "ucast (drop_bit 8 (- 1 :: u32)) = (255 :: u8)" "ucast (drop_bit 16 (- 1 :: u32)) = (255 :: u8)"
proof -
  have m: "(255 :: u8) = - 1" by simp
  show "ucast (- 1 :: u32) = (255 :: u8)" "ucast (drop_bit 8 (- 1 :: u32)) = (255 :: u8)" "ucast (drop_bit 16 (- 1 :: u32)) = (255 :: u8)"
    unfolding m by (rule bit_word_eqI; simp add: bit_simps)+
qed

lemma put_bytes:
  "length out \<le> cap \<Longrightarrow> put_byte cap z (put_byte cap y (put_byte cap x out)) = take cap (out @ [ucast x, ucast y, ucast z])"
  by (auto simp: put_byte_def take_Cons' Suc_le_eq)

text \<open>What the encoder writes, in groups.\<close>

fun b64_body :: "u8 list \<Rightarrow> string" where
  "b64_body [] = []"
| "b64_body [a] = take 2 (encode_group a 0 0)"
| "b64_body [a, b] = take 3 (encode_group a b 0)"
| "b64_body (a # b # c # rest) = encode_group a b c @ b64_body rest"

definition pad_len :: "u8 list \<Rightarrow> nat" where
  "pad_len src = (3 - length src mod 3) mod 3"

definition groups :: "u8 list \<Rightarrow> nat" where
  "groups src = (length src + 2) div 3"

lemma groups_simps [simp]: "groups [] = 0" "groups [a] = 1" "groups [a, b] = 1" "groups (a # b # c # rest) = Suc (groups rest)"
  by (simp_all add: groups_def)

lemma pad_len_simps [simp]: "pad_len [] = 0" "pad_len [a] = 2" "pad_len [a, b] = 1" "pad_len (a # b # c # rest) = pad_len rest"
proof -
  have "Suc (Suc (Suc n)) mod 3 = n mod 3" for n :: nat by presburger
  then show "pad_len (a # b # c # rest) = pad_len rest" by (simp only: pad_len_def list.size add_0_right add_Suc_right)
qed (simp_all add: pad_len_def)

lemma length_encode_group [simp]: "length (encode_group a b c) = 4"
  by (simp add: encode_group_def Let_def)

lemma length_b64_body: "length (b64_body src) + pad_len src = 4 * groups src"
  by (induction src rule: b64_body.induct) simp_all

lemma encode_loop_body:
  "length out + 4 * groups src < dst_size \<Longrightarrow>
   \<exists>tl. encode_loop src dst_size out = Some (out @ b64_body src @ tl) \<and> length tl = pad_len src"
proof (induction src dst_size out rule: encode_loop.induct)
  case (2 a dst_size out)
  then show ?case by (intro exI [of _ "drop 2 (encode_group a 0 0)"]) simp
next
  case (3 a b dst_size out)
  then show ?case by (intro exI [of _ "drop 3 (encode_group a b 0)"]) simp
next
  case (4 a b c rest dst_size out)
  then obtain tl where "encode_loop rest dst_size (out @ encode_group a b c) = Some ((out @ encode_group a b c) @ b64_body rest @ tl)"
    "length tl = pad_len rest" by auto
  then show ?case using 4(2) by (intro exI [of _ tl]) simp
qed simp

lemma base64_encode_body:
  assumes "4 * groups src < dst_size" "4 \<le> dst_size"
  shows "crypto_base64_encode src dst_size = Some (b64_body src @ replicate (pad_len src) (CHR ''=''))"
proof -
  obtain tl where t: "encode_loop src dst_size [] = Some (b64_body src @ tl)" "length tl = pad_len src"
    using encode_loop_body [of "[]" src dst_size] assms(1) by auto
  have r: "length src mod 3 = 0 \<or> length src mod 3 = 1 \<or> length src mod 3 = 2" by presburger
  then consider "length src mod 3 = 0" "tl = []" | x y where "length src mod 3 = 1" "tl = [x, y]" | x where "length src mod 3 = 2" "tl = [x]"
    using t(2) by (auto simp: pad_len_def length_Suc_conv numeral_2_eq_2)
  then show ?thesis using t assms(2) by cases (auto simp: crypto_base64_encode_def Let_def list_update_append pad_len_def numeral_2_eq_2)
qed

lemma b64_body_chars: "c \<in> set (b64_body src) \<Longrightarrow> c \<noteq> CHR ''='' \<and> c \<noteq> CHR ''$''"
  by (induction src rule: b64_body.induct) (auto simp: encode_group_def Let_def b64_char_dec numeral_2_eq_2 numeral_3_eq_3)

text \<open>What the decoder makes of it: an incomplete group has a missing character, whose value -1 sets every bit.\<close>

definition decoded :: "u8 list \<Rightarrow> u8 list" where
  "decoded src = take (3 * (length src div 3)) src @ (if 3 dvd length src then [] else [255, 255, 255])"

lemma decoded_simps [simp]: "decoded [] = []" "decoded [a] = [255, 255, 255]" "decoded [a, b] = [255, 255, 255]"
  "decoded (a # b # c # rest) = a # b # c # decoded rest"
proof -
  have "Suc (Suc (Suc n)) div 3 = Suc (n div 3)" "3 dvd Suc (Suc (Suc n)) \<longleftrightarrow> 3 dvd n" for n :: nat by presburger+
  moreover have "take (3 + m) (a # b # c # rest) = a # b # c # take m rest" for m by (simp add: numeral_3_eq_3)
  ultimately show "decoded (a # b # c # rest) = a # b # c # decoded rest" by (simp add: decoded_def)
next
  have "\<not> 3 dvd Suc 0" "\<not> 3 dvd Suc (Suc 0)" by presburger+
  then show "decoded [a] = [255, 255, 255]" "decoded [a, b] = [255, 255, 255]" by (simp_all add: decoded_def)
qed (simp add: decoded_def)

lemma word_sextet: "(word_of_int (uint (w :: u32)) :: u32) = w"
  by simp

lemma group_full:
  assumes "length out \<le> cap"
  shows "decode_group cap (b64_dec (b64_char (triple a b c) 18)) (b64_dec (b64_char (triple a b c) 12)) (b64_dec (b64_char (triple a b c) 6))
     (b64_dec (b64_char (triple a b c) 0)) out = take cap (out @ [a, b, c])"
proof -
  let ?t = "triple a b c"
  have "push_bit 18 (word_of_int (b64_dec (b64_char ?t 18)) :: u32) OR push_bit 12 (word_of_int (b64_dec (b64_char ?t 12)))
      OR push_bit 6 (word_of_int (b64_dec (b64_char ?t 6))) OR word_of_int (b64_dec (b64_char ?t 0)) = take_bit 24 ?t"
    by (simp only: b64_char_dec(1) word_sextet drop_bit_0 id_apply sextets)
  then show ?thesis by (simp only: decode_group_def Let_def put_bytes [OF assms] triple_bytes)
qed

lemma group_open: "length out \<le> cap \<Longrightarrow> decode_group cap v0 v1 v2 (-1) out = take cap (out @ [255, 255, 255])"
  by (simp only: decode_group_def Let_def word_of_int_neg_1 bit.disj_one_right put_bytes all_ones)

lemma encode_group_triple: "encode_group a b c = [b64_char (triple a b c) 18, b64_char (triple a b c) 12, b64_char (triple a b c) 6, b64_char (triple a b c) 0]"
  by (simp add: encode_group_def triple_def Let_def)

lemma take_take_append: "take n (take n xs @ ys) = take n (xs @ ys)"
  by (cases "length xs \<le> n") simp_all

lemma decode_loop_body:
  "length out \<le> cap \<Longrightarrow> decode_loop cap (b64_body src) out = Some (take cap (out @ decoded src))"
proof (induction src arbitrary: out rule: b64_body.induct)
  case 1
  then show ?case by (subst decode_loop.simps) simp
next
  case (2 a)
  have "decode_loop cap (b64_body [a]) out = decode_loop cap [] (decode_group cap (b64_dec (b64_char (triple a 0 0) 18)) (b64_dec (b64_char (triple a 0 0) 12)) (-1) (-1) out)"
    by (subst decode_loop.simps) (simp add: encode_group_triple b64_char_dec Let_def)
  then show ?case using 2 by (subst (asm) (2) decode_loop.simps) (simp add: group_open)
next
  case (3 a b)
  have "\<not> uint w < - 1" for w :: u32 using uint_ge_0 [of w] by linarith
  then have "decode_loop cap (b64_body [a, b]) out = decode_loop cap [] (decode_group cap (b64_dec (b64_char (triple a b 0) 18)) (b64_dec (b64_char (triple a b 0) 12))
     (b64_dec (b64_char (triple a b 0) 6)) (-1) out)"
    by (subst decode_loop.simps) (simp add: encode_group_triple b64_char_dec numeral_3_eq_3 Let_def)
  then show ?case using 3 by (subst (asm) (2) decode_loop.simps) (simp add: group_open)
next
  case (4 a b c rest)
  have "\<not> uint w < - 1" for w :: u32 using uint_ge_0 [of w] by linarith
  then have "decode_loop cap (b64_body (a # b # c # rest)) out = decode_loop cap (b64_body rest) (take cap (out @ [a, b, c]))"
    using group_full [OF 4(2), of a b c] by (subst decode_loop.simps) (simp add: encode_group_triple b64_char_dec(1) Let_def)
  also have "\<dots> = Some (take cap (take cap (out @ [a, b, c]) @ decoded rest))" by (rule 4(1)) simp
  also have "take cap (take cap (out @ [a, b, c]) @ decoded rest) = take cap ((out @ [a, b, c]) @ decoded rest)" by (rule take_take_append)
  finally show ?case by simp
qed

lemma base64_decode_body:
  "crypto_base64_decode (b64_body src @ replicate (pad_len src) (CHR ''='')) cap =
     Some (take cap (decoded src), of_nat (min (length (decoded src)) cap) - of_nat (pad_len src))"
proof -
  have "dropWhile (\<lambda>c. c = CHR ''='') (rev (b64_body src @ replicate (pad_len src) (CHR ''=''))) = rev (b64_body src)"
  proof -
    have "dropWhile (\<lambda>c. c = CHR ''='') (rev (b64_body src)) = rev (b64_body src)"
      using b64_body_chars [of "last (b64_body src)" src] by (cases "b64_body src" rule: rev_cases) auto
    then show ?thesis by (simp add: dropWhile_append)
  qed
  then show ?thesis using decode_loop_body [of "[]" cap src]
    by (simp add: crypto_base64_decode_def Let_def)
qed

lemma length_decoded: "length (decoded src) = 3 * groups src" "length src + pad_len src = 3 * groups src"
proof -
  show "length (decoded src) = 3 * groups src" by (induction src rule: b64_body.induct) simp_all
  show "length src + pad_len src = 3 * groups src" by (induction src rule: b64_body.induct) simp_all
qed

text \<open>C18. Encoding into a large enough array succeeds, and decoding the text into an array with room for the groups reports the original
  length.  When the length is a multiple of three, the bytes are the original ones; otherwise the one or two bytes of the last group
  come back as 255, whatever they were.\<close>

theorem base64_roundtrip:
  assumes "4 * ((length src + 2) div 3) < dst_size" "4 \<le> dst_size" "3 * ((length src + 2) div 3) \<le> cap"
  shows "\<exists>enc out. crypto_base64_encode src dst_size = Some enc \<and> crypto_base64_decode enc cap = Some (out, of_nat (length src))
    \<and> take (length src) out = take (3 * (length src div 3)) src @ replicate (length src mod 3) 255
    \<and> (3 dvd length src \<longrightarrow> out = src)"
proof -
  let ?enc = "b64_body src @ replicate (pad_len src) (CHR ''='')"
  have g: "4 * groups src < dst_size" "3 * groups src \<le> cap" using assms by (simp_all add: groups_def)
  have "(of_nat (length (decoded src)) :: u64) = of_nat (length src) + of_nat (pad_len src)"
    using length_decoded [of src] by (metis of_nat_add)
  then have d: "crypto_base64_decode ?enc cap = Some (decoded src, of_nat (length src))"
    using base64_decode_body [of src cap] g(2) length_decoded(1) [of src] by simp
  have "take (length src mod 3) [255, 255, 255 :: u8] = replicate (length src mod 3) 255"
  proof -
    consider "length src mod 3 = 0" | "length src mod 3 = 1" | "length src mod 3 = 2" by linarith
    then show ?thesis by cases (simp_all add: numeral_2_eq_2)
  qed
  moreover have "length src - 3 * (length src div 3) = length src mod 3" "3 * (length src div 3) \<le> length src"
    by (simp_all add: minus_mult_div_eq_mod)
  ultimately have "take (length src) (decoded src) = take (3 * (length src div 3)) src @ replicate (length src mod 3) 255"
    by (cases "3 dvd length src") (simp_all add: decoded_def)
  moreover have "3 dvd length src \<longrightarrow> decoded src = src" by (auto simp: decoded_def)
  ultimately show ?thesis using base64_encode_body [OF g(1) assms(2)] d by blast
qed

theorem base64_roundtrip_witness:
  "\<exists>enc out. crypto_base64_encode [1, 2, 3, 4] 16 = Some enc \<and> crypto_base64_decode enc 8 = Some (out, 4) \<and> take 4 out = [1, 2, 3, 255]"
proof -
  have p: "4 * ((length [1, 2, 3, 4 :: u8] + 2) div 3) < 16" "(4 :: nat) \<le> 16" "3 * ((length [1, 2, 3, 4 :: u8] + 2) div 3) \<le> 8" by simp_all
  have n: "(of_nat (length [1, 2, 3, 4 :: u8]) :: u64) = 4" "length [1, 2, 3, 4 :: u8] = 4"
    "take (3 * (4 div 3)) [1, 2, 3, 4 :: u8] @ replicate (4 mod 3) 255 = [1, 2, 3, 255]" by simp_all
  from base64_roundtrip [OF p] obtain enc out where
    "crypto_base64_encode [1, 2, 3, 4] 16 = Some enc" "crypto_base64_decode enc 8 = Some (out, of_nat (length [1, 2, 3, 4 :: u8]))"
    "take (length [1, 2, 3, 4 :: u8]) out = take (3 * (length [1, 2, 3, 4 :: u8] div 3)) [1, 2, 3, 4] @ replicate (length [1, 2, 3, 4 :: u8] mod 3) 255"
    by blast
  then show ?thesis unfolding n by auto
qed

section \<open>Passwords\<close>

lemma fold_or_0:
  "fold (\<lambda>i d. d OR (f i :: u8)) is d = 0 \<longleftrightarrow> d = 0 \<and> (\<forall>i \<in> set is. f i = 0)"
  by (induction "is" arbitrary: d) (auto simp: or_eq_0_iff)

text \<open>The comparison looks at every byte and tells whether the first \<open>len\<close> agree.\<close>

lemma const_time_compare_exact:
  "crypto_const_time_compare a b len = (if \<forall>i < len. a ! i = b ! i then 1 else 0)"
proof -
  have "x XOR y = 0 \<longleftrightarrow> x = y" for x y :: u8
  proof -
    have "(x XOR y) XOR y = x" by (simp add: xor.assoc)
    then show ?thesis by (metis xor.left_neutral xor_self_eq)
  qed
  then show ?thesis by (simp add: crypto_const_time_compare_def Let_def fold_or_0)
qed

text \<open>What the two functions of OpenSSL promise about lengths.\<close>

definition kdf_ok :: "kdf \<Rightarrow> bool" where
  "kdf_ok kdf \<longleftrightarrow> (\<forall>pw salt i n dk. kdf pw salt i n = Some dk \<longrightarrow> length dk = n)"

definition rand_ok :: "(nat \<Rightarrow> u8 list option) \<Rightarrow> bool" where
  "rand_ok rand_bytes \<longleftrightarrow> (\<forall>n salt. rand_bytes n = Some salt \<longrightarrow> length salt = n)"

lemma length_lcg_salt: "length (lcg_salt seed n) = n"
  by (induction n arbitrary: seed) (simp_all add: Let_def)

lemma length_salt: "rand_ok rand_bytes \<Longrightarrow> length (fst (crypto_generate_salt rand_bytes now CRYPTO_SALT_LEN)) = CRYPTO_SALT_LEN"
  by (auto simp: crypto_generate_salt_def CRYPTO_SALT_LEN_def length_lcg_salt rand_ok_def split: option.split)

lemma hash_passwordD:
  assumes "crypto_hash_password kdf rand_bytes now config password = Some ph" "kdf_ok kdf" "rand_ok rand_bytes"
  shows "0 < length password" "length password \<le> CRYPTO_MAX_PASSWORD_LEN" "ph_iterations ph = cfg_iterations config" "cfg_iterations config \<noteq> 0"
    "kdf (combined config password) (ph_salt ph) (ph_iterations ph) CRYPTO_HASH_LEN = Some (ph_hash ph)"
    "length (ph_salt ph) = CRYPTO_SALT_LEN" "length (ph_hash ph) = CRYPTO_HASH_LEN" "ph_salt_len ph = CRYPTO_SALT_LEN" "ph_hash_len ph = CRYPTO_HASH_LEN"
    "storage_string ph = mcf_string (ph_iterations ph) (the (crypto_base64_encode (ph_salt ph) CRYPTO_MAX_B64_LEN))
       (the (crypto_base64_encode (ph_hash ph) CRYPTO_MAX_B64_LEN))"
  using assms(1) length_salt [OF assms(3), of now] assms(2)
  by (auto simp: crypto_hash_password_def crypto_pbkdf2_def Let_def kdf_ok_def not_less split: if_splits option.splits)

text \<open>C19. A password verifies against its own hash, whether or not the random generator worked; another password of a valid length
  verifies exactly when the key derivation gives the same bytes for it.\<close>

theorem verify_password_exact:
  assumes "crypto_hash_password kdf rand_bytes now config password = Some ph" "kdf_ok kdf" "rand_ok rand_bytes"
  shows "crypto_verify_password kdf config password ph = 1
    \<and> (\<forall>other. 0 < length other \<and> length other \<le> CRYPTO_MAX_PASSWORD_LEN \<longrightarrow>
         crypto_verify_password kdf config other ph =
           (case kdf (combined config other) (ph_salt ph) (ph_iterations ph) CRYPTO_HASH_LEN of
              None \<Rightarrow> -1 | Some key \<Rightarrow> if key = ph_hash ph then 1 else 0))"
proof -
  note h = hash_passwordD [OF assms]
  have eq: "(\<forall>i < CRYPTO_HASH_LEN. key ! i = ph_hash ph ! i) \<longleftrightarrow> key = ph_hash ph"
    if "kdf pw (ph_salt ph) (ph_iterations ph) CRYPTO_HASH_LEN = Some key" for pw key
    using that assms(2) h(7) by (auto simp: kdf_ok_def list_eq_iff_nth_eq)
  have "crypto_verify_password kdf config other ph =
      (case kdf (combined config other) (ph_salt ph) (ph_iterations ph) CRYPTO_HASH_LEN of
         None \<Rightarrow> -1 | Some key \<Rightarrow> if key = ph_hash ph then 1 else 0)"
    if "0 < length other" "length other \<le> CRYPTO_MAX_PASSWORD_LEN" for other
  proof -
    have "combined config other \<noteq> []" "CRYPTO_HASH_LEN \<noteq> 0" using that(1) by (auto simp: combined_def bytes_of_def CRYPTO_HASH_LEN_def)
    moreover have "\<not> ph_iterations ph < 1" using h(3,4) by simp
    ultimately have "crypto_pbkdf2 kdf (combined config other) (take (ph_salt_len ph) (ph_salt ph)) (ph_iterations ph) CRYPTO_HASH_LEN =
        kdf (combined config other) (ph_salt ph) (ph_iterations ph) CRYPTO_HASH_LEN" using h(6,8) by (simp add: crypto_pbkdf2_def)
    then show ?thesis using that eq [of "combined config other"] h(9)
      by (auto simp: crypto_verify_password_def const_time_compare_exact split: option.split)
  qed
  with h(1,2,5) show ?thesis by simp
qed

text \<open>A key derivation for the examples: the bytes of the password, filled up.\<close>

definition demo_kdf :: kdf where
  "demo_kdf pw salt i n = Some (take n (pw @ replicate n 7))"

definition demo_config :: CryptoKdfConfig where
  "demo_config = (crypto_kdf_init [])\<lparr>cfg_iterations := 1000\<rparr>"

lemma demo_kdf_ok: "kdf_ok demo_kdf" "rand_ok (\<lambda>n. Some (replicate n 5))"
  by (auto simp: kdf_ok_def rand_ok_def demo_kdf_def)

lemma demo_hash: "\<exists>ph. crypto_hash_password demo_kdf (\<lambda>n. Some (replicate n 5)) 0 demo_config ''secret'' = Some ph \<and> ph_hash ph = bytes_of ''secret'' @ replicate 26 7"
proof -
  have b: "combined demo_config ''secret'' = bytes_of ''secret''" "bytes_of ''secret'' \<noteq> []" "length (bytes_of ''secret'') = 6"
    by (simp_all add: combined_def demo_config_def crypto_kdf_init_def Let_def bytes_of_def)
  have "cfg_iterations demo_config = 1000" by (simp add: demo_config_def)
  then show ?thesis using b
    by (simp add: crypto_hash_password_def crypto_pbkdf2_def demo_kdf_def Let_def CRYPTO_MAX_PASSWORD_LEN_def CRYPTO_HASH_LEN_def)
qed

theorem verify_password_exact_witness:
  "\<exists>ph. crypto_hash_password demo_kdf (\<lambda>n. Some (replicate n 5)) 0 demo_config ''secret'' = Some ph
     \<and> crypto_verify_password demo_kdf demo_config ''secret'' ph = 1 \<and> crypto_verify_password demo_kdf demo_config ''guess'' ph = 0"
proof -
  obtain ph where ph: "crypto_hash_password demo_kdf (\<lambda>n. Some (replicate n 5)) 0 demo_config ''secret'' = Some ph"
    "ph_hash ph = bytes_of ''secret'' @ replicate 26 7" using demo_hash by blast
  note v = verify_password_exact [OF ph(1) demo_kdf_ok]
  have "hd (take 32 (combined demo_config ''guess'' @ replicate 32 7)) \<noteq> hd (ph_hash ph)"
    by (simp add: ph(2) combined_def demo_config_def crypto_kdf_init_def Let_def bytes_of_def)
  then have "take 32 (combined demo_config ''guess'' @ replicate 32 7) \<noteq> ph_hash ph" by metis
  then have "crypto_verify_password demo_kdf demo_config ''guess'' ph = 0"
    using v by (simp add: demo_kdf_def CRYPTO_HASH_LEN_def CRYPTO_MAX_PASSWORD_LEN_def)
  with ph v show ?thesis by blast
qed

section \<open>The stored format\<close>

lemma length_dec_digits: "n < 10 ^ Suc k \<Longrightarrow> length (dec_digits n) \<le> Suc k"
proof (induction k arbitrary: n)
  case 0
  then show ?case by (simp add: dec_digits.simps)
next
  case (Suc k)
  have "n div 10 < 10 ^ Suc k" using Suc(2) by (simp add: less_mult_imp_div_less mult.commute)
  from Suc(1) [OF this] show ?case by (subst dec_digits.simps) simp
qed

lemma strtoul_digits: "strtoul_u32 (dec_digits (unat (i :: u32))) = i"
proof (cases "dec_digits (unat i)")
  case (Cons c cs)
  then have c: "is_digit c" using dec_digits_digit [of c "unat i"] by simp
  have "uint i < 2 ^ LENGTH(32)" by (rule unsigned_less)
  then have "\<not> int (unat i) \<ge> 2 ^ 64" by simp
  moreover have "dec_value (c # cs) = int (unat i)" using dec_value_digits [of "unat i"] Cons by simp
  ultimately show ?thesis using Cons digit_not_special [OF c] by (simp add: strtoul_u32_def)
qed simp

lemma b64_32:
  assumes "length src = 32"
  obtains b where "crypto_base64_encode src CRYPTO_MAX_B64_LEN = Some b" "length b = 44" "\<forall>c \<in> set b. c \<noteq> CHR ''$''"
    "crypto_base64_decode b 32 = Some (take 30 src @ [255, 255], 31)"
proof -
  have g: "groups src = 11" "pad_len src = 1" using assms by (simp_all add: groups_def pad_len_def)
  have "decoded src = take 30 src @ [255, 255, 255]" using assms by (simp add: decoded_def)
  moreover have "length (take 30 src) = 30" using assms by simp
  ultimately have "take 32 (decoded src) = take 30 src @ [255, 255]" "length (decoded src) = 33" by (simp_all add: take_append)
  then have "crypto_base64_decode (b64_body src @ [CHR ''='']) 32 = Some (take 30 src @ [255, 255], 31)"
    using base64_decode_body [of src 32] g by simp
  moreover have "crypto_base64_encode src CRYPTO_MAX_B64_LEN = Some (b64_body src @ [CHR ''=''])"
    using base64_encode_body [of src CRYPTO_MAX_B64_LEN] g by (simp add: CRYPTO_MAX_B64_LEN_def)
  moreover have "length (b64_body src @ [CHR ''='']) = 44" using length_b64_body [of src] g by simp
  moreover have "\<forall>c \<in> set (b64_body src @ [CHR ''='']). c \<noteq> CHR ''$''" using b64_body_chars by auto
  ultimately show thesis using that by blast
qed

lemma mcf_field_32:
  assumes "crypto_base64_decode b 32 = Some (take 30 src @ [255, 255], 31)" "length src = 32" "length junk = 32"
  shows "mcf_field 32 junk b = Some (take 30 src @ [255, 0], 31)"
proof -
  have "length (take 30 src) = 30" using assms(2) by simp
  then show ?thesis using assms(1,3) by (simp add: mcf_field_def Let_def take_append)
qed

text \<open>C31. Reading back the stored form of a hash that was just made succeeds, but gives a salt and a hash of 31 bytes, of which the first 30 are
  the original ones and the last is 255, whatever the arrays held before: the padding of the encoded 32 bytes is decoded wrongly.\<close>

theorem parse_mcf_corrupts:
  assumes "crypto_hash_password kdf rand_bytes now config password = Some ph" "kdf_ok kdf" "rand_ok rand_bytes"
    "10 \<le> cfg_iterations config" "length junk1 = 32" "length junk2 = 32"
  shows "\<exists>ph'. crypto_parse_mcf junk1 junk2 (storage_string ph) = Some ph' \<and> ph_iterations ph' = ph_iterations ph
    \<and> ph_salt ph' = take 30 (ph_salt ph) @ [255, 0] \<and> ph_salt_len ph' = 31
    \<and> ph_hash ph' = take 30 (ph_hash ph) @ [255, 0] \<and> ph_hash_len ph' = 31"
proof -
  note h = hash_passwordD [OF assms(1-3)]
  have len: "length (ph_salt ph) = 32" "length (ph_hash ph) = 32" using h(6,7) by (simp_all add: CRYPTO_SALT_LEN_def CRYPTO_HASH_LEN_def)
  obtain s where s: "crypto_base64_encode (ph_salt ph) CRYPTO_MAX_B64_LEN = Some s" "length s = 44" "\<forall>c \<in> set s. c \<noteq> CHR ''$''"
    "crypto_base64_decode s 32 = Some (take 30 (ph_salt ph) @ [255, 255], 31)" by (rule b64_32 [OF len(1)])
  obtain k where k: "crypto_base64_encode (ph_hash ph) CRYPTO_MAX_B64_LEN = Some k" "length k = 44" "\<forall>c \<in> set k. c \<noteq> CHR ''$''"
    "crypto_base64_decode k 32 = Some (take 30 (ph_hash ph) @ [255, 255], 31)" by (rule b64_32 [OF len(2)])
  define d where "d = dec_digits (unat (ph_iterations ph))"
  have "unat (ph_iterations ph) < 2 ^ LENGTH(32)" by (rule unsigned_less)
  then have "unat (ph_iterations ph) < 10 ^ Suc 9" by simp
  then have d: "length d \<le> 10" "d \<noteq> []" "\<forall>c \<in> set d. c \<noteq> CHR ''$''" "strtoul_u32 d = ph_iterations ph"
    using length_dec_digits [of _ 9] strtoul_digits by (auto simp: d_def is_digit_def dest: dec_digits_digit)
  let ?rest = "''pbkdf2-sha256'' @ CHR ''$'' # d @ CHR ''$'' # s @ CHR ''$'' # k"
  have st: "storage_string ph = CHR ''$'' # ?rest"
    using h(10) s(1,2) k(1,2) d(1) by (simp add: mcf_string_def d_def [symmetric] strncpy_buf_def CRYPTO_MAX_B64_LEN_def)
  have ne: "s \<noteq> []" "k \<noteq> []" using s(2) k(2) by auto
  have "strtok (\<lambda>c. c = CHR ''$'') ?rest = [''pbkdf2-sha256'', d, s, k]"
    using strtok_word [of "''pbkdf2-sha256''" "\<lambda>c. c = CHR ''$''"] strtok_word [OF d(2), of "\<lambda>c. c = CHR ''$''"] strtok_word [OF ne(1), of "\<lambda>c. c = CHR ''$''"]
      strtok_word [OF ne(2), of "\<lambda>c. c = CHR ''$''"] d(3) s(3) k(3) by simp
  moreover have "strncpy_buf (CRYPTO_MAX_B64_LEN * 2 + 128) (CHR ''$'' # ?rest) = CHR ''$'' # ?rest"
    using s(2) k(2) d(1) by (simp add: strncpy_buf_def CRYPTO_MAX_B64_LEN_def)
  moreover have "\<not> ph_iterations ph < 10" using assms(4) h(3) by simp
  ultimately show ?thesis using d(4) mcf_field_32 [OF s(4) len(1) assms(5)] mcf_field_32 [OF k(4) len(2) assms(6)]
    by (simp add: crypto_parse_mcf_def st Let_def CRYPTO_SALT_LEN_def CRYPTO_HASH_LEN_def del: append.simps)
qed

theorem parse_mcf_corrupts_witness:
  "\<exists>ph ph'. crypto_hash_password demo_kdf (\<lambda>n. Some (replicate n 5)) 0 demo_config ''secret'' = Some ph
     \<and> crypto_parse_mcf (replicate 32 0) (replicate 32 0) (storage_string ph) = Some ph'
     \<and> ph_hash ph = bytes_of ''secret'' @ replicate 26 7 \<and> ph_hash ph' = take 30 (ph_hash ph) @ [255, 0] \<and> ph_hash_len ph' = 31"
proof -
  obtain ph where ph: "crypto_hash_password demo_kdf (\<lambda>n. Some (replicate n 5)) 0 demo_config ''secret'' = Some ph"
    "ph_hash ph = bytes_of ''secret'' @ replicate 26 7" using demo_hash by blast
  have "10 \<le> cfg_iterations demo_config" by (simp add: demo_config_def)
  from parse_mcf_corrupts [OF ph(1) demo_kdf_ok this, of "replicate 32 0" "replicate 32 0"] show ?thesis using ph by auto
qed

section \<open>Further facts\<close>

text \<open>Padding alone decodes to no byte, but the reported length wraps around.\<close>

lemma decode_padding_wraps: "crypto_base64_decode ''='' cap = Some ([], -1)"
  by (simp add: crypto_base64_decode_def decode_loop.simps Let_def)

text \<open>A freed secure buffer goes back as zeros.\<close>

lemma secure_free_zeroes:
  assumes "sb_data buf = Some bytes" "length bytes = sb_len buf"
  shows "snd (crypto_secure_free buf) = replicate (sb_len buf) 0"
proof -
  have z: "fold (\<lambda>i b. b[i := 0]) [0..<n] bytes = replicate n 0 @ drop n bytes" if "n \<le> length bytes" for n
    using that
  proof (induction n)
    case (Suc n)
    then have "drop n bytes = bytes ! n # drop (Suc n) bytes" by (simp add: Cons_nth_drop_Suc)
    with Suc show ?case by (simp add: list_update_append replicate_append_same [symmetric])
  qed simp
  show ?thesis using assms z [of "sb_len buf"] by (simp add: crypto_secure_free_def)
qed

end
