(* ===== verification/Spec2Isabelle.thy ===== *)
theory Spec2Isabelle
  imports Job_Coordinator Worker_Limits Consistent_Hash Bloom_Filter Json_Roundtrip Router Message_Safety Rbac Saga_Run Lru_Refine Workflow Crypto_Props
begin

text \<open>
  A verification of the background job system in \<open>src/mini-job-system\<close>: the ten C parts of the module, each
  modelled operation by operation from its source, and their composition in the job coordinator; of three
  self-contained parts of \<open>src/mini-business-infra\<close>, the consistent-hash ring, the Bloom filter and the message queue;
  of the JSON helper and the router of \<open>src/mini-web-server\<close>; of the role-based access control and the
  cryptographic helpers of \<open>src/mini-auth-security\<close>; of the saga orchestrator and the workflow engine of \<open>src/mini-business-arch\<close>; and of the cache of
  \<open>src/mini-backend-framework\<close>.

  \<^bold>\<open>The program.\<close>  The coordinator (\<open>job_coordinator.c\<close>) is a facade.  A job submitted to it goes, possibly
  through a circuit breaker or a rate limiter, into the queue of a pool of worker threads; or it is stored in
  the cron scheduler, the delayed queue or the priority scheduler, which the coordinator's tick polls.
  Dependency graphs of jobs decide which jobs are ready; retries and progress reports are kept per job.
  The parts share no state: the coordinator holds a handle to each and calls them in turn.

  \<^bold>\<open>The theories.\<close>
  \<^item> \<open>Prelude\<close>: the C types (words, \<open>time_t\<close>, addresses, bounded strings), the scan loops the sources
    repeat, and the shared list and multiset lemmas.  \<open>Float64\<close>: binary64 numbers as rationals with
    rounding to nearest even, for the sources that compute with \<open>double\<close>.  \<open>Fifo\<close>: ring buffers and
    the interface of a bounded queue.  \<open>Calendar\<close>: the calendar functions of the C library as an
    interface, and UTC.  \<open>C_Text\<close>: the functions of the C library on strings.  \<open>Binary_Heap\<close>: the two sift loops of a
    heap in an array, as the locale \<open>binary_heap\<close> that two sources instantiate.
  \<^item> \<open>Delayed_Queue\<close> (\<open>delayed_queue.c\<close>): the binary heap of timed entries with deduplication and
    cancellation.  Heap order and the multiset of entries are kept by every operation; a dequeue
    returns the earliest live entry exactly when one is due.  The locale \<open>timer_queue\<close> is the contract
    the coordinator relies on.
  \<^item> \<open>Circuit_Breaker\<close> (\<open>circuit_breaker.c\<close>): the three-state breaker.  Its transitions are exactly those of
    the state machine, counters respect their thresholds, an open breaker rejects until its cooldown.
  \<^item> \<open>Task_Retry\<close> (\<open>task_retry.c\<close>): the retry table, exponential backoff with jitter at 64 bits,
    dead letters.  Delays follow the capped exponential, retries are bounded.
  \<^item> \<open>Job_Dag\<close>, \<open>Dag_Invariant\<close>, \<open>Dag_Order\<close>, \<open>Dag_Exec\<close> (\<open>job_dag.c\<close>): the graph and its operations; every
    run keeps it acyclic; before jobs are completed both topological sorts, the cycle test, the critical path
    and the levels are correct (afterwards Kahn's sort and the critical path are not: \<open>orders_after_completion\<close>);
    executing ready nodes never gets stuck.
  \<^item> \<open>Worker_Pool\<close>, \<open>Worker_Limits\<close> (\<open>worker_pool.c\<close>): the pool, its worker threads and the callers of
    \<open>wp_set_concurrency_limit\<close> as a step machine in which they interleave at every access to shared state; what
    the source does under the lock of the queue is one step, the unlocked \<open>find_concurrency_index\<close> is one step per
    statement.  Under every interleaving accepted tasks are taken in order and run exactly once; concurrency limits
    hold after searches that did not overlap, and can be broken by searches that do.
  \<^item> \<open>Job_Progress\<close> (\<open>job_progress.c\<close>): percentage, estimate, log.  The percentage stays within bounds and
    is 100 exactly when all steps are done, despite rounding.
  \<^item> \<open>Rate_Limiter\<close> (\<open>rate_limiter.c\<close>): token bucket, leaky bucket, sliding and fixed window.  Turner's bound for
    the token bucket, the budget of the sliding window, bounds of every level.
  \<^item> \<open>Priority_Scheduler\<close> (\<open>priority_scheduler.c\<close>): the rings of job indices refine one stable queue ordered by
    submitted priority, up to 64 jobs per level; the lottery is proportional to the tickets.
  \<^item> \<open>Cron_Scheduler\<close> (\<open>cron_scheduler.c\<close>): the parser inverts printing; for ascending lists of
    seconds and in UTC the search returns the least matching time, and a tick ends and calls exactly the due jobs.
  \<^item> \<open>Job_Coordinator\<close> (\<open>job_coordinator.c\<close>): all operations of the facade over the models of the parts, with an
    explicit store of the wrapper contexts it allocates.  A cron job that fires a second time uses a freed context.
  \<^item> \<open>Consistent_Hash\<close> (\<open>mini-business-infra/src/consistent_hash.c\<close>): the ring of virtual nodes, with \<open>qsort\<close> as the
    locale \<open>vnode_sort\<close>.  A key belongs to the closest virtual node clockwise; adding and removing nodes move
    only the keys they must; replica sets are distinct; rebuilding changes nothing.
  \<^item> \<open>Bloom_Filter\<close> (\<open>mini-business-infra/src/bloom_filter.c\<close>): the bit array refines a set of elements; there are no
    false negatives; the bit count is exact.
  \<^item> \<open>Json\<close>, \<open>Json_Roundtrip\<close> (\<open>mini-web-server/src/json_helper.c\<close>): tokenizer, recursive-descent parser, value tree, serializer
    into a buffer, paths.  Parsing inverts serializing; what the parser returns is well formed; a path leads where its
    steps lead.  A repeated key, and an error inside a container that is not empty, free memory that was not allocated: the
    result of the parser is then \<open>Undefined\<close>.
  \<^item> \<open>Router\<close> (\<open>mini-web-server/src/router.c\<close>): the trie of path segments.  Without parameters and wildcards, registration and
    dispatch refine a table with one route per path.
  \<^item> \<open>Message_Queue\<close>, \<open>Message_Delivery\<close>, \<open>Message_Priority\<close>, \<open>Message_Routing\<close>, \<open>Message_Safety\<close>
    (\<open>mini-business-infra/src/message_queue.c\<close>): the broker with its exchanges, bindings and queues; publishing with dead
    letters, consuming, priorities, deduplication, topic patterns.  The locale \<open>publish_invariant\<close> carries properties through
    the recursion of publishing, the locale \<open>delivery_loop\<close> describes the two delivery loops.  Delivery is exact when nothing
    overflows; publishing returns when dead letters run into no circle and otherwise never; consumption keeps order or
    priorities; the slots of the queues are valid as long as no queue is deleted.
  \<^item> \<open>Rbac\<close> (\<open>mini-auth-security/src/rbac_engine.c\<close>): roles with parents, users, cached permission masks.  A check is exact as long
    as the roles do not change after it; a later grant to a role is not seen through the cache.
  \<^item> \<open>Crypto\<close>, \<open>Crypto_Props\<close> (\<open>mini-auth-security/src/crypto_utils.c\<close>): base64, comparison in constant time, passwords, the stored
    format, with OpenSSL as parameters.  Unpadded base64 is inverted and padded base64 is not; a password verifies against its own hash, but
    not against its stored form read back.
  \<^item> \<open>Saga\<close>, \<open>Saga_Run\<close> (\<open>mini-business-arch/src/saga_orch.c\<close>): sagas, the orchestrator, the choreography bus.  A saga completes, or
    compensates exactly the completed steps in reverse; one tick ends every saga; a dispatch delivers each event to the services it names.
  \<^item> \<open>Lru_Cache\<close>, \<open>Lru_Refine\<close> (\<open>mini-backend-framework/src/cache.c\<close>): entries in an explicit store, linked by recency and in hash chains.
    Every run returns, touches no memory it does not own, leaks nothing, and refines a list of entries by recency.
  \<^item> \<open>Workflow\<close> (\<open>mini-business-arch/src/workflow_engine.c\<close>): definitions, instances, timers, the approval workflow.  Instances follow the
    transitions and stop in final states; approval requests follow their protocol.

  \<^bold>\<open>Conventions.\<close>  A record stands for the structure behind a valid handle; queries that accept a null handle
  take an option.  \<open>int\<close> counters are integers, unsigned types are words of their width.  Every clock
  reading, allocation result and library call is an argument, in the order of the source.  Callbacks
  are traces of calls; user job functions are a parameter.  The first \<open>count\<close> elements of a C
  array are a list where nothing reads beyond them, and the whole array where the source can.

  \<^bold>\<open>Bounds and loops.\<close>  Every loop is a function with a termination proof, except the catch-up loop of the
  cron tick, which is a partial function proved to return.  The search for a firing time keeps the
  source's bound of 2628000 iterations; it appears in the theorem as the horizon of the search.  The mutually
  recursive parser ends because every token but the last consumes input.  Publishing takes the depth of its
  recursion, and one more than the rank of the queues is shown to be enough; consuming takes a number of
  rounds, and the length of the queue is enough where no dead letters arrive.

  \<^bold>\<open>Code and documentation.\<close>  The theorems say what the code does.  Where a comment, a README or a test says something else, the
  text before the theorem says so: the topic exchange that ignores patterns and the meaning of a final hash, rejected messages, the
  confirm mode, the final status of a compensated saga and what one tick does to it, guards and actions of the workflow engine, aging
  and priority inheritance, two methods on one path, padded base64.

  \<^bold>\<open>Not modelled.\<close>  Deallocation; thread creation and joining; the platform branches for Windows; callbacks
  that re-enter the structure that calls them; overflow of plain \<open>int\<close>, which is undefined in C;
  printing to the standard output; and the other modules of the repository, which share no code with the parts above.

  \<^bold>\<open>Scope.\<close>  The job system is complete.  Of the other modules, the parts with a logic of their own that does not rest on the operating
  system are modelled first; what remains is input and output (HTTP, sockets, files), protocol layers around libraries that are not part
  of the repository (OAuth, JWT, TLS), and further independent parts such as the distributed cache, gateway routing, GraphQL and BPMN.
\<close>

end
